(* ===== verification/Prelude.thy ===== *)
theory Prelude
  imports Main "HOL-Library.Word" "HOL-Library.Monad_Syntax"
begin

text \<open>
  Shared vocabulary of the development: the machine integer types of the C code,
  little-endian and big-endian readings of byte sequences, the two x86 bit-scan
  instructions the code uses, and the generic lemmas on lists and words that several
  components need. Byte sequences are lists of 8-bit words. A read beyond the modelled
  buffer yields zero; the theorems about such reads state the bounds under which the
  C code stays inside its buffer.
\<close>

unbundle bit_operations_syntax

type_synonym u8 = "8 word"
type_synonym u16 = "16 word"
type_synonym u32 = "32 word"
type_synonym u64 = "64 word"
type_synonym u128 = "128 word"

named_theorems bit_rules "bit-level characterisations of the byte and word operations"
named_theorems entry_simps "how the entry accessors and updaters interact"
named_theorems table_simps "how the bucket array accessors and updaters interact"

subsection \<open>Bytes\<close>

definition byte_at :: "u8 list \<Rightarrow> nat \<Rightarrow> u8" where
  "byte_at bs i = (if i < length bs then bs ! i else 0)"

lemma byte_at_nth [simp]: "i < length bs \<Longrightarrow> byte_at bs i = bs ! i"
  by (simp add: byte_at_def)

lemma byte_at_beyond [simp]: "length bs \<le> i \<Longrightarrow> byte_at bs i = 0"
  by (simp add: byte_at_def)

lemma byte_at_update:
  "byte_at (bs[i := v]) j = (if i = j \<and> j < length bs then v else byte_at bs j)"
  by (auto simp: byte_at_def nth_list_update)

text \<open>The little-endian reading of a byte sequence, as x86 loads perform it.\<close>

primrec le_word :: "u8 list \<Rightarrow> 'a::len word" where
  "le_word [] = 0"
| "le_word (b # bs) = or (ucast b) (push_bit 8 (le_word bs))"

text \<open>The \<open>n\<close> low bytes of a word in little-endian order, as x86 stores perform it.\<close>

definition le_bytes :: "nat \<Rightarrow> 'a::len word \<Rightarrow> u8 list" where
  "le_bytes n w = map (\<lambda>i. ucast (drop_bit (8 * i) w)) [0..<n]"

lemma length_le_bytes [simp]: "length (le_bytes n w) = n"
  by (simp add: le_bytes_def)

lemma bit_le_word [bit_rules]:
  "bit (le_word bs :: 'a::len word) k \<longleftrightarrow> k < LENGTH('a) \<and> bit (byte_at bs (k div 8)) (k mod 8)"
proof (induction bs arbitrary: k)
  case Nil
  then show ?case by simp
next
  case (Cons b bs)
  show ?case
  proof (cases "k < 8")
    case True
    then show ?thesis
      by (auto simp: bit_simps byte_at_def)
  next
    case False
    then obtain j where j: "k = j + 8"
      by (metis add.commute le_Suc_ex linorder_not_less)
    have div: "k div 8 = Suc (j div 8)" and mod: "k mod 8 = j mod 8"
      using j by simp_all
    have "bit (le_word (b # bs) :: 'a word) k \<longleftrightarrow> k < LENGTH('a) \<and> bit (le_word bs :: 'a word) j"
      using j bit_imp_le_length [of b k] by (auto simp: bit_simps)
    also have "\<dots> \<longleftrightarrow> k < LENGTH('a) \<and> bit (byte_at bs (j div 8)) (j mod 8)"
      using j by (auto simp: Cons.IH)
    finally show ?thesis
      by (simp add: div mod byte_at_def)
  qed
qed

lemma bit_le_bytes [bit_rules]:
  "i < n \<Longrightarrow> bit (le_bytes n (w :: 'a::len word) ! i) k \<longleftrightarrow> k < 8 \<and> bit w (8 * i + k)"
  by (auto simp: le_bytes_def bit_simps)

lemma le_bytes_le_word:
  assumes "8 * length bs \<le> LENGTH('a::len)"
  shows "le_bytes (length bs) (le_word bs :: 'a word) = bs"
proof (rule nth_equalityI)
  fix i
  assume "i < length (le_bytes (length bs) (le_word bs :: 'a word))"
  then have i: "i < length bs" by simp
  show "le_bytes (length bs) (le_word bs :: 'a word) ! i = bs ! i"
  proof (rule bit_word_eqI)
    fix k
    assume "k < LENGTH(8)"
    then have k: "k < 8" by simp
    then have "(8 * i + k) div 8 = i" and "(8 * i + k) mod 8 = k" by simp_all
    then show "bit (le_bytes (length bs) (le_word bs :: 'a word) ! i) k = bit (bs ! i) k"
      using i k assms by (auto simp: bit_rules)
  qed
qed simp

lemma le_word_le_bytes:
  assumes "LENGTH('a::len) \<le> 8 * n"
  shows "le_word (le_bytes n (w :: 'a word)) = w"
proof (rule bit_word_eqI)
  fix k
  assume k: "k < LENGTH('a)"
  then have "k div 8 < n" using assms by linarith
  then show "bit (le_word (le_bytes n w) :: 'a word) k = bit w k"
    using k by (auto simp: bit_rules)
qed

lemma le_word_eqI:
  assumes "length as = length bs" and "8 * length as \<le> LENGTH('a::len)"
    and "(le_word as :: 'a word) = le_word bs"
  shows "as = bs"
  using le_bytes_le_word [of as, where 'a = 'a] le_bytes_le_word [of bs, where 'a = 'a] assms
  by metis

lemma le_word_or:
  "length as = length bs \<Longrightarrow> le_word as OR le_word bs = (le_word (map2 (OR) as bs) :: 'a::len word)"
  by (intro bit_word_eqI) (auto simp: bit_or_iff bit_rules byte_at_def)

lemma le_word_and:
  "length as = length bs \<Longrightarrow> le_word as AND le_word bs = (le_word (map2 (AND) as bs) :: 'a::len word)"
  by (intro bit_word_eqI) (auto simp: bit_and_iff bit_rules byte_at_def)

lemma le_word_andnot:
  "length as = length bs \<Longrightarrow>
    le_word as AND NOT (le_word bs) = (le_word (map2 (\<lambda>a b. a AND NOT b) as bs) :: 'a::len word)"
  by (intro bit_word_eqI) (auto simp: bit_and_iff bit_not_iff bit_rules byte_at_def)

lemma le_word_inject:
  assumes "length as = length bs" and "8 * length as \<le> LENGTH('a::len)"
  shows "(le_word as :: 'a word) = le_word bs \<longleftrightarrow> as = bs"
  using le_word_eqI [OF assms] by blast

lemma push_bit_le_word:
  assumes "8 * length bs \<le> LENGTH('b::len)"
  shows "push_bit (8 * i) (ucast (le_word bs :: 'b word)) = (le_word (replicate i 0 @ bs) :: 'a::len word)"
proof (rule bit_word_eqI)
  fix k
  assume k: "k < LENGTH('a)"
  show "bit (push_bit (8 * i) (ucast (le_word bs :: 'b word)) :: 'a word) k = bit (le_word (replicate i 0 @ bs) :: 'a word) k"
  proof (cases "8 * i \<le> k")
    case True
    then obtain j where j: "k = 8 * i + j" using le_Suc_ex by blast
    then have dm: "k div 8 = i + j div 8" "k mod 8 = j mod 8" by simp_all
    have "bit (byte_at bs (j div 8)) (j mod 8) \<Longrightarrow> j < 8 * length bs"
      by (auto simp: byte_at_def split: if_splits)
    then show ?thesis using k j assms
      by (auto simp: bit_rules bit_simps dm byte_at_def nth_append)
  next
    case False
    then have "k div 8 < i" by auto
    then show ?thesis using False by (auto simp: bit_rules bit_simps byte_at_def nth_append)
  qed
qed

lemma and_exp_iff:
  "n < LENGTH('a) \<Longrightarrow> (x :: 'a::len word) AND push_bit n 1 = push_bit n 1 \<longleftrightarrow> bit x n"
  "n < LENGTH('a) \<Longrightarrow> (x :: 'a::len word) AND push_bit n 1 \<noteq> 0 \<longleftrightarrow> bit x n"
proof -
  assume n: "n < LENGTH('a)"
  show "x AND push_bit n 1 = push_bit n 1 \<longleftrightarrow> bit x n"
  proof
    assume "x AND push_bit n 1 = push_bit n 1"
    then have "bit (x AND push_bit n 1) n" using n by (simp add: bit_simps)
    then show "bit x n" by (simp add: bit_simps)
  next
    assume "bit x n"
    then show "x AND push_bit n 1 = push_bit n 1"
      by (intro bit_word_eqI) (auto simp: bit_simps)
  qed
  show "x AND push_bit n 1 \<noteq> 0 \<longleftrightarrow> bit x n"
    by (simp add: bit_iff_and_push_bit_not_eq_0)
qed

lemma and_not_mask_eq: "(x :: 'a::len word) AND NOT (mask n) = push_bit n (drop_bit n x)"
  by (intro bit_word_eqI) (auto simp: bit_simps bit_mask_iff)

lemma div_mod_8_shift: "(32 + i) mod 8 = i mod (8 :: nat)" "(32 + i) div 8 = 4 + i div (8 :: nat)"
  by presburger+

lemma length_5_list: "length xs = 5 \<longleftrightarrow> (\<exists>a b c d e. xs = [a, b, c, d, e])"
  by (auto simp: numeral_eq_Suc length_Suc_conv)

lemma length_6_list: "length xs = 6 \<longleftrightarrow> (\<exists>a b c d e f. xs = [a, b, c, d, e, f])"
  by (auto simp: numeral_eq_Suc length_Suc_conv)

lemma bit_index_split: "k div 8 = i \<Longrightarrow> k = 8 * i + k mod (8 :: nat)"
  by auto

lemma push_bit_1_le_word:
  assumes "i < n" and "k < 8" and "8 * n \<le> LENGTH('a::len)"
  shows "push_bit (8 * i + k) 1 = (le_word ((replicate n 0)[i := push_bit k 1]) :: 'a word)"
proof (rule bit_word_eqI)
  fix j
  assume "j < LENGTH('a)"
  have "bit (le_word ((replicate n 0)[i := push_bit k 1]) :: 'a word) j \<longleftrightarrow> j div 8 = i \<and> j mod 8 = k"
    using assms \<open>j < LENGTH('a)\<close> by (auto simp: bit_rules byte_at_update byte_at_def bit_simps nth_list_update)
  also have "\<dots> \<longleftrightarrow> j = 8 * i + k"
    using assms(2) by auto
  finally show "bit (push_bit (8 * i + k) (1 :: 'a word)) j \<longleftrightarrow>
      bit (le_word ((replicate n 0)[i := push_bit k 1]) :: 'a word) j"
    using \<open>j < LENGTH('a)\<close> by (auto simp: bit_simps)
qed

subsection \<open>Bit scans\<close>

text \<open>
  \<open>__builtin_ctzll\<close>: the position of the lowest set bit. The result of the builtin is
  undefined for zero; the model then returns the width, and every use in the code
  guards against zero.
\<close>

primrec ctz_from :: "nat \<Rightarrow> nat \<Rightarrow> 'a::len word \<Rightarrow> nat" where
  "ctz_from 0 i w = i"
| "ctz_from (Suc n) i w = (if bit w i then i else ctz_from n (Suc i) w)"

definition ctz :: "'a::len word \<Rightarrow> nat" where
  "ctz w = ctz_from LENGTH('a) 0 w"

lemma ctz_from_props:
  "\<exists>k. i \<le> k \<and> k < i + n \<and> bit w k \<Longrightarrow>
    bit w (ctz_from n i w) \<and> (\<forall>j. i \<le> j \<and> j < ctz_from n i w \<longrightarrow> \<not> bit w j) \<and> i \<le> ctz_from n i w"
proof (induction n arbitrary: i)
  case 0
  then show ?case by auto
next
  case (Suc n)
  show ?case
  proof (cases "bit w i")
    case True
    then show ?thesis by auto
  next
    case False
    with Suc.prems have "\<exists>k. Suc i \<le> k \<and> k < Suc i + n \<and> bit w k"
      by (metis Suc_leI add_Suc_shift le_neq_implies_less)
    from Suc.IH [OF this] False show ?thesis
      by (auto simp: Suc_le_eq) (metis le_neq_implies_less)
  qed
qed

lemma ctz_bit: "w \<noteq> 0 \<Longrightarrow> bit w (ctz w)"
  and ctz_least: "w \<noteq> 0 \<Longrightarrow> j < ctz w \<Longrightarrow> \<not> bit w j"
proof -
  assume "w \<noteq> 0"
  then obtain k where "k < LENGTH('a)" and "bit w k"
    by (metis bit_imp_le_length bit_word_eqI bit_0_eq bot_apply bot_bool_def)
  then have "\<exists>k. 0 \<le> k \<and> k < 0 + LENGTH('a) \<and> bit w k" by auto
  from ctz_from_props [OF this] show "bit w (ctz w)" and "j < ctz w \<Longrightarrow> \<not> bit w j"
    by (auto simp: ctz_def)
qed

lemma ctz_eqI:
  assumes "bit w k" and "\<And>j. j < k \<Longrightarrow> \<not> bit w j"
  shows "ctz w = k"
proof -
  have "w \<noteq> 0" using assms(1) by auto
  then show ?thesis
    using ctz_bit ctz_least assms by (metis linorder_neqE_nat)
qed

subsection \<open>Words as numbers\<close>

lemma unat_and_mask: "unat (w AND mask n :: 'a::len word) = unat w mod 2 ^ n"
  by (metis take_bit_eq_mask take_bit_eq_mod unsigned_take_bit_eq)

lemma unat_add_small: "unat (a :: 'a::len word) + unat b < 2 ^ LENGTH('a) \<Longrightarrow> unat (a + b) = unat a + unat b"
  by (simp add: unat_word_ariths)

lemma unat_mult_small: "unat (a :: 'a::len word) * unat b < 2 ^ LENGTH('a) \<Longrightarrow> unat (a * b) = unat a * unat b"
  by (simp add: unat_word_ariths)

lemma unat_diff_le: "b \<le> a \<Longrightarrow> unat (a - b :: 'a::len word) = unat a - unat b"
  by (simp add: unat_sub word_le_nat_alt)

lemma byte_div_mod: "y < 8 \<Longrightarrow> (8 * x + y) div 8 = x" "y < 8 \<Longrightarrow> (8 * x + y) mod 8 = (y :: nat)"
  by simp_all

text \<open>The bit mirrored in a big-endian load of \<open>m + 1\<close> bytes from byte \<open>d\<close> on.\<close>

lemma mirror_bit:
  assumes "n < 8 * m + 8"
  shows "8 * d + (8 * m + 7) - n = 8 * (d + (m - n div 8)) + (7 - n mod (8 :: nat))"
proof -
  obtain q r where n: "n = 8 * q + r" and r: "r < 8"
    by (metis mult.commute div_mult_mod_eq mod_less_divisor zero_less_numeral)
  then have "q \<le> m" using assms by linarith
  then obtain e where m: "m = q + e" by (metis le_Suc_ex)
  have "r \<le> 7" using r by simp
  then obtain r' where "7 = r + r'" using le_Suc_ex by blast
  then show ?thesis using n m r by (simp add: byte_div_mod)
qed

end
