(* ===== verification/Bits.thy ===== *)
theory Bits
  imports Prelude
begin

text \<open>
  The self-contained utility functions of \<open>util.c\<close> and \<open>util.h\<close>: bit strings addressed
  from the most significant bit of the first byte (\<open>get_bit\<close>, \<open>set_bit_at\<close>,
  \<open>extract_bits\<close>, \<open>put_bits\<close>, \<open>copy_bits\<close>, \<open>last_bit_before\<close>) and the growable buffer.
  The lemmas characterise every multi-bit operation by \<open>get_bit\<close>.
\<close>

subsection \<open>Loads, stores and the x86 builtins\<close>

definition load_le32 :: "u8 list \<Rightarrow> nat \<Rightarrow> u32" where
  "load_le32 bs i = le_word (map (byte_at bs) [i..<i + 4])"

definition load_le64 :: "u8 list \<Rightarrow> nat \<Rightarrow> u64" where
  "load_le64 bs i = le_word (map (byte_at bs) [i..<i + 8])"

definition store_le32 :: "u8 list \<Rightarrow> nat \<Rightarrow> u32 \<Rightarrow> u8 list" where
  "store_le32 bs i w = fold (\<lambda>k bs'. bs'[i + k := le_bytes 4 w ! k]) [0..<4] bs"

definition bswap32 :: "u32 \<Rightarrow> u32" where
  "bswap32 w = le_word (rev (le_bytes 4 w))"

definition bswap64 :: "u64 \<Rightarrow> u64" where
  "bswap64 w = le_word (rev (le_bytes 8 w))"

text \<open>\<open>bextr\<close>: bits 0 to 7 of the control word are the start, bits 8 to 15 the length.\<close>

definition bextr32 :: "u32 \<Rightarrow> nat \<Rightarrow> u32" where
  "bextr32 src ctrl = drop_bit (ctrl mod 256) src AND mask (ctrl div 256 mod 256)"

subsection \<open>Single bits\<close>

definition get_bit :: "u8 list \<Rightarrow> nat \<Rightarrow> bool" where
  "get_bit bitstring i = (push_bit (i mod 8) (byte_at bitstring (i div 8)) AND 0x80 \<noteq> 0)"

definition set_bit_at :: "u8 list \<Rightarrow> nat \<Rightarrow> bool \<Rightarrow> u8 list" where
  "set_bit_at bitstring i value =
     (let m = drop_bit (i mod 8) (0x80 :: u8);
          byte = i div 8;
          cleared = byte_at bitstring byte AND NOT m
      in bitstring[byte := cleared OR (m * (if value then 1 else 0))])"

subsection \<open>Groups of bits\<close>

text \<open>
  The C code computes the first byte of the containing double word as a signed
  difference and replaces a negative result by zero; subtraction on natural numbers is
  that clamped difference.
\<close>

definition dword_start_byte :: "nat \<Rightarrow> nat \<Rightarrow> nat" where
  "dword_start_byte start_bit num_bits = (let last_bit = start_bit + num_bits - 1 in last_bit div 8 - 3)"

definition extract_bits :: "u8 list \<Rightarrow> nat \<Rightarrow> nat \<Rightarrow> u32" where
  "extract_bits bitstring start_bit num_bits =
     (let start = dword_start_byte start_bit num_bits;
          containing_dword = bswap32 (load_le32 bitstring start);
          offset = 32 + start * 8 - start_bit - num_bits
      in bextr32 containing_dword (num_bits * 256 + offset))"

definition put_bits :: "u8 list \<Rightarrow> nat \<Rightarrow> nat \<Rightarrow> u32 \<Rightarrow> u8 list" where
  "put_bits bitstring start_bit num_bits bits =
     (let start = dword_start_byte start_bit num_bits;
          containing_dword = bswap32 (load_le32 bitstring start);
          offset = 32 + start * 8 - start_bit - num_bits;
          m = push_bit offset (mask num_bits :: u32);
          dword1 = containing_dword AND NOT m;
          dword2 = dword1 OR push_bit offset bits
      in store_le32 bitstring start (bswap32 dword2))"

text \<open>
  The loop of \<open>copy_bits\<close> runs while \<open>pos <= num_bits\<close>; its trailing partial-byte case is
  kept although the loop has then already covered every bit.
\<close>

function copy_bits_loop :: "nat \<Rightarrow> nat \<Rightarrow> u8 list \<Rightarrow> u8 list \<Rightarrow> nat \<Rightarrow> nat \<Rightarrow> u8 list \<times> nat \<times> nat" where
  "copy_bits_loop pos dst_pos dest src src_offset num_bits =
     (if pos \<le> num_bits
      then copy_bits_loop (pos + 8) (dst_pos + 1)
             (dest[dst_pos := ucast (extract_bits src (src_offset + pos) 8)]) src src_offset num_bits
      else (dest, pos, dst_pos))"
  by pat_completeness auto
termination
  by (relation "measure (\<lambda>(pos, dst_pos, dest, src, off, n). Suc n - pos)") auto

declare copy_bits_loop.simps [simp del]

definition copy_bits :: "u8 list \<Rightarrow> u8 list \<Rightarrow> nat \<Rightarrow> nat \<Rightarrow> u8 list" where
  "copy_bits dest src src_offset num_bits =
     (let (dest', pos, dst_pos) = copy_bits_loop 0 0 dest src src_offset num_bits
      in if pos < num_bits
         then (let bits_left = num_bits - pos
               in dest'[dst_pos := ucast (push_bit (8 - bits_left) (extract_bits src (src_offset + pos) bits_left))])
         else dest')"

definition last_bit_before :: "u8 list \<Rightarrow> nat \<Rightarrow> int" where
  "last_bit_before bitstring end =
     (let bitstring_value = bswap64 (load_le64 bitstring 0);
          m = drop_bit end (-1 :: u64);
          interesting = bitstring_value AND NOT m
      in if interesting = 0 then -1 else 63 - int (ctz interesting))"

subsection \<open>The growable buffer\<close>

record dynamic_buffer =
  db_size :: nat
  db_pos :: nat

definition dynamic_buffer_init :: dynamic_buffer where
  "dynamic_buffer_init = \<lparr>db_size = 1024, db_pos = 0\<rparr>"

definition dynamic_buffer_extend :: "dynamic_buffer \<Rightarrow> nat \<Rightarrow> nat \<times> dynamic_buffer" where
  "dynamic_buffer_extend buf data_size =
     (let old_pos = db_pos buf;
          buf1 = (if db_pos buf + data_size > db_size buf
                  then buf\<lparr>db_size := db_size buf * 2 + data_size\<rparr> else buf)
      in (old_pos, buf1\<lparr>db_pos := db_pos buf1 + data_size\<rparr>))"

subsection \<open>Characterisation by single bits\<close>

lemma get_bit_iff [bit_rules]: "get_bit bs i \<longleftrightarrow> bit (byte_at bs (i div 8)) (7 - i mod 8)"
proof -
  let ?b = "push_bit (i mod 8) (byte_at bs (i div 8))"
  have k: "i mod 8 < 8" by simp
  have eq: "(0x80 :: u8) = push_bit 7 1" by (simp add: push_bit_eq_mult)
  have "?b AND 0x80 \<noteq> 0 \<longleftrightarrow> bit ?b 7"
    unfolding eq by (simp add: bit_iff_and_push_bit_not_eq_0)
  then show ?thesis using k
    by (auto simp: get_bit_def bit_simps)
qed

lemma get_bit_beyond: "8 * length bs \<le> i \<Longrightarrow> \<not> get_bit bs i"
  by (simp add: get_bit_iff less_eq_div_iff_mult_less_eq mult.commute)

lemma bit_0x80: "bit (0x80 :: u8) j \<longleftrightarrow> j = 7"
proof (cases "j < 8")
  case True
  have "\<forall>j \<in> set [0..<8]. bit (0x80 :: u8) j = (j = 7)" by code_simp
  with True show ?thesis by simp
next
  case False
  then show ?thesis using bit_imp_le_length [of "0x80 :: u8" j] by auto
qed

lemma bit_80_drop: "k < 8 \<Longrightarrow> bit (drop_bit k (0x80 :: u8)) j \<longleftrightarrow> j = 7 - k"
  by (auto simp: bit_drop_bit_eq bit_0x80 simp del: bit_numeral_word_iff)

lemma length_set_bit_at [simp]: "length (set_bit_at bs i v) = length bs"
  by (simp add: set_bit_at_def Let_def)

lemma get_set_bit_at:
  assumes "i < 8 * length bs"
  shows "get_bit (set_bit_at bs i v) j = (if j = i then v else get_bit bs j)"
proof -
  have i: "i div 8 < length bs" using assms by linarith
  have byte: "(7 - j mod 8 = 7 - i mod 8) = (j = i)" if "j div 8 = i div 8"
  proof -
    have "j mod 8 = i mod 8 \<longleftrightarrow> j = i" using that by (metis div_mult_mod_eq)
    moreover have "j mod 8 < 8" and "i mod 8 < 8" by simp_all
    ultimately show ?thesis by linarith
  qed
  show ?thesis
  proof (cases "j div 8 = i div 8")
    case True
    with i byte show ?thesis
      by (auto simp: get_bit_iff set_bit_at_def Let_def byte_at_update bit_and_iff bit_or_iff bit_not_iff bit_80_drop)
  next
    case False
    then show ?thesis
      by (auto simp: get_bit_iff set_bit_at_def Let_def byte_at_update)
  qed
qed

lemma bit_bswap32 [bit_rules]:
  "bit (bswap32 w) n \<longleftrightarrow> n < 32 \<and> bit w (8 * (3 - n div 8) + n mod 8)"
proof (cases "n < 32")
  case True
  then have "n div 8 < 4" by simp
  then show ?thesis using True
    by (auto simp: bswap32_def bit_rules rev_nth)
next
  case False
  then show ?thesis by (auto simp: bswap32_def bit_rules)
qed

lemma bit_bswap64 [bit_rules]:
  "bit (bswap64 w) n \<longleftrightarrow> n < 64 \<and> bit w (8 * (7 - n div 8) + n mod 8)"
proof (cases "n < 64")
  case True
  then have "n div 8 < 8" by simp
  then show ?thesis using True
    by (auto simp: bswap64_def bit_rules rev_nth)
next
  case False
  then show ?thesis by (auto simp: bswap64_def bit_rules)
qed

lemma bit_load_le32 [bit_rules]:
  "bit (load_le32 bs i) n \<longleftrightarrow> n < 32 \<and> bit (byte_at bs (i + n div 8)) (n mod 8)"
  by (cases "n < 32") (auto simp: load_le32_def bit_rules)

lemma bit_load_le64 [bit_rules]:
  "bit (load_le64 bs i) n \<longleftrightarrow> n < 64 \<and> bit (byte_at bs (i + n div 8)) (n mod 8)"
  by (cases "n < 64") (auto simp: load_le64_def bit_rules)

lemma bit_be32:
  "bit (bswap32 (load_le32 bs d)) n \<longleftrightarrow> n < 32 \<and> get_bit bs (8 * d + 31 - n)"
proof (cases "n < 32")
  case True
  define m where "m = 3 - n div 8"
  have eq: "8 * d + 31 - n = 8 * (d + m) + (7 - n mod 8)"
    using True mirror_bit [of n 3 d] by (simp add: m_def)
  have lt: "7 - n mod 8 < 8" by simp
  have 1: "(8 * d + 31 - n) div 8 = d + m"
    unfolding eq by (rule byte_div_mod(1) [OF lt])
  have "(8 * d + 31 - n) mod 8 = 7 - n mod 8"
    unfolding eq by (rule byte_div_mod(2) [OF lt])
  then have 2: "7 - (8 * d + 31 - n) mod 8 = n mod 8"
    by (simp add: less_Suc_eq_le [symmetric])
  have 3: "8 * m + n mod 8 < 32" using mod_less_divisor [of 8 n] by (auto simp: m_def)
  have "bit (bswap32 (load_le32 bs d)) n \<longleftrightarrow> bit (byte_at bs (d + m)) (n mod 8)"
    using True 3 by (simp add: bit_bswap32 m_def [symmetric] bit_load_le32)
  then show ?thesis using True by (simp add: get_bit_iff 1 2)
qed (simp add: bit_rules)

lemma bit_be64:
  "bit (bswap64 (load_le64 bs d)) n \<longleftrightarrow> n < 64 \<and> get_bit bs (8 * d + 63 - n)"
proof (cases "n < 64")
  case True
  define m where "m = 7 - n div 8"
  have eq: "8 * d + 63 - n = 8 * (d + m) + (7 - n mod 8)"
    using True mirror_bit [of n 7 d] by (simp add: m_def)
  have lt: "7 - n mod 8 < 8" by simp
  have 1: "(8 * d + 63 - n) div 8 = d + m"
    unfolding eq by (rule byte_div_mod(1) [OF lt])
  have "(8 * d + 63 - n) mod 8 = 7 - n mod 8"
    unfolding eq by (rule byte_div_mod(2) [OF lt])
  then have 2: "7 - (8 * d + 63 - n) mod 8 = n mod 8"
    by (simp add: less_Suc_eq_le [symmetric])
  have 3: "8 * m + n mod 8 < 64" using mod_less_divisor [of 8 n] by (auto simp: m_def)
  have "bit (bswap64 (load_le64 bs d)) n \<longleftrightarrow> bit (byte_at bs (d + m)) (n mod 8)"
    using True 3 by (simp add: bit_bswap64 m_def [symmetric] bit_load_le64)
  then show ?thesis using True by (simp add: get_bit_iff 1 2)
qed (simp add: bit_rules)

lemma bextr32_eq:
  "n < 256 \<Longrightarrow> k < 256 \<Longrightarrow> bextr32 w (n * 256 + k) = drop_bit k w AND mask n"
  by (simp add: bextr32_def)

lemma dword_start_bounds:
  assumes "0 < n" and "n \<le> 24"
  shows "8 * dword_start_byte s n \<le> s" and "s + n \<le> 8 * dword_start_byte s n + 32"
  using assms by (simp_all add: dword_start_byte_def Let_def)

lemma bit_extract_bits [bit_rules]:
  assumes "0 < n" and "n \<le> 24"
  shows "bit (extract_bits bs s n) k \<longleftrightarrow> k < n \<and> get_bit bs (s + n - 1 - k)"
proof -
  let ?d = "dword_start_byte s n"
  note b = dword_start_bounds [OF assms, of s]
  have off: "32 + ?d * 8 - s - n < 256" and n: "n < 256" using b assms by linarith+
  have idx: "k < n \<Longrightarrow> 8 * ?d + 31 - (32 + ?d * 8 - s - n + k) = s + n - 1 - k" using b assms by linarith
  have lt: "k < n \<Longrightarrow> 32 + ?d * 8 - s - n + k < 32" using b assms by linarith
  have "extract_bits bs s n = drop_bit (32 + ?d * 8 - s - n) (bswap32 (load_le32 bs ?d)) AND mask n"
    unfolding extract_bits_def Let_def by (rule bextr32_eq [OF n off])
  then have "bit (extract_bits bs s n) k \<longleftrightarrow>
      k < n \<and> bit (bswap32 (load_le32 bs ?d)) (32 + ?d * 8 - s - n + k)"
    using assms(2) by (auto simp: bit_simps bit_mask_iff)
  then show ?thesis using idx lt by (auto simp only: bit_be32)
qed

lemma length_store_le32 [simp]: "length (store_le32 bs i w) = length bs"
proof -
  have "length (fold (\<lambda>k bs'. bs'[i + k := le_bytes 4 w ! k]) ks bs) = length bs" for ks
    by (induction ks arbitrary: bs) auto
  then show ?thesis by (simp add: store_le32_def)
qed

lemma byte_at_store_le32:
  assumes "i + 4 \<le> length bs"
  shows "byte_at (store_le32 bs i w) j = (if i \<le> j \<and> j < i + 4 then le_bytes 4 w ! (j - i) else byte_at bs j)"
proof -
  have upt: "[0..<4] = [0, 1, 2, 3 :: nat]" by (simp add: upt_rec)
  have split: "j < i + 4 \<and> i \<le> j \<longleftrightarrow> j = i \<or> j = i + 1 \<or> j = i + 2 \<or> j = i + 3" by auto
  show ?thesis
    using assms by (auto simp: store_le32_def upt byte_at_update split)
qed

lemma get_bit_store_be32:
  assumes "d + 4 \<le> length bs"
  shows "get_bit (store_le32 bs d (bswap32 w)) j \<longleftrightarrow>
    (if 8 * d \<le> j \<and> j < 8 * d + 32 then bit w (8 * d + 31 - j) else get_bit bs j)"
proof (cases "8 * d \<le> j \<and> j < 8 * d + 32")
  case True
  then have j: "d \<le> j div 8" "j div 8 < d + 4" by linarith+
  define q where "q = j div 8 - d"
  have q: "q < 4" "j div 8 = d + q" using j by (auto simp: q_def)
  have r: "j mod 8 < 8" by simp
  have j_eq: "j = 8 * d + 8 * q + j mod 8" using q(2) div_mult_mod_eq [of j 8] by linarith
  define r where "r = 7 - j mod 8"
  have lt: "r < 8" by (simp add: r_def)
  have idx: "8 * (3 - q) + r = 8 * d + 31 - j"
    using j_eq q(1) r by (simp add: r_def)
  have "bit (le_bytes 4 (bswap32 w) ! q) r \<longleftrightarrow> bit w (8 * (3 - q) + r)"
    using q(1) lt by (simp add: bit_rules)
  then show ?thesis using True assms q
    unfolding get_bit_iff r_def [symmetric] by (simp add: byte_at_store_le32 idx del: byte_at_nth)
next
  case False
  then have "\<not> (d \<le> j div 8 \<and> j div 8 < d + 4)" by linarith
  then have "byte_at (store_le32 bs d (bswap32 w)) (j div 8) = byte_at bs (j div 8)"
    using assms by (auto simp add: byte_at_store_le32)
  with False show ?thesis by (auto simp add: get_bit_iff)
qed

lemma length_put_bits [simp]: "length (put_bits bs s n v) = length bs"
  by (simp add: put_bits_def Let_def)

lemma get_bit_put_bits:
  assumes n: "0 < n" "n \<le> 24" and len: "dword_start_byte s n + 4 \<le> length bs"
    and v: "\<And>k. n \<le> k \<Longrightarrow> \<not> bit v k"
  shows "get_bit (put_bits bs s n v) j = (if s \<le> j \<and> j < s + n then bit v (s + n - 1 - j) else get_bit bs j)"
proof -
  let ?d = "dword_start_byte s n"
  define off where "off = 32 + ?d * 8 - s - n"
  note b = dword_start_bounds [OF n, of s]
  let ?w = "bswap32 (load_le32 bs ?d) AND NOT (push_bit off (mask n)) OR push_bit off v"
  have put: "put_bits bs s n v = store_le32 bs ?d (bswap32 ?w)"
    by (simp add: put_bits_def Let_def off_def)
  have bitw: "bit ?w k \<longleftrightarrow> k < 32 \<and> (if off \<le> k \<and> k < off + n then bit v (k - off)
      else get_bit bs (8 * ?d + 31 - k))" for k
  proof (cases "off + n \<le> k")
    case True
    then have "n \<le> k - off" by linarith
    then show ?thesis using v [of "k - off"] True by (auto simp: bit_simps bit_be32 bit_mask_iff)
  next
    case False
    then show ?thesis by (auto simp: bit_simps bit_be32 bit_mask_iff)
  qed
  show ?thesis
  proof (cases "8 * ?d \<le> j \<and> j < 8 * ?d + 32")
    case True
    then have k: "8 * ?d + 31 - j < 32" "8 * ?d + 31 - (8 * ?d + 31 - j) = j" by linarith+
    have in_range: "off \<le> 8 * ?d + 31 - j \<and> 8 * ?d + 31 - j < off + n \<longleftrightarrow> s \<le> j \<and> j < s + n"
      unfolding off_def using b True n by linarith
    have diff: "s \<le> j \<and> j < s + n \<Longrightarrow> 8 * ?d + 31 - j - off = s + n - 1 - j"
      unfolding off_def using b True n by linarith
    have "get_bit (put_bits bs s n v) j = bit ?w (8 * ?d + 31 - j)"
      using True len by (simp only: put get_bit_store_be32 if_True simp_thms)
    also have "\<dots> = (if s \<le> j \<and> j < s + n then bit v (s + n - 1 - j) else get_bit bs j)"
      unfolding bitw in_range using k diff by auto
    finally show ?thesis .
  next
    case False
    then have "\<not> (s \<le> j \<and> j < s + n)" using b by linarith
    moreover have "get_bit (put_bits bs s n v) j = get_bit bs j"
      using False len by (simp only: put get_bit_store_be32 if_False)
    ultimately show ?thesis by auto
  qed
qed

lemma copy_bits_loop_props:
  assumes "dst_pos + (num_bits - pos) div 8 < length dest" and "pos \<le> num_bits"
  shows "length (fst (copy_bits_loop pos dst_pos dest src off num_bits)) = length dest \<and>
    num_bits < fst (snd (copy_bits_loop pos dst_pos dest src off num_bits)) \<and>
    (\<forall>k. byte_at (fst (copy_bits_loop pos dst_pos dest src off num_bits)) k =
      (if dst_pos \<le> k \<and> k \<le> dst_pos + (num_bits - pos) div 8
       then ucast (extract_bits src (off + pos + 8 * (k - dst_pos)) 8) else byte_at dest k))"
  using assms
proof (induction pos dst_pos dest src off num_bits rule: copy_bits_loop.induct)
  case (1 pos dst_pos dest src off num_bits)
  let ?b = "ucast (extract_bits src (off + pos) 8) :: u8"
  let ?dest = "dest[dst_pos := ?b]"
  have len: "dst_pos < length dest" using "1.prems"(1) by linarith
  have step: "copy_bits_loop pos dst_pos dest src off num_bits =
      copy_bits_loop (pos + 8) (dst_pos + 1) ?dest src off num_bits"
    using "1.prems"(2) by (subst copy_bits_loop.simps) simp
  show ?case
  proof (cases "pos + 8 \<le> num_bits")
    case True
    have div: "(num_bits - pos) div 8 = Suc ((num_bits - (pos + 8)) div 8)"
    proof -
      obtain e where "num_bits = pos + 8 + e" using True le_Suc_ex by blast
      then show ?thesis by simp
    qed
    have a: "dst_pos + 1 + (num_bits - (pos + 8)) div 8 < length ?dest"
      using "1.prems"(1) unfolding div by simp
    note IH = "1.IH" [OF "1.prems"(2) a True]
    have bytes: "byte_at (fst (copy_bits_loop (pos + 8) (dst_pos + 1) ?dest src off num_bits)) k =
      (if dst_pos \<le> k \<and> k \<le> dst_pos + (num_bits - pos) div 8
       then ucast (extract_bits src (off + pos + 8 * (k - dst_pos)) 8) else byte_at dest k)" for k
    proof (cases "dst_pos + 1 \<le> k")
      case True
      then obtain e where k: "k = dst_pos + 1 + e" using le_Suc_ex by blast
      show ?thesis using IH unfolding div k by (simp add: byte_at_update algebra_simps)
    next
      case False
      then show ?thesis using IH len by (cases "k = dst_pos") (simp_all add: byte_at_update)
    qed
    show ?thesis
      unfolding step using IH bytes by simp
  next
    case False
    then have stop: "copy_bits_loop (pos + 8) (dst_pos + 1) ?dest src off num_bits = (?dest, pos + 8, dst_pos + 1)"
      by (subst copy_bits_loop.simps) simp
    have "(num_bits - pos) div 8 = 0" using False by simp
    then show ?thesis unfolding step stop using len False by (auto simp: byte_at_update)
  qed
qed

lemma copy_bits_bytes:
  assumes "num_bits div 8 < length dest"
  shows "length (copy_bits dest src off num_bits) = length dest"
    and "byte_at (copy_bits dest src off num_bits) k =
      (if k \<le> num_bits div 8 then ucast (extract_bits src (off + 8 * k) 8) else byte_at dest k)"
proof -
  obtain d p q where r: "copy_bits_loop 0 0 dest src off num_bits = (d, p, q)"
    by (metis prod_cases3)
  have props: "length d = length dest" "num_bits < p"
    "byte_at d k = (if k \<le> num_bits div 8 then ucast (extract_bits src (off + 8 * k) 8) else byte_at dest k)"
    using copy_bits_loop_props [of 0 num_bits 0 dest src off] assms r by auto
  have "copy_bits dest src off num_bits = d"
    using r props(2) by (simp add: copy_bits_def)
  then show "length (copy_bits dest src off num_bits) = length dest"
    and "byte_at (copy_bits dest src off num_bits) k =
      (if k \<le> num_bits div 8 then ucast (extract_bits src (off + 8 * k) 8) else byte_at dest k)"
    using props by simp_all
qed

lemma get_bit_copy_bits:
  assumes "num_bits div 8 < length dest" and "j < 8 * (num_bits div 8 + 1)"
  shows "get_bit (copy_bits dest src off num_bits) j = get_bit src (off + j)"
proof -
  have "j div 8 < num_bits div 8 + 1" using assms(2) by (simp add: div_less_iff_less_mult mult.commute)
  then have q: "j div 8 \<le> num_bits div 8" by simp
  have r: "7 - j mod 8 < 8" by simp
  have "8 + 8 * (j div 8) + off - Suc (7 - j mod 8) = off + j"
    using div_mult_mod_eq [of j 8] mod_less_divisor [of 8 j] by linarith
  then show ?thesis
    using q r by (simp add: get_bit_iff [of "copy_bits dest src off num_bits"] copy_bits_bytes [OF assms(1)]
        bit_unsigned_iff bit_extract_bits algebra_simps)
qed

text \<open>Behind the byte of bit number \<open>num_bits\<close> nothing changes.\<close>

lemma get_bit_copy_bits_beyond:
  assumes "num_bits div 8 < length dest" and "8 * (num_bits div 8 + 1) \<le> j"
  shows "get_bit (copy_bits dest src off num_bits) j = get_bit dest j"
proof -
  have "8 * (num_bits div 8 + 1) div 8 \<le> j div 8" using assms(2) by (rule div_le_mono)
  then have "\<not> j div 8 \<le> num_bits div 8" by simp
  then show ?thesis by (simp add: get_bit_iff copy_bits_bytes [OF assms(1)])
qed

lemma last_bit_before_props:
  assumes "end < 64"
  shows "(\<forall>i<end. \<not> get_bit bs i) \<Longrightarrow> last_bit_before bs end = -1"
    and "i < end \<Longrightarrow> get_bit bs i \<Longrightarrow> (\<And>j. i < j \<Longrightarrow> j < end \<Longrightarrow> \<not> get_bit bs j) \<Longrightarrow>
      last_bit_before bs end = int i"
proof -
  let ?w = "bswap64 (load_le64 bs 0) AND NOT (drop_bit end (-1))"
  have bitw: "bit ?w n \<longleftrightarrow> n < 64 \<and> 64 \<le> end + n \<and> get_bit bs (63 - n)" for n
    by (cases "n < 64") (auto simp: bit_simps bit_be64)
  show "last_bit_before bs end = -1" if none: "\<forall>i<end. \<not> get_bit bs i"
  proof -
    have "\<not> bit ?w n" for n
      using none bitw [of n] by auto
    then have "?w = 0" by (intro bit_word_eqI) simp
    then show ?thesis by (simp add: last_bit_before_def Let_def)
  qed
  show "last_bit_before bs end = int i"
    if i: "i < end" "get_bit bs i" and max: "\<And>j. i < j \<Longrightarrow> j < end \<Longrightarrow> \<not> get_bit bs j"
  proof -
    have "bit ?w (63 - i)" unfolding bitw using i assms by auto
    moreover have "\<not> bit ?w n" if "n < 63 - i" for n
      unfolding bitw using max [of "63 - n"] that i assms by auto
    ultimately have "ctz ?w = 63 - i" by (rule ctz_eqI)
    moreover have "?w \<noteq> 0" using \<open>bit ?w (63 - i)\<close> by (metis bit_0_eq bot_apply bot_bool_def)
    ultimately show ?thesis using i assms by (simp add: last_bit_before_def Let_def)
  qed
qed

lemma dynamic_buffer_extend_fits:
  assumes "dynamic_buffer_extend buf n = (pos, buf')" and "db_pos buf \<le> db_size buf"
  shows "pos = db_pos buf" and "db_pos buf' = pos + n" and "db_pos buf' \<le> db_size buf'" and "db_size buf \<le> db_size buf'"
  using assms by (auto simp: dynamic_buffer_extend_def Let_def)

end
