(* ===== verification/Entry.thy ===== *)
theory Entry
  imports Bits
begin

text \<open>
  The data model of \<open>config.h\<close> and \<open>cuckoo_trie_internal.h\<close>: hash table entries,
  locators, buckets and the trie itself, with the field accessors of the header.

  An entry is a 15-byte union. The record keeps its layout: three header bytes, five
  bytes that are the child bitmap of a bitmap node, the symbols of a jump node or the
  low bytes of a leaf's key pointer, one byte that is the maximal child, the child color
  and jump size, or the last pointer byte, and a locator that is the maximal leaf of an
  inner node or the next leaf of a leaf. The overlaid C fields are abbreviations of the
  same record field, so writing one is seen through the other as in the union.
\<close>

subsection \<open>Configuration constants\<close>

abbreviation (input) CUCKOO_BUCKET_SIZE :: nat where "CUCKOO_BUCKET_SIZE \<equiv> 4"
abbreviation (input) BITS_PER_SYMBOL :: nat where "BITS_PER_SYMBOL \<equiv> 5"
abbreviation (input) MAX_JUMP_SYMBOLS :: nat where "MAX_JUMP_SYMBOLS \<equiv> 8"
abbreviation (input) TAG_BITS :: nat where "TAG_BITS \<equiv> 4"
abbreviation (input) FANOUT :: nat where "FANOUT \<equiv> 32"
abbreviation (input) CHILD_BITMAP_BYTES :: nat where "CHILD_BITMAP_BYTES \<equiv> 5"
abbreviation (input) MAX_KEY_BYTES :: nat where "MAX_KEY_BYTES \<equiv> 256"
abbreviation (input) MAX_KEY_SYMBOLS :: nat where "MAX_KEY_SYMBOLS \<equiv> (MAX_KEY_BYTES * 8 + BITS_PER_SYMBOL - 1) div BITS_PER_SYMBOL"
abbreviation (input) SYMBOL_END :: u64 where "SYMBOL_END \<equiv> 0"
abbreviation (input) SYMBOL_MASK :: u64 where "SYMBOL_MASK \<equiv> 31"
abbreviation (input) TYPE_UNUSED :: u8 where "TYPE_UNUSED \<equiv> 0"
abbreviation (input) TYPE_LEAF :: u8 where "TYPE_LEAF \<equiv> 1"
abbreviation (input) TYPE_BITMAP :: u8 where "TYPE_BITMAP \<equiv> 2"
abbreviation (input) TYPE_JUMP :: u8 where "TYPE_JUMP \<equiv> 3"
abbreviation (input) TYPE_MASK :: u8 where "TYPE_MASK \<equiv> 3"
abbreviation (input) FLAG_SECONDARY_BUCKET :: u8 where "FLAG_SECONDARY_BUCKET \<equiv> 4"
abbreviation (input) FLAG_DIRTY :: u8 where "FLAG_DIRTY \<equiv> 8"
abbreviation (input) PARENT_COLOR_SHIFT :: nat where "PARENT_COLOR_SHIFT \<equiv> 4"
abbreviation (input) CHILD_COLOR_SHIFT :: nat where "CHILD_COLOR_SHIFT \<equiv> 4"
abbreviation (input) MAX_VALID_COLOR :: u8 where "MAX_VALID_COLOR \<equiv> 8"
abbreviation (input) INVALID_COLOR :: u8 where "INVALID_COLOR \<equiv> 9"
abbreviation (input) ROOT_COLOR :: u8 where "ROOT_COLOR \<equiv> 0"
abbreviation (input) ROOT_LAST_SYMBOL :: u8 where "ROOT_LAST_SYMBOL \<equiv> 0"
abbreviation (input) HASH_START_VALUE :: u64 where "HASH_START_VALUE \<equiv> 0"

subsection \<open>Entries\<close>

record ct_entry_locator =
  loc_primary_bucket :: u32
  loc_tag :: u8
  loc_color :: u8

record ct_entry =
  parent_color_and_flags :: u8
  color_and_tag :: u8
  e_last_symbol :: u8
  e_bytes :: "u8 list"
  e_byte8 :: u8
  e_locator :: ct_entry_locator

abbreviation (input) child_bitmap :: "ct_entry \<Rightarrow> u8 list" where "child_bitmap \<equiv> e_bytes"
abbreviation (input) jump_bits :: "ct_entry \<Rightarrow> u8 list" where "jump_bits \<equiv> e_bytes"
abbreviation (input) max_child :: "ct_entry \<Rightarrow> u8" where "max_child \<equiv> e_byte8"
abbreviation (input) child_color_and_jump_size :: "ct_entry \<Rightarrow> u8" where "child_color_and_jump_size \<equiv> e_byte8"
abbreviation (input) max_leaf :: "ct_entry \<Rightarrow> ct_entry_locator" where "max_leaf \<equiv> e_locator"
abbreviation (input) next_leaf :: "ct_entry \<Rightarrow> ct_entry_locator" where "next_leaf \<equiv> e_locator"

definition wf_entry :: "ct_entry \<Rightarrow> bool" where
  "wf_entry e \<longleftrightarrow> length (e_bytes e) = CHILD_BITMAP_BYTES"

definition locator_bytes :: "ct_entry_locator \<Rightarrow> u8 list" where
  "locator_bytes l = le_bytes 4 (loc_primary_bucket l) @ [loc_tag l, loc_color l]"

definition locator_of_bytes :: "u8 list \<Rightarrow> ct_entry_locator" where
  "locator_of_bytes bs =
     \<lparr>loc_primary_bucket = le_word (take 4 bs), loc_tag = bs ! 4, loc_color = bs ! 5\<rparr>"

text \<open>The 15 stored bytes of an entry, in memory order.\<close>

definition entry_bytes :: "ct_entry \<Rightarrow> u8 list" where
  "entry_bytes e =
     [parent_color_and_flags e, color_and_tag e, e_last_symbol e]
     @ e_bytes e @ [e_byte8 e] @ locator_bytes (e_locator e)"

definition entry_of_bytes :: "u8 list \<Rightarrow> ct_entry" where
  "entry_of_bytes bs =
     \<lparr>parent_color_and_flags = bs ! 0, color_and_tag = bs ! 1, e_last_symbol = bs ! 2,
      e_bytes = take 5 (drop 3 bs), e_byte8 = bs ! 8, e_locator = locator_of_bytes (drop 9 bs)\<rparr>"

text \<open>The first quad word of an entry and the whole entry as a 128-bit value.\<close>

definition entry_header :: "ct_entry \<Rightarrow> u64" where
  "entry_header e = load_le64 (entry_bytes e) 0"

definition entry_u128 :: "ct_entry \<Rightarrow> u128" where
  "entry_u128 e = le_word (entry_bytes e)"

definition entry_of_u128 :: "u128 \<Rightarrow> ct_entry" where
  "entry_of_u128 w = entry_of_bytes (le_bytes 15 w)"

text \<open>A read-modify-write of the first quad word.\<close>

definition update_qword :: "(u64 \<Rightarrow> u64) \<Rightarrow> ct_entry \<Rightarrow> ct_entry" where
  "update_qword f e = entry_of_bytes (le_bytes 8 (f (entry_header e)) @ drop 8 (entry_bytes e))"

subsection \<open>Field accessors\<close>

definition entry_is_secondary :: "ct_entry \<Rightarrow> bool" where
  "entry_is_secondary e = (parent_color_and_flags e AND FLAG_SECONDARY_BUCKET = FLAG_SECONDARY_BUCKET)"

definition entry_dirty :: "ct_entry \<Rightarrow> bool" where
  "entry_dirty e = (parent_color_and_flags e AND FLAG_DIRTY = FLAG_DIRTY)"

definition entry_set_dirty :: "ct_entry \<Rightarrow> ct_entry" where
  "entry_set_dirty e = update_qword (\<lambda>q. q OR ucast FLAG_DIRTY) e"

definition entry_set_clean :: "ct_entry \<Rightarrow> ct_entry" where
  "entry_set_clean e = update_qword (\<lambda>q. q AND NOT (ucast FLAG_DIRTY)) e"

definition entry_add_flags :: "ct_entry \<Rightarrow> u64 \<Rightarrow> ct_entry" where
  "entry_add_flags e flags = update_qword (\<lambda>q. q OR flags) e"

definition entry_set_color_and_tag :: "ct_entry \<Rightarrow> u64 \<Rightarrow> ct_entry" where
  "entry_set_color_and_tag e new_value =
     update_qword (\<lambda>q. q OR push_bit 8 new_value) (update_qword (\<lambda>q. q AND NOT (push_bit 8 0xFF)) e)"

definition entry_type :: "ct_entry \<Rightarrow> u8" where
  "entry_type e = parent_color_and_flags e AND TYPE_MASK"

text \<open>
  Marks a child in the bitmap of a bitmap node by setting one bit of the entry read as a
  128-bit integer; \<open>child_bitmap\<close> starts at byte 3.
\<close>

definition entry_set_child_bit :: "ct_entry \<Rightarrow> nat \<Rightarrow> ct_entry" where
  "entry_set_child_bit e child =
     (let child_byte = 3 + child div 8;
          child_pos = child_byte * 8 + (7 - child mod 8)
      in entry_of_u128 (entry_u128 e OR push_bit child_pos 1))"

definition put_bits_uint128 :: "u128 \<Rightarrow> nat \<Rightarrow> nat \<Rightarrow> u64 \<Rightarrow> u128" where
  "put_bits_uint128 x offset nbits bits =
     (let m = push_bit offset (mask nbits :: u128)
      in (x AND NOT m) OR push_bit offset (ucast bits))"

definition get_bits_uint128 :: "u128 \<Rightarrow> nat \<Rightarrow> nat \<Rightarrow> u64" where
  "get_bits_uint128 x offset nbits = ucast (drop_bit offset x AND mask nbits)"

definition entry_set_next_leaf :: "ct_entry \<Rightarrow> ct_entry_locator \<Rightarrow> ct_entry" where
  "entry_set_next_leaf e l =
     (let next_leaf_value = (ucast (loc_primary_bucket l) :: u64) OR push_bit 40 (ucast (loc_color l))
            OR push_bit 32 (ucast (loc_tag l))
      in entry_of_u128 (put_bits_uint128 (entry_u128 e) (9 * 8) (6 * 8) next_leaf_value))"

definition entry_color :: "ct_entry \<Rightarrow> u8" where
  "entry_color e = drop_bit TAG_BITS (color_and_tag e)"

definition entry_tag :: "ct_entry \<Rightarrow> u8" where
  "entry_tag e = color_and_tag e AND mask TAG_BITS"

definition entry_parent_color :: "ct_entry \<Rightarrow> u8" where
  "entry_parent_color e = drop_bit PARENT_COLOR_SHIFT (parent_color_and_flags e)"

definition entry_set_parent_color :: "ct_entry \<Rightarrow> u8 \<Rightarrow> ct_entry" where
  "entry_set_parent_color e c =
     e\<lparr>parent_color_and_flags :=
         (parent_color_and_flags e AND mask PARENT_COLOR_SHIFT) OR push_bit PARENT_COLOR_SHIFT c\<rparr>"

definition entry_jump_size :: "ct_entry \<Rightarrow> nat" where
  "entry_jump_size e = unat (child_color_and_jump_size e AND mask CHILD_COLOR_SHIFT)"

definition entry_child_color :: "ct_entry \<Rightarrow> u8" where
  "entry_child_color e = drop_bit CHILD_COLOR_SHIFT (child_color_and_jump_size e)"

definition entry_set_jump_size :: "ct_entry \<Rightarrow> u8 \<Rightarrow> ct_entry" where
  "entry_set_jump_size e jump_size =
     e\<lparr>e_byte8 := (child_color_and_jump_size e AND NOT (mask CHILD_COLOR_SHIFT)) OR jump_size\<rparr>"

definition entry_set_child_color :: "ct_entry \<Rightarrow> u8 \<Rightarrow> ct_entry" where
  "entry_set_child_color e c =
     e\<lparr>e_byte8 := (child_color_and_jump_size e AND mask CHILD_COLOR_SHIFT) OR push_bit CHILD_COLOR_SHIFT c\<rparr>"

definition entry_set_type :: "ct_entry \<Rightarrow> u8 \<Rightarrow> ct_entry" where
  "entry_set_type e t = e\<lparr>parent_color_and_flags := (parent_color_and_flags e AND NOT TYPE_MASK) OR t\<rparr>"

text \<open>
  Key pointers are kept in 48 bits: bytes 3 to 8 of the entry. Reading one sign-extends
  bit 47, as x86-64 canonical addresses require.
\<close>

definition entry_kv :: "ct_entry \<Rightarrow> u64" where
  "entry_kv e =
     (let result = get_bits_uint128 (entry_u128 e) (3 * 8) (6 * 8)
      in if result AND 0x800000000000 \<noteq> 0 then result OR 0xFFFF000000000000 else result)"

definition entry_set_kv :: "ct_entry \<Rightarrow> u64 \<Rightarrow> ct_entry" where
  "entry_set_kv e kv =
     (let low_dword = ucast kv :: u32;
          high_word = ucast (drop_bit 32 kv AND 0xFFFF) :: u16;
          bs = le_bytes 4 low_dword @ le_bytes 2 high_word
      in e\<lparr>e_bytes := take 5 bs, e_byte8 := bs ! 5\<rparr>)"

subsection \<open>Buckets and the trie\<close>

record ct_bucket =
  cells :: "ct_entry list"
  write_lock_and_seq :: u32

record cuckoo_trie =
  buckets :: "ct_bucket list"
  num_buckets :: u64
  num_pairs :: u64
  num_shuffle_blocks :: u64
  bucket_mix_table :: "u64 list"
  is_empty :: bool

text \<open>
  A pointer to a stored entry is a bucket number and a cell index; the bucket of the
  linked list head, which the trie allocates behind the others, has number
  \<open>num_buckets\<close>. Section \<open>Addresses\<close> relates such pairs to machine addresses.
\<close>

type_synonym entry_ptr = "nat \<times> nat"

definition trie_min_leaf :: "cuckoo_trie \<Rightarrow> entry_ptr" where
  "trie_min_leaf trie = (unat (num_buckets trie), 0)"

definition cell :: "cuckoo_trie \<Rightarrow> entry_ptr \<Rightarrow> ct_entry" where
  "cell trie p = cells (buckets trie ! fst p) ! snd p"

definition set_cell :: "cuckoo_trie \<Rightarrow> entry_ptr \<Rightarrow> ct_entry \<Rightarrow> cuckoo_trie" where
  "set_cell trie p e =
     trie\<lparr>buckets := (buckets trie)[fst p :=
       (buckets trie ! fst p)\<lparr>cells := (cells (buckets trie ! fst p))[snd p := e]\<rparr>]\<rparr>"

definition bucket_word :: "cuckoo_trie \<Rightarrow> nat \<Rightarrow> u32" where
  "bucket_word trie b = write_lock_and_seq (buckets trie ! b)"

definition set_bucket_word :: "cuckoo_trie \<Rightarrow> nat \<Rightarrow> u32 \<Rightarrow> cuckoo_trie" where
  "set_bucket_word trie b w =
     trie\<lparr>buckets := (buckets trie)[b := (buckets trie ! b)\<lparr>write_lock_and_seq := w\<rparr>]\<rparr>"

text \<open>An entry read from the table, with what is needed to find it again.\<close>

record ct_entry_local_copy =
  lc_value :: ct_entry
  last_pos :: entry_ptr
  lc_primary_bucket :: u64
  last_seq :: u32

definition unused_entry :: ct_entry where
  "unused_entry = \<lparr>parent_color_and_flags = push_bit PARENT_COLOR_SHIFT INVALID_COLOR OR TYPE_UNUSED,
     color_and_tag = push_bit TAG_BITS INVALID_COLOR, e_last_symbol = 0,
     e_bytes = replicate 5 0, e_byte8 = 0,
     e_locator = \<lparr>loc_primary_bucket = 0, loc_tag = 0, loc_color = 0\<rparr>\<rparr>"

subsection \<open>Addresses\<close>

text \<open>The machine address of a cell, given the 64-byte aligned base of the bucket array.\<close>

definition entry_address :: "u64 \<Rightarrow> entry_ptr \<Rightarrow> u64" where
  "entry_address base p = base + 64 * of_nat (fst p) + 15 * of_nat (snd p)"

definition bucket_containing_addr :: "u64 \<Rightarrow> u64" where
  "bucket_containing_addr entry = entry AND NOT 63"

definition ptr_to_bucket :: "u64 \<Rightarrow> u64 \<Rightarrow> u64" where
  "ptr_to_bucket base entry = (entry - base) div 64"

definition entry_index_in_bucket :: "u64 \<Rightarrow> u64" where
  "entry_index_in_bucket entry = (NOT entry + 1) AND 0xF"

subsection \<open>Byte layout\<close>

lemma length_locator_bytes [simp]: "length (locator_bytes l) = 6"
  by (simp add: locator_bytes_def)

lemma length_entry_bytes: "wf_entry e \<Longrightarrow> length (entry_bytes e) = 15"
  by (simp add: entry_bytes_def wf_entry_def)

lemma locator_of_bytes_inverse: "locator_of_bytes (locator_bytes l) = l"
proof -
  have "le_word (le_bytes 4 (loc_primary_bucket l)) = loc_primary_bucket l"
    by (rule le_word_le_bytes) simp
  then show ?thesis
    by (simp add: locator_of_bytes_def locator_bytes_def nth_append)
qed

lemma entry_of_bytes_append:
  "length bs = 5 \<Longrightarrow> entry_of_bytes ([p, c, l] @ bs @ [b] @ lb) =
    \<lparr>parent_color_and_flags = p, color_and_tag = c, e_last_symbol = l, e_bytes = bs, e_byte8 = b,
     e_locator = locator_of_bytes lb\<rparr>"
  by (simp add: entry_of_bytes_def nth_append)

lemma entry_of_bytes_inverse: "wf_entry e \<Longrightarrow> entry_of_bytes (entry_bytes e) = e"
  unfolding entry_bytes_def by (subst entry_of_bytes_append) (simp_all add: wf_entry_def locator_of_bytes_inverse)

lemma entry_of_u128_inverse: "wf_entry e \<Longrightarrow> entry_of_u128 (entry_u128 e) = e"
  using le_bytes_le_word [of "entry_bytes e", where 'a = 128]
  by (simp add: entry_of_u128_def entry_u128_def entry_of_bytes_inverse length_entry_bytes)

lemma entry_header_bytes:
  assumes "wf_entry e"
  shows "entry_header e = le_word ([parent_color_and_flags e, color_and_tag e, e_last_symbol e] @ e_bytes e)"
proof -
  have "map (byte_at (entry_bytes e)) [0..<8] = take 8 (entry_bytes e)"
    using length_entry_bytes [OF assms] by (intro nth_equalityI) auto
  then show ?thesis
    using assms by (simp add: entry_header_def load_le64_def entry_bytes_def wf_entry_def)
qed

lemma update_qword_bytes:
  assumes wf: "wf_entry e" and bs: "length bs = 5"
    and f: "f (le_word ([parent_color_and_flags e, color_and_tag e, e_last_symbol e] @ e_bytes e)) = le_word ([p, c, l] @ bs)"
  shows "update_qword f e = e\<lparr>parent_color_and_flags := p, color_and_tag := c, e_last_symbol := l, e_bytes := bs\<rparr>"
proof -
  have "le_bytes 8 (le_word ([p, c, l] @ bs) :: u64) = [p, c, l] @ bs"
    using le_bytes_le_word [of "[p, c, l] @ bs", where 'a = 64] bs by simp
  moreover have "drop 8 (entry_bytes e) = [e_byte8 e] @ locator_bytes (e_locator e)"
    using wf by (simp add: entry_bytes_def wf_entry_def)
  ultimately have "update_qword f e = entry_of_bytes ([p, c, l] @ bs @ [e_byte8 e] @ locator_bytes (e_locator e))"
    using f by (simp add: update_qword_def entry_header_bytes [OF wf])
  then show ?thesis
    using bs by (simp only: entry_of_bytes_append) (simp add: locator_of_bytes_inverse)
qed

lemma wf_entry_list: "wf_entry e \<longleftrightarrow> (\<exists>b0 b1 b2 b3 b4. e_bytes e = [b0, b1, b2, b3, b4])"
  by (simp add: wf_entry_def length_5_list)

subsection \<open>The word-sized read-modify-writes are field updates\<close>

lemma entry_set_dirty_eq [entry_simps]:
  assumes "wf_entry e"
  shows "entry_set_dirty e = e\<lparr>parent_color_and_flags := parent_color_and_flags e OR FLAG_DIRTY\<rparr>"
proof -
  obtain b0 b1 b2 b3 b4 where b: "e_bytes e = [b0, b1, b2, b3, b4]"
    using assms by (auto simp: wf_entry_list)
  have m: "(ucast FLAG_DIRTY :: u64) = le_word [8, 0, 0, 0, 0, 0, 0, 0]" by simp
  have "entry_set_dirty e = e\<lparr>parent_color_and_flags := parent_color_and_flags e OR FLAG_DIRTY,
      color_and_tag := color_and_tag e, e_last_symbol := e_last_symbol e, e_bytes := e_bytes e\<rparr>"
    unfolding entry_set_dirty_def
    by (rule update_qword_bytes [OF assms]) (simp_all only: b m le_word_or append.simps length_Cons list.size, simp)
  then show ?thesis by simp
qed

lemma entry_set_clean_eq [entry_simps]:
  assumes "wf_entry e"
  shows "entry_set_clean e = e\<lparr>parent_color_and_flags := parent_color_and_flags e AND NOT FLAG_DIRTY\<rparr>"
proof -
  obtain b0 b1 b2 b3 b4 where b: "e_bytes e = [b0, b1, b2, b3, b4]"
    using assms by (auto simp: wf_entry_list)
  have m: "(ucast FLAG_DIRTY :: u64) = le_word [8, 0, 0, 0, 0, 0, 0, 0]" by simp
  have "entry_set_clean e = e\<lparr>parent_color_and_flags := parent_color_and_flags e AND NOT FLAG_DIRTY,
      color_and_tag := color_and_tag e, e_last_symbol := e_last_symbol e, e_bytes := e_bytes e\<rparr>"
    unfolding entry_set_clean_def
    by (rule update_qword_bytes [OF assms]) (simp_all only: b m le_word_andnot append.simps length_Cons list.size, simp)
  then show ?thesis by simp
qed

lemma byte_andnot_ones [simp]: "(x :: u8) AND - 256 = 0"
proof -
  have "(- 256 :: u8) = 0" by code_simp
  then show ?thesis by (metis and_zero_eq)
qed

lemma byte_as_le_word: "unat v < 256 \<Longrightarrow> v = (le_word [ucast v] :: u64)"
proof -
  assume "unat v < 256"
  then have "unat v = unat (take_bit 8 v)" by (simp add: unsigned_take_bit_eq take_bit_nat_eq_self)
  then have "v = take_bit 8 v" by (simp add: word_unat_eq_iff)
  moreover have "take_bit 8 v = ucast (ucast v :: u8)"
    by (intro bit_word_eqI) (auto simp: bit_simps)
  ultimately show ?thesis by simp
qed

lemma entry_add_flags_eq [entry_simps]:
  assumes "wf_entry e" and v: "unat v < 256"
  shows "entry_add_flags e v = e\<lparr>parent_color_and_flags := parent_color_and_flags e OR ucast v\<rparr>"
proof -
  obtain b0 b1 b2 b3 b4 where b: "e_bytes e = [b0, b1, b2, b3, b4]"
    using assms by (auto simp: wf_entry_list)
  have m: "v = le_word [ucast v, 0, 0, 0, 0, 0, 0, 0]" using byte_as_le_word [OF v] by simp
  have "entry_add_flags e v = e\<lparr>parent_color_and_flags := parent_color_and_flags e OR ucast v,
      color_and_tag := color_and_tag e, e_last_symbol := e_last_symbol e, e_bytes := e_bytes e\<rparr>"
    unfolding entry_add_flags_def
    by (rule update_qword_bytes [OF assms(1)], simp add: b)
      (subst m, simp only: b le_word_or append.simps length_Cons list.size, simp)
  then show ?thesis by simp
qed

lemma entry_set_color_and_tag_eq [entry_simps]:
  assumes "wf_entry e" and v: "unat v < 256"
  shows "entry_set_color_and_tag e v = e\<lparr>color_and_tag := ucast v\<rparr>"
proof -
  obtain b0 b1 b2 b3 b4 where b: "e_bytes e = [b0, b1, b2, b3, b4]"
    using assms by (auto simp: wf_entry_list)
  have m1: "(push_bit 8 0xFF :: u64) = le_word [0, 255, 0, 0, 0, 0, 0, 0]" by (simp add: push_bit_eq_mult)
  have m2: "push_bit 8 v = le_word [0, ucast v, 0, 0, 0, 0, 0, 0]" using byte_as_le_word [OF v] by simp
  let ?e0 = "e\<lparr>color_and_tag := 0\<rparr>"
  have 1: "update_qword (\<lambda>q. q AND NOT (push_bit 8 0xFF)) e =
      e\<lparr>parent_color_and_flags := parent_color_and_flags e, color_and_tag := 0,
        e_last_symbol := e_last_symbol e, e_bytes := e_bytes e\<rparr>"
    by (rule update_qword_bytes [OF assms(1)], simp add: b)
      (simp only: m1 b le_word_andnot append.simps length_Cons list.size, simp)
  have 2: "update_qword (\<lambda>q. q OR push_bit 8 v) ?e0 =
      ?e0\<lparr>parent_color_and_flags := parent_color_and_flags e, color_and_tag := ucast v,
        e_last_symbol := e_last_symbol e, e_bytes := e_bytes e\<rparr>"
  proof (rule update_qword_bytes)
    show "wf_entry ?e0" using assms(1) by (simp add: wf_entry_def)
    show "length (e_bytes e) = 5" by (simp add: b)
    show "le_word ([parent_color_and_flags ?e0, color_and_tag ?e0, e_last_symbol ?e0] @ e_bytes ?e0) OR push_bit 8 v =
      le_word ([parent_color_and_flags e, ucast v, e_last_symbol e] @ e_bytes e)"
    proof -
      have sel: "e_bytes ?e0 = [b0, b1, b2, b3, b4]" "parent_color_and_flags ?e0 = parent_color_and_flags e"
        "color_and_tag ?e0 = 0" "e_last_symbol ?e0 = e_last_symbol e" by (simp_all add: b)
      show ?thesis
        unfolding m2 sel b by (simp only: le_word_or append.simps length_Cons list.size, simp)
    qed
  qed
  have "update_qword (\<lambda>q. q AND NOT (push_bit 8 0xFF)) e = ?e0" using 1 by simp
  then show ?thesis unfolding entry_set_color_and_tag_def using 2 by (simp only:) simp
qed

lemma entry_of_u128_bytes:
  "length bs = 15 \<Longrightarrow> entry_of_u128 (le_word bs) = entry_of_bytes bs"
  using le_bytes_le_word [of bs, where 'a = 128] by (simp add: entry_of_u128_def)

lemma entry_set_child_bit_eq [entry_simps]:
  assumes wf: "wf_entry e" and child: "child < 40"
  shows "entry_set_child_bit e child = e\<lparr>e_bytes := set_bit_at (child_bitmap e) child True\<rparr>"
proof -
  define i where "i = child div 8"
  define k where "k = 7 - child mod 8"
  have i: "i < 5" and k: "k < 8" using child by (auto simp: i_def k_def)
  have len: "length (entry_bytes e) = 15" by (rule length_entry_bytes [OF wf])
  have m: "(push_bit (8 * (3 + i) + k) 1 :: u128) = le_word ((replicate 15 0)[3 + i := push_bit k 1])"
    by (rule push_bit_1_le_word) (use i k in simp_all)
  have or: "map2 (OR) (entry_bytes e) ((replicate 15 0)[3 + i := push_bit k 1])
      = (entry_bytes e)[3 + i := entry_bytes e ! (3 + i) OR push_bit k 1]"
    using len i by (intro nth_equalityI) (auto simp: nth_list_update)
  have nth: "entry_bytes e ! (3 + i) = child_bitmap e ! i"
    using wf i by (simp add: entry_bytes_def nth_append wf_entry_def)
  have upd: "(entry_bytes e)[3 + i := v] = entry_bytes (e\<lparr>e_bytes := (child_bitmap e)[i := v]\<rparr>)" for v
    using wf i by (simp add: entry_bytes_def wf_entry_def list_update_append)
  have drop80: "drop_bit (child mod 8) (0x80 :: u8) = push_bit k 1"
  proof (rule bit_word_eqI)
    fix n
    have "bit (drop_bit (child mod 8) (0x80 :: u8)) n \<longleftrightarrow> n = k"
      unfolding k_def by (rule bit_80_drop) simp
    also have "\<dots> \<longleftrightarrow> bit (push_bit k (1 :: u8)) n"
      using k by (auto simp: bit_simps)
    finally show "bit (drop_bit (child mod 8) (0x80 :: u8)) n = bit (push_bit k (1 :: u8)) n" .
  qed
  have set: "set_bit_at (child_bitmap e) child True = (child_bitmap e)[i := child_bitmap e ! i OR push_bit k 1]"
  proof -
    have "(x AND NOT m) OR m = x OR m" for x m :: u8
      by (intro bit_word_eqI) (auto simp: bit_simps)
    then show ?thesis
      using wf i drop80 by (simp add: set_bit_at_def Let_def i_def [symmetric] wf_entry_def)
  qed
  have "entry_set_child_bit e child =
      entry_of_bytes ((entry_bytes e)[3 + i := child_bitmap e ! i OR push_bit k 1])"
    unfolding entry_set_child_bit_def Let_def i_def [symmetric] k_def [symmetric] entry_u128_def
    using len by (simp only: mult.commute [of "3 + i" 8] m le_word_or length_list_update length_replicate or nth
        entry_of_u128_bytes)
  also have "\<dots> = e\<lparr>e_bytes := (child_bitmap e)[i := child_bitmap e ! i OR push_bit k 1]\<rparr>"
    unfolding upd by (rule entry_of_bytes_inverse) (use wf in \<open>simp add: wf_entry_def\<close>)
  finally show ?thesis by (simp add: set)
qed

lemma byte_at_entry_locator:
  "wf_entry e \<Longrightarrow> 9 \<le> i \<Longrightarrow> byte_at (entry_bytes e) i = byte_at (locator_bytes (e_locator e)) (i - 9)"
  by (auto simp: byte_at_def entry_bytes_def wf_entry_def nth_append)

lemma locator_value:
  "(ucast (loc_primary_bucket l) :: u64) OR push_bit 40 (ucast (loc_color l)) OR push_bit 32 (ucast (loc_tag l))
    = le_word (locator_bytes l)"
proof -
  have pb: "(ucast (loc_primary_bucket l) :: u64) = le_word (le_bytes 4 (loc_primary_bucket l))"
    by (intro bit_word_eqI) (auto simp: bit_rules bit_simps byte_at_def dest: bit_imp_le_length)
  have app: "(le_word (bs @ cs) :: u64) = le_word bs OR push_bit (8 * length bs) (le_word cs)" for bs cs
    by (induction bs) (simp_all add: push_bit_or ac_simps)
  have "(le_word (locator_bytes l) :: u64) =
      ucast (loc_primary_bucket l) OR push_bit 32 (ucast (loc_tag l) OR push_bit 8 (ucast (loc_color l)))"
    by (simp add: locator_bytes_def app pb)
  then show ?thesis by (simp add: push_bit_or ac_simps)
qed

lemma entry_set_next_leaf_eq [entry_simps]:
  assumes wf: "wf_entry e"
  shows "entry_set_next_leaf e l = e\<lparr>e_locator := l\<rparr>"
proof -
  let ?e = "e\<lparr>e_locator := l\<rparr>"
  have wf': "wf_entry ?e" using wf by (simp add: wf_entry_def)
  obtain b0 b1 b2 b3 b4 where b: "e_bytes e = [b0, b1, b2, b3, b4]"
    using wf by (auto simp: wf_entry_list)
  obtain l0 l1 l2 l3 l4 l5 where lb: "locator_bytes l = [l0, l1, l2, l3, l4, l5]"
    using length_locator_bytes [of l] unfolding length_6_list by blast
  obtain o0 o1 o2 o3 o4 o5 where ob: "locator_bytes (e_locator e) = [o0, o1, o2, o3, o4, o5]"
    using length_locator_bytes [of "e_locator e"] unfolding length_6_list by blast
  have m: "(push_bit (9 * 8) (mask (6 * 8)) :: u128) = le_word [0,0,0,0,0,0,0,0,0,255,255,255,255,255,255]"
    by code_simp
  have v: "push_bit (9 * 8) (ucast (le_word (locator_bytes l) :: u64)) =
      (le_word [0,0,0,0,0,0,0,0,0,l0,l1,l2,l3,l4,l5] :: u128)"
    using push_bit_le_word [of "locator_bytes l" 9, where 'a = 128 and 'b = 64]
    unfolding lb by (simp add: numeral_eq_Suc)
  have eb: "entry_bytes e = [parent_color_and_flags e, color_and_tag e, e_last_symbol e, b0, b1, b2, b3, b4,
      e_byte8 e, o0, o1, o2, o3, o4, o5]"
    by (simp add: entry_bytes_def b ob)
  have eb': "entry_bytes ?e = [parent_color_and_flags e, color_and_tag e, e_last_symbol e, b0, b1, b2, b3, b4,
      e_byte8 e, l0, l1, l2, l3, l4, l5]"
    by (simp add: entry_bytes_def b lb)
  have "put_bits_uint128 (entry_u128 e) (9 * 8) (6 * 8) (le_word (locator_bytes l)) = entry_u128 ?e"
    unfolding put_bits_uint128_def Let_def m v entry_u128_def eb eb'
    by (simp only: le_word_andnot le_word_or append.simps length_Cons list.size list.map zip.simps prod.case)
      (simp add: or.assoc)
  then show ?thesis
    unfolding entry_set_next_leaf_def Let_def locator_value
    by (simp only: entry_of_u128_inverse [OF wf'])
qed

text \<open>A pointer survives the 48-bit encoding when its top 17 bits agree.\<close>

definition canonical_address :: "u64 \<Rightarrow> bool" where
  "canonical_address a \<longleftrightarrow> drop_bit 47 a = 0 \<or> drop_bit 47 a = mask 17"

lemma canonical_high_bits:
  assumes "canonical_address a" and "47 \<le> k" and "k < 64"
  shows "bit a k = bit a 47"
proof -
  have *: "bit a k \<longleftrightarrow> bit (drop_bit 47 a) (k - 47)" "bit a 47 \<longleftrightarrow> bit (drop_bit 47 a) 0"
    using assms(2) by (auto simp: bit_simps)
  show ?thesis
    using assms(1,3) unfolding canonical_address_def *
    by (auto simp: bit_mask_iff)
qed

lemma take_5_append: "length bs = 6 \<Longrightarrow> take 5 bs @ [bs ! 5] = bs"
  by (auto simp: length_6_list)

lemma entry_bytes_payload:
  "entry_bytes (e\<lparr>e_bytes := x, e_byte8 := y\<rparr>) =
    [parent_color_and_flags e, color_and_tag e, e_last_symbol e] @ (x @ [y]) @ locator_bytes (e_locator e)"
  by (simp add: entry_bytes_def)

lemma byte_at_middle:
  "xs = [p, c, l] @ bs @ rest \<Longrightarrow> length bs = 6 \<Longrightarrow> i < 6 \<Longrightarrow> byte_at xs (3 + i) = byte_at bs i"
  by (simp add: byte_at_def nth_append)

lemma entry_kv_set_kv:
  assumes wf: "wf_entry e" and can: "canonical_address kv"
  shows "entry_kv (entry_set_kv e kv) = kv"
proof -
  let ?bs = "le_bytes 4 (ucast kv :: u32) @ le_bytes 2 (ucast (drop_bit 32 kv AND 0xFFFF) :: u16)"
  let ?e = "entry_set_kv e kv"
  have len: "length ?bs = 6" by simp
  have six: "take 5 ?bs @ [?bs ! 5] = ?bs"
    using len by (rule take_5_append)
  have mask16: "(0xFFFF :: u64) = mask 16" by code_simp
  have bits_bs: "bit (byte_at ?bs (j div 8)) (j mod 8) \<longleftrightarrow> bit kv j" if "j < 48" for j
  proof (cases "j < 32")
    case True
    then have "j div 8 < 4" by auto
    then show ?thesis using True by (simp add: byte_at_def nth_append bit_rules bit_simps)
  next
    case False
    then obtain i where i: "j = 8 * 4 + i" using le_Suc_ex [of 32 j] by auto
    then have "j div 8 = 4 + i div 8" "j mod 8 = i mod 8" "i < 16"
      using that by (simp_all add: div_mod_8_shift)
    moreover from this have "i div 8 < 2" by auto
    ultimately show ?thesis using i unfolding mask16
      by (simp add: byte_at_def nth_append bit_rules bit_simps bit_mask_iff)
  qed
  have bytes: "byte_at (entry_bytes ?e) (3 + i) = byte_at ?bs i" if "i < 6" for i
  proof -
    have "entry_bytes ?e = [parent_color_and_flags e, color_and_tag e, e_last_symbol e] @ (take 5 ?bs @ [?bs ! 5]) @ locator_bytes (e_locator e)"
      unfolding entry_set_kv_def Let_def by (rule entry_bytes_payload)
    also have "\<dots> = [parent_color_and_flags e, color_and_tag e, e_last_symbol e] @ ?bs @ locator_bytes (e_locator e)"
      unfolding six ..
    finally show ?thesis using len that by (rule byte_at_middle)
  qed
  define r where "r = get_bits_uint128 (entry_u128 ?e) (3 * 8) (6 * 8)"
  have bit_r: "bit r j \<longleftrightarrow> j < 48 \<and> bit kv j" for j
  proof -
    have sh: "(8 * 3 + j) div 8 = 3 + j div 8" "(8 * 3 + j) mod 8 = j mod 8" by presburger+
    have "bit r j \<longleftrightarrow> j < 48 \<and> bit (byte_at (entry_bytes ?e) ((8 * 3 + j) div 8)) ((8 * 3 + j) mod 8)"
      by (auto simp: r_def get_bits_uint128_def bit_simps bit_mask_iff entry_u128_def bit_le_word add.commute)
    also have "\<dots> \<longleftrightarrow> j < 48 \<and> bit (byte_at ?bs (j div 8)) (j mod 8)"
      using bytes [of "j div 8"] sh less_mult_imp_div_less [of j 6 8] by (cases "j < 48") (simp_all only:, simp_all)
    finally show ?thesis using bits_bs by blast
  qed
  have flag: "(0x800000000000 :: u64) = push_bit 47 1" by code_simp
  have high: "(0xFFFF000000000000 :: u64) = push_bit 48 (mask 16)" by code_simp
  have sign: "r AND 0x800000000000 \<noteq> 0 \<longleftrightarrow> bit kv 47"
    unfolding flag by (subst and_exp_iff(2)) (simp_all only: bit_r, simp_all)
  have kv: "entry_kv ?e = (if r AND 0x800000000000 \<noteq> 0 then r OR 0xFFFF000000000000 else r)"
    by (simp only: entry_kv_def Let_def r_def)
  show ?thesis
  proof (rule bit_word_eqI)
    fix k
    assume "k < LENGTH(64)"
    then have k: "k < 64" by simp
    show "bit (entry_kv ?e) k = bit kv k"
      using canonical_high_bits [OF can, of k] k sign
      by (cases "k < 48") (auto simp: kv bit_r high bit_simps bit_mask_iff)
  qed
qed

subsection \<open>Accessors by bits\<close>

lemma entry_is_secondary_bit: "entry_is_secondary e \<longleftrightarrow> bit (parent_color_and_flags e) 2"
proof -
  have f: "(FLAG_SECONDARY_BUCKET :: u8) = push_bit 2 1" by code_simp
  show ?thesis unfolding entry_is_secondary_def f by (rule and_exp_iff) simp
qed

lemma entry_dirty_bit: "entry_dirty e \<longleftrightarrow> bit (parent_color_and_flags e) 3"
proof -
  have f: "(FLAG_DIRTY :: u8) = push_bit 3 1" by code_simp
  show ?thesis unfolding entry_dirty_def f by (rule and_exp_iff) simp
qed

lemma entry_type_take_bit: "entry_type e = take_bit 2 (parent_color_and_flags e)"
proof -
  have "(TYPE_MASK :: u8) = mask 2" by code_simp
  then show ?thesis by (simp add: entry_type_def take_bit_eq_mask)
qed

lemma nibble_iff: "(x :: u8) AND mask 4 = x \<longleftrightarrow> (\<forall>n\<ge>4. \<not> bit x n)"
proof
  assume "x AND mask 4 = x"
  then show "\<forall>n\<ge>4. \<not> bit x n"
    by (metis bit_and_iff bit_mask_iff not_le)
next
  assume "\<forall>n\<ge>4. \<not> bit x n"
  then show "x AND mask 4 = x"
    by (intro bit_word_eqI) (auto simp: bit_and_iff bit_mask_iff not_le)
qed

definition nibble :: "u8 \<Rightarrow> bool" where
  "nibble x \<longleftrightarrow> x < 16"

lemma nibble_bits: "nibble x \<longleftrightarrow> (\<forall>n\<ge>4. \<not> bit x n)"
proof -
  have "x < 16 \<longleftrightarrow> unat x < 2 ^ 4" by (simp add: word_less_nat_alt)
  also have "\<dots> \<longleftrightarrow> take_bit 4 (unat x) = unat x" by (simp add: take_bit_nat_eq_self_iff)
  also have "\<dots> \<longleftrightarrow> x AND mask 4 = x"
    by (simp flip: take_bit_eq_mask unsigned_take_bit_eq add: word_unat_eq_iff)
  finally show ?thesis unfolding nibble_def nibble_iff .
qed

lemma byte_nibbles:
  assumes "nibble t" and "nibble c"
  shows "x = t OR push_bit 4 c \<longleftrightarrow> x AND mask 4 = t \<and> drop_bit 4 x = c"
proof
  assume "x = t OR push_bit 4 c"
  then show "x AND mask 4 = t \<and> drop_bit 4 x = c"
    using assms by (auto intro!: bit_word_eqI simp: nibble_bits bit_simps bit_mask_iff) (metis not_le)+
next
  assume "x AND mask 4 = t \<and> drop_bit 4 x = c"
  then show "x = t OR push_bit 4 c"
    by (auto intro!: bit_word_eqI simp: bit_simps bit_mask_iff)
qed

lemma nibble_drop [simp]: "nibble (drop_bit 4 (x :: u8))"
  by (auto simp: nibble_bits bit_simps dest: bit_imp_le_length)

lemma nibble_and_mask [simp]: "nibble (x AND mask 4)"
  by (simp add: nibble_bits bit_simps bit_mask_iff)

lemma nibble_entry_color [simp]: "nibble (entry_color e)"
  and nibble_entry_tag [simp]: "nibble (entry_tag e)"
  and nibble_entry_parent_color [simp]: "nibble (entry_parent_color e)"
  by (simp_all add: entry_color_def entry_tag_def entry_parent_color_def)

lemma color_and_tag_update_select: "color_and_tag (e\<lparr>color_and_tag := x\<rparr>) = x"
  by simp

lemma entry_tag_color_combined:
  assumes "nibble t" and "nibble c"
  shows "entry_tag (e\<lparr>color_and_tag := t OR push_bit 4 c\<rparr>) = t"
    and "entry_color (e\<lparr>color_and_tag := t OR push_bit 4 c\<rparr>) = c"
proof -
  have split: "(t OR push_bit 4 c) AND mask 4 = t" "drop_bit 4 (t OR push_bit 4 c) = c"
    using byte_nibbles [OF assms, of "t OR push_bit 4 c"] by blast+
  show "entry_tag (e\<lparr>color_and_tag := t OR push_bit 4 c\<rparr>) = t"
    and "entry_color (e\<lparr>color_and_tag := t OR push_bit 4 c\<rparr>) = c"
    unfolding entry_tag_def entry_color_def color_and_tag_update_select by (rule split)+
qed

text \<open>Matching the first quad word against a mask is matching it byte by byte.\<close>

lemma header_and_match:
  assumes "wf_entry e" and "length ms = 8" and "length vs = 8"
  shows "entry_header e AND le_word ms = le_word vs \<longleftrightarrow>
    map2 (AND) ([parent_color_and_flags e, color_and_tag e, e_last_symbol e] @ e_bytes e) ms = vs"
proof -
  have "length ([parent_color_and_flags e, color_and_tag e, e_last_symbol e] @ e_bytes e) = length ms"
    using assms by (simp add: wf_entry_def)
  moreover from this have "length (map2 (AND) ([parent_color_and_flags e, color_and_tag e, e_last_symbol e] @ e_bytes e) ms) = length vs"
    using assms by simp
  ultimately show ?thesis
    using assms by (simp only: entry_header_bytes le_word_and) (rule le_word_inject, simp_all)
qed

subsection \<open>Addresses\<close>

lemma unat_entry_address:
  assumes "unat base + 64 * b + 60 < 2 ^ 64" and "c < 4"
  shows "unat (entry_address base (b, c)) = unat base + 64 * b + 15 * c"
proof -
  have b: "unat (64 * of_nat b :: u64) = 64 * b"
    using assms by (subst unat_mult_small) (simp_all add: unat_of_nat)
  have c: "unat (15 * of_nat c :: u64) = 15 * c"
    using assms by (subst unat_mult_small) (simp_all add: unat_of_nat)
  have "unat (base + 64 * of_nat b) = unat base + 64 * b"
    using assms b by (subst unat_add_small) simp_all
  then show ?thesis
    using assms c unfolding entry_address_def by (subst unat_add_small) simp_all
qed

lemma negated_offset_mod_16:
  assumes "64 * m + 15 * c < 16 * n" and "c < 16"
  shows "(16 * n - (64 * m + 15 * c)) mod 16 = c mod (16 :: nat)"
proof -
  have "4 * m + c \<le> n" using assms by simp
  then obtain d where "n = 4 * m + c + d" using le_Suc_ex by blast
  then have "16 * n - (64 * m + 15 * c) = c + d * 16" by simp
  then show ?thesis by (simp only: mod_mult_self1)
qed

lemma entry_address_decode:
  assumes al: "64 dvd unat base" and fit: "unat base + 64 * b + 60 < 2 ^ 64" and c: "c < 4"
  shows "bucket_containing_addr (entry_address base (b, c)) = base + 64 * of_nat b"
    and "unat (ptr_to_bucket base (entry_address base (b, c))) = b"
    and "unat (entry_index_in_bucket (entry_address base (b, c))) = c"
proof -
  let ?a = "entry_address base (b, c)"
  have ua: "unat ?a = unat base + 64 * b + 15 * c" by (rule unat_entry_address [OF fit c])
  obtain k where k: "unat base = 64 * k" using al by (auto simp: dvd_def)
  have b: "unat (64 * of_nat b :: u64) = 64 * b"
    using fit by (subst unat_mult_small) (simp_all add: unat_of_nat)
  have sum: "unat (base + 64 * of_nat b) = unat base + 64 * b"
    using fit b by (subst unat_add_small) simp_all
  have m6: "(63 :: u64) = mask 6" by code_simp
  have "unat (push_bit 6 (drop_bit 6 ?a)) = take_bit 64 (push_bit 6 (drop_bit 6 (unat ?a)))"
    by (simp add: unsigned_push_bit_eq unat_drop_bit_eq del: push_bit_numeral)
  then have "unat (bucket_containing_addr ?a) = take_bit 64 (unat ?a div 2 ^ 6 * 2 ^ 6)"
    unfolding bucket_containing_addr_def m6 and_not_mask_eq by (simp only: push_bit_eq_mult drop_bit_eq_div)
  then have "unat (bucket_containing_addr ?a) = take_bit 64 (unat ?a div 64 * 64)" by simp
  moreover have "unat ?a div 64 * 64 < 2 ^ 64"
    using fit c unfolding ua by (intro le_less_trans [OF div_times_less_eq_dividend]) simp
  ultimately have "unat (bucket_containing_addr ?a) = unat ?a div 64 * 64"
    by (simp only: take_bit_nat_eq_self)
  moreover have "(64 * k + 64 * b + 15 * c) div 64 * 64 = 64 * k + 64 * b"
  proof -
    have "64 * k + 64 * b + 15 * c = 15 * c + (k + b) * 64" by simp
    then show ?thesis using c by (simp only: div_mult_self1) simp
  qed
  ultimately show "bucket_containing_addr ?a = base + 64 * of_nat b"
    unfolding word_unat_eq_iff sum ua k by simp
  have "base \<le> ?a" unfolding word_le_nat_alt ua by simp
  then have "unat (?a - base) = 64 * b + 15 * c"
    using unat_diff_le [of base ?a] ua by simp
  then show "unat (ptr_to_bucket base ?a) = b"
  proof -
    have "(64 * b + 15 * c) div 64 = 15 * c div 64 + b" by (simp add: div_mult_self2)
    then show ?thesis using \<open>unat (?a - base) = 64 * b + 15 * c\<close> c unfolding ptr_to_bucket_def unat_div by simp
  qed
  have "unat (entry_index_in_bucket ?a) = unat (- ?a) mod 16"
  proof -
    have m4: "(0xF :: u64) = mask 4" by code_simp
    have neg: "NOT ?a + 1 = - ?a" by (simp add: minus_eq_not_plus_1)
    show ?thesis unfolding entry_index_in_bucket_def neg m4 unat_and_mask by simp
  qed
  also have "\<dots> = c"
  proof (cases "?a = 0")
    case True
    then show ?thesis using ua k c by simp
  next
    case False
    then have "0 < unat ?a" by (simp add: unat_gt_0)
    then have "unat (- ?a) = 2 ^ 64 - (64 * (k + b) + 15 * c)"
      using ua k unat_sub_if' [of 0 ?a] by auto
    moreover have "64 * (k + b) + 15 * c < 16 * 2 ^ 60" using fit k c by simp
    ultimately show ?thesis using negated_offset_mod_16 [of "k + b" c "2 ^ 60"] c by auto
  qed
  finally show "unat (entry_index_in_bucket ?a) = c" .
qed

end
