(* ===== verification/Hashing.thy ===== *)
theory Hashing
  imports Entry
begin

text \<open>
  Bucket pairs and prefix hashes (\<open>main.c\<close>) and the random generator that fills the
  mix table (\<open>random.c\<close>).

  A prefix hash is a number below \<open>num_pairs\<close>: its low four bits are the tag and the rest
  is the primary bucket of the entry of that prefix. The secondary bucket is the primary
  one minus a per-tag constant, modulo the number of buckets; \<open>mix_bucket\<close> and
  \<open>unmix_bucket\<close> compute it without a division. \<open>valid_table\<close> states what \<open>ct_alloc\<close>
  establishes of the sizes and of the mix table.
\<close>

subsection \<open>Operations\<close>

definition hash_to_bucket :: "u64 \<Rightarrow> u64" where
  "hash_to_bucket x = drop_bit TAG_BITS x"

definition hash_to_tag :: "u64 \<Rightarrow> u64" where
  "hash_to_tag x = x AND mask TAG_BITS"

definition mix_bucket :: "cuckoo_trie \<Rightarrow> u64 \<Rightarrow> u64 \<Rightarrow> u64" where
  "mix_bucket trie bucket_num tag =
     (let mix_value = bucket_mix_table trie ! unat tag;
          result = bucket_num - mix_value
      in result + (num_buckets trie AND (if sint result < 0 then - 1 else 0)))"

definition unmix_bucket :: "cuckoo_trie \<Rightarrow> u64 \<Rightarrow> u64 \<Rightarrow> u64" where
  "unmix_bucket trie bucket_num tag =
     (let mix_value = bucket_mix_table trie ! unat tag;
          result = bucket_num + mix_value
      in if num_buckets trie \<le> result then result - num_buckets trie else result)"

definition accumulate_hash :: "cuckoo_trie \<Rightarrow> u64 \<Rightarrow> u64 \<Rightarrow> u64" where
  "accumulate_hash trie x symbol =
     (let x = x XOR symbol;
          block = drop_bit BITS_PER_SYMBOL x;
          depth = x AND mask BITS_PER_SYMBOL
      in depth * num_shuffle_blocks trie + block)"

definition alternate_bucket :: "cuckoo_trie \<Rightarrow> ct_entry \<Rightarrow> u64 \<Rightarrow> u64" where
  "alternate_bucket trie e bucket_num =
     (if entry_is_secondary e then unmix_bucket trie bucket_num (ucast (entry_tag e))
      else mix_bucket trie bucket_num (ucast (entry_tag e)))"

text \<open>
  The generator threads its state explicitly. C leaves the order of the two calls in
  \<open>rand_uint64\<close> open; the left one is taken first here.
\<close>

definition rand_seed :: "u64 \<Rightarrow> u64" where
  "rand_seed s = s"

definition rand_dword :: "u64 \<Rightarrow> u32 \<times> u64" where
  "rand_dword state =
     (let state = 6364136223846793005 * state + 1 in (ucast (drop_bit 32 state), state))"

definition rand_uint64 :: "u64 \<Rightarrow> u64 \<times> u64" where
  "rand_uint64 state =
     (let (high, state) = rand_dword state; (low, state) = rand_dword state
      in (push_bit 32 (ucast high) + ucast low, state))"

fun mix_table_values :: "nat \<Rightarrow> u64 \<Rightarrow> u64 list" where
  "mix_table_values 0 state = []"
| "mix_table_values (Suc n) state =
     (let (value, state) = rand_uint64 state in value # mix_table_values n state)"

definition init_bucket_mix_table :: "cuckoo_trie \<Rightarrow> cuckoo_trie" where
  "init_bucket_mix_table trie =
     trie\<lparr>bucket_mix_table :=
       map (\<lambda>value. value mod num_buckets trie) (mix_table_values (2 ^ TAG_BITS) (rand_seed 1))\<rparr>"

subsection \<open>Valid sizes\<close>

text \<open>
  Bucket numbers are stored in 32 bits with all ones reserved, so a table has fewer than
  \<open>2 ^ 32 - 1\<close> buckets.
\<close>

definition valid_sizes :: "cuckoo_trie \<Rightarrow> bool" where
  "valid_sizes trie \<longleftrightarrow>
     0 < unat (num_buckets trie) \<and> unat (num_buckets trie) < 2 ^ 32 - 1 \<and>
     64 dvd unat (num_buckets trie) \<and>
     num_pairs trie = num_buckets trie * 16 \<and>
     num_shuffle_blocks trie = drop_bit BITS_PER_SYMBOL (num_pairs trie)"

definition valid_mix_table :: "cuckoo_trie \<Rightarrow> bool" where
  "valid_mix_table trie \<longleftrightarrow>
     length (bucket_mix_table trie) = 16 \<and>
     (\<forall>v\<in>set (bucket_mix_table trie). 0 < v \<and> v < num_buckets trie)"

definition valid_table :: "cuckoo_trie \<Rightarrow> bool" where
  "valid_table trie \<longleftrightarrow> valid_sizes trie \<and> valid_mix_table trie"

lemma valid_tableD [dest]:
  "valid_table trie \<Longrightarrow> valid_sizes trie" "valid_table trie \<Longrightarrow> valid_mix_table trie"
  by (simp_all add: valid_table_def)

lemma valid_table_update [simp]:
  "valid_table (trie\<lparr>buckets := bs\<rparr>) = valid_table trie"
  "valid_table (trie\<lparr>is_empty := b\<rparr>) = valid_table trie"
  by (simp_all add: valid_table_def valid_sizes_def valid_mix_table_def)

lemma mix_bucket_update [simp]:
  "mix_bucket (trie\<lparr>buckets := bs\<rparr>) = mix_bucket trie"
  "mix_bucket (trie\<lparr>is_empty := b\<rparr>) = mix_bucket trie"
  "unmix_bucket (trie\<lparr>buckets := bs\<rparr>) = unmix_bucket trie"
  "unmix_bucket (trie\<lparr>is_empty := b\<rparr>) = unmix_bucket trie"
  "accumulate_hash (trie\<lparr>buckets := bs\<rparr>) = accumulate_hash trie"
  "accumulate_hash (trie\<lparr>is_empty := b\<rparr>) = accumulate_hash trie"
  by (simp_all add: fun_eq_iff mix_bucket_def unmix_bucket_def accumulate_hash_def Let_def)

lemma mix_value_bounds:
  assumes "valid_mix_table trie" and "unat tag < 16"
  shows "0 < unat (bucket_mix_table trie ! unat tag)"
    and "unat (bucket_mix_table trie ! unat tag) < unat (num_buckets trie)"
proof -
  have "bucket_mix_table trie ! unat tag \<in> set (bucket_mix_table trie)"
    using assms by (intro nth_mem) (simp add: valid_mix_table_def)
  with assms show "0 < unat (bucket_mix_table trie ! unat tag)"
    and "unat (bucket_mix_table trie ! unat tag) < unat (num_buckets trie)"
    by (auto simp: valid_mix_table_def word_less_nat_alt)
qed

lemma unat_drop_bit_div: "unat (drop_bit n (w :: 'a::len word)) = unat w div 2 ^ n"
  by (rule trans [OF unat_drop_bit_eq drop_bit_eq_div])

subsection \<open>The two buckets of a pair\<close>

lemma sint_negative_iff: "sint (w :: u64) < 0 \<longleftrightarrow> 2 ^ 63 \<le> unat w"
proof -
  have "sint w < 0 \<longleftrightarrow> bit w 63" using bit_last_iff [of w] by simp
  also have "\<dots> \<longleftrightarrow> bit (unat w) 63" by (simp add: bit_unsigned_iff)
  also have "\<dots> \<longleftrightarrow> odd (unat w div 2 ^ 63)" by (rule bit_iff_odd)
  also have "\<dots> \<longleftrightarrow> 2 ^ 63 \<le> unat w"
  proof -
    have "unat w < 2 ^ 63 * 2" using unsigned_less [of w] by simp
    then have "unat w div 2 ^ 63 < 2" by (simp add: less_mult_imp_div_less)
    then show ?thesis by (cases "unat w div 2 ^ 63") (auto simp: div_eq_0_iff not_le)
  qed
  finally show ?thesis .
qed

text \<open>The specification of the pair: subtraction and addition modulo the table size.\<close>

lemma unat_mix_bucket:
  assumes v: "valid_table trie" and t: "unat tag < 16" and b: "unat b < unat (num_buckets trie)"
  shows "unat (mix_bucket trie b tag) =
    (unat b + unat (num_buckets trie) - unat (bucket_mix_table trie ! unat tag)) mod unat (num_buckets trie)"
proof -
  let ?m = "bucket_mix_table trie ! unat tag" and ?n = "num_buckets trie"
  note m = mix_value_bounds [OF valid_tableD(2) [OF v] t]
  have n: "unat ?n < 2 ^ 32" using v by (auto simp: valid_table_def valid_sizes_def)
  show ?thesis
  proof (cases "unat ?m \<le> unat b")
    case True
    then have le: "?m \<le> b" by (simp add: word_le_nat_alt)
    then have u: "unat (b - ?m) = unat b - unat ?m" by (rule unat_diff_le)
    then have "unat (b - ?m) < 2 ^ 63" using b n by simp
    then have "\<not> sint (b - ?m) < 0"
      by (simp add: sint_negative_iff)
    then have "mix_bucket trie b tag = b - ?m" by (simp add: mix_bucket_def Let_def)
    moreover have "(unat b + unat ?n - unat ?m) mod unat ?n = unat b - unat ?m"
      using True b by (simp add: mod_add_self2 flip: Nat.add_diff_assoc2)
    ultimately show ?thesis using u by simp
  next
    case False
    then have "unat b < unat ?m" by simp
    then have u: "unat (b - ?m) = 2 ^ 64 + unat b - unat ?m"
      by (simp add: unat_sub_if')
    then have "2 ^ 63 \<le> unat (b - ?m)" using m n by simp
    then have "sint (b - ?m) < 0"
      by (simp add: sint_negative_iff)
    then have "mix_bucket trie b tag = ?n - (?m - b)"
      by (simp add: mix_bucket_def Let_def)
    moreover have "unat (?m - b) = unat ?m - unat b"
      using False by (intro unat_diff_le) (simp add: word_le_nat_alt)
    ultimately have "unat (mix_bucket trie b tag) = unat ?n - (unat ?m - unat b)"
      using m by (simp add: unat_diff_le word_le_nat_alt)
    then show ?thesis using False m by simp
  qed
qed

lemma unat_unmix_bucket:
  assumes v: "valid_table trie" and t: "unat tag < 16" and b: "unat b < unat (num_buckets trie)"
  shows "unat (unmix_bucket trie b tag) =
    (unat b + unat (bucket_mix_table trie ! unat tag)) mod unat (num_buckets trie)"
proof -
  let ?m = "bucket_mix_table trie ! unat tag" and ?n = "num_buckets trie"
  note m = mix_value_bounds [OF valid_tableD(2) [OF v] t]
  have n: "unat ?n < 2 ^ 32" using v by (auto simp: valid_table_def valid_sizes_def)
  have u: "unat (b + ?m) = unat b + unat ?m"
    using m b n by (intro unat_add_small) simp
  show ?thesis
  proof (cases "unat ?n \<le> unat b + unat ?m")
    case True
    then have le: "?n \<le> b + ?m" by (simp add: word_le_nat_alt u)
    then have "unat (unmix_bucket trie b tag) = unat b + unat ?m - unat ?n"
      by (simp add: unmix_bucket_def Let_def unat_diff_le u)
    then show ?thesis using True m b by (simp add: mod_if)
  next
    case False
    then have "\<not> ?n \<le> b + ?m" by (simp add: word_le_nat_alt u)
    then show ?thesis using False by (simp add: unmix_bucket_def Let_def u)
  qed
qed

text \<open>What a table of bucket pairs relies on.\<close>

locale paired_buckets =
  fixes ok :: "'s \<Rightarrow> bool"
    and valid :: "'s \<Rightarrow> 'b \<Rightarrow> bool"
    and tag_ok :: "'t \<Rightarrow> bool"
    and mix :: "'s \<Rightarrow> 'b \<Rightarrow> 't \<Rightarrow> 'b"
    and unmix :: "'s \<Rightarrow> 'b \<Rightarrow> 't \<Rightarrow> 'b"
  assumes mix_valid: "ok s \<Longrightarrow> valid s b \<Longrightarrow> tag_ok t \<Longrightarrow> valid s (mix s b t)"
    and unmix_valid: "ok s \<Longrightarrow> valid s b \<Longrightarrow> tag_ok t \<Longrightarrow> valid s (unmix s b t)"
    and unmix_mix: "ok s \<Longrightarrow> valid s b \<Longrightarrow> tag_ok t \<Longrightarrow> unmix s (mix s b t) t = b"
    and mix_unmix: "ok s \<Longrightarrow> valid s b \<Longrightarrow> tag_ok t \<Longrightarrow> mix s (unmix s b t) t = b"
    and mix_neq: "ok s \<Longrightarrow> valid s b \<Longrightarrow> tag_ok t \<Longrightarrow> mix s b t \<noteq> b"
begin

lemma mix_eq_iff:
  assumes "ok s" and "valid s b" and "valid s b'" and "tag_ok t"
  shows "mix s b t = mix s b' t \<longleftrightarrow> b = b'"
  using assms unmix_mix by metis

lemma mix_flip:
  assumes "ok s" and "valid s b" and "valid s b'" and "tag_ok t"
  shows "mix s b t = b' \<longleftrightarrow> b = unmix s b' t"
  using assms unmix_mix mix_unmix by metis

lemma unmix_neq:
  assumes "ok s" and "valid s b" and "tag_ok t"
  shows "unmix s b t \<noteq> b"
  using assms mix_neq [of s "unmix s b t" t] mix_unmix [of s b t] unmix_valid [of s b t] by metis

text \<open>Moving to the other bucket and toggling the side bit twice returns to the start.\<close>

lemma alternate_involution:
  assumes "ok s" and "valid s b" and "tag_ok t"
  defines "other \<equiv> \<lambda>second c. if second then unmix s c t else mix s c t"
  shows "other (\<not> second) (other second b) = b"
  using assms by (cases second) (auto simp: unmix_mix mix_unmix)

end

definition valid_bucket :: "cuckoo_trie \<Rightarrow> u64 \<Rightarrow> bool" where
  "valid_bucket trie b \<longleftrightarrow> b < num_buckets trie"

definition valid_tag :: "u64 \<Rightarrow> bool" where
  "valid_tag t \<longleftrightarrow> t < 16"

lemma valid_bucket_unat: "valid_bucket trie b \<longleftrightarrow> unat b < unat (num_buckets trie)"
  by (simp add: valid_bucket_def word_less_nat_alt)

lemma valid_tag_unat: "valid_tag t \<longleftrightarrow> unat t < 16"
  by (simp add: valid_tag_def word_less_nat_alt)

lemma mod_sub_add_cancel:
  fixes n m b :: nat
  assumes "b < n" and "0 < m" and "m < n"
  shows "((b + n - m) mod n + m) mod n = b"
    and "((b + m) mod n + n - m) mod n = b"
    and "(b + n - m) mod n \<noteq> b"
proof -
  have *: "(b + n - m) mod n = (if m \<le> b then b - m else b + n - m)"
    using assms by (auto simp: mod_if)
  have **: "(b + m) mod n = (if b + m < n then b + m else b + m - n)"
    using assms by (auto simp: mod_if)
  show "((b + n - m) mod n + m) mod n = b" using assms unfolding * by auto
  show "((b + m) mod n + n - m) mod n = b" using assms unfolding ** by auto
  show "(b + n - m) mod n \<noteq> b" using assms unfolding * by auto
qed

interpretation pair: paired_buckets valid_table valid_bucket valid_tag mix_bucket unmix_bucket
proof unfold_locales
  fix s b t
  assume s: "valid_table s" and b: "valid_bucket s b" and t: "valid_tag t"
  have t': "unat t < 16" and b': "unat b < unat (num_buckets s)"
    using b t by (simp_all add: valid_bucket_unat valid_tag_unat)
  note m = mix_value_bounds [OF valid_tableD(2) [OF s] t']
  note mx = unat_mix_bucket [OF s t'] and ux = unat_unmix_bucket [OF s t']
  have v: "unat (mix_bucket s b t) < unat (num_buckets s)"
    and w: "unat (unmix_bucket s b t) < unat (num_buckets s)"
    using b' by (simp_all add: mx ux)
  then show "valid_bucket s (mix_bucket s b t)" "valid_bucket s (unmix_bucket s b t)"
    by (simp_all add: valid_bucket_unat)
  note cancel = mod_sub_add_cancel [OF b' m]
  show "unmix_bucket s (mix_bucket s b t) t = b"
    unfolding word_unat_eq_iff ux [OF v] mx [OF b'] by (rule cancel(1))
  show "mix_bucket s (unmix_bucket s b t) t = b"
    unfolding word_unat_eq_iff mx [OF w] ux [OF b'] by (rule cancel(2))
  show "mix_bucket s b t \<noteq> b"
    unfolding word_unat_eq_iff mx [OF b'] by (rule cancel(3))
qed

subsection \<open>Prefix hashes\<close>

definition valid_hash :: "cuckoo_trie \<Rightarrow> u64 \<Rightarrow> bool" where
  "valid_hash trie x \<longleftrightarrow> x < num_pairs trie"

lemma valid_sizes_unat:
  assumes "valid_sizes trie"
  obtains k where "unat (num_buckets trie) = 64 * k" "unat (num_pairs trie) = 1024 * k"
    "unat (num_shuffle_blocks trie) = 32 * k" "0 < k" "k < 2 ^ 26"
proof -
  from assms obtain k where k: "unat (num_buckets trie) = 64 * k"
    by (auto simp: valid_sizes_def dvd_def)
  have np: "unat (num_pairs trie) = 1024 * k"
    using assms k by (simp add: valid_sizes_def unat_mult_small)
  have "num_shuffle_blocks trie = drop_bit 5 (num_pairs trie)"
    using assms unfolding valid_sizes_def by blast
  then have "unat (num_shuffle_blocks trie) = unat (num_pairs trie) div 32"
    by (simp only: unat_drop_bit_div) simp
  then have "unat (num_shuffle_blocks trie) = 32 * k" using np by simp
  then show thesis using assms k np by (intro that) (auto simp: valid_sizes_def)
qed

lemma unat_xor_symbol:
  assumes "s \<le> (32 :: u64)"
  shows "unat (x XOR s) div 64 = unat x div 64"
proof -
  have "drop_bit 6 s = 0"
    using assms unfolding word_unat_eq_iff unat_drop_bit_div word_le_nat_alt by simp
  then have "drop_bit 6 (x XOR s) = drop_bit 6 x" by simp
  then have "unat (drop_bit 6 (x XOR s)) = unat (drop_bit 6 x)" by simp
  then show ?thesis unfolding unat_drop_bit_div by simp
qed

lemma xor_symbol_less:
  assumes "valid_sizes trie" and "valid_hash trie x" and "s \<le> 32"
  shows "unat (x XOR s) < unat (num_pairs trie)"
proof -
  obtain k where k: "unat (num_pairs trie) = 1024 * k" by (rule valid_sizes_unat [OF assms(1)])
  have "unat x div 64 < 16 * k"
    using assms(2) k by (simp add: valid_hash_def word_less_nat_alt less_mult_imp_div_less)
  then show ?thesis using unat_xor_symbol [OF assms(3), of x] k by linarith
qed

lemma unat_accumulate_hash:
  assumes v: "valid_sizes trie" and x: "valid_hash trie x" and s: "s \<le> 32"
  shows "unat (accumulate_hash trie x s) =
    unat (x XOR s) mod 32 * (unat (num_pairs trie) div 32) + unat (x XOR s) div 32"
    and "unat (accumulate_hash trie x s) < unat (num_pairs trie)"
proof -
  obtain k where k: "unat (num_pairs trie) = 1024 * k" "unat (num_shuffle_blocks trie) = 32 * k" "k < 2 ^ 26"
    by (rule valid_sizes_unat [OF v])
  let ?y = "x XOR s"
  have y: "unat ?y < 1024 * k" using xor_symbol_less [OF v x s] k by simp
  have d: "unat (?y AND mask 5) = unat ?y mod 32" unfolding unat_and_mask by simp
  have b: "unat (drop_bit 5 ?y) = unat ?y div 32" unfolding unat_drop_bit_div by simp
  have m31: "unat ?y mod 32 * (32 * k) \<le> 31 * (32 * k)" by (intro mult_right_mono) (simp_all add: less_Suc_eq_le [symmetric])
  have "unat ?y div 32 < 32 * k" using y by (simp add: less_mult_imp_div_less)
  with m31 have lt: "unat ?y mod 32 * (32 * k) + unat ?y div 32 < 1024 * k" by linarith
  have "unat ((?y AND mask 5) * num_shuffle_blocks trie) = unat ?y mod 32 * (32 * k)"
  proof -
    have "31 * (32 * k) < 2 ^ 64" using k(3) by simp
    with m31 have "unat ?y mod 32 * (32 * k) < 2 ^ 64" by (rule le_less_trans)
    then show ?thesis by (subst unat_mult_small) (simp_all only: d k len_bit0 len_num1, simp_all)
  qed
  then have "unat (accumulate_hash trie x s) = unat ?y mod 32 * (32 * k) + unat ?y div 32"
    using lt k(3) unfolding accumulate_hash_def Let_def by (subst unat_add_small) (simp_all only: b, simp_all)
  with lt k show "unat (accumulate_hash trie x s) = unat ?y mod 32 * (unat (num_pairs trie) div 32) + unat ?y div 32"
    and "unat (accumulate_hash trie x s) < unat (num_pairs trie)" by simp_all
qed

lemma div_mod_pair_inject:
  fixes a b a' b' n :: nat
  assumes "a * n + b = a' * n + b'" and "b < n" and "b' < n"
  shows "a = a' \<and> b = b'"
proof -
  have "(a * n + b) div n = a" "(a' * n + b') div n = a'" using assms(2,3) by simp_all
  with assms(1) have "a = a'" by simp
  with assms(1) show ?thesis by simp
qed

lemma accumulate_hash_inject:
  assumes v: "valid_sizes trie" and x: "valid_hash trie x" "valid_hash trie x'"
    and s: "s \<le> 32" "s' \<le> 32"
    and eq: "accumulate_hash trie x s = accumulate_hash trie x' s'"
  shows "x XOR s = x' XOR s'"
proof -
  obtain k where k: "unat (num_pairs trie) = 1024 * k" by (rule valid_sizes_unat [OF v])
  have lt: "unat (x XOR s) div 32 < 32 * k" "unat (x' XOR s') div 32 < 32 * k"
    using xor_symbol_less [OF v x(1) s(1)] xor_symbol_less [OF v x(2) s(2)] k
    by (simp_all add: less_mult_imp_div_less)
  have "unat (x XOR s) mod 32 * (32 * k) + unat (x XOR s) div 32 =
      unat (x' XOR s') mod 32 * (32 * k) + unat (x' XOR s') div 32"
    using eq unat_accumulate_hash(1) [OF v x(1) s(1)] unat_accumulate_hash(1) [OF v x(2) s(2)] k by simp
  from div_mod_pair_inject [OF this lt] have "unat (x XOR s) = unat (x' XOR s')"
    by (metis div_mult_mod_eq)
  then show ?thesis by (simp add: word_unat_eq_iff)
qed

lemma accumulate_hash_symbol_inject:
  assumes "valid_sizes trie" and "valid_hash trie x" and "s \<le> 32" and "s' \<le> 32"
    and "accumulate_hash trie x s = accumulate_hash trie x s'"
  shows "s = s'"
proof -
  have "x XOR (x XOR s) = x XOR (x XOR s')" using accumulate_hash_inject [OF assms(1,2,2,3,4,5)] by simp
  then show ?thesis by (simp flip: xor.assoc)
qed

text \<open>A hash splits into a valid bucket and a valid tag, and is determined by the two.\<close>

lemma hash_split_valid:
  assumes "valid_sizes trie" and "valid_hash trie x"
  shows "valid_bucket trie (hash_to_bucket x)" and "valid_tag (hash_to_tag x)"
proof -
  obtain k where k: "unat (num_pairs trie) = 1024 * k" "unat (num_buckets trie) = 64 * k"
    by (rule valid_sizes_unat [OF assms(1)])
  show "valid_bucket trie (hash_to_bucket x)"
    using assms(2) k unfolding valid_bucket_unat valid_hash_def word_less_nat_alt hash_to_bucket_def unat_drop_bit_div
    by (simp add: less_mult_imp_div_less)
  show "valid_tag (hash_to_tag x)"
    unfolding valid_tag_unat hash_to_tag_def unat_and_mask by simp
qed

lemma hash_split_inject: "hash_to_bucket x = hash_to_bucket y \<Longrightarrow> hash_to_tag x = hash_to_tag y \<Longrightarrow> x = y"
proof (rule bit_word_eqI)
  fix n
  assume "hash_to_bucket x = hash_to_bucket y" and "hash_to_tag x = hash_to_tag y"
  then have "bit (hash_to_bucket x) (n - 4) = bit (hash_to_bucket y) (n - 4)"
    and "bit (hash_to_tag x) n = bit (hash_to_tag y) n" by simp_all
  then show "bit x n = bit y n"
    by (cases "n < 4") (simp_all add: hash_to_bucket_def hash_to_tag_def bit_simps bit_mask_iff)
qed

lemma valid_hash_start: "valid_sizes trie \<Longrightarrow> valid_hash trie HASH_START_VALUE"
  by (erule valid_sizes_unat) (simp add: valid_hash_def word_less_nat_alt)

subsection \<open>The mix table\<close>

text \<open>The same generator on natural numbers, which the simplifier evaluates quickly.\<close>

fun mix_nat_values :: "nat \<Rightarrow> nat \<Rightarrow> nat list" where
  "mix_nat_values 0 state = []"
| "mix_nat_values (Suc n) state =
     (let state1 = (6364136223846793005 * state + 1) mod 2 ^ 64;
          state2 = (6364136223846793005 * state1 + 1) mod 2 ^ 64
      in (state1 div 2 ^ 32 * 2 ^ 32 + state2 div 2 ^ 32) # mix_nat_values n state2)"

lemma rand_dword_unat:
  "unat (snd (rand_dword state)) = (6364136223846793005 * unat state + 1) mod 2 ^ 64"
  "unat (fst (rand_dword state)) = unat (snd (rand_dword state)) div 2 ^ 32"
proof -
  show "unat (snd (rand_dword state)) = (6364136223846793005 * unat state + 1) mod 2 ^ 64"
    by (simp add: rand_dword_def Let_def unat_word_ariths mod_simps)
  have "unat (ucast (drop_bit 32 w) :: u32) = unat w div 2 ^ 32" for w :: u64
  proof -
    have "unat w div 2 ^ 32 < 2 ^ 32"
      using unsigned_less [of w] by (intro less_mult_imp_div_less) simp
    then show ?thesis unfolding unsigned_ucast_eq unat_drop_bit_div by (simp add: take_bit_eq_mod)
  qed
  then show "unat (fst (rand_dword state)) = unat (snd (rand_dword state)) div 2 ^ 32"
    by (simp only: rand_dword_def Let_def fst_conv snd_conv)
qed

lemma rand_uint64_unat:
  "unat (fst (rand_uint64 state)) =
    unat (fst (rand_dword state)) * 2 ^ 32 + unat (fst (rand_dword (snd (rand_dword state))))"
  "snd (rand_uint64 state) = snd (rand_dword (snd (rand_dword state)))"
proof -
  have *: "unat (push_bit 32 (ucast high) + ucast low :: u64) = unat high * 2 ^ 32 + unat low" for high low :: u32
  proof -
    have h: "unat high < 2 ^ 32" and l: "unat low < 2 ^ 32"
      using unsigned_less [of high] unsigned_less [of low] by simp_all
    have "unat (push_bit 32 (ucast high) :: u64) = unat high * 2 ^ 32"
      using h by (simp add: push_bit_eq_mult unat_mult_small unsigned_ucast_eq take_bit_eq_mod)
    with h l show ?thesis by (subst unat_add_small) (simp_all add: unsigned_ucast_eq take_bit_eq_mod)
  qed
  show "unat (fst (rand_uint64 state)) =
      unat (fst (rand_dword state)) * 2 ^ 32 + unat (fst (rand_dword (snd (rand_dword state))))"
    by (simp only: rand_uint64_def split_def Let_def fst_conv *)
  show "snd (rand_uint64 state) = snd (rand_dword (snd (rand_dword state)))"
    by (simp add: rand_uint64_def split_def Let_def)
qed

lemma mix_nat_values: "map unat (mix_table_values n state) = mix_nat_values n (unat state)"
  by (induction n arbitrary: state)
    (simp_all add: rand_uint64_unat rand_dword_unat split_def Let_def del: power_numeral)

lemma mix_nat_values_numeral:
  "mix_nat_values (numeral k) state =
     (let state1 = (6364136223846793005 * state + 1) mod 2 ^ 64;
          state2 = (6364136223846793005 * state1 + 1) mod 2 ^ 64
      in (state1 div 2 ^ 32 * 2 ^ 32 + state2 div 2 ^ 32) # mix_nat_values (pred_numeral k) state2)"
  by (simp only: numeral_eq_Suc mix_nat_values.simps)

lemma mix_table_values_1:
  "map (\<lambda>v. v mod 64) (map unat (mix_table_values 16 1)) =
    [15, 41, 52, 24, 39, 63, 49, 25, 22, 44, 23, 36, 47, 40, 41, 27]"
  unfolding mix_nat_values by (simp add: mix_nat_values_numeral Let_def cong: let_weak_cong)

lemma length_mix_table_values [simp]: "length (mix_table_values n state) = n"
  by (induction n arbitrary: state) (simp_all add: split_def Let_def)

lemma mix_table_values_not_dvd:
  assumes "v \<in> set (mix_table_values 16 1)"
  shows "\<not> 64 dvd unat v"
proof
  assume "64 dvd unat v"
  then have "0 \<in> set (map (\<lambda>v. v mod 64) (map unat (mix_table_values 16 1)))"
    using assms by (force simp: dvd_eq_mod_eq_0)
  then show False unfolding mix_table_values_1 by simp
qed

lemma init_bucket_mix_table_valid:
  assumes "valid_sizes trie"
  shows "valid_table (init_bucket_mix_table trie)"
proof -
  let ?n = "num_buckets trie"
  obtain k where k: "unat ?n = 64 * k" "0 < k" by (rule valid_sizes_unat [OF assms])
  have n: "0 < ?n" using k by (simp add: word_less_nat_alt)
  have "0 < v mod ?n \<and> v mod ?n < ?n" if "v \<in> set (mix_table_values 16 1)" for v
  proof
    have "unat v mod unat ?n \<noteq> 0"
    proof
      assume "unat v mod unat ?n = 0"
      then have "64 dvd unat v" using k by (auto elim: dvd_mult_left)
      with mix_table_values_not_dvd [OF that] show False ..
    qed
    then show "0 < v mod ?n" by (simp add: word_less_nat_alt unat_mod)
    show "v mod ?n < ?n" using k by (simp add: word_less_nat_alt unat_mod)
  qed
  then have "valid_mix_table (init_bucket_mix_table trie)"
    by (simp add: valid_mix_table_def init_bucket_mix_table_def rand_seed_def)
  with assms show ?thesis
    by (simp add: valid_table_def valid_sizes_def init_bucket_mix_table_def)
qed

end
