(* ===== verification/Keys.thy ===== *)
theory Keys
  imports Hashing
begin

text \<open>
  Keys (\<open>key_object.h\<close>) and their symbols (\<open>main.c\<close>).

  A key is a byte string. Its symbols are the consecutive groups of five bits, zero
  padded at the end and incremented by one, followed by the symbol \<open>SYMBOL_END\<close> = 0.
  \<open>get_string_symbol\<close> reads one of them; \<open>key_to_symbols\<close> computes all of them, eight at a
  time, with \<open>pdep\<close>; the prefetcher pairs them with the hashes of all prefixes. Sizes and
  indices are natural numbers: the C code keeps them in 64 bits and keys are shorter
  than \<open>2 ^ 31\<close> bytes, so none of its index computations wraps.
\<close>

subsection \<open>Key objects\<close>

record ct_kv =
  key_size :: u32
  value_size :: u32
  kv_bytes :: "u8 list"

definition kv_required_size :: "u64 \<Rightarrow> u64 \<Rightarrow> u64" where
  "kv_required_size key_len value_len = 8 + key_len + value_len"

definition kv_size :: "ct_kv \<Rightarrow> u64" where
  "kv_size kv = 8 + scast (key_size kv) + scast (value_size kv)"

definition kv_init :: "ct_kv \<Rightarrow> u64 \<Rightarrow> u64 \<Rightarrow> ct_kv" where
  "kv_init kv key_len value_len = kv\<lparr>key_size := ucast key_len, value_size := ucast value_len\<rparr>"

definition kv_key_size :: "ct_kv \<Rightarrow> u64" where
  "kv_key_size kv = scast (key_size kv)"

definition kv_value_size :: "ct_kv \<Rightarrow> u64" where
  "kv_value_size kv = scast (value_size kv)"

definition kv_value_bytes :: "ct_kv \<Rightarrow> u8 list" where
  "kv_value_bytes kv = drop (unat (kv_key_size kv)) (kv_bytes kv)"

text \<open>Only the sign of the result of \<open>memcmp\<close> is documented; it is that of the first difference.\<close>

primrec memcmp :: "u8 list \<Rightarrow> u8 list \<Rightarrow> nat \<Rightarrow> int" where
  "memcmp a b 0 = 0"
| "memcmp a b (Suc n) =
     (if byte_at a 0 < byte_at b 0 then - 1 else if byte_at b 0 < byte_at a 0 then 1
      else memcmp (tl a) (tl b) n)"

text \<open>The final difference is a 64-bit one, truncated to the 32-bit result type.\<close>

definition kv_key_compare_to :: "ct_kv \<Rightarrow> u64 \<Rightarrow> u8 list \<Rightarrow> int" where
  "kv_key_compare_to kv sz bytes =
     (let min_size = (if kv_key_size kv < sz then kv_key_size kv else sz);
          result = memcmp (kv_bytes kv) bytes (unat min_size)
      in if result \<noteq> 0 then result else sint (ucast (kv_key_size kv - sz) :: u32))"

definition kv_key_compare :: "ct_kv \<Rightarrow> ct_kv \<Rightarrow> int" where
  "kv_key_compare k1 k2 = kv_key_compare_to k1 (kv_key_size k2) (kv_bytes k2)"

text \<open>A key object whose size fields agree with its bytes, and its key bytes.\<close>

definition wf_kv :: "ct_kv \<Rightarrow> bool" where
  "wf_kv kv \<longleftrightarrow> unat (key_size kv) < 2 ^ 31 \<and> unat (key_size kv) \<le> length (kv_bytes kv)"

definition kv_key :: "ct_kv \<Rightarrow> u8 list" where
  "kv_key kv = take (unat (key_size kv)) (kv_bytes kv)"

subsection \<open>Symbols\<close>

definition get_string_symbol :: "nat \<Rightarrow> u8 list \<Rightarrow> nat \<Rightarrow> u64" where
  "get_string_symbol sz bytes symbol_idx =
     (let symbol_pos = symbol_idx * BITS_PER_SYMBOL;
          first_byte_idx = symbol_pos div 8;
          offset = symbol_pos mod 8
      in if first_byte_idx \<ge> sz then SYMBOL_END
         else (let first_byte = byte_at bytes first_byte_idx;
                   second_byte = (if first_byte_idx + 1 < sz then byte_at bytes (first_byte_idx + 1) else 0);
                   w = ucast first_byte * 256 + ucast second_byte :: u32
               in ucast ((drop_bit (16 - BITS_PER_SYMBOL - offset) w AND 31) + 1)))"

definition get_key_symbol :: "ct_kv \<Rightarrow> nat \<Rightarrow> u64" where
  "get_key_symbol kv symbol_idx = get_string_symbol (unat (kv_key_size kv)) (kv_bytes kv) symbol_idx"

definition num_key_symbols :: "nat \<Rightarrow> nat" where
  "num_key_symbols sz = (sz * 8 + BITS_PER_SYMBOL - 1) div BITS_PER_SYMBOL + 1"

text \<open>
  \<open>key_to_symbols\<close> may read up to seven bytes beside the key, so it is modelled on a
  memory from addresses to bytes. \<open>bzhi\<close> keeps the low bits, \<open>pdep\<close> deposits the low
  bits of its first argument at the set positions of the second.
\<close>

type_synonym memory = "nat \<Rightarrow> u8"

definition load_qword :: "memory \<Rightarrow> nat \<Rightarrow> u64" where
  "load_qword mem a = le_word (map mem [a..<a + 8])"

definition bzhi :: "u64 \<Rightarrow> nat \<Rightarrow> u64" where
  "bzhi w n = w AND mask n"

primrec pdep_from :: "nat \<Rightarrow> nat \<Rightarrow> nat \<Rightarrow> u64 \<Rightarrow> u64 \<Rightarrow> u64" where
  "pdep_from 0 i k src m = 0"
| "pdep_from (Suc n) i k src m =
     (if bit m i then (if bit src k then push_bit i 1 else 0) OR pdep_from n (Suc i) (Suc k) src m
      else pdep_from n (Suc i) k src m)"

definition pdep :: "u64 \<Rightarrow> u64 \<Rightarrow> u64" where
  "pdep src m = pdep_from 64 0 0 src m"

definition read_qword_zfill :: "memory \<Rightarrow> nat \<Rightarrow> nat \<Rightarrow> u64" where
  "read_qword_zfill mem ptr sz =
     (if sz \<ge> 8 then load_qword mem ptr
      else if ptr mod 4096 > 8 then drop_bit (64 - 8 * sz) (load_qword mem (ptr - 8 + sz))
      else bzhi (load_qword mem ptr) (8 * sz))"

definition symbol_block :: "memory \<Rightarrow> nat \<Rightarrow> nat \<Rightarrow> u8 list" where
  "symbol_block mem key_ptr bytes_left =
     (let ones = 0x0101010101010101 :: u64;
          key_qword = bswap64 (read_qword_zfill mem key_ptr bytes_left);
          key_qword = drop_bit (64 - 8 * BITS_PER_SYMBOL) key_qword
      in le_bytes 8 (bswap64 (pdep key_qword (ones * (2 ^ BITS_PER_SYMBOL - 1)) + ones)))"

function key_to_symbols :: "memory \<Rightarrow> nat \<Rightarrow> int \<Rightarrow> u8 list" where
  "key_to_symbols mem key_ptr bytes_left =
     (if bytes_left > 0
      then symbol_block mem key_ptr (nat bytes_left)
           @ key_to_symbols mem (key_ptr + BITS_PER_SYMBOL) (bytes_left - int BITS_PER_SYMBOL)
      else [])"
  by pat_completeness auto
termination
  by (relation "measure (\<lambda>(mem, key_ptr, bytes_left). nat bytes_left)") auto

declare key_to_symbols.simps [simp del]

subsection \<open>Symbols by key bits\<close>

definition key_bit :: "nat \<Rightarrow> u8 list \<Rightarrow> nat \<Rightarrow> bool" where
  "key_bit sz bytes p \<longleftrightarrow> p < 8 * sz \<and> get_bit bytes p"

text \<open>The five key bits from \<open>5 * i\<close> on, the first one most significant.\<close>

definition key_chunk :: "nat \<Rightarrow> u8 list \<Rightarrow> nat \<Rightarrow> nat" where
  "key_chunk sz bytes i = (\<Sum>t<5. of_bool (key_bit sz bytes (5 * i + (4 - t))) * 2 ^ t)"

lemma sum_bits_eq:
  assumes "x < 2 ^ n"
  shows "(\<Sum>t<n. of_bool (bit x t) * 2 ^ t) = (x :: nat)"
proof -
  have "(\<Sum>t<n. of_bool (bit x t) * 2 ^ t) = take_bit n x"
    by (simp add: take_bit_sum atLeast0LessThan push_bit_eq_mult)
  then show ?thesis using assms by (simp add: take_bit_nat_eq_self)
qed

lemma chunk_word:
  assumes "\<And>t. bit w t \<longleftrightarrow> t < 5 \<and> key_bit sz bytes (5 * i + (4 - t))"
  shows "unat (w :: 'a::len word) = key_chunk sz bytes i"
proof -
  have "w = take_bit 5 w" by (rule bit_word_eqI) (auto simp: bit_take_bit_iff assms)
  then have "unat w = take_bit 5 (unat w)" by (metis unsigned_take_bit_eq)
  then have "unat w < 2 ^ 5" by (metis take_bit_nat_less_exp)
  then have "unat w = (\<Sum>t<5. of_bool (bit (unat w) t) * 2 ^ t)" by (simp only: sum_bits_eq)
  also have "\<dots> = key_chunk sz bytes i"
    unfolding key_chunk_def
    by (intro sum.cong refl) (use assms in \<open>auto simp: bit_unsigned_iff dest: bit_imp_le_length\<close>)
  finally show ?thesis .
qed

lemma unat_less_mask: "(w :: 'a::len word) AND mask n = w \<Longrightarrow> unat w < 2 ^ n"
  using unat_and_mask [of w n] mod_less_divisor [of "2 ^ n" "unat w"] by simp

lemma two_byte_bits:
  "bit (ucast (a :: u8) * 256 + ucast (b :: u8) :: u32) n \<longleftrightarrow> (if n < 8 then bit b n else bit a (n - 8))"
proof -
  have "(ucast a * 256 :: u32) = push_bit 8 (ucast a)" by (simp add: push_bit_eq_mult)
  moreover have "push_bit 8 (ucast a) + ucast b = (push_bit 8 (ucast a) OR ucast b :: u32)"
    by (intro disjunctive_add_eq_or bit_word_eqI) (auto simp: bit_simps dest: bit_imp_le_length)
  ultimately show ?thesis
    by (auto simp: bit_simps dest: bit_imp_le_length)
qed

lemma byte_less: "r < 8 \<Longrightarrow> 8 * a + r < 8 * n \<longleftrightarrow> a < (n :: nat)"
  by presburger

lemma div_mod_same: "q = 8 * a + b \<Longrightarrow> b < 8 \<Longrightarrow> q div 8 = a \<and> q mod 8 = (b :: nat)"
  by simp

lemma get_string_symbol_end: "8 * sz \<le> 5 * i \<Longrightarrow> get_string_symbol sz bytes i = SYMBOL_END"
  by (simp add: get_string_symbol_def Let_def less_eq_div_iff_mult_less_eq)

lemma unat_get_string_symbol:
  assumes "5 * i < 8 * sz"
  shows "unat (get_string_symbol sz bytes i) = key_chunk sz bytes i + 1"
proof -
  define f o1 where "f = i * 5 div 8" and "o1 = i * 5 mod 8"
  have pos: "5 * i = 8 * f + o1" and o1: "o1 < 8" unfolding f_def o1_def by simp_all
  have f: "f < sz" using assms pos by linarith
  define w :: u32 where "w = ucast (byte_at bytes f) * 256 + ucast (if f + 1 < sz then byte_at bytes (f + 1) else 0)"
  define c where "c = drop_bit (11 - o1) w AND 31"
  have m5: "(31 :: u32) = mask 5" by code_simp
  have bit_c: "bit c t \<longleftrightarrow> t < 5 \<and> key_bit sz bytes (5 * i + (4 - t))" for t
  proof (cases "t < 5")
    case True
    define r where "r = o1 + (4 - t)"
    have n: "11 - o1 + t = 15 - r" and r: "r < 12" using True o1 by (simp_all add: r_def)
    have p: "5 * i + (4 - t) = 8 * f + r" using pos by (simp add: r_def)
    have "bit c t \<longleftrightarrow> bit w (15 - r)" using True n by (simp add: c_def m5 bit_simps bit_mask_iff)
    also have "\<dots> \<longleftrightarrow> key_bit sz bytes (8 * f + r)"
    proof (cases "r < 8")
      case True
      then have "8 * f + r < 8 * sz" using f by simp
      moreover have "\<not> 15 - r < 8" "15 - r - 8 = 7 - r" using True by simp_all
      ultimately show ?thesis using div_mod_same [OF refl True, of f]
        by (simp add: w_def two_byte_bits key_bit_def get_bit_iff)
    next
      case False
      define s where "s = r - 8"
      have rs: "r = 8 + s" "s < 4" "8 * f + r = 8 * (f + 1) + s" using False r by (simp_all add: s_def)
      have "(8 * (f + 1) + s) div 8 = f + 1" "(8 * (f + 1) + s) mod 8 = s"
        using rs(2) div_mod_same [OF refl, of s "f + 1"] by simp_all
      moreover have "8 * (f + 1) + s < 8 * sz \<longleftrightarrow> f + 1 < sz" using rs(2) by presburger
      moreover have "15 - r = 7 - s" "7 - s < 8" using rs(1) by simp_all
      ultimately show ?thesis unfolding rs(3) w_def two_byte_bits key_bit_def get_bit_iff
        by (simp only: if_True if_False split: if_split) simp
    qed
    finally show ?thesis using True p by simp
  qed (simp add: c_def m5 bit_simps bit_mask_iff)
  have c: "unat c = key_chunk sz bytes i" by (rule chunk_word) (rule bit_c)
  have "c AND mask 5 = c" unfolding c_def m5 by (simp add: and.assoc)
  then have "unat c < 2 ^ 5" by (rule unat_less_mask)
  then have "unat (ucast (c + 1) :: u64) = unat c + 1"
    by (simp add: unsigned_ucast_eq take_bit_eq_mod unat_word_ariths)
  moreover have "get_string_symbol sz bytes i = ucast (c + 1)"
    using f by (simp add: get_string_symbol_def Let_def f_def [symmetric] o1_def [symmetric] c_def w_def)
  ultimately show ?thesis using c by simp
qed

lemma key_chunk_less: "key_chunk sz bytes i < 32"
proof -
  have "key_chunk sz bytes i \<le> (\<Sum>t<5. 2 ^ t)"
    unfolding key_chunk_def by (intro sum_mono) auto
  also have "\<dots> = 31" by (simp add: numeral_eq_Suc)
  finally show ?thesis by simp
qed

lemma get_string_symbol_le: "get_string_symbol sz bytes i \<le> 32"
proof (cases "5 * i < 8 * sz")
  case True
  then show ?thesis
    using unat_get_string_symbol [OF True, of bytes] key_chunk_less [of sz bytes i] by (simp add: word_le_nat_alt)
qed (simp add: get_string_symbol_end)

lemma get_string_symbol_end_iff: "get_string_symbol sz bytes i = SYMBOL_END \<longleftrightarrow> 8 * sz \<le> 5 * i"
  using unat_get_string_symbol [of i sz bytes] get_string_symbol_end [of sz i bytes]
  by (cases "5 * i < 8 * sz") auto

subsection \<open>All symbols at once\<close>

lemma bit_load_qword: "bit (load_qword mem a) n \<longleftrightarrow> n < 64 \<and> bit (mem (a + n div 8)) (n mod 8)"
  by (auto simp: load_qword_def bit_rules byte_at_def less_mult_imp_div_less)

lemma bit_read_qword_zfill:
  assumes "0 < sz"
  shows "bit (read_qword_zfill mem ptr sz) n \<longleftrightarrow> n < 64 \<and> n < 8 * sz \<and> bit (mem (ptr + n div 8)) (n mod 8)"
proof -
  consider "sz \<ge> 8" | "sz < 8" "ptr mod 4096 > 8" | "sz < 8" "\<not> ptr mod 4096 > 8" by linarith
  then show ?thesis
  proof cases
    case 1
    then show ?thesis by (auto simp: read_qword_zfill_def bit_load_qword)
  next
    case 2
    have "8 < ptr" using 2(2) mod_less_eq_dividend [of ptr 4096] by linarith
    define d where "d = 8 - sz"
    define base where "base = ptr - 8 + sz"
    have sh: "64 - 8 * sz = 8 * d" and d: "base + (d + k) = ptr + k" and ds: "d < 8" "8 = d + sz" for k
      using 2(1) assms \<open>8 < ptr\<close> by (simp_all add: d_def base_def)
    have dm: "(8 * d + n) div 8 = d + n div 8" "(8 * d + n) mod 8 = n mod 8" for n by simp_all
    show ?thesis
      using 2 ds by (auto simp: read_qword_zfill_def sh bit_drop_bit_eq bit_load_qword dm d base_def [symmetric])
  next
    case 3
    then show ?thesis
      by (auto simp: read_qword_zfill_def bzhi_def bit_simps bit_mask_iff bit_load_qword)
  qed
qed

lemma bit_pdep_from:
  "i + n \<le> 64 \<Longrightarrow> bit (pdep_from n i k src m) j \<longleftrightarrow>
    i \<le> j \<and> j < i + n \<and> bit m j \<and> bit src (k + length (filter (bit m) [i..<j]))"
proof (induction n arbitrary: i k)
  case 0
  then show ?case by simp
next
  case (Suc n)
  have up: "[i..<j] = i # [Suc i..<j]" if "i < j" using that by (rule upt_conv_Cons)
  show ?case
    using Suc.prems Suc.IH [of "Suc i" k] Suc.IH [of "Suc i" "Suc k"]
    by (cases "i < j") (auto simp: up bit_simps)
qed

lemma count_low_positions:
  "length (filter (\<lambda>l. l mod 8 < 5) [0..<j]) = 5 * (j div 8) + min 5 (j mod (8 :: nat))"
proof (induction j)
  case (Suc j)
  have "5 * (Suc j div 8) + min 5 (Suc j mod 8) = 5 * (j div 8) + min 5 (j mod 8) + (if j mod 8 < 5 then 1 else 0)"
    by (cases "j mod 8 = 7") (auto simp: div_Suc mod_Suc)
  then show ?case using Suc by simp
qed simp

definition low_symbol_mask :: u64 where
  "low_symbol_mask = 0x0101010101010101 * (2 ^ BITS_PER_SYMBOL - 1)"

lemma bit_low_symbol_mask: "bit low_symbol_mask j \<longleftrightarrow> j < 64 \<and> j mod 8 < 5"
proof -
  have mask: "low_symbol_mask = le_word (replicate 8 (mask 5))"
    by code_simp
  have byte: "byte_at (replicate 8 (mask 5)) (j div 8) = mask 5" if "j < 64"
    using that by (simp only: byte_at_def length_replicate nth_replicate less_mult_imp_div_less) auto
  have "bit low_symbol_mask j \<longleftrightarrow> j < 64 \<and> bit (byte_at (replicate 8 (mask 5)) (j div 8)) (j mod 8)"
    unfolding mask bit_le_word by simp
  also have "\<dots> \<longleftrightarrow> j < 64 \<and> j mod 8 < 5"
    by (cases "j < 64") (simp_all only: byte bit_mask_iff, auto)
  finally show ?thesis .
qed

lemma bit_pdep_symbols:
  assumes "q < 8" and "r < 8"
  shows "bit (pdep src low_symbol_mask) (8 * q + r) \<longleftrightarrow> r < 5 \<and> bit src (5 * q + r)"
proof -
  let ?j = "8 * q + r"
  have j: "?j < 64" and dm: "?j div 8 = q" "?j mod 8 = r" using assms by auto
  have "filter (bit low_symbol_mask) [0..<?j] = filter (\<lambda>l. l mod 8 < 5) [0..<?j]"
    using j by (intro filter_cong refl) (simp add: bit_low_symbol_mask)
  then show ?thesis
    using j dm unfolding pdep_def
    by (cases "r < 5") (simp_all add: bit_pdep_from bit_low_symbol_mask count_low_positions)
qed

lemma le_word_Cons_add: "(le_word (b # bs) :: 'a::len word) = ucast b + push_bit 8 (le_word bs)"
proof -
  have "ucast b AND push_bit 8 (le_word bs) = (0 :: 'a word)"
    by (intro bit_word_eqI) (auto simp: bit_simps dest: bit_imp_le_length)
  then show ?thesis by (simp add: disjunctive_add_eq_or)
qed

text \<open>Adding one to every byte in one addition: no byte overflows, so none carries.\<close>

lemma le_word_add_ones:
  assumes "\<forall>b\<in>set bs. b < 255" and "16 \<le> LENGTH('a::len)"
  shows "le_word bs + le_word (replicate (length bs) 1) = (le_word (map (\<lambda>b. b + 1) bs) :: 'a word)"
  using assms(1)
proof (induction bs)
  case Nil
  then show ?case by simp
next
  case (Cons b bs)
  have u: "unat (b + 1) = unat b + 1"
    using Cons.prems unat_add_small [of b 1] by (simp add: word_less_nat_alt)
  have "ucast (b + 1) = (ucast b + 1 :: 'a word)"
    using unsigned_less [of b] assms(2) u
    by (simp add: word_unat_eq_iff unsigned_ucast_eq take_bit_eq_mod unat_word_ariths mod_Suc_eq)
  moreover have "push_bit 8 (le_word bs) + push_bit 8 (le_word (replicate (length bs) 1)) =
      (push_bit 8 (le_word (map (\<lambda>b. b + 1) bs)) :: 'a word)"
    using Cons by (simp flip: push_bit_add)
  ultimately show ?case
    by (simp only: le_word_Cons_add list.map length_Cons replicate_Suc) (simp add: algebra_simps)
qed

lemma symbol_block_props:
  assumes "0 < sz"
  shows "length (symbol_block mem ptr sz) = 8"
    and "j < 8 \<Longrightarrow> \<exists>c. symbol_block mem ptr sz ! j = c + 1 \<and>
      (\<forall>t. bit c t \<longleftrightarrow> t < 5 \<and> 5 * j + (4 - t) < 8 * sz \<and>
        bit (mem (ptr + (5 * j + (4 - t)) div 8)) (7 - (5 * j + (4 - t)) mod 8))"
proof -
  let ?read = "read_qword_zfill mem ptr sz"
  define src where "src = drop_bit (64 - 8 * BITS_PER_SYMBOL) (bswap64 ?read)"
  define bs where "bs = le_bytes 8 (pdep src low_symbol_mask)"
  have ones: "(0x0101010101010101 :: u64) = le_word (replicate 8 1)" by code_simp
  have bit_bs: "bit (bs ! q) t \<longleftrightarrow> t < 5 \<and> bit src (5 * q + t)" if "q < 8" for q t
    using that bit_pdep_symbols [of q t src]
    by (cases "t < 8") (auto simp: bs_def bit_rules)
  have len: "length bs = 8" by (simp add: bs_def)
  have small: "b < 255" if b: "b \<in> set bs" for b
  proof -
    obtain q where q: "q < 8" "b = bs ! q" using b unfolding in_set_conv_nth len by blast
    have "b AND mask 5 = b"
      by (rule bit_word_eqI) (simp only: q(2) bit_and_iff bit_mask_iff bit_bs [OF q(1)], auto)
    then have "unat b < 2 ^ 5" by (rule unat_less_mask)
    then show ?thesis by (simp add: word_less_nat_alt)
  qed
  have "pdep src low_symbol_mask = le_word bs" unfolding bs_def by (rule le_word_le_bytes [symmetric]) simp
  then have sum: "pdep src low_symbol_mask + 0x0101010101010101 = le_word (map (\<lambda>b. b + 1) bs)"
    using le_word_add_ones [of bs, where 'a = 64] small len by (simp only: ones) auto
  have "le_bytes 8 (bswap64 (le_word (map (\<lambda>b. b + 1) bs))) = rev (map (\<lambda>b. b + 1) bs)"
    using le_bytes_le_word [of "map (\<lambda>b. b + 1) bs", where 'a = 64] 
      le_bytes_le_word [of "rev (map (\<lambda>b. b + 1) bs)", where 'a = 64] len
    by (simp add: bswap64_def)
  then have block: "symbol_block mem ptr sz = rev (map (\<lambda>b. b + 1) bs)"
    unfolding symbol_block_def Let_def low_symbol_mask_def [symmetric]
    by (simp only: src_def [symmetric] sum)
  then show "length (symbol_block mem ptr sz) = 8" by (simp add: len)
  assume j: "j < 8"
  have "symbol_block mem ptr sz ! j = bs ! (7 - j) + 1"
    using j by (simp add: block len rev_nth)
  moreover have "bit (bs ! (7 - j)) t \<longleftrightarrow> t < 5 \<and> 5 * j + (4 - t) < 8 * sz \<and>
      bit (mem (ptr + (5 * j + (4 - t)) div 8)) (7 - (5 * j + (4 - t)) mod 8)" for t
  proof (cases "t < 5")
    case True
    define p where "p = 5 * j + (4 - t)"
    have p: "5 * (7 - j) + t = 39 - p" "p < 40" using j True by (simp_all add: p_def)
    define a b where "a = p div 8" and "b = p mod 8"
    have ab: "p = 8 * a + b" "b < 8" "a < 5" using p(2) by (simp_all add: a_def b_def less_mult_imp_div_less)
    then have "24 + (39 - p) = 8 * (7 - a) + (7 - b)" by simp
    then have "(24 + (39 - p)) div 8 = 7 - a" "(24 + (39 - p)) mod 8 = 7 - b"
      using byte_div_mod [of "7 - b" "7 - a"] by simp_all
    then have k: "7 - (24 + (39 - p)) div 8 = p div 8" "(24 + (39 - p)) mod 8 = 7 - p mod 8"
      using ab(3) by (simp_all add: a_def b_def)
    have "bit src (39 - p) \<longleftrightarrow> bit (bswap64 ?read) (24 + (39 - p))"
      by (simp add: src_def bit_drop_bit_eq)
    also have "\<dots> \<longleftrightarrow> bit ?read (8 * (p div 8) + (7 - p mod 8))"
    proof -
      have "24 + (39 - p) < 64" by linarith
      then show ?thesis unfolding bit_bswap64 k by blast
    qed
    finally have "bit src (39 - p) \<longleftrightarrow> bit ?read (8 * (p div 8) + (7 - p mod 8))" .
    also have "\<dots> \<longleftrightarrow> p < 8 * sz \<and> bit (mem (ptr + p div 8)) (7 - p mod 8)"
    proof -
      have "8 * (p div 8) + (7 - p mod 8) < 64" "8 * (p div 8) + (7 - p mod 8) < 8 * sz \<longleftrightarrow> p < 8 * sz"
        using ab byte_less [of b a sz] byte_less [of "7 - b" a sz] unfolding a_def [symmetric] b_def [symmetric]
        by linarith+
      moreover have "7 - p mod 8 < 8" by simp
      ultimately show ?thesis
        unfolding bit_read_qword_zfill [OF assms] by (simp only: byte_div_mod) auto
    qed
    finally show ?thesis using True j bit_bs [of "7 - j" t] by (simp add: p(1) p_def [symmetric])
  qed (use j bit_bs [of "7 - j" t] in simp)
  ultimately show "\<exists>c. symbol_block mem ptr sz ! j = c + 1 \<and>
      (\<forall>t. bit c t \<longleftrightarrow> t < 5 \<and> 5 * j + (4 - t) < 8 * sz \<and>
        bit (mem (ptr + (5 * j + (4 - t)) div 8)) (7 - (5 * j + (4 - t)) mod 8))"
    by blast
qed

text \<open>The bytes of the key that starts at an address.\<close>

definition bytes_at :: "memory \<Rightarrow> nat \<Rightarrow> nat \<Rightarrow> u8 list" where
  "bytes_at mem ptr n = map mem [ptr..<ptr + n]"

lemma length_bytes_at [simp]: "length (bytes_at mem ptr n) = n"
  by (simp add: bytes_at_def)

lemma key_bit_bytes_at:
  "key_bit n (bytes_at mem ptr n) p \<longleftrightarrow> p < 8 * n \<and> bit (mem (ptr + p div 8)) (7 - p mod 8)"
  by (auto simp: key_bit_def get_bit_iff byte_at_def bytes_at_def less_mult_imp_div_less)

lemma key_bit_shift:
  "5 < n \<Longrightarrow> key_bit n (bytes_at mem ptr n) (p + 40) = key_bit (n - 5) (bytes_at mem (ptr + 5) (n - 5)) p"
proof -
  have "(p + 40) div 8 = 5 + p div 8" "(p + 40) mod 8 = p mod 8" by presburger+
  then show "5 < n \<Longrightarrow> key_bit n (bytes_at mem ptr n) (p + 40) = key_bit (n - 5) (bytes_at mem (ptr + 5) (n - 5)) p"
    unfolding key_bit_bytes_at by (auto simp: ac_simps)
qed

lemma key_to_symbols_props:
  "length (key_to_symbols mem ptr (int n)) = 8 * ((n + 4) div 5) \<and>
   (\<forall>i. 5 * i < 8 * n \<longrightarrow> key_to_symbols mem ptr (int n) ! i = of_nat (key_chunk n (bytes_at mem ptr n) i + 1))"
proof (induction n arbitrary: ptr rule: less_induct)
  case (less n)
  show ?case
  proof (cases "n = 0")
    case True
    then show ?thesis by (simp add: key_to_symbols.simps)
  next
    case False
    then have n: "0 < n" by simp
    define rest where "rest = key_to_symbols mem (ptr + 5) (int n - 5)"
    have step: "key_to_symbols mem ptr (int n) = symbol_block mem ptr n @ rest"
      using n by (subst key_to_symbols.simps) (simp add: rest_def)
    have block: "length (symbol_block mem ptr n) = 8" by (rule symbol_block_props(1) [OF n])
    have first: "symbol_block mem ptr n ! i = of_nat (key_chunk n (bytes_at mem ptr n) i + 1)" if i: "i < 8" for i
    proof -
      obtain c where c: "symbol_block mem ptr n ! i = c + 1"
        "\<forall>t. bit c t \<longleftrightarrow> t < 5 \<and> key_bit n (bytes_at mem ptr n) (5 * i + (4 - t))"
        using symbol_block_props(2) [OF n i, of mem ptr] unfolding key_bit_bytes_at by blast
      then have "unat c = key_chunk n (bytes_at mem ptr n) i" by (intro chunk_word) blast
      then have "c = of_nat (key_chunk n (bytes_at mem ptr n) i)" by (metis of_nat_unat ucast_id)
      with c(1) show ?thesis by simp
    qed
    show ?thesis
    proof (cases "n \<le> 5")
      case True
      then have "rest = []" unfolding rest_def by (subst key_to_symbols.simps) simp
      then have only: "key_to_symbols mem ptr (int n) = symbol_block mem ptr n" by (simp add: step)
      have "(n + 4) div 5 = 1" using True n by presburger
      then have "length (key_to_symbols mem ptr (int n)) = 8 * ((n + 4) div 5)" by (simp only: only block)
      moreover have "key_to_symbols mem ptr (int n) ! i = of_nat (key_chunk n (bytes_at mem ptr n) i + 1)" if i: "5 * i < 8 * n" for i
      proof -
        have "i < 8" using i True by linarith
        then show ?thesis unfolding only by (rule first)
      qed
      ultimately show ?thesis by blast
    next
      case False
      then have m: "n - 5 < n" "int n - 5 = int (n - 5)" by simp_all
      note IH = less.IH [OF m(1), of "ptr + 5"]
      have rest_len: "length rest = 8 * ((n - 5 + 4) div 5)"
        and rest_nth: "\<And>k. 5 * k < 8 * (n - 5) \<Longrightarrow>
          rest ! k = of_nat (key_chunk (n - 5) (bytes_at mem (ptr + 5) (n - 5)) k + 1)"
        using IH unfolding rest_def m(2) by blast+
      have "n + 4 = (n - 5 + 4) + 5" using False by simp
      then have "(n + 4) div 5 = Suc ((n - 5 + 4) div 5)" by (metis div_add_self2 add.commute plus_1_eq_Suc zero_neq_numeral)
      then have "8 + 8 * ((n - 5 + 4) div 5) = 8 * ((n + 4) div 5)" by simp
      then have len: "length (key_to_symbols mem ptr (int n)) = 8 * ((n + 4) div 5)"
        unfolding step length_append block rest_len .
      have chunk: "key_chunk n (bytes_at mem ptr n) (i + 8) = key_chunk (n - 5) (bytes_at mem (ptr + 5) (n - 5)) i" for i
      proof -
        have "5 * (i + 8) + (4 - t) = 5 * i + (4 - t) + 40" for t by simp
        then show ?thesis unfolding key_chunk_def using False by (simp only: key_bit_shift)
      qed
      have "key_to_symbols mem ptr (int n) ! i = of_nat (key_chunk n (bytes_at mem ptr n) i + 1)" if i: "5 * i < 8 * n" for i
      proof (cases "i < 8")
        case True
        then show ?thesis unfolding step nth_append block using first by simp
      next
        case False
        define k where "k = i - 8"
        have k: "i = k + 8" "5 * k < 8 * (n - 5)" using False i by (simp_all add: k_def)
        show ?thesis unfolding step nth_append block k(1) chunk using rest_nth [OF k(2)] by simp
      qed
      with len show ?thesis by blast
    qed
  qed
qed

end
