(* ===== verification/KeyOrder.thy ===== *)
theory KeyOrder
  imports Keys
begin

text \<open>
  The two orders on keys agree: \<open>kv_key_compare\<close> (\<open>key_object.h\<close>) compares the bytes of
  two keys, the trie compares their symbols. Both are the lexicographic order, in which a
  proper prefix is smaller.
\<close>

subsection \<open>The byte order\<close>

abbreviation lex_less :: "'a::linorder list \<Rightarrow> 'a list \<Rightarrow> bool" where
  "lex_less \<equiv> ord_class.lexordp"

lemma memcmp_sign:
  assumes "n \<le> length a" and "n \<le> length b"
  shows "memcmp a b n = 0 \<longleftrightarrow> take n a = take n b"
    and "memcmp a b n < 0 \<longleftrightarrow> lex_less (take n a) (take n b)"
    and "memcmp a b n > 0 \<longleftrightarrow> lex_less (take n b) (take n a)"
  using assms
proof (induction n arbitrary: a b)
  case 0
  { case 1 then show ?case by simp }
  { case 2 then show ?case by simp }
  { case 3 then show ?case by simp }
next
  case (Suc n)
  have split: "\<exists>x xs. ys = x # xs" if "Suc n \<le> length ys" for ys :: "u8 list"
    using that by (cases ys) auto
  { case 1
    then obtain x xs y ys where "a = x # xs" "b = y # ys" using split by meson
    with 1 Suc.IH(1) [of xs ys] show ?case by auto }
  { case 2
    then obtain x xs y ys where "a = x # xs" "b = y # ys" using split by meson
    with 2 Suc.IH(2) [of xs ys] show ?case by auto }
  { case 3
    then obtain x xs y ys where "a = x # xs" "b = y # ys" using split by meson
    with 3 Suc.IH(3) [of xs ys] show ?case by auto }
qed

lemma lexordp_by_prefix:
  fixes xs ys :: "u8 list"
  assumes "n = min (length xs) (length ys)" and "take n xs \<noteq> take n ys"
  shows "lex_less xs ys \<longleftrightarrow> lex_less (take n xs) (take n ys)"
  using assms
proof (induction xs arbitrary: ys n)
  case (Cons x xs)
  then show ?case by (cases ys) (auto simp: min_Suc_Suc)
qed simp

lemma lexordp_prefix_length:
  fixes xs ys :: "u8 list"
  assumes "n = min (length xs) (length ys)" and "take n xs = take n ys"
  shows "lex_less xs ys \<longleftrightarrow> length xs < length ys"
  using assms
proof (induction xs arbitrary: ys n)
  case (Cons x xs)
  then show ?case by (cases ys) (auto simp: min_Suc_Suc)
qed auto

lemma sint_size_difference:
  assumes "unat a < 2 ^ 31" and "unat b < 2 ^ 31"
  shows "sint (ucast (a - b :: u64) :: u32) = int (unat a) - int (unat b)"
proof -
  define i where "i = int (unat a) - int (unat b)"
  have i: "- (2 ^ 31) \<le> i" "i < 2 ^ 31" unfolding i_def using assms of_nat_less_iff [of "unat a" "2 ^ 31", where 'a = int]
      of_nat_less_iff [of "unat b" "2 ^ 31", where 'a = int] zero_less_power [of "2 :: int" 31]
    by (simp_all only: of_nat_power of_nat_numeral simp_thms)
  have "a - b = word_of_int i" by (simp add: i_def)
  moreover have "ucast (word_of_int i :: u64) = (word_of_int i :: u32)"
    by (rule bit_word_eqI) (simp add: bit_simps)
  moreover have "sint (word_of_int i :: u32) = i"
    using i by (simp add: signed_of_int signed_take_bit_int_eq_self)
  ultimately show ?thesis unfolding i_def [symmetric] by simp
qed

lemma unat_kv_key_size: "wf_kv kv \<Longrightarrow> unat (kv_key_size kv) = unat (key_size kv)"
proof -
  assume "wf_kv kv"
  then have "unat (key_size kv) div 2 ^ 31 = 0" by (simp add: wf_kv_def)
  then have "\<not> bit (unat (key_size kv)) 31" unfolding bit_iff_odd by simp
  then have "\<not> bit (key_size kv) 31" by (simp add: bit_unsigned_iff)
  then have "(scast (key_size kv) :: u64) = ucast (key_size kv)"
  proof (intro bit_word_eqI)
    fix n
    assume "\<not> bit (key_size kv) 31" and "n < LENGTH(64)"
    then show "bit (scast (key_size kv) :: u64) n = bit (ucast (key_size kv) :: u64) n"
      using bit_imp_le_length [of "key_size kv" n] by (cases "n = 31") (auto simp: bit_simps min_def)
  qed
  moreover have "unat (key_size kv) < 2 ^ 64" using \<open>wf_kv kv\<close> by (simp add: wf_kv_def)
  ultimately show ?thesis by (simp add: kv_key_size_def unsigned_ucast_eq take_bit_eq_mod)
qed

theorem kv_key_compare_to_order:
  assumes wf: "wf_kv kv" and sz: "unat sz = length bytes" "length bytes < 2 ^ 31"
  shows "kv_key_compare_to kv sz bytes < 0 \<longleftrightarrow> lex_less (kv_key kv) bytes"
    and "kv_key_compare_to kv sz bytes = 0 \<longleftrightarrow> kv_key kv = bytes"
    and "kv_key_compare_to kv sz bytes > 0 \<longleftrightarrow> lex_less bytes (kv_key kv)"
proof -
  define k where "k = kv_key kv"
  define n where "n = min (length k) (length bytes)"
  have len: "length k = unat (key_size kv)" and wfs: "unat (key_size kv) < 2 ^ 31"
    using wf by (simp_all add: k_def kv_key_def wf_kv_def)
  have ks: "unat (kv_key_size kv) = length k" using unat_kv_key_size [OF wf] len by simp
  have m: "unat (if kv_key_size kv < sz then kv_key_size kv else sz) = n"
    using ks sz by (simp add: n_def word_less_nat_alt)
  have tk: "take n (kv_bytes kv) = take n k" using len by (simp add: k_def kv_key_def n_def min_def)
  have nl: "n \<le> length (kv_bytes kv)" "n \<le> length bytes"
    using wf len unfolding n_def wf_kv_def by linarith+
  note cmp = memcmp_sign [OF nl, unfolded tk]
  have d: "sint (ucast (kv_key_size kv - sz) :: u32) = int (length k) - int (length bytes)"
    using wfs len sz ks sint_size_difference [of "kv_key_size kv" sz] by simp
  have res: "kv_key_compare_to kv sz bytes =
      (if memcmp (kv_bytes kv) bytes n \<noteq> 0 then memcmp (kv_bytes kv) bytes n
       else int (length k) - int (length bytes))"
    unfolding kv_key_compare_to_def Let_def m d ..
  have n': "n = min (length bytes) (length k)" by (simp add: n_def)
  have "(kv_key_compare_to kv sz bytes < 0 \<longleftrightarrow> lex_less k bytes) \<and>
      (kv_key_compare_to kv sz bytes = 0 \<longleftrightarrow> k = bytes) \<and>
      (kv_key_compare_to kv sz bytes > 0 \<longleftrightarrow> lex_less bytes k)"
  proof (cases "take n k = take n bytes")
    case True
    have "k = bytes \<longleftrightarrow> length k = length bytes" using True by (auto simp: n_def)
    then show ?thesis
      using True cmp(1) lexordp_prefix_length [OF n_def True] lexordp_prefix_length [OF n' True [symmetric]] res
      by simp
  next
    case False
    then have "k \<noteq> bytes" by auto
    then show ?thesis
      using False cmp lexordp_by_prefix [OF n_def False] lexordp_by_prefix [OF n'] res by auto
  qed
  then show "kv_key_compare_to kv sz bytes < 0 \<longleftrightarrow> lex_less (kv_key kv) bytes"
    and "kv_key_compare_to kv sz bytes = 0 \<longleftrightarrow> kv_key kv = bytes"
    and "kv_key_compare_to kv sz bytes > 0 \<longleftrightarrow> lex_less bytes (kv_key kv)" by (simp_all add: k_def)
qed

subsection \<open>The symbol order\<close>

definition key_symbols :: "u8 list \<Rightarrow> u64 list" where
  "key_symbols key = map (get_string_symbol (length key) key) [0..<num_key_symbols (length key)]"

text \<open>The bits of a key, without its length.\<close>

definition kbit :: "u8 list \<Rightarrow> nat \<Rightarrow> bool" where
  "kbit key p = key_bit (length key) key p"

lemma num_key_symbols_last: "5 * i < 8 * n \<longleftrightarrow> i < num_key_symbols n - 1"
  unfolding num_key_symbols_def by linarith

lemma length_key_symbols [simp]: "length (key_symbols key) = num_key_symbols (length key)"
  by (simp add: key_symbols_def)

lemma key_symbols_nth: "i < num_key_symbols (length key) \<Longrightarrow> key_symbols key ! i = get_string_symbol (length key) key i"
  by (simp add: key_symbols_def)

lemma lexordp_nthI:
  fixes xs ys :: "'a::linorder list"
  assumes "i < length xs" and "i < length ys" and "\<And>j. j < i \<Longrightarrow> xs ! j = ys ! j" and "xs ! i < ys ! i"
  shows "lex_less xs ys"
proof -
  have "take i xs = take i ys" using assms by (intro nth_equalityI) auto
  then have "xs = take i ys @ xs ! i # drop (Suc i) xs" "ys = take i ys @ ys ! i # drop (Suc i) ys"
    using assms(1,2) by (metis id_take_nth_drop)+
  then show ?thesis using assms(4) by (metis lexordp_append_left_rightI)
qed

lemma key_chunk_expand:
  "key_chunk (length key) key i =
    16 * of_bool (kbit key (5 * i)) + 8 * of_bool (kbit key (5 * i + 1)) + 4 * of_bool (kbit key (5 * i + 2))
      + 2 * of_bool (kbit key (5 * i + 3)) + of_bool (kbit key (5 * i + 4))"
proof -
  have "{..<5} = {0, 1, 2, 3, 4 :: nat}" by auto
  then show ?thesis unfolding key_chunk_def kbit_def by simp
qed

lemma key_chunk_mono:
  assumes "\<And>p. kbit k1 p \<Longrightarrow> kbit k2 p"
  shows "key_chunk (length k1) k1 i \<le> key_chunk (length k2) k2 i"
  unfolding key_chunk_def kbit_def [symmetric]
  by (intro sum_mono mult_right_mono) (use assms in \<open>auto simp: of_bool_def\<close>)

lemma key_chunk_first_difference:
  assumes "\<not> kbit k1 p" and "kbit k2 p" and eq: "\<And>q. q < p \<Longrightarrow> kbit k1 q = kbit k2 q"
  shows "key_chunk (length k1) k1 (p div 5) < key_chunk (length k2) k2 (p div 5)"
    and "\<And>i. i < p div 5 \<Longrightarrow> key_chunk (length k1) k1 i = key_chunk (length k2) k2 i"
proof -
  define i r where "i = p div 5" and "r = p mod 5"
  have p: "p = 5 * i + r" and r: "r < 5" by (simp_all add: i_def r_def)
  consider "r = 0" | "r = 1" | "r = 2" | "r = 3" | "r = 4" using r by linarith
  then show "key_chunk (length k1) k1 (p div 5) < key_chunk (length k2) k2 (p div 5)"
    unfolding i_def [symmetric]
    by cases (use assms(1,2) eq [of "5 * i"] eq [of "5 * i + 1"] eq [of "5 * i + 2"] eq [of "5 * i + 3"] p
      in \<open>auto simp: key_chunk_expand of_bool_def\<close>)
  fix j
  assume "j < p div 5"
  then have "5 * j + 4 < p" by linarith
  then show "key_chunk (length k1) k1 j = key_chunk (length k2) k2 j"
    by (simp add: key_chunk_expand eq)
qed

lemma byte_first_difference:
  assumes "a < (b :: u8)"
  obtains t where "t < 8" "\<not> bit a t" "bit b t" "\<And>s. t < s \<Longrightarrow> bit a s = bit b s"
proof -
  define D where "D = {t. bit a t \<noteq> bit b t}"
  have sub: "D \<subseteq> {..<8}" unfolding D_def by (auto dest: bit_imp_le_length)
  then have fin: "finite D" by (rule finite_subset) simp
  have "D \<noteq> {}"
  proof
    assume "D = {}"
    then have "a = b" unfolding D_def by (intro bit_word_eqI) auto
    with assms show False by simp
  qed
  define t where "t = Max D"
  have t: "t \<in> D" unfolding t_def using fin \<open>D \<noteq> {}\<close> by (rule Max_in)
  have above: "bit a s = bit b s" if "t < s" for s
    using that fin Max_ge [of D s] unfolding t_def [symmetric] by (auto simp: D_def)
  have "drop_bit (Suc t) (unat a) = drop_bit (Suc t) (unat b)"
    using above by (intro bit_eqI) (auto simp: bit_simps)
  then have eq: "unat a div 2 ^ Suc t = unat b div 2 ^ Suc t" by (simp only: drop_bit_eq_div)
  have half: "x div 2 ^ t = 2 * (x div 2 ^ Suc t) + of_bool (bit x t)" for x :: nat
  proof -
    have "x div 2 ^ Suc t = x div 2 ^ t div 2" by (simp only: power_Suc2 div_mult2_eq)
    moreover have "bit x t \<longleftrightarrow> odd (x div 2 ^ t)" by (rule bit_iff_odd)
    moreover have "y = 2 * (y div 2) + of_bool (odd y)" for y :: nat
      by (cases "odd y") (auto elim!: evenE oddE)
    ultimately show ?thesis by (simp only:)
  qed
  have "bit b t"
  proof (rule ccontr)
    assume "\<not> bit b t"
    with t have "bit a t" by (auto simp: D_def)
    with \<open>\<not> bit b t\<close> have "unat b div 2 ^ t < unat a div 2 ^ t"
      using half [of "unat a"] half [of "unat b"] eq by (simp add: bit_unsigned_iff bit_imp_le_length)
    then have "unat b < unat a" using div_le_mono [of "unat a" "unat b" "2 ^ t"] by linarith
    with assms show False by (simp add: word_less_nat_alt)
  qed
  with t above sub show thesis by (intro that [of t]) (auto simp: D_def)
qed

lemma kbit_nth: "kbit key p \<longleftrightarrow> p div 8 < length key \<and> bit (key ! (p div 8)) (7 - p mod 8)"
  by (auto simp: kbit_def key_bit_def get_bit_iff byte_at_def less_mult_imp_div_less)

lemma kbit_append: "kbit (us @ x # vs) p =
  (if p div 8 < length us then kbit us p else if p div 8 = length us then bit x (7 - p mod 8)
   else kbit (us @ x # vs) p)"
  by (simp add: kbit_nth nth_append)

lemma key_symbols_chunk:
  "i < num_key_symbols (length key) - 1 \<Longrightarrow> unat (key_symbols key ! i) = key_chunk (length key) key i + 1"
  by (simp add: key_symbols_nth unat_get_string_symbol num_key_symbols_last)

lemma key_symbols_last: "key_symbols key ! (num_key_symbols (length key) - 1) = SYMBOL_END"
proof -
  have "\<not> 5 * (num_key_symbols (length key) - 1) < 8 * length key" unfolding num_key_symbols_last by simp
  moreover have "0 < num_key_symbols (length key)" by (simp add: num_key_symbols_def)
  ultimately show ?thesis by (simp add: key_symbols_nth get_string_symbol_end)
qed

lemma num_key_symbols_mono: "m < n \<Longrightarrow> num_key_symbols m < num_key_symbols n"
  unfolding num_key_symbols_def by linarith

lemma key_symbols_less_prefix:
  "lex_less (key_symbols key) (key_symbols (key @ x # xs))"
proof -
  let ?k2 = "key @ x # xs"
  define n where "n = num_key_symbols (length key) - 1"
  have n: "n < length (key_symbols key)" "n < num_key_symbols (length ?k2) - 1"
    using num_key_symbols_mono [of "length key" "length ?k2"] by (simp_all add: n_def num_key_symbols_def)
  have mono: "key_chunk (length key) key i \<le> key_chunk (length ?k2) ?k2 i" for i
    by (rule key_chunk_mono) (simp add: kbit_nth nth_append)
  have le: "unat (key_symbols key ! i) \<le> unat (key_symbols ?k2 ! i)" if "i < n" for i
    using that n mono [of i] by (simp add: key_symbols_chunk n_def [symmetric] del: length_append)
  have lt: "unat (key_symbols key ! n) < unat (key_symbols ?k2 ! n)"
    using n(2) key_symbols_last [of key] unfolding n_def [symmetric] by (simp add: key_symbols_chunk del: length_append)
  define i where "i = (LEAST i. key_symbols key ! i \<noteq> key_symbols ?k2 ! i)"
  have ne: "key_symbols key ! n \<noteq> key_symbols ?k2 ! n" using lt by auto
  then have i: "key_symbols key ! i \<noteq> key_symbols ?k2 ! i" "i \<le> n"
    unfolding i_def by (rule LeastI, intro Least_le)
  have "unat (key_symbols key ! i) < unat (key_symbols ?k2 ! i)"
    using i le [of i] lt by (cases "i = n") (auto simp: word_unat_eq_iff)
  moreover have "key_symbols key ! j = key_symbols ?k2 ! j" if "j < i" for j
    using not_less_Least [OF that [unfolded i_def]] by simp
  ultimately show ?thesis
    using i(2) n by (intro lexordp_nthI [of i]) (auto simp: word_less_nat_alt)
qed

lemma key_symbols_less_differ:
  assumes "a < (b :: u8)"
  shows "lex_less (key_symbols (us @ a # vs)) (key_symbols (us @ b # ws))"
proof -
  let ?k1 = "us @ a # vs" and ?k2 = "us @ b # ws"
  obtain t where t: "t < 8" "\<not> bit a t" "bit b t" "\<And>s. t < s \<Longrightarrow> bit a s = bit b s"
    using byte_first_difference [OF assms] by blast
  define p where "p = 8 * length us + (7 - t)"
  have p: "p div 8 = length us" "p mod 8 = 7 - t" unfolding p_def using byte_div_mod [of "7 - t"] by simp_all
  have "7 - (7 - t) = t" using t(1) by simp
  then have k: "\<not> kbit ?k1 p" "kbit ?k2 p" using t by (simp_all add: kbit_append p)
  have eq: "kbit ?k1 q = kbit ?k2 q" if q: "q < p" for q
  proof (cases "q div 8 < length us")
    case True
    then show ?thesis by (simp add: kbit_append)
  next
    case False
    moreover have "q div 8 \<le> length us" using q p(1) div_le_mono [of q p 8] by simp
    ultimately have d: "q div 8 = length us" by simp
    then have "q mod 8 < 7 - t" using q p by (metis div_mult_mod_eq nat_add_left_cancel_less)
    then show ?thesis using t(4) [of "7 - q mod 8"] d by (simp add: kbit_append)
  qed
  note diff1 = key_chunk_first_difference(1) [OF k eq] and diff2 = key_chunk_first_difference(2) [OF k eq]
  have lt: "p div 5 < num_key_symbols (length k) - 1" if "length us < length k" for k :: "u8 list"
  proof -
    have "p < 8 * length k" using that p_def by linarith
    then have "5 * (p div 5) < 8 * length k" by (metis le_less_trans mult.commute div_times_less_eq_dividend)
    then show ?thesis by (simp only: num_key_symbols_last)
  qed
  have l1: "p div 5 < num_key_symbols (length ?k1) - 1" and l2: "p div 5 < num_key_symbols (length ?k2) - 1"
    by (rule lt, simp)+
  show ?thesis
  proof (rule lexordp_nthI [of "p div 5"])
    show "key_symbols ?k1 ! j = key_symbols ?k2 ! j" if "j < p div 5" for j
      using that l1 l2 diff2 [of j]
      by (simp add: word_unat_eq_iff key_symbols_chunk del: length_append)
    show "key_symbols ?k1 ! (p div 5) < key_symbols ?k2 ! (p div 5)"
      using l1 l2 diff1 by (simp add: word_less_nat_alt key_symbols_chunk del: length_append)
  qed (use l1 l2 in simp_all)
qed

lemma key_symbols_less:
  assumes "lex_less k1 k2"
  shows "lex_less (key_symbols k1) (key_symbols k2)"
  using assms unfolding lexordp_iff [of k1 k2]
  by (auto intro: key_symbols_less_prefix key_symbols_less_differ)

lemma key_symbols_less_iff: "lex_less (key_symbols k1) (key_symbols k2) \<longleftrightarrow> lex_less k1 k2"
  using lexordp_linear [of k1 k2] key_symbols_less [of k1 k2] key_symbols_less [of k2 k1]
  by (metis lexordp_antisym lexordp_irreflexive')

lemma key_symbols_inject: "key_symbols k1 = key_symbols k2 \<longleftrightarrow> k1 = k2"
  using lexordp_linear [of k1 k2] key_symbols_less [of k1 k2] key_symbols_less [of k2 k1]
  by (metis lexordp_irreflexive')

end
