(* ===== verification/Lookup.thy ===== *)
theory Lookup
  imports Hashing
begin

text \<open>
  Searching a bucket and a bucket pair: the scalar routines of \<open>main.c\<close> and the SIMD
  routines of \<open>main_vectorized.c\<close>.

  A search reads the bucket counter, then the cells, then the counter again. The
  \<open>..._obs\<close> functions take what each of these reads returned, so that they also describe
  a search that runs while another thread writes; the search of a bucket at rest makes
  all its reads from the same bucket. A search of a pair repeats until it finds the entry,
  so it is a partial function whose value \<open>None\<close> is a search that never returns.
\<close>

abbreviation (input) SEQ_INCREMENT :: u32 where "SEQ_INCREMENT \<equiv> 256"

subsection \<open>Header masks\<close>

definition header_mask_by_color :: u64 where
  "header_mask_by_color =
     push_bit 8 (mask TAG_BITS) OR push_bit 8 (push_bit TAG_BITS 0xFF AND 0xFF) OR ucast FLAG_SECONDARY_BUCKET"

definition header_values_by_color :: "bool \<Rightarrow> u64 \<Rightarrow> u64 \<Rightarrow> u64" where
  "header_values_by_color is_secondary tag color =
     push_bit 8 tag OR push_bit (8 + TAG_BITS) color OR (if is_secondary then ucast FLAG_SECONDARY_BUCKET else 0)"

definition header_mask_by_parent :: u64 where
  "header_mask_by_parent =
     push_bit 8 (mask TAG_BITS) OR push_bit 16 0xFF OR (push_bit PARENT_COLOR_SHIFT 0xFF AND 0xFF)
       OR ucast FLAG_SECONDARY_BUCKET"

definition header_values_by_parent :: "bool \<Rightarrow> u64 \<Rightarrow> u64 \<Rightarrow> u64 \<Rightarrow> u64" where
  "header_values_by_parent is_secondary tag last_symbol parent_color =
     push_bit 8 tag OR push_bit 16 last_symbol OR push_bit PARENT_COLOR_SHIFT parent_color
       OR (if is_secondary then ucast FLAG_SECONDARY_BUCKET else 0)"

subsection \<open>Scalar search of a bucket\<close>

primrec first_match :: "(u64 \<Rightarrow> bool) \<Rightarrow> nat \<Rightarrow> ct_entry list \<Rightarrow> (nat \<times> ct_entry) option" where
  "first_match P i [] = None"
| "first_match P i (e # es) = (if P (entry_header e) then Some (i, e) else first_match P (Suc i) es)"

definition search_obs :: "(u64 \<Rightarrow> bool) \<Rightarrow> u32 \<Rightarrow> ct_entry list \<Rightarrow> u32 \<Rightarrow> (nat \<times> ct_entry \<times> u32) option" where
  "search_obs P start_counter values end_counter =
     (if start_counter AND SEQ_INCREMENT \<noteq> 0 then None
      else case first_match P 0 values of
             None \<Rightarrow> None
           | Some (i, e) \<Rightarrow> if end_counter \<noteq> start_counter then None else Some (i, e, start_counter))"

definition find_entry_in_bucket_by_color ::
    "ct_bucket \<Rightarrow> bool \<Rightarrow> u64 \<Rightarrow> u64 \<Rightarrow> (nat \<times> ct_entry \<times> u32) option" where
  "find_entry_in_bucket_by_color bucket is_secondary tag color =
     search_obs (\<lambda>header. header AND header_mask_by_color = header_values_by_color is_secondary tag color)
       (write_lock_and_seq bucket) (cells bucket) (write_lock_and_seq bucket)"

definition find_entry_in_bucket_by_parent ::
    "ct_bucket \<Rightarrow> bool \<Rightarrow> u64 \<Rightarrow> u64 \<Rightarrow> u64 \<Rightarrow> (nat \<times> ct_entry \<times> u32) option" where
  "find_entry_in_bucket_by_parent bucket is_secondary tag last_symbol parent_color =
     search_obs (\<lambda>header. header AND header_mask_by_parent
         = header_values_by_parent is_secondary tag last_symbol parent_color)
       (write_lock_and_seq bucket) (cells bucket) (write_lock_and_seq bucket)"

subsection \<open>Vector registers\<close>

text \<open>
  A vector register is the list of its 64-bit lanes, lane 0 first. Each operation is the
  lane-wise meaning of the intrinsic of the same name.
\<close>

type_synonym lanes = "u64 list"

definition set1_epi64 :: "nat \<Rightarrow> u64 \<Rightarrow> lanes" where
  "set1_epi64 n x = replicate n x"

definition and_lanes :: "lanes \<Rightarrow> lanes \<Rightarrow> lanes" where
  "and_lanes a b = map2 (AND) a b"

definition or_lanes :: "lanes \<Rightarrow> lanes \<Rightarrow> lanes" where
  "or_lanes a b = map2 (OR) a b"

definition xor_lanes :: "lanes \<Rightarrow> lanes \<Rightarrow> lanes" where
  "xor_lanes a b = map2 (XOR) a b"

definition cmpeq_epi64 :: "lanes \<Rightarrow> lanes \<Rightarrow> lanes" where
  "cmpeq_epi64 a b = map2 (\<lambda>x y. if x = y then - 1 else 0) a b"

definition srli_epi64 :: "lanes \<Rightarrow> nat \<Rightarrow> lanes" where
  "srli_epi64 a n = map (drop_bit n) a"

text \<open>A shift by 64 or more gives zero, as for \<open>vpsllvq\<close>.\<close>

definition sllv_epi64 :: "lanes \<Rightarrow> lanes \<Rightarrow> lanes" where
  "sllv_epi64 a b = map2 (\<lambda>x n. if n < 64 then push_bit (unat n) x else 0) a b"

definition movemask_epi8 :: "lanes \<Rightarrow> u32" where
  "movemask_epi8 a =
     foldr (\<lambda>i acc. (if bit (a ! (i div 8)) (8 * (i mod 8) + 7) then push_bit i 1 else 0) OR acc)
       [0..<8 * length a] 0"

subsection \<open>SIMD search of a bucket\<close>

definition tag_mask64 :: u64 where
  "tag_mask64 = push_bit 8 (mask TAG_BITS)"

definition tag_value64 :: "u64 \<Rightarrow> u64" where
  "tag_value64 tag = push_bit 8 (tag AND mask TAG_BITS)"

text \<open>The lanes of a pair of headers that pass the type, tag and full header checks.\<close>

definition match_lanes :: "u64 \<Rightarrow> u64 \<Rightarrow> u64 \<Rightarrow> lanes \<Rightarrow> lanes" where
  "match_lanes header_mask header_values tag headers =
     (let type_check = and_lanes headers (set1_epi64 2 (ucast TYPE_MASK));
          type_zero = cmpeq_epi64 type_check (set1_epi64 2 0);
          type_nonzero = xor_lanes type_zero (set1_epi64 2 (- 1));
          tag_check = cmpeq_epi64 (and_lanes headers (set1_epi64 2 tag_mask64)) (set1_epi64 2 (tag_value64 tag));
          prefilter_pass = and_lanes type_nonzero tag_check;
          full_check = cmpeq_epi64 (and_lanes headers (set1_epi64 2 header_mask)) (set1_epi64 2 header_values)
      in and_lanes prefilter_pass full_check)"

text \<open>
  The headers are read first; the entry is read again once its header has matched, so an
  observation has the four headers and the four values separately.
\<close>

definition find_by_color_vectorized_obs ::
    "u32 \<Rightarrow> u64 list \<Rightarrow> ct_entry list \<Rightarrow> u32 \<Rightarrow> bool \<Rightarrow> u64 \<Rightarrow> u64 \<Rightarrow> (nat \<times> ct_entry \<times> u32) option" where
  "find_by_color_vectorized_obs start_counter headers values end_counter is_secondary tag color =
     (if start_counter AND SEQ_INCREMENT \<noteq> 0 then None
      else let header_values = header_values_by_color is_secondary tag color;
               m01 = movemask_epi8 (match_lanes header_mask_by_color header_values tag [headers ! 0, headers ! 1])
           in if m01 \<noteq> 0
              then (let i = ctz m01 div 8
                    in if end_counter \<noteq> start_counter then None else Some (i, values ! i, start_counter))
              else let m23 = movemask_epi8
                           (match_lanes header_mask_by_color header_values tag [headers ! 2, headers ! 3])
                   in if m23 = 0 then None
                      else (let i = 2 + ctz m23 div 8
                            in if end_counter \<noteq> start_counter then None else Some (i, values ! i, start_counter)))"

definition find_entry_in_bucket_by_color_vectorized ::
    "ct_bucket \<Rightarrow> bool \<Rightarrow> u64 \<Rightarrow> u64 \<Rightarrow> (nat \<times> ct_entry \<times> u32) option" where
  "find_entry_in_bucket_by_color_vectorized bucket is_secondary tag color =
     find_by_color_vectorized_obs (write_lock_and_seq bucket) (map entry_header (cells bucket)) (cells bucket)
       (write_lock_and_seq bucket) is_secondary tag color"

definition prefilter_match :: "u64 \<Rightarrow> u64 \<Rightarrow> u64 \<Rightarrow> u64 \<Rightarrow> bool" where
  "prefilter_match header_mask header_values tag h \<longleftrightarrow>
     (ucast h :: u8) AND TYPE_MASK \<noteq> 0 \<and> h AND tag_mask64 = tag_value64 tag \<and> h AND header_mask = header_values"

text \<open>The cells are tried one after the other; a match ends the search, found stale or not.\<close>

definition find_by_parent_vectorized_obs ::
    "u32 \<Rightarrow> u64 list \<Rightarrow> ct_entry list \<Rightarrow> u32 \<Rightarrow> bool \<Rightarrow> u64 \<Rightarrow> u64 \<Rightarrow> u64 \<Rightarrow> (nat \<times> ct_entry \<times> u32) option" where
  "find_by_parent_vectorized_obs start_counter headers values end_counter is_secondary tag last_symbol parent_color =
     (if start_counter AND SEQ_INCREMENT \<noteq> 0 then None
      else let header_values = header_values_by_parent is_secondary tag last_symbol parent_color;
               found = (\<lambda>i. if end_counter \<noteq> start_counter then None else Some (i, values ! i, start_counter));
               matches = prefilter_match header_mask_by_parent header_values tag
           in if matches (headers ! 0) then found 0
              else if matches (headers ! 1) then found 1
              else if matches (headers ! 2) then found 2
              else if matches (headers ! 3) then found 3
              else None)"

definition find_entry_in_bucket_by_parent_vectorized ::
    "ct_bucket \<Rightarrow> bool \<Rightarrow> u64 \<Rightarrow> u64 \<Rightarrow> u64 \<Rightarrow> (nat \<times> ct_entry \<times> u32) option" where
  "find_entry_in_bucket_by_parent_vectorized bucket is_secondary tag last_symbol parent_color =
     find_by_parent_vectorized_obs (write_lock_and_seq bucket) (map entry_header (cells bucket)) (cells bucket)
       (write_lock_and_seq bucket) is_secondary tag last_symbol parent_color"

definition count_occupied_cells :: "ct_bucket \<Rightarrow> u64 \<Rightarrow> u64 \<Rightarrow> nat" where
  "count_occupied_cells bucket tag_mask tag_value =
     length (filter (\<lambda>e. (ucast (entry_header e) :: u8) AND TYPE_MASK \<noteq> 0
       \<and> entry_header e AND tag_mask = tag_value) (cells bucket))"

subsection \<open>Search of a bucket pair\<close>

definition bucket_of :: "cuckoo_trie \<Rightarrow> u64 \<Rightarrow> ct_bucket" where
  "bucket_of trie b = buckets trie ! unat b"

definition found_in :: "u64 \<Rightarrow> u64 \<Rightarrow> nat \<times> ct_entry \<times> u32 \<Rightarrow> ct_entry_local_copy" where
  "found_in bucket primary_bucket r =
     \<lparr>lc_value = fst (snd r), last_pos = (unat bucket, fst r), lc_primary_bucket = primary_bucket,
      last_seq = snd (snd r)\<rparr>"

partial_function (option) find_entry_in_pair_by_color ::
    "cuckoo_trie \<Rightarrow> u64 \<Rightarrow> u64 \<Rightarrow> u64 \<Rightarrow> ct_entry_local_copy option" where
  "find_entry_in_pair_by_color trie primary_bucket tag color =
     (case find_entry_in_bucket_by_color (bucket_of trie primary_bucket) False tag color of
        Some r \<Rightarrow> Some (found_in primary_bucket primary_bucket r)
      | None \<Rightarrow>
          (let secondary_bucket = mix_bucket trie primary_bucket tag
           in case find_entry_in_bucket_by_color (bucket_of trie secondary_bucket) True tag color of
                Some r \<Rightarrow> Some (found_in secondary_bucket primary_bucket r)
              | None \<Rightarrow> find_entry_in_pair_by_color trie primary_bucket tag color))"

partial_function (option) find_entry_in_pair_by_parent ::
    "cuckoo_trie \<Rightarrow> u64 \<Rightarrow> u64 \<Rightarrow> u64 \<Rightarrow> u64 \<Rightarrow> ct_entry_local_copy option" where
  "find_entry_in_pair_by_parent trie primary_bucket tag last_symbol parent_color =
     (case find_entry_in_bucket_by_parent (bucket_of trie primary_bucket) False tag last_symbol parent_color of
        Some r \<Rightarrow> Some (found_in primary_bucket primary_bucket r)
      | None \<Rightarrow>
          (let secondary_bucket = mix_bucket trie primary_bucket tag
           in case find_entry_in_bucket_by_parent (bucket_of trie secondary_bucket) True tag last_symbol parent_color of
                Some r \<Rightarrow> Some (found_in secondary_bucket primary_bucket r)
              | None \<Rightarrow> find_entry_in_pair_by_parent trie primary_bucket tag last_symbol parent_color))"

partial_function (option) find_entry_in_pair_by_color_vectorized ::
    "cuckoo_trie \<Rightarrow> u64 \<Rightarrow> u64 \<Rightarrow> u64 \<Rightarrow> ct_entry_local_copy option" where
  "find_entry_in_pair_by_color_vectorized trie primary_bucket tag color =
     (case find_entry_in_bucket_by_color_vectorized (bucket_of trie primary_bucket) False tag color of
        Some r \<Rightarrow> Some (found_in primary_bucket primary_bucket r)
      | None \<Rightarrow>
          (let secondary_bucket = mix_bucket trie primary_bucket tag
           in case find_entry_in_bucket_by_color_vectorized (bucket_of trie secondary_bucket) True tag color of
                Some r \<Rightarrow> Some (found_in secondary_bucket primary_bucket r)
              | None \<Rightarrow> find_entry_in_pair_by_color_vectorized trie primary_bucket tag color))"

partial_function (option) find_entry_in_pair_by_parent_vectorized ::
    "cuckoo_trie \<Rightarrow> u64 \<Rightarrow> u64 \<Rightarrow> u64 \<Rightarrow> u64 \<Rightarrow> ct_entry_local_copy option" where
  "find_entry_in_pair_by_parent_vectorized trie primary_bucket tag last_symbol parent_color =
     (case find_entry_in_bucket_by_parent_vectorized (bucket_of trie primary_bucket) False tag last_symbol parent_color of
        Some r \<Rightarrow> Some (found_in primary_bucket primary_bucket r)
      | None \<Rightarrow>
          (let secondary_bucket = mix_bucket trie primary_bucket tag
           in case find_entry_in_bucket_by_parent_vectorized (bucket_of trie secondary_bucket) True tag last_symbol parent_color of
                Some r \<Rightarrow> Some (found_in secondary_bucket primary_bucket r)
              | None \<Rightarrow> find_entry_in_pair_by_parent_vectorized trie primary_bucket tag last_symbol parent_color))"

primrec free_cell_from :: "nat \<Rightarrow> ct_entry list \<Rightarrow> nat option" where
  "free_cell_from i [] = None"
| "free_cell_from i (e # es) = (if entry_type e = TYPE_UNUSED then Some i else free_cell_from (Suc i) es)"

definition find_free_cell_in_bucket :: "ct_bucket \<Rightarrow> nat option" where
  "find_free_cell_in_bucket bucket = free_cell_from 0 (cells bucket)"

text \<open>
  \<open>read_entry\<close> repeats while the counter shows a write in progress or has changed. Here
  the bucket does not change between the reads, so only the first case repeats.
\<close>

partial_function (option) read_entry :: "cuckoo_trie \<Rightarrow> entry_ptr \<Rightarrow> (ct_entry \<times> u32) option" where
  "read_entry trie pos =
     (let seq1 = bucket_word trie (fst pos)
      in if seq1 AND SEQ_INCREMENT \<noteq> 0 then read_entry trie pos
         else let result = cell trie pos;
                  seq2 = bucket_word trie (fst pos)
              in if seq2 \<noteq> seq1 then read_entry trie pos else Some (result, seq1))"

definition find_root :: "cuckoo_trie \<Rightarrow> ct_entry_local_copy option" where
  "find_root trie = do {
     let root_primary_bucket = hash_to_bucket HASH_START_VALUE;
     let root_pos = (unat root_primary_bucket, 0);
     (value, seq) \<leftarrow> read_entry trie root_pos;
     Some \<lparr>lc_value = value, last_pos = root_pos, lc_primary_bucket = root_primary_bucket, last_seq = seq\<rparr>
   }"

definition read_min_leaf :: "cuckoo_trie \<Rightarrow> ct_entry_local_copy option" where
  "read_min_leaf trie = do {
     let leaf_addr = trie_min_leaf trie;
     (value, seq) \<leftarrow> read_entry trie leaf_addr;
     Some \<lparr>lc_value = value, last_pos = leaf_addr, lc_primary_bucket = - 1, last_seq = seq\<rparr>
   }"

definition locator_to_entry :: "cuckoo_trie \<Rightarrow> ct_entry_locator \<Rightarrow> ct_entry_local_copy option" where
  "locator_to_entry trie l =
     find_entry_in_pair_by_color trie (ucast (loc_primary_bucket l)) (ucast (loc_tag l)) (ucast (loc_color l))"

text \<open>Two entries are compared by their first and last eight bytes, which overlap in one byte.\<close>

definition entries_equal :: "ct_entry \<Rightarrow> ct_entry \<Rightarrow> bool" where
  "entries_equal a b \<longleftrightarrow>
     load_le64 (entry_bytes a) 0 = load_le64 (entry_bytes b) 0 \<and>
     load_le64 (entry_bytes a) (15 - 8) = load_le64 (entry_bytes b) (15 - 8)"

text \<open>The bucket sequence number is the counter without its lock byte.\<close>

definition seq_of_word :: "u32 \<Rightarrow> u32" where
  "seq_of_word w = w AND NOT 0xFF"

definition validate_entry :: "cuckoo_trie \<Rightarrow> ct_entry_local_copy \<Rightarrow> bool" where
  "validate_entry trie local_copy \<longleftrightarrow>
     seq_of_word (bucket_word trie (fst (last_pos local_copy))) = seq_of_word (last_seq local_copy)"

definition get_jump_symbol :: "ct_entry \<Rightarrow> nat \<Rightarrow> u64" where
  "get_jump_symbol e symbol_idx =
     (let qword = bswap64 (load_le64 (entry_bytes e) 3)
      in (drop_bit (64 - BITS_PER_SYMBOL - BITS_PER_SYMBOL * symbol_idx) qword AND SYMBOL_MASK) + 1)"

subsection \<open>Matching a header\<close>

definition wf_bucket :: "ct_bucket \<Rightarrow> bool" where
  "wf_bucket b \<longleftrightarrow> length (cells b) = CUCKOO_BUCKET_SIZE \<and> (\<forall>e\<in>set (cells b). wf_entry e)"

text \<open>An unused cell carries a color that no search asks for.\<close>

definition unused_cells_marked :: "ct_bucket \<Rightarrow> bool" where
  "unused_cells_marked b \<longleftrightarrow>
     (\<forall>e\<in>set (cells b). entry_type e = TYPE_UNUSED \<longrightarrow>
        entry_color e = INVALID_COLOR \<and> entry_parent_color e = INVALID_COLOR)"

lemma header_mask_bytes:
  "header_mask_by_color = le_word [0x04, 0xFF, 0, 0, 0, 0, 0, 0]"
  "header_mask_by_parent = le_word [0xF4, 0x0F, 0xFF, 0, 0, 0, 0, 0]"
  "tag_mask64 = le_word [0, 0x0F, 0, 0, 0, 0, 0, 0]"
  by code_simp+

lemma and_FF: "x AND 0xFF = (x :: u8)"
proof -
  have "(0xFF :: u8) = mask 8" by code_simp
  then show ?thesis by (intro bit_word_eqI) (simp only: bit_and_iff bit_mask_iff, auto)
qed

lemma ucast_shift_nibble:
  assumes "nibble c"
  shows "ucast (push_bit 4 c) = (push_bit 4 (ucast c) :: u64)"
proof -
  have "j < 4" if "bit c j" for j using assms that unfolding nibble_bits by (meson not_le)
  then have "n < 8" if "bit c (n - 4)" for n using that by fastforce
  then have "\<not> bit c (n - 4)" if "8 \<le> n" for n using that by (meson not_le)
  then show ?thesis
    by (intro bit_word_eqI) (auto simp: bit_simps not_less dest: bit_imp_le_length, metis not_le)
qed

lemma le_word_3: "le_word [a, b, c, 0, 0, 0, 0, 0] = (ucast a OR push_bit 8 (ucast b) OR push_bit 16 (ucast c) :: u64)"
  by (simp add: push_bit_or or.assoc)

lemma header_value_bytes:
  assumes "nibble c"
  shows "header_values_by_color sec (ucast t) (ucast c) =
      le_word [if sec then 4 else 0, t OR push_bit 4 c, 0, 0, 0, 0, 0, 0]"
    and "header_values_by_parent sec (ucast t) (ucast ls) (ucast c) =
      le_word [(if sec then 4 else 0) OR push_bit 4 c, t, ls, 0, 0, 0, 0, 0]"
proof -
  have side: "(if sec then ucast (FLAG_SECONDARY_BUCKET :: u8) else 0) = (ucast (if sec then 4 else 0 :: u8) :: u64)"
    by simp
  have b: "(ucast (0 :: u8) :: u64) = 0" "push_bit 16 (0 :: u64) = 0" "x OR 0 = x" for x :: u64 by simp_all
  have sh: "push_bit 8 (push_bit 4 x) = push_bit (8 + 4) x" for x :: u64 by (simp only: push_bit_push_bit)
  show "header_values_by_color sec (ucast t) (ucast c) =
      le_word [if sec then 4 else 0, t OR push_bit 4 c, 0, 0, 0, 0, 0, 0]"
    unfolding header_values_by_color_def le_word_3 side unsigned_or_eq ucast_shift_nibble [OF assms] push_bit_or sh b
    by (simp only: or.commute or.left_commute or.assoc)
  show "header_values_by_parent sec (ucast t) (ucast ls) (ucast c) =
      le_word [(if sec then 4 else 0) OR push_bit 4 c, t, ls, 0, 0, 0, 0, 0]"
    unfolding header_values_by_parent_def le_word_3 side unsigned_or_eq ucast_shift_nibble [OF assms]
    by (simp only: or.commute or.left_commute or.assoc)
qed

lemma tag_value_bytes: "nibble t \<Longrightarrow> tag_value64 (ucast t) = le_word [0, t, 0, 0, 0, 0, 0, 0]"
proof -
  assume "nibble t"
  then have "(ucast t AND mask 4 :: u64) = ucast t"
    by (intro bit_word_eqI) (auto simp: nibble_bits bit_simps bit_mask_iff not_le)
  then show ?thesis by (simp add: tag_value64_def)
qed

lemma byte_and_F4: "(p :: u8) AND 0xF4 = s OR push_bit 4 c \<longleftrightarrow> p AND 4 = s \<and> drop_bit 4 p = c"
  if "nibble s" "nibble c"
proof -
  have "(p AND 0xF4) AND mask 4 = p AND 4"
  proof -
    have "(0xF4 :: u8) AND mask 4 = 4" by code_simp
    then show ?thesis by (simp only: and.assoc)
  qed
  moreover have "drop_bit 4 (p AND 0xF4) = drop_bit 4 p"
  proof -
    have "drop_bit 4 (0xF4 :: u8) = mask 4" by code_simp
    moreover have "drop_bit 4 p AND mask 4 = drop_bit 4 p"
      using nibble_drop [of p] unfolding nibble_bits by (intro bit_word_eqI) (auto simp: bit_simps bit_mask_iff not_le)
    ultimately show ?thesis by (simp only: drop_bit_and)
  qed
  ultimately show ?thesis using byte_nibbles [OF that, of "p AND 0xF4"] by simp
qed

lemma nibble_side: "nibble (if sec then 4 else 0)"
  by (simp add: nibble_def)

lemma side_bit: "p AND 4 = (if sec then 4 else 0) \<longleftrightarrow> (p AND (4 :: u8) = 4) = sec"
proof -
  have "p AND 4 = 0 \<or> p AND 4 = (4 :: u8)"
  proof -
    have f: "(4 :: u8) = push_bit 2 1" by code_simp
    show ?thesis unfolding f using and_exp_iff [of 2 p] by auto
  qed
  then show ?thesis by auto
qed

lemma match_by_color:
  assumes "wf_entry e" and "nibble t" and "nibble c"
  shows "entry_header e AND header_mask_by_color = header_values_by_color sec (ucast t) (ucast c) \<longleftrightarrow>
    entry_is_secondary e = sec \<and> entry_tag e = t \<and> entry_color e = c"
proof -
  obtain b0 b1 b2 b3 b4 where b: "e_bytes e = [b0, b1, b2, b3, b4]"
    using assms(1) by (auto simp: wf_entry_list)
  have "entry_header e AND header_mask_by_color = header_values_by_color sec (ucast t) (ucast c) \<longleftrightarrow>
      parent_color_and_flags e AND 4 = (if sec then 4 else 0) \<and> color_and_tag e = t OR push_bit 4 c"
    unfolding header_mask_bytes header_value_bytes [OF assms(3)]
    by (subst header_and_match [OF assms(1)]) (simp_all add: b and_FF)
  then show ?thesis
    unfolding side_bit byte_nibbles [OF assms(2,3)] entry_is_secondary_def entry_tag_def entry_color_def .
qed

lemma match_by_parent:
  assumes "wf_entry e" and "nibble t" and "nibble c"
  shows "entry_header e AND header_mask_by_parent = header_values_by_parent sec (ucast t) (ucast ls) (ucast c) \<longleftrightarrow>
    entry_is_secondary e = sec \<and> entry_tag e = t \<and> e_last_symbol e = ls \<and> entry_parent_color e = c"
proof -
  obtain b0 b1 b2 b3 b4 where b: "e_bytes e = [b0, b1, b2, b3, b4]"
    using assms(1) by (auto simp: wf_entry_list)
  have m4: "(15 :: u8) = mask 4" by code_simp
  have "entry_header e AND header_mask_by_parent = header_values_by_parent sec (ucast t) (ucast ls) (ucast c) \<longleftrightarrow>
      parent_color_and_flags e AND 0xF4 = (if sec then 4 else 0) OR push_bit 4 c \<and>
      color_and_tag e AND 15 = t \<and> e_last_symbol e = ls"
    unfolding header_mask_bytes header_value_bytes [OF assms(3)]
    by (subst header_and_match [OF assms(1)]) (simp_all add: b and_FF)
  then show ?thesis
    unfolding byte_and_F4 [OF nibble_side assms(3)] side_bit m4
      entry_is_secondary_def entry_tag_def entry_parent_color_def by blast
qed

lemma match_tag:
  assumes "wf_entry e" and "nibble t"
  shows "entry_header e AND tag_mask64 = tag_value64 (ucast t) \<longleftrightarrow> entry_tag e = t"
proof -
  obtain b0 b1 b2 b3 b4 where b: "e_bytes e = [b0, b1, b2, b3, b4]"
    using assms(1) by (auto simp: wf_entry_list)
  have m4: "(15 :: u8) = mask 4" by code_simp
  have "entry_header e AND tag_mask64 = tag_value64 (ucast t) \<longleftrightarrow> color_and_tag e AND 15 = t"
    unfolding header_mask_bytes tag_value_bytes [OF assms(2)]
    by (subst header_and_match [OF assms(1)]) (simp_all add: b)
  then show ?thesis unfolding m4 entry_tag_def .
qed

lemma header_type:
  assumes "wf_entry e"
  shows "(ucast (entry_header e) :: u8) AND TYPE_MASK = entry_type e"
    and "entry_header e AND ucast (TYPE_MASK :: u8) = 0 \<longleftrightarrow> entry_type e = TYPE_UNUSED"
proof -
  have "(ucast (entry_header e) :: u8) = parent_color_and_flags e"
    unfolding entry_header_bytes [OF assms] by (rule bit_word_eqI) (auto simp: bit_simps bit_le_word dest: bit_imp_le_length)
  then show "(ucast (entry_header e) :: u8) AND TYPE_MASK = entry_type e" by (simp add: entry_type_def)
  obtain b0 b1 b2 b3 b4 where b: "e_bytes e = [b0, b1, b2, b3, b4]"
    using assms(1) by (auto simp: wf_entry_list)
  have m: "ucast (TYPE_MASK :: u8) = (le_word [3, 0, 0, 0, 0, 0, 0, 0] :: u64)" by code_simp
  have z: "le_word [0, 0, 0, 0, 0, 0, 0, 0] = (0 :: u64)" by code_simp
  have "entry_header e AND le_word [3, 0, 0, 0, 0, 0, 0, 0] = le_word [0, 0, 0, 0, 0, 0, 0, 0] \<longleftrightarrow>
      entry_type e = TYPE_UNUSED"
    by (subst header_and_match [OF assms]) (simp_all add: b entry_type_def)
  then show "entry_header e AND ucast (TYPE_MASK :: u8) = 0 \<longleftrightarrow> entry_type e = TYPE_UNUSED"
    unfolding m z .
qed

subsection \<open>The SIMD search is the scalar search\<close>

lemma first_match_Some:
  "first_match P i es = Some (j, e) \<Longrightarrow>
    \<exists>k<length es. j = i + k \<and> e = es ! k \<and> P (entry_header e) \<and> (\<forall>l<k. \<not> P (entry_header (es ! l)))"
proof (induction es arbitrary: i)
  case (Cons x es)
  show ?case
  proof (cases "P (entry_header x)")
    case True
    then show ?thesis using Cons.prems by (intro exI [of _ 0]) auto
  next
    case False
    then have "\<exists>k<length es. j = Suc i + k \<and> e = es ! k \<and> P (entry_header e) \<and> (\<forall>l<k. \<not> P (entry_header (es ! l)))"
      using Cons.IH [of "Suc i"] Cons.prems by simp
    then obtain k where "k < length es" "j = Suc i + k" "e = es ! k" "P (entry_header e)"
      "\<forall>l<k. \<not> P (entry_header (es ! l))"
      by blast
    with False show ?thesis by (intro exI [of _ "Suc k"]) (auto simp: nth_Cons split: nat.split)
  qed
qed simp

lemma first_match_None: "first_match P i es = None \<longleftrightarrow> (\<forall>e\<in>set es. \<not> P (entry_header e))"
  by (induction es arbitrary: i) auto

lemma first_match_cong:
  "(\<And>e. e \<in> set es \<Longrightarrow> P (entry_header e) = Q (entry_header e)) \<Longrightarrow> first_match P i es = first_match Q i es"
  by (induction es arbitrary: i) auto

lemma search_obs_cong:
  "(\<And>e. e \<in> set es \<Longrightarrow> P (entry_header e) = Q (entry_header e)) \<Longrightarrow> search_obs P s es t = search_obs Q s es t"
  using first_match_cong [of es P Q 0] by (simp add: search_obs_def)

definition simd_match :: "u64 \<Rightarrow> u64 \<Rightarrow> u64 \<Rightarrow> u64 \<Rightarrow> bool" where
  "simd_match header_mask header_values tag h \<longleftrightarrow>
     h AND ucast (TYPE_MASK :: u8) \<noteq> 0 \<and> h AND tag_mask64 = tag_value64 tag \<and> h AND header_mask = header_values"

lemma match_lanes_eq:
  "match_lanes hm hv tag [h0, h1] =
    [if simd_match hm hv tag h0 then - 1 else 0, if simd_match hm hv tag h1 then - 1 else 0]"
proof -
  have set1: "set1_epi64 2 x = [x, x]" for x by (simp add: set1_epi64_def numeral_2_eq_2)
  show ?thesis
    unfolding match_lanes_def simd_match_def and_lanes_def cmpeq_epi64_def xor_lanes_def set1 Let_def
    by (simp split: if_split)
qed

lemma movemask_cases:
  "movemask_epi8 [0, 0] = 0"
  "movemask_epi8 [- 1, 0] = 0xFF"
  "movemask_epi8 [0, - 1] = 0xFF00"
  "movemask_epi8 [- 1, - 1] = 0xFFFF"
  by code_simp+

lemma ctz_masks: "ctz (0xFF :: u32) = 0" "ctz (0xFF00 :: u32) = 8" "ctz (0xFFFF :: u32) = 0"
  by code_simp+

lemma movemask_match:
  "movemask_epi8 (match_lanes hm hv tag [h0, h1]) = 0 \<longleftrightarrow> \<not> simd_match hm hv tag h0 \<and> \<not> simd_match hm hv tag h1"
  "simd_match hm hv tag h0 \<Longrightarrow> ctz (movemask_epi8 (match_lanes hm hv tag [h0, h1])) div 8 = 0"
  "\<not> simd_match hm hv tag h0 \<Longrightarrow> simd_match hm hv tag h1 \<Longrightarrow>
    ctz (movemask_epi8 (match_lanes hm hv tag [h0, h1])) div 8 = 1"
  unfolding match_lanes_eq
  by (cases "simd_match hm hv tag h0"; cases "simd_match hm hv tag h1";
      simp only: if_True if_False movemask_cases ctz_masks; simp)+

lemma length_4_list: "length xs = 4 \<longleftrightarrow> (\<exists>a b c d. xs = [a, b, c, d])"
  by (auto simp: numeral_eq_Suc length_Suc_conv)

lemma first_match_4:
  "first_match P 0 [e0, e1, e2, e3] =
    (if P (entry_header e0) then Some (0, e0) else if P (entry_header e1) then Some (1, e1)
     else if P (entry_header e2) then Some (2, e2) else if P (entry_header e3) then Some (3, e3) else None)"
  by simp

lemma nth_4: "[a, b, c, d] ! 0 = a" "[a, b, c, d] ! 1 = b" "[a, b, c, d] ! 2 = c" "[a, b, c, d] ! 3 = d"
  by simp_all

lemma option_if:
  "(case (if c then Some (i, e) else r) of None \<Rightarrow> None | Some (j, x) \<Rightarrow> g j x) =
    (if c then g i e else (case r of None \<Rightarrow> None | Some (j, x) \<Rightarrow> g j x))"
  "(case None of None \<Rightarrow> None | Some (j, x) \<Rightarrow> g j x) = None"
  by simp_all

lemma find_by_color_vectorized_obs_eq:
  assumes "length vs = 4"
  shows "find_by_color_vectorized_obs s (map entry_header vs) vs t sec tag color =
    search_obs (simd_match header_mask_by_color (header_values_by_color sec tag color) tag) s vs t"
proof -
  obtain e0 e1 e2 e3 where vs: "vs = [e0, e1, e2, e3]" using assms unfolding length_4_list by blast
  define ok where "ok = simd_match header_mask_by_color (header_values_by_color sec tag color) tag"
  have two: "2 + 0 = (2 :: nat)" "2 + 1 = (3 :: nat)" by simp_all
  note mm = movemask_match [where hm = header_mask_by_color and hv = "header_values_by_color sec tag color"
      and tag = tag, folded ok_def]
  show ?thesis
    unfolding vs find_by_color_vectorized_obs_def search_obs_def Let_def first_match_4 list.map nth_4 option_if
      ok_def [symmetric]
    by (rule if_cong [OF refl refl], cases "ok (entry_header e0)"; cases "ok (entry_header e1)";
        cases "ok (entry_header e2)"; cases "ok (entry_header e3)")
      (simp_all only: mm simp_thms if_True if_False two nth_4)
qed

lemma find_by_parent_vectorized_obs_eq:
  assumes "length vs = 4"
  shows "find_by_parent_vectorized_obs s (map entry_header vs) vs t sec tag ls pc =
    search_obs (prefilter_match header_mask_by_parent (header_values_by_parent sec tag ls pc) tag) s vs t"
proof -
  obtain e0 e1 e2 e3 where vs: "vs = [e0, e1, e2, e3]" using assms unfolding length_4_list by blast
  show ?thesis
    unfolding vs find_by_parent_vectorized_obs_def search_obs_def Let_def first_match_4 list.map nth_4 option_if ..
qed

lemma u64_nibble:
  assumes "x < (16 :: u64)"
  obtains t where "x = ucast t" and "nibble t"
proof -
  have "x < 256" using assms by (rule less_trans) simp
  then have x: "unat x < 256" "unat x < 16" using assms by (simp_all add: word_less_nat_alt)
  have "x = ucast (ucast x :: u8)"
    unfolding word_unat_eq_iff unsigned_ucast_eq using x by (simp add: take_bit_eq_mod unat_mod)
  moreover have "nibble (ucast x :: u8)"
    unfolding nibble_def word_less_nat_alt unsigned_ucast_eq using x by (simp add: take_bit_eq_mod)
  ultimately show thesis by (rule that)
qed

lemma u64_byte:
  assumes "x < (256 :: u64)"
  obtains t :: u8 where "x = ucast t"
proof -
  have "unat x < 256" using assms by (simp add: word_less_nat_alt)
  then have "x = ucast (ucast x :: u8)"
    unfolding word_unat_eq_iff unsigned_ucast_eq by (simp add: take_bit_eq_mod unat_mod)
  then show thesis by (rule that)
qed

lemma simd_match_eq:
  assumes e: "wf_entry e" and tag: "tag < 16" and color: "color < 9"
    and inv: "entry_type e = TYPE_UNUSED \<Longrightarrow> entry_color e = INVALID_COLOR"
  shows "simd_match header_mask_by_color (header_values_by_color sec tag color) tag (entry_header e) \<longleftrightarrow>
    entry_header e AND header_mask_by_color = header_values_by_color sec tag color"
proof -
  obtain t where t: "tag = ucast t" "nibble t" using tag by (rule u64_nibble)
  have "color < 16" using color by (rule less_trans) simp
  then obtain c where c: "color = ucast c" "nibble c" by (rule u64_nibble)
  have "c \<noteq> INVALID_COLOR" using color c(1) by auto
  then show ?thesis
    using inv unfolding simd_match_def t(1) c(1) match_by_color [OF e t(2) c(2)] match_tag [OF e t(2)] header_type(2) [OF e]
    by auto
qed

lemma prefilter_match_eq:
  assumes e: "wf_entry e" and tag: "tag < 16" and ls: "ls < 256" and pc: "pc < 16" "pc \<noteq> 9"
    and inv: "entry_type e = TYPE_UNUSED \<Longrightarrow> entry_parent_color e = INVALID_COLOR"
  shows "prefilter_match header_mask_by_parent (header_values_by_parent sec tag ls pc) tag (entry_header e) \<longleftrightarrow>
    entry_header e AND header_mask_by_parent = header_values_by_parent sec tag ls pc"
proof -
  obtain t where t: "tag = ucast t" "nibble t" using tag by (rule u64_nibble)
  obtain c where c: "pc = ucast c" "nibble c" using pc(1) by (rule u64_nibble)
  obtain l where l: "ls = ucast (l :: u8)" using ls by (rule u64_byte)
  have "c \<noteq> INVALID_COLOR" using pc(2) c(1) by auto
  then show ?thesis
    using inv unfolding prefilter_match_def t(1) c(1) l match_by_parent [OF e t(2) c(2)] match_tag [OF e t(2)]
      header_type(1) [OF e] by auto
qed

lemma find_by_color_vectorized_eq:
  assumes "wf_bucket b" and "unused_cells_marked b" and "tag < 16" and "color < 9"
  shows "find_entry_in_bucket_by_color_vectorized b sec tag color = find_entry_in_bucket_by_color b sec tag color"
proof -
  have "length (cells b) = 4" using assms(1) by (simp add: wf_bucket_def)
  then show ?thesis
    unfolding find_entry_in_bucket_by_color_vectorized_def find_entry_in_bucket_by_color_def
    by (simp only: find_by_color_vectorized_obs_eq, intro search_obs_cong simd_match_eq)
      (use assms in \<open>auto simp: wf_bucket_def unused_cells_marked_def\<close>)
qed

lemma find_by_parent_vectorized_eq:
  assumes "wf_bucket b" and "unused_cells_marked b" and "tag < 16" and "ls < 256" and "pc < 16" and "pc \<noteq> 9"
  shows "find_entry_in_bucket_by_parent_vectorized b sec tag ls pc = find_entry_in_bucket_by_parent b sec tag ls pc"
proof -
  have "length (cells b) = 4" using assms(1) by (simp add: wf_bucket_def)
  then show ?thesis
    unfolding find_entry_in_bucket_by_parent_vectorized_def find_entry_in_bucket_by_parent_def
    by (simp only: find_by_parent_vectorized_obs_eq, intro search_obs_cong prefilter_match_eq)
      (use assms in \<open>auto simp: wf_bucket_def unused_cells_marked_def\<close>)
qed

subsection \<open>What a search of a bucket finds\<close>

definition at_rest :: "u32 \<Rightarrow> bool" where
  "at_rest w \<longleftrightarrow> w AND SEQ_INCREMENT = 0"

lemma search_obs_Some:
  assumes "search_obs P s es t = Some (i, e, w)"
  shows "i < length es" and "e = es ! i" and "P (entry_header e)" and "w = s" and "t = s" and "at_rest s"
proof -
  from assms have m: "first_match P 0 es = Some (i, e)" and *: "w = s" "t = s" "at_rest s"
    by (auto simp: search_obs_def at_rest_def split: if_splits option.splits)
  from * show "w = s" "t = s" "at_rest s" by blast+
  from first_match_Some [OF m] show "i < length es" "e = es ! i" "P (entry_header e)" by auto
qed

lemma search_obs_None:
  "at_rest s \<Longrightarrow> search_obs P s es s = None \<longleftrightarrow> (\<forall>e\<in>set es. \<not> P (entry_header e))"
  unfolding first_match_None [of P 0 es, symmetric]
  by (auto simp: search_obs_def at_rest_def split: option.split)

lemma find_by_color_Some:
  assumes "wf_bucket b" and "nibble t" and "nibble c"
    and "find_entry_in_bucket_by_color b sec (ucast t) (ucast c) = Some (i, e, w)"
  shows "i < 4" and "e = cells b ! i" and "w = write_lock_and_seq b" and "at_rest w"
    and "entry_is_secondary e = sec" and "entry_tag e = t" and "entry_color e = c"
proof -
  note r = search_obs_Some [OF assms(4) [unfolded find_entry_in_bucket_by_color_def]]
  have "wf_entry e" using assms(1) r(1,2) by (auto simp: wf_bucket_def)
  then show "entry_is_secondary e = sec" "entry_tag e = t" "entry_color e = c"
    using r(3) match_by_color [OF _ assms(2,3)] by blast+
  show "i < 4" "e = cells b ! i" "w = write_lock_and_seq b" "at_rest w"
    using r assms(1) by (simp_all add: wf_bucket_def)
qed

lemma find_by_color_None:
  assumes "wf_bucket b" and "nibble t" and "nibble c" and "at_rest (write_lock_and_seq b)"
  shows "find_entry_in_bucket_by_color b sec (ucast t) (ucast c) = None \<longleftrightarrow>
    (\<forall>e\<in>set (cells b). \<not> (entry_is_secondary e = sec \<and> entry_tag e = t \<and> entry_color e = c))"
  unfolding find_entry_in_bucket_by_color_def search_obs_None [OF assms(4)]
  using assms(1) match_by_color [OF _ assms(2,3)] by (auto simp: wf_bucket_def)

lemma find_by_parent_Some:
  assumes "wf_bucket b" and "nibble t" and "nibble c"
    and "find_entry_in_bucket_by_parent b sec (ucast t) (ucast (ls :: u8)) (ucast c) = Some (i, e, w)"
  shows "i < 4" and "e = cells b ! i" and "w = write_lock_and_seq b" and "at_rest w"
    and "entry_is_secondary e = sec" and "entry_tag e = t" and "e_last_symbol e = ls" and "entry_parent_color e = c"
proof -
  note r = search_obs_Some [OF assms(4) [unfolded find_entry_in_bucket_by_parent_def]]
  have "wf_entry e" using assms(1) r(1,2) by (auto simp: wf_bucket_def)
  then show "entry_is_secondary e = sec" "entry_tag e = t" "e_last_symbol e = ls" "entry_parent_color e = c"
    using r(3) match_by_parent [OF _ assms(2,3)] by blast+
  show "i < 4" "e = cells b ! i" "w = write_lock_and_seq b" "at_rest w"
    using r assms(1) by (simp_all add: wf_bucket_def)
qed

lemma find_by_parent_None:
  assumes "wf_bucket b" and "nibble t" and "nibble c" and "at_rest (write_lock_and_seq b)"
  shows "find_entry_in_bucket_by_parent b sec (ucast t) (ucast (ls :: u8)) (ucast c) = None \<longleftrightarrow>
    (\<forall>e\<in>set (cells b). \<not> (entry_is_secondary e = sec \<and> entry_tag e = t \<and> e_last_symbol e = ls
      \<and> entry_parent_color e = c))"
  unfolding find_entry_in_bucket_by_parent_def search_obs_None [OF assms(4)]
  using assms(1) match_by_parent [OF _ assms(2,3)] by (auto simp: wf_bucket_def)

subsection \<open>What a search of a pair finds\<close>

definition wf_trie :: "cuckoo_trie \<Rightarrow> bool" where
  "wf_trie trie \<longleftrightarrow> valid_table trie \<and> length (buckets trie) = unat (num_buckets trie) + 1 \<and>
     (\<forall>b\<in>set (buckets trie). wf_bucket b)"

text \<open>The cell \<open>p\<close> is in the pair, on the side its secondary flag says.\<close>

definition in_pair :: "cuckoo_trie \<Rightarrow> u64 \<Rightarrow> u64 \<Rightarrow> entry_ptr \<Rightarrow> bool" where
  "in_pair trie primary_bucket tag p \<longleftrightarrow>
     snd p < CUCKOO_BUCKET_SIZE \<and> entry_tag (cell trie p) = ucast tag \<and>
     fst p = unat (if entry_is_secondary (cell trie p) then mix_bucket trie primary_bucket tag else primary_bucket)"

definition pair_at_rest :: "cuckoo_trie \<Rightarrow> u64 \<Rightarrow> u64 \<Rightarrow> bool" where
  "pair_at_rest trie primary_bucket tag \<longleftrightarrow>
     at_rest (write_lock_and_seq (bucket_of trie primary_bucket)) \<and>
     at_rest (write_lock_and_seq (bucket_of trie (mix_bucket trie primary_bucket tag)))"

definition copy_of :: "cuckoo_trie \<Rightarrow> u64 \<Rightarrow> entry_ptr \<Rightarrow> ct_entry_local_copy" where
  "copy_of trie primary_bucket p =
     \<lparr>lc_value = cell trie p, last_pos = p, lc_primary_bucket = primary_bucket, last_seq = bucket_word trie (fst p)\<rparr>"

lemma wf_bucket_of:
  assumes "wf_trie trie" and "valid_bucket trie b"
  shows "wf_bucket (bucket_of trie b)"
  using assms by (auto simp: wf_trie_def bucket_of_def valid_bucket_unat)

lemma cell_of_bucket:
  assumes "wf_trie trie" and "valid_bucket trie b" and "e \<in> set (cells (bucket_of trie b))"
  obtains i where "i < 4" and "e = cell trie (unat b, i)"
  using assms(3) wf_bucket_of [OF assms(1,2)]
  by (auto simp: in_set_conv_nth bucket_of_def cell_def wf_bucket_def)

lemma found_in_copy:
  "e = cells (bucket_of trie b) ! i \<Longrightarrow> w = write_lock_and_seq (bucket_of trie b) \<Longrightarrow>
    found_in b pb (i, e, w) = copy_of trie pb (unat b, i)"
  by (simp add: found_in_def copy_of_def bucket_of_def cell_def bucket_word_def)

text \<open>
  The four pair searches are the same loop over a search of one bucket; what the loop
  finds is proved once. A query is the tag together with what the search looks for.
\<close>

locale pair_search =
  fixes bucket_ok :: "ct_bucket \<Rightarrow> bool"
    and query_ok :: "'q \<Rightarrow> bool"
    and tag_of :: "'q \<Rightarrow> u64"
    and search :: "ct_bucket \<Rightarrow> bool \<Rightarrow> 'q \<Rightarrow> (nat \<times> ct_entry \<times> u32) option"
    and matches :: "'q \<Rightarrow> ct_entry \<Rightarrow> bool"
    and loop :: "cuckoo_trie \<Rightarrow> u64 \<Rightarrow> 'q \<Rightarrow> ct_entry_local_copy option"
  assumes query_tag: "query_ok q \<Longrightarrow> valid_tag (tag_of q)"
    and search_Some: "wf_bucket b \<Longrightarrow> bucket_ok b \<Longrightarrow> query_ok q \<Longrightarrow> search b sec q = Some (i, e, w) \<Longrightarrow>
      i < 4 \<and> e = cells b ! i \<and> w = write_lock_and_seq b \<and> at_rest w \<and> entry_is_secondary e = sec \<and>
      entry_tag e = ucast (tag_of q) \<and> matches q e"
    and search_None: "wf_bucket b \<Longrightarrow> bucket_ok b \<Longrightarrow> query_ok q \<Longrightarrow> at_rest (write_lock_and_seq b) \<Longrightarrow>
      search b sec q = None \<Longrightarrow> e \<in> set (cells b) \<Longrightarrow> entry_is_secondary e = sec \<Longrightarrow>
      entry_tag e = ucast (tag_of q) \<Longrightarrow> \<not> matches q e"
    and loop_step: "loop trie pb q = (case search (bucket_of trie pb) False q of
        Some r \<Rightarrow> Some (found_in pb pb r)
      | None \<Rightarrow> (case search (bucket_of trie (mix_bucket trie pb (tag_of q))) True q of
          Some r \<Rightarrow> Some (found_in (mix_bucket trie pb (tag_of q)) pb r)
        | None \<Rightarrow> loop trie pb q))"
    and loop_returns: "loop trie pb q = Some c \<Longrightarrow>
      search (bucket_of trie pb) False q \<noteq> None \<or> search (bucket_of trie (mix_bucket trie pb (tag_of q))) True q \<noteq> None"
begin

definition pair_ok :: "cuckoo_trie \<Rightarrow> u64 \<Rightarrow> 'q \<Rightarrow> bool" where
  "pair_ok trie b q \<longleftrightarrow> wf_trie trie \<and> valid_bucket trie b \<and> query_ok q \<and>
     bucket_ok (bucket_of trie b) \<and> bucket_ok (bucket_of trie (mix_bucket trie b (tag_of q)))"

lemma pair_buckets:
  assumes "pair_ok trie b q"
  shows "valid_bucket trie (mix_bucket trie b (tag_of q))"
    and "wf_bucket (bucket_of trie b)" and "wf_bucket (bucket_of trie (mix_bucket trie b (tag_of q)))"
proof -
  show "valid_bucket trie (mix_bucket trie b (tag_of q))"
    using assms pair.mix_valid query_tag by (simp add: pair_ok_def wf_trie_def)
  then show "wf_bucket (bucket_of trie b)" and "wf_bucket (bucket_of trie (mix_bucket trie b (tag_of q)))"
    using assms wf_bucket_of by (auto simp: pair_ok_def)
qed

lemma hit:
  assumes ok: "pair_ok trie b q"
    and s: "search (bucket_of trie d) sec q = Some (i, e, w)"
    and d: "d = (if sec then mix_bucket trie b (tag_of q) else b)"
  shows "in_pair trie b (tag_of q) (unat d, i) \<and> matches q (cell trie (unat d, i)) \<and>
    found_in d b (i, e, w) = copy_of trie b (unat d, i)"
proof -
  have "wf_bucket (bucket_of trie d)" "bucket_ok (bucket_of trie d)" "query_ok q"
    using d pair_buckets [OF ok] ok by (auto simp: pair_ok_def)
  note s = search_Some [OF this s]
  moreover have "cell trie (unat d, i) = e" using s by (simp add: cell_def bucket_of_def)
  ultimately show ?thesis using d by (auto simp: in_pair_def intro: found_in_copy)
qed

text \<open>Whatever the loop returns is an entry of the pair that matches the query.\<close>

lemma loop_sound:
  assumes ok: "pair_ok trie b q" and c: "loop trie b q = Some c"
  shows "\<exists>p. c = copy_of trie b p \<and> in_pair trie b (tag_of q) p \<and> matches q (cell trie p)"
proof (cases "search (bucket_of trie b) False q")
  case (Some r)
  then show ?thesis
    using hit [OF ok, of b False "fst r" "fst (snd r)" "snd (snd r)"] c loop_step [of trie b q] by auto
next
  case None
  then obtain r where "search (bucket_of trie (mix_bucket trie b (tag_of q))) True q = Some r"
    using loop_returns [OF c] by blast
  then show ?thesis
    using hit [OF ok, of _ True "fst r" "fst (snd r)" "snd (snd r)"] c None loop_step [of trie b q] by auto
qed

text \<open>The loop returns when the pair is at rest and holds a match.\<close>

lemma loop_finds:
  assumes ok: "pair_ok trie b q" and rest: "pair_at_rest trie b (tag_of q)"
    and p: "in_pair trie b (tag_of q) p" "matches q (cell trie p)"
  shows "\<exists>c. loop trie b q = Some c"
proof (cases "search (bucket_of trie b) False q")
  case None
  let ?s = "mix_bucket trie b (tag_of q)"
  let ?e = "cell trie p"
  have q: "query_ok q" and bs: "bucket_ok (bucket_of trie b)" "bucket_ok (bucket_of trie ?s)"
    using ok by (simp_all add: pair_ok_def)
  note wfs = pair_buckets [OF ok]
  have in_set: "?e \<in> set (cells (bucket_of trie d))" if "fst p = unat d" "wf_bucket (bucket_of trie d)" for d
    using that p(1) by (cases p) (auto simp: cell_def bucket_of_def in_pair_def wf_bucket_def)
  have tag_e: "entry_tag ?e = ucast (tag_of q)" using p(1) by (simp add: in_pair_def)
  have "entry_is_secondary ?e"
  proof (rule ccontr)
    assume "\<not> entry_is_secondary ?e"
    moreover from this have "?e \<in> set (cells (bucket_of trie b))"
      using p(1) by (intro in_set wfs) (simp add: in_pair_def)
    ultimately show False
      using search_None [OF wfs(2) bs(1) q _ None] rest tag_e p(2) by (auto simp: pair_at_rest_def)
  qed
  moreover from this have "?e \<in> set (cells (bucket_of trie ?s))"
    using p(1) by (intro in_set wfs) (simp add: in_pair_def)
  moreover have "at_rest (write_lock_and_seq (bucket_of trie ?s))" using rest by (simp add: pair_at_rest_def)
  ultimately have "search (bucket_of trie ?s) True q \<noteq> None"
    using search_None [OF wfs(3) bs(2) q _ _ _ _ tag_e, of True] p(2) by blast
  then show ?thesis using None loop_step [of trie b q] by auto
qed (simp add: loop_step [of trie b q])

text \<open>If it holds exactly one match, the loop returns that one.\<close>

lemma loop_unique:
  assumes ok: "pair_ok trie b q" and rest: "pair_at_rest trie b (tag_of q)"
    and p: "in_pair trie b (tag_of q) p" "matches q (cell trie p)"
    and unique: "\<And>p'. in_pair trie b (tag_of q) p' \<Longrightarrow> matches q (cell trie p') \<Longrightarrow> p' = p"
  shows "loop trie b q = Some (copy_of trie b p)"
  using loop_finds [OF ok rest p] loop_sound [OF ok] unique by blast

end

text \<open>Queries by color are a tag and a color, queries by parent a tag, a symbol and a color.\<close>

definition color_query :: "u64 \<times> u64 \<Rightarrow> bool" where
  "color_query q \<longleftrightarrow> fst q < 16 \<and> snd q < 9"

definition matches_color :: "u64 \<times> u64 \<Rightarrow> ct_entry \<Rightarrow> bool" where
  "matches_color q e \<longleftrightarrow> entry_color e = ucast (snd q)"

definition parent_query :: "u64 \<times> u64 \<times> u64 \<Rightarrow> bool" where
  "parent_query q \<longleftrightarrow> fst q < 16 \<and> fst (snd q) < 256 \<and> snd (snd q) < 9"

definition matches_parent :: "u64 \<times> u64 \<times> u64 \<Rightarrow> ct_entry \<Rightarrow> bool" where
  "matches_parent q e \<longleftrightarrow> e_last_symbol e = ucast (fst (snd q)) \<and> entry_parent_color e = ucast (snd (snd q))"

lemma ucast_ucast_u8: "ucast (ucast (t :: u8) :: u64) = t"
  by (rule bit_word_eqI) (auto simp: bit_simps)

lemma color_queryE:
  assumes "color_query q"
  obtains t c where "q = (ucast t, ucast c)" and "nibble t" and "nibble c"
proof -
  have "snd q < 16" using assms by (auto simp: color_query_def intro: less_trans)
  then show thesis
    using assms u64_nibble [of "fst q"] u64_nibble [of "snd q"] that
    by (metis color_query_def prod.collapse)
qed

lemma parent_queryE:
  assumes "parent_query q"
  obtains t ls c where "q = (ucast t, ucast (ls :: u8), ucast c)" and "nibble t" and "nibble c"
proof -
  have "snd (snd q) < 16" using assms by (auto simp: parent_query_def intro: less_trans)
  then show thesis
    using assms u64_nibble [of "fst q"] u64_nibble [of "snd (snd q)"] u64_byte [of "fst (snd q)"] that
    by (metis parent_query_def prod.collapse)
qed

lemma pair_by_color_returns:
  "find_entry_in_pair_by_color trie b tag color = Some c \<Longrightarrow>
    find_entry_in_bucket_by_color (bucket_of trie b) False tag color \<noteq> None \<or>
    find_entry_in_bucket_by_color (bucket_of trie (mix_bucket trie b tag)) True tag color \<noteq> None"
  by (rule find_entry_in_pair_by_color.raw_induct [where P = "\<lambda>trie b tag color _.
        find_entry_in_bucket_by_color (bucket_of trie b) False tag color \<noteq> None \<or>
        find_entry_in_bucket_by_color (bucket_of trie (mix_bucket trie b tag)) True tag color \<noteq> None"])
    (auto simp: Let_def simp del: not_None_eq split: option.splits)

lemma pair_by_parent_returns:
  "find_entry_in_pair_by_parent trie b tag ls pc = Some c \<Longrightarrow>
    find_entry_in_bucket_by_parent (bucket_of trie b) False tag ls pc \<noteq> None \<or>
    find_entry_in_bucket_by_parent (bucket_of trie (mix_bucket trie b tag)) True tag ls pc \<noteq> None"
  by (rule find_entry_in_pair_by_parent.raw_induct [where P = "\<lambda>trie b tag ls pc _.
        find_entry_in_bucket_by_parent (bucket_of trie b) False tag ls pc \<noteq> None \<or>
        find_entry_in_bucket_by_parent (bucket_of trie (mix_bucket trie b tag)) True tag ls pc \<noteq> None"])
    (auto simp: Let_def simp del: not_None_eq split: option.splits)

lemma pair_by_color_vectorized_returns:
  "find_entry_in_pair_by_color_vectorized trie b tag color = Some c \<Longrightarrow>
    find_entry_in_bucket_by_color_vectorized (bucket_of trie b) False tag color \<noteq> None \<or>
    find_entry_in_bucket_by_color_vectorized (bucket_of trie (mix_bucket trie b tag)) True tag color \<noteq> None"
  by (rule find_entry_in_pair_by_color_vectorized.raw_induct [where P = "\<lambda>trie b tag color _.
        find_entry_in_bucket_by_color_vectorized (bucket_of trie b) False tag color \<noteq> None \<or>
        find_entry_in_bucket_by_color_vectorized (bucket_of trie (mix_bucket trie b tag)) True tag color \<noteq> None"])
    (auto simp: Let_def simp del: not_None_eq split: option.splits)

lemma pair_by_parent_vectorized_returns:
  "find_entry_in_pair_by_parent_vectorized trie b tag ls pc = Some c \<Longrightarrow>
    find_entry_in_bucket_by_parent_vectorized (bucket_of trie b) False tag ls pc \<noteq> None \<or>
    find_entry_in_bucket_by_parent_vectorized (bucket_of trie (mix_bucket trie b tag)) True tag ls pc \<noteq> None"
  by (rule find_entry_in_pair_by_parent_vectorized.raw_induct [where P = "\<lambda>trie b tag ls pc _.
        find_entry_in_bucket_by_parent_vectorized (bucket_of trie b) False tag ls pc \<noteq> None \<or>
        find_entry_in_bucket_by_parent_vectorized (bucket_of trie (mix_bucket trie b tag)) True tag ls pc \<noteq> None"])
    (auto simp: Let_def simp del: not_None_eq split: option.splits)

lemma search_color_Some:
  assumes "wf_bucket b" and "color_query q"
    and "find_entry_in_bucket_by_color b sec (fst q) (snd q) = Some (i, e, w)"
  shows "i < 4 \<and> e = cells b ! i \<and> w = write_lock_and_seq b \<and> at_rest w \<and> entry_is_secondary e = sec \<and>
      entry_tag e = ucast (fst q) \<and> matches_color q e"
  using assms find_by_color_Some [of b] by (elim color_queryE) (auto simp: matches_color_def ucast_ucast_u8)

lemma search_color_None:
  assumes "wf_bucket b" and "color_query q" and "at_rest (write_lock_and_seq b)"
    and "find_entry_in_bucket_by_color b sec (fst q) (snd q) = None" and "e \<in> set (cells b)"
    and "entry_is_secondary e = sec" and "entry_tag e = ucast (fst q)"
  shows "\<not> matches_color q e"
  using assms find_by_color_None [of b] by (elim color_queryE) (auto simp: matches_color_def ucast_ucast_u8)

lemma search_parent_Some:
  assumes "wf_bucket b" and "parent_query q"
    and "find_entry_in_bucket_by_parent b sec (fst q) (fst (snd q)) (snd (snd q)) = Some (i, e, w)"
  shows "i < 4 \<and> e = cells b ! i \<and> w = write_lock_and_seq b \<and> at_rest w \<and> entry_is_secondary e = sec \<and>
      entry_tag e = ucast (fst q) \<and> matches_parent q e"
  using assms find_by_parent_Some [of b] by (elim parent_queryE) (auto simp: matches_parent_def ucast_ucast_u8)

lemma search_parent_None:
  assumes "wf_bucket b" and "parent_query q" and "at_rest (write_lock_and_seq b)"
    and "find_entry_in_bucket_by_parent b sec (fst q) (fst (snd q)) (snd (snd q)) = None" and "e \<in> set (cells b)"
    and "entry_is_secondary e = sec" and "entry_tag e = ucast (fst q)"
  shows "\<not> matches_parent q e"
  using assms find_by_parent_None [of b] by (elim parent_queryE) (auto simp: matches_parent_def ucast_ucast_u8)

lemma color_query_tag: "color_query q \<Longrightarrow> valid_tag (fst q)"
  by (simp add: color_query_def valid_tag_def)

lemma parent_query_tag: "parent_query q \<Longrightarrow> valid_tag (fst q)"
  by (simp add: parent_query_def valid_tag_def)

lemma color_vectorized_query:
  assumes "wf_bucket b" and "unused_cells_marked b" and "color_query q"
  shows "find_entry_in_bucket_by_color_vectorized b sec (fst q) (snd q) =
    find_entry_in_bucket_by_color b sec (fst q) (snd q)"
  using assms by (intro find_by_color_vectorized_eq) (simp_all add: color_query_def)

lemma parent_vectorized_query:
  assumes "wf_bucket b" and "unused_cells_marked b" and "parent_query q"
  shows "find_entry_in_bucket_by_parent_vectorized b sec (fst q) (fst (snd q)) (snd (snd q)) =
    find_entry_in_bucket_by_parent b sec (fst q) (fst (snd q)) (snd (snd q))"
  using assms by (intro find_by_parent_vectorized_eq) (auto simp: parent_query_def intro: less_trans)

interpretation by_color: pair_search "\<lambda>b. True" color_query fst
  "\<lambda>b sec q. find_entry_in_bucket_by_color b sec (fst q) (snd q)" matches_color
  "\<lambda>trie b q. find_entry_in_pair_by_color trie b (fst q) (snd q)"
  by (unfold_locales, erule color_query_tag, erule (2) search_color_Some, erule (6) search_color_None,
      rule find_entry_in_pair_by_color.simps [unfolded Let_def], erule pair_by_color_returns)

interpretation by_parent: pair_search "\<lambda>b. True" parent_query fst
  "\<lambda>b sec q. find_entry_in_bucket_by_parent b sec (fst q) (fst (snd q)) (snd (snd q))" matches_parent
  "\<lambda>trie b q. find_entry_in_pair_by_parent trie b (fst q) (fst (snd q)) (snd (snd q))"
  by (unfold_locales, erule parent_query_tag, erule (2) search_parent_Some, erule (6) search_parent_None,
      rule find_entry_in_pair_by_parent.simps [unfolded Let_def], erule pair_by_parent_returns)

lemmas search_color_simd_Some = search_color_Some [OF _ _ trans [OF color_vectorized_query [symmetric]]]
lemmas search_color_simd_None = search_color_None [OF _ _ _ trans [OF color_vectorized_query [symmetric]]]
lemmas search_parent_simd_Some = search_parent_Some [OF _ _ trans [OF parent_vectorized_query [symmetric]]]
lemmas search_parent_simd_None = search_parent_None [OF _ _ _ trans [OF parent_vectorized_query [symmetric]]]

interpretation by_color_simd: pair_search unused_cells_marked color_query fst
  "\<lambda>b sec q. find_entry_in_bucket_by_color_vectorized b sec (fst q) (snd q)" matches_color
  "\<lambda>trie b q. find_entry_in_pair_by_color_vectorized trie b (fst q) (snd q)"
  by (unfold_locales, erule color_query_tag, rule search_color_simd_Some, assumption+,
      rule search_color_simd_None, assumption+,
      rule find_entry_in_pair_by_color_vectorized.simps [unfolded Let_def], erule pair_by_color_vectorized_returns)

interpretation by_parent_simd: pair_search unused_cells_marked parent_query fst
  "\<lambda>b sec q. find_entry_in_bucket_by_parent_vectorized b sec (fst q) (fst (snd q)) (snd (snd q))" matches_parent
  "\<lambda>trie b q. find_entry_in_pair_by_parent_vectorized trie b (fst q) (fst (snd q)) (snd (snd q))"
  by (unfold_locales, erule parent_query_tag, rule search_parent_simd_Some, assumption+,
      rule search_parent_simd_None, assumption+,
      rule find_entry_in_pair_by_parent_vectorized.simps [unfolded Let_def], erule pair_by_parent_vectorized_returns)

end
