(* ===== verification/Locks.thy ===== *)
theory Locks
  imports Lookup
begin

text \<open>
  The entry writes and the bucket lock manager of \<open>atomics.c\<close> and \<open>atomics.h\<close>.

  A bucket word is a lock byte and a 24-bit sequence number; the sequence number is odd
  while an entry of the bucket is being written. A thread records the write locks it
  holds in its lock manager: the array \<open>bucket_write_locks\<close> up to \<open>next_write_lock\<close> is a
  list here, and a pointer to a lock is an index into it. The reference counts, which stay
  far below \<open>2 ^ 32\<close>, are natural numbers. Operations pass the trie and the lock manager
  of the running thread explicitly.
\<close>

subsection \<open>Entry writes\<close>

definition write_part1 :: "ct_entry \<Rightarrow> ct_entry \<Rightarrow> ct_entry" where
  "write_part1 target src =
     (let src_part1 = load_le64 (entry_bytes src) 0
      in entry_of_bytes (le_bytes 8 src_part1 @ drop 8 (entry_bytes target)))"

definition write_part2 :: "ct_entry \<Rightarrow> ct_entry \<Rightarrow> ct_entry" where
  "write_part2 target src =
     (let src_part2 = ucast (drop_bit (8 * (15 - 8)) (entry_u128 src)) :: u64
      in entry_of_bytes (take (15 - 8) (entry_bytes target) @ le_bytes 8 src_part2))"

definition write_entry :: "cuckoo_trie \<Rightarrow> entry_ptr \<Rightarrow> ct_entry \<Rightarrow> u32 \<times> cuckoo_trie" where
  "write_entry trie target src =
     (let b = fst target;
          seq = bucket_word trie b;
          trie = set_bucket_word trie b (seq + SEQ_INCREMENT);
          trie = set_cell trie target (write_part1 (cell trie target) src);
          trie = set_cell trie target (write_part2 (cell trie target) src);
          trie = set_bucket_word trie b (seq + 2 * SEQ_INCREMENT)
      in (seq + 2 * SEQ_INCREMENT, trie))"

definition entry_set_parent_color_atomic :: "cuckoo_trie \<Rightarrow> entry_ptr \<Rightarrow> u8 \<Rightarrow> cuckoo_trie" where
  "entry_set_parent_color_atomic trie pos parent_color =
     snd (write_entry trie pos (entry_set_parent_color (cell trie pos) parent_color))"

subsection \<open>The lock manager\<close>

datatype status = SI_OK | SI_RETRY | SI_EXISTS | SI_FAIL

record ct_bucket_write_lock =
  wl_bucket :: nat
  entry_refcounts :: "nat list"
  total_refcount :: nat

record ct_bucket_read_lock =
  rl_bucket :: nat
  rl_seq :: u32

type_synonym lock_mgr = "ct_bucket_write_lock list"
type_synonym lock_state = "cuckoo_trie \<times> lock_mgr"

definition init_lock_mgr :: lock_mgr where
  "init_lock_mgr = []"

definition lock_byte :: "u32 \<Rightarrow> u32" where
  "lock_byte w = w AND 0xFF"

text \<open>The atomic exchange of the lock byte, and the store that clears it.\<close>

definition try_take_lock :: "cuckoo_trie \<Rightarrow> nat \<Rightarrow> bool \<times> cuckoo_trie" where
  "try_take_lock trie b =
     (let w = bucket_word trie b
      in (lock_byte w = 0, set_bucket_word trie b (seq_of_word w OR 1)))"

definition clear_lock_byte :: "cuckoo_trie \<Rightarrow> nat \<Rightarrow> cuckoo_trie" where
  "clear_lock_byte trie b = set_bucket_word trie b (seq_of_word (bucket_word trie b))"

text \<open>Search backwards, as the lock looked for is usually the last one created.\<close>

primrec find_write_lock_before :: "nat \<Rightarrow> lock_mgr \<Rightarrow> nat \<Rightarrow> nat option" where
  "find_write_lock_before 0 mgr b = None"
| "find_write_lock_before (Suc i) mgr b =
     (if wl_bucket (mgr ! i) = b then Some i else find_write_lock_before i mgr b)"

definition find_write_lock :: "lock_mgr \<Rightarrow> nat \<Rightarrow> nat option" where
  "find_write_lock mgr b = find_write_lock_before (length mgr) mgr b"

definition bucket_write_locked :: "lock_mgr \<Rightarrow> nat \<Rightarrow> bool" where
  "bucket_write_locked mgr b \<longleftrightarrow> find_write_lock mgr b \<noteq> None"

definition remove_lock :: "lock_state \<Rightarrow> nat \<Rightarrow> lock_state" where
  "remove_lock s i =
     (let (trie, mgr) = s;
          bucket = wl_bucket (mgr ! i);
          last_lock = length mgr - 1;
          mgr = (if i \<noteq> last_lock then mgr[i := mgr ! last_lock] else mgr)
      in (clear_lock_byte trie bucket, butlast mgr))"

definition read_lock_bucket :: "cuckoo_trie \<Rightarrow> nat \<Rightarrow> ct_bucket_read_lock" where
  "read_lock_bucket trie b = \<lparr>rl_bucket = b, rl_seq = seq_of_word (bucket_word trie b)\<rparr>"

definition read_unlock_bucket :: "cuckoo_trie \<Rightarrow> ct_bucket_read_lock \<Rightarrow> status" where
  "read_unlock_bucket trie rl =
     (if seq_of_word (bucket_word trie (rl_bucket rl)) = rl_seq rl then SI_OK else SI_FAIL)"

definition add_lock :: "lock_mgr \<Rightarrow> nat \<Rightarrow> lock_mgr" where
  "add_lock mgr b = mgr @ [\<lparr>wl_bucket = b, entry_refcounts = [0, 0, 0, 0], total_refcount = 1\<rparr>]"

text \<open>\<open>None\<close> is the null pointer: the bucket is locked by another thread.\<close>

definition write_lock_unlocked_bucket :: "lock_state \<Rightarrow> nat \<Rightarrow> nat option \<times> lock_state" where
  "write_lock_unlocked_bucket s b =
     (let (trie, mgr) = s; (ok, trie) = try_take_lock trie b
      in if \<not> ok then (None, trie, mgr) else (Some (length mgr), trie, add_lock mgr b))"

definition add_total :: "lock_mgr \<Rightarrow> nat \<Rightarrow> lock_mgr" where
  "add_total mgr i = mgr[i := (mgr ! i)\<lparr>total_refcount := total_refcount (mgr ! i) + 1\<rparr>]"

definition sub_total :: "lock_mgr \<Rightarrow> nat \<Rightarrow> lock_mgr" where
  "sub_total mgr i = mgr[i := (mgr ! i)\<lparr>total_refcount := total_refcount (mgr ! i) - 1\<rparr>]"

definition add_entry_ref :: "lock_mgr \<Rightarrow> nat \<Rightarrow> nat \<Rightarrow> lock_mgr" where
  "add_entry_ref mgr i k =
     mgr[i := (mgr ! i)\<lparr>entry_refcounts := (entry_refcounts (mgr ! i))[k := entry_refcounts (mgr ! i) ! k + 1]\<rparr>]"

definition sub_entry_ref :: "lock_mgr \<Rightarrow> nat \<Rightarrow> nat \<Rightarrow> lock_mgr" where
  "sub_entry_ref mgr i k =
     mgr[i := (mgr ! i)\<lparr>entry_refcounts := (entry_refcounts (mgr ! i))[k := entry_refcounts (mgr ! i) ! k - 1]\<rparr>]"

definition write_lock_bucket :: "lock_state \<Rightarrow> nat \<Rightarrow> nat option \<times> lock_state" where
  "write_lock_bucket s b =
     (let (trie, mgr) = s; (ok, trie) = try_take_lock trie b
      in if \<not> ok
         then (case find_write_lock mgr b of
                 Some i \<Rightarrow> (Some i, trie, add_total mgr i)
               | None \<Rightarrow> (None, trie, mgr))
         else (Some (length mgr), trie, add_lock mgr b))"

text \<open>The C code asserts that the bucket is locked; without a lock nothing happens here.\<close>

definition release_bucket_lock :: "lock_state \<Rightarrow> nat \<Rightarrow> lock_state" where
  "release_bucket_lock s b =
     (let (trie, mgr) = s
      in case find_write_lock mgr b of
           None \<Rightarrow> s
         | Some i \<Rightarrow>
             (let mgr = sub_total mgr i
              in if total_refcount (mgr ! i) \<noteq> 0 then (trie, mgr) else remove_lock (trie, mgr) i))"

definition upgrade_bucket_lock :: "lock_state \<Rightarrow> ct_bucket_read_lock \<Rightarrow> status \<times> lock_state" where
  "upgrade_bucket_lock s rl =
     (let (trie, mgr) = s; b = rl_bucket rl
      in case find_write_lock mgr b of
           Some i \<Rightarrow>
             (if seq_of_word (bucket_word trie b) \<noteq> rl_seq rl then (SI_RETRY, trie, mgr)
              else (SI_OK, trie, add_total mgr i))
         | None \<Rightarrow>
             (let (lock, trie, mgr) = write_lock_unlocked_bucket (trie, mgr) b
              in case lock of
                   None \<Rightarrow> (SI_RETRY, trie, mgr)
                 | Some i \<Rightarrow>
                     (if seq_of_word (bucket_word trie b) \<noteq> rl_seq rl
                      then (SI_RETRY, release_bucket_lock (trie, mgr) b)
                      else (SI_OK, trie, mgr))))"

definition write_lock_entry_in_locked_bucket :: "lock_mgr \<Rightarrow> entry_ptr \<Rightarrow> lock_mgr" where
  "write_lock_entry_in_locked_bucket mgr pos =
     (case find_write_lock mgr (fst pos) of
        None \<Rightarrow> mgr
      | Some i \<Rightarrow> add_entry_ref (add_total mgr i) i (snd pos))"

definition move_entry_lock :: "lock_mgr \<Rightarrow> entry_ptr \<Rightarrow> entry_ptr \<Rightarrow> lock_mgr" where
  "move_entry_lock mgr dst src =
     (case (find_write_lock mgr (fst src), find_write_lock mgr (fst dst)) of
        (Some src_lock, Some dst_lock) \<Rightarrow>
          (if entry_refcounts (mgr ! src_lock) ! snd src = 0 then mgr
           else let mgr = sub_entry_ref mgr src_lock (snd src);
                    mgr = sub_total mgr src_lock;
                    mgr = add_entry_ref mgr dst_lock (snd dst)
                in add_total mgr dst_lock)
      | _ \<Rightarrow> mgr)"

text \<open>The sequence bytes are read as a 16-bit word and a byte, past the lock byte.\<close>

definition read_bucket_seq :: "cuckoo_trie \<Rightarrow> nat \<Rightarrow> u32" where
  "read_bucket_seq trie b =
     (let bs = le_bytes 4 (bucket_word trie b);
          low_word = le_word [bs ! 1, bs ! 2] :: u32;
          high_byte = ucast (bs ! 3) :: u32
      in push_bit 24 high_byte + push_bit 8 low_word)"

definition upgrade_lock :: "lock_state \<Rightarrow> ct_entry_local_copy \<Rightarrow> status \<times> lock_state" where
  "upgrade_lock s local_copy =
     (let (trie, mgr) = s;
          b = fst (last_pos local_copy);
          entry_index = snd (last_pos local_copy);
          entry_seq = seq_of_word (last_seq local_copy);
          (ok, trie) = try_take_lock trie b
      in if ok
         then (let new_lock = length mgr; mgr = add_lock mgr b
               in if read_bucket_seq trie b \<noteq> entry_seq
                  then (SI_RETRY, release_bucket_lock (trie, mgr) b)
                  else (SI_OK, trie, add_entry_ref mgr new_lock entry_index))
         else (case find_write_lock mgr b of
                 Some i \<Rightarrow>
                   (if seq_of_word (bucket_word trie b) \<noteq> entry_seq then (SI_RETRY, trie, mgr)
                    else (SI_OK, trie, add_total (add_entry_ref mgr i entry_index) i))
               | None \<Rightarrow> (SI_RETRY, trie, mgr)))"

definition write_unlock :: "lock_state \<Rightarrow> entry_ptr \<Rightarrow> lock_state" where
  "write_unlock s pos =
     (let (trie, mgr) = s
      in case find_write_lock mgr (fst pos) of
           None \<Rightarrow> s
         | Some i \<Rightarrow>
             (let mgr = sub_total (sub_entry_ref mgr i (snd pos)) i
              in if total_refcount (mgr ! i) \<noteq> 0 then (trie, mgr) else remove_lock (trie, mgr) i))"

definition release_all_locks :: "lock_state \<Rightarrow> lock_state" where
  "release_all_locks s =
     (let (trie, mgr) = s
      in (foldl (\<lambda>trie lock. clear_lock_byte trie (wl_bucket lock)) trie mgr, []))"

subsection \<open>Cells and bucket words\<close>

definition valid_ptr :: "cuckoo_trie \<Rightarrow> entry_ptr \<Rightarrow> bool" where
  "valid_ptr trie p \<longleftrightarrow> fst p < length (buckets trie) \<and> snd p < length (cells (buckets trie ! fst p))"

lemma nth_list_update_if: "xs[i := v] ! j = (if i = j \<and> i < length xs then v else xs ! j)"
  by (cases "i < length xs") (auto simp: nth_list_update list_update_beyond)

lemma bucket_word_set_word [table_simps]:
  "bucket_word (set_bucket_word trie b w) b' = (if b' = b \<and> b < length (buckets trie) then w else bucket_word trie b')"
  by (auto simp: bucket_word_def set_bucket_word_def nth_list_update_if)

lemma bucket_word_set_cell [table_simps]: "bucket_word (set_cell trie p e) b = bucket_word trie b"
  by (auto simp: bucket_word_def set_cell_def nth_list_update_if)

lemma cell_set_word [table_simps]: "cell (set_bucket_word trie b w) p = cell trie p"
  by (auto simp: cell_def set_bucket_word_def nth_list_update_if)

lemma cell_set_cell [table_simps]:
  "cell (set_cell trie p e) q = (if q = p \<and> valid_ptr trie p then e else cell trie q)"
  by (cases p; cases q) (auto simp: cell_def set_cell_def valid_ptr_def nth_list_update_if)

lemma length_buckets [table_simps]:
  "length (buckets (set_bucket_word trie b w)) = length (buckets trie)"
  "length (buckets (set_cell trie p e)) = length (buckets trie)"
  by (simp_all add: set_bucket_word_def set_cell_def)

lemma length_cells [table_simps]:
  "length (cells (buckets (set_bucket_word trie b w) ! i)) = length (cells (buckets trie ! i))"
  "length (cells (buckets (set_cell trie p e) ! i)) = length (cells (buckets trie ! i))"
  by (auto simp: set_bucket_word_def set_cell_def nth_list_update_if)

lemma valid_ptr_set [table_simps]:
  "valid_ptr (set_bucket_word trie b w) p = valid_ptr trie p"
  "valid_ptr (set_cell trie q e) p = valid_ptr trie p"
  by (simp_all add: valid_ptr_def table_simps)

lemma fields_set [table_simps]:
  "num_buckets (set_bucket_word trie b w) = num_buckets trie" "num_buckets (set_cell trie p e) = num_buckets trie"
  "is_empty (set_bucket_word trie b w) = is_empty trie" "is_empty (set_cell trie p e) = is_empty trie"
  "mix_bucket (set_bucket_word trie b w) = mix_bucket trie" "mix_bucket (set_cell trie p e) = mix_bucket trie"
  "unmix_bucket (set_bucket_word trie b w) = unmix_bucket trie" "unmix_bucket (set_cell trie p e) = unmix_bucket trie"
  "valid_table (set_bucket_word trie b w) = valid_table trie" "valid_table (set_cell trie p e) = valid_table trie"
  by (simp_all add: set_bucket_word_def set_cell_def)

text \<open>Two tries with the same words, cells and sizes are the same.\<close>

lemma trie_eqI:
  assumes "length (buckets t1) = length (buckets t2)"
    and "\<And>b. b < length (buckets t1) \<Longrightarrow> bucket_word t1 b = bucket_word t2 b"
    and "\<And>b. b < length (buckets t1) \<Longrightarrow> cells (buckets t1 ! b) = cells (buckets t2 ! b)"
    and "t1\<lparr>buckets := []\<rparr> = t2\<lparr>buckets := []\<rparr>"
  shows "t1 = t2"
proof -
  have "buckets t1 = buckets t2"
    using assms(1-3) by (intro nth_equalityI) (auto simp: bucket_word_def intro: ct_bucket.equality)
  then show ?thesis using assms(4) by (cases t1; cases t2) simp
qed

subsection \<open>The result of an entry write\<close>

lemma entry_of_bytes_wf: "length bs = 15 \<Longrightarrow> wf_entry (entry_of_bytes bs)"
  by (simp add: wf_entry_def entry_of_bytes_def)

lemma length_15_list: "length bs = 15 \<Longrightarrow>
  \<exists>p c l b0 b1 b2 b3 b4 b5 l0 l1 l2 l3 l4 l5. bs = [p, c, l, b0, b1, b2, b3, b4, b5, l0, l1, l2, l3, l4, l5]"
  by (auto simp: numeral_eq_Suc length_Suc_conv)

lemma entry_bytes_of_bytes:
  assumes "length bs = 15"
  shows "entry_bytes (entry_of_bytes bs) = bs"
proof -
  obtain p c l b0 b1 b2 b3 b4 b5 l0 l1 l2 l3 l4 l5
    where bs: "bs = [p, c, l, b0, b1, b2, b3, b4, b5, l0, l1, l2, l3, l4, l5]"
    using length_15_list [OF assms] by blast
  have "le_bytes 4 (le_word [l0, l1, l2, l3] :: u32) = [l0, l1, l2, l3]"
  proof -
    have "length [l0, l1, l2, l3] = 4" by simp
    then show ?thesis using le_bytes_le_word [of "[l0, l1, l2, l3]", where 'a = 32] by (simp del: list.size le_word.simps)
  qed
  then have "locator_bytes (locator_of_bytes [l0, l1, l2, l3, l4, l5]) = [l0, l1, l2, l3, l4, l5]"
    by (simp add: locator_of_bytes_def locator_bytes_def del: le_word.simps)
  moreover have "entry_of_bytes bs = \<lparr>parent_color_and_flags = p, color_and_tag = c, e_last_symbol = l,
      e_bytes = [b0, b1, b2, b3, b4], e_byte8 = b5, e_locator = locator_of_bytes [l0, l1, l2, l3, l4, l5]\<rparr>"
    using entry_of_bytes_append [of "[b0, b1, b2, b3, b4]" p c l b5 "[l0, l1, l2, l3, l4, l5]"] by (simp add: bs)
  ultimately show ?thesis by (simp add: bs entry_bytes_def)
qed

lemma load_le64_bytes: "8 \<le> length bs \<Longrightarrow> le_bytes 8 (load_le64 bs 0) = take 8 bs"
proof -
  assume "8 \<le> length bs"
  then have "map (byte_at bs) [0..<8] = take 8 bs" by (intro nth_equalityI) auto
  moreover have "le_bytes (length (take 8 bs)) (le_word (take 8 bs) :: u64) = take 8 bs"
    by (rule le_bytes_le_word) simp
  moreover have "length (take 8 bs) = 8" using \<open>8 \<le> length bs\<close> by simp
  ultimately show ?thesis by (simp add: load_le64_def del: length_take)
qed

lemma high_part_bytes:
  assumes "length bs = 15"
  shows "le_bytes 8 (ucast (drop_bit 56 (le_word bs :: u128)) :: u64) = drop 7 bs"
proof (rule nth_equalityI)
  show "length (le_bytes 8 (ucast (drop_bit 56 (le_word bs :: u128)) :: u64)) = length (drop 7 bs)"
    using assms by simp
  fix i
  assume "i < length (le_bytes 8 (ucast (drop_bit 56 (le_word bs :: u128)) :: u64))"
  then have i: "i < 8" by simp
  show "le_bytes 8 (ucast (drop_bit 56 (le_word bs :: u128)) :: u64) ! i = drop 7 bs ! i"
  proof (rule bit_word_eqI)
    fix k
    assume "k < LENGTH(8)"
    then have k: "k < 8" by simp
    have "56 + (8 * i + k) = 8 * (7 + i) + k" by simp
    then have "(56 + (8 * i + k)) div 8 = 7 + i" "(56 + (8 * i + k)) mod 8 = k"
      using byte_div_mod [OF k, of "7 + i"] by (simp_all only:)
    then show "bit (le_bytes 8 (ucast (drop_bit 56 (le_word bs :: u128)) :: u64) ! i) k = bit (drop 7 bs ! i) k"
      using i k assms by (simp add: bit_le_bytes bit_simps bit_le_word)
  qed
qed

lemma write_parts:
  assumes "wf_entry target" and "wf_entry src"
  shows "write_part2 (write_part1 target src) src = src"
proof -
  have t: "length (entry_bytes target) = 15" and s: "length (entry_bytes src) = 15"
    using assms by (simp_all add: length_entry_bytes)
  have p1: "write_part1 target src = entry_of_bytes (take 8 (entry_bytes src) @ drop 8 (entry_bytes target))"
    using s by (simp add: write_part1_def load_le64_bytes)
  have b1: "entry_bytes (write_part1 target src) = take 8 (entry_bytes src) @ drop 8 (entry_bytes target)"
    unfolding p1 using t s by (intro entry_bytes_of_bytes) simp
  have "write_part2 (write_part1 target src) src = entry_of_bytes (take 7 (entry_bytes src) @ drop 7 (entry_bytes src))"
    unfolding write_part2_def b1 using s high_part_bytes [OF s] by (simp add: entry_u128_def)
  also have "\<dots> = src" using entry_of_bytes_inverse [OF assms(2)] by simp
  finally show ?thesis .
qed

lemma write_entry_eq:
  assumes "valid_ptr trie p" and "wf_entry (cell trie p)" and "wf_entry src"
  shows "write_entry trie p src =
    (bucket_word trie (fst p) + 512,
     set_bucket_word (set_cell trie p src) (fst p) (bucket_word trie (fst p) + 512))"
proof -
  let ?b = "fst p"
  have idem: "set_bucket_word (set_cell (set_cell (set_bucket_word t b w) p e1) p e2) b w' =
      set_bucket_word (set_cell t p e2) b w'" if "b = fst p" for t b w w' e1 e2
    using that by (cases "fst p < length (buckets t)")
      (simp_all add: set_bucket_word_def set_cell_def nth_list_update_if list_update_beyond)
  have "write_part2 (write_part1 (cell trie p) src) src = src" by (rule write_parts [OF assms(2,3)])
  moreover have "bucket_word trie ?b + 2 * SEQ_INCREMENT = bucket_word trie ?b + 512" by simp
  ultimately show ?thesis
    using assms(1) unfolding write_entry_def Let_def by (simp only: cell_set_cell cell_set_word valid_ptr_set idem) simp
qed

subsection \<open>Sequence numbers\<close>

lemma lock_byte_add: "lock_byte (w + 512) = lock_byte w"
proof -
  have m: "(0xFF :: u32) = mask 8" by code_simp
  have "unat (w + 512) mod 2 ^ 8 = (unat w + 512) mod 2 ^ 32 mod 2 ^ 8"
    unfolding unat_word_ariths by simp
  also have "\<dots> = (unat w + 512) mod 2 ^ 8" by (rule mod_mod_cancel) (simp add: le_imp_power_dvd)
  also have "\<dots> = unat w mod 2 ^ 8" using mod_mult_self2 [of "unat w" "2 ^ 8" 2] by simp
  finally show ?thesis
    unfolding lock_byte_def m word_unat_eq_iff unat_and_mask .
qed

lemma seq_of_word_or_1 [simp]: "seq_of_word (seq_of_word w OR 1) = seq_of_word w"
  and seq_of_word_idem [simp]: "seq_of_word (seq_of_word w) = seq_of_word w"
  and lock_byte_or_1: "lock_byte (seq_of_word w OR 1) = 1"
  and lock_byte_seq: "lock_byte (seq_of_word w) = 0"
proof -
  have m: "(0xFF :: u32) = mask 8" by code_simp
  show "seq_of_word (seq_of_word w OR 1) = seq_of_word w" "seq_of_word (seq_of_word w) = seq_of_word w"
    "lock_byte (seq_of_word w OR 1) = 1" "lock_byte (seq_of_word w) = 0"
    unfolding seq_of_word_def lock_byte_def m
    by (rule bit_word_eqI; auto simp: bit_simps bit_mask_iff bit_1_iff)+
qed

lemma read_bucket_seq_eq: "read_bucket_seq trie b = seq_of_word (bucket_word trie b)"
proof -
  define w where "w = bucket_word trie b"
  have m: "(0xFF :: u32) = mask 8" by code_simp
  have byte: "bit (le_bytes 4 w ! i) k \<longleftrightarrow> k < 8 \<and> bit w (8 * i + k)" if "i < 4" for i k
    using that by (rule bit_le_bytes)
  let ?low = "le_word [le_bytes 4 w ! 1, le_bytes 4 w ! 2] :: u32" and ?high = "ucast (le_bytes 4 w ! 3) :: u32"
  have low: "bit (push_bit 8 ?low) n \<longleftrightarrow> 8 \<le> n \<and> n < 24 \<and> bit w n" for n
    using byte [of 1 "n - 8"] byte [of 2 "n - 16"] by (auto simp: bit_simps dest: bit_imp_le_length)
  have high: "bit (push_bit 24 ?high) n \<longleftrightarrow> 24 \<le> n \<and> n < 32 \<and> bit w n" for n
    using byte [of 3 "n - 24"] by (auto simp: bit_simps dest: bit_imp_le_length)
  have "push_bit 24 ?high AND push_bit 8 ?low = 0"
    by (rule bit_word_eqI) (simp only: bit_and_iff low high, auto)
  then have "push_bit 24 ?high + push_bit 8 ?low = push_bit 24 ?high OR push_bit 8 ?low"
    by (rule disjunctive_add_eq_or)
  also have "\<dots> = seq_of_word w"
    unfolding seq_of_word_def m
    by (rule bit_word_eqI) (simp only: bit_or_iff bit_and_iff bit_not_iff bit_mask_iff low high, auto)
  finally show ?thesis by (simp add: read_bucket_seq_def Let_def w_def)
qed

subsection \<open>The lock invariant\<close>

definition held :: "lock_mgr \<Rightarrow> nat set" where
  "held mgr = wl_bucket ` set mgr"

text \<open>Every lock is on a different bucket and counts at least its entry references.\<close>

definition wf_lock :: "ct_bucket_write_lock \<Rightarrow> bool" where
  "wf_lock l \<longleftrightarrow> length (entry_refcounts l) = CUCKOO_BUCKET_SIZE \<and> 0 < total_refcount l \<and>
     sum_list (entry_refcounts l) \<le> total_refcount l"

definition wf_mgr :: "lock_mgr \<Rightarrow> bool" where
  "wf_mgr mgr \<longleftrightarrow> distinct (map wl_bucket mgr) \<and> (\<forall>l\<in>set mgr. wf_lock l)"

text \<open>
  The lock bytes of the trie are those of this thread's locks and of the buckets that the
  other threads hold, which are none of this thread's.
\<close>

definition locks_ok :: "nat set \<Rightarrow> lock_state \<Rightarrow> bool" where
  "locks_ok others s \<longleftrightarrow> (let (trie, mgr) = s in
     wf_mgr mgr \<and> held mgr \<inter> others = {} \<and> held mgr \<union> others \<subseteq> {..<length (buckets trie)} \<and>
     (\<forall>b<length (buckets trie). lock_byte (bucket_word trie b) = (if b \<in> held mgr \<union> others then 1 else 0)))"

lemma find_before_Some:
  "find_write_lock_before n mgr b = Some i \<Longrightarrow> i < n \<and> wl_bucket (mgr ! i) = b"
  by (induction n) (auto split: if_splits simp: less_Suc_eq)

lemma find_before_None:
  "find_write_lock_before n mgr b = None \<longleftrightarrow> (\<forall>i<n. wl_bucket (mgr ! i) \<noteq> b)"
  by (induction n) (auto simp: less_Suc_eq)

lemma find_write_lock_Some: "find_write_lock mgr b = Some i \<Longrightarrow> i < length mgr \<and> wl_bucket (mgr ! i) = b"
  by (simp add: find_write_lock_def find_before_Some)

lemma find_write_lock_held: "find_write_lock mgr b = Some i \<Longrightarrow> b \<in> held mgr"
  using find_write_lock_Some [of mgr b i] by (auto simp: held_def)

lemma find_write_lock_None: "find_write_lock mgr b = None \<longleftrightarrow> b \<notin> held mgr"
  by (force simp: find_write_lock_def find_before_None held_def in_set_conv_nth)

lemma bucket_write_locked_iff: "bucket_write_locked mgr b \<longleftrightarrow> b \<in> held mgr"
  by (simp add: bucket_write_locked_def find_write_lock_None)

lemma locks_okD:
  assumes "locks_ok others (trie, mgr)"
  shows "wf_mgr mgr" and "held mgr \<inter> others = {}" and "b \<in> held mgr \<union> others \<Longrightarrow> b < length (buckets trie)"
    and "b < length (buckets trie) \<Longrightarrow> lock_byte (bucket_word trie b) = (if b \<in> held mgr \<union> others then 1 else 0)"
  using assms by (auto simp: locks_ok_def)

lemma held_simps [simp]:
  "held [] = {}"
  "held (l # mgr) = insert (wl_bucket l) (held mgr)"
  "held (mgr @ mgr') = held mgr \<union> held mgr'"
  by (auto simp: held_def)

lemma map_bucket_update:
  assumes "wl_bucket l = wl_bucket (mgr ! i)"
  shows "map wl_bucket (mgr[i := l]) = map wl_bucket mgr"
proof (cases "i < length mgr")
  case True
  then show ?thesis using assms by (simp add: map_update list_update_same_conv)
qed (simp add: list_update_beyond)

lemma held_update:
  assumes "wl_bucket l = wl_bucket (mgr ! i)"
  shows "held (mgr[i := l]) = held mgr"
proof -
  have "map wl_bucket (mgr[i := l]) = map wl_bucket mgr" using assms by (rule map_bucket_update)
  then show ?thesis unfolding held_def by (metis list.set_map)
qed

lemma wf_mgr_update:
  assumes "wf_mgr mgr" and "wl_bucket l = wl_bucket (mgr ! i)" and "i < length mgr \<Longrightarrow> wf_lock l"
  shows "wf_mgr (mgr[i := l])"
proof -
  have "map wl_bucket (mgr[i := l]) = map wl_bucket mgr" using assms(2) by (rule map_bucket_update)
  then show ?thesis
    using assms(1,3) unfolding wf_mgr_def
    by (cases "i < length mgr") (auto dest!: set_update_subset_insert [THEN subsetD] simp: list_update_beyond)
qed

lemma wf_mgr_nth: "wf_mgr mgr \<Longrightarrow> i < length mgr \<Longrightarrow> wf_lock (mgr ! i)"
  by (simp add: wf_mgr_def)

text \<open>An update of the manager that keeps its buckets keeps the invariant.\<close>

lemma locks_ok_mgr:
  assumes "locks_ok others (trie, mgr)" and "held mgr' = held mgr" and "wf_mgr mgr'"
  shows "locks_ok others (trie, mgr')"
  using assms by (auto simp: locks_ok_def)

lemma wf_lock_total:
  "wf_lock l \<Longrightarrow> wf_lock (l\<lparr>total_refcount := total_refcount l + 1\<rparr>)"
  "wf_lock l \<Longrightarrow> sum_list (entry_refcounts l) < total_refcount l \<Longrightarrow> 1 < total_refcount l \<Longrightarrow>
    wf_lock (l\<lparr>total_refcount := total_refcount l - 1\<rparr>)"
  by (auto simp: wf_lock_def)

lemma wf_lock_entry:
  assumes "wf_lock l" and "k < 4"
  shows "wf_lock (l\<lparr>entry_refcounts := (entry_refcounts l)[k := entry_refcounts l ! k + 1],
      total_refcount := total_refcount l + 1\<rparr>)"
    and "sum_list (entry_refcounts l) < total_refcount l \<Longrightarrow>
      wf_lock (l\<lparr>entry_refcounts := (entry_refcounts l)[k := entry_refcounts l ! k + 1]\<rparr>)"
  using assms by (auto simp: wf_lock_def sum_list_update)

lemma held_add_sub [simp]:
  "held (add_total mgr i) = held mgr" "held (sub_total mgr i) = held mgr"
  "held (add_entry_ref mgr i k) = held mgr" "held (sub_entry_ref mgr i k) = held mgr"
  by (simp_all add: add_total_def sub_total_def add_entry_ref_def sub_entry_ref_def held_update)

lemma length_add_sub [simp]:
  "length (add_total mgr i) = length mgr" "length (sub_total mgr i) = length mgr"
  "length (add_entry_ref mgr i k) = length mgr" "length (sub_entry_ref mgr i k) = length mgr"
  by (simp_all add: add_total_def sub_total_def add_entry_ref_def sub_entry_ref_def)

lemma wf_add_total: "wf_mgr mgr \<Longrightarrow> wf_mgr (add_total mgr i)"
  unfolding add_total_def by (rule wf_mgr_update) (auto simp: wf_lock_def dest: wf_mgr_nth)

subsection \<open>Taking and releasing a lock byte\<close>

lemma length_buckets_lock [simp]:
  "length (buckets (snd (try_take_lock trie b))) = length (buckets trie)"
  "length (buckets (clear_lock_byte trie b)) = length (buckets trie)"
  by (simp_all add: try_take_lock_def clear_lock_byte_def Let_def table_simps)

lemma seq_of_word_split: "lock_byte w = 1 \<Longrightarrow> seq_of_word w OR 1 = w"
proof -
  assume l: "lock_byte w = 1"
  have m: "(0xFF :: u32) = mask 8" by code_simp
  have low: "bit w n \<longleftrightarrow> n = 0" if "n < 8" for n
  proof -
    have "bit (lock_byte w) n = bit (1 :: u32) n" using l by simp
    then show ?thesis using that unfolding lock_byte_def m by (simp add: bit_simps bit_mask_iff bit_1_iff)
  qed
  show ?thesis
    unfolding seq_of_word_def m
    by (rule bit_word_eqI) (use low in \<open>auto simp: bit_simps bit_mask_iff bit_1_iff\<close>)
qed

text \<open>
  Every operation that fails to take the lock byte leaves the trie as it was; the others
  change lock bytes only. Erasing the lock bytes shows what the lock operations keep.
\<close>

definition unlocked :: "cuckoo_trie \<Rightarrow> cuckoo_trie" where
  "unlocked trie =
     trie\<lparr>buckets := map (\<lambda>b. b\<lparr>write_lock_and_seq := seq_of_word (write_lock_and_seq b)\<rparr>) (buckets trie)\<rparr>"

lemma unlocked_set_word:
  assumes "seq_of_word w = seq_of_word (bucket_word trie b)"
  shows "unlocked (set_bucket_word trie b w) = unlocked trie"
proof (cases "b < length (buckets trie)")
  case True
  then show ?thesis
    using assms by (auto simp: unlocked_def set_bucket_word_def bucket_word_def map_update list_update_same_conv)
qed (simp add: set_bucket_word_def list_update_beyond)

lemma unlocked_eqD:
  assumes "unlocked t = unlocked t'"
  shows "length (buckets t) = length (buckets t')"
    and "b < length (buckets t) \<Longrightarrow> cells (buckets t ! b) = cells (buckets t' ! b)"
    and "b < length (buckets t) \<Longrightarrow> seq_of_word (bucket_word t b) = seq_of_word (bucket_word t' b)"
    and "t\<lparr>buckets := []\<rparr> = t'\<lparr>buckets := []\<rparr>"
proof -
  let ?f = "\<lambda>b. b\<lparr>write_lock_and_seq := seq_of_word (write_lock_and_seq b)\<rparr>"
  have m: "map ?f (buckets t) = map ?f (buckets t')"
    using arg_cong [OF assms, of buckets] by (simp add: unlocked_def)
  then show len: "length (buckets t) = length (buckets t')" by (rule map_eq_imp_length_eq)
  { assume b: "b < length (buckets t)"
    have "map ?f (buckets t) ! b = map ?f (buckets t') ! b" by (rule arg_cong [OF m])
    then have f: "?f (buckets t ! b) = ?f (buckets t' ! b)" using b len by (simp only: nth_map)
    show "cells (buckets t ! b) = cells (buckets t' ! b)"
      using arg_cong [OF f, of cells] by simp
    show "seq_of_word (bucket_word t b) = seq_of_word (bucket_word t' b)"
      using arg_cong [OF f, of write_lock_and_seq] by (simp add: bucket_word_def) }
  show "t\<lparr>buckets := []\<rparr> = t'\<lparr>buckets := []\<rparr>"
    using arg_cong [OF assms, of "buckets_update (\<lambda>_. [])"] by (simp add: unlocked_def)
qed

lemma take_free:
  assumes ok: "locks_ok others (trie, mgr)" and b: "b < length (buckets trie)"
    and free: "lock_byte (bucket_word trie b) = 0"
  shows "try_take_lock trie b = (True, set_bucket_word trie b (seq_of_word (bucket_word trie b) OR 1))"
    and "b \<notin> held mgr \<union> others"
    and "locks_ok others (set_bucket_word trie b (seq_of_word (bucket_word trie b) OR 1), add_lock mgr b)"
    and "unlocked (set_bucket_word trie b (seq_of_word (bucket_word trie b) OR 1)) = unlocked trie"
proof -
  show "try_take_lock trie b = (True, set_bucket_word trie b (seq_of_word (bucket_word trie b) OR 1))"
    using free by (simp add: try_take_lock_def)
  show nb: "b \<notin> held mgr \<union> others" using locks_okD(4) [OF ok b] free by auto
  show "unlocked (set_bucket_word trie b (seq_of_word (bucket_word trie b) OR 1)) = unlocked trie"
    by (rule unlocked_set_word) simp
  show "locks_ok others (set_bucket_word trie b (seq_of_word (bucket_word trie b) OR 1), add_lock mgr b)"
    using ok nb b by (auto simp: locks_ok_def add_lock_def table_simps lock_byte_or_1 wf_mgr_def wf_lock_def held_def)
qed

lemma take_locked:
  assumes ok: "locks_ok others (trie, mgr)" and b: "b < length (buckets trie)"
    and "lock_byte (bucket_word trie b) \<noteq> 0"
  shows "try_take_lock trie b = (False, trie)" and "b \<in> held mgr \<union> others"
proof -
  have 1: "lock_byte (bucket_word trie b) = 1" using locks_okD(4) [OF ok b] assms(3) by (auto split: if_splits)
  then show "b \<in> held mgr \<union> others" using locks_okD(4) [OF ok b] by (auto split: if_splits)
  have "set_bucket_word trie b (bucket_word trie b) = trie"
    by (cases "b < length (buckets trie)") (simp_all add: set_bucket_word_def bucket_word_def)
  then show "try_take_lock trie b = (False, trie)"
    using 1 by (simp add: try_take_lock_def seq_of_word_split)
qed

lemma butlast_swap:
  assumes "distinct (map f xs)" and "i < length xs"
  shows "set (butlast (if i \<noteq> length xs - 1 then xs[i := xs ! (length xs - 1)] else xs)) = set xs - {xs ! i}"
    and "distinct (map f (butlast (if i \<noteq> length xs - 1 then xs[i := xs ! (length xs - 1)] else xs)))"
proof -
  obtain ys l where xs: "xs = ys @ [l]" using assms(2) by (cases xs rule: rev_cases) auto
  have d: "distinct (map f ys)" "f l \<notin> f ` set ys" "distinct ys" "l \<notin> set ys"
    using assms(1) distinct_map by (auto simp: xs)
  show "set (butlast (if i \<noteq> length xs - 1 then xs[i := xs ! (length xs - 1)] else xs)) = set xs - {xs ! i}"
  proof (cases "i = length ys")
    case False
    then have "i < length ys" using assms(2) by (simp add: xs)
    then show ?thesis using False d by (auto simp: xs nth_append list_update_append set_update_distinct)
  qed (use d in \<open>simp add: xs\<close>)
  show "distinct (map f (butlast (if i \<noteq> length xs - 1 then xs[i := xs ! (length xs - 1)] else xs)))"
  proof (cases "i = length ys")
    case False
    then have "i < length ys" using assms(2) by (simp add: xs)
    then show ?thesis using False d by (auto simp: xs nth_append list_update_append map_update intro!: distinct_list_update)
  qed (use d in \<open>simp add: xs\<close>)
qed

lemma remove_lock_ok:
  assumes ok: "locks_ok others (trie, mgr)" and i: "i < length mgr" and s': "remove_lock (trie, mgr) i = (trie', mgr')"
  shows "locks_ok others (trie', mgr')" and "held mgr' = held mgr - {wl_bucket (mgr ! i)}"
    and "unlocked trie' = unlocked trie" and "set mgr' = set mgr - {mgr ! i}"
proof -
  let ?b = "wl_bucket (mgr ! i)"
  have wf: "wf_mgr mgr" and d: "distinct (map wl_bucket mgr)" using locks_okD(1) [OF ok] by (auto simp: wf_mgr_def)
  have t: "trie' = clear_lock_byte trie ?b"
    and m: "mgr' = butlast (if i \<noteq> length mgr - 1 then mgr[i := mgr ! (length mgr - 1)] else mgr)"
    using s' by (auto simp: remove_lock_def Let_def)
  show set: "set mgr' = set mgr - {mgr ! i}" unfolding m by (rule butlast_swap(1) [OF d i])
  have "distinct (map wl_bucket mgr')" unfolding m by (rule butlast_swap(2) [OF d i])
  then have wf': "wf_mgr mgr'" using wf set by (auto simp: wf_mgr_def)
  have inj: "inj_on wl_bucket (set mgr)" using d by (simp add: distinct_map)
  then show h: "held mgr' = held mgr - {?b}"
    using i by (simp add: held_def set inj_on_image_set_diff [of _ "set mgr"])
  show "unlocked trie' = unlocked trie"
    unfolding t clear_lock_byte_def by (rule unlocked_set_word) simp
  have b: "?b \<in> held mgr" using i by (simp add: held_def)
  then have "?b \<notin> others" using locks_okD(2) [OF ok] by auto
  then show "locks_ok others (trie', mgr')"
    using ok wf' b unfolding t locks_ok_def
    by (auto simp: h clear_lock_byte_def table_simps lock_byte_seq)
qed


lemma remove_last_lock:
  assumes "lock_byte (bucket_word trie b) = 0" and "b < length (buckets trie)"
  shows "clear_lock_byte (set_bucket_word trie b (seq_of_word (bucket_word trie b) OR 1)) b = trie"
proof -
  have m: "(0xFF :: u32) = mask 8" by code_simp
  let ?t = "set_bucket_word trie b (seq_of_word (bucket_word trie b) OR 1)"
  have seq: "seq_of_word (bucket_word trie b) = bucket_word trie b"
  proof (rule bit_word_eqI)
    fix n
    have "bit (lock_byte (bucket_word trie b)) n = bit (0 :: u32) n" using assms(1) by simp
    then show "bit (seq_of_word (bucket_word trie b)) n = bit (bucket_word trie b) n"
      unfolding lock_byte_def seq_of_word_def m by (auto simp: bit_simps bit_mask_iff dest: bit_imp_le_length)
  qed
  have "clear_lock_byte ?t b = set_bucket_word ?t b (seq_of_word (bucket_word trie b))"
    using assms(2) by (simp add: clear_lock_byte_def table_simps)
  also have "\<dots> = set_bucket_word ?t b (bucket_word trie b)" by (simp only: seq)
  also have "\<dots> = trie" using assms(2) by (simp add: set_bucket_word_def bucket_word_def)
  finally show ?thesis .
qed

lemma find_add_lock:
  "find_write_lock (add_lock mgr b) b = Some (length mgr)"
  by (simp add: find_write_lock_def add_lock_def)

lemma sub_add_total: "0 < total_refcount (mgr ! i) \<Longrightarrow> sub_total (add_total mgr i) i = mgr"
  by (cases "i < length mgr") (simp_all add: sub_total_def add_total_def list_update_beyond)

lemma find_congr: "(\<And>i. i < n \<Longrightarrow> wl_bucket (mgr' ! i) = wl_bucket (mgr ! i)) \<Longrightarrow>
    find_write_lock_before n mgr' b = find_write_lock_before n mgr b"
  by (induction n) auto

lemma find_add_sub [simp]:
  "find_write_lock (add_total mgr i) b = find_write_lock mgr b"
  "find_write_lock (sub_total mgr i) b = find_write_lock mgr b"
  "find_write_lock (add_entry_ref mgr i k) b = find_write_lock mgr b"
  "find_write_lock (sub_entry_ref mgr i k) b = find_write_lock mgr b"
  by (auto simp: find_write_lock_def add_total_def sub_total_def add_entry_ref_def sub_entry_ref_def
      nth_list_update_if intro!: find_congr)

lemma nth_add_sub_total:
  "i < length mgr \<Longrightarrow> total_refcount (add_total mgr i ! i) = total_refcount (mgr ! i) + 1"
  "i < length mgr \<Longrightarrow> total_refcount (sub_total mgr i ! i) = total_refcount (mgr ! i) - 1"
  "i < length mgr \<Longrightarrow> total_refcount (add_entry_ref mgr i k ! i) = total_refcount (mgr ! i)"
  "i < length mgr \<Longrightarrow> total_refcount (sub_entry_ref mgr i k ! i) = total_refcount (mgr ! i)"
  by (simp_all add: add_total_def sub_total_def add_entry_ref_def sub_entry_ref_def)

subsection \<open>Locking a bucket\<close>

text \<open>Releasing the lock just added gives back the state before it was taken.\<close>

lemma release_new_lock:
  assumes "lock_byte (bucket_word trie b) = 0" and "b < length (buckets trie)"
  shows "release_bucket_lock (set_bucket_word trie b (seq_of_word (bucket_word trie b) OR 1), add_lock mgr b) b = (trie, mgr)"
proof -
  have "remove_lock (set_bucket_word trie b (seq_of_word (bucket_word trie b) OR 1), sub_total (add_lock mgr b) (length mgr))
      (length mgr) = (trie, mgr)"
    using remove_last_lock [OF assms] by (simp add: remove_lock_def sub_total_def add_lock_def)
  moreover have "total_refcount (sub_total (add_lock mgr b) (length mgr) ! length mgr) = 0"
    by (simp add: sub_total_def add_lock_def)
  ultimately show ?thesis
    by (simp add: release_bucket_lock_def find_add_lock)
qed

lemma locks_ok_add_total:
  assumes "locks_ok others (trie, mgr)"
  shows "locks_ok others (trie, add_total mgr i)"
  using assms by (rule locks_ok_mgr) (simp_all add: wf_add_total locks_okD(1) [OF assms])

lemma write_lock_bucket_ok:
  assumes ok: "locks_ok others (trie, mgr)" and b: "b < length (buckets trie)"
    and step: "write_lock_bucket (trie, mgr) b = (lock, s')"
  shows "locks_ok others s'" and "unlocked (fst s') = unlocked trie"
    and "lock = None \<Longrightarrow> s' = (trie, mgr) \<and> b \<in> others"
    and "lock = Some i \<Longrightarrow> b \<notin> others \<and> held (snd s') = insert b (held mgr) \<and> release_bucket_lock s' b = (trie, mgr)"
proof -
  have goal: "locks_ok others s' \<and> unlocked (fst s') = unlocked trie \<and>
      (lock = None \<longrightarrow> s' = (trie, mgr) \<and> b \<in> others) \<and>
      (\<forall>i. lock = Some i \<longrightarrow> b \<notin> others \<and> held (snd s') = insert b (held mgr) \<and> release_bucket_lock s' b = (trie, mgr))"
  proof (cases "lock_byte (bucket_word trie b) = 0")
    case True
    note free = take_free [OF ok b True]
    have "lock = Some (length mgr)"
      and "s' = (set_bucket_word trie b (seq_of_word (bucket_word trie b) OR 1), add_lock mgr b)"
      using step by (simp_all add: write_lock_bucket_def free(1))
    then show ?thesis using free(2-4) release_new_lock [OF True b] by (simp add: add_lock_def)
  next
    case False
    note taken = take_locked [OF ok b False]
    show ?thesis
    proof (cases "find_write_lock mgr b")
      case None
      then have "b \<in> others" using taken(2) by (simp add: find_write_lock_None)
      then show ?thesis using step ok None taken by (auto simp: write_lock_bucket_def)
    next
      case (Some i)
      have i: "i < length mgr" "wl_bucket (mgr ! i) = b" using find_write_lock_Some [OF Some] by auto
      have h: "b \<in> held mgr" using Some by (rule find_write_lock_held)
      have pos: "0 < total_refcount (mgr ! i)"
        using wf_mgr_nth [OF locks_okD(1) [OF ok] i(1)] by (simp add: wf_lock_def)
      have s': "lock = Some i" "s' = (trie, add_total mgr i)"
        using step Some taken by (simp_all add: write_lock_bucket_def)
      have "release_bucket_lock s' b = (trie, mgr)"
        using pos i by (simp add: s' release_bucket_lock_def Some sub_add_total)
      then show ?thesis
        using s' h locks_ok_add_total [OF ok] locks_okD(2) [OF ok] by auto
    qed
  qed
  then show "locks_ok others s'" and "unlocked (fst s') = unlocked trie"
    and "lock = None \<Longrightarrow> s' = (trie, mgr) \<and> b \<in> others"
    and "lock = Some i \<Longrightarrow> b \<notin> others \<and> held (snd s') = insert b (held mgr) \<and> release_bucket_lock s' b = (trie, mgr)"
    by auto
qed

text \<open>
  An upgrade of a read lock succeeds exactly when the bucket was not written since it was
  read and is not locked by another thread; otherwise it changes nothing.
\<close>

lemma upgrade_bucket_lock_ok:
  assumes ok: "locks_ok others (trie, mgr)" and b: "rl_bucket rl < length (buckets trie)"
    and step: "upgrade_bucket_lock (trie, mgr) rl = (st, s')"
  shows "locks_ok others s'" and "unlocked (fst s') = unlocked trie"
    and "st = SI_OK \<or> st = SI_RETRY"
    and "st = SI_RETRY \<Longrightarrow> s' = (trie, mgr)"
    and "st = SI_OK \<longleftrightarrow> rl_bucket rl \<notin> others \<and> seq_of_word (bucket_word trie (rl_bucket rl)) = rl_seq rl"
    and "st = SI_OK \<Longrightarrow> held (snd s') = insert (rl_bucket rl) (held mgr)
        \<and> release_bucket_lock s' (rl_bucket rl) = (trie, mgr)"
proof -
  let ?b = "rl_bucket rl"
  have goal: "locks_ok others s' \<and> unlocked (fst s') = unlocked trie \<and> (st = SI_OK \<or> st = SI_RETRY) \<and>
      (st = SI_RETRY \<longrightarrow> s' = (trie, mgr)) \<and>
      (st = SI_OK \<longleftrightarrow> ?b \<notin> others \<and> seq_of_word (bucket_word trie ?b) = rl_seq rl) \<and>
      (st = SI_OK \<longrightarrow> held (snd s') = insert ?b (held mgr) \<and> release_bucket_lock s' ?b = (trie, mgr))"
  proof (cases "find_write_lock mgr ?b")
    case (Some i)
    have i: "i < length mgr" "wl_bucket (mgr ! i) = ?b" using find_write_lock_Some [OF Some] by auto
    have h: "?b \<in> held mgr" using Some by (rule find_write_lock_held)
    then have nb: "?b \<notin> others" using locks_okD(2) [OF ok] by auto
    have pos: "0 < total_refcount (mgr ! i)"
      using wf_mgr_nth [OF locks_okD(1) [OF ok] i(1)] by (simp add: wf_lock_def)
    have rel: "release_bucket_lock (trie, add_total mgr i) ?b = (trie, mgr)"
      using pos i by (simp add: release_bucket_lock_def Some sub_add_total)
    show ?thesis
      using step h nb ok locks_ok_add_total [OF ok]
      by (cases "seq_of_word (bucket_word trie ?b) = rl_seq rl") (auto simp: upgrade_bucket_lock_def Some rel)
  next
    case None
    show ?thesis
    proof (cases "lock_byte (bucket_word trie ?b) = 0")
      case True
      note free = take_free [OF ok b True]
      let ?s = "(set_bucket_word trie ?b (seq_of_word (bucket_word trie ?b) OR 1), add_lock mgr ?b)"
      have "upgrade_bucket_lock (trie, mgr) rl =
          (if seq_of_word (bucket_word trie ?b) \<noteq> rl_seq rl then (SI_RETRY, trie, mgr) else (SI_OK, ?s))"
        using b by (simp add: upgrade_bucket_lock_def None write_lock_unlocked_bucket_def free(1) table_simps
            release_new_lock [OF True b] Let_def)
      then show ?thesis
        using step free(2-4) ok release_new_lock [OF True b] by (auto simp: add_lock_def split: if_splits)
    next
      case False
      note taken = take_locked [OF ok b False]
      have "?b \<in> others" using taken(2) None by (simp add: find_write_lock_None)
      then show ?thesis
        using step ok taken(1) by (auto simp: upgrade_bucket_lock_def None write_lock_unlocked_bucket_def)
    qed
  qed
  then show "locks_ok others s'" and "unlocked (fst s') = unlocked trie"
    and "st = SI_OK \<or> st = SI_RETRY" and "st = SI_RETRY \<Longrightarrow> s' = (trie, mgr)"
    and "st = SI_OK \<longleftrightarrow> rl_bucket rl \<notin> others \<and> seq_of_word (bucket_word trie (rl_bucket rl)) = rl_seq rl"
    and "st = SI_OK \<Longrightarrow> held (snd s') = insert (rl_bucket rl) (held mgr)
        \<and> release_bucket_lock s' (rl_bucket rl) = (trie, mgr)"
    by auto
qed

subsection \<open>Releasing locks\<close>

text \<open>The references that are not to a single entry.\<close>

definition spare_refs :: "lock_mgr \<Rightarrow> nat \<Rightarrow> nat" where
  "spare_refs mgr b =
     (case find_write_lock mgr b of
        None \<Rightarrow> 0
      | Some i \<Rightarrow> total_refcount (mgr ! i) - sum_list (entry_refcounts (mgr ! i)))"

definition entry_refs :: "lock_mgr \<Rightarrow> entry_ptr \<Rightarrow> nat" where
  "entry_refs mgr p =
     (case find_write_lock mgr (fst p) of
        None \<Rightarrow> 0
      | Some i \<Rightarrow> entry_refcounts (mgr ! i) ! snd p)"

lemma sum_list_dec:
  fixes xs :: "nat list"
  assumes "k < length xs" and "0 < xs ! k"
  shows "sum_list (xs[k := xs ! k - 1]) + 1 = sum_list xs"
proof -
  have "xs ! k \<le> sum_list xs" using assms(1) by (rule elem_le_sum_list)
  then show ?thesis using assms by (simp add: sum_list_update)
qed

text \<open>A lock whose last reference goes is removed; otherwise it stays, with one reference less.\<close>

lemma drop_or_remove:
  assumes ok: "locks_ok others (trie, mgr)" and i: "i < length mgr" "wl_bucket (mgr ! i) = b"
    and upd: "wl_bucket l = b" "total_refcount l = total_refcount (mgr ! i) - 1"
    and wf: "total_refcount l \<noteq> 0 \<Longrightarrow> wf_lock l"
    and s': "s' = (if total_refcount l \<noteq> 0 then (trie, mgr[i := l]) else remove_lock (trie, mgr[i := l]) i)"
  shows "locks_ok others s'" and "unlocked (fst s') = unlocked trie"
    and "held (snd s') = (if total_refcount (mgr ! i) = 1 then held mgr - {b} else held mgr)"
proof -
  have pos: "0 < total_refcount (mgr ! i)" using wf_mgr_nth [OF locks_okD(1) [OF ok] i(1)] by (simp add: wf_lock_def)
  have goal: "locks_ok others s' \<and> unlocked (fst s') = unlocked trie \<and>
      held (snd s') = (if total_refcount (mgr ! i) = 1 then held mgr - {b} else held mgr)"
  proof (cases "total_refcount l = 0")
    case True
    have rm: "remove_lock (trie, mgr[i := l]) i = remove_lock (trie, mgr) i"
      using i upd by (auto simp: remove_lock_def Let_def butlast_list_update)
    obtain trie' mgr' where r: "remove_lock (trie, mgr) i = (trie', mgr')" by (cases "remove_lock (trie, mgr) i")
    show ?thesis
      using remove_lock_ok [OF ok i(1) r] True upd(2) pos i by (simp add: s' rm r)
  next
    case False
    have "locks_ok others (trie, mgr[i := l])"
      using ok by (rule locks_ok_mgr) (use i upd wf [OF False] locks_okD(1) [OF ok] in
        \<open>simp_all add: held_update wf_mgr_update\<close>)
    then show ?thesis using False upd i by (simp add: s' held_update)
  qed
  then show "locks_ok others s'" and "unlocked (fst s') = unlocked trie"
    and "held (snd s') = (if total_refcount (mgr ! i) = 1 then held mgr - {b} else held mgr)" by auto
qed

lemma release_bucket_lock_ok:
  assumes ok: "locks_ok others (trie, mgr)" and spare: "0 < spare_refs mgr b"
  shows "locks_ok others (release_bucket_lock (trie, mgr) b)"
    and "unlocked (fst (release_bucket_lock (trie, mgr) b)) = unlocked trie"
    and "held mgr - {b} \<subseteq> held (snd (release_bucket_lock (trie, mgr) b))"
    and "held (snd (release_bucket_lock (trie, mgr) b)) \<subseteq> held mgr"
proof -
  obtain i where f: "find_write_lock mgr b = Some i"
    and lt: "sum_list (entry_refcounts (mgr ! i)) < total_refcount (mgr ! i)"
    using spare by (auto simp: spare_refs_def split: option.splits)
  have i: "i < length mgr" "wl_bucket (mgr ! i) = b" using find_write_lock_Some [OF f] by auto
  let ?l = "(mgr ! i)\<lparr>total_refcount := total_refcount (mgr ! i) - 1\<rparr>"
  have wf: "wf_lock ?l" if "total_refcount ?l \<noteq> 0"
    using wf_mgr_nth [OF locks_okD(1) [OF ok] i(1)] lt that by (simp add: wf_lock_def)
  have "release_bucket_lock (trie, mgr) b =
      (if total_refcount ?l \<noteq> 0 then (trie, mgr[i := ?l]) else remove_lock (trie, mgr[i := ?l]) i)"
    using i by (simp add: release_bucket_lock_def f sub_total_def)
  note r = drop_or_remove [OF ok i _ _ wf this]
  show "locks_ok others (release_bucket_lock (trie, mgr) b)"
    and "unlocked (fst (release_bucket_lock (trie, mgr) b)) = unlocked trie"
    using r i by simp_all
  have "held (snd (release_bucket_lock (trie, mgr) b)) = (if total_refcount (mgr ! i) = 1 then held mgr - {b} else held mgr)"
    using r(3) i by simp
  then show "held mgr - {b} \<subseteq> held (snd (release_bucket_lock (trie, mgr) b))"
    and "held (snd (release_bucket_lock (trie, mgr) b)) \<subseteq> held mgr" by auto
qed

lemma write_unlock_ok:
  assumes ok: "locks_ok others (trie, mgr)" and ref: "0 < entry_refs mgr p" and k: "snd p < CUCKOO_BUCKET_SIZE"
  shows "locks_ok others (write_unlock (trie, mgr) p)"
    and "unlocked (fst (write_unlock (trie, mgr) p)) = unlocked trie"
    and "held (snd (write_unlock (trie, mgr) p)) \<subseteq> held mgr"
proof -
  obtain i where f: "find_write_lock mgr (fst p) = Some i" and pos: "0 < entry_refcounts (mgr ! i) ! snd p"
    using ref by (auto simp: entry_refs_def split: option.splits)
  have i: "i < length mgr" "wl_bucket (mgr ! i) = fst p" using find_write_lock_Some [OF f] by auto
  have wfi: "wf_lock (mgr ! i)" using wf_mgr_nth [OF locks_okD(1) [OF ok] i(1)] .
  let ?l = "(mgr ! i)\<lparr>entry_refcounts := (entry_refcounts (mgr ! i))[snd p := entry_refcounts (mgr ! i) ! snd p - 1],
      total_refcount := total_refcount (mgr ! i) - 1\<rparr>"
  have "sum_list (entry_refcounts ?l) + 1 = sum_list (entry_refcounts (mgr ! i))"
    using sum_list_dec [of "snd p" "entry_refcounts (mgr ! i)"] wfi k pos by (simp add: wf_lock_def)
  then have wf: "wf_lock ?l" if "total_refcount ?l \<noteq> 0" using wfi that by (auto simp: wf_lock_def)
  have "write_unlock (trie, mgr) p =
      (if total_refcount ?l \<noteq> 0 then (trie, mgr[i := ?l]) else remove_lock (trie, mgr[i := ?l]) i)"
    using i by (simp add: write_unlock_def f sub_total_def sub_entry_ref_def)
  note r = drop_or_remove [OF ok i _ _ wf this]
  show "locks_ok others (write_unlock (trie, mgr) p)"
    and "unlocked (fst (write_unlock (trie, mgr) p)) = unlocked trie"
    and "held (snd (write_unlock (trie, mgr) p)) \<subseteq> held mgr"
    using r i by auto
qed

text \<open>At the end of an operation every lock of the thread is free again.\<close>

lemma clear_all_words:
  assumes "\<forall>l\<in>set mgr. wl_bucket l < length (buckets trie)"
  shows "bucket_word (foldl (\<lambda>trie l. clear_lock_byte trie (wl_bucket l)) trie mgr) b =
      (if b \<in> held mgr then seq_of_word (bucket_word trie b) else bucket_word trie b)"
    and "unlocked (foldl (\<lambda>trie l. clear_lock_byte trie (wl_bucket l)) trie mgr) = unlocked trie"
    and "length (buckets (foldl (\<lambda>trie l. clear_lock_byte trie (wl_bucket l)) trie mgr)) = length (buckets trie)"
  using assms
proof (induction mgr arbitrary: trie)
  case (Cons l mgr)
  { case 1 then show ?case using Cons.IH(1) [of "clear_lock_byte trie (wl_bucket l)"]
      by (auto simp: clear_lock_byte_def table_simps) }
  { case 2 then show ?case using Cons.IH(2) [of "clear_lock_byte trie (wl_bucket l)"]
      by (simp add: clear_lock_byte_def unlocked_set_word table_simps) }
  { case 3 then show ?case using Cons.IH(3) [of "clear_lock_byte trie (wl_bucket l)"] by simp }
qed simp_all

lemma release_all_locks_ok:
  assumes ok: "locks_ok others (trie, mgr)"
  shows "locks_ok others (release_all_locks (trie, mgr))"
    and "unlocked (fst (release_all_locks (trie, mgr))) = unlocked trie"
    and "snd (release_all_locks (trie, mgr)) = []"
proof -
  have b: "\<forall>l\<in>set mgr. wl_bucket l < length (buckets trie)"
    using locks_okD(3) [OF ok] by (auto simp: held_def)
  note c = clear_all_words [OF b]
  show "locks_ok others (release_all_locks (trie, mgr))"
    using ok by (auto simp: release_all_locks_def locks_ok_def c wf_mgr_def lock_byte_seq)
  show "unlocked (fst (release_all_locks (trie, mgr))) = unlocked trie"
    and "snd (release_all_locks (trie, mgr)) = []"
    by (simp_all add: release_all_locks_def c)
qed

subsection \<open>Locking an entry\<close>

lemma add_entry_total:
  "i < length mgr \<Longrightarrow> add_total (add_entry_ref mgr i k) i =
    mgr[i := (mgr ! i)\<lparr>entry_refcounts := (entry_refcounts (mgr ! i))[k := entry_refcounts (mgr ! i) ! k + 1],
      total_refcount := total_refcount (mgr ! i) + 1\<rparr>]"
  "i < length mgr \<Longrightarrow> add_entry_ref (add_total mgr i) i k =
    mgr[i := (mgr ! i)\<lparr>entry_refcounts := (entry_refcounts (mgr ! i))[k := entry_refcounts (mgr ! i) ! k + 1],
      total_refcount := total_refcount (mgr ! i) + 1\<rparr>]"
  "i < length mgr \<Longrightarrow> sub_total (sub_entry_ref mgr i k) i =
    mgr[i := (mgr ! i)\<lparr>entry_refcounts := (entry_refcounts (mgr ! i))[k := entry_refcounts (mgr ! i) ! k - 1],
      total_refcount := total_refcount (mgr ! i) - 1\<rparr>]"
  by (cases "mgr ! i"; simp add: add_total_def sub_total_def add_entry_ref_def sub_entry_ref_def)+

lemma four_cells: "k < CUCKOO_BUCKET_SIZE \<Longrightarrow> k = 0 \<or> k = 1 \<or> k = 2 \<or> k = 3"
  by auto

lemma wf_add_entry_total:
  assumes "wf_mgr mgr" and "i < length mgr" and "k < CUCKOO_BUCKET_SIZE"
  shows "wf_mgr (add_total (add_entry_ref mgr i k) i)"
  unfolding add_entry_total(1) [OF assms(2)]
  by (rule wf_mgr_update) (use assms wf_mgr_nth [OF assms(1,2)] in \<open>simp_all add: wf_lock_def sum_list_update\<close>)

lemma unlock_entry_total:
  assumes i: "i < length mgr" and wf: "wf_lock (mgr ! i)" and k: "k < CUCKOO_BUCKET_SIZE"
  shows "sub_total (sub_entry_ref (add_total (add_entry_ref mgr i k) i) i k) i = mgr"
  unfolding add_entry_total(1) [OF i]
  using i wf k by (subst add_entry_total(3)) (simp_all add: wf_lock_def)

lemma write_lock_entry_ok:
  assumes ok: "locks_ok others (trie, mgr)" and k: "snd p < CUCKOO_BUCKET_SIZE"
  shows "locks_ok others (trie, write_lock_entry_in_locked_bucket mgr p)"
    and "held (write_lock_entry_in_locked_bucket mgr p) = held mgr"
proof -
  show h: "held (write_lock_entry_in_locked_bucket mgr p) = held mgr"
    by (simp add: write_lock_entry_in_locked_bucket_def split: option.split)
  have "wf_mgr (write_lock_entry_in_locked_bucket mgr p)"
  proof (cases "find_write_lock mgr (fst p)")
    case (Some i)
    have i: "i < length mgr" using find_write_lock_Some [OF Some] by simp
    have "add_entry_ref (add_total mgr i) i (snd p) = add_total (add_entry_ref mgr i (snd p)) i"
      using i by (simp add: add_entry_total)
    then show ?thesis
      using wf_add_entry_total [OF locks_okD(1) [OF ok] i k] by (simp add: write_lock_entry_in_locked_bucket_def Some)
  qed (use locks_okD(1) [OF ok] in \<open>simp add: write_lock_entry_in_locked_bucket_def\<close>)
  then show "locks_ok others (trie, write_lock_entry_in_locked_bucket mgr p)"
    using locks_ok_mgr [OF ok h] by simp
qed

text \<open>
  Upgrading the lock of an entry read earlier: the lock is taken exactly when the bucket
  was not written since; failing leaves the state alone, and unlocking undoes it.
\<close>

lemma upgrade_lock_ok:
  assumes ok: "locks_ok others (trie, mgr)" and b: "fst (last_pos c) < length (buckets trie)"
    and k: "snd (last_pos c) < CUCKOO_BUCKET_SIZE" and step: "upgrade_lock (trie, mgr) c = (st, s')"
  shows "locks_ok others s'" and "unlocked (fst s') = unlocked trie"
    and "st = SI_OK \<or> st = SI_RETRY" and "st = SI_RETRY \<Longrightarrow> s' = (trie, mgr)"
    and "st = SI_OK \<longleftrightarrow> fst (last_pos c) \<notin> others \<and>
      seq_of_word (bucket_word trie (fst (last_pos c))) = seq_of_word (last_seq c)"
    and "st = SI_OK \<Longrightarrow> held (snd s') = insert (fst (last_pos c)) (held mgr) \<and> write_unlock s' (last_pos c) = (trie, mgr)"
proof -
  let ?b = "fst (last_pos c)" and ?k = "snd (last_pos c)"
  let ?same = "seq_of_word (bucket_word trie ?b) = seq_of_word (last_seq c)"
  have goal: "locks_ok others s' \<and> unlocked (fst s') = unlocked trie \<and> (st = SI_OK \<or> st = SI_RETRY) \<and>
      (st = SI_RETRY \<longrightarrow> s' = (trie, mgr)) \<and> (st = SI_OK \<longleftrightarrow> ?b \<notin> others \<and> ?same) \<and>
      (st = SI_OK \<longrightarrow> held (snd s') = insert ?b (held mgr) \<and> write_unlock s' (last_pos c) = (trie, mgr))"
  proof (cases "lock_byte (bucket_word trie ?b) = 0")
    case True
    note free = take_free [OF ok b True]
    let ?t = "set_bucket_word trie ?b (seq_of_word (bucket_word trie ?b) OR 1)"
    let ?m = "add_entry_ref (add_lock mgr ?b) (length mgr) ?k"
    have seq: "read_bucket_seq ?t ?b = seq_of_word (bucket_word trie ?b)"
      using b by (simp add: read_bucket_seq_eq table_simps)
    have step': "(st, s') = (if ?same then (SI_OK, ?t, ?m) else (SI_RETRY, trie, mgr))"
      unfolding step [symmetric]
      by (simp add: upgrade_lock_def free(1) seq release_new_lock [OF True b] Let_def)
    have wf: "wf_mgr ?m"
      using locks_okD(1) [OF free(3)] four_cells [OF k] unfolding add_entry_ref_def
      by (intro wf_mgr_update) (auto simp: add_lock_def wf_lock_def)
    have "locks_ok others (?t, ?m)" using free(3) by (rule locks_ok_mgr) (simp_all add: wf)
    moreover have "write_unlock (?t, ?m) (last_pos c) = (trie, mgr)"
    proof -
      have "sub_total (sub_entry_ref ?m (length mgr) ?k) (length mgr) ! length mgr =
          \<lparr>wl_bucket = ?b, entry_refcounts = [0, 0, 0, 0], total_refcount = 0\<rparr>"
        using four_cells [OF k] by (auto simp: sub_total_def sub_entry_ref_def add_entry_ref_def add_lock_def)
      moreover have "butlast (sub_total (sub_entry_ref ?m (length mgr) ?k) (length mgr)) = mgr"
        by (simp add: sub_total_def sub_entry_ref_def add_entry_ref_def add_lock_def butlast_list_update)
      moreover have "length ?m = Suc (length mgr)" by (simp add: add_lock_def)
      ultimately show ?thesis
        using remove_last_lock [OF True b] by (simp add: write_unlock_def find_add_lock remove_lock_def)
    qed
    ultimately show ?thesis
      using step' ok free(2,4) by (auto simp: add_lock_def split: if_splits)
  next
    case False
    note taken = take_locked [OF ok b False]
    show ?thesis
    proof (cases "find_write_lock mgr ?b")
      case None
      then have "?b \<in> others" using taken(2) by (simp add: find_write_lock_None)
      then show ?thesis using step ok taken(1) None by (auto simp: upgrade_lock_def)
    next
      case (Some i)
      have i: "i < length mgr" "wl_bucket (mgr ! i) = ?b" using find_write_lock_Some [OF Some] by auto
      have h: "?b \<in> held mgr" using Some by (rule find_write_lock_held)
      then have nb: "?b \<notin> others" using locks_okD(2) [OF ok] by auto
      have wfi: "wf_lock (mgr ! i)" using wf_mgr_nth [OF locks_okD(1) [OF ok] i(1)] .
      let ?m = "add_total (add_entry_ref mgr i ?k) i"
      have "locks_ok others (trie, ?m)"
        using ok by (rule locks_ok_mgr) (simp_all add: wf_add_entry_total locks_okD(1) [OF ok] i k)
      moreover have "write_unlock (trie, ?m) (last_pos c) = (trie, mgr)"
        using unlock_entry_total [OF i(1) wfi k] wfi by (simp add: write_unlock_def Some wf_lock_def)
      moreover have "(st, s') = (if ?same then (SI_OK, trie, ?m) else (SI_RETRY, trie, mgr))"
        unfolding step [symmetric] by (simp add: upgrade_lock_def Some taken(1))
      ultimately show ?thesis using h nb ok by (auto split: if_splits)
    qed
  qed
  then show "locks_ok others s'" and "unlocked (fst s') = unlocked trie"
    and "st = SI_OK \<or> st = SI_RETRY" and "st = SI_RETRY \<Longrightarrow> s' = (trie, mgr)"
    and "st = SI_OK \<longleftrightarrow> fst (last_pos c) \<notin> others \<and>
      seq_of_word (bucket_word trie (fst (last_pos c))) = seq_of_word (last_seq c)"
    and "st = SI_OK \<Longrightarrow> held (snd s') = insert (fst (last_pos c)) (held mgr) \<and> write_unlock s' (last_pos c) = (trie, mgr)"
    by auto
qed

text \<open>Relocations move the references to an entry to its new cell.\<close>

lemma move_entry_lock_ok:
  assumes ok: "locks_ok others (trie, mgr)" and spare: "0 < spare_refs mgr (fst src)"
    and k: "snd src < CUCKOO_BUCKET_SIZE" "snd dst < CUCKOO_BUCKET_SIZE" and ne: "fst src \<noteq> fst dst"
  shows "locks_ok others (trie, move_entry_lock mgr dst src)" and "held (move_entry_lock mgr dst src) = held mgr"
proof -
  show h: "held (move_entry_lock mgr dst src) = held mgr"
    by (simp add: move_entry_lock_def Let_def split: option.split)
  have "wf_mgr (move_entry_lock mgr dst src)"
  proof (cases "find_write_lock mgr (fst dst)")
    case dst: (Some d)
    obtain s where f: "find_write_lock mgr (fst src) = Some s"
      and lt: "sum_list (entry_refcounts (mgr ! s)) < total_refcount (mgr ! s)"
      using spare by (auto simp: spare_refs_def split: option.splits)
    have sd: "s < length mgr" "d < length mgr" "s \<noteq> d"
      using find_write_lock_Some [OF f] find_write_lock_Some [OF dst] ne by auto
    show ?thesis
    proof (cases "entry_refcounts (mgr ! s) ! snd src = 0")
      case False
      let ?m = "sub_total (sub_entry_ref mgr s (snd src)) s"
      have wfs: "wf_lock (mgr ! s)" using wf_mgr_nth [OF locks_okD(1) [OF ok] sd(1)] .
      have dec: "sum_list ((entry_refcounts (mgr ! s))[snd src := entry_refcounts (mgr ! s) ! snd src - 1]) + 1 =
          sum_list (entry_refcounts (mgr ! s))"
        using wfs False k by (intro sum_list_dec) (simp_all add: wf_lock_def)
      have "wf_mgr ?m"
        unfolding add_entry_total(3) [OF sd(1)]
        by (rule wf_mgr_update) (use locks_okD(1) [OF ok] wfs lt dec in \<open>auto simp: wf_lock_def\<close>)
      then have "wf_mgr (add_total (add_entry_ref ?m d (snd dst)) d)"
        using sd k by (intro wf_add_entry_total) simp_all
      then show ?thesis using False by (simp add: move_entry_lock_def f dst Let_def)
    qed (use locks_okD(1) [OF ok] in \<open>simp add: move_entry_lock_def f dst\<close>)
  qed (use locks_okD(1) [OF ok] in \<open>simp add: move_entry_lock_def split: option.split\<close>)
  then show "locks_ok others (trie, move_entry_lock mgr dst src)" using locks_ok_mgr [OF ok h] by simp
qed

end
