(* ===== verification/Threads.thy ===== *)
theory Threads
  imports Locks
begin

text \<open>
  Several threads over one trie: each owns a lock manager, and a step is one call of the
  interface of \<open>atomics.h\<close> by one of them. The client rules are the guards: a lock is
  released by a thread that has a reference to it, and an entry is written by a thread
  that holds the lock of its bucket. The theory shows that the bucket locks then exclude
  each other and that no thread changes an entry of a bucket another one has locked.
\<close>

subsection \<open>The steps\<close>

type_synonym threads = "cuckoo_trie \<times> lock_mgr list"

inductive lock_step :: "nat \<Rightarrow> threads \<Rightarrow> threads \<Rightarrow> bool" where
  step_lock: "i < length ms \<Longrightarrow> b < length (buckets t) \<Longrightarrow>
    write_lock_bucket (t, ms ! i) b = (r, t', m) \<Longrightarrow> lock_step i (t, ms) (t', ms[i := m])"
| step_upgrade: "i < length ms \<Longrightarrow> rl_bucket rl < length (buckets t) \<Longrightarrow>
    upgrade_bucket_lock (t, ms ! i) rl = (st, t', m) \<Longrightarrow> lock_step i (t, ms) (t', ms[i := m])"
| step_upgrade_entry: "i < length ms \<Longrightarrow> fst (last_pos c) < length (buckets t) \<Longrightarrow>
    snd (last_pos c) < CUCKOO_BUCKET_SIZE \<Longrightarrow>
    upgrade_lock (t, ms ! i) c = (st, t', m) \<Longrightarrow> lock_step i (t, ms) (t', ms[i := m])"
| step_lock_entry: "i < length ms \<Longrightarrow> snd p < CUCKOO_BUCKET_SIZE \<Longrightarrow>
    lock_step i (t, ms) (t, ms[i := write_lock_entry_in_locked_bucket (ms ! i) p])"
| step_move: "i < length ms \<Longrightarrow> 0 < spare_refs (ms ! i) (fst src) \<Longrightarrow> snd src < CUCKOO_BUCKET_SIZE \<Longrightarrow>
    snd dst < CUCKOO_BUCKET_SIZE \<Longrightarrow> fst src \<noteq> fst dst \<Longrightarrow>
    lock_step i (t, ms) (t, ms[i := move_entry_lock (ms ! i) dst src])"
| step_release: "i < length ms \<Longrightarrow> 0 < spare_refs (ms ! i) b \<Longrightarrow>
    release_bucket_lock (t, ms ! i) b = (t', m) \<Longrightarrow> lock_step i (t, ms) (t', ms[i := m])"
| step_unlock: "i < length ms \<Longrightarrow> 0 < entry_refs (ms ! i) p \<Longrightarrow> snd p < CUCKOO_BUCKET_SIZE \<Longrightarrow>
    write_unlock (t, ms ! i) p = (t', m) \<Longrightarrow> lock_step i (t, ms) (t', ms[i := m])"
| step_release_all: "i < length ms \<Longrightarrow>
    release_all_locks (t, ms ! i) = (t', m) \<Longrightarrow> lock_step i (t, ms) (t', ms[i := m])"
| step_write: "i < length ms \<Longrightarrow> bucket_write_locked (ms ! i) (fst p) \<Longrightarrow>
    lock_step i (t, ms) (snd (write_entry t p e), ms)"

inductive_cases lock_stepE: "lock_step i s s'"

inductive lock_run :: "threads \<Rightarrow> threads \<Rightarrow> bool" for s0 where
  run_start: "lock_run s0 s0"
| run_step: "lock_run s0 s \<Longrightarrow> lock_step i s s' \<Longrightarrow> lock_run s0 s'"

text \<open>What the other threads hold, and the invariant of all threads together.\<close>

definition others_hold :: "lock_mgr list \<Rightarrow> nat \<Rightarrow> nat set" where
  "others_hold ms i = (\<Union>j\<in>{..<length ms} - {i}. held (ms ! j))"

definition threads_ok :: "threads \<Rightarrow> bool" where
  "threads_ok s \<longleftrightarrow> (let (t, ms) = s in \<forall>i<length ms. locks_ok (others_hold ms i) (t, ms ! i))"

definition no_locks :: "nat \<Rightarrow> cuckoo_trie \<Rightarrow> threads" where
  "no_locks n t = (t, replicate n init_lock_mgr)"

subsection \<open>The invariant is kept\<close>

lemma others_hold_update [simp]: "others_hold (ms[i := m]) i = others_hold ms i"
  by (auto simp: others_hold_def)

lemma others_hold_other:
  assumes "i < length ms" and "j < length ms" and "j \<noteq> i"
  shows "others_hold (ms[i := m]) j = held m \<union> (\<Union>k\<in>{..<length ms} - {i, j}. held (ms ! k))"
  using assms by (auto simp: others_hold_def nth_list_update split: if_splits)

lemma all_held:
  assumes "j < length ms"
  shows "held (ms ! j) \<union> others_hold ms j = (\<Union>k<length ms. held (ms ! k))"
  using assms by (auto simp: others_hold_def)

text \<open>A thread that keeps its own invariant against the others keeps theirs.\<close>

lemma threads_ok_update:
  assumes ok: "threads_ok (t, ms)" and i: "i < length ms"
    and own: "locks_ok (others_hold ms i) (t', m)" and len: "length (buckets t') = length (buckets t)"
  shows "threads_ok (t', ms[i := m])"
  unfolding threads_ok_def prod.case Let_def
proof (intro allI impI)
  fix j assume "j < length (ms[i := m])"
  then have j: "j < length ms" by simp
  show "locks_ok (others_hold (ms[i := m]) j) (t', ms[i := m] ! j)"
  proof (cases "j = i")
    case True
    then show ?thesis using own i by simp
  next
    case False
    have okj: "locks_ok (others_hold ms j) (t, ms ! j)" using ok j by (simp add: threads_ok_def)
    have sub: "held (ms ! j) \<subseteq> others_hold ms i" using j False by (auto simp: others_hold_def)
    have oth: "(\<Union>k\<in>{..<length ms} - {i, j}. held (ms ! k)) \<subseteq> others_hold ms j \<inter> others_hold ms i"
      by (auto simp: others_hold_def)
    have all: "held (ms ! j) \<union> others_hold (ms[i := m]) j = held m \<union> others_hold ms i"
      using all_held [of j "ms[i := m]"] all_held [of i "ms[i := m]"] i j False by simp
    show ?thesis
      unfolding locks_ok_def prod.case Let_def
    proof (intro conjI)
      show "wf_mgr (ms[i := m] ! j)" using locks_okD(1) [OF okj] False by simp
      show "held (ms[i := m] ! j) \<inter> others_hold (ms[i := m]) j = {}"
        using sub oth locks_okD(2) [OF own] locks_okD(2) [OF okj] False
        by (auto simp: others_hold_other [OF i j False])
      show "held (ms[i := m] ! j) \<union> others_hold (ms[i := m]) j \<subseteq> {..<length (buckets t')}"
        using own False by (simp add: all locks_ok_def)
      show "\<forall>b<length (buckets t'). lock_byte (bucket_word t' b) =
          (if b \<in> held (ms[i := m] ! j) \<union> others_hold (ms[i := m]) j then 1 else 0)"
        using own False by (simp add: all locks_ok_def)
    qed
  qed
qed

lemma threads_ok_call:
  assumes ok: "threads_ok (t, ms)" and i: "i < length ms"
    and own: "locks_ok (others_hold ms i) s'" and un: "unlocked (fst s') = unlocked t"
  shows "threads_ok (fst s', ms[i := snd s'])"
  using threads_ok_update [OF ok i, of "fst s'" "snd s'"] own unlocked_eqD(1) [OF un] by simp

lemma length_write_entry [simp]: "length (buckets (snd (write_entry t p e))) = length (buckets t)"
  by (simp add: write_entry_def Let_def table_simps)

lemma lock_byte_write_entry [simp]:
  "lock_byte (bucket_word (snd (write_entry t p e)) b) = lock_byte (bucket_word t b)"
  using lock_byte_add by (simp add: write_entry_def Let_def table_simps)

lemma locks_ok_write_entry: "locks_ok others (t, m) \<Longrightarrow> locks_ok others (snd (write_entry t p e), m)"
  by (simp add: locks_ok_def)

lemma locks_ok_threads: "threads_ok (t, ms) \<Longrightarrow> i < length ms \<Longrightarrow> locks_ok (others_hold ms i) (t, ms ! i)"
  by (simp add: threads_ok_def)

lemma lock_step_ok:
  assumes step: "lock_step i s s'" and ok: "threads_ok s"
  shows "threads_ok s'"
  using step ok
proof (induction rule: lock_step.induct)
  case (step_lock i ms b t r t' m)
  note l = write_lock_bucket_ok [OF locks_ok_threads [OF step_lock(4,1)] step_lock(2,3)]
  show ?case using threads_ok_call [OF step_lock(4,1) l(1,2)] by simp
next
  case (step_upgrade i ms rl t st t' m)
  note l = upgrade_bucket_lock_ok [OF locks_ok_threads [OF step_upgrade(4,1)] step_upgrade(2,3)]
  show ?case using threads_ok_call [OF step_upgrade(4,1) l(1,2)] by simp
next
  case (step_upgrade_entry i ms c t st t' m)
  note l = upgrade_lock_ok [OF locks_ok_threads [OF step_upgrade_entry(5,1)] step_upgrade_entry(2,3,4)]
  show ?case using threads_ok_call [OF step_upgrade_entry(5,1) l(1,2)] by simp
next
  case (step_lock_entry i ms p t)
  note l = write_lock_entry_ok [OF locks_ok_threads [OF step_lock_entry(3,1)] step_lock_entry(2)]
  show ?case using threads_ok_call [OF step_lock_entry(3,1) l(1)] by simp
next
  case (step_move i ms src dst t)
  note l = move_entry_lock_ok [OF locks_ok_threads [OF step_move(6,1)] step_move(2-5)]
  show ?case using threads_ok_call [OF step_move(6,1) l(1)] by simp
next
  case (step_release i ms b t t' m)
  note l = release_bucket_lock_ok [OF locks_ok_threads [OF step_release(4,1)] step_release(2), unfolded step_release(3)]
  show ?case using threads_ok_call [OF step_release(4,1) l(1,2)] by simp
next
  case (step_unlock i ms p t t' m)
  note l = write_unlock_ok [OF locks_ok_threads [OF step_unlock(5,1)] step_unlock(2,3), unfolded step_unlock(4)]
  show ?case using threads_ok_call [OF step_unlock(5,1) l(1,2)] by simp
next
  case (step_release_all i ms t t' m)
  note l = release_all_locks_ok [OF locks_ok_threads [OF step_release_all(3,1)], unfolded step_release_all(2)]
  show ?case using threads_ok_call [OF step_release_all(3,1) l(1,2)] by simp
next
  case (step_write i ms p t e)
  then show ?case by (simp add: threads_ok_def locks_ok_write_entry)
qed

lemma lock_run_ok: "lock_run s0 s \<Longrightarrow> threads_ok s0 \<Longrightarrow> threads_ok s"
  by (induction rule: lock_run.induct) (auto intro: lock_step_ok)

lemma no_locks_ok:
  assumes "\<forall>b<length (buckets t). lock_byte (bucket_word t b) = 0"
  shows "threads_ok (no_locks n t)"
  using assms by (auto simp: threads_ok_def no_locks_def locks_ok_def others_hold_def init_lock_mgr_def wf_mgr_def)

text \<open>Two threads never hold the same bucket, and the lock byte tells whether some thread holds it.\<close>

lemma threads_exclusive:
  assumes ok: "threads_ok (t, ms)" and "i < length ms" "j < length ms" "i \<noteq> j"
  shows "held (ms ! i) \<inter> held (ms ! j) = {}"
  using locks_okD(2) [OF locks_ok_threads [OF ok assms(2)]] assms(3,4) by (auto simp: others_hold_def)

lemma threads_lock_byte:
  assumes ok: "threads_ok (t, ms)" and b: "b < length (buckets t)" and ne: "ms \<noteq> []"
  shows "lock_byte (bucket_word t b) = (if \<exists>i<length ms. b \<in> held (ms ! i) then 1 else 0)"
proof -
  have 0: "0 < length ms" using ne by simp
  have "b \<in> held (ms ! 0) \<union> others_hold ms 0 \<longleftrightarrow> (\<exists>i<length ms. b \<in> held (ms ! i))"
    unfolding all_held [OF 0] by auto
  then show ?thesis using locks_okD(4) [OF locks_ok_threads [OF ok 0] b] by simp
qed

subsection \<open>The cells of a locked bucket\<close>

lemma cells_write_entry:
  "b \<noteq> fst p \<Longrightarrow> cells (buckets (snd (write_entry t p e)) ! b) = cells (buckets t ! b)"
  by (simp add: write_entry_def Let_def set_cell_def set_bucket_word_def)

lemma seq_write_entry:
  "b \<noteq> fst p \<Longrightarrow> bucket_word (snd (write_entry t p e)) b = bucket_word t b"
  by (simp add: write_entry_def Let_def table_simps)

text \<open>A step of one thread keeps the entries and the sequence number of a bucket that another holds.\<close>

lemma lock_step_unlocked:
  assumes "lock_step i (t, ms) (t', ms')" and ok: "threads_ok (t, ms)"
  shows "i < length ms \<and> (unlocked t' = unlocked t \<or> (\<exists>p e. t' = snd (write_entry t p e) \<and> fst p \<in> held (ms ! i)))"
  using assms(1)
proof (cases rule: lock_step.cases)
  case (step_lock b r m)
  then show ?thesis using write_lock_bucket_ok(2) [OF locks_ok_threads [OF ok] step_lock(3,4)] by simp
next
  case (step_upgrade rl st m)
  then show ?thesis using upgrade_bucket_lock_ok(2) [OF locks_ok_threads [OF ok] step_upgrade(3,4)] by simp
next
  case (step_upgrade_entry c st m)
  then show ?thesis using upgrade_lock_ok(2) [OF locks_ok_threads [OF ok] step_upgrade_entry(3,4,5)] by simp
next
  case (step_release b m)
  then show ?thesis
    using release_bucket_lock_ok(2) [OF locks_ok_threads [OF ok step_release(2)] step_release(3)] by simp
next
  case (step_unlock p m)
  then show ?thesis
    using write_unlock_ok(2) [OF locks_ok_threads [OF ok step_unlock(2)] step_unlock(3,4)] by simp
next
  case (step_release_all m)
  then show ?thesis using release_all_locks_ok(2) [OF locks_ok_threads [OF ok step_release_all(2)]] by simp
next
  case (step_write p e)
  then show ?thesis unfolding bucket_write_locked_iff by blast
qed simp_all

lemma bucket_word_split:
  assumes "seq_of_word v = seq_of_word w" and "lock_byte v = lock_byte w"
  shows "v = w"
proof -
  have "x = (x AND NOT m) OR (x AND m)" for x m :: u32
    by (rule bit_word_eqI) (auto simp: bit_and_iff bit_or_iff bit_not_iff dest: bit_imp_le_length)
  then have "x = seq_of_word x OR lock_byte x" for x unfolding seq_of_word_def lock_byte_def .
  then show ?thesis using assms by metis
qed

lemma lock_step_frame:
  assumes step: "lock_step i (t, ms) (t', ms')" and ok: "threads_ok (t, ms)"
    and j: "j < length ms" "j \<noteq> i" and b: "b \<in> held (ms ! j)"
  shows "buckets t' ! b = buckets t ! b" and "lock_byte (bucket_word t' b) = 1"
    and "b \<in> held (ms' ! j)" and "b \<notin> held (ms' ! i)"
proof -
  have bl: "b < length (buckets t)" using locks_okD(3) [OF locks_ok_threads [OF ok j(1)]] b by simp
  have i: "i < length ms" using lock_step_unlocked [OF step ok] by simp
  have nb: "b \<notin> held (ms ! i)" using threads_exclusive [OF ok i j(1)] j(2) b by auto
  have "(unlocked t' = unlocked t) \<or> (\<exists>p e. t' = snd (write_entry t p e) \<and> b \<noteq> fst p)"
    using lock_step_unlocked [OF step ok] nb by auto
  then have cells: "cells (buckets t' ! b) = cells (buckets t ! b)"
    and seq: "seq_of_word (bucket_word t' b) = seq_of_word (bucket_word t b)"
    and len: "length (buckets t') = length (buckets t)"
    using unlocked_eqD(2,3) [of t' t] unlocked_eqD(1) [of t' t] bl
    by (auto simp: cells_write_entry seq_write_entry)
  have others: "ms' ! j = ms ! j" "length ms' = length ms"
    using step j(2) by (cases rule: lock_step.cases; simp)+
  then show bj: "b \<in> held (ms' ! j)" using b by simp
  have ok': "threads_ok (t', ms')" by (rule lock_step_ok [OF step ok])
  show "b \<notin> held (ms' ! i)" using threads_exclusive [OF ok', of i j] bj i j others by auto
  have "ms \<noteq> []" "ms' \<noteq> []" using j(1) others(2) by auto
  then have "lock_byte (bucket_word t b) = 1" and lock': "lock_byte (bucket_word t' b) = 1"
    using threads_lock_byte [OF ok bl] threads_lock_byte [OF ok', of b] b bj j(1) others(2) bl len by auto
  then have "bucket_word t' b = bucket_word t b" using bucket_word_split [OF seq] by simp
  then show "buckets t' ! b = buckets t ! b" using cells by (simp add: bucket_word_def)
  show "lock_byte (bucket_word t' b) = 1" by (rule lock')
qed

end
