(* ===== verification/Table.thy ===== *)
theory Table
  imports Threads
begin

text \<open>
  The hash table operations of \<open>main.c\<close>: updating, removing and adding entries, and the
  search for a path of relocations that frees a cell. The abstract content of the table is
  the multiset of its entries with their primary bucket, the secondary flag erased; the
  lemmas show what each operation does to it.
\<close>

subsection \<open>Updating and removing entries\<close>

definition update_entry_slow_path ::
    "cuckoo_trie \<Rightarrow> ct_entry_local_copy \<Rightarrow> ct_entry \<Rightarrow> (ct_entry_local_copy \<times> cuckoo_trie) option" where
  "update_entry_slow_path trie local_copy new_value = do {
     found \<leftarrow> find_entry_in_pair_by_color trie (lc_primary_bucket local_copy)
       (ucast (entry_tag (lc_value local_copy))) (ucast (entry_color (lc_value local_copy)));
     let cur_entry_pos = last_pos found;
     let adjusted_new_value = new_value\<lparr>parent_color_and_flags :=
       parent_color_and_flags new_value AND NOT FLAG_SECONDARY_BUCKET\<rparr>;
     let adjusted_new_value = adjusted_new_value\<lparr>parent_color_and_flags :=
       parent_color_and_flags adjusted_new_value OR
       (parent_color_and_flags (cell trie cur_entry_pos) AND FLAG_SECONDARY_BUCKET)\<rparr>;
     let (new_seq, trie) = write_entry trie cur_entry_pos adjusted_new_value;
     Some (local_copy\<lparr>lc_value := adjusted_new_value, last_pos := cur_entry_pos, last_seq := new_seq\<rparr>, trie)
   }"

definition update_entry ::
    "cuckoo_trie \<Rightarrow> ct_entry_local_copy \<Rightarrow> ct_entry \<Rightarrow> (ct_entry_local_copy \<times> cuckoo_trie) option" where
  "update_entry trie local_copy new_value =
     (let entry_didnt_move = validate_entry trie local_copy
      in if entry_didnt_move
         then let (new_seq, trie) = write_entry trie (last_pos local_copy) new_value
              in Some (local_copy\<lparr>lc_value := new_value, last_seq := new_seq\<rparr>, trie)
         else update_entry_slow_path trie local_copy new_value)"

definition remove_entry_by_address :: "cuckoo_trie \<Rightarrow> entry_ptr \<Rightarrow> cuckoo_trie" where
  "remove_entry_by_address trie entry_pos = snd (write_entry trie entry_pos unused_entry)"

definition remove_entry_by_value :: "cuckoo_trie \<Rightarrow> ct_entry \<Rightarrow> u64 \<Rightarrow> cuckoo_trie option" where
  "remove_entry_by_value trie entry prefix_hash = do {
     found \<leftarrow> find_entry_in_pair_by_color trie (hash_to_bucket prefix_hash) (hash_to_tag prefix_hash)
       (ucast (entry_color entry));
     Some (remove_entry_by_address trie (last_pos found))
   }"

definition mark_entry_dirty :: "cuckoo_trie \<Rightarrow> ct_entry_local_copy \<Rightarrow> (ct_entry_local_copy \<times> cuckoo_trie) option" where
  "mark_entry_dirty trie local_copy = update_entry trie local_copy (entry_set_dirty (lc_value local_copy))"

definition mark_entry_clean :: "cuckoo_trie \<Rightarrow> ct_entry_local_copy \<Rightarrow> (ct_entry_local_copy \<times> cuckoo_trie) option" where
  "mark_entry_clean trie local_copy = update_entry trie local_copy (entry_set_clean (lc_value local_copy))"

subsection \<open>An unused color\<close>

definition color_bits :: "ct_entry list \<Rightarrow> ct_entry list \<Rightarrow> u64" where
  "color_bits c1 c2 =
     foldl (\<lambda>used_colors i. used_colors OR push_bit (unat (entry_color (c1 ! i))) 1
                                        OR push_bit (unat (entry_color (c2 ! i))) 1) 0 [0, 1, 2, 3]"

definition unused_color_in_pair :: "ct_bucket \<Rightarrow> ct_bucket \<Rightarrow> u8" where
  "unused_color_in_pair bucket1 bucket2 =
     (let used_colors = color_bits (cells bucket1) (cells bucket2) in of_nat (ctz (NOT used_colors)))"

text \<open>The lane code: four lanes per bucket with AVX2, the eight cells at once with AVX-512.\<close>

definition lane_colors :: "lanes \<Rightarrow> lanes" where
  "lane_colors headers = srli_epi64 (and_lanes headers (set1_epi64 (length headers) (push_bit 8 0xFF))) (8 + TAG_BITS)"

definition unused_color_in_pair_avx512 :: "ct_bucket \<Rightarrow> ct_bucket \<Rightarrow> u8" where
  "unused_color_in_pair_avx512 bucket1 bucket2 =
     (let all_headers = map entry_header (cells bucket1 @ cells bucket2);
          colors = lane_colors all_headers;
          ones = set1_epi64 8 1;
          bits = sllv_epi64 ones colors;
          used_colors = bits ! 0 OR bits ! 1 OR bits ! 2 OR bits ! 3 OR bits ! 4 OR bits ! 5 OR bits ! 6 OR bits ! 7
      in of_nat (ctz (NOT used_colors)))"

definition unused_color_in_pair_vectorized :: "bool \<Rightarrow> ct_bucket \<Rightarrow> ct_bucket \<Rightarrow> u8" where
  "unused_color_in_pair_vectorized has_avx512 bucket1 bucket2 =
     (if has_avx512 then unused_color_in_pair_avx512 bucket1 bucket2
      else let headers1 = map entry_header (cells bucket1);
               headers2 = map entry_header (cells bucket2);
               colors1 = lane_colors headers1;
               colors2 = lane_colors headers2;
               ones = set1_epi64 4 1;
               bits1 = sllv_epi64 ones colors1;
               bits2 = sllv_epi64 ones colors2;
               combined = or_lanes bits1 bits2;
               used_colors = combined ! 0 OR combined ! 1 OR combined ! 2 OR combined ! 3
           in of_nat (ctz (NOT used_colors)))"

subsection \<open>Relocation\<close>

abbreviation (input) RELOCATE_QUEUE_SIZE :: nat where "RELOCATE_QUEUE_SIZE \<equiv> 1000"

record relocation_queue_entry =
  rq_bucket :: u64
  rq_read_lock :: ct_bucket_read_lock
  parent_queue_pos :: int
  rq_child_idx :: nat

definition root_ptr :: entry_ptr where
  "root_ptr = (unat (hash_to_bucket HASH_START_VALUE), 0)"

text \<open>
  The scan of one full bucket of the queue over the cells \<open>is\<close>. It stops at the first
  entry whose alternate bucket has a free cell, with the cell's index, that bucket, its
  read lock and the free cell.
\<close>

type_synonym relocation_end = "nat \<times> u64 \<times> ct_bucket_read_lock \<times> nat"

fun scan_children ::
    "cuckoo_trie \<Rightarrow> entry_ptr option \<Rightarrow> nat \<Rightarrow> nat list \<Rightarrow> relocation_queue_entry list
      \<Rightarrow> relocation_queue_entry list \<times> relocation_end option" where
  "scan_children trie immovable queue_pos [] queue = (queue, None)"
| "scan_children trie immovable queue_pos (i # is) queue =
     (let bucket = rq_bucket (queue ! queue_pos); entry = (unat bucket, i)
      in if immovable = Some entry then scan_children trie immovable queue_pos is queue
         else if entry = root_ptr then scan_children trie immovable queue_pos is queue
         else let child_bucket_num = alternate_bucket trie (cell trie entry) bucket
              in if list_ex (\<lambda>q. rq_bucket q = child_bucket_num) queue
                 then scan_children trie immovable queue_pos is queue
                 else let read_lock = read_lock_bucket trie (unat child_bucket_num)
                      in case find_free_cell_in_bucket (bucket_of trie child_bucket_num) of
                           None \<Rightarrow>
                             scan_children trie immovable queue_pos is
                               (if length queue < RELOCATE_QUEUE_SIZE
                                then queue @ [\<lparr>rq_bucket = child_bucket_num, rq_read_lock = read_lock,
                                               parent_queue_pos = int queue_pos, rq_child_idx = i\<rparr>]
                                else queue)
                         | Some free_cell \<Rightarrow> (queue, Some (i, child_bucket_num, read_lock, free_cell)))"

lemma scan_children_length:
  "length (fst (scan_children trie immovable queue_pos is queue)) \<le> max RELOCATE_QUEUE_SIZE (length queue)"
proof (induction "is" arbitrary: queue)
  case (Cons i "is")
  show ?case
    using Cons [of queue] Cons [of "queue @ [q]" for q] by (auto simp: Let_def le_max_iff_disj split: option.split)
qed simp

function relocate_search ::
    "cuckoo_trie \<Rightarrow> entry_ptr option \<Rightarrow> relocation_queue_entry list \<Rightarrow> nat
      \<Rightarrow> (relocation_queue_entry list \<times> nat \<times> relocation_end) option" where
  "relocate_search trie immovable queue queue_pos =
     (if queue_pos < length queue
      then case scan_children trie immovable queue_pos [0, 1, 2, 3] queue of
             (queue, Some found) \<Rightarrow> Some (queue, queue_pos + 1, found)
           | (queue, None) \<Rightarrow> relocate_search trie immovable queue (queue_pos + 1)
      else None)"
  by pat_completeness auto
termination
proof (relation "measure (\<lambda>(_, _, queue, queue_pos). max RELOCATE_QUEUE_SIZE (length queue) - queue_pos)", goal_cases)
  case (2 trie immovable queue queue_pos queue' found)
  have "length queue' \<le> max RELOCATE_QUEUE_SIZE (length queue)"
    using scan_children_length [of trie immovable queue_pos "[0, 1, 2, 3]" queue] 2(2,3) by (metis fst_conv)
  then show ?case using 2(1) by auto
qed simp

declare relocate_search.simps [simp del]

text \<open>Upgrading the read locks of the queue entries from \<open>pos\<close> up to the first one.\<close>

partial_function (option) upgrade_path ::
    "relocation_queue_entry list \<Rightarrow> nat \<Rightarrow> nat \<Rightarrow> lock_state \<Rightarrow> (status \<times> nat \<times> lock_state) option" where
  "upgrade_path queue pos buckets_read_locked s =
     (if pos = 0 then Some (SI_OK, buckets_read_locked, s)
      else let (ret, s) = upgrade_bucket_lock s (rq_read_lock (queue ! pos))
           in if ret = SI_RETRY then Some (SI_RETRY, buckets_read_locked, s)
              else upgrade_path queue (nat (parent_queue_pos (queue ! pos))) (buckets_read_locked + 1) s)"

text \<open>Moving the entries one position along the path; the result is the cell freed last.\<close>

partial_function (option) move_path ::
    "relocation_queue_entry list \<Rightarrow> nat \<Rightarrow> nat \<Rightarrow> entry_ptr \<Rightarrow> lock_state \<Rightarrow> (entry_ptr \<times> ct_entry \<times> lock_state) option" where
  "move_path queue pos child_idx free_cell s =
     (let (trie, mgr) = s;
          occupied_cell = (unat (rq_bucket (queue ! pos)), child_idx);
          entry_buf = cell trie occupied_cell;
          entry_buf = entry_buf\<lparr>parent_color_and_flags := parent_color_and_flags entry_buf XOR FLAG_SECONDARY_BUCKET\<rparr>;
          trie = snd (write_entry trie free_cell entry_buf);
          mgr = move_entry_lock mgr free_cell occupied_cell
      in if pos = 0 then Some (occupied_cell, entry_buf, trie, mgr)
         else move_path queue (nat (parent_queue_pos (queue ! pos))) (rq_child_idx (queue ! pos)) occupied_cell (trie, mgr))"

primrec release_path :: "nat \<Rightarrow> relocation_queue_entry list \<Rightarrow> nat \<Rightarrow> lock_state \<Rightarrow> lock_state" where
  "release_path 0 queue pos s = s"
| "release_path (Suc n) queue pos s =
     release_path n queue (nat (parent_queue_pos (queue ! pos)))
       (release_bucket_lock s (unat (rq_bucket (queue ! pos))))"

definition mark_unused :: "ct_entry \<Rightarrow> ct_entry" where
  "mark_unused entry_buf = entry_buf\<lparr>
     parent_color_and_flags := push_bit PARENT_COLOR_SHIFT INVALID_COLOR OR TYPE_UNUSED,
     color_and_tag := push_bit TAG_BITS INVALID_COLOR\<rparr>"

definition relocate_entry ::
    "lock_state \<Rightarrow> u64 \<Rightarrow> entry_ptr option \<Rightarrow> (status \<times> entry_ptr option \<times> lock_state) option" where
  "relocate_entry s bucket_num immovable_entry =
     (let queue = [\<lparr>rq_bucket = bucket_num, rq_read_lock = \<lparr>rl_bucket = 0, rl_seq = 0\<rparr>,
                    parent_queue_pos = - 1, rq_child_idx = 0\<rparr>]
      in case relocate_search (fst s) immovable_entry queue 0 of
           None \<Rightarrow> Some (SI_FAIL, None, s)
         | Some (queue, queue_pos, child_idx, child_bucket_num, read_lock, free_cell) \<Rightarrow> do {
             let (ret, s) = upgrade_bucket_lock s read_lock;
             if ret = SI_RETRY then Some (SI_RETRY, None, s)
             else do {
               (ret, buckets_read_locked, s) \<leftarrow> upgrade_path queue (queue_pos - 1) 1 s;
               (output, s) \<leftarrow> (if ret = SI_RETRY then Some (None, s)
                 else do {
                   (occupied_cell, entry_buf, trie, mgr) \<leftarrow>
                     move_path queue (queue_pos - 1) child_idx (unat child_bucket_num, free_cell) s;
                   Some (Some occupied_cell, snd (write_entry trie occupied_cell (mark_unused entry_buf)), mgr)
                 });
               let s = release_bucket_lock s (unat child_bucket_num);
               Some (ret, output, release_path (buckets_read_locked - 1) queue (queue_pos - 1) s)
             }
           })"

subsection \<open>Adding an entry\<close>

text \<open>
  The part after the label \<open>cell_found\<close>. The entry that the caller passed is returned
  as the code leaves it.
\<close>

definition add_in_cell ::
    "lock_state \<Rightarrow> u64 \<Rightarrow> ct_entry \<Rightarrow> bool \<Rightarrow> entry_ptr \<Rightarrow> u64 \<Rightarrow> u64 \<Rightarrow> ct_bucket_read_lock
      \<Rightarrow> status \<times> entry_ptr option \<times> ct_entry \<times> lock_state" where
  "add_in_cell s prefix_hash entry lock result result_bucket flags_to_add alternate_bucket_lock =
     (let (trie, mgr) = s;
          primary_bucket_num = hash_to_bucket prefix_hash;
          secondary_bucket_num = mix_bucket trie primary_bucket_num (hash_to_tag prefix_hash);
          mgr = (if lock then write_lock_entry_in_locked_bucket mgr result else mgr);
          unused_color = unused_color_in_pair (bucket_of trie primary_bucket_num) (bucket_of trie secondary_bucket_num);
          entry = entry_add_flags entry flags_to_add;
          entry = entry_set_color_and_tag entry (push_bit TAG_BITS (ucast unused_color) OR hash_to_tag prefix_hash);
          trie = snd (write_entry trie result entry);
          ret = read_unlock_bucket trie alternate_bucket_lock
      in if ret \<noteq> SI_OK
         then (SI_RETRY, None, entry,
               release_bucket_lock (remove_entry_by_address trie result, mgr) (unat result_bucket))
         else (SI_OK, Some result, entry, release_bucket_lock (trie, mgr) (unat result_bucket)))"

definition add_entry ::
    "lock_state \<Rightarrow> u64 \<Rightarrow> ct_entry \<Rightarrow> entry_ptr option \<Rightarrow> bool
      \<Rightarrow> (status \<times> entry_ptr option \<times> ct_entry \<times> lock_state) option" where
  "add_entry s prefix_hash entry immovable_entry lock =
     (let trie = fst s;
          primary_bucket_num = hash_to_bucket prefix_hash;
          secondary_bucket_num = mix_bucket trie primary_bucket_num (hash_to_tag prefix_hash);
          primary_read_lock = read_lock_bucket trie (unat primary_bucket_num);
          secondary_read_lock = read_lock_bucket trie (unat secondary_bucket_num)
      in case find_free_cell_in_bucket (bucket_of trie primary_bucket_num) of
           Some k \<Rightarrow>
             (let (ret, s) = upgrade_bucket_lock s primary_read_lock
              in if ret = SI_RETRY then Some (SI_RETRY, None, entry, s)
                 else Some (add_in_cell s prefix_hash entry lock (unat primary_bucket_num, k) primary_bucket_num 0
                              secondary_read_lock))
         | None \<Rightarrow>
         (case find_free_cell_in_bucket (bucket_of trie secondary_bucket_num) of
           Some k \<Rightarrow>
             (let (ret, s) = upgrade_bucket_lock s secondary_read_lock
              in if ret = SI_RETRY then Some (SI_RETRY, None, entry, s)
                 else Some (add_in_cell s prefix_hash entry lock (unat secondary_bucket_num, k) secondary_bucket_num
                              (ucast FLAG_SECONDARY_BUCKET) primary_read_lock))
         | None \<Rightarrow>
             (let (ret, s) = upgrade_bucket_lock s primary_read_lock
              in if ret = SI_RETRY then Some (SI_RETRY, None, entry, s)
                 else do {
                   (ret, result, s) \<leftarrow> relocate_entry s primary_bucket_num immovable_entry;
                   if ret = SI_FAIL \<or> ret = SI_RETRY
                   then Some (ret, None, entry, release_bucket_lock s (unat primary_bucket_num))
                   else Some (add_in_cell s prefix_hash entry lock (the result) primary_bucket_num 0
                                secondary_read_lock)
                 })))"

end
