(* ===== verification/Colors.thy ===== *)
theory Colors
  imports Table
begin

text \<open>
  The color of a new entry: the lane code of \<open>main_vectorized.c\<close> computes what the loop
  of \<open>main.c\<close> does, and that is the least color no cell of the pair has; when a cell of
  the pair is unused, it is a valid color.
\<close>

lemma lane_color:
  assumes "wf_entry e"
  shows "drop_bit 12 (entry_header e AND push_bit 8 0xFF) = ucast (entry_color e)"
proof (rule bit_word_eqI)
  fix n
  have m: "(0xFF :: u64) = mask 8" by code_simp
  have h: "bit (entry_header e) (12 + n) \<longleftrightarrow> bit (color_and_tag e) (4 + n)" if "n < 4"
  proof -
    have "(12 + n) div 8 = 1" "(12 + n) mod 8 = 4 + n" using that by presburger+
    then show ?thesis using that unfolding entry_header_bytes [OF assms] bit_le_word by (simp add: byte_at_def)
  qed
  assume n: "n < LENGTH(64)"
  have high: "\<not> bit (color_and_tag e) (4 + n)" if "\<not> n < 4"
    using that bit_imp_le_length [of "color_and_tag e" "4 + n"] by auto
  show "bit (drop_bit 12 (entry_header e AND push_bit 8 0xFF)) n = bit (ucast (entry_color e) :: u64) n"
  proof (cases "n < 4")
    case True
    then show ?thesis
      using h n unfolding m entry_color_def
      by (simp only: bit_drop_bit_eq o_apply bit_and_iff bit_push_bit_iff bit_mask_iff bit_unsigned_iff) auto
  next
    case False
    then have "\<not> 12 + n - 8 < 8" by simp
    then show ?thesis
      using high False unfolding m entry_color_def
      by (simp only: bit_drop_bit_eq o_apply bit_and_iff bit_push_bit_iff bit_mask_iff bit_unsigned_iff) simp
  qed
qed

lemma lane_colors_eq:
  assumes "\<forall>e\<in>set es. wf_entry e"
  shows "lane_colors (map entry_header es) = map (\<lambda>e. ucast (entry_color e)) es"
  using assms lane_color
  unfolding lane_colors_def srli_epi64_def and_lanes_def set1_epi64_def
  by (intro nth_equalityI) (simp_all only: length_map length_zip length_replicate nth_map nth_zip nth_replicate
      min.idem prod.case numeral_plus_numeral add_num_simps nth_mem)

lemma color_shift:
  "(if (ucast (entry_color e) :: u64) < 64 then push_bit (unat (ucast (entry_color e) :: u64)) 1 else 0) =
    (push_bit (unat (entry_color e)) 1 :: u64)"
proof -
  have "entry_color e < 16" using nibble_entry_color [of e] by (simp only: nibble_def)
  then have "unat (entry_color e) < 16" by (simp add: word_less_nat_alt)
  moreover from this have "unat (ucast (entry_color e) :: u64) = unat (entry_color e)"
    by (simp add: unsigned_ucast_eq take_bit_nat_eq_self)
  ultimately show ?thesis by (simp add: word_less_nat_alt)
qed

lemma sllv_colors:
  assumes "length es = n"
  shows "sllv_epi64 (set1_epi64 n 1) (map (\<lambda>e. ucast (entry_color e)) es) = map (\<lambda>e. push_bit (unat (entry_color e)) 1) es"
  unfolding sllv_epi64_def set1_epi64_def
  using assms by (intro nth_equalityI) (simp_all only: length_map length_zip length_replicate nth_map nth_zip nth_replicate
      min.idem prod.case color_shift)

lemma or_assoc_u64: "(a OR b) OR c = a OR (b OR (c :: u64))"
  by (rule or.assoc)

lemma color_bits_list:
  assumes "c1 = [a0, a1, a2, a3]" and "c2 = [b0, b1, b2, b3]"
  shows "color_bits c1 c2 = (let p = \<lambda>e. push_bit (unat (entry_color e)) 1 in
    p a0 OR p b0 OR p a1 OR p b1 OR p a2 OR p b2 OR p a3 OR p b3)"
  by (simp add: color_bits_def assms or.assoc Let_def)

lemma length_4_cases: "wf_bucket b \<Longrightarrow> \<exists>e0 e1 e2 e3. cells b = [e0, e1, e2, e3]"
  unfolding wf_bucket_def by (auto simp: numeral_eq_Suc length_Suc_conv)

theorem unused_color_vectorized_eq:
  assumes "wf_bucket b1" and "wf_bucket b2"
  shows "unused_color_in_pair_vectorized has_avx512 b1 b2 = unused_color_in_pair b1 b2"
proof -
  obtain a0 a1 a2 a3 where c1: "cells b1 = [a0, a1, a2, a3]" using length_4_cases [OF assms(1)] by blast
  obtain e0 e1 e2 e3 where c2: "cells b2 = [e0, e1, e2, e3]" using length_4_cases [OF assms(2)] by blast
  let ?p = "\<lambda>e. push_bit (unat (entry_color e)) 1 :: u64"
  have w1: "\<forall>e\<in>set [a0, a1, a2, a3]. wf_entry e" and w2: "\<forall>e\<in>set [e0, e1, e2, e3]. wf_entry e"
    using assms by (simp_all add: wf_bucket_def c1 c2)
  then have w: "\<forall>e\<in>set ([a0, a1, a2, a3] @ [e0, e1, e2, e3]). wf_entry e" by simp
  have l: "lane_colors (map entry_header [a0, a1, a2, a3]) = map (\<lambda>e. ucast (entry_color e)) [a0, a1, a2, a3]"
    "lane_colors (map entry_header [e0, e1, e2, e3]) = map (\<lambda>e. ucast (entry_color e)) [e0, e1, e2, e3]"
    "lane_colors (map entry_header ([a0, a1, a2, a3] @ [e0, e1, e2, e3])) =
      map (\<lambda>e. ucast (entry_color e)) ([a0, a1, a2, a3] @ [e0, e1, e2, e3])"
    by (rule lane_colors_eq [OF w1], rule lane_colors_eq [OF w2], rule lane_colors_eq [OF w])
  have s: "sllv_epi64 (set1_epi64 4 1) (map (\<lambda>e. ucast (entry_color e)) [a0, a1, a2, a3]) = map ?p [a0, a1, a2, a3]"
    "sllv_epi64 (set1_epi64 4 1) (map (\<lambda>e. ucast (entry_color e)) [e0, e1, e2, e3]) = map ?p [e0, e1, e2, e3]"
    "sllv_epi64 (set1_epi64 8 1) (map (\<lambda>e. ucast (entry_color e)) ([a0, a1, a2, a3] @ [e0, e1, e2, e3])) =
      map ?p ([a0, a1, a2, a3] @ [e0, e1, e2, e3])"
    by (rule sllv_colors, simp)+
  have "unused_color_in_pair_avx512 b1 b2 = unused_color_in_pair b1 b2"
    unfolding unused_color_in_pair_avx512_def unused_color_in_pair_def c1 c2 l s Let_def
      color_bits_list [OF refl refl]
    by (simp add: or.assoc or.left_commute or.commute)
  moreover have "unused_color_in_pair_vectorized False b1 b2 = unused_color_in_pair b1 b2"
    unfolding unused_color_in_pair_vectorized_def unused_color_in_pair_def c1 c2 l s Let_def
      color_bits_list [OF refl refl]
    by (simp add: or_lanes_def or.assoc or.left_commute or.commute)
  ultimately show ?thesis by (cases has_avx512) (simp_all add: unused_color_in_pair_vectorized_def)
qed

subsection \<open>The least unused color\<close>

lemma bit_color: "bit (push_bit (unat (entry_color e)) 1 :: u64) n \<longleftrightarrow> n = unat (entry_color e)"
proof -
  have "entry_color e < 16" using nibble_entry_color [of e] by (simp only: nibble_def)
  then have "unat (entry_color e) < 16" by (simp add: word_less_nat_alt)
  then show ?thesis by (simp only: bit_push_bit_iff bit_1_iff) auto
qed

lemma bit_color_bits:
  assumes "length c1 = 4" and "length c2 = 4"
  shows "bit (color_bits c1 c2) n \<longleftrightarrow> n \<in> (\<lambda>e. unat (entry_color e)) ` (set c1 \<union> set c2)"
proof -
  obtain a0 a1 a2 a3 where c1: "c1 = [a0, a1, a2, a3]" using assms(1) by (auto simp: numeral_eq_Suc length_Suc_conv)
  obtain b0 b1 b2 b3 where c2: "c2 = [b0, b1, b2, b3]" using assms(2) by (auto simp: numeral_eq_Suc length_Suc_conv)
  show ?thesis unfolding color_bits_list [OF c1 c2] Let_def bit_or_iff bit_color by (auto simp: c1 c2)
qed

lemma exists_unused_color:
  assumes "length c1 = 4" and "length c2 = 4" and "e \<in> set c1 \<union> set c2" and "entry_color e = INVALID_COLOR"
  shows "\<exists>n<9. n \<notin> (\<lambda>e. unat (entry_color e)) ` (set c1 \<union> set c2)"
proof (rule ccontr)
  let ?S = "(\<lambda>e. unat (entry_color e)) ` (set c1 \<union> set c2)"
  assume "\<not> (\<exists>n<9. n \<notin> ?S)"
  then have "{..<9} \<subseteq> ?S" by auto
  moreover have "9 \<in> ?S" using assms(3,4) by force
  ultimately have "{..<10} \<subseteq> ?S" using less_Suc_eq [of _ 9] by auto
  then have "10 \<le> card ?S" using card_mono [of ?S "{..<10}"] by simp
  moreover have "card ?S \<le> card (set c1 \<union> set c2)" by (simp add: card_image_le)
  moreover have "card (set c1 \<union> set c2) \<le> length c1 + length c2"
    using card_Un_le [of "set c1" "set c2"] card_length [of c1] card_length [of c2] by simp
  ultimately show False using assms by simp
qed

text \<open>With an unused cell in the pair, the color is valid and no cell of the pair has it.\<close>

theorem unused_color_fresh:
  assumes "wf_bucket b1" and "wf_bucket b2"
    and e: "e \<in> set (cells b1) \<union> set (cells b2)" "entry_color e = INVALID_COLOR"
  shows "unused_color_in_pair b1 b2 < 9"
    and "e' \<in> set (cells b1) \<union> set (cells b2) \<Longrightarrow> entry_color e' \<noteq> unused_color_in_pair b1 b2"
proof -
  have len: "length (cells b1) = 4" "length (cells b2) = 4" using assms by (simp_all add: wf_bucket_def)
  let ?u = "color_bits (cells b1) (cells b2)"
  note used = bit_color_bits [OF len]
  obtain n where n: "n < 9" "\<not> bit ?u n" using exists_unused_color [OF len e] unfolding used by blast
  then have bn: "bit (NOT ?u) n" by (simp add: bit_not_iff)
  then have nz: "NOT ?u \<noteq> 0" by (metis bit_0_eq bot_apply bot_bool_def)
  have le: "ctz (NOT ?u) \<le> n" using ctz_least [OF nz] bn by (meson not_le)
  have c: "unat (unused_color_in_pair b1 b2) = ctz (NOT ?u)"
    using le n by (simp add: unused_color_in_pair_def Let_def unat_of_nat)
  show "unused_color_in_pair b1 b2 < 9" using le n c by (simp add: word_less_nat_alt)
  show "entry_color e' \<noteq> unused_color_in_pair b1 b2" if "e' \<in> set (cells b1) \<union> set (cells b2)"
  proof
    assume "entry_color e' = unused_color_in_pair b1 b2"
    then have "bit ?u (ctz (NOT ?u))" using that c unfolding used by (metis imageI)
    then show False using ctz_bit [OF nz] by (simp add: bit_not_iff)
  qed
qed

end
