(* ===== verification/Content.thy ===== *)
theory Content
  imports Colors "HOL-Library.Multiset"
begin

text \<open>
  The content of the table as the rest of the trie sees it: each entry in use, with its
  primary bucket and without the flag that tells in which bucket of its pair it is.
\<close>

subsection \<open>The abstract content\<close>

definition erase_side :: "ct_entry \<Rightarrow> ct_entry" where
  "erase_side e = e\<lparr>parent_color_and_flags := parent_color_and_flags e AND NOT FLAG_SECONDARY_BUCKET\<rparr>"

definition toggle_side :: "ct_entry \<Rightarrow> ct_entry" where
  "toggle_side e = e\<lparr>parent_color_and_flags := parent_color_and_flags e XOR FLAG_SECONDARY_BUCKET\<rparr>"

definition home :: "cuckoo_trie \<Rightarrow> nat \<Rightarrow> ct_entry \<Rightarrow> u64" where
  "home trie b e = (if entry_is_secondary e then unmix_bucket trie (of_nat b) (ucast (entry_tag e)) else of_nat b)"

definition cell_content :: "cuckoo_trie \<Rightarrow> nat \<Rightarrow> ct_entry \<Rightarrow> (u64 \<times> ct_entry) multiset" where
  "cell_content trie b e = (if entry_type e = TYPE_UNUSED then {#} else {#(home trie b e, erase_side e)#})"

definition table_cells :: "cuckoo_trie \<Rightarrow> entry_ptr set" where
  "table_cells trie = {..<unat (num_buckets trie)} \<times> {..<CUCKOO_BUCKET_SIZE}"

definition table_content :: "cuckoo_trie \<Rightarrow> (u64 \<times> ct_entry) multiset" where
  "table_content trie = (\<Sum>p\<in>table_cells trie. cell_content trie (fst p) (cell trie p))"

text \<open>A table between operations: well formed, unused cells marked, no write in progress.\<close>

definition table_ok :: "cuckoo_trie \<Rightarrow> bool" where
  "table_ok trie \<longleftrightarrow> wf_trie trie \<and> (\<forall>b<unat (num_buckets trie). unused_cells_marked (buckets trie ! b)) \<and>
     (\<forall>b<length (buckets trie). at_rest (bucket_word trie b))"

lemma table_okD:
  assumes "table_ok trie"
  shows "wf_trie trie" and "valid_table trie" and "length (buckets trie) = unat (num_buckets trie) + 1"
    and "b < unat (num_buckets trie) \<Longrightarrow> unused_cells_marked (buckets trie ! b)"
    and "b \<le> unat (num_buckets trie) \<Longrightarrow> wf_bucket (buckets trie ! b)"
    and "b \<le> unat (num_buckets trie) \<Longrightarrow> at_rest (bucket_word trie b)"
  using assms by (auto simp: table_ok_def wf_trie_def)

lemma table_cellsI: "b < unat (num_buckets trie) \<Longrightarrow> i < 4 \<Longrightarrow> (b, i) \<in> table_cells trie"
  by (simp add: table_cells_def)

lemma wf_cell:
  assumes "wf_trie trie" and "p \<in> table_cells trie"
  shows "wf_entry (cell trie p)" and "valid_ptr trie p"
  using assms by (auto simp: wf_trie_def table_cells_def cell_def valid_ptr_def wf_bucket_def all_set_conv_all_nth)

subsection \<open>The side of an entry\<close>

lemma bit_4: "bit (4 :: u8) n \<longleftrightarrow> n = 2"
proof -
  have "(4 :: u8) = push_bit 2 1" by code_simp
  then show ?thesis by (simp only: bit_push_bit_iff bit_1_iff) auto
qed

lemma bit_sides:
  "bit (parent_color_and_flags (toggle_side e)) n \<longleftrightarrow> (if n = 2 then \<not> bit (parent_color_and_flags e) n else bit (parent_color_and_flags e) n)"
  "bit (parent_color_and_flags (erase_side e)) n \<longleftrightarrow> n \<noteq> 2 \<and> bit (parent_color_and_flags e) n"
proof -
  have t: "parent_color_and_flags (toggle_side e) = parent_color_and_flags e XOR 4"
    and r: "parent_color_and_flags (erase_side e) = parent_color_and_flags e AND NOT 4"
    by (simp_all add: toggle_side_def erase_side_def)
  show "bit (parent_color_and_flags (toggle_side e)) n \<longleftrightarrow>
      (if n = 2 then \<not> bit (parent_color_and_flags e) n else bit (parent_color_and_flags e) n)"
    unfolding t by (simp only: bit_xor_iff bit_4) auto
  show "bit (parent_color_and_flags (erase_side e)) n \<longleftrightarrow> n \<noteq> 2 \<and> bit (parent_color_and_flags e) n"
    unfolding r by (simp only: bit_and_iff bit_not_iff bit_4) (auto dest: bit_imp_le_length)
qed

lemma side_eq:
  "erase_side e = e\<lparr>parent_color_and_flags := parent_color_and_flags (erase_side e)\<rparr>"
  "toggle_side e = e\<lparr>parent_color_and_flags := parent_color_and_flags (toggle_side e)\<rparr>"
  by (simp_all add: erase_side_def toggle_side_def)

lemma erase_eqI:
  assumes "a\<lparr>parent_color_and_flags := 0\<rparr> = b\<lparr>parent_color_and_flags := 0\<rparr>"
    and "\<And>n. n \<noteq> 2 \<Longrightarrow> bit (parent_color_and_flags a) n = bit (parent_color_and_flags b) n"
  shows "erase_side a = erase_side b"
proof -
  have "parent_color_and_flags (erase_side a) = parent_color_and_flags (erase_side b)"
    by (rule bit_word_eqI) (use assms(2) in \<open>auto simp: bit_sides\<close>)
  moreover have "(erase_side a)\<lparr>parent_color_and_flags := 0\<rparr> = (erase_side b)\<lparr>parent_color_and_flags := 0\<rparr>"
    using assms(1) by (simp add: erase_side_def)
  ultimately show ?thesis by (cases "erase_side a"; cases "erase_side b") simp
qed

lemma erase_toggle [simp]: "erase_side (toggle_side e) = erase_side e"
  by (rule erase_eqI) (auto simp: bit_sides, simp add: toggle_side_def)

lemma toggle_secondary [simp]: "entry_is_secondary (toggle_side e) \<longleftrightarrow> \<not> entry_is_secondary e"
  unfolding entry_is_secondary_bit by (simp add: bit_sides)

lemma toggle_fields [simp]:
  "entry_tag (toggle_side e) = entry_tag e" "entry_color (toggle_side e) = entry_color e"
  "e_last_symbol (toggle_side e) = e_last_symbol e" "e_bytes (toggle_side e) = e_bytes e"
  "wf_entry (toggle_side e) = wf_entry e"
  by (simp_all add: toggle_side_def entry_tag_def entry_color_def wf_entry_def)

lemma entry_type_eqI: "(\<And>n. n < 2 \<Longrightarrow> bit (parent_color_and_flags a) n = bit (parent_color_and_flags b) n) \<Longrightarrow>
    entry_type a = entry_type b"
  unfolding entry_type_take_bit by (rule bit_word_eqI) (auto simp: bit_take_bit_iff)

lemma side_type [simp]: "entry_type (toggle_side e) = entry_type e" "entry_type (erase_side e) = entry_type e"
  by (rule entry_type_eqI; simp add: bit_sides)+

lemma parent_color_eqI: "(\<And>n. n \<ge> 4 \<Longrightarrow> bit (parent_color_and_flags a) n = bit (parent_color_and_flags b) n) \<Longrightarrow>
    entry_parent_color a = entry_parent_color b"
  unfolding entry_parent_color_def by (rule bit_word_eqI) (simp add: bit_drop_bit_eq)

lemma side_parent_color [simp]:
  "entry_parent_color (toggle_side e) = entry_parent_color e" "entry_parent_color (erase_side e) = entry_parent_color e"
  by (rule parent_color_eqI; simp add: bit_sides)+

lemma erase_fields [simp]:
  "entry_tag (erase_side e) = entry_tag e" "entry_color (erase_side e) = entry_color e"
  "e_last_symbol (erase_side e) = e_last_symbol e" "e_bytes (erase_side e) = e_bytes e"
  "e_byte8 (erase_side e) = e_byte8 e" "e_locator (erase_side e) = e_locator e"
  by (simp_all add: erase_side_def entry_tag_def entry_color_def)

lemma erase_erase [simp]: "erase_side (erase_side e) = erase_side e"
  by (rule erase_eqI) (auto simp: bit_sides, simp add: erase_side_def)

text \<open>In the other bucket of its pair an entry has the other side and the same home.\<close>

lemma home_alternate:
  assumes v: "valid_table trie" and b: "b < unat (num_buckets trie)"
  shows "home trie (unat (alternate_bucket trie e (of_nat b))) (toggle_side e) = home trie b e"
    and "valid_bucket trie (alternate_bucket trie e (of_nat b))"
    and "alternate_bucket trie e (of_nat b) \<noteq> of_nat b"
proof -
  have "b < 2 ^ 64" using b unsigned_less [of "num_buckets trie", where 'a = nat] by simp
  then have "unat (of_nat b :: u64) = b" by (simp add: unat_of_nat)
  then have vb: "valid_bucket trie (of_nat b)" using b by (simp add: valid_bucket_unat)
  have "entry_tag e < 16" using nibble_entry_tag [of e] by (simp only: nibble_def)
  then have t: "valid_tag (ucast (entry_tag e))" by (simp add: valid_tag_unat word_less_nat_alt unsigned_ucast_eq take_bit_nat_eq_self)
  note mix = pair.mix_valid [OF v vb t] pair.unmix_valid [OF v vb t] pair.unmix_mix [OF v vb t]
    pair.mix_unmix [OF v vb t] pair.mix_neq [OF v vb t] pair.unmix_neq [OF v vb t]
  show "home trie (unat (alternate_bucket trie e (of_nat b))) (toggle_side e) = home trie b e"
    and "valid_bucket trie (alternate_bucket trie e (of_nat b))"
    and "alternate_bucket trie e (of_nat b) \<noteq> of_nat b"
    using mix by (auto simp: home_def alternate_bucket_def)
qed

subsection \<open>The content after a store\<close>

lemma home_fields [simp]:
  "home (set_cell trie p e) = home trie" "home (set_bucket_word trie b w) = home trie"
  by (simp_all add: fun_eq_iff home_def fields_set)

lemma cell_content_fields [simp]:
  "cell_content (set_cell trie p e) = cell_content trie" "cell_content (set_bucket_word trie b w) = cell_content trie"
  by (simp_all add: fun_eq_iff cell_content_def)

lemma table_cells_fields [simp]:
  "table_cells (set_cell trie p e) = table_cells trie" "table_cells (set_bucket_word trie b w) = table_cells trie"
  by (simp_all add: table_cells_def fields_set)

lemma finite_table_cells [simp]: "finite (table_cells trie)"
  by (simp add: table_cells_def)

lemma content_set_word [simp]: "table_content (set_bucket_word trie b w) = table_content trie"
  by (simp add: table_content_def table_simps)

lemma content_set_cell:
  assumes p: "p \<in> table_cells trie" and v: "valid_ptr trie p"
  shows "table_content (set_cell trie p e) + cell_content trie (fst p) (cell trie p) =
    table_content trie + cell_content trie (fst p) e"
proof -
  have rest: "(\<Sum>q\<in>table_cells trie - {p}. cell_content trie (fst q) (cell (set_cell trie p e) q)) =
      (\<Sum>q\<in>table_cells trie - {p}. cell_content trie (fst q) (cell trie q))"
    by (rule sum.cong) (auto simp: table_simps)
  show ?thesis
    unfolding table_content_def cell_content_fields table_cells_fields
      sum.remove [OF finite_table_cells p] rest
    using v by (simp add: table_simps)
qed

lemma unlocked_cell:
  assumes "unlocked t = unlocked t'" and "fst p < length (buckets t)"
  shows "cell t p = cell t' p"
  using unlocked_eqD(2) [OF assms] by (simp add: cell_def)

lemma unlocked_fields:
  assumes "unlocked t = unlocked t'"
  shows "num_buckets t = num_buckets t'" and "home t = home t'" and "valid_table t = valid_table t'"
    and "mix_bucket t = mix_bucket t'" and "unmix_bucket t = unmix_bucket t'"
    and "alternate_bucket t = alternate_bucket t'" and "is_empty t = is_empty t'"
proof -
  have e: "t\<lparr>buckets := []\<rparr> = t'\<lparr>buckets := []\<rparr>" using unlocked_eqD(4) [OF assms] .
  show "num_buckets t = num_buckets t'" using arg_cong [OF e, of num_buckets] by simp
  show "is_empty t = is_empty t'" using arg_cong [OF e, of is_empty] by simp
  show "valid_table t = valid_table t'" using arg_cong [OF e, of valid_table] by simp
  show m: "mix_bucket t = mix_bucket t'" using arg_cong [OF e, of mix_bucket] by simp
  show u: "unmix_bucket t = unmix_bucket t'" using arg_cong [OF e, of unmix_bucket] by simp
  show "home t = home t'" by (simp add: fun_eq_iff home_def u)
  show "alternate_bucket t = alternate_bucket t'" by (simp add: fun_eq_iff alternate_bucket_def m u)
qed

lemma content_unlocked:
  assumes "unlocked t = unlocked t'" and "length (buckets t) = unat (num_buckets t) + 1"
  shows "table_content t = table_content t'"
proof -
  have "table_cells t = table_cells t'" by (simp add: table_cells_def unlocked_fields(1) [OF assms(1)])
  moreover have "cell_content t = cell_content t'"
    by (simp add: fun_eq_iff cell_content_def unlocked_fields(2) [OF assms(1)])
  moreover have "cell t p = cell t' p" if "p \<in> table_cells t" for p
    using that assms(2) by (intro unlocked_cell [OF assms(1)]) (auto simp: table_cells_def)
  ultimately show ?thesis by (simp add: table_content_def)
qed

lemma at_rest_seq: "at_rest (seq_of_word w) = at_rest w"
proof -
  have "(256 :: u32) AND NOT 0xFF = 256" by code_simp
  then have "seq_of_word w AND 256 = w AND 256"
    unfolding seq_of_word_def by (simp add: ac_simps)
  then show ?thesis by (simp add: at_rest_def)
qed

lemma table_ok_unlocked:
  assumes u: "unlocked t = unlocked t'" and ok: "table_ok t'"
  shows "table_ok t"
proof -
  note D = unlocked_eqD [OF u] and F = unlocked_fields [OF u]
  have c: "cells (buckets t ! b) = cells (buckets t' ! b)" if "b < length (buckets t')" for b using D(1,2) that by simp
  have "at_rest (bucket_word t b) = at_rest (bucket_word t' b)" if "b < length (buckets t')" for b
    using D(1) D(3) [of b] that at_rest_seq by metis
  then show ?thesis
    using ok c by (auto simp: table_ok_def wf_trie_def all_set_conv_all_nth D(1) F wf_bucket_def unused_cells_marked_def)
qed

subsection \<open>Writing an entry\<close>

lemma at_rest_add: "at_rest (w + 512) = at_rest w"
proof -
  have m: "(256 :: u32) = push_bit 8 1" by code_simp
  have e: "at_rest w \<longleftrightarrow> \<not> bit w 8" for w
    unfolding at_rest_def m using and_exp_iff [of 8 w] by auto
  have u: "bit w 8 \<longleftrightarrow> odd (unat w div 2 ^ 8)" for w :: u32
  proof -
    have "bit w 8 \<longleftrightarrow> bit (unat w) 8" by (simp add: bit_unsigned_iff)
    also have "\<dots> \<longleftrightarrow> odd (unat w div 2 ^ 8)" by (rule bit_iff_odd)
    finally show ?thesis .
  qed
  have odd: "odd (x div 2 ^ 8) \<longleftrightarrow> 256 \<le> x mod 512" for x :: nat
  proof -
    have "x mod 512 = 256 * (x div 256 mod 2) + x mod 256" using mod_mult2_eq [of x 256 2] by simp
    then show ?thesis by (cases "even (x div 256)") (simp_all add: odd_iff_mod_2_eq_one not_le)
  qed
  have "unat (w + 512) mod 512 = (unat w + 512) mod 2 ^ 32 mod 512" by (simp add: unat_word_ariths)
  also have "\<dots> = (unat w + 512) mod 512" by (rule mod_mod_cancel) simp
  finally have "odd (unat (w + 512) div 2 ^ 8) = odd (unat w div 2 ^ 8)" unfolding odd by simp
  then show ?thesis by (simp add: e u)
qed

lemma set_word_same [simp]: "set_bucket_word trie b (bucket_word trie b) = trie"
  by (cases "b < length (buckets trie)") (simp_all add: set_bucket_word_def bucket_word_def)

lemma buckets_write_entry:
  "i \<noteq> fst p \<Longrightarrow> buckets (snd (write_entry trie p e)) ! i = buckets trie ! i"
  by (simp add: write_entry_def Let_def set_cell_def set_bucket_word_def)

lemma write_entry_fields [simp]:
  "num_buckets (snd (write_entry trie p e)) = num_buckets trie"
  "mix_bucket (snd (write_entry trie p e)) = mix_bucket trie"
  "unmix_bucket (snd (write_entry trie p e)) = unmix_bucket trie"
  "valid_table (snd (write_entry trie p e)) = valid_table trie"
  "is_empty (snd (write_entry trie p e)) = is_empty trie"
  "home (snd (write_entry trie p e)) = home trie"
  "cell_content (snd (write_entry trie p e)) = cell_content trie"
  "table_cells (snd (write_entry trie p e)) = table_cells trie"
  "alternate_bucket (snd (write_entry trie p e)) = alternate_bucket trie"
  by (simp_all add: write_entry_def Let_def table_simps fun_eq_iff alternate_bucket_def)

text \<open>A write to a cell of the table changes that cell and the bucket's sequence number.\<close>

lemma table_cells_valid:
  assumes "table_ok trie" and "p \<in> table_cells trie"
  shows "wf_entry (cell trie p)" and "valid_ptr trie p"
  using wf_cell [OF table_okD(1) [OF assms(1)] assms(2)] .

lemma cell_write_entry:
  assumes ok: "table_ok trie" and p: "p \<in> table_cells trie" and e: "wf_entry e"
  shows "cell (snd (write_entry trie p e)) q = (if q = p then e else cell trie q)"
  using table_cells_valid [OF ok p] e by (simp add: write_entry_eq table_simps)

lemma content_write_entry:
  assumes ok: "table_ok trie" and p: "p \<in> table_cells trie" and e: "wf_entry e"
  shows "table_content (snd (write_entry trie p e)) + cell_content trie (fst p) (cell trie p) =
    table_content trie + cell_content trie (fst p) e"
  using table_cells_valid [OF ok p] content_set_cell [OF p, of e] e by (simp add: write_entry_eq)

definition marked_if_unused :: "ct_entry \<Rightarrow> bool" where
  "marked_if_unused e \<longleftrightarrow>
     (entry_type e = TYPE_UNUSED \<longrightarrow> entry_color e = INVALID_COLOR \<and> entry_parent_color e = INVALID_COLOR)"

lemma unused_cells_marked_iff: "unused_cells_marked b \<longleftrightarrow> (\<forall>e\<in>set (cells b). marked_if_unused e)"
  by (simp add: unused_cells_marked_def marked_if_unused_def)

lemma marked_toggle [simp]: "marked_if_unused (toggle_side e) = marked_if_unused e"
  by (simp add: marked_if_unused_def)

lemma table_ok_cells:
  "table_ok trie \<longleftrightarrow> valid_table trie \<and> length (buckets trie) = unat (num_buckets trie) + 1 \<and>
     (\<forall>b\<le>unat (num_buckets trie). length (cells (buckets trie ! b)) = 4 \<and> at_rest (bucket_word trie b) \<and>
        (\<forall>i<4. wf_entry (cell trie (b, i)))) \<and>
     (\<forall>p\<in>table_cells trie. marked_if_unused (cell trie p))"
  by (auto simp: table_ok_def wf_trie_def wf_bucket_def all_set_conv_all_nth cell_def less_Suc_eq_le
      unused_cells_marked_iff table_cells_def)

lemma table_ok_write_entry:
  assumes ok: "table_ok trie" and p: "p \<in> table_cells trie" and e: "wf_entry e" "marked_if_unused e"
  shows "table_ok (snd (write_entry trie p e))"
proof -
  let ?t = "snd (write_entry trie p e)"
  have "length (cells (buckets ?t ! b)) = length (cells (buckets trie ! b))" for b
    by (simp add: write_entry_def Let_def table_simps)
  moreover have "at_rest (bucket_word ?t b) = at_rest (bucket_word trie b)" for b
    using table_cells_valid [OF ok p] e by (simp add: write_entry_eq table_simps at_rest_add)
  ultimately show ?thesis
    using ok e unfolding table_ok_cells by (simp add: cell_write_entry [OF ok p e(1)])
qed

text \<open>
  Moving an entry into a free cell of its alternate bucket keeps the content, when the
  cell it leaves counts as free. While a chain of entries moves, this cell still holds the
  old entry; the content is that of the table with the stale cell erased.
\<close>

definition content_without :: "cuckoo_trie \<Rightarrow> entry_ptr \<Rightarrow> (u64 \<times> ct_entry) multiset" where
  "content_without trie p = table_content trie - cell_content trie (fst p) (cell trie p)"

lemma content_split:
  assumes "p \<in> table_cells trie"
  shows "table_content trie = content_without trie p + cell_content trie (fst p) (cell trie p)"
  unfolding content_without_def table_content_def sum.remove [OF finite_table_cells assms] by simp

lemma content_without_unused:
  assumes "entry_type (cell trie p) = TYPE_UNUSED"
  shows "content_without trie p = table_content trie"
  using assms by (simp add: content_without_def cell_content_def)

lemma content_without_write:
  assumes ok: "table_ok trie" and p: "p \<in> table_cells trie" and e: "wf_entry e"
  shows "content_without (snd (write_entry trie p e)) p = content_without trie p"
proof -
  have "p \<in> table_cells (snd (write_entry trie p e))" using p by simp
  from content_split [OF this] content_split [OF p] content_write_entry [OF ok p e] show ?thesis
    by (simp add: cell_write_entry [OF ok p e])
qed

lemma move_entry_content:
  assumes ok: "table_ok trie" and f: "f \<in> table_cells trie" and p: "p \<in> table_cells trie" "p \<noteq> f"
    and alt: "fst f = unat (alternate_bucket trie (cell trie p) (of_nat (fst p)))"
  shows "content_without (snd (write_entry trie f (toggle_side (cell trie p)))) p = content_without trie f"
proof -
  let ?e = "cell trie p"
  let ?t = "snd (write_entry trie f (toggle_side ?e))"
  have wf: "wf_entry (toggle_side ?e)" using table_cells_valid [OF ok p(1)] by simp
  have b: "fst p < unat (num_buckets trie)" using p by (auto simp: table_cells_def)
  have cc: "cell_content trie (fst f) (toggle_side ?e) = cell_content trie (fst p) ?e"
    unfolding alt cell_content_def by (simp add: home_alternate [OF table_okD(2) [OF ok] b])
  have pt: "p \<in> table_cells ?t" using p by simp
  have "content_without ?t p + cell_content trie (fst p) ?e = table_content ?t"
    using content_split [OF pt] p(2) by (simp add: cell_write_entry [OF ok f wf])
  moreover have "table_content ?t + cell_content trie (fst f) (cell trie f) =
      table_content trie + cell_content trie (fst p) ?e"
    using content_write_entry [OF ok f wf] by (simp add: cc)
  moreover have "table_content trie = content_without trie f + cell_content trie (fst f) (cell trie f)"
    by (rule content_split [OF f])
  ultimately show ?thesis by simp
qed

end
