(* ===== verification/LockRefs.thy ===== *)
theory LockRefs
  imports Locks
begin

text \<open>
  The references a thread has to its locks, as functions of the bucket: what taking,
  releasing and moving a lock does to them. The order of the locks in the manager, which
  a removal changes, does not matter to them.
\<close>

definition lock_on :: "lock_mgr \<Rightarrow> nat \<Rightarrow> ct_bucket_write_lock option" where
  "lock_on mgr b = map_option ((!) mgr) (find_write_lock mgr b)"

definition spare_of :: "ct_bucket_write_lock \<Rightarrow> nat" where
  "spare_of l = total_refcount l - sum_list (entry_refcounts l)"

lemma spare_refs_lock_on: "spare_refs mgr b = (case lock_on mgr b of None \<Rightarrow> 0 | Some l \<Rightarrow> spare_of l)"
  by (simp add: spare_refs_def lock_on_def spare_of_def split: option.split)

lemma entry_refs_lock_on:
  "entry_refs mgr p = (case lock_on mgr (fst p) of None \<Rightarrow> 0 | Some l \<Rightarrow> entry_refcounts l ! snd p)"
  by (simp add: entry_refs_def lock_on_def split: option.split)

lemma held_lock_on: "b \<in> held mgr \<longleftrightarrow> lock_on mgr b \<noteq> None"
  using find_write_lock_None [of mgr b] by (auto simp: lock_on_def)

lemma lock_on_iff:
  assumes "wf_mgr mgr"
  shows "lock_on mgr b = Some l \<longleftrightarrow> l \<in> set mgr \<and> wl_bucket l = b"
proof
  assume "lock_on mgr b = Some l"
  then show "l \<in> set mgr \<and> wl_bucket l = b"
    using find_write_lock_Some [of mgr b] by (auto simp: lock_on_def)
next
  assume l: "l \<in> set mgr \<and> wl_bucket l = b"
  then have "b \<in> held mgr" by (auto simp: held_def)
  then obtain i where i: "find_write_lock mgr b = Some i" using find_write_lock_None [of mgr b] by auto
  have "mgr ! i \<in> set mgr" "wl_bucket (mgr ! i) = b" using find_write_lock_Some [OF i] by auto
  then have "mgr ! i = l" using assms l by (auto simp: wf_mgr_def distinct_map dest: inj_onD)
  then show "lock_on mgr b = Some l" by (simp add: lock_on_def i)
qed

lemma lock_on_wf: "wf_mgr mgr \<Longrightarrow> lock_on mgr b = Some l \<Longrightarrow> wf_lock l \<and> wl_bucket l = b"
  by (auto simp: lock_on_iff wf_mgr_def)

lemma lock_on_eqI:
  assumes "wf_mgr m1" and "\<And>l. l \<in> set m1 \<and> wl_bucket l = b \<longleftrightarrow> x = Some l"
  shows "lock_on m1 b = x"
proof (cases x)
  case None
  then have "lock_on m1 b \<noteq> Some l" for l using assms(2) [of l] by (simp add: lock_on_iff [OF assms(1)])
  then show ?thesis using None by (cases "lock_on m1 b") auto
next
  case (Some l)
  then show ?thesis using assms(2) [of l] by (simp add: lock_on_iff [OF assms(1)])
qed

lemma lock_on_update:
  assumes "i < length mgr" and "wl_bucket l = wl_bucket (mgr ! i)" and wf: "wf_mgr mgr"
  shows "lock_on (mgr[i := l]) b = (if b = wl_bucket l then Some l else lock_on mgr b)"
proof -
  have f: "find_write_lock (mgr[i := l]) b = find_write_lock mgr b"
    using assms(2) by (auto simp: find_write_lock_def nth_list_update_if intro!: find_congr)
  have d: "i = j" if "j < length mgr" "wl_bucket (mgr ! j) = wl_bucket (mgr ! i)" for j
    using wf that assms(1) by (simp add: wf_mgr_def distinct_map distinct_conv_nth) (metis inj_onD nth_mem)
  have "b = wl_bucket l \<Longrightarrow> find_write_lock mgr b \<noteq> None"
    using assms(1,2) by (simp only: find_write_lock_None) (auto simp: held_def)
  then show ?thesis
    unfolding lock_on_def f using find_write_lock_Some [of mgr b] d assms(1,2)
    by (cases "find_write_lock mgr b") (auto simp: nth_list_update_if)
qed

lemma lock_on_add_lock:
  assumes "b \<notin> held mgr"
  shows "lock_on (add_lock mgr b) b' =
    (if b' = b then Some \<lparr>wl_bucket = b, entry_refcounts = [0, 0, 0, 0], total_refcount = 1\<rparr> else lock_on mgr b')"
proof -
  have "find_write_lock (add_lock mgr b) b' = (if b' = b then Some (length mgr) else find_write_lock mgr b')"
    by (auto simp: find_write_lock_def add_lock_def nth_append intro!: find_congr)
  then show ?thesis
    using find_write_lock_Some [of mgr b'] by (auto simp: lock_on_def add_lock_def nth_append option.map_ident_strong
      intro!: option.map_cong)
qed

lemma lock_on_remove:
  assumes ok: "locks_ok others (trie, mgr)" and i: "i < length mgr" and r: "remove_lock (trie, mgr) i = (trie', mgr')"
  shows "lock_on mgr' b = (if b = wl_bucket (mgr ! i) then None else lock_on mgr b)"
proof -
  note rm = remove_lock_ok [OF ok i r]
  have wf: "wf_mgr mgr" "wf_mgr mgr'" using locks_okD(1) ok rm(1) by blast+
  show ?thesis
  proof (cases "b = wl_bucket (mgr ! i)")
    case True
    then show ?thesis using rm(2) held_lock_on [of b mgr'] by auto
  next
    case False
    then show ?thesis
      using rm(4) by (intro lock_on_eqI [OF wf(2)]) (auto simp: lock_on_iff [OF wf(1)])
  qed
qed

lemma lock_on_found:
  assumes "find_write_lock mgr b = Some i"
  shows "i < length mgr" and "wl_bucket (mgr ! i) = b" and "lock_on mgr b = Some (mgr ! i)"
  using find_write_lock_Some [OF assms] assms by (simp_all add: lock_on_def)

subsection \<open>Taking a lock adds one reference\<close>

definition bump :: "nat \<Rightarrow> ct_bucket_write_lock option \<Rightarrow> ct_bucket_write_lock option" where
  "bump b l = Some (case l of
     None \<Rightarrow> \<lparr>wl_bucket = b, entry_refcounts = [0, 0, 0, 0], total_refcount = 1\<rparr>
   | Some l \<Rightarrow> l\<lparr>total_refcount := total_refcount l + 1\<rparr>)"

definition unbump :: "ct_bucket_write_lock option \<Rightarrow> ct_bucket_write_lock option" where
  "unbump l = (case l of
     None \<Rightarrow> None
   | Some l \<Rightarrow> if total_refcount l = 1 then None else Some (l\<lparr>total_refcount := total_refcount l - 1\<rparr>))"

lemma lock_on_add_total:
  assumes wf: "wf_mgr mgr" and f: "find_write_lock mgr b = Some i"
  shows "lock_on (add_total mgr i) b' = (if b' = b then bump b (lock_on mgr b) else lock_on mgr b')"
  using lock_on_found [OF f] by (simp add: add_total_def lock_on_update wf bump_def)

lemma lock_on_upgrade:
  assumes ok: "locks_ok others (trie, mgr)" and b: "rl_bucket rl < length (buckets trie)"
    and step: "upgrade_bucket_lock (trie, mgr) rl = (SI_OK, trie', mgr')"
  shows "lock_on mgr' b' = (if b' = rl_bucket rl then bump b' (lock_on mgr b') else lock_on mgr b')"
proof (cases "find_write_lock mgr (rl_bucket rl)")
  case (Some i)
  then have "mgr' = add_total mgr i" using step by (auto simp: upgrade_bucket_lock_def split: if_splits)
  then show ?thesis using lock_on_add_total [OF locks_okD(1) [OF ok] Some] by simp
next
  case None
  then have nh: "rl_bucket rl \<notin> held mgr" by (simp add: find_write_lock_None)
  have free: "lock_byte (bucket_word trie (rl_bucket rl)) = 0"
  proof (rule ccontr)
    assume "\<not> ?thesis"
    from take_locked(1) [OF ok b this] step None show False
      by (simp add: upgrade_bucket_lock_def write_lock_unlocked_bucket_def)
  qed
  have "mgr' = add_lock mgr (rl_bucket rl)"
    using step None take_free(1) [OF ok b free]
    by (auto simp: upgrade_bucket_lock_def write_lock_unlocked_bucket_def Let_def split: if_splits)
  moreover have "lock_on mgr (rl_bucket rl) = None" using nh held_lock_on by simp
  ultimately show ?thesis by (simp add: lock_on_add_lock [OF nh] bump_def)
qed

lemma lock_on_release:
  assumes ok: "locks_ok others (trie, mgr)" and held: "b \<in> held mgr"
    and step: "release_bucket_lock (trie, mgr) b = (trie', mgr')"
  shows "lock_on mgr' b' = (if b' = b then unbump (lock_on mgr b) else lock_on mgr b')"
proof -
  obtain i where f: "find_write_lock mgr b = Some i" using held find_write_lock_None [of mgr b] by auto
  note l = lock_on_found [OF f]
  have wfl: "wf_lock (mgr ! i)" using wf_mgr_nth [OF locks_okD(1) [OF ok] l(1)] .
  show ?thesis
  proof (cases "total_refcount (mgr ! i) = 1")
    case True
    have same: "remove_lock (trie, sub_total mgr i) i = remove_lock (trie, mgr) i"
      using l by (auto simp: remove_lock_def Let_def sub_total_def butlast_list_update)
    have "remove_lock (trie, mgr) i = (trie', mgr')"
      using step True l(1) unfolding same [symmetric] by (simp add: release_bucket_lock_def f nth_add_sub_total)
    from lock_on_remove [OF ok l(1) this] show ?thesis using True l by (simp add: unbump_def)
  next
    case False
    then have "mgr' = sub_total mgr i"
      using step wfl l(1) by (auto simp: release_bucket_lock_def f nth_add_sub_total wf_lock_def split: if_splits)
    then show ?thesis using False l locks_okD(1) [OF ok] by (simp add: sub_total_def lock_on_update unbump_def)
  qed
qed

text \<open>In terms of references: one spare reference more, or one less.\<close>

lemma spare_refs_upgrade:
  assumes "locks_ok others (trie, mgr)" and "rl_bucket rl < length (buckets trie)"
    and "upgrade_bucket_lock (trie, mgr) rl = (SI_OK, trie', mgr')"
  shows "spare_refs mgr' = (spare_refs mgr)(rl_bucket rl := spare_refs mgr (rl_bucket rl) + 1)"
    and "snd p < CUCKOO_BUCKET_SIZE \<Longrightarrow> entry_refs mgr' p = entry_refs mgr p"
proof -
  note l = lock_on_upgrade [OF assms]
  have wf: "wf_lock x" if "lock_on mgr (rl_bucket rl) = Some x" for x
    using lock_on_wf [OF locks_okD(1) [OF assms(1)] that] by simp
  show "spare_refs mgr' = (spare_refs mgr)(rl_bucket rl := spare_refs mgr (rl_bucket rl) + 1)"
    using wf by (auto simp: fun_eq_iff spare_refs_lock_on l bump_def spare_of_def wf_lock_def split: option.split)
  show "entry_refs mgr' p = entry_refs mgr p" if "snd p < CUCKOO_BUCKET_SIZE"
    using four_cells [OF that] by (auto simp: entry_refs_lock_on l bump_def split: option.split)
qed

lemma spare_refs_release:
  assumes ok: "locks_ok others (trie, mgr)" and spare: "0 < spare_refs mgr b"
    and step: "release_bucket_lock (trie, mgr) b = (trie', mgr')"
  shows "spare_refs mgr' = (spare_refs mgr)(b := spare_refs mgr b - 1)"
    and "snd p < CUCKOO_BUCKET_SIZE \<Longrightarrow> entry_refs mgr' p = entry_refs mgr p"
proof -
  obtain l where l: "lock_on mgr b = Some l" "0 < spare_of l"
    using spare by (auto simp: spare_refs_lock_on split: option.splits)
  have held: "b \<in> held mgr" using l(1) by (simp add: held_lock_on)
  note r = lock_on_release [OF ok held step]
  have wf: "wf_lock l" using lock_on_wf [OF locks_okD(1) [OF ok] l(1)] by simp
  show "spare_refs mgr' = (spare_refs mgr)(b := spare_refs mgr b - 1)"
    using l wf by (auto simp: fun_eq_iff spare_refs_lock_on r unbump_def spare_of_def wf_lock_def)
  show "entry_refs mgr' p = entry_refs mgr p" if "snd p < CUCKOO_BUCKET_SIZE"
  proof -
    have "entry_refcounts l ! snd p = 0" if "total_refcount l = 1"
    proof -
      have "entry_refcounts l ! snd p \<le> sum_list (entry_refcounts l)"
        using wf \<open>snd p < _\<close> by (intro elem_le_sum_list) (simp add: wf_lock_def)
      then show ?thesis using l(2) that unfolding spare_of_def by linarith
    qed
    then show ?thesis using l(1) by (auto simp: entry_refs_lock_on r unbump_def)
  qed
qed

text \<open>A relocation moves the references to the entry it moves.\<close>

lemma spare_refs_move:
  assumes ok: "locks_ok others (trie, mgr)" and spare: "0 < spare_refs mgr (fst src)"
    and held: "fst dst \<in> held mgr" and k: "snd src < CUCKOO_BUCKET_SIZE" "snd dst < CUCKOO_BUCKET_SIZE"
    and ne: "fst src \<noteq> fst dst"
  shows "spare_refs (move_entry_lock mgr dst src) = spare_refs mgr"
proof -
  obtain s where s: "find_write_lock mgr (fst src) = Some s"
    using spare by (auto simp: spare_refs_def split: option.splits)
  obtain d where d: "find_write_lock mgr (fst dst) = Some d" using held find_write_lock_None [of mgr "fst dst"] by auto
  note ls = lock_on_found [OF s] and ld = lock_on_found [OF d]
  have sd: "s \<noteq> d" using ls ld ne by auto
  have wf: "wf_mgr mgr" using locks_okD(1) [OF ok] .
  have wfs: "wf_lock (mgr ! s)" and wfd: "wf_lock (mgr ! d)" using wf_mgr_nth [OF wf] ls ld by auto
  show ?thesis
  proof (cases "entry_refcounts (mgr ! s) ! snd src = 0")
    case True
    then show ?thesis by (simp add: move_entry_lock_def s d)
  next
    case False
    let ?ls = "(mgr ! s)\<lparr>entry_refcounts := (entry_refcounts (mgr ! s))[snd src := entry_refcounts (mgr ! s) ! snd src - 1],
        total_refcount := total_refcount (mgr ! s) - 1\<rparr>"
    let ?ld = "(mgr ! d)\<lparr>entry_refcounts := (entry_refcounts (mgr ! d))[snd dst := entry_refcounts (mgr ! d) ! snd dst + 1],
        total_refcount := total_refcount (mgr ! d) + 1\<rparr>"
    have dec: "sum_list (entry_refcounts ?ls) + 1 = sum_list (entry_refcounts (mgr ! s))"
      using sum_list_dec [of "snd src" "entry_refcounts (mgr ! s)"] wfs False k by (simp add: wf_lock_def)
    have inc: "sum_list (entry_refcounts ?ld) = sum_list (entry_refcounts (mgr ! d)) + 1"
      using wfd k by (simp add: wf_lock_def sum_list_update)
    have m: "move_entry_lock mgr dst src = (mgr[s := ?ls])[d := ?ld]"
      using False ls ld sd by (simp add: move_entry_lock_def s d Let_def add_entry_total)
    have lt: "sum_list (entry_refcounts (mgr ! s)) < total_refcount (mgr ! s)"
      using spare ls(3) by (simp add: spare_refs_lock_on spare_of_def)
    have wf': "wf_mgr (mgr[s := ?ls])"
      by (rule wf_mgr_update [OF wf]) (use wfs lt dec in \<open>auto simp: wf_lock_def\<close>)
    have "lock_on (move_entry_lock mgr dst src) b =
        (if b = fst dst then Some ?ld else if b = fst src then Some ?ls else lock_on mgr b)" for b
      unfolding m using ls ld sd wf wf' by (subst lock_on_update) (simp_all add: lock_on_update)
    then show ?thesis
      using ls(3) ld(3) dec inc wfd wfs lt ne by (auto simp: fun_eq_iff spare_refs_lock_on spare_of_def wf_lock_def)
  qed
qed

end
