(* ===== verification/Writes.thy ===== *)
theory Writes
  imports Content Threads
begin

text \<open>
  What a sequence of writes may have changed: each bucket's counter tells how often it was
  written, by steps of 512 above the lock byte, and a bucket that was not written has kept its
  cells. The frame is what no write changes.
\<close>

definition frame :: "cuckoo_trie \<Rightarrow> cuckoo_trie" where
  "frame trie = trie\<lparr>buckets := []\<rparr>"

definition wrote :: "nat set \<Rightarrow> nat \<Rightarrow> cuckoo_trie \<Rightarrow> cuckoo_trie \<Rightarrow> bool" where
  "wrote B n t t' \<longleftrightarrow> frame t' = frame t \<and> length (buckets t') = length (buckets t) \<and>
     (\<forall>b<length (buckets t). \<exists>k\<le>n. seq_of_word (bucket_word t' b) = seq_of_word (bucket_word t b) + of_nat (512 * k) \<and>
        (k = 0 \<longrightarrow> cells (buckets t' ! b) = cells (buckets t ! b)) \<and> (b \<notin> B \<longrightarrow> k = 0))"

lemma frame_table:
  assumes "frame t' = frame t"
  shows "num_buckets t' = num_buckets t" and "home t' = home t" and "accumulate_hash t' = accumulate_hash t"
    and "is_empty t' = is_empty t" and "table_cells t' = table_cells t" and "trie_min_leaf t' = trie_min_leaf t"
    and "mix_bucket t' = mix_bucket t"
proof -
  note f = assms [unfolded frame_def]
  show nb: "num_buckets t' = num_buckets t" using arg_cong [OF f, of num_buckets] by simp
  show "is_empty t' = is_empty t" using arg_cong [OF f, of is_empty] by simp
  show "mix_bucket t' = mix_bucket t" using arg_cong [OF f, of mix_bucket] by simp
  have "unmix_bucket t' = unmix_bucket t" using arg_cong [OF f, of unmix_bucket] by simp
  then show "home t' = home t" by (simp add: home_def fun_eq_iff)
  show "accumulate_hash t' = accumulate_hash t" using arg_cong [OF f, of accumulate_hash]
    by (simp add: accumulate_hash_def fun_eq_iff)
  show "table_cells t' = table_cells t" by (simp add: table_cells_def nb)
  show "trie_min_leaf t' = trie_min_leaf t" by (simp add: trie_min_leaf_def nb)
qed

lemma wrote_refl [intro]: "wrote B 0 t t"
  by (auto simp: wrote_def)

lemma wrote_trans:
  assumes "wrote B n t t'" and "wrote B m t' t''"
  shows "wrote B (n + m) t t''"
proof -
  have "\<exists>k\<le>n + m. seq_of_word (bucket_word t'' b) = seq_of_word (bucket_word t b) + of_nat (512 * k) \<and>
      (k = 0 \<longrightarrow> cells (buckets t'' ! b) = cells (buckets t ! b)) \<and> (b \<notin> B \<longrightarrow> k = 0)" if b: "b < length (buckets t)" for b
  proof -
    obtain k where k: "k \<le> n" "seq_of_word (bucket_word t' b) = seq_of_word (bucket_word t b) + of_nat (512 * k)"
      "k = 0 \<longrightarrow> cells (buckets t' ! b) = cells (buckets t ! b)" "b \<notin> B \<longrightarrow> k = 0"
      using assms(1) b by (auto simp: wrote_def)
    obtain l where l: "l \<le> m" "seq_of_word (bucket_word t'' b) = seq_of_word (bucket_word t' b) + of_nat (512 * l)"
      "l = 0 \<longrightarrow> cells (buckets t'' ! b) = cells (buckets t' ! b)" "b \<notin> B \<longrightarrow> l = 0"
      using assms b by (auto simp: wrote_def)
    show ?thesis using k l by (intro exI [of _ "k + l"]) (auto simp: algebra_simps)
  qed
  then show ?thesis using assms by (auto simp: wrote_def)
qed

lemma wrote_mono:
  assumes "wrote B n t t'" and "n \<le> m" and "B \<subseteq> C"
  shows "wrote C m t t'"
proof -
  have "\<exists>k\<le>m. seq_of_word (bucket_word t' b) = seq_of_word (bucket_word t b) + of_nat (512 * k) \<and>
      (k = 0 \<longrightarrow> cells (buckets t' ! b) = cells (buckets t ! b)) \<and> (b \<notin> C \<longrightarrow> k = 0)" if b: "b < length (buckets t)" for b
  proof -
    obtain k where "k \<le> n" "seq_of_word (bucket_word t' b) = seq_of_word (bucket_word t b) + of_nat (512 * k)"
      "k = 0 \<longrightarrow> cells (buckets t' ! b) = cells (buckets t ! b)" "b \<notin> B \<longrightarrow> k = 0"
      using assms(1) b by (auto simp: wrote_def)
    then show ?thesis using assms(2,3) by (intro exI [of _ k]) auto
  qed
  then show ?thesis using assms(1) by (simp add: wrote_def)
qed

lemma wrote_unlocked:
  assumes "unlocked t' = unlocked t"
  shows "wrote B 0 t t'"
  using unlocked_eqD [OF assms] by (simp add: wrote_def frame_def)

lemma frame_write_entry [simp]: "frame (snd (write_entry t p e)) = frame t"
  by (simp add: frame_def write_entry_def Let_def set_cell_def set_bucket_word_def)

lemma lock_byte_seq: "lock_byte w + seq_of_word w = w"
proof -
  have m: "(0xFF :: u32) = mask 8" by code_simp
  have "lock_byte w + seq_of_word w = lock_byte w OR seq_of_word w"
    unfolding lock_byte_def seq_of_word_def m by (rule disjunctive_add) (auto simp: bit_and_iff bit_not_iff)
  also have "\<dots> = w" unfolding lock_byte_def seq_of_word_def m
    by (rule bit_word_eqI) (auto simp: bit_or_iff bit_and_iff bit_not_iff)
  finally show ?thesis .
qed

lemma seq_of_word_add: "seq_of_word (w + 512) = seq_of_word w + 512"
proof -
  have "lock_byte w + seq_of_word (w + 512) = w + 512" using lock_byte_seq [of "w + 512"] lock_byte_add by simp
  also have "\<dots> = lock_byte w + (seq_of_word w + 512)" using lock_byte_seq [of w] by (simp add: add.assoc)
  finally show ?thesis by (rule add_left_imp_eq)
qed

lemma wrote_write_entry:
  assumes "p \<in> table_cells t" and "table_ok t" and "wf_entry e"
  shows "wrote {..<unat (num_buckets t)} 1 t (snd (write_entry t p e))"
proof -
  have w: "bucket_word (snd (write_entry t p e)) (fst p) = bucket_word t (fst p) + 512"
    using table_cells_valid [OF assms(2,1)] assms(3) by (simp add: write_entry_eq table_simps valid_ptr_def)
  have "\<exists>k\<le>1. seq_of_word (bucket_word (snd (write_entry t p e)) b) = seq_of_word (bucket_word t b) + of_nat (512 * k) \<and>
      (k = 0 \<longrightarrow> cells (buckets (snd (write_entry t p e)) ! b) = cells (buckets t ! b)) \<and> (b \<notin> {..<unat (num_buckets t)} \<longrightarrow> k = 0)" for b
  proof (cases "b = fst p")
    case True
    then have "b < unat (num_buckets t)" using assms(1) by (auto simp: table_cells_def)
    then show ?thesis using w seq_of_word_add True by (intro exI [of _ 1]) simp
  next
    case False
    then show ?thesis using seq_write_entry cells_write_entry by (intro exI [of _ 0]) simp
  qed
  then show ?thesis by (simp add: wrote_def)
qed

end
