(* ===== verification/Relocate.thy ===== *)
theory Relocate
  imports Writes LockRefs
begin

text \<open>
  Relocation frees a cell of a full bucket by moving entries along a path to their
  alternate buckets. The search keeps a queue of full buckets, each the alternate bucket
  of an entry of an earlier one; the theory shows that the relocation always returns, that
  it keeps the content of the table and the references to the locks, and that it frees a
  cell of the bucket asked for without moving the root or the immovable entry.
\<close>

subsection \<open>Free cells\<close>

lemma free_cell_from_Some:
  "free_cell_from k es = Some j \<Longrightarrow> k \<le> j \<and> j < k + length es \<and> entry_type (es ! (j - k)) = TYPE_UNUSED"
proof (induction es arbitrary: k)
  case (Cons e es)
  show ?case
  proof (cases "entry_type e = TYPE_UNUSED")
    case False
    then have "free_cell_from (Suc k) es = Some j" using Cons.prems by simp
    from Cons.IH [OF this] show ?thesis by (auto simp: nth_Cons')
  qed (use Cons.prems in auto)
qed simp

lemma free_cell_from_None: "free_cell_from k es = None \<longleftrightarrow> (\<forall>e\<in>set es. entry_type e \<noteq> TYPE_UNUSED)"
  by (induction es arbitrary: k) auto

lemma find_free_Some:
  assumes "wf_trie trie" and "valid_bucket trie b" and "find_free_cell_in_bucket (bucket_of trie b) = Some k"
  shows "k < 4" and "entry_type (cell trie (unat b, k)) = TYPE_UNUSED" and "(unat b, k) \<in> table_cells trie"
proof -
  have "length (cells (bucket_of trie b)) = 4" using wf_bucket_of [OF assms(1,2)] by (simp add: wf_bucket_def)
  then show k: "k < 4" and "entry_type (cell trie (unat b, k)) = TYPE_UNUSED"
    using free_cell_from_Some [of 0 "cells (bucket_of trie b)" k] assms(3)
    by (auto simp: find_free_cell_in_bucket_def cell_def bucket_of_def)
  show "(unat b, k) \<in> table_cells trie" using k assms(2) by (simp add: table_cells_def valid_bucket_unat)
qed

lemma find_free_None:
  assumes "wf_trie trie" and "valid_bucket trie b" and "find_free_cell_in_bucket (bucket_of trie b) = None" and "k < 4"
  shows "entry_type (cell trie (unat b, k)) \<noteq> TYPE_UNUSED"
proof -
  have "length (cells (bucket_of trie b)) = 4" using wf_bucket_of [OF assms(1,2)] by (simp add: wf_bucket_def)
  then have "cell trie (unat b, k) \<in> set (cells (bucket_of trie b))"
    using assms(4) by (simp add: cell_def bucket_of_def)
  then show ?thesis using assms(3) by (simp add: find_free_cell_in_bucket_def free_cell_from_None)
qed

subsection \<open>The queue of full buckets\<close>

text \<open>The cell \<open>k\<close> of the bucket at a queue position is one that the search may move.\<close>

definition movable :: "cuckoo_trie \<Rightarrow> entry_ptr option \<Rightarrow> u64 \<Rightarrow> nat \<Rightarrow> u64 \<Rightarrow> bool" where
  "movable trie immovable b k child \<longleftrightarrow> k < CUCKOO_BUCKET_SIZE \<and> immovable \<noteq> Some (unat b, k) \<and> (unat b, k) \<noteq> root_ptr \<and>
     child = alternate_bucket trie (cell trie (unat b, k)) b"

definition queue_entry_ok :: "cuckoo_trie \<Rightarrow> entry_ptr option \<Rightarrow> relocation_queue_entry list \<Rightarrow> nat \<Rightarrow> bool" where
  "queue_entry_ok trie immovable queue j \<longleftrightarrow> (let q = queue ! j in
     0 \<le> parent_queue_pos q \<and> nat (parent_queue_pos q) < j \<and>
     movable trie immovable (rq_bucket (queue ! nat (parent_queue_pos q))) (rq_child_idx q) (rq_bucket q) \<and>
     rq_read_lock q = read_lock_bucket trie (unat (rq_bucket q)))"

definition queue_ok :: "cuckoo_trie \<Rightarrow> entry_ptr option \<Rightarrow> u64 \<Rightarrow> relocation_queue_entry list \<Rightarrow> bool" where
  "queue_ok trie immovable b0 queue \<longleftrightarrow> queue \<noteq> [] \<and> rq_bucket (queue ! 0) = b0 \<and> distinct (map rq_bucket queue) \<and>
     (\<forall>q\<in>set queue. valid_bucket trie (rq_bucket q) \<and>
        find_free_cell_in_bucket (bucket_of trie (rq_bucket q)) = None) \<and>
     (\<forall>j. 0 < j \<longrightarrow> j < length queue \<longrightarrow> queue_entry_ok trie immovable queue j)"

lemma valid_of_nat [simp]: "(of_nat (unat b) :: u64) = b"
  by simp

lemma movable_child:
  assumes "valid_table trie" and "valid_bucket trie b" and "movable trie immovable b k child"
  shows "valid_bucket trie child"
  using home_alternate(2) [of trie "unat b" "cell trie (unat b, k)"] assms by (simp add: movable_def valid_bucket_unat)

lemma queue_ok_append:
  assumes ok: "queue_ok trie immovable b0 queue" and v: "valid_table trie" and pos: "pos < length queue"
    and m: "movable trie immovable (rq_bucket (queue ! pos)) k child" and new: "child \<notin> rq_bucket ` set queue"
    and full: "find_free_cell_in_bucket (bucket_of trie child) = None"
  shows "queue_ok trie immovable b0 (queue @ [\<lparr>rq_bucket = child, rq_read_lock = read_lock_bucket trie (unat child),
    parent_queue_pos = int pos, rq_child_idx = k\<rparr>])" (is "queue_ok _ _ _ (queue @ [?q])")
proof -
  have vc: "valid_bucket trie child" using movable_child [OF v _ m] ok pos by (simp add: queue_ok_def)
  have "queue_entry_ok trie immovable (queue @ [?q]) j" if "0 < j" "j < Suc (length queue)" for j
  proof (cases "j = length queue")
    case True
    then show ?thesis using m pos by (simp add: queue_entry_ok_def nth_append)
  next
    case False
    then have "j < length queue" using that by simp
    moreover from this have "queue_entry_ok trie immovable queue j" using ok that by (simp add: queue_ok_def)
    ultimately show ?thesis by (simp add: queue_entry_ok_def nth_append Let_def)
  qed
  then show ?thesis using ok vc new full by (auto simp: queue_ok_def nth_append)
qed

text \<open>What the scan of a bucket, and the whole search, return.\<close>

definition found_ok :: "cuckoo_trie \<Rightarrow> entry_ptr option \<Rightarrow> relocation_queue_entry list \<Rightarrow> nat \<Rightarrow> relocation_end \<Rightarrow> bool" where
  "found_ok trie immovable queue pos found \<longleftrightarrow> (let (k, child, read_lock, free_cell) = found in
     movable trie immovable (rq_bucket (queue ! pos)) k child \<and> child \<notin> rq_bucket ` set queue \<and>
     read_lock = read_lock_bucket trie (unat child) \<and>
     find_free_cell_in_bucket (bucket_of trie child) = Some free_cell)"

lemma scan_children_ok:
  assumes "queue_ok trie immovable b0 queue" and v: "valid_table trie" and "pos < length queue" and "\<forall>i\<in>set is. i < 4"
    and "scan_children trie immovable pos is queue = (queue', found)"
  shows "queue_ok trie immovable b0 queue' \<and> pos < length queue' \<and> length queue \<le> length queue' \<and>
    (\<forall>f. found = Some f \<longrightarrow> found_ok trie immovable queue' pos f)"
  using assms
proof (induction "is" arbitrary: queue)
  case (Cons i "is")
  let ?b = "rq_bucket (queue ! pos)"
  let ?child = "alternate_bucket trie (cell trie (unat ?b, i)) ?b"
  show ?case
  proof (cases "immovable = Some (unat ?b, i) \<or> (unat ?b, i) = root_ptr \<or> list_ex (\<lambda>q. rq_bucket q = ?child) queue")
    case True
    then show ?thesis using Cons by (simp add: Let_def split: if_splits)
  next
    case False
    then have new: "?child \<notin> rq_bucket ` set queue" by (auto simp: list_ex_iff)
    have m: "movable trie immovable ?b i ?child" using False Cons.prems(4) by (simp add: movable_def)
    show ?thesis
    proof (cases "find_free_cell_in_bucket (bucket_of trie ?child)")
      case (Some k)
      then show ?thesis using Cons.prems False m new by (auto simp: Let_def found_ok_def)
    next
      case None
      let ?q = "\<lparr>rq_bucket = ?child, rq_read_lock = read_lock_bucket trie (unat ?child),
          parent_queue_pos = int pos, rq_child_idx = i\<rparr>"
      have q: "queue_ok trie immovable b0 (queue @ [?q])"
        by (rule queue_ok_append [OF Cons.prems(1) v Cons.prems(3) m new None])
      show ?thesis
      proof (cases "length queue < RELOCATE_QUEUE_SIZE")
        case True
        then have "scan_children trie immovable pos is (queue @ [?q]) = (queue', found)"
          using Cons.prems(5) False None by (simp add: Let_def)
        from Cons.IH [OF q v _ _ this] Cons.prems show ?thesis by auto
      next
        case full: False
        then have "scan_children trie immovable pos is queue = (queue', found)"
          using Cons.prems(5) False None by (simp add: Let_def)
        from Cons.IH [OF Cons.prems(1) v _ _ this] Cons.prems show ?thesis by auto
      qed
    qed
  qed
qed auto

lemma relocate_search_length:
  "relocate_search trie immovable queue pos = Some (queue', pos', found) \<Longrightarrow>
    length queue' \<le> max RELOCATE_QUEUE_SIZE (length queue)"
proof (induction trie immovable queue pos rule: relocate_search.induct)
  case (1 trie immovable queue pos)
  obtain q f where s: "scan_children trie immovable pos [0, 1, 2, 3] queue = (q, f)" by fastforce
  have le: "length q \<le> max RELOCATE_QUEUE_SIZE (length queue)"
    using scan_children_length [of trie immovable pos "[0, 1, 2, 3]" queue] s by simp
  have pos: "pos < length queue" using 1(2) by (auto simp: relocate_search.simps [of _ _ queue pos] split: if_splits)
  show ?case
  proof (cases f)
    case (Some f')
    then show ?thesis using 1(2) s pos le by (auto simp: relocate_search.simps [of _ _ queue pos])
  next
    case None
    then have "relocate_search trie immovable q (pos + 1) = Some (queue', pos', found)"
      using 1(2) s pos by (simp add: relocate_search.simps [of _ _ queue pos])
    from 1(1) [OF pos s [symmetric] None this] show ?thesis using le by simp
  qed
qed

lemma relocate_search_ok:
  assumes "queue_ok trie immovable b0 queue" and "valid_table trie"
    and "relocate_search trie immovable queue pos = Some (queue', pos', found)"
  shows "queue_ok trie immovable b0 queue' \<and> 0 < pos' \<and> pos' \<le> length queue' \<and> found_ok trie immovable queue' (pos' - 1) found"
  using assms
proof (induction trie immovable queue pos rule: relocate_search.induct)
  case (1 trie immovable queue pos)
  show ?case
  proof (cases "pos < length queue")
    case True
    obtain q f where s: "scan_children trie immovable pos [0, 1, 2, 3] queue = (q, f)" by fastforce
    have ok: "queue_ok trie immovable b0 q \<and> pos < length q \<and> length queue \<le> length q \<and>
        (\<forall>f'. f = Some f' \<longrightarrow> found_ok trie immovable q pos f')"
      by (rule scan_children_ok [OF 1(2,3) True _ s]) simp
    show ?thesis
    proof (cases f)
      case (Some f')
      then show ?thesis using 1(4) ok True s by (auto simp: relocate_search.simps [of _ _ queue pos])
    next
      case None
      then have "relocate_search trie immovable q (pos + 1) = Some (queue', pos', found)"
        using 1(4) True s by (simp add: relocate_search.simps [of _ _ queue pos])
      then show ?thesis using 1(1) [OF True s [symmetric] None _ 1(3)] ok by simp
    qed
  next
    case False
    then show ?thesis using 1(4) by (simp add: relocate_search.simps [of _ _ queue pos])
  qed
qed

subsection \<open>Locking and releasing the path\<close>

text \<open>The queue positions from \<open>pos\<close> up to the first one, which is left out.\<close>

function queue_path :: "relocation_queue_entry list \<Rightarrow> nat \<Rightarrow> nat list" where
  "queue_path queue pos =
     (if pos = 0 then []
      else let p = nat (parent_queue_pos (queue ! pos)) in pos # (if p < pos then queue_path queue p else []))"
  by pat_completeness auto
termination by (relation "measure snd") auto

declare queue_path.simps [simp del]

definition path_buckets :: "relocation_queue_entry list \<Rightarrow> nat \<Rightarrow> nat list" where
  "path_buckets queue pos = map (\<lambda>j. unat (rq_bucket (queue ! j))) (queue_path queue pos)"

lemma path_buckets_0 [simp]: "path_buckets queue 0 = []"
  by (simp add: path_buckets_def queue_path.simps)

lemma queue_parent:
  assumes "queue_ok trie immovable b0 queue" and "pos < length queue" and "pos \<noteq> 0"
  defines "p \<equiv> nat (parent_queue_pos (queue ! pos))"
  shows "p < pos" and "p < length queue"
    and "movable trie immovable (rq_bucket (queue ! p)) (rq_child_idx (queue ! pos)) (rq_bucket (queue ! pos))"
    and "rq_read_lock (queue ! pos) = read_lock_bucket trie (unat (rq_bucket (queue ! pos)))"
    and "path_buckets queue pos = unat (rq_bucket (queue ! pos)) # path_buckets queue p"
proof -
  have "queue_entry_ok trie immovable queue pos" using assms by (simp add: queue_ok_def)
  then show "p < pos" and "movable trie immovable (rq_bucket (queue ! p)) (rq_child_idx (queue ! pos)) (rq_bucket (queue ! pos))"
    and "rq_read_lock (queue ! pos) = read_lock_bucket trie (unat (rq_bucket (queue ! pos)))"
    by (simp_all add: queue_entry_ok_def p_def Let_def)
  then show "p < length queue" and "path_buckets queue pos = unat (rq_bucket (queue ! pos)) # path_buckets queue p"
    using assms(2,3) by (simp_all add: path_buckets_def queue_path.simps [of queue pos] p_def Let_def)
qed

lemma queue_bucket:
  assumes "queue_ok trie immovable b0 queue" and "wf_trie trie" and "pos < length queue"
  shows "valid_bucket trie (rq_bucket (queue ! pos))" and "unat (rq_bucket (queue ! pos)) < length (buckets trie)"
    and "find_free_cell_in_bucket (bucket_of trie (rq_bucket (queue ! pos))) = None"
proof -
  show "valid_bucket trie (rq_bucket (queue ! pos))"
    and "find_free_cell_in_bucket (bucket_of trie (rq_bucket (queue ! pos))) = None"
    using assms by (simp_all add: queue_ok_def)
  then show "unat (rq_bucket (queue ! pos)) < length (buckets trie)"
    using assms(2) by (simp add: wf_trie_def valid_bucket_unat)
qed

lemma upgrade_path_ok:
  assumes q: "queue_ok t0 immovable b0 queue" and wf: "wf_trie t0" and pos: "pos < length queue"
    and ok: "locks_ok others (trie, mgr)" and u: "unlocked trie = unlocked t0"
  shows "\<exists>st n trie' mgr'. upgrade_path queue pos c (trie, mgr) = Some (st, c + n, trie', mgr') \<and>
    (st = SI_OK \<or> st = SI_RETRY) \<and> locks_ok others (trie', mgr') \<and> unlocked trie' = unlocked trie \<and>
    n \<le> length (path_buckets queue pos) \<and> (st = SI_OK \<longrightarrow> n = length (path_buckets queue pos)) \<and>
    spare_refs mgr' = (\<lambda>b. spare_refs mgr b + count_list (take n (path_buckets queue pos)) b) \<and>
    (\<forall>p. snd p < CUCKOO_BUCKET_SIZE \<longrightarrow> entry_refs mgr' p = entry_refs mgr p)"
  using pos ok u
proof (induction pos arbitrary: trie mgr c rule: less_induct)
  case (less pos)
  show ?case
  proof (cases "pos = 0")
    case True
    then show ?thesis using less.prems by (subst upgrade_path.simps) auto
  next
    case False
    let ?p = "nat (parent_queue_pos (queue ! pos))" and ?b = "unat (rq_bucket (queue ! pos))"
    note par = queue_parent [OF q less.prems(1) False]
    have b: "rl_bucket (rq_read_lock (queue ! pos)) = ?b" using par(4) by (simp add: read_lock_bucket_def)
    have bl: "rl_bucket (rq_read_lock (queue ! pos)) < length (buckets trie)"
      using queue_bucket(2) [OF q wf less.prems(1)] unlocked_eqD(1) [OF less.prems(3)] b by simp
    obtain st t1 m1 where s: "upgrade_bucket_lock (trie, mgr) (rq_read_lock (queue ! pos)) = (st, t1, m1)"
      by (cases "upgrade_bucket_lock (trie, mgr) (rq_read_lock (queue ! pos))") auto
    note up = upgrade_bucket_lock_ok [OF less.prems(2) bl s]
    show ?thesis
    proof (cases "st = SI_OK")
      case True
      note refs = spare_refs_upgrade [OF less.prems(2) bl s [unfolded True]]
      have u1: "unlocked t1 = unlocked t0" using up(2) less.prems(3) by simp
      have ok1: "locks_ok others (t1, m1)" using up(1) by simp
      from less.IH [OF par(1,2) ok1 u1, of "c + 1"] obtain st' n t2 m2 where
        r: "upgrade_path queue ?p (c + 1) (t1, m1) = Some (st', c + 1 + n, t2, m2)"
          "st' = SI_OK \<or> st' = SI_RETRY" "locks_ok others (t2, m2)" "unlocked t2 = unlocked t1"
          "n \<le> length (path_buckets queue ?p)" "st' = SI_OK \<longrightarrow> n = length (path_buckets queue ?p)"
          "spare_refs m2 = (\<lambda>b. spare_refs m1 b + count_list (take n (path_buckets queue ?p)) b)"
          "\<forall>p. snd p < CUCKOO_BUCKET_SIZE \<longrightarrow> entry_refs m2 p = entry_refs m1 p" by blast
      have "upgrade_path queue pos c (trie, mgr) = Some (st', c + Suc n, t2, m2)"
        using False True s r(1) by (subst upgrade_path.simps) simp
      moreover have "spare_refs m2 = (\<lambda>b. spare_refs mgr b + count_list (take (Suc n) (path_buckets queue pos)) b)"
        using r(7) refs(1) par(5) b by (auto simp: fun_eq_iff)
      moreover have "\<forall>p. snd p < CUCKOO_BUCKET_SIZE \<longrightarrow> entry_refs m2 p = entry_refs mgr p" using r(8) refs(2) by simp
      moreover have "unlocked t2 = unlocked trie" using r(4) up(2) by simp
      moreover have "Suc n \<le> length (path_buckets queue pos)" "st' = SI_OK \<longrightarrow> Suc n = length (path_buckets queue pos)"
        using r(5,6) par(5) by auto
      ultimately show ?thesis using r(2,3) by blast
    next
      case fail: False
      then have st: "st = SI_RETRY" using up(3) by blast
      then have same: "t1 = trie" "m1 = mgr" using up(4) by auto
      have "upgrade_path queue pos c (trie, mgr) = Some (SI_RETRY, c + 0, trie, mgr)"
        using False st s same by (subst upgrade_path.simps) simp
      then show ?thesis using less.prems by (intro exI [of _ SI_RETRY] exI [of _ 0]) auto
    qed
  qed
qed

lemma release_path_ok:
  assumes q: "queue_ok t0 immovable b0 queue" and pos: "pos < length queue" and ok: "locks_ok others (trie, mgr)"
    and n: "n \<le> length (path_buckets queue pos)"
    and refs: "\<forall>b. count_list (take n (path_buckets queue pos)) b \<le> spare_refs mgr b"
  shows "\<exists>trie' mgr'. release_path n queue pos (trie, mgr) = (trie', mgr') \<and> locks_ok others (trie', mgr') \<and>
    unlocked trie' = unlocked trie \<and>
    spare_refs mgr' = (\<lambda>b. spare_refs mgr b - count_list (take n (path_buckets queue pos)) b) \<and>
    (\<forall>p. snd p < CUCKOO_BUCKET_SIZE \<longrightarrow> entry_refs mgr' p = entry_refs mgr p)"
  using pos ok n refs
proof (induction n arbitrary: pos trie mgr)
  case (Suc n)
  have "pos \<noteq> 0" using Suc.prems(3) by (cases pos) auto
  note par = queue_parent [OF q Suc.prems(1) this]
  let ?p = "nat (parent_queue_pos (queue ! pos))" and ?b = "unat (rq_bucket (queue ! pos))"
  have spare: "0 < spare_refs mgr ?b" using Suc.prems(4) par(5) by (auto dest: spec [of _ ?b])
  obtain t1 m1 where s: "release_bucket_lock (trie, mgr) ?b = (t1, m1)"
    by (cases "release_bucket_lock (trie, mgr) ?b")
  note rel = release_bucket_lock_ok [OF Suc.prems(2) spare, unfolded s]
  note r = spare_refs_release [OF Suc.prems(2) spare s]
  have "\<forall>b. count_list (take n (path_buckets queue ?p)) b \<le> spare_refs m1 b"
  proof
    fix b
    show "count_list (take n (path_buckets queue ?p)) b \<le> spare_refs m1 b"
      using spec [OF Suc.prems(4), of b] par(5) r(1) by (auto split: if_splits)
  qed
  from Suc.IH [OF par(2) rel(1) _ this] obtain t2 m2 where
    i: "release_path n queue ?p (t1, m1) = (t2, m2)" "locks_ok others (t2, m2)" "unlocked t2 = unlocked t1"
      "spare_refs m2 = (\<lambda>b. spare_refs m1 b - count_list (take n (path_buckets queue ?p)) b)"
      "\<forall>p. snd p < CUCKOO_BUCKET_SIZE \<longrightarrow> entry_refs m2 p = entry_refs m1 p"
    using Suc.prems(3) par(5) by auto
  have "spare_refs m2 = (\<lambda>b. spare_refs mgr b - count_list (take (Suc n) (path_buckets queue pos)) b)"
    using i(4) r(1) par(5) by (auto simp: fun_eq_iff)
  then show ?case using i s rel(2) r(2) by simp
qed simp

subsection \<open>Moving the entries\<close>

lemma entry_buf_toggle: "e\<lparr>parent_color_and_flags := parent_color_and_flags e XOR FLAG_SECONDARY_BUCKET\<rparr> = toggle_side e"
  by (simp add: toggle_side_def)

text \<open>The state while a chain of entries moves up to position \<open>pos\<close>; \<open>free\<close> is the stale cell.\<close>

definition moving :: "cuckoo_trie \<Rightarrow> entry_ptr option \<Rightarrow> u64 \<Rightarrow> relocation_queue_entry list \<Rightarrow> nat set \<Rightarrow> nat
    \<Rightarrow> nat \<Rightarrow> entry_ptr \<Rightarrow> lock_state \<Rightarrow> bool" where
  "moving t0 immovable b0 queue others pos k free s \<longleftrightarrow> (let (trie, mgr) = s in
     pos < length queue \<and> table_ok trie \<and> locks_ok others (trie, mgr) \<and>
     num_buckets trie = num_buckets t0 \<and> alternate_bucket trie = alternate_bucket t0 \<and>
     (\<forall>j\<le>pos. \<forall>i<4. cell trie (unat (rq_bucket (queue ! j)), i) = cell t0 (unat (rq_bucket (queue ! j)), i)) \<and>
     (\<forall>j\<le>pos. unat (rq_bucket (queue ! j)) \<noteq> fst free) \<and>
     free \<in> table_cells trie \<and> movable t0 immovable (rq_bucket (queue ! pos)) k (of_nat (fst free)) \<and>
     0 < spare_refs mgr (fst free) \<and> 0 < spare_refs mgr (unat b0) \<and>
     (\<forall>b\<in>set (path_buckets queue pos). 0 < spare_refs mgr b))"

lemma moving_step:
  assumes q: "queue_ok t0 immovable b0 queue" and m: "moving t0 immovable b0 queue others pos k free (trie, mgr)"
  defines "occ \<equiv> (unat (rq_bucket (queue ! pos)), k)"
  defines "t1 \<equiv> snd (write_entry trie free (toggle_side (cell trie occ)))" and "m1 \<equiv> move_entry_lock mgr free occ"
  shows "table_ok t1" and "locks_ok others (t1, m1)" and "spare_refs m1 = spare_refs mgr" and "occ \<in> table_cells t1"
    and "content_without t1 occ = content_without trie free" and "cell t1 q = (if q = free then toggle_side (cell trie occ) else cell trie q)"
    and "pos \<noteq> 0 \<Longrightarrow> moving t0 immovable b0 queue others (nat (parent_queue_pos (queue ! pos)))
      (rq_child_idx (queue ! pos)) occ (t1, m1)"
proof -
  let ?e = "cell trie occ"
  have pos: "pos < length queue" and tok: "table_ok trie" and lok: "locks_ok others (trie, mgr)"
    and nb: "num_buckets trie = num_buckets t0" and alt: "alternate_bucket trie = alternate_bucket t0"
    and cells: "\<forall>j\<le>pos. \<forall>i<4. cell trie (unat (rq_bucket (queue ! j)), i) = cell t0 (unat (rq_bucket (queue ! j)), i)"
    and ne: "\<forall>j\<le>pos. unat (rq_bucket (queue ! j)) \<noteq> fst free"
    and free: "free \<in> table_cells trie" and mov: "movable t0 immovable (rq_bucket (queue ! pos)) k (of_nat (fst free))"
    and spares: "0 < spare_refs mgr (fst free)" "0 < spare_refs mgr (unat b0)" "\<forall>b\<in>set (path_buckets queue pos). 0 < spare_refs mgr b"
    using m by (simp_all add: moving_def)
  have vb: "valid_bucket t0 (rq_bucket (queue ! pos))" using q pos by (simp add: queue_ok_def)
  have k: "k < 4" using mov by (simp add: movable_def)
  have occ: "occ \<in> table_cells trie" using vb k nb by (simp add: table_cells_def occ_def valid_bucket_unat)
  then show "occ \<in> table_cells t1" by (simp add: t1_def)
  have e0: "?e = cell t0 occ" using cells k by (simp add: occ_def)
  have fl: "fst free < 2 ^ 64"
    using free unsigned_less [of "num_buckets trie", where 'a = nat] by (auto simp: table_cells_def)
  then have f: "fst free = unat (alternate_bucket trie ?e (of_nat (fst occ)))"
  proof -
    have "unat (of_nat (fst free) :: u64) = fst free" using fl by (simp add: unat_of_nat)
    then show ?thesis using mov e0 by (simp add: movable_def alt occ_def)
  qed
  have nf: "occ \<noteq> free" using ne by (auto simp: occ_def)
  have we: "wf_entry (toggle_side ?e)" using table_cells_valid [OF tok occ] by simp
  have marked: "marked_if_unused (toggle_side ?e)"
    using tok occ by (simp add: table_ok_cells)
  show tok1: "table_ok t1" unfolding t1_def by (rule table_ok_write_entry [OF tok free we marked])
  show content: "content_without t1 occ = content_without trie free"
    unfolding t1_def by (rule move_entry_content [OF tok free occ nf f])
  show cell: "cell t1 q = (if q = free then toggle_side ?e else cell trie q)" for q
    unfolding t1_def by (rule cell_write_entry [OF tok free we])
  have so: "0 < spare_refs mgr (fst occ)"
  proof (cases "pos = 0")
    case True
    then show ?thesis using spares(2) q by (simp add: occ_def queue_ok_def)
  next
    case False
    then show ?thesis using spares(3) queue_parent(5) [OF q pos] by (simp add: occ_def)
  qed
  have held: "fst free \<in> held mgr"
    using spares(1) by (auto simp: held_lock_on spare_refs_lock_on split: option.splits)
  have kf: "snd occ < 4" "snd free < 4" using k free by (auto simp: occ_def table_cells_def)
  have nfb: "fst occ \<noteq> fst free" using ne by (simp add: occ_def)
  show sp: "spare_refs m1 = spare_refs mgr" unfolding m1_def by (rule spare_refs_move [OF lok so held kf nfb])
  have "locks_ok others (trie, m1)" unfolding m1_def by (rule move_entry_lock_ok(1) [OF lok so kf nfb])
  then show lok1: "locks_ok others (t1, m1)" unfolding t1_def by (rule locks_ok_write_entry)
  show "moving t0 immovable b0 queue others (nat (parent_queue_pos (queue ! pos))) (rq_child_idx (queue ! pos)) occ (t1, m1)"
    if "pos \<noteq> 0"
  proof -
    note par = queue_parent [OF q pos that]
    let ?p = "nat (parent_queue_pos (queue ! pos))"
    have dist: "rq_bucket (queue ! j) \<noteq> rq_bucket (queue ! pos)" if "j \<le> ?p" for j
      using q pos par(1) that by (auto simp: queue_ok_def distinct_conv_nth)
    then have "\<forall>j\<le>?p. unat (rq_bucket (queue ! j)) \<noteq> fst occ" unfolding word_unat_eq_iff occ_def by simp
    moreover have "\<forall>j\<le>?p. \<forall>i<4. cell t1 (unat (rq_bucket (queue ! j)), i) = cell t0 (unat (rq_bucket (queue ! j)), i)"
    proof (intro allI impI)
      fix j i :: nat assume ji: "j \<le> ?p" "i < 4"
      then have "j \<le> pos" using par(1) by simp
      then show "cell t1 (unat (rq_bucket (queue ! j)), i) = cell t0 (unat (rq_bucket (queue ! j)), i)"
        using cells ne ji(2) by (simp add: cell) (metis fst_conv)
    qed
    moreover have "movable t0 immovable (rq_bucket (queue ! ?p)) (rq_child_idx (queue ! pos)) (of_nat (fst occ))"
      using par(3) by (simp add: occ_def)
    moreover have "occ \<in> table_cells t1" using occ by (simp add: t1_def)
    moreover have "num_buckets t1 = num_buckets t0" "alternate_bucket t1 = alternate_bucket t0"
      by (simp_all add: t1_def nb alt)
    ultimately show ?thesis
      using par(2) tok1 lok1 so spares par(5) by (simp add: moving_def sp)
  qed
qed

lemma move_path_ok:
  assumes q: "queue_ok t0 immovable b0 queue" and m: "moving t0 immovable b0 queue others pos k free (trie, mgr)"
  shows "\<exists>occ buf trie' mgr'. move_path queue pos k free (trie, mgr) = Some (occ, buf, trie', mgr') \<and>
    fst occ = unat b0 \<and> snd occ < 4 \<and> immovable \<noteq> Some occ \<and> occ \<noteq> root_ptr \<and> occ \<in> table_cells trie' \<and>
    wf_entry buf \<and> table_ok trie' \<and> locks_ok others (trie', mgr') \<and> spare_refs mgr' = spare_refs mgr \<and>
    content_without trie' occ = content_without trie free \<and>
    num_buckets trie' = num_buckets trie \<and> mix_bucket trie' = mix_bucket trie \<and>
    wrote {..<unat (num_buckets t0)} (pos + 1) trie trie' \<and>
    (\<forall>p. p \<noteq> free \<longrightarrow> immovable = Some p \<or> p = root_ptr \<longrightarrow> cell trie' p = cell trie p)"
  using m
proof (induction pos arbitrary: k free trie mgr rule: less_induct)
  case (less pos)
  let ?occ = "(unat (rq_bucket (queue ! pos)), k)"
  let ?t1 = "snd (write_entry trie free (toggle_side (cell trie ?occ)))" and ?m1 = "move_entry_lock mgr free ?occ"
  note st = moving_step [OF q less.prems]
  have mov: "movable t0 immovable (rq_bucket (queue ! pos)) k (of_nat (fst free))" and pos: "pos < length queue"
    and tok: "table_ok trie" and nb: "num_buckets trie = num_buckets t0" and free: "free \<in> table_cells trie"
    using less.prems by (simp_all add: moving_def)
  have "?occ \<in> table_cells trie" using st(4) by simp
  then have "wf_entry (toggle_side (cell trie ?occ))" using table_cells_valid [OF tok] by simp
  from wrote_write_entry [OF free tok this] have w: "wrote {..<unat (num_buckets t0)} 1 trie ?t1" by (simp add: nb)
  have unroll: "move_path queue pos k free (trie, mgr) =
      (if pos = 0 then Some (?occ, toggle_side (cell trie ?occ), ?t1, ?m1)
       else move_path queue (nat (parent_queue_pos (queue ! pos))) (rq_child_idx (queue ! pos)) ?occ (?t1, ?m1))"
    by (subst move_path.simps) (simp add: Let_def entry_buf_toggle)
  show ?case
  proof (cases "pos = 0")
    case True
    have "?occ \<in> table_cells trie" using st(4) by simp
    then have "wf_entry (toggle_side (cell trie ?occ))" using table_cells_valid [OF tok] by simp
    moreover have "fst ?occ = unat b0" using q True by (simp add: queue_ok_def)
    moreover have "snd ?occ < 4" "immovable \<noteq> Some ?occ" "?occ \<noteq> root_ptr" using mov by (simp_all add: movable_def)
    moreover have "\<forall>p. p \<noteq> free \<longrightarrow> cell ?t1 p = cell trie p" by (simp add: st(6))
    moreover have "move_path queue pos k free (trie, mgr) = Some (?occ, toggle_side (cell trie ?occ), ?t1, ?m1)"
      unfolding unroll using True by (rule if_P)
    moreover have "wrote {..<unat (num_buckets t0)} (pos + 1) trie ?t1" using w True by simp
    ultimately show ?thesis
      using st(1-5) by (intro exI [of _ ?occ] exI [of _ "toggle_side (cell trie ?occ)"] exI [of _ ?t1] exI [of _ ?m1])
        (simp only: write_entry_fields simp_thms, blast)
  next
    case False
    note par = queue_parent [OF q pos False]
    from less.IH [OF par(1) st(7) [OF False]] obtain occ buf t2 m2 where
      r: "move_path queue (nat (parent_queue_pos (queue ! pos))) (rq_child_idx (queue ! pos)) ?occ (?t1, ?m1) = Some (occ, buf, t2, m2)"
        "fst occ = unat b0" "snd occ < 4" "immovable \<noteq> Some occ" "occ \<noteq> root_ptr" "occ \<in> table_cells t2" "wf_entry buf"
        "table_ok t2" "locks_ok others (t2, m2)" "spare_refs m2 = spare_refs ?m1"
        "content_without t2 occ = content_without ?t1 ?occ" "num_buckets t2 = num_buckets ?t1" "mix_bucket t2 = mix_bucket ?t1"
        "wrote {..<unat (num_buckets t0)} (nat (parent_queue_pos (queue ! pos)) + 1) ?t1 t2"
        "\<forall>p. p \<noteq> ?occ \<longrightarrow> immovable = Some p \<or> p = root_ptr \<longrightarrow> cell t2 p = cell ?t1 p" by blast
    have keep: "cell t2 p = cell trie p" if "p \<noteq> free" "immovable = Some p \<or> p = root_ptr" for p
    proof -
      have "p \<noteq> ?occ" using that(2) mov by (auto simp: movable_def)
      then have "cell t2 p = cell ?t1 p" using r(15) that(2) by blast
      also have "\<dots> = cell trie p" unfolding st(6) using that(1) by simp
      finally show ?thesis .
    qed
    have "move_path queue pos k free (trie, mgr) = Some (occ, buf, t2, m2)" using unroll False r(1) by simp
    moreover have "wrote {..<unat (num_buckets t0)} (pos + 1) trie t2"
      by (rule wrote_mono [OF wrote_trans [OF w r(14)]]) (use par(1) in simp_all)
    ultimately show ?thesis
      using r(2-13) st(3,5) keep
      by (intro exI [of _ occ] exI [of _ buf] exI [of _ t2] exI [of _ m2]) (simp only: write_entry_fields simp_thms, blast)
  qed
qed

subsection \<open>The relocation\<close>

lemma mark_unused_ok:
  assumes "wf_entry buf"
  shows "wf_entry (mark_unused buf)" and "entry_type (mark_unused buf) = TYPE_UNUSED" and "marked_if_unused (mark_unused buf)"
proof -
  have pc: "parent_color_and_flags (mark_unused buf) = 0x90" and ct: "color_and_tag (mark_unused buf) = 0x90"
    by (simp_all add: mark_unused_def)
  show "wf_entry (mark_unused buf)" using assms by (simp add: mark_unused_def wf_entry_def)
  show "entry_type (mark_unused buf) = TYPE_UNUSED" by (simp add: entry_type_def pc)
  have "drop_bit 4 (0x90 :: u8) = 9" by code_simp
  then show "marked_if_unused (mark_unused buf)"
    unfolding marked_if_unused_def entry_color_def entry_parent_color_def pc ct by simp
qed

lemma init_queue_ok:
  assumes "valid_bucket trie b0" and "find_free_cell_in_bucket (bucket_of trie b0) = None"
  shows "queue_ok trie immovable b0 [\<lparr>rq_bucket = b0, rq_read_lock = rl, parent_queue_pos = - 1, rq_child_idx = 0\<rparr>]"
  using assms by (simp add: queue_ok_def)

definition relocated :: "nat set \<Rightarrow> entry_ptr option \<Rightarrow> u64 \<Rightarrow> lock_state \<Rightarrow> status \<Rightarrow> entry_ptr option \<Rightarrow> lock_state \<Rightarrow> bool" where
  "relocated others immovable b0 s st out s' \<longleftrightarrow>
     table_ok (fst s') \<and> locks_ok others s' \<and> table_content (fst s') = table_content (fst s) \<and>
     num_buckets (fst s') = num_buckets (fst s) \<and> mix_bucket (fst s') = mix_bucket (fst s) \<and>
     spare_refs (snd s') = spare_refs (snd s) \<and>
     wrote {..<unat (num_buckets (fst s))} 1001 (fst s) (fst s') \<and>
     (st \<noteq> SI_OK \<longrightarrow> out = None \<and> unlocked (fst s') = unlocked (fst s) \<and>
        (\<forall>p. snd p < CUCKOO_BUCKET_SIZE \<longrightarrow> entry_refs (snd s') p = entry_refs (snd s) p)) \<and>
     (st = SI_OK \<longrightarrow> (\<exists>k<4. out = Some (unat b0, k) \<and> entry_type (cell (fst s') (unat b0, k)) = TYPE_UNUSED \<and>
        immovable \<noteq> Some (unat b0, k) \<and> (unat b0, k) \<noteq> root_ptr)) \<and>
     (\<forall>p\<in>table_cells (fst s). entry_type (cell (fst s) p) \<noteq> TYPE_UNUSED \<longrightarrow> immovable = Some p \<or> p = root_ptr \<longrightarrow>
        cell (fst s') p = cell (fst s) p)"

text \<open>The relocation always returns, and keeps what the table and the locks promise.\<close>

lemma release_both:
  assumes q: "queue_ok t0 immovable b0 queue" and pos: "pos < length queue" and ok: "locks_ok others (trie, mgr)"
    and n: "n \<le> length (path_buckets queue pos)"
    and refs: "spare_refs mgr = (\<lambda>b. (r(c := r c + 1)) b + count_list (take n (path_buckets queue pos)) b)"
  shows "\<exists>trie' mgr'. release_path n queue pos (release_bucket_lock (trie, mgr) c) = (trie', mgr') \<and> locks_ok others (trie', mgr') \<and>
    unlocked trie' = unlocked trie \<and> spare_refs mgr' = r \<and>
    (\<forall>p. snd p < CUCKOO_BUCKET_SIZE \<longrightarrow> entry_refs mgr' p = entry_refs mgr p)"
proof -
  obtain t1 m1 where s: "release_bucket_lock (trie, mgr) c = (t1, m1)" by (cases "release_bucket_lock (trie, mgr) c")
  have spare: "0 < spare_refs mgr c" using refs by (simp add: fun_eq_iff)
  note rel = release_bucket_lock_ok [OF ok spare, unfolded s] and r1 = spare_refs_release [OF ok spare s]
  have m1: "spare_refs m1 = (\<lambda>b. r b + count_list (take n (path_buckets queue pos)) b)"
    using refs r1(1) by (auto simp: fun_eq_iff)
  then have "\<forall>b. count_list (take n (path_buckets queue pos)) b \<le> spare_refs m1 b" by (simp add: fun_eq_iff)
  from release_path_ok [OF q pos rel(1) n this] obtain t2 m2 where
    "release_path n queue pos (t1, m1) = (t2, m2)" "locks_ok others (t2, m2)" "unlocked t2 = unlocked t1"
    "spare_refs m2 = (\<lambda>b. spare_refs m1 b - count_list (take n (path_buckets queue pos)) b)"
    "\<forall>p. snd p < CUCKOO_BUCKET_SIZE \<longrightarrow> entry_refs m2 p = entry_refs m1 p" by blast
  then show ?thesis using s rel(2) r1(2) m1 by (simp add: fun_eq_iff)
qed

lemma relocated_unchanged:
  assumes tok: "table_ok trie" and u: "unlocked t' = unlocked trie" "locks_ok others (t', m')" "spare_refs m' = spare_refs mgr" "st \<noteq> SI_OK"
    "\<forall>p. snd p < CUCKOO_BUCKET_SIZE \<longrightarrow> entry_refs m' p = entry_refs mgr p"
  shows "relocated others immovable b0 (trie, mgr) st None (t', m')"
proof -
  have "length (buckets t') = unat (num_buckets t') + 1"
    using unlocked_eqD(1) [OF u(1)] unlocked_fields(1) [OF u(1)] table_okD(3) [OF tok] by simp
  then have "table_content t' = table_content trie" by (rule content_unlocked [OF u(1)])
  moreover have "cell t' p = cell trie p" if "p \<in> table_cells trie" for p
    using that unlocked_eqD(1) [OF u(1)] table_okD(3) [OF tok] by (intro unlocked_cell [OF u(1)]) (auto simp: table_cells_def)
  ultimately show ?thesis
    using u table_ok_unlocked [OF u(1) tok] unlocked_fields(1,4) [OF u(1)]
      wrote_mono [OF wrote_unlocked [OF u(1)] zero_le order.refl, of _ 1001] by (simp add: relocated_def)
qed

text \<open>With the locks of the whole path, the entries on it can be moved.\<close>

lemma path_moving:
  assumes tok: "table_ok trie" and q: "queue_ok trie immovable b0 queue" and pos: "pos < length queue"
    and mov: "movable trie immovable (rq_bucket (queue ! pos)) k child" and new: "child \<notin> rq_bucket ` set queue"
    and vc: "valid_bucket trie child" and fc: "find_free_cell_in_bucket (bucket_of trie child) = Some fc"
    and u: "unlocked t2 = unlocked trie" and lok: "locks_ok others (t2, m2)" and spare0: "0 < r (unat b0)"
    and refs: "spare_refs m2 = (\<lambda>b. (r(unat child := r (unat child) + 1)) b + count_list (path_buckets queue pos) b)"
  shows "moving trie immovable b0 queue others pos k (unat child, fc) (t2, m2)"
    and "entry_type (cell t2 (unat child, fc)) = TYPE_UNUSED"
proof -
  have wf: "wf_trie trie" by (rule table_okD(1) [OF tok])
  have nb: "num_buckets t2 = num_buckets trie" and alt: "alternate_bucket t2 = alternate_bucket trie" using unlocked_fields [OF u] by simp_all
  have cells: "cell t2 p = cell trie p" if "fst p \<le> unat (num_buckets trie)" for p
    using that unlocked_eqD(1) [OF u] table_okD(3) [OF tok] by (intro unlocked_cell [OF u]) simp
  have tok2: "table_ok t2" by (rule table_ok_unlocked [OF u tok])
  have free: "(unat child, fc) \<in> table_cells t2" using find_free_Some(3) [OF wf vc fc] by (simp add: table_cells_def nb)
  have "unat child \<le> unat (num_buckets trie)" using vc by (simp add: valid_bucket_unat)
  then show "entry_type (cell t2 (unat child, fc)) = TYPE_UNUSED" using find_free_Some(2) [OF wf vc fc] by (simp add: cells)
  have qb: "unat (rq_bucket (queue ! j)) \<le> unat (num_buckets trie)" if "j \<le> pos" for j
    using queue_bucket(1) [OF q wf, of j] that pos by (simp add: valid_bucket_unat)
  have "rq_bucket (queue ! j) \<noteq> child" if "j \<le> pos" for j
  proof -
    have "rq_bucket (queue ! j) \<in> rq_bucket ` set queue" using that pos by simp
    then show ?thesis using new by auto
  qed
  then have ne: "\<forall>j\<le>pos. unat (rq_bucket (queue ! j)) \<noteq> unat child" unfolding word_unat_eq_iff by simp
  have "0 < spare_refs m2 b" if "b \<in> set (path_buckets queue pos)" for b
  proof -
    have "0 < count_list (path_buckets queue pos) b" using that count_list_0_iff by (metis gr0I)
    then show ?thesis by (simp add: refs)
  qed
  then show "moving trie immovable b0 queue others pos k (unat child, fc) (t2, m2)"
    using pos tok2 lok nb alt cells qb ne free mov spare0 refs by (simp add: moving_def)
qed

text \<open>The moves, the store that empties the last cell, and the release of the locks.\<close>

lemma finish_move:
  assumes tok: "table_ok trie" and q: "queue_ok trie immovable b0 queue" and pos: "pos < length queue" and len: "length queue \<le> 1000"
    and mv: "moving trie immovable b0 queue others pos k (c, fc) (t2, m2)" and unused: "entry_type (cell t2 (c, fc)) = TYPE_UNUSED"
    and u: "unlocked t2 = unlocked trie" and n: "n \<le> length (path_buckets queue pos)"
    and refs: "spare_refs m2 = (\<lambda>b. ((spare_refs mgr)(c := spare_refs mgr c + 1)) b + count_list (take n (path_buckets queue pos)) b)"
  shows "\<exists>occ buf t3 m3 t5 m5. move_path queue pos k (c, fc) (t2, m2) = Some (occ, buf, t3, m3) \<and>
    release_path n queue pos (release_bucket_lock (snd (write_entry t3 occ (mark_unused buf)), m3) c) = (t5, m5) \<and>
    relocated others immovable b0 (trie, mgr) SI_OK (Some occ) (t5, m5)"
proof -
  have tok2: "table_ok t2" by (rule table_ok_unlocked [OF u tok])
  have nb: "num_buckets t2 = num_buckets trie" and mix: "mix_bucket t2 = mix_bucket trie" using unlocked_fields [OF u] by simp_all
  have cells: "cell t2 p = cell trie p" if "fst p \<le> unat (num_buckets trie)" for p
    using that unlocked_eqD(1) [OF u] table_okD(3) [OF tok] by (intro unlocked_cell [OF u]) simp
  from move_path_ok [OF q mv] obtain occ buf t3 m3 where
    m: "move_path queue pos k (c, fc) (t2, m2) = Some (occ, buf, t3, m3)"
      "fst occ = unat b0" "snd occ < 4" "immovable \<noteq> Some occ" "occ \<noteq> root_ptr" "occ \<in> table_cells t3"
      "wf_entry buf" "table_ok t3" "locks_ok others (t3, m3)" "spare_refs m3 = spare_refs m2"
      "content_without t3 occ = content_without t2 (c, fc)" "num_buckets t3 = num_buckets t2"
      "mix_bucket t3 = mix_bucket t2" "wrote {..<unat (num_buckets trie)} (pos + 1) t2 t3"
      "\<forall>p. p \<noteq> (c, fc) \<longrightarrow> immovable = Some p \<or> p = root_ptr \<longrightarrow> cell t3 p = cell t2 p" by blast
  let ?t4 = "snd (write_entry t3 occ (mark_unused buf))"
  note mu = mark_unused_ok [OF m(7)]
  have cell4: "cell ?t4 p = (if p = occ then mark_unused buf else cell t3 p)" for p
    by (rule cell_write_entry [OF m(8,6) mu(1)])
  have tok4: "table_ok ?t4" by (rule table_ok_write_entry [OF m(8,6) mu(1,3)])
  have "table_content ?t4 = content_without ?t4 occ" using mu(2) by (simp add: content_without_unused cell4)
  also have "\<dots> = content_without t3 occ" by (rule content_without_write [OF m(8,6) mu(1)])
  also have "\<dots> = table_content t2" using m(11) content_without_unused [OF unused] by simp
  also have "\<dots> = table_content trie" using table_okD(3) [OF tok2] by (intro content_unlocked [OF u])
  finally have content4: "table_content ?t4 = table_content trie" .
  have refs3: "spare_refs m3 = (\<lambda>b. ((spare_refs mgr)(c := spare_refs mgr c + 1)) b +
      count_list (take n (path_buckets queue pos)) b)" using m(10) refs by simp
  from release_both [OF q pos locks_ok_write_entry [OF m(9)] n refs3, of occ "mark_unused buf"] obtain t5 m5 where
    r5: "release_path n queue pos (release_bucket_lock (?t4, m3) c) = (t5, m5)" "locks_ok others (t5, m5)"
      "unlocked t5 = unlocked ?t4" "spare_refs m5 = spare_refs mgr" by blast
  have le: "pos + 1 + 1 \<le> 1001" using pos len by simp
  have "wrote {..<unat (num_buckets trie)} 1 t3 ?t4" using wrote_write_entry [OF m(6,8) mu(1)] m(12) nb by simp
  from wrote_mono [OF wrote_trans [OF m(14) this] le order.refl]
  have "wrote {..<unat (num_buckets trie)} 1001 t2 ?t4" .
  from wrote_trans [OF wrote_trans [OF wrote_unlocked [OF u] this] wrote_unlocked [OF r5(3)]]
  have wr: "wrote {..<unat (num_buckets trie)} 1001 trie t5" by simp
  have tok5: "table_ok t5" by (rule table_ok_unlocked [OF r5(3) tok4])
  have content5: "table_content t5 = table_content trie"
    using content_unlocked [OF r5(3) table_okD(3) [OF tok5]] content4 by simp
  have fields5: "num_buckets t5 = num_buckets trie" "mix_bucket t5 = mix_bucket trie"
    using unlocked_fields(1,4) [OF r5(3)] m(12,13) nb mix by simp_all
  have cell5: "cell t5 p = cell ?t4 p" if "p \<in> table_cells trie" for p
    using that unlocked_eqD(1) [OF r5(3)] table_okD(3) [OF tok5] fields5(1)
    by (intro unlocked_cell [OF r5(3)]) (auto simp: table_cells_def)
  have occ: "occ \<in> table_cells trie" using m(6,12) nb by (simp add: table_cells_def)
  have keep: "cell t5 p = cell trie p"
    if "p \<in> table_cells trie" "entry_type (cell trie p) \<noteq> TYPE_UNUSED" "immovable = Some p \<or> p = root_ptr" for p
  proof -
    have "cell t2 p = cell trie p" using that(1) by (intro cells) (auto simp: table_cells_def)
    moreover from this have "cell t3 p = cell t2 p" using m(15) that(2,3) unused by metis
    moreover have "p \<noteq> occ" using that(3) m(4,5) by auto
    ultimately show ?thesis using cell5 [OF that(1)] by (simp add: cell4)
  qed
  have "entry_type (cell t5 occ) = TYPE_UNUSED" using cell5 [OF occ] mu(2) by (simp add: cell4)
  then have "relocated others immovable b0 (trie, mgr) SI_OK (Some occ) (t5, m5)"
    using tok5 r5(2,4) content5 fields5 m(2,3,4,5) keep wr by (cases occ) (auto simp: relocated_def)
  then show ?thesis using m(1) r5(1) by blast
qed

lemma relocate_entry_ok:
  assumes tok: "table_ok trie" and lok: "locks_ok others (trie, mgr)" and vb: "valid_bucket trie b0"
    and full: "find_free_cell_in_bucket (bucket_of trie b0) = None" and spare0: "0 < spare_refs mgr (unat b0)"
  shows "\<exists>st out s'. relocate_entry (trie, mgr) b0 immovable = Some (st, out, s') \<and>
    st \<in> {SI_OK, SI_RETRY, SI_FAIL} \<and> relocated others immovable b0 (trie, mgr) st out s'"
proof -
  let ?q0 = "[\<lparr>rq_bucket = b0, rq_read_lock = \<lparr>rl_bucket = 0, rl_seq = 0\<rparr>, parent_queue_pos = - 1, rq_child_idx = 0\<rparr>]"
  have wf: "wf_trie trie" and vt: "valid_table trie" using table_okD(1,2) [OF tok] .
  note unchanged = relocated_unchanged [OF tok]
  show ?thesis
  proof (cases "relocate_search trie immovable ?q0 0")
    case None
    then have "relocate_entry (trie, mgr) b0 immovable = Some (SI_FAIL, None, trie, mgr)"
      by (simp add: relocate_entry_def)
    then show ?thesis using unchanged [where t' = trie and m' = mgr and st = SI_FAIL] lok by blast
  next
    case (Some res)
    obtain queue qp k child rl fc where res: "res = (queue, qp, k, child, rl, fc)" by (cases res)
    note so = relocate_search_ok [OF init_queue_ok [OF vb full] vt Some [unfolded res]]
    let ?pos = "qp - 1"
    have q: "queue_ok trie immovable b0 queue" and pos: "?pos < length queue"
      and mov: "movable trie immovable (rq_bucket (queue ! ?pos)) k child" and new: "child \<notin> rq_bucket ` set queue"
      and rl: "rl = read_lock_bucket trie (unat child)" and fc: "find_free_cell_in_bucket (bucket_of trie child) = Some fc"
      using so by (auto simp: found_ok_def)
    have vc: "valid_bucket trie child" using movable_child [OF vt queue_bucket(1) [OF q wf pos] mov] .
    have rb: "rl_bucket rl = unat child" by (simp add: rl read_lock_bucket_def)
    have bl: "rl_bucket rl < length (buckets trie)" using vc table_okD(3) [OF tok] by (simp add: rb valid_bucket_unat)
    have unroll: "relocate_entry (trie, mgr) b0 immovable = (
        let (ret, s) = upgrade_bucket_lock (trie, mgr) rl in
        if ret = SI_RETRY then Some (SI_RETRY, None, s)
        else do {
          (ret, n, s) \<leftarrow> upgrade_path queue ?pos 1 s;
          (output, s) \<leftarrow> (if ret = SI_RETRY then Some (None, s)
            else do {
              (occ, buf, trie, mgr) \<leftarrow> move_path queue ?pos k (unat child, fc) s;
              Some (Some occ, snd (write_entry trie occ (mark_unused buf)), mgr)
            });
          let s = release_bucket_lock s (unat child);
          Some (ret, output, release_path (n - 1) queue ?pos s)
        })"
      by (simp add: relocate_entry_def Some res Let_def)
    obtain st1 t1 m1 where s1: "upgrade_bucket_lock (trie, mgr) rl = (st1, t1, m1)"
      by (cases "upgrade_bucket_lock (trie, mgr) rl") auto
    note up = upgrade_bucket_lock_ok [OF lok bl s1]
    show ?thesis
    proof (cases "st1 = SI_OK")
      case False
      then have "relocate_entry (trie, mgr) b0 immovable = Some (SI_RETRY, None, trie, mgr)"
        using up(3,4) s1 by (auto simp: unroll)
      then show ?thesis using unchanged [where t' = trie and m' = mgr and st = SI_RETRY] lok by blast
    next
      case True
      note r1 = spare_refs_upgrade [OF lok bl s1 [unfolded True], unfolded rb]
      have ok1: "locks_ok others (t1, m1)" and u1: "unlocked t1 = unlocked trie" using up(1,2) by simp_all
      from upgrade_path_ok [OF q wf pos ok1 u1, of 1] obtain st2 n t2 m2 where
        s2: "upgrade_path queue ?pos 1 (t1, m1) = Some (st2, 1 + n, t2, m2)" "st2 = SI_OK \<or> st2 = SI_RETRY"
          "locks_ok others (t2, m2)" "unlocked t2 = unlocked t1" "n \<le> length (path_buckets queue ?pos)"
          "st2 = SI_OK \<longrightarrow> n = length (path_buckets queue ?pos)"
          "spare_refs m2 = (\<lambda>b. spare_refs m1 b + count_list (take n (path_buckets queue ?pos)) b)"
          "\<forall>p. snd p < CUCKOO_BUCKET_SIZE \<longrightarrow> entry_refs m2 p = entry_refs m1 p" by blast
      have refs2: "spare_refs m2 = (\<lambda>b. ((spare_refs mgr)(unat child := spare_refs mgr (unat child) + 1)) b +
          count_list (take n (path_buckets queue ?pos)) b)"
        using s2(7) r1(1) by simp
      have u2: "unlocked t2 = unlocked trie" using s2(4) u1 by simp
      show ?thesis
      proof (cases "st2 = SI_OK")
        case False
        then have st2: "st2 = SI_RETRY" using s2(2) by simp
        from release_both [OF q pos s2(3,5) refs2] obtain t3 m3 where
          r3: "release_path n queue ?pos (release_bucket_lock (t2, m2) (unat child)) = (t3, m3)" "locks_ok others (t3, m3)"
            "unlocked t3 = unlocked t2" "spare_refs m3 = spare_refs mgr"
            "\<forall>p. snd p < CUCKOO_BUCKET_SIZE \<longrightarrow> entry_refs m3 p = entry_refs m2 p" by blast
        have "relocate_entry (trie, mgr) b0 immovable = Some (SI_RETRY, None, t3, m3)"
          using s1 True s2(1) st2 r3(1) by (simp add: unroll)
        then show ?thesis using unchanged [where t' = t3 and m' = m3 and st = SI_RETRY] r3 u2 s2(8) r1(2) by auto
      next
        case True2: True
        have refs: "spare_refs m2 = (\<lambda>b. ((spare_refs mgr)(unat child := spare_refs mgr (unat child) + 1)) b +
            count_list (path_buckets queue ?pos) b)" using refs2 s2(6) True2 by simp
        note mv = path_moving [OF tok q pos mov new vc fc u2 s2(3) spare0 refs]
        have "length queue \<le> 1000" using relocate_search_length [OF Some [unfolded res]] by simp
        from finish_move [OF tok q pos this mv u2 s2(5) refs2] obtain occ buf t3 m3 t5 m5 where
          m: "move_path queue ?pos k (unat child, fc) (t2, m2) = Some (occ, buf, t3, m3)"
            "release_path n queue ?pos (release_bucket_lock (snd (write_entry t3 occ (mark_unused buf)), m3) (unat child)) = (t5, m5)"
            "relocated others immovable b0 (trie, mgr) SI_OK (Some occ) (t5, m5)" by blast
        then have "relocate_entry (trie, mgr) b0 immovable = Some (SI_OK, Some occ, t5, m5)"
          using s1 True s2(1) True2 by (simp add: unroll)
        then show ?thesis using m(3) by blast
      qed
    qed
  qed
qed

end
