(* ===== verification/AddEntry.thy ===== *)
theory AddEntry
  imports Relocate
begin

text \<open>
  Adding an entry: it ends in one of the two buckets of its pair, under a color that no
  entry of the pair with the same tag has, and nothing else of the content changes. When
  the call fails, for lack of space or because another thread interfered, the content and
  the locks are as before.
\<close>

subsection \<open>The entry as it is stored\<close>

definition stored_entry :: "ct_entry \<Rightarrow> bool \<Rightarrow> u8 \<Rightarrow> u64 \<Rightarrow> ct_entry" where
  "stored_entry e secondary color tag =
     entry_set_color_and_tag (entry_add_flags e (if secondary then ucast FLAG_SECONDARY_BUCKET else 0))
       (push_bit TAG_BITS (ucast color) OR tag)"

lemma color_tag_byte:
  assumes "nibble c" and "tag < 16"
  shows "push_bit 4 (ucast c) OR tag = (ucast (ucast tag OR push_bit 4 c :: u8) :: u64)"
proof -
  obtain t :: u8 where t: "tag = ucast t" "nibble t" using u64_nibble [OF assms(2)] by blast
  have "ucast (ucast tag :: u8) = tag" using t by (simp add: ucast_ucast_u8)
  moreover have "ucast (push_bit 4 c) = (push_bit 4 (ucast c) :: u64)" by (rule ucast_shift_nibble [OF assms(1)])
  ultimately show ?thesis by (simp only: unsigned_or_eq or.commute)
qed

lemma stored_entry_eq:
  assumes "wf_entry e" and "nibble c" and "tag < 16"
  shows "stored_entry e sec c tag = e\<lparr>parent_color_and_flags := parent_color_and_flags e OR (if sec then FLAG_SECONDARY_BUCKET else 0),
    color_and_tag := ucast tag OR push_bit 4 c\<rparr>"
proof -
  let ?v = "ucast (ucast tag OR push_bit 4 c :: u8) :: u64"
  let ?f = "if sec then ucast (FLAG_SECONDARY_BUCKET :: u8) else 0 :: u64"
  have f: "unat ?f < 256" "ucast ?f = (if sec then FLAG_SECONDARY_BUCKET else 0 :: u8)" by simp_all
  have "unat (ucast tag OR push_bit 4 c :: u8) < 256" using unsigned_less [of "ucast tag OR push_bit 4 c :: u8"] by simp
  then have v: "unat ?v < 256" by (simp add: unsigned_ucast_eq take_bit_nat_eq_self)
  have "wf_entry (entry_add_flags e ?f)"
    using assms(1) by (simp add: entry_add_flags_eq [OF assms(1) f(1)] wf_entry_def)
  then show ?thesis
    unfolding stored_entry_def color_tag_byte [OF assms(2,3)]
    by (simp only: entry_set_color_and_tag_eq [OF _ v] entry_add_flags_eq [OF assms(1) f(1)] f(2) ucast_ucast_u8)
qed

lemma stored_entry_fields:
  assumes e: "wf_entry e" "\<not> entry_is_secondary e" "entry_type e \<noteq> TYPE_UNUSED" and c: "nibble c" and t: "tag < 16"
  shows "wf_entry (stored_entry e sec c tag)" and "entry_tag (stored_entry e sec c tag) = ucast tag"
    and "entry_color (stored_entry e sec c tag) = c" and "entry_is_secondary (stored_entry e sec c tag) = sec"
    and "entry_type (stored_entry e sec c tag) \<noteq> TYPE_UNUSED" and "marked_if_unused (stored_entry e sec c tag)"
    and "erase_side (stored_entry e sec c tag) = e\<lparr>color_and_tag := ucast tag OR push_bit 4 c\<rparr>"
proof -
  let ?s = "stored_entry e sec c tag"
  note eq = stored_entry_eq [OF e(1) c t, of sec]
  have pc: "parent_color_and_flags ?s = parent_color_and_flags e OR (if sec then 4 else 0)" unfolding eq by simp
  have bits: "bit (parent_color_and_flags ?s) n \<longleftrightarrow> bit (parent_color_and_flags e) n \<or> sec \<and> n = 2" for n
    unfolding pc by (cases sec) (simp_all only: bit_or_iff bit_4 if_True if_False, auto)
  have e2: "\<not> bit (parent_color_and_flags e) 2" using e(2) by (simp add: entry_is_secondary_bit)
  show "wf_entry ?s" unfolding eq using e(1) by (simp add: wf_entry_def)
  have nt: "nibble (ucast tag)"
  proof -
    obtain u :: u8 where "tag = ucast u" "nibble u" using u64_nibble [OF t] by blast
    then show ?thesis by (simp add: ucast_ucast_u8)
  qed
  show "entry_tag ?s = ucast tag" "entry_color ?s = c" unfolding eq by (rule entry_tag_color_combined [OF nt c])+
  show "entry_is_secondary ?s = sec" unfolding entry_is_secondary_bit bits using e2 by simp
  have "entry_type ?s = entry_type e" by (rule entry_type_eqI) (auto simp: bits)
  then show ty: "entry_type ?s \<noteq> TYPE_UNUSED" using e(3) by simp
  then show "marked_if_unused ?s" by (simp add: marked_if_unused_def)
  have "parent_color_and_flags (erase_side ?s) = parent_color_and_flags e"
    by (rule bit_word_eqI) (auto simp: bit_sides bits e2)
  then show "erase_side ?s = e\<lparr>color_and_tag := ucast tag OR push_bit 4 c\<rparr>"
    using side_eq(1) [of ?s] unfolding eq by simp
qed

subsection \<open>The color is new\<close>

definition color_unused :: "(u64 \<times> ct_entry) multiset \<Rightarrow> u64 \<Rightarrow> u64 \<Rightarrow> u8 \<Rightarrow> bool" where
  "color_unused content primary tag c \<longleftrightarrow>
     (\<forall>e. (primary, e) \<in># content \<longrightarrow> entry_tag e = ucast tag \<longrightarrow> entry_color e \<noteq> c)"

lemma content_member:
  "x \<in># table_content trie \<longleftrightarrow>
    (\<exists>p\<in>table_cells trie. entry_type (cell trie p) \<noteq> TYPE_UNUSED \<and> x = (home trie (fst p) (cell trie p), erase_side (cell trie p)))"
  by (auto simp: table_content_def set_mset_sum cell_content_def split: if_splits)

lemma tag_u64:
  assumes "tag < 16"
  shows "ucast (ucast tag :: u8) = (tag :: u64)"
proof -
  obtain t :: u8 where "tag = ucast t" using u64_nibble [OF assms] by blast
  then show ?thesis by (simp add: ucast_ucast_u8)
qed

lemma in_pair_cells:
  assumes ok: "table_ok trie" and vb: "valid_bucket trie b" and t: "tag < 16"
    and p: "p \<in> table_cells trie" "home trie (fst p) (cell trie p) = b" "entry_tag (cell trie p) = ucast tag"
  shows "cell trie p \<in> set (cells (bucket_of trie b)) \<union> set (cells (bucket_of trie (mix_bucket trie b tag)))"
proof -
  have vt: "valid_table trie" and tag: "valid_tag tag" using table_okD(2) [OF ok] t by (simp_all add: valid_tag_def)
  have lt: "fst p < 2 ^ 64" using p(1) unsigned_less [of "num_buckets trie", where 'a = nat] by (auto simp: table_cells_def)
  then have u: "unat (of_nat (fst p) :: u64) = fst p" by (simp add: unat_of_nat)
  have vp: "valid_bucket trie (of_nat (fst p))" using p(1) u by (auto simp: valid_bucket_unat table_cells_def)
  have len: "length (cells (buckets trie ! fst p)) = 4" using p(1) table_okD(5) [OF ok, of "fst p"]
    by (auto simp: wf_bucket_def table_cells_def)
  have mem: "cell trie p \<in> set (cells (bucket_of trie d))" if "unat d = fst p" for d
  proof -
    have "snd p < length (cells (buckets trie ! fst p))" using p(1) len by (auto simp: table_cells_def)
    then have "cells (buckets trie ! fst p) ! snd p \<in> set (cells (buckets trie ! fst p))" by (rule nth_mem)
    then show ?thesis using that by (simp add: bucket_of_def cell_def)
  qed
  show ?thesis
  proof (cases "entry_is_secondary (cell trie p)")
    case True
    then have "unmix_bucket trie (of_nat (fst p)) tag = b" using p(2,3) tag_u64 [OF t] by (simp add: home_def)
    then have "mix_bucket trie b tag = of_nat (fst p)" using pair.mix_unmix [OF vt vp tag] by simp
    then show ?thesis using mem u by auto
  next
    case False
    then have "b = of_nat (fst p)" using p(2) by (simp add: home_def)
    then show ?thesis using mem u by auto
  qed
qed

lemma unused_color_ok:
  assumes ok: "table_ok trie" and vb: "valid_bucket trie b" and t: "tag < 16"
    and free: "free \<in> table_cells trie" "entry_type (cell trie free) = TYPE_UNUSED"
    and side: "fst free = unat b \<or> fst free = unat (mix_bucket trie b tag)"
  defines "c \<equiv> unused_color_in_pair (bucket_of trie b) (bucket_of trie (mix_bucket trie b tag))"
  shows "c < 9" and "color_unused (table_content trie) b tag c"
proof -
  let ?d = "mix_bucket trie b tag"
  have wf: "wf_trie trie" and vt: "valid_table trie" and tag: "valid_tag tag"
    using table_okD(1,2) [OF ok] t by (simp_all add: valid_tag_def)
  have vd: "valid_bucket trie ?d" by (rule pair.mix_valid [OF vt vb tag])
  have wfs: "wf_bucket (bucket_of trie b)" "wf_bucket (bucket_of trie ?d)"
    using wf_bucket_of [OF wf vb] wf_bucket_of [OF wf vd] by auto
  have mem: "cell trie free \<in> set (cells (bucket_of trie b)) \<union> set (cells (bucket_of trie ?d))"
    using side free(1) wfs by (auto simp: cell_def bucket_of_def table_cells_def wf_bucket_def)
  have "entry_color (cell trie free) = INVALID_COLOR"
    using ok free by (simp add: table_ok_cells marked_if_unused_def)
  note fresh = unused_color_fresh [OF wfs mem this]
  show "c < 9" unfolding c_def by (rule fresh(1))
  show "color_unused (table_content trie) b tag c"
    unfolding color_unused_def
  proof (intro allI impI)
    fix e assume "(b, e) \<in># table_content trie" and tg: "entry_tag e = ucast tag"
    then obtain p where p: "p \<in> table_cells trie" "home trie (fst p) (cell trie p) = b" "e = erase_side (cell trie p)"
      by (auto simp: content_member)
    then have "cell trie p \<in> set (cells (bucket_of trie b)) \<union> set (cells (bucket_of trie ?d))"
      using tg by (intro in_pair_cells [OF ok vb t]) simp_all
    then show "entry_color e \<noteq> c" using fresh(2) p(3) by (simp add: c_def)
  qed
qed

subsection \<open>Writing the entry\<close>

lemma unused_entry_ok: "wf_entry unused_entry" "entry_type unused_entry = TYPE_UNUSED" "marked_if_unused unused_entry"
proof -
  have "drop_bit 4 (0x90 :: u8) = 9" by code_simp
  then show "wf_entry unused_entry" "entry_type unused_entry = TYPE_UNUSED" "marked_if_unused unused_entry"
    by (simp_all add: unused_entry_def wf_entry_def entry_type_def marked_if_unused_def entry_color_def entry_parent_color_def)
qed

lemma spare_refs_lock_entry:
  assumes wf: "wf_mgr mgr" and k: "snd p < CUCKOO_BUCKET_SIZE"
  shows "spare_refs (write_lock_entry_in_locked_bucket mgr p) = spare_refs mgr"
proof (cases "find_write_lock mgr (fst p)")
  case None
  then show ?thesis by (simp add: write_lock_entry_in_locked_bucket_def)
next
  case (Some i)
  note l = lock_on_found [OF Some]
  have wfl: "wf_lock (mgr ! i)" using wf_mgr_nth [OF wf l(1)] .
  have "write_lock_entry_in_locked_bucket mgr p = mgr[i := (mgr ! i)\<lparr>entry_refcounts :=
      (entry_refcounts (mgr ! i))[snd p := entry_refcounts (mgr ! i) ! snd p + 1], total_refcount := total_refcount (mgr ! i) + 1\<rparr>]"
    using l(1) by (simp only: write_lock_entry_in_locked_bucket_def Some option.case add_entry_total(2))
  then show ?thesis
    using l wfl k wf by (auto simp: fun_eq_iff spare_refs_lock_on lock_on_update spare_of_def wf_lock_def sum_list_update)
qed

lemma read_unlock_status: "read_unlock_bucket trie rl \<in> {SI_OK, SI_FAIL}"
  by (simp add: read_unlock_bucket_def)

text \<open>The outcome of the call: \<open>e'\<close> is the entry as the call leaves it in the caller's variable.\<close>

definition added :: "nat set \<Rightarrow> u64 \<Rightarrow> ct_entry \<Rightarrow> lock_state \<Rightarrow> status \<times> entry_ptr option \<times> ct_entry \<times> lock_state \<Rightarrow> bool" where
  "added others prefix_hash e s r \<longleftrightarrow> (let (st, out, e', s') = r; primary = hash_to_bucket prefix_hash;
       tag = hash_to_tag prefix_hash in
     table_ok (fst s') \<and> locks_ok others s' \<and> num_buckets (fst s') = num_buckets (fst s) \<and>
     spare_refs (snd s') = spare_refs (snd s) \<and> wrote {..<unat (num_buckets (fst s))} 1003 (fst s) (fst s') \<and>
     (entry_type (cell (fst s) root_ptr) \<noteq> TYPE_UNUSED \<longrightarrow> cell (fst s') root_ptr = cell (fst s) root_ptr) \<and>
     (if st = SI_OK
      then \<exists>p c. out = Some p \<and> p \<in> table_cells (fst s') \<and> cell (fst s') p = e' \<and> home (fst s') (fst p) e' = primary \<and>
        c < 9 \<and> color_unused (table_content (fst s)) primary tag c \<and>
        erase_side e' = e\<lparr>color_and_tag := ucast tag OR push_bit 4 c\<rparr> \<and> entry_tag e' = ucast tag \<and> entry_color e' = c \<and>
        table_content (fst s') = add_mset (primary, erase_side e') (table_content (fst s))
      else st \<in> {SI_RETRY, SI_FAIL} \<and> out = None \<and> table_content (fst s') = table_content (fst s)))"

lemma start_hash: "hash_to_bucket HASH_START_VALUE = 0" "hash_to_tag HASH_START_VALUE = 0"
  by code_simp+

lemma root_low: "fst root_ptr \<le> n"
  by (simp add: root_ptr_def start_hash)

lemma root_cell: "table_ok trie \<Longrightarrow> root_ptr \<in> table_cells trie"
  using table_okD(2) by (auto simp: table_cells_def root_ptr_def start_hash valid_table_def valid_sizes_def)

lemma nibble_less_9: "c < 9 \<Longrightarrow> nibble c"
  unfolding nibble_def by (simp add: word_less_nat_alt)

lemma add_in_cell_ok:
  assumes tok: "table_ok trie" and lok: "locks_ok others (trie, mgr)" and h: "valid_hash trie prefix_hash"
    and e: "wf_entry e" "\<not> entry_is_secondary e" "entry_type e \<noteq> TYPE_UNUSED"
    and free: "(unat rb, k) \<in> table_cells trie" "entry_type (cell trie (unat rb, k)) = TYPE_UNUSED"
    and side: "rb = (if sec then mix_bucket trie (hash_to_bucket prefix_hash) (hash_to_tag prefix_hash) else hash_to_bucket prefix_hash)"
    and spare: "spare_refs mgr = r(unat rb := r (unat rb) + 1)"
    and orig: "table_content trie0 = table_content trie" "num_buckets trie0 = num_buckets trie" "spare_refs mgr0 = r"
    and w0: "wrote {..<unat (num_buckets trie0)} 1001 trie0 trie"
    and root0: "entry_type (cell trie0 root_ptr) \<noteq> TYPE_UNUSED \<longrightarrow> cell trie root_ptr = cell trie0 root_ptr"
  shows "added others prefix_hash e (trie0, mgr0)
    (add_in_cell (trie, mgr) prefix_hash e lock (unat rb, k) rb (if sec then ucast FLAG_SECONDARY_BUCKET else 0) alt)"
proof -
  let ?b = "hash_to_bucket prefix_hash" and ?t = "hash_to_tag prefix_hash" and ?p = "(unat rb, k)"
  have vt: "valid_table trie" using table_okD(2) [OF tok] .
  then have vs: "valid_sizes trie" by auto
  note hs = hash_split_valid [OF vs h]
  have t: "?t < 16" using hs(2) by (simp add: valid_tag_def)
  define c where "c = unused_color_in_pair (bucket_of trie ?b) (bucket_of trie (mix_bucket trie ?b ?t))"
  have "fst ?p = unat ?b \<or> fst ?p = unat (mix_bucket trie ?b ?t)" by (simp add: side)
  note col = unused_color_ok [OF tok hs(1) t free this, folded c_def]
  note st = stored_entry_fields [OF e nibble_less_9 [OF col(1)] t, of sec]
  let ?e = "stored_entry e sec c ?t"
  let ?m1 = "if lock then write_lock_entry_in_locked_bucket mgr ?p else mgr"
  let ?t1 = "snd (write_entry trie ?p ?e)"
  let ?t2 = "snd (write_entry ?t1 ?p unused_entry)"
  have k: "k < 4" using free(1) by (simp add: table_cells_def)
  have lok1: "locks_ok others (trie, ?m1)" using lok write_lock_entry_ok(1) [OF lok] k by simp
  have spare1: "spare_refs ?m1 = r(unat rb := r (unat rb) + 1)"
    using spare spare_refs_lock_entry [OF locks_okD(1) [OF lok]] k by simp
  have tok1: "table_ok ?t1" by (rule table_ok_write_entry [OF tok free(1) st(1,6)])
  have p1: "?p \<in> table_cells ?t1" using free(1) by simp
  have cell1: "cell ?t1 ?p = ?e" using cell_write_entry [OF tok free(1) st(1)] by simp
  have home: "home trie (unat rb) ?e = ?b"
  proof (cases sec)
    case True
    have "unmix_bucket trie (mix_bucket trie ?b ?t) ?t = ?b" by (rule pair.unmix_mix [OF vt hs])
    moreover have "rb = mix_bucket trie ?b ?t" using True by (simp add: side)
    ultimately have "unmix_bucket trie rb (ucast (entry_tag ?e)) = ?b"
      unfolding st(2) tag_u64 [OF t] by simp
    then show ?thesis using True st(4) by (simp add: home_def)
  next
    case False
    then show ?thesis using st(4) side by (simp add: home_def)
  qed
  have content1: "table_content ?t1 = add_mset (?b, erase_side ?e) (table_content trie)"
    using content_write_entry [OF tok free(1) st(1)] free(2) st(5) home by (simp add: cell_content_def)
  have tok2: "table_ok ?t2" by (rule table_ok_write_entry [OF tok1 p1 unused_entry_ok(1,3)])
  have content2: "table_content ?t2 = table_content trie"
    using content_write_entry [OF tok1 p1 unused_entry_ok(1)] cell1 st(5) home content1
    by (simp add: cell_content_def unused_entry_ok(2))
  have rel: "\<exists>t' m'. release_bucket_lock (tr, ?m1) (unat rb) = (t', m') \<and> table_ok t' \<and> locks_ok others (t', m') \<and>
      spare_refs m' = r \<and> table_content t' = table_content tr \<and> num_buckets t' = num_buckets tr \<and>
      home t' = home tr \<and> (\<forall>p\<in>table_cells tr. cell t' p = cell tr p) \<and> wrote {} 0 tr t'"
    if tok': "table_ok tr" and lok': "locks_ok others (tr, ?m1)" for tr
  proof -
    obtain t' m' where s: "release_bucket_lock (tr, ?m1) (unat rb) = (t', m')"
      by (cases "release_bucket_lock (tr, ?m1) (unat rb)")
    have sp: "0 < spare_refs ?m1 (unat rb)" using spare1 by simp
    note rl = release_bucket_lock_ok [OF lok' sp, unfolded s] and rs = spare_refs_release [OF lok' sp s]
    have u: "unlocked t' = unlocked tr" using rl(2) by simp
    have tok'': "table_ok t'" by (rule table_ok_unlocked [OF u tok'])
    have "cell t' p = cell tr p" if "p \<in> table_cells tr" for p
      using that unlocked_eqD(1) [OF u] table_okD(3) [OF tok'] by (intro unlocked_cell [OF u]) (auto simp: table_cells_def)
    then show ?thesis
      using s rl(1) rs(1) spare1 tok'' content_unlocked [OF u table_okD(3) [OF tok'']] unlocked_fields(1,2) [OF u] wrote_unlocked [OF u]
      by (auto simp: fun_eq_iff)
  qed
  let ?B = "{..<unat (num_buckets trie0)}"
  have w1: "wrote ?B 1 trie ?t1" and w2: "wrote ?B 1 ?t1 ?t2"
    using wrote_write_entry [OF free(1) tok st(1)] wrote_write_entry [OF p1 tok1 unused_entry_ok(1)] by (simp_all add: orig(2))
  have wr1: "wrote ?B 1003 trie0 t'" if "wrote {} 0 ?t1 t'" for t'
    by (rule wrote_mono [OF wrote_trans [OF wrote_trans [OF w0 w1] wrote_mono [OF that order.refl empty_subsetI]]]) simp_all
  have wr2: "wrote ?B 1003 trie0 t'" if "wrote {} 0 ?t2 t'" for t'
    by (rule wrote_mono [OF wrote_trans [OF wrote_trans [OF wrote_trans [OF w0 w1] w2] wrote_mono [OF that order.refl empty_subsetI]]])
      simp_all
  have root: "cell ?t1 root_ptr = cell trie0 root_ptr \<and> cell ?t2 root_ptr = cell trie0 root_ptr"
    if "entry_type (cell trie0 root_ptr) \<noteq> TYPE_UNUSED"
  proof -
    have "cell trie root_ptr = cell trie0 root_ptr" using root0 that by blast
    moreover from this have "root_ptr \<noteq> ?p" using that free(2) by auto
    ultimately show ?thesis
      using cell_write_entry [OF tok free(1) st(1)] cell_write_entry [OF tok1 p1 unused_entry_ok(1)] by simp
  qed
  note rc = root_cell [OF tok1] root_cell [OF tok2]
  have lok2: "locks_ok others (?t1, ?m1)" by (rule locks_ok_write_entry [OF lok1])
  have unroll: "add_in_cell (trie, mgr) prefix_hash e lock ?p rb (if sec then ucast FLAG_SECONDARY_BUCKET else 0) alt =
      (if read_unlock_bucket ?t1 alt \<noteq> SI_OK then (SI_RETRY, None, ?e, release_bucket_lock (?t2, ?m1) (unat rb))
       else (SI_OK, Some ?p, ?e, release_bucket_lock (?t1, ?m1) (unat rb)))"
    by (simp only: add_in_cell_def prod.case Let_def c_def stored_entry_def remove_entry_by_address_def)
  show ?thesis
  proof (cases "read_unlock_bucket ?t1 alt = SI_OK")
    case True
    obtain t' m' where r: "release_bucket_lock (?t1, ?m1) (unat rb) = (t', m')" "table_ok t'" "locks_ok others (t', m')"
        "spare_refs m' = r" "table_content t' = table_content ?t1" "num_buckets t' = num_buckets ?t1"
        "home t' = home ?t1" "\<forall>p\<in>table_cells ?t1. cell t' p = cell ?t1 p" "wrote {} 0 ?t1 t'"
      using rel [OF tok1 lok2] by blast
    have "?p \<in> table_cells t'" "cell t' ?p = ?e" "home t' (fst ?p) ?e = ?b"
      using p1 r(6,7,8) cell1 home by (simp_all add: table_cells_def)
    then have "added others prefix_hash e (trie0, mgr0) (SI_OK, Some ?p, ?e, t', m')"
      using r content1 orig col st(2,3,7) wr1 root rc(1) unfolding added_def by auto
    then show ?thesis unfolding unroll using True r(1) by simp
  next
    case False
    obtain t' m' where r: "release_bucket_lock (?t2, ?m1) (unat rb) = (t', m')" "table_ok t'" "locks_ok others (t', m')"
        "spare_refs m' = r" "table_content t' = table_content ?t2" "num_buckets t' = num_buckets ?t2"
        "\<forall>p\<in>table_cells ?t2. cell t' p = cell ?t2 p" "wrote {} 0 ?t2 t'"
      using rel [OF tok2 locks_ok_write_entry [OF lok2]] by blast
    have "added others prefix_hash e (trie0, mgr0) (SI_RETRY, None, ?e, t', m')"
      using r content2 orig wr2 root rc(2) unfolding added_def by simp
    then show ?thesis unfolding unroll using False r(1) by simp
  qed
qed

subsection \<open>The whole call\<close>

text \<open>What a successful upgrade and a release keep, in terms of the table.\<close>

lemma same_table:
  assumes u: "unlocked t' = unlocked t" and ok: "table_ok t"
  shows "table_ok t'" and "table_content t' = table_content t" and "num_buckets t' = num_buckets t"
    and "mix_bucket t' = mix_bucket t" and "valid_hash t' = valid_hash t"
    and "fst p \<le> unat (num_buckets t) \<Longrightarrow> cell t' p = cell t p"
    and "valid_bucket t b \<Longrightarrow> cells (bucket_of t' b) = cells (bucket_of t b)"
proof -
  show ok': "table_ok t'" by (rule table_ok_unlocked [OF u ok])
  show "table_content t' = table_content t" by (rule content_unlocked [OF u table_okD(3) [OF ok']])
  show "num_buckets t' = num_buckets t" and "mix_bucket t' = mix_bucket t" using unlocked_fields(1,4) [OF u] .
  have "num_pairs t' = num_pairs t" using arg_cong [OF unlocked_eqD(4) [OF u], of num_pairs] by simp
  then show "valid_hash t' = valid_hash t" by (simp add: fun_eq_iff valid_hash_def)
  show "cell t' p = cell t p" if "fst p \<le> unat (num_buckets t)"
    using that unlocked_eqD(1) [OF u] table_okD(3) [OF ok] by (intro unlocked_cell [OF u]) simp
  show "cells (bucket_of t' b) = cells (bucket_of t b)" if "valid_bucket t b"
    using that unlocked_eqD(1) [OF u] table_okD(3) [OF ok]
    unfolding bucket_of_def by (intro unlocked_eqD(2) [OF u]) (simp add: valid_bucket_unat)
qed

lemma added_retry:
  assumes "table_ok trie" and "locks_ok others (trie, mgr)"
  shows "added others h e (trie, mgr) (SI_RETRY, None, e, trie, mgr)"
  using assms wrote_mono [OF wrote_refl _ order.refl, of 1003] by (simp add: added_def)

lemma upgrade_then:
  assumes tok: "table_ok trie" and lok: "locks_ok others (trie, mgr)" and vb: "valid_bucket trie b"
    and s: "upgrade_bucket_lock (trie, mgr) (read_lock_bucket trie (unat b)) = (st, t1, m1)" and st: "st \<noteq> SI_RETRY"
  shows "table_ok t1" and "locks_ok others (t1, m1)" and "unlocked t1 = unlocked trie"
    and "spare_refs m1 = (spare_refs mgr)(unat b := spare_refs mgr (unat b) + 1)"
proof -
  let ?rl = "read_lock_bucket trie (unat b)"
  have rb: "rl_bucket ?rl = unat b" by (simp add: read_lock_bucket_def)
  have bl: "rl_bucket ?rl < length (buckets trie)" using vb table_okD(3) [OF tok] by (simp add: rb valid_bucket_unat)
  note up = upgrade_bucket_lock_ok [OF lok bl s]
  have ok: "st = SI_OK" using up(3) st by simp
  show "table_ok t1" using table_ok_unlocked [OF _ tok] up(2) by simp
  show "locks_ok others (t1, m1)" and "unlocked t1 = unlocked trie" using up(1,2) by simp_all
  show "spare_refs m1 = (spare_refs mgr)(unat b := spare_refs mgr (unat b) + 1)"
    using spare_refs_upgrade(1) [OF lok bl s [unfolded ok]] by (simp add: rb)
qed

lemma upgrade_retry:
  assumes "table_ok trie" and "locks_ok others (trie, mgr)" and "valid_bucket trie b"
    and "upgrade_bucket_lock (trie, mgr) (read_lock_bucket trie (unat b)) = (SI_RETRY, t1, m1)"
  shows "t1 = trie \<and> m1 = mgr"
  using upgrade_bucket_lock_ok(4) [OF assms(2) _ assms(4)] assms(1,3) table_okD(3) [OF assms(1)]
  by (simp add: read_lock_bucket_def valid_bucket_unat)

lemma add_in_free_cell:
  assumes tok: "table_ok trie" and lok: "locks_ok others (trie, mgr)" and h: "valid_hash trie prefix_hash"
    and e: "wf_entry e" "\<not> entry_is_secondary e" "entry_type e \<noteq> TYPE_UNUSED"
    and side: "rb = (if sec then mix_bucket trie (hash_to_bucket prefix_hash) (hash_to_tag prefix_hash) else hash_to_bucket prefix_hash)"
    and free: "find_free_cell_in_bucket (bucket_of trie rb) = Some k"
    and s: "upgrade_bucket_lock (trie, mgr) (read_lock_bucket trie (unat rb)) = (st, t1, m1)" and st: "st \<noteq> SI_RETRY"
  shows "added others prefix_hash e (trie, mgr)
    (add_in_cell (t1, m1) prefix_hash e lock (unat rb, k) rb (if sec then ucast FLAG_SECONDARY_BUCKET else 0) alt)"
proof -
  have vt: "valid_table trie" and wf: "wf_trie trie" using table_okD(2) [OF tok] table_okD(1) [OF tok] .
  then have vs: "valid_sizes trie" by auto
  note hs = hash_split_valid [OF vs h]
  have vb: "valid_bucket trie rb" using hs(1) pair.mix_valid [OF vt hs] by (simp add: side)
  note up = upgrade_then [OF tok lok vb s st]
  note same = same_table [OF up(3) tok]
  note f = find_free_Some [OF wf vb free]
  have "(unat rb, k) \<in> table_cells t1" using f(3) same(3) by (simp add: table_cells_def)
  moreover have "entry_type (cell t1 (unat rb, k)) = TYPE_UNUSED"
    using f(2,3) same(6) [of "(unat rb, k)"] by (simp add: table_cells_def)
  moreover have root: "cell t1 root_ptr = cell trie root_ptr"
    using same(6) [OF root_low] .
  ultimately show ?thesis
    using up(1,2,4) e h same(2,3,4,5) side wrote_mono [OF wrote_unlocked [OF up(3)] _ order.refl, of 1001] root
    by (intro add_in_cell_ok) simp_all
qed

theorem add_entry_ok:
  assumes tok: "table_ok trie" and lok: "locks_ok others (trie, mgr)" and h: "valid_hash trie prefix_hash"
    and e: "wf_entry e" "\<not> entry_is_secondary e" "entry_type e \<noteq> TYPE_UNUSED"
  shows "\<exists>r. add_entry (trie, mgr) prefix_hash e immovable lock = Some r \<and> added others prefix_hash e (trie, mgr) r"
proof -
  let ?b = "hash_to_bucket prefix_hash" and ?t = "hash_to_tag prefix_hash"
  let ?d = "mix_bucket trie ?b ?t"
  have vt: "valid_table trie" and wf: "wf_trie trie" using table_okD(2) [OF tok] table_okD(1) [OF tok] .
  then have vs: "valid_sizes trie" by auto
  note hs = hash_split_valid [OF vs h]
  have vd: "valid_bucket trie ?d" by (rule pair.mix_valid [OF vt hs])
  obtain st1 t1 m1 where s1: "upgrade_bucket_lock (trie, mgr) (read_lock_bucket trie (unat ?b)) = (st1, t1, m1)"
    by (cases "upgrade_bucket_lock (trie, mgr) (read_lock_bucket trie (unat ?b))") auto
  obtain st2 t2 m2 where s2: "upgrade_bucket_lock (trie, mgr) (read_lock_bucket trie (unat ?d)) = (st2, t2, m2)"
    by (cases "upgrade_bucket_lock (trie, mgr) (read_lock_bucket trie (unat ?d))") auto
  note retry = added_retry [OF tok lok]
  note add = add_in_free_cell [OF tok lok h e]
  show ?thesis
  proof (cases "find_free_cell_in_bucket (bucket_of trie ?b)")
    case (Some k)
    show ?thesis
    proof (cases "st1 = SI_RETRY")
      case True
      then show ?thesis using Some s1 upgrade_retry [OF tok lok hs(1) s1 [unfolded True]] retry by (simp add: add_entry_def Let_def)
    next
      case False
      from add [of ?b False k st1 t1 m1, OF _ Some s1 False] show ?thesis
        using Some s1 False by (simp add: add_entry_def Let_def)
    qed
  next
    case full: None
    show ?thesis
    proof (cases "find_free_cell_in_bucket (bucket_of trie ?d)")
      case (Some k)
      show ?thesis
      proof (cases "st2 = SI_RETRY")
        case True
        then show ?thesis using full Some s2 upgrade_retry [OF tok lok vd s2 [unfolded True]] retry
          by (simp add: add_entry_def Let_def)
      next
        case False
        from add [of ?d True k st2 t2 m2, OF _ Some s2 False] show ?thesis
          using full Some s2 False by (simp add: add_entry_def Let_def)
      qed
    next
      case full2: None
      show ?thesis
      proof (cases "st1 = SI_RETRY")
        case True
        then show ?thesis using full full2 s1 upgrade_retry [OF tok lok hs(1) s1 [unfolded True]] retry
          by (simp add: add_entry_def Let_def)
      next
        case False
        note up = upgrade_then [OF tok lok hs(1) s1 False]
        note same = same_table [OF up(3) tok]
        have vb1: "valid_bucket t1 ?b" using hs(1) same(3) by (simp add: valid_bucket_def)
        have full1: "find_free_cell_in_bucket (bucket_of t1 ?b) = None"
          using full same(7) [OF hs(1)] by (simp add: find_free_cell_in_bucket_def)
        have sp1: "0 < spare_refs m1 (unat ?b)" using up(4) by simp
        from relocate_entry_ok [OF up(1,2) vb1 full1 sp1, of immovable] obtain st out t3 m3 where
          r: "relocate_entry (t1, m1) ?b immovable = Some (st, out, t3, m3)" "st \<in> {SI_OK, SI_RETRY, SI_FAIL}"
            "relocated others immovable ?b (t1, m1) st out (t3, m3)"
          by auto
        have tok3: "table_ok t3" and lok3: "locks_ok others (t3, m3)" and c3: "table_content t3 = table_content trie"
          and nb3: "num_buckets t3 = num_buckets trie" and mix3: "mix_bucket t3 = mix_bucket trie"
          and sp3: "spare_refs m3 = (spare_refs mgr)(unat ?b := spare_refs mgr (unat ?b) + 1)"
          using r(3) same up(4) by (simp_all add: relocated_def)
        have "wrote {..<unat (num_buckets trie)} 1001 t1 t3" using r(3) same(3) by (simp add: relocated_def)
        from wrote_trans [OF wrote_unlocked [OF up(3)] this]
        have w3: "wrote {..<unat (num_buckets trie)} 1001 trie t3" by simp
        have root3: "entry_type (cell trie root_ptr) \<noteq> TYPE_UNUSED \<longrightarrow> cell t3 root_ptr = cell trie root_ptr"
          using r(3) same(6) [OF root_low] root_cell [OF up(1)] unfolding relocated_def fst_conv by metis
        have unroll: "add_entry (trie, mgr) prefix_hash e immovable lock =
            Some (if st = SI_FAIL \<or> st = SI_RETRY then (st, None, e, release_bucket_lock (t3, m3) (unat ?b))
              else add_in_cell (t3, m3) prefix_hash e lock (the out) ?b 0 (read_lock_bucket trie (unat ?d)))"
          using full full2 s1 False r(1) by (simp add: add_entry_def Let_def)
        show ?thesis
        proof (cases "st = SI_OK")
          case True
          then obtain k where k: "k < 4" "out = Some (unat ?b, k)" "entry_type (cell t3 (unat ?b, k)) = TYPE_UNUSED"
            using r(3) by (auto simp: relocated_def)
          have "(unat ?b, k) \<in> table_cells t3" using hs(1) k(1) nb3 by (simp add: table_cells_def valid_bucket_unat)
          moreover have h3: "valid_hash t3 prefix_hash"
          proof -
            have "valid_sizes t3" using table_okD(2) [OF tok3] by auto
            then have "unat (num_pairs t3) = unat (num_pairs trie)"
              using nb3 vs by (elim valid_sizes_unat) simp
            then show ?thesis using h by (simp add: valid_hash_def word_less_nat_alt)
          qed
          ultimately have "added others prefix_hash e (trie, mgr) (add_in_cell (t3, m3) prefix_hash e lock (unat ?b, k) ?b
              (if False then ucast FLAG_SECONDARY_BUCKET else 0) (read_lock_bucket trie (unat ?d)))"
            using c3 nb3 k(3) sp3 w3 root3 by (intro add_in_cell_ok [OF tok3 lok3 h3 e]) simp_all
          then show ?thesis using unroll True k(2) by simp
        next
          case fail: False
          obtain t4 m4 where s4: "release_bucket_lock (t3, m3) (unat ?b) = (t4, m4)"
            by (cases "release_bucket_lock (t3, m3) (unat ?b)")
          have sp: "0 < spare_refs m3 (unat ?b)" using sp3 by simp
          note rl = release_bucket_lock_ok [OF lok3 sp, unfolded s4]
          have u4: "unlocked t4 = unlocked t3" using rl(2) by simp
          note same4 = same_table [OF u4 tok3]
          have "spare_refs m4 = spare_refs mgr" using spare_refs_release(1) [OF lok3 sp s4] sp3 by (simp add: fun_eq_iff)
          moreover have "wrote {..<unat (num_buckets trie)} 1003 trie t4"
            by (rule wrote_mono [OF wrote_trans [OF w3 wrote_unlocked [OF u4]]]) simp_all
          moreover have "cell t4 root_ptr = cell t3 root_ptr" using same4(6) [OF root_low] .
          ultimately have "added others prefix_hash e (trie, mgr) (st, None, e, t4, m4)"
            using root3 fail r(2) same4 rl(1) c3 nb3 by (auto simp: added_def)
          then show ?thesis using unroll fail r(2) s4 by auto
        qed
      qed
    qed
  qed
qed

end
