(* ===== verification/TableMap.thy ===== *)
theory TableMap
  imports AddEntry
begin

text \<open>
  The hash table as a finite map: an entry is found by its home bucket, its tag and its
  color. This holds as long as no two stored entries agree in all three, which is what the
  choice of an unused color is for. The lemmas here relate the searches and the updates of
  \<open>Table\<close> to the content of the table, wherever the entries are stored.
\<close>

definition slot :: "u64 \<times> ct_entry \<Rightarrow> u64 \<times> u8 \<times> u8" where
  "slot x = (fst x, entry_tag (snd x), entry_color (snd x))"

definition distinct_slots :: "(u64 \<times> ct_entry) multiset \<Rightarrow> bool" where
  "distinct_slots content \<longleftrightarrow> (\<forall>s. count (image_mset slot content) s \<le> 1)"

definition valid_colors :: "(u64 \<times> ct_entry) multiset \<Rightarrow> bool" where
  "valid_colors content \<longleftrightarrow> (\<forall>x\<in>#content. entry_color (snd x) \<le> MAX_VALID_COLOR)"

definition table_inv :: "cuckoo_trie \<Rightarrow> bool" where
  "table_inv trie \<longleftrightarrow> table_ok trie \<and> distinct_slots (table_content trie) \<and> valid_colors (table_content trie)"

lemma table_invD:
  assumes "table_inv trie"
  shows "table_ok trie" and "distinct_slots (table_content trie)" and "valid_colors (table_content trie)"
    and "wf_trie trie" and "valid_table trie"
  using assms table_okD by (auto simp: table_inv_def)

subsection \<open>Cells of a pair\<close>

lemma cell_bucket_unat:
  assumes "p \<in> table_cells trie"
  shows "unat (of_nat (fst p) :: u64) = fst p" and "valid_bucket trie (of_nat (fst p))"
proof -
  have "fst p < 2 ^ 64" using assms unsigned_less [of "num_buckets trie", where 'a = nat] by (auto simp: table_cells_def)
  then show u: "unat (of_nat (fst p) :: u64) = fst p" by (simp add: unat_of_nat)
  show "valid_bucket trie (of_nat (fst p))" using assms u by (auto simp: valid_bucket_unat table_cells_def)
qed

lemma valid_tag_of_entry: "valid_tag (ucast (entry_tag e))"
proof -
  have "unat (entry_tag e) < 2 ^ 4" using unat_and_mask [of "color_and_tag e" 4] by (simp add: entry_tag_def)
  then have "unat (entry_tag e) < 16" by simp
  then show ?thesis by (simp add: valid_tag_unat unsigned_ucast_eq take_bit_nat_eq_self)
qed

lemma home_valid:
  assumes "table_ok trie" and "p \<in> table_cells trie"
  shows "valid_bucket trie (home trie (fst p) e)"
  using assms cell_bucket_unat pair.unmix_valid valid_tag_of_entry table_okD(2) by (auto simp: home_def)

lemma in_pair_iff:
  assumes ok: "table_ok trie" and vb: "valid_bucket trie b" and t: "tag < 16"
  shows "in_pair trie b tag p \<longleftrightarrow>
    p \<in> table_cells trie \<and> home trie (fst p) (cell trie p) = b \<and> entry_tag (cell trie p) = ucast tag"
proof -
  have vt: "valid_table trie" and tag: "valid_tag tag" using table_okD(2) [OF ok] t by (simp_all add: valid_tag_def)
  note mixed = pair.mix_valid [OF vt vb tag]
  show ?thesis
  proof
    assume p: "in_pair trie b tag p"
    then have et: "ucast (entry_tag (cell trie p)) = tag" by (simp add: in_pair_def tag_u64 [OF t])
    have "fst p < unat (num_buckets trie)" using p vb mixed by (auto simp: in_pair_def valid_bucket_unat)
    then have cells: "p \<in> table_cells trie" using p by (cases p) (auto simp: in_pair_def table_cells_def)
    have "home trie (fst p) (cell trie p) = b"
      using p pair.unmix_mix [OF vt vb tag] by (auto simp: in_pair_def home_def tag_u64 [OF t])
    then show "p \<in> table_cells trie \<and> home trie (fst p) (cell trie p) = b \<and> entry_tag (cell trie p) = ucast tag"
      using cells p by (simp add: in_pair_def)
  next
    assume *: "p \<in> table_cells trie \<and> home trie (fst p) (cell trie p) = b \<and> entry_tag (cell trie p) = ucast tag"
    then have et: "ucast (entry_tag (cell trie p)) = tag" by (simp add: tag_u64 [OF t])
    note u = cell_bucket_unat [of p trie]
    have "fst p = unat (if entry_is_secondary (cell trie p) then mix_bucket trie b tag else b)"
    proof (cases "entry_is_secondary (cell trie p)")
      case True
      then have "b = unmix_bucket trie (of_nat (fst p)) tag" using * by (simp add: home_def et)
      then have "mix_bucket trie b tag = of_nat (fst p)" using pair.mix_unmix [OF vt _ tag] u(2) * by simp
      then show ?thesis using True u(1) * by simp
    next
      case False
      then show ?thesis using * u(1) by (simp add: home_def)
    qed
    then show "in_pair trie b tag p" using * by (auto simp: in_pair_def table_cells_def)
  qed
qed

subsection \<open>At most one cell per slot\<close>

definition cell_slot :: "cuckoo_trie \<Rightarrow> entry_ptr \<Rightarrow> u64 \<times> u8 \<times> u8" where
  "cell_slot trie p = slot (home trie (fst p) (cell trie p), erase_side (cell trie p))"

lemma cell_slot_unique:
  assumes d: "distinct_slots (table_content trie)" and p: "p \<in> table_cells trie" "entry_type (cell trie p) \<noteq> TYPE_UNUSED"
    and q: "q \<in> table_cells trie" "entry_type (cell trie q) \<noteq> TYPE_UNUSED" and eq: "cell_slot trie p = cell_slot trie q"
  shows "p = q"
proof (rule ccontr)
  assume ne: "p \<noteq> q"
  let ?c = "\<lambda>p. cell_content trie (fst p) (cell trie p)"
  have "table_content trie = (\<Sum>r\<in>table_cells trie - {p, q}. ?c r) + (\<Sum>r\<in>{p, q}. ?c r)"
    using p(1) q(1) unfolding table_content_def by (intro sum.subset_diff) auto
  also have "(\<Sum>r\<in>{p, q}. ?c r) = ?c p + ?c q" using ne by simp
  finally have "count (image_mset slot (table_content trie)) (cell_slot trie p) \<ge> 2"
    using p(2) q(2) eq by (simp add: cell_content_def cell_slot_def)
  then show False using d unfolding distinct_slots_def by (metis not_less_eq_eq numeral_2_eq_2 One_nat_def)
qed

lemma distinct_add:
  assumes d: "distinct_slots content" and new: "\<And>y. y \<in># content \<Longrightarrow> slot y \<noteq> slot x"
  shows "distinct_slots (add_mset x content)"
proof -
  have "slot x \<notin># image_mset slot content" using new by (metis (no_types) imageE set_image_mset)
  then have "count (image_mset slot content) (slot x) = 0" by (simp add: count_eq_zero_iff)
  then show ?thesis using d by (auto simp: distinct_slots_def)
qed

lemma distinct_subset:
  assumes "distinct_slots content" and "content' \<subseteq># content"
  shows "distinct_slots content'"
  using assms image_mset_subseteq_mono [OF assms(2), of slot]
  by (meson distinct_slots_def le_trans mset_subset_eq_count)

lemma distinct_replace:
  assumes d: "distinct_slots (add_mset x content)" and s: "slot y = slot x"
  shows "distinct_slots (add_mset y content)"
  using d s by (simp add: distinct_slots_def)

subsection \<open>Searches\<close>

lemma used_color:
  assumes ok: "table_ok trie" and p: "p \<in> table_cells trie" and c: "entry_color (cell trie p) < 9"
  shows "entry_type (cell trie p) \<noteq> TYPE_UNUSED"
  using ok p c by (auto simp: table_ok_cells marked_if_unused_def)

lemma u8_less_9: "c < 9 \<Longrightarrow> (ucast (c :: u8) :: u64) < 9"
proof -
  assume "c < 9"
  then have "unat c < 9" by (simp add: word_less_nat_alt)
  then show ?thesis by (simp add: word_less_nat_alt unsigned_ucast_eq take_bit_nat_eq_self)
qed

lemma color_query_entry: "entry_color e < 9 \<Longrightarrow> color_query (ucast (entry_tag e), ucast (entry_color e))"
  using valid_tag_of_entry [of e] u8_less_9 [of "entry_color e"] by (simp add: color_query_def valid_tag_def)

lemma pair_ok_color: "table_ok trie \<Longrightarrow> valid_bucket trie b \<Longrightarrow> color_query q \<Longrightarrow> by_color.pair_ok trie b q"
  using table_okD by (auto simp: by_color.pair_ok_def)

lemma pair_rest:
  assumes "table_ok trie" and "valid_bucket trie b" and "valid_tag t"
  shows "pair_at_rest trie b t"
proof -
  have "valid_bucket trie (mix_bucket trie b t)" using assms pair.mix_valid table_okD by blast
  then show ?thesis using assms(2) table_okD(6) [OF assms(1)] by (simp add: pair_at_rest_def bucket_of_def bucket_word_def valid_bucket_unat)
qed

lemma content_cell:
  assumes "(b, e) \<in># table_content trie"
  obtains p where "p \<in> table_cells trie" "entry_type (cell trie p) \<noteq> TYPE_UNUSED"
    "home trie (fst p) (cell trie p) = b" "erase_side (cell trie p) = e"
  using assms by (auto simp: content_member)

lemma erased_keys: "erase_side e' = e \<Longrightarrow> entry_tag e' = entry_tag e \<and> entry_color e' = entry_color e \<and> entry_type e' = entry_type e"
  by auto

theorem find_by_color_in_content:
  assumes inv: "table_inv trie" and mem: "(b, e) \<in># table_content trie"
  shows "\<exists>p\<in>table_cells trie. find_entry_in_pair_by_color trie b (ucast (entry_tag e)) (ucast (entry_color e)) = Some (copy_of trie b p) \<and>
    home trie (fst p) (cell trie p) = b \<and> erase_side (cell trie p) = e"
proof -
  note ok = table_invD(1) [OF inv]
  obtain p where p: "p \<in> table_cells trie" "entry_type (cell trie p) \<noteq> TYPE_UNUSED"
    "home trie (fst p) (cell trie p) = b" "erase_side (cell trie p) = e" using content_cell [OF mem] by blast
  have keys: "entry_tag (cell trie p) = entry_tag e" "entry_color (cell trie p) = entry_color e" using p(4) by auto
  have vb: "valid_bucket trie b" using home_valid [OF ok p(1)] p(3) by auto
  have "entry_color e \<le> 8" using table_invD(3) [OF inv] mem by (auto simp: valid_colors_def)
  then have c9: "entry_color e < 9" by (simp add: word_less_nat_alt word_le_nat_alt)
  let ?q = "(ucast (entry_tag e) :: u64, ucast (entry_color e) :: u64)"
  have q: "color_query ?q" by (rule color_query_entry [OF c9])
  have t: "ucast (entry_tag e) < (16 :: u64)" and vt: "valid_tag (ucast (entry_tag e))"
    using valid_tag_of_entry [of e] by (simp_all add: valid_tag_def)
  note iff = in_pair_iff [OF ok vb t]
  have in_p: "in_pair trie b (fst ?q) p" using iff p keys by (simp add: ucast_ucast_u8)
  have m: "matches_color ?q (cell trie p)" using keys by (simp add: matches_color_def ucast_ucast_u8)
  have unique: "p' = p" if "in_pair trie b (fst ?q) p'" "matches_color ?q (cell trie p')" for p'
  proof -
    have p': "p' \<in> table_cells trie" "home trie (fst p') (cell trie p') = b" "entry_tag (cell trie p') = entry_tag e"
      "entry_color (cell trie p') = entry_color e"
      using that iff by (simp_all add: matches_color_def ucast_ucast_u8)
    have "entry_type (cell trie p') \<noteq> TYPE_UNUSED" using used_color [OF ok p'(1)] p'(4) c9 by simp
    moreover have "cell_slot trie p' = cell_slot trie p" using p' p(3) keys by (simp add: cell_slot_def slot_def)
    ultimately show ?thesis using cell_slot_unique [OF table_invD(2) [OF inv] p'(1) _ p(1,2)] by blast
  qed
  have "(\<lambda>trie b q. find_entry_in_pair_by_color trie b (fst q) (snd q)) trie b ?q = Some (copy_of trie b p)"
    by (rule by_color.loop_unique [OF pair_ok_color [OF ok vb q] _ in_p m unique]) (use pair_rest [OF ok vb vt] in simp)
  then show ?thesis using p by auto
qed

theorem find_by_color_sound:
  assumes ok: "table_ok trie" and vb: "valid_bucket trie b" and q: "tag < 16" "color < 9"
    and f: "find_entry_in_pair_by_color trie b tag color = Some c"
  shows "c = copy_of trie b (last_pos c)" and "last_pos c \<in> table_cells trie"
    and "(b, erase_side (lc_value c)) \<in># table_content trie"
    and "entry_tag (lc_value c) = ucast tag" and "entry_color (lc_value c) = ucast color"
proof -
  have cq: "color_query (tag, color)" using q by (simp add: color_query_def)
  have "\<exists>p. c = copy_of trie b p \<and> in_pair trie b (fst (tag, color)) p \<and> matches_color (tag, color) (cell trie p)"
    by (rule by_color.loop_sound [OF pair_ok_color [OF ok vb cq]]) (use f in simp)
  then obtain p where p: "c = copy_of trie b p" "in_pair trie b tag p" "entry_color (cell trie p) = ucast color"
    by (auto simp: matches_color_def)
  have cells: "p \<in> table_cells trie" "home trie (fst p) (cell trie p) = b" "entry_tag (cell trie p) = ucast tag"
    using p(2) in_pair_iff [OF ok vb q(1)] by auto

  show "c = copy_of trie b (last_pos c)" "last_pos c \<in> table_cells trie" using p(1) cells by (simp_all add: copy_of_def)
  show "entry_tag (lc_value c) = ucast tag" "entry_color (lc_value c) = ucast color"
    using p cells by (simp_all add: copy_of_def)
  have "unat (ucast color :: u8) < 9"
    using q(2) by (simp add: word_less_nat_alt unsigned_ucast_eq take_bit_nat_eq_self)
  then have "entry_color (cell trie p) < 9" using p(3) by (simp add: word_less_nat_alt)
  then have "entry_type (cell trie p) \<noteq> TYPE_UNUSED" by (rule used_color [OF ok cells(1)])
  then show "(b, erase_side (lc_value c)) \<in># table_content trie"
    using p(1) cells by (auto simp: content_member copy_of_def)
qed

theorem find_by_parent_in_content:
  assumes inv: "table_inv trie" and mem: "(b, e) \<in># table_content trie" and pc: "entry_parent_color e < 9"
    and unique: "\<And>e'. (b, e') \<in># table_content trie \<Longrightarrow> entry_tag e' = entry_tag e \<Longrightarrow> e_last_symbol e' = e_last_symbol e \<Longrightarrow>
      entry_parent_color e' = entry_parent_color e \<Longrightarrow> e' = e"
  shows "\<exists>p\<in>table_cells trie. find_entry_in_pair_by_parent trie b (ucast (entry_tag e)) (ucast (e_last_symbol e))
      (ucast (entry_parent_color e)) = Some (copy_of trie b p) \<and>
    home trie (fst p) (cell trie p) = b \<and> erase_side (cell trie p) = e"
proof -
  note ok = table_invD(1) [OF inv]
  obtain p where p: "p \<in> table_cells trie" "entry_type (cell trie p) \<noteq> TYPE_UNUSED"
    "home trie (fst p) (cell trie p) = b" "erase_side (cell trie p) = e" using content_cell [OF mem] by blast
  have keys: "entry_tag (cell trie p) = entry_tag e" "e_last_symbol (cell trie p) = e_last_symbol e"
    "entry_parent_color (cell trie p) = entry_parent_color e" using p(4) by auto
  have vb: "valid_bucket trie b" using home_valid [OF ok p(1)] p(3) by auto
  let ?q = "(ucast (entry_tag e) :: u64, ucast (e_last_symbol e) :: u64, ucast (entry_parent_color e) :: u64)"
  have t: "ucast (entry_tag e) < (16 :: u64)" and vt: "valid_tag (ucast (entry_tag e))"
    using valid_tag_of_entry [of e] by (simp_all add: valid_tag_def)
  have s: "ucast (e_last_symbol e) < (256 :: u64)"
    using unsigned_less [of "e_last_symbol e", where 'a = nat]
    by (simp add: word_less_nat_alt unsigned_ucast_eq take_bit_nat_eq_self)
  have q: "parent_query ?q" using t s u8_less_9 [OF pc] by (simp add: parent_query_def)
  note iff = in_pair_iff [OF ok vb t]
  have in_p: "in_pair trie b (fst ?q) p" using iff p keys by (simp add: ucast_ucast_u8)
  have m: "matches_parent ?q (cell trie p)" using keys by (simp add: matches_parent_def ucast_ucast_u8)
  have unique': "p' = p" if "in_pair trie b (fst ?q) p'" "matches_parent ?q (cell trie p')" for p'
  proof -
    have p': "p' \<in> table_cells trie" "home trie (fst p') (cell trie p') = b" "entry_tag (cell trie p') = entry_tag e"
      "e_last_symbol (cell trie p') = e_last_symbol e" "entry_parent_color (cell trie p') = entry_parent_color e"
      using that iff by (simp_all add: matches_parent_def ucast_ucast_u8)
    have used: "entry_type (cell trie p') \<noteq> TYPE_UNUSED"
      using ok p'(1,5) pc by (auto simp: table_ok_cells marked_if_unused_def)
    then have "(b, erase_side (cell trie p')) \<in># table_content trie" using p'(1,2) by (auto simp: content_member)
    then have "erase_side (cell trie p') = e" using unique p' by simp
    then have "cell_slot trie p' = cell_slot trie p" using p'(2) p(3,4) by (simp add: cell_slot_def)
    then show ?thesis using cell_slot_unique [OF table_invD(2) [OF inv] p'(1) used p(1,2)] by blast
  qed
  have ok': "by_parent.pair_ok trie b ?q" using table_okD [OF ok] vb q by (auto simp: by_parent.pair_ok_def)
  have "(\<lambda>trie b q. find_entry_in_pair_by_parent trie b (fst q) (fst (snd q)) (snd (snd q))) trie b ?q = Some (copy_of trie b p)"
    by (rule by_parent.loop_unique [OF ok' _ in_p m unique']) (use pair_rest [OF ok vb vt] in simp)
  then show ?thesis using p by auto
qed

subsection \<open>Changes of the map\<close>

theorem add_entry_inv:
  assumes inv: "table_inv trie" and a: "added others h e (trie, mgr) (st, out, e', s')"
  shows "table_inv (fst s')" and "locks_ok others s'" and "spare_refs (snd s') = spare_refs mgr"
    and "st = SI_OK \<Longrightarrow> table_content (fst s') = add_mset (hash_to_bucket h, erase_side e') (table_content trie)"
    and "st = SI_OK \<Longrightarrow> (\<forall>y\<in>#table_content trie. slot y \<noteq> slot (hash_to_bucket h, e'))"
    and "st \<noteq> SI_OK \<Longrightarrow> table_content (fst s') = table_content trie"
proof -
  note a = a [unfolded added_def Let_def prod.case fst_conv snd_conv]
  show "locks_ok others s'" "spare_refs (snd s') = spare_refs mgr" using a by auto
  show rest: "st \<noteq> SI_OK \<Longrightarrow> table_content (fst s') = table_content trie" using a by auto
  note inv' = table_invD [OF inv]
  have ok': "table_ok (fst s')" using a by blast
  show add: "table_content (fst s') = add_mset (hash_to_bucket h, erase_side e') (table_content trie)" if "st = SI_OK"
    using a that by auto
  show new: "\<forall>y\<in>#table_content trie. slot y \<noteq> slot (hash_to_bucket h, e')" if "st = SI_OK"
    using a that by (auto simp: slot_def color_unused_def)
  show "table_inv (fst s')"
  proof (cases "st = SI_OK")
    case True
    have "slot (hash_to_bucket h, erase_side e') = slot (hash_to_bucket h, e')" by (simp add: slot_def)
    then have d: "distinct_slots (table_content (fst s'))"
      unfolding add [OF True] using new [OF True] by (intro distinct_add inv'(2)) auto
    have "entry_color e' < 9" using a True by auto
    then have "entry_color e' \<le> 8" by (simp add: word_less_nat_alt word_le_nat_alt)
    then show ?thesis using ok' d inv'(3) add [OF True] by (simp add: table_inv_def valid_colors_def)
  next
    case False
    then show ?thesis using ok' inv' rest by (simp add: table_inv_def)
  qed
qed

text \<open>Writing an entry of a new slot into an unused cell adds it to the content.\<close>

lemma write_free_cell:
  assumes inv: "table_inv trie" and p: "p \<in> table_cells trie" "entry_type (cell trie p) = TYPE_UNUSED"
    and e: "wf_entry e" "entry_type e \<noteq> TYPE_UNUSED" "entry_color e \<le> MAX_VALID_COLOR"
    and new: "\<And>y. y \<in># table_content trie \<Longrightarrow> slot y \<noteq> slot (home trie (fst p) e, e)"
  shows "table_inv (snd (write_entry trie p e))"
    and "table_content (snd (write_entry trie p e)) = add_mset (home trie (fst p) e, erase_side e) (table_content trie)"
proof -
  let ?t = "snd (write_entry trie p e)"
  note ok = table_invD(1) [OF inv]
  show c: "table_content ?t = add_mset (home trie (fst p) e, erase_side e) (table_content trie)"
    using content_write_entry [OF ok p(1) e(1)] p(2) e(2) by (simp add: cell_content_def)
  have "table_ok ?t" by (rule table_ok_write_entry [OF ok p(1) e(1)]) (simp add: marked_if_unused_def e(2))
  moreover have "distinct_slots (table_content ?t)"
    unfolding c using new by (intro distinct_add table_invD(2) [OF inv]) (simp add: slot_def)
  moreover have "valid_colors (table_content ?t)" unfolding c using table_invD(3) [OF inv] e(3) by (simp add: valid_colors_def)
  ultimately show "table_inv ?t" by (simp add: table_inv_def)
qed

text \<open>Writing over a used cell an entry of the same slot replaces it in the content.\<close>

lemma keys_of_byte:
  "color_and_tag a = color_and_tag b \<Longrightarrow> entry_tag a = entry_tag b \<and> entry_color a = entry_color b"
  by (simp add: entry_tag_def entry_color_def)

lemma swap_member:
  assumes "add_mset x A = add_mset y B" and "x \<in># B"
  shows "A = add_mset y (B - {#x#})"
proof -
  obtain C where C: "B = add_mset x C" using multi_member_split [OF assms(2)] by blast
  then have "add_mset x A = add_mset x (add_mset y C)" using assms(1) by (simp only: add_mset_commute [of y x])
  then show ?thesis using C by simp
qed

lemma rewrite_cell:
  assumes inv: "table_inv trie" and p: "p \<in> table_cells trie" "entry_type (cell trie p) \<noteq> TYPE_UNUSED"
    and e: "wf_entry e" "entry_type e \<noteq> TYPE_UNUSED" "color_and_tag e = color_and_tag (cell trie p)"
      "entry_is_secondary e = entry_is_secondary (cell trie p)"
  defines "trie' \<equiv> snd (write_entry trie p e)" and "b \<equiv> home trie (fst p) (cell trie p)"
  shows "table_inv trie'" and "cell trie' p = e" and "home trie' (fst p) e = b"
    and "table_content trie' = add_mset (b, erase_side e) (table_content trie - {#(b, erase_side (cell trie p))#})"
    and "(b, erase_side (cell trie p)) \<in># table_content trie"
proof -
  note ok = table_invD(1) [OF inv]
  have keys: "entry_tag e = entry_tag (cell trie p)" "entry_color e = entry_color (cell trie p)"
    using keys_of_byte [OF e(3)] by auto
  have h: "home trie (fst p) e = b" using e(4) keys by (simp add: home_def b_def)
  have ok': "table_ok trie'" unfolding trie'_def
    by (rule table_ok_write_entry [OF ok p(1) e(1)]) (simp add: marked_if_unused_def e(2))
  show "cell trie' p = e" unfolding trie'_def using cell_write_entry [OF ok p(1) e(1)] by simp
  show "home trie' (fst p) e = b" using h by (simp add: trie'_def)
  show mem: "(b, erase_side (cell trie p)) \<in># table_content trie" using p by (auto simp: content_member b_def)
  have "table_content trie' + {#(b, erase_side (cell trie p))#} = table_content trie + {#(b, erase_side e)#}"
    using content_write_entry [OF ok p(1) e(1)] p(2) e(2) h by (simp add: cell_content_def trie'_def b_def)
  then have "add_mset (b, erase_side (cell trie p)) (table_content trie') = add_mset (b, erase_side e) (table_content trie)"
    by simp
  then show c: "table_content trie' = add_mset (b, erase_side e) (table_content trie - {#(b, erase_side (cell trie p))#})"
    using mem by (rule swap_member)
  have s: "slot (b, erase_side e) = slot (b, erase_side (cell trie p))" using keys by (simp add: slot_def)
  have "distinct_slots (add_mset (b, erase_side (cell trie p)) (table_content trie - {#(b, erase_side (cell trie p))#}))"
    using table_invD(2) [OF inv] mem by simp
  then have d: "distinct_slots (table_content trie')" unfolding c by (rule distinct_replace [OF _ s])
  have "valid_colors (table_content trie')"
    using table_invD(3) [OF inv] mem keys unfolding c valid_colors_def by (auto dest: in_diffD)
  then show "table_inv trie'" using ok' d by (simp add: table_inv_def)
qed

text \<open>A local copy is current when its entry is stored and, if its bucket is unchanged, still there.\<close>

definition current :: "cuckoo_trie \<Rightarrow> ct_entry_local_copy \<Rightarrow> bool" where
  "current trie c \<longleftrightarrow>
     (lc_primary_bucket c, erase_side (lc_value c)) \<in># table_content trie \<and>
     (validate_entry trie c \<longrightarrow> last_pos c \<in> table_cells trie \<and> cell trie (last_pos c) = lc_value c \<and>
        home trie (fst (last_pos c)) (lc_value c) = lc_primary_bucket c)"

lemma set_side_bits:
  "bit ((a AND NOT FLAG_SECONDARY_BUCKET) OR (b AND FLAG_SECONDARY_BUCKET)) n \<longleftrightarrow> (if n = 2 then bit b n else bit (a :: u8) n)"
proof (cases "n < 8")
  case True
  then show ?thesis unfolding bit_and_iff bit_or_iff bit_not_iff by (simp only: bit_4) auto
next
  case False
  then show ?thesis using bit_imp_le_length [of a n] bit_imp_le_length [of b n]
    bit_imp_le_length [of "(a AND NOT FLAG_SECONDARY_BUCKET) OR (b AND FLAG_SECONDARY_BUCKET)" n] by auto
qed

lemma erase_same_side: "erase_side (e\<lparr>parent_color_and_flags := x\<rparr>) = erase_side e"
  if "\<And>n. n \<noteq> 2 \<Longrightarrow> bit x n = bit (parent_color_and_flags e) n"
  by (rule erase_eqI) (use that in \<open>auto\<close>)

definition put_side :: "ct_entry \<Rightarrow> ct_entry \<Rightarrow> ct_entry" where
  "put_side e stored = e\<lparr>parent_color_and_flags :=
     (parent_color_and_flags e AND NOT FLAG_SECONDARY_BUCKET) OR (parent_color_and_flags stored AND FLAG_SECONDARY_BUCKET)\<rparr>"

lemma put_side_fields:
  "wf_entry (put_side e s) = wf_entry e" "color_and_tag (put_side e s) = color_and_tag e"
  "entry_is_secondary (put_side e s) = entry_is_secondary s" "erase_side (put_side e s) = erase_side e"
  "entry_type (put_side e s) = entry_type e"
proof -
  show "wf_entry (put_side e s) = wf_entry e" "color_and_tag (put_side e s) = color_and_tag e"
    by (simp_all add: put_side_def wf_entry_def)
  show "entry_is_secondary (put_side e s) = entry_is_secondary s"
    unfolding put_side_def entry_is_secondary_bit using set_side_bits [of "parent_color_and_flags e" "parent_color_and_flags s" 2] by simp
  show eq: "erase_side (put_side e s) = erase_side e"
    unfolding put_side_def by (rule erase_same_side) (simp only: set_side_bits, simp)
  show "entry_type (put_side e s) = entry_type e" using eq by (metis side_type(2))
qed

theorem update_entry_in_content:
  assumes inv: "table_inv trie" and cur: "current trie c"
    and new: "wf_entry e" "entry_type e \<noteq> TYPE_UNUSED" "color_and_tag e = color_and_tag (lc_value c)"
      "entry_is_secondary e = entry_is_secondary (lc_value c)"
  defines "b \<equiv> lc_primary_bucket c"
  shows "\<exists>c' trie'. update_entry trie c e = Some (c', trie') \<and> table_inv trie' \<and> current trie' c' \<and>
    table_content trie' = add_mset (b, erase_side e) (table_content trie - {#(b, erase_side (lc_value c))#}) \<and>
    lc_primary_bucket c' = b \<and> erase_side (lc_value c') = erase_side e \<and> color_and_tag (lc_value c') = color_and_tag e \<and>
    (\<exists>p f. trie' = snd (write_entry trie p f))"
proof -
  have mem: "(b, erase_side (lc_value c)) \<in># table_content trie" using cur by (simp add: current_def b_def)
  show ?thesis
  proof (cases "validate_entry trie c")
    case True
    let ?p = "last_pos c" and ?t = "snd (write_entry trie (last_pos c) e)"
    have p: "?p \<in> table_cells trie" "cell trie ?p = lc_value c" "home trie (fst ?p) (lc_value c) = b"
      using cur True by (simp_all add: current_def b_def)
    have old: "entry_type (cell trie ?p) \<noteq> TYPE_UNUSED"
    proof -
      have "entry_color (cell trie ?p) < 9"
      proof -
        have "entry_color (erase_side (lc_value c)) \<le> 8" using table_invD(3) [OF inv] mem by (auto simp: valid_colors_def)
        then show ?thesis using p(2) by (simp add: word_less_nat_alt word_le_nat_alt)
      qed
      then show ?thesis by (rule used_color [OF table_invD(1) [OF inv] p(1)])
    qed
    note w = rewrite_cell [OF inv p(1) old new(1,2)]
    have w1: "table_inv ?t" "cell ?t ?p = e" "home ?t (fst ?p) e = b"
      "table_content ?t = add_mset (b, erase_side e) (table_content trie - {#(b, erase_side (lc_value c))#})"
      using w new(3,4) p by simp_all
    let ?c' = "c\<lparr>lc_value := e, last_seq := fst (write_entry trie ?p e)\<rparr>"
    have "update_entry trie c e = Some (?c', ?t)" using True by (simp add: update_entry_def case_prod_beta)
    moreover have "current ?t ?c'" using w1 p(1) by (simp add: current_def b_def [symmetric])
    ultimately show ?thesis using w1
      by (intro exI [of _ ?c'] exI [of _ ?t] conjI) (assumption | rule exI refl | simp add: b_def)+
  next
    case False
    obtain p where p: "p \<in> table_cells trie" "find_entry_in_pair_by_color trie b (ucast (entry_tag (erase_side (lc_value c))))
        (ucast (entry_color (erase_side (lc_value c)))) = Some (copy_of trie b p)"
      "home trie (fst p) (cell trie p) = b" "erase_side (cell trie p) = erase_side (lc_value c)"
      using find_by_color_in_content [OF inv mem] by blast
    let ?e = "put_side e (cell trie p)"
    let ?t = "snd (write_entry trie p ?e)"
    have keys: "color_and_tag (cell trie p) = color_and_tag (lc_value c)"
      using arg_cong [OF p(4), of color_and_tag] by (simp add: erase_side_def)
    have old: "entry_type (cell trie p) \<noteq> TYPE_UNUSED"
    proof -
      have "entry_color (erase_side (lc_value c)) \<le> 8" using table_invD(3) [OF inv] mem by (auto simp: valid_colors_def)
      then have "entry_color (cell trie p) < 9" using keys_of_byte [OF keys] by (simp add: word_less_nat_alt word_le_nat_alt)
      then show ?thesis by (rule used_color [OF table_invD(1) [OF inv] p(1)])
    qed
    have w: "table_inv ?t" "cell ?t p = ?e" "home ?t (fst p) ?e = b"
      "table_content ?t = add_mset (b, erase_side e) (table_content trie - {#(b, erase_side (lc_value c))#})"
      using rewrite_cell [OF inv p(1) old, of ?e] new keys p(3,4) by (simp_all add: put_side_fields)
    let ?c' = "c\<lparr>lc_value := ?e, last_pos := p, last_seq := fst (write_entry trie p ?e)\<rparr>"
    have "update_entry trie c e = Some (?c', ?t)"
      using False p(2) by (simp add: update_entry_def update_entry_slow_path_def b_def copy_of_def put_side_def case_prod_beta Let_def)
    moreover have "current ?t ?c'" using w p(1) by (simp add: current_def b_def [symmetric] put_side_fields)
    ultimately show ?thesis
      using w by (intro exI [of _ ?c'] exI [of _ ?t] conjI) (assumption | rule exI refl | simp add: b_def put_side_fields)+
  qed
qed

text \<open>Removing an entry by its value takes it out of the content.\<close>

theorem remove_entry_in_content:
  assumes inv: "table_inv trie" and e: "(hash_to_bucket h, erase_side e) \<in># table_content trie" "ucast (entry_tag e) = hash_to_tag h"
  shows "\<exists>trie'. remove_entry_by_value trie e h = Some trie' \<and> table_inv trie' \<and>
    table_content trie' = table_content trie - {#(hash_to_bucket h, erase_side e)#} \<and> (\<exists>p. trie' = snd (write_entry trie p unused_entry))"
proof -
  let ?b = "hash_to_bucket h"
  note ok = table_invD(1) [OF inv]
  obtain p where p: "p \<in> table_cells trie" "find_entry_in_pair_by_color trie ?b (ucast (entry_tag e)) (ucast (entry_color e)) = Some (copy_of trie ?b p)"
    "home trie (fst p) (cell trie p) = ?b" "erase_side (cell trie p) = erase_side e"
    using find_by_color_in_content [OF inv e(1)] by auto
  have "entry_color (erase_side e) \<le> 8" using table_invD(3) [OF inv] e(1) by (auto simp: valid_colors_def)
  then have "entry_color (cell trie p) < 9"
    using arg_cong [OF p(4), of entry_color] by (simp add: word_less_nat_alt word_le_nat_alt)
  then have used: "entry_type (cell trie p) \<noteq> TYPE_UNUSED" by (rule used_color [OF ok p(1)])
  let ?t = "snd (write_entry trie p unused_entry)"
  have "table_content ?t + {#(?b, erase_side e)#} = table_content trie"
    using content_write_entry [OF ok p(1) unused_entry_ok(1)] used p(3,4) by (simp add: cell_content_def unused_entry_ok)
  then have c: "table_content ?t = table_content trie - {#(?b, erase_side e)#}" by (metis add_implies_diff)
  have "table_ok ?t" by (rule table_ok_write_entry [OF ok p(1) unused_entry_ok(1,3)])
  moreover have "distinct_slots (table_content ?t)" unfolding c by (rule distinct_subset [OF table_invD(2) [OF inv]]) simp
  moreover have "valid_colors (table_content ?t)" using table_invD(3) [OF inv] unfolding c valid_colors_def by (auto dest: in_diffD)
  ultimately have "table_inv ?t" by (simp add: table_inv_def)
  moreover have "remove_entry_by_value trie e h = Some ?t"
    using p(2) e(2) by (simp add: remove_entry_by_value_def remove_entry_by_address_def copy_of_def)
  ultimately show ?thesis using c by blast
qed

end
