(* ===== verification/Finger.thy ===== *)
theory Finger
  imports Keys Table
begin

text \<open>
  The finger (\<open>main.h\<close>, \<open>main.c\<close>): the position of a key's longest known prefix in the
  trie, with the path of nodes that leads there, and the searches that start from it.

  A finger of the C code also holds the trie and the lock manager. Both are changed by
  other components too, so they are threaded beside the finger here. The path is a list;
  the pointer \<open>last_path_entry\<close> is the index of its last element. Local variables that the
  C code leaves uninitialised start as zero. The functions that may wait for a concurrent
  writer, or loop for ever on a stale locator, return an option: \<open>None\<close> stands for a call
  that does not return.
\<close>

subsection \<open>The finger\<close>

record ct_path_entry =
  pe_entry :: ct_entry_local_copy
  pe_prefix_hash :: u64

record ct_finger =
  containing_entry :: ct_entry_local_copy
  f_path :: "ct_path_entry list"
  prefix_len :: nat
  f_prefix_hash :: u64
  last_prefix_symbol :: u8
  depth_in_jump :: nat

definition zero_locator :: ct_entry_locator where
  "zero_locator = \<lparr>loc_primary_bucket = 0, loc_tag = 0, loc_color = 0\<rparr>"

definition zero_entry :: ct_entry where
  "zero_entry = \<lparr>parent_color_and_flags = 0, color_and_tag = 0, e_last_symbol = 0,
     e_bytes = replicate 5 0, e_byte8 = 0, e_locator = zero_locator\<rparr>"

definition zero_copy :: ct_entry_local_copy where
  "zero_copy = \<lparr>lc_value = zero_entry, last_pos = (0, 0), lc_primary_bucket = 0, last_seq = 0\<rparr>"

abbreviation last_path_entry :: "ct_finger \<Rightarrow> nat" where
  "last_path_entry finger \<equiv> length (f_path finger) - 1"

abbreviation node_at :: "ct_path_entry list \<Rightarrow> nat \<Rightarrow> ct_entry" where
  "node_at path i \<equiv> lc_value (pe_entry (path ! i))"

definition set_path_copy :: "ct_finger \<Rightarrow> nat \<Rightarrow> ct_entry_local_copy \<Rightarrow> ct_finger" where
  "set_path_copy finger i local_copy =
     finger\<lparr>f_path := (f_path finger)[i := (f_path finger ! i)\<lparr>pe_entry := local_copy\<rparr>]\<rparr>"

definition store_path_entry :: "ct_finger \<Rightarrow> ct_finger" where
  "store_path_entry finger =
     finger\<lparr>f_path := f_path finger @ [\<lparr>pe_entry = containing_entry finger, pe_prefix_hash = f_prefix_hash finger\<rparr>]\<rparr>"

text \<open>The root's address is null for an empty trie; the finger is initialised all the same.\<close>

definition init_finger :: "cuckoo_trie \<Rightarrow> (entry_ptr option \<times> ct_finger) option" where
  "init_finger trie = do {
     (root_addr, root) \<leftarrow> (if is_empty trie then Some (None, zero_copy)
                         else do { root \<leftarrow> find_root trie; Some (Some (last_pos root), root) });
     Some (root_addr, store_path_entry
       \<lparr>containing_entry = root, f_path = [], prefix_len = 0, f_prefix_hash = HASH_START_VALUE,
        last_prefix_symbol = ROOT_LAST_SYMBOL, depth_in_jump = 0\<rparr>)
   }"

definition finger_extend_prefix_known_hash :: "ct_finger \<Rightarrow> u8 \<Rightarrow> u64 \<Rightarrow> ct_finger" where
  "finger_extend_prefix_known_hash finger symbol new_hash =
     finger\<lparr>f_prefix_hash := new_hash, last_prefix_symbol := symbol, prefix_len := prefix_len finger + 1\<rparr>"

definition finger_extend_prefix :: "cuckoo_trie \<Rightarrow> ct_finger \<Rightarrow> u8 \<Rightarrow> ct_finger" where
  "finger_extend_prefix trie finger symbol =
     finger_extend_prefix_known_hash finger symbol (accumulate_hash trie (f_prefix_hash finger) (ucast symbol))"

definition finger_node_changed :: "ct_finger \<Rightarrow> bool \<Rightarrow> ct_finger" where
  "finger_node_changed finger extend_path =
     (let finger = finger\<lparr>depth_in_jump := 0\<rparr>
      in if extend_path then store_path_entry finger else finger)"

definition reread_path_end :: "ct_finger \<Rightarrow> ct_finger" where
  "reread_path_end finger =
     finger\<lparr>containing_entry := pe_entry (f_path finger ! last_path_entry finger)\<rparr>"

definition validate_path_from :: "cuckoo_trie \<Rightarrow> ct_finger \<Rightarrow> nat \<Rightarrow> bool" where
  "validate_path_from trie finger top_path_pos \<longleftrightarrow>
     list_all (\<lambda>p. validate_entry trie (pe_entry p)) (drop top_path_pos (f_path finger))"

subsection \<open>Descending\<close>

text \<open>
  One step down along \<open>symbol\<close>; \<open>expected_hash\<close> is the hash of the prefix that this symbol
  completes. The result is false when the node has no such continuation.
\<close>

definition try_descend :: "cuckoo_trie \<Rightarrow> ct_finger \<Rightarrow> u64 \<Rightarrow> bool \<Rightarrow> u64 \<Rightarrow> (bool \<times> ct_finger) option" where
  "try_descend trie finger symbol save_path expected_hash =
     (let node = lc_value (containing_entry finger)
      in if entry_type node = TYPE_LEAF then Some (False, finger)
         else if entry_type node = TYPE_JUMP
         then (let next_symbol = ucast (get_jump_symbol node (depth_in_jump finger)) :: u8
               in if ucast next_symbol \<noteq> symbol then Some (False, finger)
                  else let finger = finger_extend_prefix_known_hash finger (ucast symbol) expected_hash;
                           finger = finger\<lparr>depth_in_jump := depth_in_jump finger + 1\<rparr>
                       in if depth_in_jump finger = entry_jump_size node
                          then do {
                            child \<leftarrow> find_entry_in_pair_by_color trie (hash_to_bucket (f_prefix_hash finger))
                              (hash_to_tag (f_prefix_hash finger)) (ucast (entry_child_color node));
                            Some (True, finger_node_changed (finger\<lparr>containing_entry := child\<rparr>) save_path)
                          }
                          else Some (True, finger))
         else if \<not> get_bit (child_bitmap node) (unat symbol) then Some (False, finger)
         else let finger = finger_extend_prefix_known_hash finger (ucast symbol) expected_hash
              in do {
                child \<leftarrow> find_entry_in_pair_by_parent trie (hash_to_bucket (f_prefix_hash finger))
                  (hash_to_tag (f_prefix_hash finger)) symbol (ucast (entry_color node));
                Some (True, finger_node_changed (finger\<lparr>containing_entry := child\<rparr>) save_path)
              })"

text \<open>
  The prefetcher computes the hashes of the key's prefixes four symbols ahead of the
  descent. A key of \<open>MAX_KEY_BYTES\<close> bytes has one symbol more than its two arrays have
  slots: the last symbol then lies in the alignment gap behind \<open>key_symbols\<close> and the last
  hash in \<open>prefetch_prefix_hash\<close>, where the same value is stored. The symbol buffer here
  has the 416 bytes up to that alignment, the hash array one slot more.
\<close>

record key_prefetcher =
  p_key_symbols :: "u8 list"
  prefix_hashes :: "u64 list"
  prefetch_prefix_hash :: u64
  prefetch_pos :: nat
  p_num_key_symbols :: nat

definition prefetcher_step :: "cuckoo_trie \<Rightarrow> key_prefetcher \<Rightarrow> key_prefetcher" where
  "prefetcher_step trie p =
     (if prefetch_pos p < p_num_key_symbols p
      then let hash = accumulate_hash trie (prefetch_prefix_hash p) (ucast (byte_at (p_key_symbols p) (prefetch_pos p)))
           in p\<lparr>prefetch_prefix_hash := hash, prefix_hashes := (prefix_hashes p)[prefetch_pos p := hash],
                prefetch_pos := prefetch_pos p + 1\<rparr>
      else p)"

definition key_memory :: "u8 list \<Rightarrow> memory" where
  "key_memory key_bytes a = byte_at key_bytes (a - 16)"

definition symbol_buffer :: "nat \<Rightarrow> u8 list \<Rightarrow> u8 list" where
  "symbol_buffer key_len key_bytes =
     (let symbols = key_to_symbols (key_memory key_bytes) 16 (int key_len)
      in symbols @ replicate (416 - length symbols) 0)"

definition prefetcher_start :: "cuckoo_trie \<Rightarrow> nat \<Rightarrow> u8 list \<Rightarrow> key_prefetcher" where
  "prefetcher_start trie key_len key_bytes =
     (let n = num_key_symbols key_len;
          symbols = (symbol_buffer key_len key_bytes)[n - 1 := ucast SYMBOL_END];
          p = \<lparr>p_key_symbols = symbols, prefix_hashes = replicate 411 0,
               prefetch_prefix_hash = HASH_START_VALUE, prefetch_pos = 0, p_num_key_symbols = n\<rparr>
      in (prefetcher_step trie ^^ 4) p)"

partial_function (option) descend_from ::
    "cuckoo_trie \<Rightarrow> key_prefetcher \<Rightarrow> ct_finger \<Rightarrow> bool \<Rightarrow> (int \<times> ct_finger) option" where
  "descend_from trie p finger track_path =
     (let p = prefetcher_step trie p;
          symbol = ucast (byte_at (p_key_symbols p) (prefix_len finger)) :: u64
      in do {
        (success, finger) \<leftarrow> try_descend trie finger symbol track_path (prefix_hashes p ! prefix_len finger);
        if \<not> success then Some (uint symbol, finger)
        else if symbol = SYMBOL_END then Some (- 1, finger)
        else descend_from trie p finger track_path
      })"

definition descend :: "cuckoo_trie \<Rightarrow> ct_finger \<Rightarrow> nat \<Rightarrow> u8 list \<Rightarrow> bool \<Rightarrow> (int \<times> ct_finger) option" where
  "descend trie finger key_len key_bytes track_path =
     descend_from trie (prefetcher_start trie key_len key_bytes) finger track_path"

subsection \<open>Ascending to the previous leaf\<close>

definition bitmap_child_before :: "ct_entry \<Rightarrow> nat \<Rightarrow> int" where
  "bitmap_child_before bitmap_node symbol = last_bit_before (drop 3 (entry_bytes bitmap_node)) symbol"

text \<open>The lowest bitmap of the path above position \<open>pos\<close>.\<close>

primrec bitmap_above :: "ct_path_entry list \<Rightarrow> nat \<Rightarrow> nat option" where
  "bitmap_above path 0 = None"
| "bitmap_above path (Suc pos) =
     (if entry_type (node_at path pos) = TYPE_BITMAP then Some pos else bitmap_above path pos)"

lemma bitmap_above_less: "bitmap_above path pos = Some q \<Longrightarrow> q < pos"
  by (induction pos) (auto split: if_splits)

function find_left_descend :: "ct_path_entry list \<Rightarrow> nat \<Rightarrow> nat \<Rightarrow> (nat \<times> nat) option" where
  "find_left_descend path path_pos backtrack_symbol =
     (let prev_child_symbol = bitmap_child_before (node_at path path_pos) backtrack_symbol
      in if prev_child_symbol \<noteq> - 1 then Some (path_pos, nat prev_child_symbol)
         else case bitmap_above path path_pos of
                None \<Rightarrow> None
              | Some q \<Rightarrow> find_left_descend path q (unat (e_last_symbol (node_at path (q + 1)))))"
  by pat_completeness auto
termination
  by (relation "measure (\<lambda>(path, pos, symbol). pos)") (auto dest: bitmap_above_less)

declare find_left_descend.simps [simp del]

text \<open>
  A predecessor locator. \<open>sub_path_pos\<close> is null and \<open>sub_primary_bucket\<close> all ones when the key
  is smaller than all others.
\<close>

record ct_pred_locator =
  sub_path_pos :: "nat option"
  sub_primary_bucket :: u64
  sub_parent_color :: u8
  sub_last_symbol :: u8
  sub_tag :: u8
  predecessor :: ct_entry_local_copy

definition init_pred_locator :: ct_pred_locator where
  "init_pred_locator = \<lparr>sub_path_pos = None, sub_primary_bucket = 0, sub_parent_color = 0, sub_last_symbol = 0,
     sub_tag = 0, predecessor = zero_copy\<rparr>"

definition prefetch_path_child_predecessor :: "cuckoo_trie \<Rightarrow> ct_finger \<Rightarrow> nat \<Rightarrow> nat \<Rightarrow> ct_pred_locator" where
  "prefetch_path_child_predecessor trie finger path_pos symbol =
     (case find_left_descend (f_path finger) path_pos symbol of
        None \<Rightarrow> init_pred_locator\<lparr>sub_path_pos := None, sub_primary_bucket := - 1\<rparr>
      | Some (bitmap_path_pos, left_symbol) \<Rightarrow>
          (let bitmap_prefix_hash = pe_prefix_hash (f_path finger ! bitmap_path_pos);
               child_prefix_hash = accumulate_hash trie bitmap_prefix_hash (of_nat left_symbol)
           in init_pred_locator\<lparr>sub_path_pos := Some bitmap_path_pos,
                sub_primary_bucket := hash_to_bucket child_prefix_hash,
                sub_tag := ucast (hash_to_tag child_prefix_hash),
                sub_parent_color := entry_color (node_at (f_path finger) bitmap_path_pos),
                sub_last_symbol := of_nat left_symbol\<rparr>))"

definition prefetch_leaf_predecessor :: "cuckoo_trie \<Rightarrow> ct_finger \<Rightarrow> ct_pred_locator" where
  "prefetch_leaf_predecessor trie finger =
     (if last_path_entry finger \<le> 0 then init_pred_locator\<lparr>sub_primary_bucket := - 1\<rparr>
      else prefetch_path_child_predecessor trie finger (last_path_entry finger - 1)
             (unat (last_prefix_symbol finger)))"

definition prefetch_bitmap_child_predecessor :: "cuckoo_trie \<Rightarrow> ct_finger \<Rightarrow> nat \<Rightarrow> ct_pred_locator" where
  "prefetch_bitmap_child_predecessor trie finger symbol =
     prefetch_path_child_predecessor trie finger (last_path_entry finger) symbol"

definition find_subtree :: "cuckoo_trie \<Rightarrow> ct_pred_locator \<Rightarrow> ct_entry_local_copy option" where
  "find_subtree trie loc =
     find_entry_in_pair_by_parent trie (sub_primary_bucket loc) (ucast (sub_tag loc))
       (ucast (sub_last_symbol loc)) (ucast (sub_parent_color loc))"

text \<open>
  The leaf a locator describes. The first component of the result is false when the path
  of the finger or the leaf has changed; the leaf found until then is returned as well.
\<close>

definition get_predecessor_atomic ::
    "cuckoo_trie \<Rightarrow> ct_finger \<Rightarrow> ct_pred_locator \<Rightarrow> ct_entry_local_copy \<Rightarrow> (bool \<times> ct_entry_local_copy) option" where
  "get_predecessor_atomic trie finger loc result =
     (if sub_primary_bucket loc = - 1
      then do {
        result \<leftarrow> read_min_leaf trie;
        Some (validate_path_from trie finger 0, result)
      }
      else do {
        subtree_root \<leftarrow> find_subtree trie loc;
        if entry_type (lc_value subtree_root) = TYPE_LEAF
        then (if \<not> validate_path_from trie finger (the (sub_path_pos loc)) then Some (False, result)
              else if entry_dirty (lc_value subtree_root) then Some (False, result)
              else Some (True, subtree_root))
        else do {
          result \<leftarrow> locator_to_entry trie (max_leaf (lc_value subtree_root));
          if entry_type (lc_value result) \<noteq> TYPE_LEAF then Some (False, result)
          else if \<not> validate_path_from trie finger (the (sub_path_pos loc)) then Some (False, result)
          else if \<not> validate_entry trie subtree_root then Some (False, result)
          else if entry_dirty (lc_value result) then Some (False, result)
          else Some (True, result)
        }
      })"

definition find_predecessor :: "cuckoo_trie \<Rightarrow> ct_pred_locator \<Rightarrow> ct_pred_locator option" where
  "find_predecessor trie loc =
     (if sub_primary_bucket loc = - 1
      then do { leaf \<leftarrow> read_min_leaf trie; Some (loc\<lparr>predecessor := leaf\<rparr>) }
      else do {
        subtree_root \<leftarrow> find_subtree trie loc;
        if entry_type (lc_value subtree_root) = TYPE_LEAF then Some (loc\<lparr>predecessor := subtree_root\<rparr>)
        else do {
          leaf \<leftarrow> locator_to_entry trie (max_leaf (lc_value subtree_root));
          Some (loc\<lparr>predecessor := leaf\<rparr>)
        }
      })"

subsection \<open>The linked list of leaves\<close>

definition linklist_insert ::
    "cuckoo_trie \<Rightarrow> ct_pred_locator \<Rightarrow> ct_entry \<Rightarrow> u64 \<Rightarrow> (ct_pred_locator \<times> cuckoo_trie) option" where
  "linklist_insert trie loc new_entry primary_bucket = do {
     let new_entry_locator = \<lparr>loc_primary_bucket = ucast primary_bucket, loc_tag = entry_tag new_entry,
       loc_color = entry_color new_entry\<rparr>;
     let new_prev = (lc_value (predecessor loc))\<lparr>e_locator := new_entry_locator\<rparr>;
     (copy, trie) \<leftarrow> update_entry trie (predecessor loc) new_prev;
     Some (loc\<lparr>predecessor := copy\<rparr>, trie)
   }"

definition linklist_insert_two ::
    "cuckoo_trie \<Rightarrow> ct_pred_locator \<Rightarrow> u64 \<Rightarrow> u8 \<Rightarrow> (ct_pred_locator \<times> cuckoo_trie) option" where
  "linklist_insert_two trie loc entry_1_hash entry_1_color = do {
     let first_entry_locator = \<lparr>loc_primary_bucket = ucast (hash_to_bucket entry_1_hash),
       loc_tag = ucast (hash_to_tag entry_1_hash), loc_color = entry_1_color\<rparr>;
     let new_prev = (lc_value (predecessor loc))\<lparr>e_locator := first_entry_locator\<rparr>;
     (copy, trie) \<leftarrow> update_entry trie (predecessor loc) new_prev;
     Some (loc\<lparr>predecessor := copy\<rparr>, trie)
   }"

end
