(* ===== verification/Insert.thy ===== *)
theory Insert
  imports Finger
begin

text \<open>
  The changes of the trie's shape (\<open>main.c\<close>): creating the root, adding a child to a
  bitmap, splitting a leaf and splitting a jump node.

  Every operation first write-locks what it is going to change, then adds the new nodes,
  which are unreachable, and at last writes the node that makes them reachable. When a lock
  cannot be taken it removes what it has added and reports \<open>SI_RETRY\<close>; when the table has no
  room it reports \<open>SI_FAIL\<close>. Key objects are read through \<open>heap\<close>, from addresses to objects;
  they are not changed while they are in the trie.
\<close>

type_synonym kv_heap = "u64 \<Rightarrow> ct_kv"

subsection \<open>The root\<close>

text \<open>
  Without the lock, the thread waits until the root exists; \<open>None\<close> is that wait. The leaf
  before the first one is written without a lock: no other thread uses it before
  \<open>is_empty\<close> is cleared.
\<close>

definition create_root :: "lock_state \<Rightarrow> u64 \<Rightarrow> (status \<times> lock_state) option" where
  "create_root s kv =
     (let tag = hash_to_tag HASH_START_VALUE;
          primary_bucket_num = hash_to_bucket HASH_START_VALUE;
          root = zero_entry\<lparr>parent_color_and_flags := push_bit PARENT_COLOR_SHIFT INVALID_COLOR OR TYPE_LEAF,
                   color_and_tag := push_bit TAG_BITS ROOT_COLOR OR ucast tag\<rparr>;
          root = entry_set_kv root kv;
          root = root\<lparr>e_locator := (next_leaf root)\<lparr>loc_primary_bucket := - 1\<rparr>\<rparr>;
          (lock, trie, mgr) = write_lock_bucket s (unat primary_bucket_num)
      in if lock = None \<and> is_empty trie then None
         else if \<not> is_empty trie then Some (SI_EXISTS, release_all_locks (trie, mgr))
         else let trie = snd (write_entry trie (unat primary_bucket_num, 0) root);
                  head = trie_min_leaf trie;
                  trie = set_cell trie head ((cell trie head)\<lparr>e_locator :=
                    \<lparr>loc_primary_bucket = ucast primary_bucket_num, loc_tag = ucast tag, loc_color = ROOT_COLOR\<rparr>\<rparr>);
                  trie = trie\<lparr>is_empty := False\<rparr>
              in Some (SI_OK, release_all_locks (trie, mgr)))"

subsection \<open>Locks above the changed node\<close>

primrec upgrade_left_parents :: "ct_path_entry list \<Rightarrow> nat \<Rightarrow> lock_state \<Rightarrow> status \<times> nat \<times> lock_state" where
  "upgrade_left_parents path 0 s = (SI_OK, 0, s)"
| "upgrade_left_parents path (Suc q) s =
     (let backtrack_symbol = e_last_symbol (node_at path (Suc q)); parent = pe_entry (path ! q)
      in if entry_type (lc_value parent) \<noteq> TYPE_JUMP \<and> backtrack_symbol \<noteq> max_child (lc_value parent)
         then (SI_OK, Suc q, s)
         else let (result, s) = upgrade_lock s parent
              in if result \<noteq> SI_OK then (result, Suc q, s) else upgrade_left_parents path q s)"

definition upgrade_locks_on_left_parents_above :: "lock_state \<Rightarrow> ct_finger \<Rightarrow> nat \<Rightarrow> status \<times> lock_state" where
  "upgrade_locks_on_left_parents_above s finger bitmap_path_pos =
     (let path = f_path finger;
          (result, path_pos, s) = upgrade_left_parents path bitmap_path_pos s
      in if result \<noteq> SI_OK
         then (result, foldl (\<lambda>s i. write_unlock s (last_pos (pe_entry (path ! i)))) s [path_pos..<bitmap_path_pos])
         else (result, s))"

definition lock_predecessor ::
    "lock_state \<Rightarrow> ct_finger \<Rightarrow> ct_pred_locator \<Rightarrow> (status \<times> ct_pred_locator \<times> lock_state) option" where
  "lock_predecessor s finger loc = do {
     (found, leaf) \<leftarrow> get_predecessor_atomic (fst s) finger loc (predecessor loc);
     let loc = loc\<lparr>predecessor := leaf\<rparr>;
     if \<not> found then Some (SI_RETRY, loc, s)
     else let (ret, s) = upgrade_lock s (predecessor loc) in Some (ret, loc, s)
   }"

subsection \<open>Nodes\<close>

definition extend_jump_node :: "ct_entry \<Rightarrow> u64 \<Rightarrow> ct_entry" where
  "extend_jump_node jump_node symbol =
     (let offset = entry_jump_size jump_node * BITS_PER_SYMBOL
      in jump_node\<lparr>e_bytes := put_bits (jump_bits jump_node) offset BITS_PER_SYMBOL (ucast (symbol - 1)),
                   e_byte8 := child_color_and_jump_size jump_node + 1\<rparr>)"

definition create_bitmap_child ::
    "lock_state \<Rightarrow> ct_finger \<Rightarrow> u8 \<Rightarrow> u64 \<Rightarrow> u64 \<Rightarrow> (status \<times> entry_ptr option \<times> ct_entry \<times> lock_state) option" where
  "create_bitmap_child s finger bitmap_color symbol kv =
     (let bitmap_in_trie = last_pos (containing_entry finger);
          child_prefix_hash = accumulate_hash (fst s) (f_prefix_hash finger) symbol;
          child = zero_entry\<lparr>parent_color_and_flags := push_bit PARENT_COLOR_SHIFT bitmap_color OR TYPE_LEAF,
                    e_last_symbol := ucast symbol\<rparr>;
          child = entry_set_kv child kv
      in add_entry s child_prefix_hash child (Some bitmap_in_trie) True)"

definition mark_bitmap_child ::
    "cuckoo_trie \<Rightarrow> ct_entry_local_copy \<Rightarrow> u64 \<Rightarrow> u64 \<Rightarrow> u8 \<Rightarrow> (ct_entry_local_copy \<times> cuckoo_trie) option" where
  "mark_bitmap_child trie bitmap_local_copy symbol child_prefix_hash child_color =
     (let new_bitmap = entry_set_child_bit (lc_value bitmap_local_copy) (unat symbol);
          new_bitmap =
            (if ucast (max_child (lc_value bitmap_local_copy)) < symbol
             then new_bitmap\<lparr>e_byte8 := ucast symbol,
                    e_locator := \<lparr>loc_primary_bucket = ucast (hash_to_bucket child_prefix_hash),
                      loc_tag = ucast (hash_to_tag child_prefix_hash), loc_color = child_color\<rparr>\<rparr>
             else new_bitmap)
      in update_entry trie bitmap_local_copy new_bitmap)"

text \<open>
  From the end of the path upwards: copy the \<open>max_leaf\<close> of a node to its parent, until the
  node is not the parent's maximal child.
\<close>

primrec propagate_from :: "nat \<Rightarrow> nat \<Rightarrow> cuckoo_trie \<Rightarrow> ct_finger \<Rightarrow> (ct_finger \<times> cuckoo_trie) option" where
  "propagate_from top_path_pos 0 trie finger = Some (finger, trie)"
| "propagate_from top_path_pos (Suc q) trie finger =
     (let child = node_at (f_path finger) (Suc q); parent = node_at (f_path finger) q
      in if Suc q \<le> top_path_pos then Some (finger, trie)
         else if entry_type parent = TYPE_BITMAP \<and> e_last_symbol child < max_child parent
         then Some (finger, trie)
         else do {
           (copy, trie) \<leftarrow> update_entry trie (pe_entry (f_path finger ! q)) (parent\<lparr>e_locator := max_leaf child\<rparr>);
           propagate_from top_path_pos q trie (set_path_copy finger q copy)
         })"

definition propagate_max_leaf :: "cuckoo_trie \<Rightarrow> ct_finger \<Rightarrow> nat \<Rightarrow> (ct_finger \<times> cuckoo_trie) option" where
  "propagate_max_leaf trie finger top_path_pos = propagate_from top_path_pos (last_path_entry finger) trie finger"

text \<open>An update of a node in the trie and of its copy in the finger's path.\<close>

definition update_path_entry ::
    "cuckoo_trie \<Rightarrow> ct_finger \<Rightarrow> ct_entry \<Rightarrow> (ct_finger \<times> cuckoo_trie) option" where
  "update_path_entry trie finger new_value = do {
     (copy, trie) \<leftarrow> update_entry trie (pe_entry (f_path finger ! last_path_entry finger)) new_value;
     Some (set_path_copy finger (last_path_entry finger) copy, trie)
   }"

subsection \<open>Splitting a leaf\<close>

definition split_leaf_locks ::
    "lock_state \<Rightarrow> ct_finger \<Rightarrow> ct_pred_locator \<Rightarrow> (status \<times> ct_pred_locator \<times> lock_state) option" where
  "split_leaf_locks s finger loc =
     (let path = f_path finger; parent = last_path_entry finger - 1;
          (ret, s) = (if last_path_entry finger > 0 then upgrade_lock s (pe_entry (path ! parent)) else (SI_OK, s))
      in if ret = SI_RETRY then Some (SI_RETRY, loc, s)
         else let (ret, s) = (if last_path_entry finger > 0
                              then upgrade_locks_on_left_parents_above s finger parent else (SI_OK, s))
              in if ret = SI_RETRY then Some (SI_RETRY, loc, s)
                 else let (ret, s) = upgrade_lock s (containing_entry finger)
                      in if ret = SI_RETRY then Some (SI_RETRY, loc, s)
                         else lock_predecessor s finger loc)"

text \<open>
  The jump nodes of the common part of the two keys, with their prefix hashes; the result
  also has the two symbols that differ, the last common symbol and the common hash. The
  loop does not end when the keys are equal.
\<close>

type_synonym path_node = "ct_entry \<times> u64"

definition new_jump_node :: "u64 \<Rightarrow> u64 \<Rightarrow> ct_entry" where
  "new_jump_node symbol prefix_hash =
     zero_entry\<lparr>parent_color_and_flags := push_bit PARENT_COLOR_SHIFT INVALID_COLOR OR TYPE_JUMP,
       e_last_symbol := ucast symbol, color_and_tag := ucast (hash_to_tag prefix_hash), e_byte8 := 0\<rparr>"

definition grow_path :: "path_node list \<Rightarrow> u64 \<Rightarrow> u64 \<Rightarrow> u64 \<Rightarrow> path_node list" where
  "grow_path nodes symbol prefix_hash new_symbol =
     (let nodes = (if nodes = [] \<or> entry_jump_size (fst (last nodes)) = MAX_JUMP_SYMBOLS
                   then nodes @ [(new_jump_node symbol prefix_hash, prefix_hash)] else nodes)
      in butlast nodes @ [(extend_jump_node (fst (last nodes)) new_symbol, snd (last nodes))])"

partial_function (option) split_path ::
    "cuckoo_trie \<Rightarrow> ct_kv \<Rightarrow> ct_kv \<Rightarrow> nat \<Rightarrow> u64 \<Rightarrow> u64 \<Rightarrow> path_node list
      \<Rightarrow> (path_node list \<times> u64 \<times> u64 \<times> u64 \<times> u64) option" where
  "split_path trie existing_kv kv key_pos symbol prefix_hash nodes =
     (let existing_key_symbol = get_key_symbol existing_kv key_pos;
          new_key_symbol = get_key_symbol kv key_pos
      in if existing_key_symbol \<noteq> new_key_symbol
         then Some (nodes, existing_key_symbol, new_key_symbol, symbol, prefix_hash)
         else split_path trie existing_kv kv (key_pos + 1) existing_key_symbol
                (accumulate_hash trie prefix_hash existing_key_symbol)
                (grow_path nodes symbol prefix_hash new_key_symbol))"

text \<open>The first node replaces the leaf; so it gets the leaf's colors, tag and side.\<close>

definition set_path_head :: "ct_entry \<Rightarrow> ct_entry \<Rightarrow> ct_entry" where
  "set_path_head leaf head =
     (let head = entry_set_parent_color head (entry_parent_color leaf);
          head = head\<lparr>color_and_tag := color_and_tag leaf\<rparr>
      in if entry_is_secondary leaf
         then head\<lparr>parent_color_and_flags := parent_color_and_flags head OR FLAG_SECONDARY_BUCKET\<rparr> else head)"

definition new_bitmap_node :: "u64 \<Rightarrow> ct_entry" where
  "new_bitmap_node symbol =
     zero_entry\<lparr>parent_color_and_flags := push_bit PARENT_COLOR_SHIFT INVALID_COLOR OR TYPE_BITMAP,
       e_last_symbol := ucast symbol, e_bytes := replicate CHILD_BITMAP_BYTES 0\<rparr>"

text \<open>All nodes but the head are added, bottom to top; the count is that of the added nodes.\<close>

primrec add_path_nodes ::
    "nat \<Rightarrow> u64 list \<Rightarrow> ct_entry list \<Rightarrow> nat \<Rightarrow> lock_state \<Rightarrow> (status \<times> ct_entry list \<times> nat \<times> lock_state) option" where
  "add_path_nodes 0 hashes path_nodes written s = Some (SI_OK, path_nodes, written, s)"
| "add_path_nodes (Suc i) hashes path_nodes written s = do {
     (ret, pos, node, s) \<leftarrow> add_entry s (hashes ! Suc i) (path_nodes ! Suc i) None True;
     let path_nodes = path_nodes[Suc i := node];
     if ret \<noteq> SI_OK then Some (ret, path_nodes, written, s)
     else add_path_nodes i hashes (path_nodes[i := entry_set_child_color (path_nodes ! i) (entry_color node)])
            (written + 1) s
   }"

text \<open>The \<open>locking_failed\<close> exit: remove the nodes added so far, last in the path first.\<close>

primrec remove_path_nodes :: "nat \<Rightarrow> u64 list \<Rightarrow> ct_entry list \<Rightarrow> nat \<Rightarrow> cuckoo_trie \<Rightarrow> cuckoo_trie option" where
  "remove_path_nodes 0 hashes path_nodes path_idx trie = Some trie"
| "remove_path_nodes (Suc n) hashes path_nodes path_idx trie = do {
     trie \<leftarrow> remove_entry_by_value trie (path_nodes ! path_idx) (hashes ! path_idx);
     remove_path_nodes n hashes path_nodes (path_idx - 1) trie
   }"

definition split_leaf_failed ::
    "lock_state \<Rightarrow> u64 list \<Rightarrow> ct_entry list \<Rightarrow> nat \<Rightarrow> (ct_entry \<times> u64) option \<Rightarrow> (status \<times> lock_state) option" where
  "split_leaf_failed s hashes path_nodes written maximal_leaf = do {
     let (trie, mgr) = s;
     trie \<leftarrow> remove_path_nodes written hashes path_nodes (length path_nodes - 1) trie;
     trie \<leftarrow> (case maximal_leaf of
                None \<Rightarrow> Some trie
              | Some (content, hash) \<Rightarrow> remove_entry_by_value trie content hash);
     Some (SI_RETRY, release_all_locks (trie, mgr))
   }"

text \<open>The last part, once everything is added: make it reachable.\<close>

definition split_leaf_publish ::
    "lock_state \<Rightarrow> ct_finger \<Rightarrow> ct_pred_locator \<Rightarrow> ct_entry \<Rightarrow> u64 \<Rightarrow> u8 \<Rightarrow> (status \<times> ct_finger \<times> lock_state) option" where
  "split_leaf_publish s finger loc path_head minimal_leaf_hash minimal_leaf_color = do {
     let (trie, mgr) = s;
     (copy, trie) \<leftarrow> mark_entry_dirty trie (predecessor loc);
     let loc = loc\<lparr>predecessor := copy\<rparr>;
     (finger, trie) \<leftarrow> update_path_entry trie finger path_head;
     (loc, trie) \<leftarrow> linklist_insert_two trie loc minimal_leaf_hash minimal_leaf_color;
     (finger, trie) \<leftarrow> propagate_max_leaf trie finger 0;
     (copy, trie) \<leftarrow> mark_entry_clean trie (predecessor loc);
     Some (SI_OK, finger, release_all_locks (trie, mgr))
   }"

definition split_leaf ::
    "kv_heap \<Rightarrow> lock_state \<Rightarrow> ct_finger \<Rightarrow> u64 \<Rightarrow> bool \<Rightarrow> ct_pred_locator \<Rightarrow> (status \<times> ct_finger \<times> lock_state) option" where
  "split_leaf heap s finger kv is_maximal loc = do {
     let leaf = lc_value (containing_entry finger);
     let existing_kv = entry_kv leaf;
     let original_leaf_next = next_leaf leaf;
     (ret, loc, s) \<leftarrow> split_leaf_locks s finger loc;
     if ret = SI_RETRY then Some (SI_RETRY, finger, release_all_locks s)
     else do {
       (nodes, existing_key_symbol, new_key_symbol, symbol, prefix_hash) \<leftarrow>
         split_path (fst s) (heap existing_kv) (heap kv) (prefix_len finger) (ucast (last_prefix_symbol finger))
           (f_prefix_hash finger) [];
       let (minimal_child, maximal_child, minimal_kv, maximal_kv) =
         (if is_maximal then (existing_key_symbol, new_key_symbol, existing_kv, kv)
          else (new_key_symbol, existing_key_symbol, kv, existing_kv));
       let path_nodes = map fst nodes @ [new_bitmap_node symbol];
       let hashes = map snd nodes @ [prefix_hash];
       let num_path_nodes = length path_nodes;
       let path_nodes = path_nodes[0 := set_path_head leaf (path_nodes ! 0)];
       let minimal_leaf_hash = accumulate_hash (fst s) prefix_hash minimal_child;
       let maximal_leaf_hash = accumulate_hash (fst s) prefix_hash maximal_child;
       let maximal_content = zero_entry\<lparr>parent_color_and_flags := TYPE_LEAF, e_last_symbol := ucast maximal_child\<rparr>;
       (ret, maximal_leaf, maximal_content, s) \<leftarrow> add_entry s maximal_leaf_hash maximal_content None True;
       if ret = SI_RETRY then do {
         (ret, s) \<leftarrow> split_leaf_failed s hashes path_nodes 0 None; Some (ret, finger, s)
       }
       else if ret = SI_FAIL then Some (SI_FAIL, finger, release_all_locks s)
       else do {
         let (trie, mgr) = s;
         let maximal_leaf = the maximal_leaf;
         let trie = set_cell trie maximal_leaf (entry_set_kv (cell trie maximal_leaf) maximal_kv);
         let trie = set_cell trie maximal_leaf ((cell trie maximal_leaf)\<lparr>e_locator := original_leaf_next\<rparr>);
         let maximal_leaf_color = entry_color (cell trie maximal_leaf);
         let maximal_locator = \<lparr>loc_primary_bucket = ucast (hash_to_bucket maximal_leaf_hash),
               loc_tag = ucast (hash_to_tag maximal_leaf_hash), loc_color = maximal_leaf_color\<rparr>;
         let bitmap_node = path_nodes ! (num_path_nodes - 1);
         let bitmap_node = bitmap_node\<lparr>e_bytes := set_bit_at (child_bitmap bitmap_node) (unat minimal_child) True\<rparr>;
         let bitmap_node = bitmap_node\<lparr>e_bytes := set_bit_at (child_bitmap bitmap_node) (unat maximal_child) True\<rparr>;
         let bitmap_node = bitmap_node\<lparr>e_byte8 := ucast maximal_child\<rparr>;
         let path_nodes = path_nodes[num_path_nodes - 1 := bitmap_node];
         let path_nodes = map (\<lambda>node. node\<lparr>e_locator := maximal_locator\<rparr>) path_nodes;
         (ret, path_nodes, written, trie, mgr) \<leftarrow> add_path_nodes (num_path_nodes - 1) hashes path_nodes 0 (trie, mgr);
         if ret = SI_RETRY then do {
           (ret, s) \<leftarrow> split_leaf_failed (trie, mgr) hashes path_nodes written (Some (maximal_content, maximal_leaf_hash));
           Some (ret, finger, s)
         }
         else if ret = SI_FAIL then Some (SI_FAIL, finger, release_all_locks (trie, mgr))
         else do {
           let bitmap_color = entry_color (path_nodes ! (num_path_nodes - 1));
           let trie = set_cell trie maximal_leaf (entry_set_parent_color (cell trie maximal_leaf) bitmap_color);
           let minimal_content = zero_entry\<lparr>e_last_symbol := ucast minimal_child,
                 parent_color_and_flags := push_bit PARENT_COLOR_SHIFT bitmap_color OR TYPE_LEAF\<rparr>;
           let minimal_content = (entry_set_kv minimal_content minimal_kv)\<lparr>e_locator := maximal_locator\<rparr>;
           (ret, minimal_leaf, minimal_content, s) \<leftarrow>
             add_entry (trie, mgr) minimal_leaf_hash minimal_content (Some maximal_leaf) True;
           if ret = SI_RETRY then do {
             (ret, s) \<leftarrow> split_leaf_failed s hashes path_nodes written (Some (maximal_content, maximal_leaf_hash));
             Some (ret, finger, s)
           }
           else if ret = SI_FAIL then Some (SI_FAIL, finger, release_all_locks s)
           else split_leaf_publish s finger loc (path_nodes ! 0) minimal_leaf_hash (entry_color minimal_content)
         }
       }
     }
   }"

end
