(* ===== verification/CreateLeaf.thy ===== *)
theory CreateLeaf
  imports Insert
begin

text \<open>
  Splitting a jump node, and \<open>create_leaf\<close> (\<open>main.c\<close>), which adds the leaf of a key where
  the finger stopped: in the middle of a jump node, at a bitmap without the child, or at
  the leaf of another key.
\<close>

subsection \<open>Splitting a jump node\<close>

definition split_jump_failed ::
    "lock_state \<Rightarrow> ct_finger \<Rightarrow> (ct_entry \<times> entry_ptr) option \<Rightarrow> (status \<times> ct_finger \<times> lock_state) option" where
  "split_jump_failed s finger bitmap = do {
     let (trie, mgr) = s;
     trie \<leftarrow> (case bitmap of
                None \<Rightarrow> Some trie
              | Some (bitmap_node, _) \<Rightarrow> remove_entry_by_value trie bitmap_node (f_prefix_hash finger));
     Some (SI_RETRY, finger, release_all_locks (trie, mgr))
   }"

text \<open>The node of the symbols behind the split symbol.\<close>

definition tail_jump_node :: "ct_entry \<Rightarrow> nat \<Rightarrow> u64 \<Rightarrow> u8 \<Rightarrow> ct_entry" where
  "tail_jump_node jump_node remaining_jump_symbols split_symbol bitmap_color =
     (let num_tail_symbols = entry_jump_size jump_node - remaining_jump_symbols - 1;
          tail = zero_entry\<lparr>parent_color_and_flags := push_bit PARENT_COLOR_SHIFT bitmap_color OR TYPE_JUMP,
            e_byte8 := push_bit CHILD_COLOR_SHIFT (entry_child_color jump_node) OR of_nat num_tail_symbols,
            e_last_symbol := ucast split_symbol, e_locator := max_leaf jump_node\<rparr>
      in tail\<lparr>e_bytes := copy_bits (jump_bits tail) (drop 3 (entry_bytes jump_node))
                ((remaining_jump_symbols + 1) * BITS_PER_SYMBOL) (num_tail_symbols * BITS_PER_SYMBOL)\<rparr>)"

text \<open>
  The head of the split node and, when the split is not at its first symbol, the new
  bitmap. The bitmap has the split symbol as its only child.
\<close>

definition split_head :: "ct_entry \<Rightarrow> nat \<Rightarrow> ct_entry" where
  "split_head jump_node remaining_jump_symbols =
     (let new_head = entry_set_jump_size jump_node (of_nat remaining_jump_symbols)
      in if remaining_jump_symbols = 0 then entry_set_type new_head TYPE_BITMAP else new_head)"

definition split_bitmap :: "ct_entry \<Rightarrow> nat \<Rightarrow> u8 \<Rightarrow> ct_entry" where
  "split_bitmap jump_node remaining_jump_symbols prefix_symbol =
     (let split_symbol = get_jump_symbol jump_node remaining_jump_symbols;
          bitmap_node = (if remaining_jump_symbols = 0 then split_head jump_node remaining_jump_symbols
            else zero_entry\<lparr>parent_color_and_flags := push_bit PARENT_COLOR_SHIFT INVALID_COLOR OR TYPE_BITMAP,
                   e_last_symbol := prefix_symbol, e_locator := max_leaf jump_node\<rparr>);
          bitmap_node = bitmap_node\<lparr>e_bytes := replicate CHILD_BITMAP_BYTES 0\<rparr>;
          bitmap_node = bitmap_node\<lparr>e_bytes := set_bit_at (child_bitmap bitmap_node) (unat split_symbol) True\<rparr>
      in bitmap_node\<lparr>e_byte8 := ucast split_symbol\<rparr>)"

text \<open>The last part: write the head and move the finger to the bitmap.\<close>

definition split_jump_publish ::
    "lock_state \<Rightarrow> ct_finger \<Rightarrow> ct_entry \<Rightarrow> (ct_entry \<times> entry_ptr) option \<Rightarrow> u32 \<Rightarrow> (status \<times> ct_finger \<times> lock_state) option" where
  "split_jump_publish s finger new_head bitmap bitmap_seq = do {
     let (trie, mgr) = s;
     (finger, trie) \<leftarrow> update_path_entry trie finger new_head;
     let finger = reread_path_end finger;
     let finger = (case bitmap of
         None \<Rightarrow> finger
       | Some (bitmap_node, bitmap_node_in_trie) \<Rightarrow>
           finger_node_changed (finger\<lparr>containing_entry :=
             \<lparr>lc_value = bitmap_node, last_pos = bitmap_node_in_trie,
              lc_primary_bucket = hash_to_bucket (f_prefix_hash finger), last_seq = bitmap_seq\<rparr>\<rparr>) True);
     Some (SI_OK, finger, release_all_locks (trie, mgr))
   }"

text \<open>
  The part between the bitmap and the new head: the tail is added or, without a tail, the
  child of the jump node becomes a child of the bitmap.
\<close>

definition split_jump_tail ::
    "lock_state \<Rightarrow> ct_entry \<Rightarrow> nat \<Rightarrow> u64 \<Rightarrow> ct_entry_local_copy \<Rightarrow> u8 \<Rightarrow> entry_ptr option
      \<Rightarrow> (status \<times> lock_state) option" where
  "split_jump_tail s jump_node remaining_jump_symbols tail_prefix_hash bitmap_child bitmap_color bitmap_node_in_trie =
     (if remaining_jump_symbols + 1 < entry_jump_size jump_node
      then do {
        let split_symbol = get_jump_symbol jump_node remaining_jump_symbols;
        let tail = tail_jump_node jump_node remaining_jump_symbols split_symbol bitmap_color;
        (ret, tail_addr, tail, s) \<leftarrow> add_entry s tail_prefix_hash tail bitmap_node_in_trie False;
        Some (ret, s)
      }
      else let (trie, mgr) = s
           in Some (SI_OK, entry_set_parent_color_atomic trie (last_pos bitmap_child) bitmap_color, mgr))"

definition split_jump_locks ::
    "lock_state \<Rightarrow> ct_finger \<Rightarrow> u64 \<Rightarrow> (status \<times> ct_entry_local_copy \<times> lock_state) option" where
  "split_jump_locks s finger tail_prefix_hash = do {
     let jump_node = lc_value (containing_entry finger);
     let has_tail = depth_in_jump finger + 1 < entry_jump_size jump_node;
     (ret, bitmap_child, s) \<leftarrow>
       (if has_tail then Some (SI_OK, zero_copy, s)
        else do {
          bitmap_child \<leftarrow> find_entry_in_pair_by_color (fst s) (hash_to_bucket tail_prefix_hash)
            (hash_to_tag tail_prefix_hash) (ucast (entry_child_color jump_node));
          let (ret, s) = upgrade_lock s bitmap_child;
          Some (ret, bitmap_child, s)
        });
     if ret = SI_RETRY then Some (SI_RETRY, bitmap_child, s)
     else let (ret, s) = upgrade_lock s (containing_entry finger) in Some (ret, bitmap_child, s)
   }"

definition split_jump_node :: "lock_state \<Rightarrow> ct_finger \<Rightarrow> (status \<times> ct_finger \<times> lock_state) option" where
  "split_jump_node s finger = do {
     let remaining_jump_symbols = depth_in_jump finger;
     let jump_node_backup = lc_value (containing_entry finger);
     let split_symbol = get_jump_symbol jump_node_backup remaining_jump_symbols;
     let tail_prefix_hash = accumulate_hash (fst s) (f_prefix_hash finger) split_symbol;
     (ret, bitmap_child, s) \<leftarrow> split_jump_locks s finger tail_prefix_hash;
     if ret = SI_RETRY then split_jump_failed s finger None
     else do {
       let new_head = split_head jump_node_backup remaining_jump_symbols;
       let bitmap_node = split_bitmap jump_node_backup remaining_jump_symbols (last_prefix_symbol finger);
       if remaining_jump_symbols = 0
       then do {
         (ret, s) \<leftarrow> split_jump_tail s jump_node_backup remaining_jump_symbols tail_prefix_hash bitmap_child
           (entry_color bitmap_node) None;
         if ret = SI_RETRY then split_jump_failed s finger None
         else if ret = SI_FAIL then Some (SI_FAIL, finger, release_all_locks s)
         else split_jump_publish s finger bitmap_node None (- 1)
       }
       else do {
         (ret, bitmap_node_in_trie, bitmap_node, s) \<leftarrow> add_entry s (f_prefix_hash finger) bitmap_node None True;
         if ret = SI_RETRY then split_jump_failed s finger None
         else if ret = SI_FAIL then Some (SI_FAIL, finger, release_all_locks s)
         else do {
           let bitmap = (bitmap_node, the bitmap_node_in_trie);
           let bitmap_seq = bucket_word (fst s) (fst (the bitmap_node_in_trie));
           let new_head = entry_set_child_color new_head (entry_color bitmap_node);
           (ret, s) \<leftarrow> split_jump_tail s jump_node_backup remaining_jump_symbols tail_prefix_hash bitmap_child
             (entry_color bitmap_node) bitmap_node_in_trie;
           if ret = SI_RETRY then split_jump_failed s finger (Some bitmap)
           else if ret = SI_FAIL then Some (SI_FAIL, finger, release_all_locks s)
           else split_jump_publish s finger new_head (Some bitmap) bitmap_seq
         }
       }
     }
   }"

subsection \<open>Creating a leaf\<close>

definition create_leaf_failed :: "lock_state \<Rightarrow> ct_finger \<Rightarrow> (status \<times> ct_finger \<times> lock_state) option" where
  "create_leaf_failed s finger = Some (SI_RETRY, finger, release_all_locks s)"

definition create_leaf_in_bitmap ::
    "lock_state \<Rightarrow> ct_finger \<Rightarrow> u64 \<Rightarrow> u64 \<Rightarrow> (status \<times> ct_finger \<times> lock_state) option" where
  "create_leaf_in_bitmap s finger kv next_symbol = do {
     let loc = prefetch_bitmap_child_predecessor (fst s) finger (unat next_symbol);
     let new_leaf_hash = accumulate_hash (fst s) (f_prefix_hash finger) next_symbol;
     let (ret, s) = upgrade_lock s (containing_entry finger);
     if ret = SI_RETRY then create_leaf_failed s finger
     else do {
       let (ret, s) = upgrade_locks_on_left_parents_above s finger (last_path_entry finger);
       if ret = SI_RETRY then create_leaf_failed s finger
       else do {
         (ret, loc, s) \<leftarrow> lock_predecessor s finger loc;
         if ret = SI_RETRY then create_leaf_failed s finger
         else do {
           (ret, new_leaf, child, s) \<leftarrow>
             create_bitmap_child s finger (entry_color (lc_value (containing_entry finger))) next_symbol kv;
           if ret = SI_RETRY then create_leaf_failed s finger
           else if ret = SI_FAIL then Some (SI_FAIL, finger, release_all_locks s)
           else do {
             let (trie, mgr) = s;
             let new_leaf = the new_leaf;
             let new_leaf_next = next_leaf (lc_value (predecessor loc));
             let trie = set_cell trie new_leaf ((cell trie new_leaf)\<lparr>e_locator := new_leaf_next\<rparr>);
             (copy, trie) \<leftarrow> mark_entry_dirty trie (predecessor loc);
             let loc = loc\<lparr>predecessor := copy\<rparr>;
             (loc, trie) \<leftarrow> linklist_insert trie loc (cell trie new_leaf) (hash_to_bucket new_leaf_hash);
             (copy, trie) \<leftarrow> mark_bitmap_child trie (pe_entry (f_path finger ! last_path_entry finger)) next_symbol
               new_leaf_hash (entry_color (cell trie new_leaf));
             let finger = set_path_copy finger (last_path_entry finger) copy;
             let finger = reread_path_end finger;
             (finger, trie) \<leftarrow> propagate_max_leaf trie finger 0;
             (copy, trie) \<leftarrow> mark_entry_clean trie (predecessor loc);
             Some (SI_OK, finger, release_all_locks (trie, mgr))
           }
         }
       }
     }
   }"

definition create_leaf_at_leaf ::
    "kv_heap \<Rightarrow> lock_state \<Rightarrow> ct_finger \<Rightarrow> u64 \<Rightarrow> (status \<times> ct_finger \<times> lock_state) option" where
  "create_leaf_at_leaf heap s finger kv =
     (let loc = prefetch_leaf_predecessor (fst s) finger;
          leaf_kv = entry_kv (lc_value (containing_entry finger));
          leaf_cmp = kv_key_compare (heap leaf_kv) (heap kv)
      in if leaf_cmp = 0 then Some (SI_EXISTS, finger, s)
         else split_leaf heap s finger kv (leaf_cmp < 0) loc)"

definition create_leaf ::
    "kv_heap \<Rightarrow> lock_state \<Rightarrow> ct_finger \<Rightarrow> u64 \<Rightarrow> u64 \<Rightarrow> (status \<times> ct_finger \<times> lock_state) option" where
  "create_leaf heap s finger kv next_symbol = do {
     (ret, finger, s) \<leftarrow>
       (if entry_type (lc_value (containing_entry finger)) = TYPE_JUMP then split_jump_node s finger
        else Some (SI_OK, finger, s));
     if ret = SI_RETRY then create_leaf_failed s finger
     else if ret = SI_FAIL then Some (SI_FAIL, finger, s)
     else if entry_type (lc_value (containing_entry finger)) = TYPE_BITMAP
     then create_leaf_in_bitmap s finger kv next_symbol
     else create_leaf_at_leaf heap s finger kv
   }"

end
