(* ===== verification/Api.thy ===== *)
theory Api
  imports CreateLeaf
begin

text \<open>
  The point operations of the library (\<open>main.c\<close>): insert, upsert, update and lookup.

  An operation works on a fresh lock manager. When it has to be repeated because of
  another thread, that thread has acted in between: \<open>act n\<close> is what the other threads do
  to the trie after the attempt \<open>n\<close>. Key objects are addresses; \<open>NULL\<close> is the address 0.
\<close>

type_synonym interference = "nat \<Rightarrow> cuckoo_trie \<Rightarrow> cuckoo_trie"

datatype api_result = S_OK | S_ALREADYIN | S_OVERFLOW | S_KEYTOOLONG | S_NOTFOUND

abbreviation (input) NULL :: u64 where "NULL \<equiv> 0"

text \<open>The key object of the leaf the finger is at is replaced by another one of the same key.\<close>

definition replace_leaf_kv :: "lock_state \<Rightarrow> ct_finger \<Rightarrow> u64 \<Rightarrow> (status \<times> lock_state) option" where
  "replace_leaf_kv s finger kv =
     (let (ret, s) = upgrade_lock s (containing_entry finger)
      in if ret = SI_RETRY then Some (SI_RETRY, s)
         else let (trie, mgr) = s
              in do {
                let new_entry = entry_set_kv (lc_value (containing_entry finger)) kv;
                (copy, trie) \<leftarrow> update_entry trie (containing_entry finger) new_entry;
                Some (SI_OK, release_all_locks (trie, mgr))
              })"

definition ct_insert_internal :: "kv_heap \<Rightarrow> cuckoo_trie \<Rightarrow> u64 \<Rightarrow> bool \<Rightarrow> (status \<times> lock_state) option" where
  "ct_insert_internal heap trie kv is_upsert = do {
     let key = heap kv;
     (root, finger) \<leftarrow> init_finger trie;
     let s = (trie, init_lock_mgr);
     (ret, s) \<leftarrow> (if root = None then create_root s kv else Some (SI_EXISTS, s));
     if ret = SI_OK then Some (SI_OK, s)
     else do {
       (root, finger) \<leftarrow> (if root = None then init_finger (fst s) else Some (root, finger));
       (symbol, finger) \<leftarrow> descend (fst s) finger (unat (kv_key_size key)) (kv_bytes key) True;
       (result, finger, s) \<leftarrow> create_leaf heap s finger kv (of_int symbol);
       if is_upsert \<and> result = SI_EXISTS
       then do {
         (ret, s) \<leftarrow> replace_leaf_kv s finger kv;
         if ret = SI_RETRY then Some (SI_RETRY, s) else Some (result, s)
       }
       else Some (result, s)
     }
   }"

partial_function (option) insert_attempts ::
    "kv_heap \<Rightarrow> interference \<Rightarrow> nat \<Rightarrow> cuckoo_trie \<Rightarrow> u64 \<Rightarrow> bool \<Rightarrow> (status \<times> cuckoo_trie) option" where
  "insert_attempts heap act n trie kv is_upsert = do {
     (ret, trie, mgr) \<leftarrow> ct_insert_internal heap trie kv is_upsert;
     if ret = SI_RETRY then insert_attempts heap act (n + 1) (act n trie) kv is_upsert
     else Some (ret, trie)
   }"

definition ct_insert :: "kv_heap \<Rightarrow> interference \<Rightarrow> cuckoo_trie \<Rightarrow> u64 \<Rightarrow> (api_result \<times> cuckoo_trie) option" where
  "ct_insert heap act trie kv =
     (if unat (kv_key_size (heap kv)) > MAX_KEY_BYTES then Some (S_KEYTOOLONG, trie)
      else do {
        (ret, trie) \<leftarrow> insert_attempts heap act 0 trie kv False;
        if ret = SI_FAIL then Some (S_OVERFLOW, trie)
        else if ret = SI_EXISTS then Some (S_ALREADYIN, trie)
        else Some (S_OK, trie)
      })"

text \<open>The flag tells whether the key was new; it is only set when the result is \<open>S_OK\<close>.\<close>

definition ct_upsert ::
    "kv_heap \<Rightarrow> interference \<Rightarrow> cuckoo_trie \<Rightarrow> u64 \<Rightarrow> (api_result \<times> bool option \<times> cuckoo_trie) option" where
  "ct_upsert heap act trie kv =
     (if unat (kv_key_size (heap kv)) > MAX_KEY_BYTES then Some (S_KEYTOOLONG, None, trie)
      else do {
        (ret, trie) \<leftarrow> insert_attempts heap act 0 trie kv True;
        if ret = SI_FAIL then Some (S_OVERFLOW, None, trie)
        else Some (S_OK, Some (ret \<noteq> SI_EXISTS), trie)
      })"

definition ct_lookup :: "kv_heap \<Rightarrow> cuckoo_trie \<Rightarrow> nat \<Rightarrow> u8 list \<Rightarrow> u64 option" where
  "ct_lookup heap trie key_len key_bytes = do {
     (root, finger) \<leftarrow> init_finger trie;
     if root = None then Some NULL
     else do {
       (symbol, finger) \<leftarrow> descend trie finger key_len key_bytes False;
       let leaf_kv = entry_kv (lc_value (containing_entry finger));
       if symbol = - 1 then Some leaf_kv
       else if entry_type (lc_value (containing_entry finger)) \<noteq> TYPE_LEAF then Some NULL
       else if kv_key_compare_to (heap leaf_kv) (of_nat key_len) key_bytes = 0 then Some leaf_kv
       else Some NULL
     }
   }"

definition ct_update_internal :: "kv_heap \<Rightarrow> cuckoo_trie \<Rightarrow> u64 \<Rightarrow> (status \<times> lock_state) option" where
  "ct_update_internal heap trie kv = do {
     (root, finger) \<leftarrow> init_finger trie;
     let s = (trie, init_lock_mgr);
     if root = None then Some (SI_FAIL, s)
     else do {
       (symbol, finger) \<leftarrow> descend trie finger (unat (kv_key_size (heap kv))) (kv_bytes (heap kv)) False;
       if entry_type (lc_value (containing_entry finger)) \<noteq> TYPE_LEAF then Some (SI_FAIL, s)
       else do {
         let leaf_kv = entry_kv (lc_value (containing_entry finger));
         if kv_key_compare (heap leaf_kv) (heap kv) \<noteq> 0 then Some (SI_FAIL, s)
         else replace_leaf_kv s finger kv
       }
     }
   }"

partial_function (option) update_attempts ::
    "kv_heap \<Rightarrow> interference \<Rightarrow> nat \<Rightarrow> cuckoo_trie \<Rightarrow> u64 \<Rightarrow> (status \<times> cuckoo_trie) option" where
  "update_attempts heap act n trie kv = do {
     (ret, trie, mgr) \<leftarrow> ct_update_internal heap trie kv;
     if ret = SI_RETRY then update_attempts heap act (n + 1) (act n trie) kv
     else Some (ret, trie)
   }"

definition ct_update :: "kv_heap \<Rightarrow> interference \<Rightarrow> cuckoo_trie \<Rightarrow> u64 \<Rightarrow> (api_result \<times> cuckoo_trie) option" where
  "ct_update heap act trie kv = do {
     (ret, trie) \<leftarrow> update_attempts heap act 0 trie kv;
     if ret = SI_FAIL then Some (S_NOTFOUND, trie) else Some (S_OK, trie)
   }"

end
