(* ===== verification/Iterator.thy ===== *)
theory Iterator
  imports Api
begin

text \<open>
  Ordered iteration (\<open>main.c\<close>): an iterator stands on a leaf and follows the linked list
  of the leaves. When a leaf it wants to step to has been replaced by a subtree, it is
  placed again with the help of the key it reported last.
\<close>

record ct_iter =
  is_exhausted :: bool
  report_current :: bool
  leaves0 :: ct_entry_local_copy

abbreviation (input) NO_BUCKET :: u32 where "NO_BUCKET \<equiv> - 1"

definition ct_iter_alloc :: ct_iter where
  "ct_iter_alloc = \<lparr>is_exhausted = False, report_current = False, leaves0 = zero_copy\<rparr>"

text \<open>
  The descent that remembers the lowest bitmap it has passed; its arguments count the
  symbols left and those done, and carry the symbol tried last.
\<close>

primrec iter_descend ::
    "nat \<Rightarrow> nat \<Rightarrow> cuckoo_trie \<Rightarrow> key_prefetcher \<Rightarrow> ct_finger \<Rightarrow> nat option \<Rightarrow> u64
      \<Rightarrow> (nat option \<times> u64 \<times> ct_finger) option" where
  "iter_descend 0 depth trie p finger last_bitmap symbol = Some (last_bitmap, symbol, finger)"
| "iter_descend (Suc n) depth trie p finger last_bitmap symbol =
     (let p = prefetcher_step trie p;
          last_bitmap = (if entry_type (lc_value (containing_entry finger)) = TYPE_BITMAP
                         then Some (last_path_entry finger) else last_bitmap);
          symbol = ucast (byte_at (p_key_symbols p) depth) :: u64
      in do {
        (success, finger) \<leftarrow> try_descend trie finger symbol True (prefix_hashes p ! depth);
        if \<not> success then Some (last_bitmap, symbol, finger)
        else iter_descend n (depth + 1) trie p finger last_bitmap symbol
      })"

text \<open>
  The locator of the leaf before the key, or what is known without one: the iterator is
  exhausted, or the first leaf of the trie is the next one.
\<close>

datatype iter_place = Before ct_pred_locator | At_first | At_end

definition place_iter ::
    "kv_heap \<Rightarrow> cuckoo_trie \<Rightarrow> ct_finger \<Rightarrow> nat option \<Rightarrow> u64 \<Rightarrow> nat \<Rightarrow> u8 list \<Rightarrow> iter_place" where
  "place_iter heap trie finger last_bitmap symbol key_len key_bytes =
     (let longest_prefix = lc_value (containing_entry finger)
      in if entry_type longest_prefix = TYPE_BITMAP
         then Before (prefetch_bitmap_child_predecessor trie finger (unat symbol))
         else let is_before_longest_prefix =
                    (if entry_type longest_prefix = TYPE_LEAF
                     then kv_key_compare_to (heap (entry_kv longest_prefix)) (of_nat key_len) key_bytes \<ge> 0
                     else symbol < get_jump_symbol longest_prefix (depth_in_jump finger))
              in case last_bitmap of
                   Some pos \<Rightarrow>
                     (let last_bitmap_child = unat (e_last_symbol (node_at (f_path finger) (pos + 1)))
                      in if is_before_longest_prefix
                         then Before (prefetch_path_child_predecessor trie finger pos last_bitmap_child)
                         else Before (prefetch_path_child_predecessor trie finger pos (last_bitmap_child + 1)))
                 | None \<Rightarrow> if is_before_longest_prefix then At_first else At_end)"

definition ct_iter_goto_internal ::
    "kv_heap \<Rightarrow> cuckoo_trie \<Rightarrow> ct_iter \<Rightarrow> nat \<Rightarrow> u8 list \<Rightarrow> (status \<times> ct_iter) option" where
  "ct_iter_goto_internal heap trie iter key_len key_bytes = do {
     (root, finger) \<leftarrow> init_finger trie;
     let iter = iter\<lparr>is_exhausted := False\<rparr>;
     if root = None then Some (SI_OK, iter\<lparr>is_exhausted := True\<rparr>)
     else if key_len = 0
     then do { leaf \<leftarrow> read_min_leaf trie; Some (SI_OK, iter\<lparr>leaves0 := leaf\<rparr>) }
     else do {
       let p = prefetcher_start trie key_len key_bytes;
       (last_bitmap, symbol, finger) \<leftarrow> iter_descend (num_key_symbols key_len) 0 trie p finger None (- 1);
       case place_iter heap trie finger last_bitmap symbol key_len key_bytes of
         Before loc \<Rightarrow> do {
           (found, leaf) \<leftarrow> get_predecessor_atomic trie finger loc (leaves0 iter);
           Some (if found then SI_OK else SI_RETRY, iter\<lparr>leaves0 := leaf\<rparr>)
         }
       | At_first \<Rightarrow> do {
           leaf \<leftarrow> read_min_leaf trie;
           let iter = iter\<lparr>leaves0 := leaf\<rparr>;
           if entry_dirty (lc_value leaf) then Some (SI_RETRY, iter)
           else if \<not> validate_entry trie leaf then Some (SI_RETRY, iter)
           else Some (SI_OK, iter)
         }
       | At_end \<Rightarrow> Some (SI_OK, iter\<lparr>is_exhausted := True\<rparr>)
     }
   }"

definition iter_next_locator :: "ct_iter \<Rightarrow> ct_entry_locator" where
  "iter_next_locator iter = next_leaf (lc_value (leaves0 iter))"

definition ct_iter_next_internal :: "cuckoo_trie \<Rightarrow> ct_iter \<Rightarrow> (status \<times> ct_iter) option" where
  "ct_iter_next_internal trie iter = do {
     new_leaf \<leftarrow> locator_to_entry trie (iter_next_locator iter);
     if entry_type (lc_value new_leaf) \<noteq> TYPE_LEAF then Some (SI_RETRY, iter)
     else Some (SI_OK, iter\<lparr>leaves0 := new_leaf\<rparr>)
   }"

text \<open>An attempt that has to be repeated sees the trie as the other threads have left it.\<close>

partial_function (option) ct_iter_goto ::
    "kv_heap \<Rightarrow> interference \<Rightarrow> nat \<Rightarrow> cuckoo_trie \<Rightarrow> ct_iter \<Rightarrow> nat \<Rightarrow> u8 list \<Rightarrow> (ct_iter \<times> nat \<times> cuckoo_trie) option" where
  "ct_iter_goto heap act n trie iter key_len key_bytes = do {
     (result, iter) \<leftarrow> ct_iter_goto_internal heap trie iter key_len key_bytes;
     if result = SI_RETRY then ct_iter_goto heap act (n + 1) (act n trie) iter key_len key_bytes
     else let iter = (if loc_primary_bucket (iter_next_locator iter) = NO_BUCKET
                      then iter\<lparr>is_exhausted := True\<rparr> else iter)
          in if is_exhausted iter then Some (iter, n, trie)
             else do {
               (result, iter) \<leftarrow> ct_iter_next_internal trie iter;
               if result = SI_RETRY then ct_iter_goto heap act (n + 1) (act n trie) iter key_len key_bytes
               else Some (iter\<lparr>report_current := True\<rparr>, n, trie)
             }
   }"

partial_function (option) iter_fetch ::
    "kv_heap \<Rightarrow> interference \<Rightarrow> nat \<Rightarrow> cuckoo_trie \<Rightarrow> ct_iter \<Rightarrow> (ct_iter \<times> nat \<times> cuckoo_trie) option" where
  "iter_fetch heap act n trie iter = do {
     (result, iter) \<leftarrow> ct_iter_next_internal trie iter;
     if result = SI_RETRY
     then do {
       let last_reported_key = heap (entry_kv (lc_value (leaves0 iter)));
       (iter, n, trie) \<leftarrow> ct_iter_goto heap act (n + 1) (act n trie) iter
         (unat (kv_key_size last_reported_key)) (kv_bytes last_reported_key);
       iter_fetch heap act n trie (iter\<lparr>report_current := False\<rparr>)
     }
     else Some (iter, n, trie)
   }"

definition ct_iter_next ::
    "kv_heap \<Rightarrow> interference \<Rightarrow> nat \<Rightarrow> cuckoo_trie \<Rightarrow> ct_iter \<Rightarrow> (u64 \<times> ct_iter \<times> nat \<times> cuckoo_trie) option" where
  "ct_iter_next heap act n trie iter =
     (if is_exhausted iter then Some (NULL, iter, n, trie)
      else if report_current iter
      then Some (entry_kv (lc_value (leaves0 iter)), iter\<lparr>report_current := False\<rparr>, n, trie)
      else if loc_primary_bucket (iter_next_locator iter) = NO_BUCKET
      then Some (NULL, iter\<lparr>is_exhausted := True\<rparr>, n, trie)
      else do {
        (iter, n, trie) \<leftarrow> iter_fetch heap act n trie iter;
        Some (entry_kv (lc_value (leaves0 iter)), iter, n, trie)
      })"

end
