(* ===== verification/Alloc.thy ===== *)
theory Alloc
  imports Iterator
begin

text \<open>
  Allocation of a trie (\<open>main.c\<close>, \<open>util.c\<close>).

  The memory comes from the operating system: \<open>os_mmap n\<close> is the outcome of mapping \<open>n\<close>
  bytes of huge pages, the buckets in it or nothing. An anonymous mapping is filled with
  zeros; this is stated where it is needed. \<open>os_malloc\<close> tells whether the allocation of
  the trie's own record succeeds.
\<close>

abbreviation (input) HUGEPAGE_SIZE :: u64 where "HUGEPAGE_SIZE \<equiv> 0x200000"

text \<open>\<open>None\<close> covers both failures: \<open>MAP_FAILED\<close>, and a mapping at the address 0.\<close>

definition mmap_hugepage :: "(u64 \<Rightarrow> ct_bucket list option) \<Rightarrow> u64 \<Rightarrow> ct_bucket list option" where
  "mmap_hugepage os_mmap nbytes = os_mmap nbytes"

definition init_bucket :: "ct_bucket \<Rightarrow> ct_bucket" where
  "init_bucket bucket = bucket\<lparr>
     cells := map (\<lambda>e. e\<lparr>parent_color_and_flags := push_bit PARENT_COLOR_SHIFT INVALID_COLOR OR TYPE_UNUSED,
                         color_and_tag := push_bit TAG_BITS INVALID_COLOR\<rparr>) (cells bucket),
     write_lock_and_seq := 0\<rparr>"

text \<open>All buckets but the last, which is the one of the minimal leaf.\<close>

definition init_buckets :: "cuckoo_trie \<Rightarrow> cuckoo_trie" where
  "init_buckets trie =
     (let n = unat (num_buckets trie)
      in trie\<lparr>buckets := map init_bucket (take n (buckets trie)) @ drop n (buckets trie)\<rparr>)"

definition buckets_for :: "u64 \<Rightarrow> u64" where
  "buckets_for num_cells =
     (let n = (num_cells + of_nat CUCKOO_BUCKET_SIZE - 1) div of_nat CUCKOO_BUCKET_SIZE
      in (n + of_nat (FANOUT * 2) - 1) div of_nat (FANOUT * 2) * of_nat (FANOUT * 2))"

text \<open>The mapping is rounded up to whole pages; the buckets behind the last one are not used.\<close>

definition ct_alloc :: "(u64 \<Rightarrow> ct_bucket list option) \<Rightarrow> bool \<Rightarrow> u64 \<Rightarrow> cuckoo_trie option" where
  "ct_alloc os_mmap os_malloc num_cells =
     (let n = buckets_for num_cells;
          buckets_to_alloc = n + 1;
          buckets_pages = buckets_to_alloc * 64 div HUGEPAGE_SIZE + 1
      in case mmap_hugepage os_mmap (buckets_pages * HUGEPAGE_SIZE) of
           None \<Rightarrow> None
         | Some memory \<Rightarrow>
             (if \<not> os_malloc then None
              else let trie = \<lparr>buckets = take (unat n + 1) memory, num_buckets = n, num_pairs = n * 2 ^ TAG_BITS,
                         num_shuffle_blocks = drop_bit BITS_PER_SYMBOL (n * 2 ^ TAG_BITS),
                         bucket_mix_table = [], is_empty = True\<rparr>;
                       head = trie_min_leaf trie;
                       trie = set_cell trie head ((cell trie head)\<lparr>parent_color_and_flags := TYPE_LEAF\<rparr>);
                       trie = set_cell trie head ((cell trie head)\<lparr>e_locator :=
                         (next_leaf (cell trie head))\<lparr>loc_primary_bucket := - 1\<rparr>\<rparr>);
                       trie = init_bucket_mix_table trie
                   in Some (init_buckets trie)))"

text \<open>
  \<open>ct_free\<close>: the number of bytes from the address of the buckets on that it gives back. The trie
  itself is freed with them, and nothing of it is left to describe.
\<close>

definition ct_free :: "cuckoo_trie \<Rightarrow> u64" where
  "ct_free trie =
     (let buckets_pages = (num_buckets trie * 64) div HUGEPAGE_SIZE + 1
      in buckets_pages * HUGEPAGE_SIZE)"

text \<open>The code leaves out the bucket of the minimal leaf, which never needs a page of its own.\<close>

lemma ct_free_whole_mapping:
  assumes "valid_sizes trie" and "unat (num_buckets trie) < 2 ^ 40"
  shows "ct_free trie = ((num_buckets trie + 1) * 64 div HUGEPAGE_SIZE + 1) * HUGEPAGE_SIZE"
proof -
  obtain k where k: "unat (num_buckets trie) = 64 * k" by (rule valid_sizes_unat [OF assms(1)])
  have k40: "64 * k < 2 ^ 40" using assms(2) k by simp
  have a: "unat (num_buckets trie * 64) = 4096 * k" using k k40 by (simp add: unat_word_ariths)
  have b: "unat ((num_buckets trie + 1) * 64) = 4096 * k + 64" using k k40 by (simp add: unat_word_ariths)
  have "m div 2097152 = m div 4096 div 512" for m :: nat by (simp flip: div_mult2_eq)
  then have "(4096 * k + 64) div 2097152 = 4096 * k div (2097152 :: nat)" by simp
  then have "(num_buckets trie + 1) * 64 div HUGEPAGE_SIZE = num_buckets trie * 64 div HUGEPAGE_SIZE"
    unfolding word_unat_eq_iff unat_div a b by simp
  then show ?thesis by (simp add: ct_free_def Let_def)
qed

end
