(* ===== verification/Verify.thy ===== *)
theory Verify
  imports Iterator
begin

text \<open>
  The consistency checker of the library (\<open>verify_trie.c\<close>). It returns whether the trie is
  consistent; the error messages it prints are left out, the kinds of locator errors are
  strings as in the source. A locator without its entry makes the search loop, which is
  \<open>None\<close> here; so the branches for a null result are never taken.
\<close>

definition try_follow_locator :: "cuckoo_trie \<Rightarrow> ct_entry_locator \<Rightarrow> entry_ptr option" where
  "try_follow_locator trie l = do {
     found \<leftarrow> find_entry_in_pair_by_color trie (ucast (loc_primary_bucket l)) (ucast (loc_tag l)) (ucast (loc_color l));
     Some (last_pos found)
   }"

definition type_name :: "u8 \<Rightarrow> string" where
  "type_name t =
     (if t = TYPE_BITMAP then ''BITMAP'' else if t = TYPE_JUMP then ''JUMP'' else if t = TYPE_LEAF then ''LEAF''
      else if t = TYPE_UNUSED then ''UNUSED'' else ''UNKNOWN'')"

text \<open>The inner option is the null pointer of the source: no error.\<close>

definition leaf_locator_error :: "cuckoo_trie \<Rightarrow> ct_entry_locator \<Rightarrow> string option option" where
  "leaf_locator_error trie l =
     (if num_buckets trie \<le> ucast (loc_primary_bucket l) then Some (Some ''BUCKET_TOO_LARGE'')
      else do {
        pointed_entry \<leftarrow> try_follow_locator trie l;
        Some (if entry_type (cell trie pointed_entry) \<noteq> TYPE_LEAF then Some ''POINTS_TO_NON_LEAF'' else None)
      })"

definition stored_prefix_hash :: "cuckoo_trie \<Rightarrow> u64 \<Rightarrow> ct_entry \<Rightarrow> u64" where
  "stored_prefix_hash trie bucket entry =
     (let primary_bucket = (if entry_is_secondary entry then unmix_bucket trie bucket (ucast (entry_tag entry)) else bucket)
      in push_bit TAG_BITS primary_bucket + ucast (entry_tag entry))"

primrec verify_children :: "cuckoo_trie \<Rightarrow> ct_entry \<Rightarrow> u64 \<Rightarrow> nat list \<Rightarrow> bool option" where
  "verify_children trie entry prefix_hash [] = Some True"
| "verify_children trie entry prefix_hash (child # rest) =
     (if \<not> get_bit (child_bitmap entry) child then verify_children trie entry prefix_hash rest
      else do {
        let child_prefix_hash = accumulate_hash trie prefix_hash (of_nat child);
        result \<leftarrow> find_entry_in_pair_by_parent trie (hash_to_bucket child_prefix_hash)
          (hash_to_tag child_prefix_hash) (of_nat child) (ucast (entry_color entry));
        verify_children trie entry prefix_hash rest
      })"

definition verify_bitmap_children :: "cuckoo_trie \<Rightarrow> u64 \<Rightarrow> nat \<Rightarrow> bool option" where
  "verify_bitmap_children trie bucket i =
     (let entry = cell trie (unat bucket, i)
      in verify_children trie entry (stored_prefix_hash trie bucket entry) [0..<FANOUT + 1])"

definition verify_jump_child :: "cuckoo_trie \<Rightarrow> u64 \<Rightarrow> nat \<Rightarrow> bool option" where
  "verify_jump_child trie bucket i =
     (let entry = cell trie (unat bucket, i);
          prefix_hash = foldl (\<lambda>hash k. accumulate_hash trie hash (get_jump_symbol entry k))
            (stored_prefix_hash trie bucket entry) [0..<entry_jump_size entry]
      in do {
        child \<leftarrow> find_entry_in_pair_by_color trie (hash_to_bucket prefix_hash) (hash_to_tag prefix_hash)
          (ucast (entry_child_color entry));
        Some (entry_type (cell trie (last_pos child)) \<noteq> TYPE_LEAF)
      })"

definition verify_entry :: "cuckoo_trie \<Rightarrow> u64 \<Rightarrow> nat \<Rightarrow> bool option" where
  "verify_entry trie bucket i = do {
     let entry = cell trie (unat bucket, i);
     max_leaf_ok \<leftarrow> (if entry_type entry \<noteq> TYPE_LEAF
                    then do { err \<leftarrow> leaf_locator_error trie (max_leaf entry); Some (err = None) }
                    else Some True);
     children_ok \<leftarrow> (if entry_type entry = TYPE_BITMAP then verify_bitmap_children trie bucket i else Some True);
     child_ok \<leftarrow> (if entry_type entry = TYPE_JUMP then verify_jump_child trie bucket i else Some True);
     next_leaf_ok \<leftarrow> (if entry_type entry = TYPE_LEAF \<and> loc_primary_bucket (next_leaf entry) \<noteq> NO_BUCKET
                     then do { err \<leftarrow> leaf_locator_error trie (next_leaf entry); Some (err = None) }
                     else Some True);
     Some (max_leaf_ok \<and> children_ok \<and> child_ok \<and> next_leaf_ok)
   }"

definition cell_positions :: "cuckoo_trie \<Rightarrow> (nat \<times> nat) list" where
  "cell_positions trie = [(b, i). b \<leftarrow> [0..<unat (num_buckets trie)], i \<leftarrow> [0..<CUCKOO_BUCKET_SIZE]]"

text \<open>The walk along the list; it clears the marks of the leaves it meets.\<close>

partial_function (option) follow_linklist ::
    "kv_heap \<Rightarrow> cuckoo_trie \<Rightarrow> nat \<Rightarrow> nat \<Rightarrow> bool list \<Rightarrow> u64 option \<Rightarrow> ct_entry_locator \<Rightarrow> bool list option option" where
  "follow_linklist heap trie num_leaves linklist_leaves unlinked_leaves last_kv next =
     (if loc_primary_bucket next = NO_BUCKET then Some (Some unlinked_leaves)
      else do {
        leaf \<leftarrow> try_follow_locator trie next;
        let entry = cell trie leaf;
        if entry_type entry \<noteq> TYPE_LEAF then Some None
        else if (case last_kv of None \<Rightarrow> False
                 | Some kv \<Rightarrow> kv_key_compare (heap (entry_kv entry)) (heap kv) \<le> 0) then Some None
        else if linklist_leaves + 1 > num_leaves then Some None
        else follow_linklist heap trie num_leaves (linklist_leaves + 1)
               (unlinked_leaves[fst leaf * CUCKOO_BUCKET_SIZE + snd leaf := False])
               (Some (entry_kv entry)) (next_leaf entry)
      })"

definition verify_linklist :: "kv_heap \<Rightarrow> cuckoo_trie \<Rightarrow> bool option" where
  "verify_linklist heap trie =
     (let is_leaf = (\<lambda>p. entry_type (cell trie p) = TYPE_LEAF);
          unlinked_leaves = map is_leaf (cell_positions trie);
          num_leaves = length (filter is_leaf (cell_positions trie))
      in do {
        result \<leftarrow> follow_linklist heap trie num_leaves 0 unlinked_leaves None (next_leaf (cell trie (trie_min_leaf trie)));
        Some (case result of None \<Rightarrow> False | Some unlinked_leaves \<Rightarrow> \<not> list_ex (\<lambda>u. u) unlinked_leaves)
      })"

primrec verify_cells :: "cuckoo_trie \<Rightarrow> (nat \<times> nat) list \<Rightarrow> bool option" where
  "verify_cells trie [] = Some True"
| "verify_cells trie (p # ps) =
     (if entry_type (cell trie p) = TYPE_UNUSED then verify_cells trie ps
      else do {
        ok \<leftarrow> verify_entry trie (of_nat (fst p)) (snd p);
        rest_ok \<leftarrow> verify_cells trie ps;
        Some (ok \<and> rest_ok)
      })"

definition ct_verify_trie :: "kv_heap \<Rightarrow> cuckoo_trie \<Rightarrow> bool option" where
  "ct_verify_trie heap trie = do {
     let locks_ok = list_all (\<lambda>b. lock_byte (bucket_word trie b) = 0) [0..<unat (num_buckets trie)];
     cells_ok \<leftarrow> verify_cells trie (cell_positions trie);
     linklist_ok \<leftarrow> verify_linklist heap trie;
     Some (locks_ok \<and> cells_ok \<and> linklist_ok)
   }"

end
