(* ===== verification/JumpNodes.thy ===== *)
theory JumpNodes
  imports CreateLeaf
begin

text \<open>
  What a jump node stores: a list of up to eight symbols. Building a path one symbol at a
  time, and splitting a node, are operations on these lists.
\<close>

definition jump_symbols :: "ct_entry \<Rightarrow> u64 list" where
  "jump_symbols e = map (get_jump_symbol e) [0..<entry_jump_size e]"

lemma length_jump_symbols [simp]: "length (jump_symbols e) = entry_jump_size e"
  by (simp add: jump_symbols_def)

lemma small_bits:
  assumes "unat (v :: 'a::len word) < 2 ^ n" and "n \<le> k"
  shows "\<not> bit v k"
proof
  assume b: "bit v k"
  have "unat v < 2 ^ k" using assms power_increasing [of n k "2::nat"] by (simp add: order_less_le_trans)
  then have "\<not> bit (unat v) k" by (simp add: bit_iff_odd)
  then show False using b bit_imp_le_length [OF b] by (simp add: bit_unsigned_iff)
qed

lemma small_nat_bits:
  fixes n :: nat
  assumes "bit n k" and "n < 2 ^ m"
  shows "k < (m :: nat)"
proof (rule ccontr)
  assume "\<not> k < m"
  then have "n < 2 ^ k" using assms(2) power_increasing [of m k "2::nat"] by (simp add: order_less_le_trans)
  then show False using assms(1) by (simp add: bit_iff_odd)
qed

lemma byte_offset: "(8 * a + k) div 8 = a + k div (8 :: nat)" "(8 * a + k) mod 8 = k mod (8 :: nat)"
  by simp_all

lemma entry_bytes_payload_bit:
  assumes "wf_entry e" and "k < 40"
  shows "get_bit (entry_bytes e) (24 + k) = get_bit (jump_bits e) k"
proof -
  have "k div 8 < 5" using assms(2) by (intro less_mult_imp_div_less) simp
  moreover note byte_offset [of 3 k, simplified]
  moreover have "byte_at (entry_bytes e) (3 + i) = byte_at (e_bytes e) i" if "i < 5" for i
  proof -
    have "length (e_bytes e) = 5" using assms(1) by (simp add: wf_entry_def)
    moreover have "entry_bytes e ! (3 + i) = (e_bytes e @ [e_byte8 e] @ locator_bytes (e_locator e)) ! i"
      by (simp add: entry_bytes_def)
    ultimately show ?thesis using that length_entry_bytes [OF assms(1)] by (simp add: byte_at_def nth_append)
  qed
  ultimately show ?thesis unfolding get_bit_iff by metis
qed

lemma payload_drop_bit:
  assumes "wf_entry e" and "k < 40"
  shows "get_bit (drop 3 (entry_bytes e)) k = get_bit (jump_bits e) k"
proof -
  have "byte_at (drop 3 (entry_bytes e)) i = byte_at (entry_bytes e) (3 + i)" for i
    by (auto simp: byte_at_def)
  moreover note byte_offset [of 3 k, simplified]
  ultimately show ?thesis using entry_bytes_payload_bit [OF assms] unfolding get_bit_iff by metis
qed

lemma symbol_mask_5: "(SYMBOL_MASK :: u64) = mask 5"
  by code_simp

lemma unat_get_jump_symbol:
  assumes wf: "wf_entry e" and i: "i < 8"
  shows "unat (get_jump_symbol e i) = key_chunk 5 (jump_bits e) i + 1"
proof -
  define w where "w = drop_bit (64 - 5 - 5 * i) (bswap64 (load_le64 (entry_bytes e) 3)) AND SYMBOL_MASK"
  have "bit w t \<longleftrightarrow> t < 5 \<and> key_bit 5 (jump_bits e) (5 * i + (4 - t))" for t
  proof (cases "t < 5")
    case True
    have "bit w t \<longleftrightarrow> bit (bswap64 (load_le64 (entry_bytes e) 3)) (59 - 5 * i + t)"
      using True i by (simp add: w_def symbol_mask_5 bit_and_iff bit_mask_iff bit_drop_bit_eq)
    also have "\<dots> \<longleftrightarrow> get_bit (entry_bytes e) (24 + (5 * i + (4 - t)))"
    proof -
      have "8 * 3 + 63 - (59 - 5 * i + t) = 24 + (5 * i + (4 - t))" using True i by simp
      moreover have "59 - 5 * i + t < 64" using True by simp
      ultimately show ?thesis unfolding bit_be64 by (simp only: simp_thms)
    qed
    also have "\<dots> \<longleftrightarrow> get_bit (jump_bits e) (5 * i + (4 - t))" using i by (intro entry_bytes_payload_bit wf) simp
    moreover have "5 * i + (4 - t) < 8 * 5" using i by simp
    ultimately show ?thesis using True unfolding key_bit_def by blast
  qed (simp add: w_def symbol_mask_5 bit_and_iff bit_mask_iff)
  then have c: "unat w = key_chunk 5 (jump_bits e) i" by (rule chunk_word)
  have "unat (w + 1) = (unat w + 1) mod 2 ^ 64" by (simp add: unat_word_ariths)
  also have "\<dots> = unat w + 1" using c key_chunk_less [of 5 "jump_bits e" i] by simp
  finally show ?thesis using c by (simp add: get_jump_symbol_def w_def)
qed

lemma get_jump_symbol_bounds:
  assumes "wf_entry e" and "i < 8"
  shows "get_jump_symbol e i \<le> 32" and "get_jump_symbol e i \<noteq> SYMBOL_END"
proof -
  have "unat (get_jump_symbol e i) = key_chunk 5 (jump_bits e) i + 1" by (rule unat_get_jump_symbol [OF assms])
  then show "get_jump_symbol e i \<le> 32" "get_jump_symbol e i \<noteq> SYMBOL_END"
    using key_chunk_less [of 5 "jump_bits e" i] by (auto simp: word_le_nat_alt simp del: unat_eq_zero)
qed

lemma jump_symbol_eqI:
  assumes "wf_entry e" and "wf_entry e'" and "i < 8" and "j < 8"
    and "key_chunk 5 (jump_bits e) i = key_chunk 5 (jump_bits e') j"
  shows "get_jump_symbol e i = get_jump_symbol e' j"
  using assms unat_get_jump_symbol [of e i] unat_get_jump_symbol [of e' j] by (metis word_unat_eq_iff)

lemma key_chunk_cong:
  assumes "\<And>t. t < 5 \<Longrightarrow> get_bit bs (5 * i + t) = get_bit bs' (5 * j + t)" and "i < 8" and "j < 8"
  shows "key_chunk 5 bs i = key_chunk 5 bs' j"
proof -
  have "key_bit 5 bs (5 * i + (4 - t)) = key_bit 5 bs' (5 * j + (4 - t))" for t
    using assms(1) [of "4 - t"] assms(2,3) unfolding key_bit_def by auto
  then show ?thesis unfolding key_chunk_def by presburger
qed

subsection \<open>Extending a node\<close>

lemma jump_size_less: "entry_jump_size e < 16"
  by (simp add: entry_jump_size_def unat_and_mask)

lemma wf_extend_jump_node: "wf_entry e \<Longrightarrow> wf_entry (extend_jump_node e s)"
  by (simp add: extend_jump_node_def wf_entry_def Let_def)

lemma jump_size_extend:
  assumes "entry_jump_size e < 8"
  shows "entry_jump_size (extend_jump_node e s) = entry_jump_size e + 1"
    and "entry_child_color (extend_jump_node e s) = entry_child_color e"
proof -
  let ?x = "child_color_and_jump_size e"
  have x: "unat ?x mod 16 < 8" "unat ?x < 256" using assms unsigned_less [of ?x, where 'a = nat]
    by (simp_all add: entry_jump_size_def unat_and_mask)
  then have "unat ?x + 1 < 256" by presburger
  then have u: "unat (?x + 1) = unat ?x + 1" by (simp only: unat_word_ariths) simp
  have b: "child_color_and_jump_size (extend_jump_node e s) = ?x + 1" by (simp add: extend_jump_node_def Let_def)
  have "(unat ?x + 1) mod 16 = unat ?x mod 16 + 1" "(unat ?x + 1) div 16 = unat ?x div 16"
    using x(1) by (simp_all add: mod_Suc div_Suc)
  then show "entry_jump_size (extend_jump_node e s) = entry_jump_size e + 1"
    and "entry_child_color (extend_jump_node e s) = entry_child_color e"
    unfolding entry_jump_size_def entry_child_color_def b unat_and_mask
    by (simp_all add: u word_unat_eq_iff unat_drop_bit_div)
qed

lemma put_symbol_bits:
  assumes len: "length bs = 5" and k: "k < 8" and v: "unat v < 32" and j: "j < 40"
  shows "get_bit (put_bits bs (5 * k) 5 v) j = (if 5 * k \<le> j \<and> j < 5 * k + 5 then bit v (5 * k + 4 - j) else get_bit bs j)"
proof -
  have "dword_start_byte (5 * k) 5 + 4 \<le> length bs" using k len by (auto simp: dword_start_byte_def)
  then have "get_bit (put_bits bs (5 * k) 5 v) j = (if 5 * k \<le> j \<and> j < 5 * k + 5 then bit v (5 * k + 5 - 1 - j) else get_bit bs j)"
    by (intro get_bit_put_bits) (use small_bits [of v 5] v in simp_all)
  moreover have "5 * k + 5 - 1 - j = 5 * k + 4 - j" by simp
  ultimately show ?thesis by metis
qed

lemma chunk_put:
  assumes len: "length bs = 5" and k: "k < 8" and v: "unat v < 32" and i: "i < 8"
  shows "key_chunk 5 (put_bits bs (5 * k) 5 v) i = (if i = k then unat (v :: u32) else key_chunk 5 bs i)"
proof (cases "i = k")
  case True
  have "bit v t \<longleftrightarrow> t < 5 \<and> key_bit 5 (put_bits bs (5 * k) 5 v) (5 * k + (4 - t))" for t
  proof (cases "t < 5")
    case True
    define j where "j = 5 * k + (4 - t)"
    have j: "j < 8 * 5" "5 * k \<le> j" "j < 5 * k + 5" "5 * k + 4 - j = t" using True k by (simp_all add: j_def)
    then show ?thesis using put_symbol_bits [OF len k v, of j] True by (simp add: key_bit_def flip: j_def)
  next
    case False
    then show ?thesis using small_bits [of v 5 t] v by simp
  qed
  from chunk_word [of v 5 "put_bits bs (5 * k) 5 v" k, OF this] show ?thesis using True by simp
next
  case False
  have "get_bit (put_bits bs (5 * k) 5 v) (5 * i + t) = get_bit bs (5 * i + t)" if t: "t < 5" for t
  proof -
    have "\<not> (5 * k \<le> 5 * i + t \<and> 5 * i + t < 5 * k + 5)" "5 * i + t < 40" using False t i by presburger+
    then show ?thesis using put_symbol_bits [OF len k v, of "5 * i + t"] by metis
  qed
  from key_chunk_cong [OF this i i] show ?thesis using False by simp
qed

theorem jump_symbols_extend:
  assumes wf: "wf_entry e" and n: "entry_jump_size e < MAX_JUMP_SYMBOLS" and s: "s \<noteq> SYMBOL_END" "s \<le> 32"
  shows "jump_symbols (extend_jump_node e s) = jump_symbols e @ [s]"
proof -
  let ?k = "entry_jump_size e" and ?e = "extend_jump_node e s" and ?v = "ucast (s - 1) :: u32"
  have s1: "unat (s - 1) = unat s - 1" using s(1) by (simp add: unat_minus_one)
  have us: "unat s \<noteq> 0" "unat s \<le> 32" using s by (simp_all add: word_le_nat_alt unat_eq_zero)
  then have "unat (s - 1) < 2 ^ 32" using s1 by simp
  then have "unat ?v = unat (s - 1)" by (simp add: unsigned_ucast_eq take_bit_nat_eq_self)
  then have v: "unat ?v = unat s - 1" "unat s \<noteq> 0" "unat s \<le> 32" using us s1 by simp_all
  have len: "length (jump_bits e) = 5" using wf by (simp add: wf_entry_def)
  have bits: "jump_bits ?e = put_bits (jump_bits e) (5 * ?k) 5 ?v" by (simp add: extend_jump_node_def Let_def mult.commute)
  have chunk: "key_chunk 5 (jump_bits ?e) i = (if i = ?k then unat s - 1 else key_chunk 5 (jump_bits e) i)" if "i < 8" for i
    unfolding bits using chunk_put [OF len _ _ that, of ?k ?v] n v by simp
  have old: "get_jump_symbol ?e i = get_jump_symbol e i" if "i < ?k" for i
    using that n by (intro jump_symbol_eqI wf wf_extend_jump_node) (simp_all add: chunk)
  have "unat (get_jump_symbol ?e ?k) = unat s"
    using unat_get_jump_symbol [OF wf_extend_jump_node [OF wf], of ?k s] n v by (simp add: chunk)
  then have "get_jump_symbol ?e ?k = s" by (simp add: word_unat_eq_iff)
  then show ?thesis unfolding jump_symbols_def jump_size_extend(1) [OF n] using old by (simp add: upt_Suc)
qed

subsection \<open>Splitting a node\<close>

lemma set_jump_size:
  assumes "n < 16"
  shows "entry_jump_size (entry_set_jump_size e (of_nat n)) = n"
    and "entry_child_color (entry_set_jump_size e (of_nat n)) = entry_child_color e"
    and "jump_bits (entry_set_jump_size e (of_nat n)) = jump_bits e"
proof -
  have b: "bit n k \<Longrightarrow> k < 4" for k by (erule small_nat_bits) (use assms in simp)
  have "(child_color_and_jump_size e AND NOT (mask 4) OR of_nat n) AND mask 4 = (of_nat n :: u8)"
    by (rule bit_word_eqI) (auto simp: bit_simps bit_mask_iff dest: b)
  then show "entry_jump_size (entry_set_jump_size e (of_nat n)) = n"
    using assms by (simp add: entry_jump_size_def entry_set_jump_size_def unat_of_nat)
  have "drop_bit 4 (child_color_and_jump_size e AND NOT (mask 4) OR of_nat n) = drop_bit 4 (child_color_and_jump_size e)"
    by (rule bit_word_eqI) (auto simp: bit_simps bit_mask_iff dest: b bit_imp_le_length)
  then show "entry_child_color (entry_set_jump_size e (of_nat n)) = entry_child_color e"
    by (simp add: entry_child_color_def entry_set_jump_size_def)
qed (simp add: entry_set_jump_size_def)

theorem jump_symbols_head:
  assumes wf: "wf_entry e" and n: "entry_jump_size e \<le> MAX_JUMP_SYMBOLS" and r: "0 < r" "r < entry_jump_size e"
  shows "jump_symbols (split_head e r) = take r (jump_symbols e)"
proof -
  have size: "entry_jump_size (split_head e r) = r" and bits: "jump_bits (split_head e r) = jump_bits e"
    using r n set_jump_size [of r e] by (simp_all add: split_head_def)
  have wf': "wf_entry (split_head e r)" using wf bits by (simp add: wf_entry_def)
  have "get_jump_symbol (split_head e r) i = get_jump_symbol e i" if "i < r" for i
    using that r n bits by (intro jump_symbol_eqI wf wf') simp_all
  then show ?thesis unfolding jump_symbols_def size using r by (intro nth_equalityI) simp_all
qed

theorem jump_symbols_tail:
  assumes wf: "wf_entry e" and n: "entry_jump_size e \<le> MAX_JUMP_SYMBOLS" and r: "r + 1 < entry_jump_size e"
  shows "jump_symbols (tail_jump_node e r s c) = drop (r + 1) (jump_symbols e)"
    and "entry_child_color (tail_jump_node e r s c) = entry_child_color e"
proof -
  define m where "m = entry_jump_size e - r - 1"
  let ?n = m and ?t = "tail_jump_node e r s c"
  have n8: "?n < 8" using n r by (simp add: m_def)
  have byte: "child_color_and_jump_size ?t = push_bit 4 (entry_child_color e) OR of_nat ?n"
    by (simp add: tail_jump_node_def Let_def m_def)
  have b: "bit ?n k \<Longrightarrow> k < 4" for k by (erule small_nat_bits) (use n8 in simp)
  have "(push_bit 4 (entry_child_color e) OR of_nat ?n) AND mask 4 = (of_nat ?n :: u8)"
    by (rule bit_word_eqI) (auto simp: bit_simps bit_mask_iff dest: b)
  then have size: "entry_jump_size ?t = ?n" unfolding entry_jump_size_def byte using n8 by (simp add: unat_of_nat)
  have cc: "\<not> bit (entry_child_color e) k" if "4 \<le> k" for k
    using nibble_drop [of "child_color_and_jump_size e"] that by (auto simp: nibble_bits entry_child_color_def)
  have "drop_bit 4 (push_bit 4 (entry_child_color e) OR of_nat ?n) = entry_child_color e"
    by (rule bit_word_eqI) (use cc in \<open>auto simp: bit_simps dest: b intro: ccontr [of "_ < (4::nat)"]\<close>)
  then show "entry_child_color ?t = entry_child_color e" unfolding entry_child_color_def [of ?t] byte by simp
  let ?dest = "replicate 5 0 :: u8 list" and ?src = "drop 3 (entry_bytes e)"
  have bits: "jump_bits ?t = copy_bits ?dest ?src ((r + 1) * 5) (?n * 5)"
    by (simp add: tail_jump_node_def Let_def zero_entry_def m_def)
  have fit: "?n * 5 div 8 < length ?dest" using n8 by simp
  have wf': "wf_entry ?t" using copy_bits_bytes(1) [OF fit] by (simp add: wf_entry_def bits)
  have copied: "get_bit (jump_bits ?t) j = get_bit (jump_bits e) ((r + 1) * 5 + j)" if "j < ?n * 5" for j
  proof -
    have "get_bit (jump_bits ?t) j = get_bit ?src ((r + 1) * 5 + j)"
      unfolding bits
    proof (rule get_bit_copy_bits [OF fit])
      show "j < 8 * (m * 5 div 8 + 1)"
        using that mod_less_divisor [of 8 "m * 5", OF zero_less_numeral] div_mult_mod_eq [of "m * 5" 8]
        by (simp add: algebra_simps)
    qed
    also have "\<dots> = get_bit (jump_bits e) ((r + 1) * 5 + j)" using that n by (intro payload_drop_bit wf) (simp add: m_def)
    finally show ?thesis .
  qed
  have "get_jump_symbol ?t i = get_jump_symbol e (r + 1 + i)" if i: "i < ?n" for i
  proof (rule jump_symbol_eqI [OF wf' wf])
    show "i < 8" "r + 1 + i < 8" using i n r by (simp_all add: m_def)
    show "key_chunk 5 (jump_bits ?t) i = key_chunk 5 (jump_bits e) (r + 1 + i)"
    proof (rule key_chunk_cong)
      fix t :: nat
      assume "t < 5"
      then have "5 * i + t < ?n * 5" "(r + 1) * 5 + (5 * i + t) = 5 * (r + 1 + i) + t" using i by simp_all
      then show "get_bit (jump_bits ?t) (5 * i + t) = get_bit (jump_bits e) (5 * (r + 1 + i) + t)"
        using copied by metis
    qed (use i n r in \<open>simp_all add: m_def\<close>)
  qed
  then show "jump_symbols ?t = drop (r + 1) (jump_symbols e)"
    unfolding jump_symbols_def size by (intro nth_equalityI) (simp_all add: m_def)
qed

text \<open>The symbols of the two parts and the symbol between them are those of the node.\<close>

theorem jump_symbols_split:
  assumes wf: "wf_entry e" and n: "entry_jump_size e \<le> MAX_JUMP_SYMBOLS" and r: "0 < r" "r + 1 < entry_jump_size e"
  shows "jump_symbols (split_head e r) @ get_jump_symbol e r # jump_symbols (tail_jump_node e r s c) = jump_symbols e"
proof -
  have l: "r < length (jump_symbols e)" using r by (simp add: length_jump_symbols)
  have "jump_symbols e ! r = get_jump_symbol e r" using r by (simp add: jump_symbols_def)
  then show ?thesis
    using jump_symbols_head [OF wf n r(1)] jump_symbols_tail(1) [OF wf n r(2), of s c] r id_take_nth_drop [OF l] by simp
qed

end
