(* ===== verification/Prefetch.thy ===== *)
theory Prefetch
  imports KeyOrder JumpNodes
begin

text \<open>
  The prefetcher delivers the symbols of the key and the hashes of its prefixes, always
  far enough ahead of the descent; so a step of the descent sees the right symbol and the
  right hash. Keys have at most \<open>MAX_KEY_BYTES\<close> bytes here: a longer key overruns the
  arrays of the prefetcher.
\<close>

definition hash_path :: "cuckoo_trie \<Rightarrow> u64 list \<Rightarrow> u64" where
  "hash_path trie symbols = foldl (accumulate_hash trie) HASH_START_VALUE symbols"

lemma hash_path_snoc: "hash_path trie (symbols @ [s]) = accumulate_hash trie (hash_path trie symbols) s"
  by (simp add: hash_path_def)

lemma hash_path_valid:
  assumes v: "valid_sizes trie" and s: "\<forall>s\<in>set symbols. s \<le> 32"
  shows "valid_hash trie (hash_path trie symbols)"
  using s
proof (induction symbols rule: rev_induct)
  case Nil
  then show ?case using valid_hash_start [OF v] by (simp add: hash_path_def)
next
  case (snoc s symbols)
  then show ?case using unat_accumulate_hash(2) [OF v, of "hash_path trie symbols" s]
    by (simp add: hash_path_snoc valid_hash_def word_less_nat_alt)
qed

subsection \<open>The symbols of the buffer\<close>

lemma num_key_symbols_bounds:
  assumes "n \<le> MAX_KEY_BYTES"
  shows "0 < num_key_symbols n" and "num_key_symbols n \<le> 411" and "8 * ((n + 4) div 5) \<le> 416"
    and "num_key_symbols n - 1 \<le> 8 * ((n + 4) div 5)"
  using assms unfolding num_key_symbols_def by simp_all

lemma bytes_at_key: "n \<le> length bytes \<Longrightarrow> bytes_at (key_memory bytes) 16 n = take n bytes"
  by (rule nth_equalityI) (simp_all add: bytes_at_def key_memory_def byte_at_def)

lemma buffer_symbol:
  assumes key: "length key \<le> MAX_KEY_BYTES" and i: "i < num_key_symbols (length key)"
    and bytes: "take (length key) bytes = key"
  shows "ucast (byte_at ((symbol_buffer (length key) bytes)[num_key_symbols (length key) - 1 := ucast SYMBOL_END]) i)
    = key_symbols key ! i"
proof -
  let ?n = "length key" and ?N = "num_key_symbols (length key)"
  have "length key \<le> length bytes" using arg_cong [OF bytes, of length] by simp
  then have bytes_at: "bytes_at (key_memory bytes) 16 ?n = key" using bytes bytes_at_key by simp
  note b = num_key_symbols_bounds [OF key]
  define syms where "syms = key_to_symbols (key_memory bytes) 16 (int ?n)"
  have len: "length syms = 8 * ((?n + 4) div 5)"
    and nth: "\<And>i. 5 * i < 8 * ?n \<Longrightarrow> syms ! i = of_nat (key_chunk ?n key i + 1)"
    using key_to_symbols_props [of "key_memory bytes" 16 ?n] by (simp_all add: syms_def bytes_at)
  have blen: "length (symbol_buffer ?n bytes) = 416"
    using b(3) len by (simp add: symbol_buffer_def Let_def flip: syms_def)
  show ?thesis
  proof (cases "i = ?N - 1")
    case True
    then have "\<not> 5 * i < 8 * ?n" using num_key_symbols_last [of i ?n] by simp
    then have "key_symbols key ! i = SYMBOL_END" using i by (simp add: key_symbols_nth get_string_symbol_end)
    then show ?thesis using True blen i b by (simp add: byte_at_def)
  next
    case False
    then have lt: "i < ?N - 1" using i by simp
    then have i5: "5 * i < 8 * ?n" using num_key_symbols_last by blast
    have "i < length syms" using lt b(4) len by simp
    then have "byte_at ((symbol_buffer ?n bytes)[?N - 1 := ucast SYMBOL_END]) i = syms ! i"
      using False blen len b(3) by (simp add: byte_at_def symbol_buffer_def Let_def nth_append flip: syms_def)
    also have "\<dots> = of_nat (key_chunk ?n key i + 1)" by (rule nth [OF i5])
    finally have byte: "byte_at ((symbol_buffer ?n bytes)[?N - 1 := ucast SYMBOL_END]) i = of_nat (key_chunk ?n key i + 1)" .
    have "unat (of_nat (key_chunk ?n key i + 1) :: u8) = key_chunk ?n key i + 1"
      using key_chunk_less [of ?n key i] by (simp only: unat_of_nat) simp
    then have "unat (ucast (of_nat (key_chunk ?n key i + 1) :: u8) :: u64) = key_chunk ?n key i + 1"
      using key_chunk_less [of ?n key i] unfolding unsigned_ucast_eq by (simp only: take_bit_nat_eq_self_iff) simp
    then have "unat (ucast (byte_at ((symbol_buffer ?n bytes)[?N - 1 := ucast SYMBOL_END]) i) :: u64) = key_chunk ?n key i + 1"
      by (simp only: byte)
    moreover have "unat (key_symbols key ! i) = key_chunk ?n key i + 1" using lt by (rule key_symbols_chunk)
    ultimately show ?thesis by (simp add: word_unat_eq_iff)
  qed
qed

lemma key_symbols_le: "i < num_key_symbols (length key) \<Longrightarrow> key_symbols key ! i \<le> 32"
  by (simp add: key_symbols_nth get_string_symbol_le)

lemma last_key_symbol: "i < num_key_symbols (length key) \<Longrightarrow> key_symbols key ! i = SYMBOL_END \<longleftrightarrow> i = num_key_symbols (length key) - 1"
  using num_key_symbols_last [of i "length key"] by (auto simp: key_symbols_nth get_string_symbol_end_iff)

lemma symbol_byte: "s \<le> 32 \<Longrightarrow> ucast (ucast (s :: u64) :: u8) = s"
proof -
  assume "s \<le> 32"
  then have "s < 256" by (simp add: word_less_nat_alt word_le_nat_alt)
  then obtain t :: u8 where "s = ucast t" using u64_byte by blast
  then show ?thesis by (simp add: ucast_ucast_u8)
qed

subsection \<open>The state of the prefetcher\<close>

definition prefetched :: "cuckoo_trie \<Rightarrow> u64 list \<Rightarrow> nat \<Rightarrow> key_prefetcher \<Rightarrow> bool" where
  "prefetched trie ks k p \<longleftrightarrow>
     p_num_key_symbols p = length ks \<and> length (prefix_hashes p) = 411 \<and> prefetch_pos p = min k (length ks) \<and>
     (\<forall>i<length ks. ucast (byte_at (p_key_symbols p) i) = ks ! i) \<and>
     prefetch_prefix_hash p = hash_path trie (take (prefetch_pos p) ks) \<and>
     (\<forall>i<prefetch_pos p. prefix_hashes p ! i = hash_path trie (take (i + 1) ks))"

lemma prefetched_step:
  assumes p: "prefetched trie ks k p" and len: "length ks \<le> 411"
  shows "prefetched trie ks (k + 1) (prefetcher_step trie p)"
proof (cases "k < length ks")
  case True
  then have pos: "prefetch_pos p = k" using p by (simp add: prefetched_def)
  have t: "take (k + 1) ks = take k ks @ [ks ! k]" using True by (simp add: take_Suc_conv_app_nth)
  have "accumulate_hash trie (prefetch_prefix_hash p) (ucast (byte_at (p_key_symbols p) k)) = hash_path trie (take (k + 1) ks)"
    using p True unfolding prefetched_def pos t hash_path_snoc by simp
  then show ?thesis
    using p True len unfolding prefetched_def prefetcher_step_def
    by (auto simp: Let_def pos nth_list_update less_Suc_eq)
next
  case False
  then show ?thesis using p by (simp add: prefetched_def prefetcher_step_def)
qed

lemma prefetched_start:
  assumes "length key \<le> MAX_KEY_BYTES" and "take (length key) bytes = key"
  shows "prefetched trie (key_symbols key) 4 (prefetcher_start trie (length key) bytes)"
proof -
  have len: "length (key_symbols key) \<le> 411" using num_key_symbols_bounds [OF assms(1)] by simp
  let ?p = "\<lparr>p_key_symbols = (symbol_buffer (length key) bytes)[num_key_symbols (length key) - 1 := ucast SYMBOL_END],
    prefix_hashes = replicate 411 0, prefetch_prefix_hash = HASH_START_VALUE, prefetch_pos = 0,
    p_num_key_symbols = num_key_symbols (length key)\<rparr>"
  have 0: "prefetched trie (key_symbols key) 0 ?p"
    unfolding prefetched_def using buffer_symbol [OF assms(1) _ assms(2)] by (simp add: hash_path_def)
  have "prefetched trie (key_symbols key) (0 + n) ((prefetcher_step trie ^^ n) ?p)" for n
    by (induction n) (use 0 prefetched_step [OF _ len] in auto)
  from this [of 4] show ?thesis by (simp add: prefetcher_start_def Let_def)
qed

lemma prefetched_after:
  assumes "length key \<le> MAX_KEY_BYTES" and "take (length key) bytes = key"
  shows "prefetched trie (key_symbols key) (4 + n) ((prefetcher_step trie ^^ n) (prefetcher_start trie (length key) bytes))"
proof (induction n)
  case 0
  then show ?case using prefetched_start [OF assms] by simp
next
  case (Suc n)
  have "length (key_symbols key) \<le> 411" using num_key_symbols_bounds [OF assms(1)] by simp
  then show ?case using prefetched_step [OF Suc] by simp
qed

text \<open>What the turn \<open>i\<close> of the descent reads.\<close>

lemma prefetched_read:
  assumes p: "prefetched trie ks k p" and i: "i < length ks" "i < k"
  shows "ucast (byte_at (p_key_symbols p) i) = ks ! i" and "prefix_hashes p ! i = hash_path trie (take (i + 1) ks)"
  using p i by (auto simp: prefetched_def)

text \<open>One turn of the descent, with the symbol and the hash it uses.\<close>

lemma descend_turn:
  assumes p: "prefetched trie ks (prefix_len f + 4) p" and len: "length ks \<le> 411" and n: "prefix_len f < length ks"
  shows "descend_from trie p f track = do {
      (success, f') \<leftarrow> try_descend trie f (ks ! prefix_len f) track (hash_path trie (take (prefix_len f + 1) ks));
      if \<not> success then Some (uint (ks ! prefix_len f), f')
      else if ks ! prefix_len f = SYMBOL_END then Some (- 1, f')
      else descend_from trie (prefetcher_step trie p) f' track
    }"
    and "prefetched trie ks (prefix_len f + 5) (prefetcher_step trie p)"
proof -
  show p': "prefetched trie ks (prefix_len f + 5) (prefetcher_step trie p)"
    using prefetched_step [OF p len] by (simp add: add.commute)
  then have *: "ucast (byte_at (p_key_symbols (prefetcher_step trie p)) (prefix_len f)) = ks ! prefix_len f"
    "prefix_hashes (prefetcher_step trie p) ! prefix_len f = hash_path trie (take (prefix_len f + 1) ks)"
    using n unfolding prefetched_def by auto
  show "descend_from trie p f track = do {
      (success, f') \<leftarrow> try_descend trie f (ks ! prefix_len f) track (hash_path trie (take (prefix_len f + 1) ks));
      if \<not> success then Some (uint (ks ! prefix_len f), f')
      else if ks ! prefix_len f = SYMBOL_END then Some (- 1, f')
      else descend_from trie (prefetcher_step trie p) f' track
    }"
    by (subst descend_from.simps) (simp only: Let_def *)
qed

end
