(* ===== verification/Subtrie.thy ===== *)
theory Subtrie
  imports Prefetch Api "HOL-Library.Sublist"
begin

text \<open>
  The keys below a node. A node at the prefix \<open>p\<close> represents a set of key objects: a leaf
  its own one; a jump node what its child represents, at the prefix extended by the node's
  symbols; a bitmap what its children represent, each at the prefix extended by one symbol.
  Children are found with the code's own searches of the hash table, by the hash of their
  prefix; no pointer leads from a node to its child.
\<close>

inductive represents :: "kv_heap \<Rightarrow> cuckoo_trie \<Rightarrow> u64 list \<Rightarrow> ct_entry \<Rightarrow> u64 set \<Rightarrow> bool"
  for heap trie where
  rep_leaf: "entry_type e = TYPE_LEAF \<Longrightarrow> wf_kv (heap (entry_kv e)) \<Longrightarrow>
    prefix p (key_symbols (kv_key (heap (entry_kv e)))) \<Longrightarrow> represents heap trie p e {entry_kv e}"
| rep_jump: "entry_type e = TYPE_JUMP \<Longrightarrow> wf_entry e \<Longrightarrow> 0 < entry_jump_size e \<Longrightarrow> entry_jump_size e \<le> MAX_JUMP_SYMBOLS \<Longrightarrow>
    find_entry_in_pair_by_color trie (hash_to_bucket (hash_path trie (p @ jump_symbols e)))
      (hash_to_tag (hash_path trie (p @ jump_symbols e))) (ucast (entry_child_color e)) = Some c \<Longrightarrow>
    represents heap trie (p @ jump_symbols e) (lc_value c) K \<Longrightarrow> represents heap trie p e K"
| rep_bitmap: "entry_type e = TYPE_BITMAP \<Longrightarrow> S = {s. s \<le> 32 \<and> get_bit (child_bitmap e) (unat s)} \<Longrightarrow> S \<noteq> {} \<Longrightarrow>
    (\<And>s. s \<in> S \<Longrightarrow> find_entry_in_pair_by_parent trie (hash_to_bucket (hash_path trie (p @ [s])))
      (hash_to_tag (hash_path trie (p @ [s]))) s (ucast (entry_color e)) = Some (child s)) \<Longrightarrow>
    (\<And>s. s \<in> S \<Longrightarrow> represents heap trie (p @ [s]) (lc_value (child s)) (K s)) \<Longrightarrow>
    represents heap trie p e (\<Union>s\<in>S. K s)"

definition trie_holds :: "kv_heap \<Rightarrow> cuckoo_trie \<Rightarrow> u64 set \<Rightarrow> bool" where
  "trie_holds heap trie K \<longleftrightarrow>
     (if is_empty trie then K = {}
      else \<exists>root. find_root trie = Some root \<and> represents heap trie [] (lc_value root) K)"

abbreviation key_of :: "kv_heap \<Rightarrow> u64 \<Rightarrow> u8 list" where
  "key_of heap kv \<equiv> kv_key (heap kv)"

subsection \<open>What a subtrie contains\<close>

lemma represents_keys:
  assumes "represents heap trie p e K"
  shows "K \<noteq> {} \<and> (\<forall>a\<in>K. wf_kv (heap a) \<and> prefix p (key_symbols (key_of heap a)))"
  using assms
proof (induction rule: represents.induct)
  case (rep_leaf e p)
  then show ?case by simp
next
  case (rep_jump e p c K)
  from rep_jump.IH show ?case by (meson append_prefixD)
next
  case (rep_bitmap e S p child K)
  then obtain s where "s \<in> S" by blast
  then have "K s \<noteq> {}" using rep_bitmap.IH by simp
  then have "(\<Union>s\<in>S. K s) \<noteq> {}" using \<open>s \<in> S\<close> by blast
  moreover have "\<forall>a\<in>(\<Union>s\<in>S. K s). wf_kv (heap a) \<and> prefix p (key_symbols (key_of heap a))"
    using rep_bitmap.IH by (meson UN_E append_prefixD)
  ultimately show ?case ..
qed

lemma prefix_symbol_unique:
  assumes "prefix (p @ [s]) ks" and "prefix (p @ [t]) ks"
  shows "s = t"
  using assms by (auto simp: prefix_def)

text \<open>Different key objects of a trie have different keys.\<close>

lemma represents_inj:
  assumes "represents heap trie p e K"
  shows "inj_on (key_of heap) K"
  using assms
proof (induction rule: represents.induct)
  case (rep_bitmap e S p child K)
  show ?case
  proof (rule inj_onI)
    fix a b
    assume ab: "a \<in> (\<Union>s\<in>S. K s)" "b \<in> (\<Union>s\<in>S. K s)" and eq: "key_of heap a = key_of heap b"
    then obtain s t where st: "s \<in> S" "a \<in> K s" "t \<in> S" "b \<in> K t" by blast
    have "prefix (p @ [s]) (key_symbols (key_of heap a))" "prefix (p @ [t]) (key_symbols (key_of heap b))"
      using rep_bitmap(5) st represents_keys by blast+
    then have "s = t" unfolding eq by (rule prefix_symbol_unique)
    then show "a = b" using rep_bitmap(6) st eq by (auto dest: inj_onD)
  qed
qed auto

theorem trie_holds_inj:
  assumes "trie_holds heap trie K"
  shows "inj_on (key_of heap) K"
  using assms represents_inj by (auto simp: trie_holds_def split: if_splits)

text \<open>Only the last symbol of a key is the end symbol.\<close>

lemma key_symbols_end_only_last:
  assumes "prefix (p @ q) (key_symbols key)" and "p \<noteq> []" and "last p = SYMBOL_END"
  shows "q = [] \<and> p = key_symbols key"
proof -
  obtain r where r: "key_symbols key = p @ q @ r" using assms(1) by (auto simp: prefix_def)
  have len: "length p - 1 < num_key_symbols (length key)"
    using arg_cong [OF r, of length] assms(2) by (cases p) auto
  have "key_symbols key ! (length p - 1) = last p" using assms(2) unfolding r by (simp add: nth_append last_conv_nth)
  then have "length p - 1 = num_key_symbols (length key) - 1" using last_key_symbol [OF len] assms(3) by simp
  then have "length p = length (key_symbols key)" using assms(2) len by (cases p) auto
  then show ?thesis using r by simp
qed

subsection \<open>The descent\<close>

text \<open>The finger is at the node \<open>e\<close>, \<open>d\<close> symbols into it, after \<open>n\<close> symbols of the key.\<close>

definition finger_at :: "cuckoo_trie \<Rightarrow> u64 list \<Rightarrow> ct_finger \<Rightarrow> key_prefetcher \<Rightarrow> ct_entry \<Rightarrow> nat \<Rightarrow> nat \<Rightarrow> bool" where
  "finger_at trie ks f p e d n \<longleftrightarrow>
     lc_value (containing_entry f) = e \<and> depth_in_jump f = d \<and> prefix_len f = n \<and> prefetched trie ks (n + 4) p"

text \<open>How the descent for the key \<open>ks\<close> may end below a node that represents \<open>K\<close>.\<close>

definition descent_end :: "kv_heap \<Rightarrow> u64 list \<Rightarrow> u64 set \<Rightarrow> int \<Rightarrow> ct_entry \<Rightarrow> bool" where
  "descent_end heap ks K symbol e \<longleftrightarrow>
     (if symbol = - 1 then entry_type e = TYPE_LEAF \<and> entry_kv e \<in> K \<and> key_symbols (key_of heap (entry_kv e)) = ks
      else if entry_type e = TYPE_LEAF
      then entry_kv e \<in> K \<and> (\<forall>a\<in>K. key_symbols (key_of heap a) = ks \<longrightarrow> a = entry_kv e)
      else \<forall>a\<in>K. key_symbols (key_of heap a) \<noteq> ks)"

lemma finger_fields [simp]:
  "containing_entry (finger_extend_prefix_known_hash f s h) = containing_entry f"
  "depth_in_jump (finger_extend_prefix_known_hash f s h) = depth_in_jump f"
  "prefix_len (finger_extend_prefix_known_hash f s h) = prefix_len f + 1"
  "f_prefix_hash (finger_extend_prefix_known_hash f s h) = h"
  "containing_entry (finger_node_changed f track) = containing_entry f"
  "depth_in_jump (finger_node_changed f track) = 0"
  "prefix_len (finger_node_changed f track) = prefix_len f"
  "f_prefix_hash (finger_node_changed f track) = f_prefix_hash f"
  by (simp_all add: finger_extend_prefix_known_hash_def finger_node_changed_def store_path_entry_def Let_def)

lemma descend_leaf:
  assumes at: "finger_at trie ks f p e 0 n" and n: "n < length ks" "length ks \<le> 411" and e: "entry_type e = TYPE_LEAF"
  shows "descend_from trie p f track = Some (uint (ks ! n), f)"
proof -
  have f: "prefix_len f = n" "prefetched trie ks (prefix_len f + 4) p" "lc_value (containing_entry f) = e"
    using at by (simp_all add: finger_at_def)
  show ?thesis using descend_turn(1) [OF f(2) n(2)] n(1) f(1,3) e by (simp add: try_descend_def Let_def)
qed

lemma jump_symbol_nth: "i < entry_jump_size e \<Longrightarrow> jump_symbols e ! i = get_jump_symbol e i"
  by (simp add: jump_symbols_def)

lemma descend_jump:
  assumes e: "entry_type e = TYPE_JUMP" "wf_entry e" "entry_jump_size e \<le> 8" and len: "length ks \<le> 411"
    and ends: "\<forall>i<length ks. ks ! i = SYMBOL_END \<longleftrightarrow> i = length ks - 1"
    and found: "take (length q + entry_jump_size e) ks = q @ jump_symbols e \<Longrightarrow>
      find_entry_in_pair_by_color trie (hash_to_bucket (hash_path trie (q @ jump_symbols e)))
        (hash_to_tag (hash_path trie (q @ jump_symbols e))) (ucast (entry_child_color e)) = Some c"
    and at: "finger_at trie ks f p e d (length q + d)" and d: "d < entry_jump_size e" and n: "length q + d < length ks"
    and taken0: "take (length q + d) ks = q @ take d (jump_symbols e)"
  shows "(\<exists>f' (s :: u64). descend_from trie p f track = Some (uint s, f') \<and> lc_value (containing_entry f') = e \<and>
        \<not> prefix (q @ jump_symbols e) ks) \<or>
    (\<exists>f' p'. descend_from trie p f track = descend_from trie p' f' track \<and>
        finger_at trie ks f' p' (lc_value c) 0 (length q + entry_jump_size e) \<and> length q + entry_jump_size e < length ks \<and>
        take (length q + entry_jump_size e) ks = q @ jump_symbols e)"
  using at d n taken0
proof (induction "entry_jump_size e - d" arbitrary: d f p)
  case 0
  then show ?case by simp
next
  case (Suc r)
  let ?n = "length q + d" and ?s = "ks ! (length q + d)"
  have f: "prefix_len f = ?n" "prefetched trie ks (prefix_len f + 4) p" "lc_value (containing_entry f) = e" "depth_in_jump f = d"
    using Suc.prems(1) by (simp_all add: finger_at_def)
  have d8: "d < 8" using Suc.prems(2) e(3) by simp
  note turn = descend_turn [OF f(2) len, unfolded f(1), OF Suc.prems(3)]
  note js = get_jump_symbol_bounds [OF e(2) d8]
  have byte: "ucast (ucast (get_jump_symbol e d) :: u8) = get_jump_symbol e d" by (rule symbol_byte [OF js(1)])
  show ?case
  proof (cases "get_jump_symbol e d = ?s")
    case False
    have "descend_from trie p f track = Some (uint ?s, f)"
      using turn(1) False e(1) f byte by (simp add: try_descend_def Let_def)
    moreover have "\<not> prefix (q @ jump_symbols e) ks"
    proof
      assume "prefix (q @ jump_symbols e) ks"
      then obtain rest where "ks = q @ jump_symbols e @ rest" by (auto simp: prefix_def)
      then have "?s = jump_symbols e ! d" using Suc.prems(2) by (simp add: nth_append)
      then show False using False Suc.prems(2) by (simp add: jump_symbol_nth)
    qed
    ultimately have "descend_from trie p f track = Some (uint ?s, f) \<and> lc_value (containing_entry f) = e \<and>
        \<not> prefix (q @ jump_symbols e) ks" using f(3) by simp
    then show ?thesis by blast
  next
    case True
    then have ne: "?s \<noteq> SYMBOL_END" using js(2) by simp
    then have more: "?n + 1 < length ks" using ends Suc.prems(3) by (metis Suc_eq_plus1 Suc_lessI diff_Suc_1)
    have taken: "take (?n + 1) ks = q @ take (d + 1) (jump_symbols e)"
      using Suc.prems(2-4) True by (simp add: take_Suc_conv_app_nth jump_symbol_nth)
    let ?h = "hash_path trie (take (?n + 1) ks)"
    let ?f = "(finger_extend_prefix_known_hash f (ucast ?s) ?h)\<lparr>depth_in_jump := d + 1\<rparr>"
    show ?thesis
    proof (cases "d + 1 = entry_jump_size e")
      case False
      then have td: "try_descend trie f ?s track ?h = Some (True, ?f)"
        using True e(1) f byte by (simp add: try_descend_def Let_def)
      have step: "descend_from trie p f track = descend_from trie (prefetcher_step trie p) ?f track"
        using turn(1) td ne by simp
      have at': "finger_at trie ks ?f (prefetcher_step trie p) e (d + 1) (length q + (d + 1))"
        using turn(2) f by (simp add: finger_at_def finger_extend_prefix_known_hash_def add.commute add.left_commute)
      have "r = entry_jump_size e - (d + 1)" "d + 1 < entry_jump_size e" using Suc.hyps(2) Suc.prems(2) False by simp_all
      from Suc.hyps(1) [OF this(1) at' this(2)] more taken step show ?thesis by simp
    next
      case end_of_jump: True
      have jumped: "take (length q + entry_jump_size e) ks = q @ jump_symbols e"
        using taken end_of_jump by (metis add.assoc length_jump_symbols take_all order_refl)
      note child = found [OF jumped]
      have h: "?h = hash_path trie (q @ jump_symbols e)"
        using jumped by (simp only: add.assoc end_of_jump)
      let ?g = "finger_node_changed (?f\<lparr>containing_entry := c\<rparr>) track"
      have td: "try_descend trie f ?s track ?h = Some (True, ?g)"
        using True e(1) f byte end_of_jump child h by (simp add: try_descend_def Let_def finger_extend_prefix_known_hash_def)
      have step: "descend_from trie p f track = descend_from trie (prefetcher_step trie p) ?g track"
        using turn(1) td ne by simp
      have "finger_at trie ks ?g (prefetcher_step trie p) (lc_value c) 0 (length q + entry_jump_size e)"
        using turn(2) f end_of_jump [symmetric] by (simp add: finger_at_def finger_extend_prefix_known_hash_def add.assoc
          finger_node_changed_def store_path_entry_def Let_def add.commute add.left_commute)
      then show ?thesis using step more end_of_jump jumped by (metis add.assoc)
    qed
  qed
qed

lemma represents_end:
  assumes rep: "represents heap trie p e K" and p: "p \<noteq> []" "last p = SYMBOL_END"
  shows "entry_type e = TYPE_LEAF \<and> K = {entry_kv e} \<and> key_symbols (key_of heap (entry_kv e)) = p"
  using rep
proof (cases rule: represents.cases)
  case rep_leaf
  then have "prefix p (key_symbols (key_of heap (entry_kv e)))" by simp
  then obtain r where "key_symbols (key_of heap (entry_kv e)) = p @ r" by (auto simp: prefix_def)
  then have "p = key_symbols (key_of heap (entry_kv e))"
    using key_symbols_end_only_last [of p r "key_of heap (entry_kv e)", OF _ p] by simp
  then show ?thesis using rep_leaf by simp
next
  case (rep_jump c)
  obtain a where "a \<in> K" using represents_keys [OF rep] by blast
  then have "prefix (p @ jump_symbols e) (key_symbols (key_of heap a))"
    using represents_keys [OF rep_jump(6)] by blast
  then have "jump_symbols e = []" using key_symbols_end_only_last p by blast
  then show ?thesis using rep_jump(3) length_jump_symbols [of e] by simp
next
  case (rep_bitmap S child L)
  obtain s where s: "s \<in> S" using rep_bitmap(4) by blast
  then have rs: "represents heap trie (p @ [s]) (lc_value (child s)) (L s)" using rep_bitmap by blast
  obtain a where "a \<in> L s" using represents_keys [OF rs] by blast
  then have "prefix (p @ [s]) (key_symbols (key_of heap a))" using represents_keys [OF rs] by blast
  then have "[s] = []" using key_symbols_end_only_last p by blast
  then show ?thesis by simp
qed

text \<open>The result of the descent in one child is that of the descent in the bitmap.\<close>

lemma descent_end_union:
  assumes s: "s \<in> S" and ks: "prefix (q @ [s]) ks"
    and others: "\<And>t a. t \<in> S \<Longrightarrow> a \<in> K t \<Longrightarrow> prefix (q @ [t]) (key_symbols (key_of heap a))"
    and e: "descent_end heap ks (K s) symbol e"
  shows "descent_end heap ks (\<Union>t\<in>S. K t) symbol e"
proof -
  have only: "a \<in> K s" if "t \<in> S" "a \<in> K t" "key_symbols (key_of heap a) = ks" for t a
  proof -
    have "t = s" using others [OF that(1,2)] unfolding that(3) using ks by (rule prefix_symbol_unique)
    then show ?thesis using that(2) by simp
  qed
  show ?thesis
  proof (cases "symbol = - 1")
    case True
    then have "entry_type e = TYPE_LEAF" "entry_kv e \<in> K s" "key_symbols (key_of heap (entry_kv e)) = ks"
      using e by (simp_all add: descent_end_def)
    moreover from this(2) have "entry_kv e \<in> (\<Union>t\<in>S. K t)" using s by blast
    ultimately show ?thesis using True by (simp only: descent_end_def) simp
  next
    case False
    show ?thesis
    proof (cases "entry_type e = TYPE_LEAF")
      case leaf: True
      then have here: "entry_kv e \<in> K s" "\<forall>a\<in>K s. key_symbols (key_of heap a) = ks \<longrightarrow> a = entry_kv e"
        using e False by (simp_all add: descent_end_def)
      have "entry_kv e \<in> (\<Union>t\<in>S. K t)" using here(1) s by blast
      moreover have "\<forall>a\<in>(\<Union>t\<in>S. K t). key_symbols (key_of heap a) = ks \<longrightarrow> a = entry_kv e"
        using here(2) only by (metis UN_E)
      ultimately show ?thesis using leaf False unfolding descent_end_def by simp
    next
      case nonleaf: False
      then have "\<forall>a\<in>K s. key_symbols (key_of heap a) \<noteq> ks" using e False by (simp add: descent_end_def)
      then have "\<forall>a\<in>(\<Union>t\<in>S. K t). key_symbols (key_of heap a) \<noteq> ks" using only by (metis UN_E)
      then show ?thesis using nonleaf False unfolding descent_end_def by simp
    qed
  qed
qed

lemma descend_bitmap:
  assumes e: "entry_type e = TYPE_BITMAP" and len: "length ks \<le> 411" and ks: "\<forall>i<length ks. ks ! i \<le> 32"
    and ends: "\<forall>i<length ks. ks ! i = SYMBOL_END \<longleftrightarrow> i = length ks - 1"
    and at: "finger_at trie ks f p e 0 (length q)" and n: "length q < length ks" and q: "take (length q) ks = q"
    and child: "get_bit (child_bitmap e) (unat (ks ! length q)) \<Longrightarrow>
      find_entry_in_pair_by_parent trie (hash_to_bucket (hash_path trie (q @ [ks ! length q])))
        (hash_to_tag (hash_path trie (q @ [ks ! length q]))) (ks ! length q) (ucast (entry_color e)) = Some c"
  shows "\<not> get_bit (child_bitmap e) (unat (ks ! length q)) \<Longrightarrow> descend_from trie p f track = Some (uint (ks ! length q), f)"
    and "get_bit (child_bitmap e) (unat (ks ! length q)) \<Longrightarrow> length q + 1 = length ks \<Longrightarrow>
      \<exists>f'. descend_from trie p f track = Some (- 1, f') \<and> containing_entry f' = c"
    and "get_bit (child_bitmap e) (unat (ks ! length q)) \<Longrightarrow> length q + 1 < length ks \<Longrightarrow>
      \<exists>f' p'. descend_from trie p f track = descend_from trie p' f' track \<and>
        finger_at trie ks f' p' (lc_value c) 0 (length (q @ [ks ! length q]))"
proof -
  let ?s = "ks ! length q"
  have f: "prefix_len f = length q" "prefetched trie ks (prefix_len f + 4) p" "lc_value (containing_entry f) = e"
    using at by (simp_all add: finger_at_def)
  note turn = descend_turn [OF f(2) len, unfolded f(1), OF n]
  have t: "take (length q + 1) ks = q @ [?s]" using n q by (simp add: take_Suc_conv_app_nth)
  note turn1 = turn(1) [unfolded t]
  show "\<not> get_bit (child_bitmap e) (unat ?s) \<Longrightarrow> descend_from trie p f track = Some (uint ?s, f)"
    using turn1 e f by (simp add: try_descend_def Let_def)
  assume bit: "get_bit (child_bitmap e) (unat ?s)"
  let ?h = "hash_path trie (q @ [?s])"
  let ?g = "finger_node_changed ((finger_extend_prefix_known_hash f (ucast ?s) ?h)\<lparr>containing_entry := c\<rparr>) track"
  have td: "try_descend trie f ?s track ?h = Some (True, ?g)"
    using bit e f child [OF bit] by (simp add: try_descend_def Let_def)
  show "\<exists>f'. descend_from trie p f track = Some (- 1, f') \<and> containing_entry f' = c" if "length q + 1 = length ks"
  proof -
    have "?s = SYMBOL_END" using ends n that by (metis Suc_eq_plus1 diff_Suc_1)
    then show ?thesis using turn1 td by simp
  qed
  show "\<exists>f' p'. descend_from trie p f track = descend_from trie p' f' track \<and>
      finger_at trie ks f' p' (lc_value c) 0 (length (q @ [?s]))" if l: "length q + 1 < length ks"
  proof (intro exI conjI)
    have "length q \<noteq> length ks - 1" using l by simp
    then have "?s \<noteq> SYMBOL_END" using ends n by blast
    then show "descend_from trie p f track = descend_from trie (prefetcher_step trie p) ?g track"
      using turn1 td by simp
    show "finger_at trie ks ?g (prefetcher_step trie p) (lc_value c) 0 (length (q @ [?s]))"
      using turn(2) f by (simp add: finger_at_def finger_extend_prefix_known_hash_def
        finger_node_changed_def store_path_entry_def Let_def add.commute)
  qed
qed

theorem descend_represents:
  assumes rep: "represents heap trie q e K"
    and len: "length ks \<le> 411" and ks: "\<forall>i<length ks. ks ! i \<le> 32"
    and ends: "\<forall>i<length ks. ks ! i = SYMBOL_END \<longleftrightarrow> i = length ks - 1"
    and at: "finger_at trie ks f p e 0 (length q)" and n: "length q < length ks" and q: "take (length q) ks = q"
  shows "\<exists>symbol f'. descend_from trie p f track = Some (symbol, f') \<and>
    descent_end heap ks K symbol (lc_value (containing_entry f'))"
  using rep at n q
proof (induction arbitrary: f p rule: represents.induct)
  case (rep_leaf e q)
  have "lc_value (containing_entry f) = e" using rep_leaf(4) by (simp add: finger_at_def)
  moreover have "uint (ks ! length q) \<noteq> - 1" using uint_ge_0 [of "ks ! length q"] by linarith
  ultimately show ?case using descend_leaf [OF rep_leaf(4,5) len rep_leaf(1), of track] rep_leaf(1)
    by (simp add: descent_end_def)
next
  case (rep_jump e q c K)
  note found = rep_jump(5)
  have js8: "entry_jump_size e \<le> 8" using rep_jump(4) by simp
  have at0: "finger_at trie ks f p e 0 (length q + 0)" "length q + 0 < length ks" "take (length q + 0) ks = q @ take 0 (jump_symbols e)"
    using rep_jump(8-10) by simp_all
  from descend_jump [OF rep_jump(1,2) js8 len ends found at0(1) rep_jump(3) at0(2,3), of track]
  show ?case
  proof (elim disjE exE conjE)
    fix f' and s :: u64
    assume d: "descend_from trie p f track = Some (uint s, f')" "lc_value (containing_entry f') = e"
      and no: "\<not> prefix (q @ jump_symbols e) ks"
    have "\<forall>a\<in>K. key_symbols (key_of heap a) \<noteq> ks" using no represents_keys [OF rep_jump(6)] by blast
    moreover have "uint s \<noteq> - 1" using uint_ge_0 [of s] by linarith
    ultimately show ?thesis using d rep_jump(1) by (simp add: descent_end_def)
  next
    fix f' p'
    assume d: "descend_from trie p f track = descend_from trie p' f' track"
      and a: "finger_at trie ks f' p' (lc_value c) 0 (length q + entry_jump_size e)"
      "length q + entry_jump_size e < length ks" "take (length q + entry_jump_size e) ks = q @ jump_symbols e"
    have l: "length (q @ jump_symbols e) = length q + entry_jump_size e" by (simp add: length_jump_symbols)
    show ?thesis using rep_jump.IH [unfolded l, OF a] d by simp
  qed
next
  case (rep_bitmap e S q child K)
  let ?s = "ks ! length q"
  have sub: "prefix (q @ [t]) (key_symbols (key_of heap a))" if "t \<in> S" "a \<in> K t" for t a
    using represents_keys [OF rep_bitmap(5) [OF that(1)]] that(2) by blast
  have inS: "?s \<in> S \<longleftrightarrow> get_bit (child_bitmap e) (unat ?s)"
    unfolding rep_bitmap(2) using ks rep_bitmap(8) by simp
  have t: "take (length q + 1) ks = q @ [?s]" using rep_bitmap(8,9) by (simp add: take_Suc_conv_app_nth)
  have pre: "prefix (q @ [?s]) ks" using take_is_prefix [of "length q + 1" ks] unfolding t .
  note step = descend_bitmap [OF rep_bitmap(1) len ks ends rep_bitmap(7-9), of "child ?s" track]
  have found: "find_entry_in_pair_by_parent trie (hash_to_bucket (hash_path trie (q @ [?s])))
      (hash_to_tag (hash_path trie (q @ [?s]))) ?s (ucast (entry_color e)) = Some (child ?s)"
    if "get_bit (child_bitmap e) (unat ?s)" using rep_bitmap(4) inS that by blast
  show ?case
  proof (cases "?s \<in> S")
    case False
    then have bit: "\<not> get_bit (child_bitmap e) (unat ?s)" using inS by simp
    have d: "descend_from trie p f track = Some (uint ?s, f)" using step(1) found bit by blast
    have "\<forall>a\<in>(\<Union>s\<in>S. K s). key_symbols (key_of heap a) \<noteq> ks"
    proof
      fix a assume "a \<in> (\<Union>s\<in>S. K s)"
      then obtain t where "t \<in> S" "a \<in> K t" by blast
      then show "key_symbols (key_of heap a) \<noteq> ks" using sub prefix_symbol_unique [OF pre] False by metis
    qed
    moreover have "uint ?s \<noteq> - 1" using uint_ge_0 [of ?s] by linarith
    moreover have "lc_value (containing_entry f) = e" using rep_bitmap(7) by (simp add: finger_at_def)
    ultimately show ?thesis using d rep_bitmap(1) by (simp add: descent_end_def)
  next
    case True
    then have bit: "get_bit (child_bitmap e) (unat ?s)" using inS by simp
    note repS = rep_bitmap(5) [OF True]
    have "\<exists>symbol f'. descend_from trie p f track = Some (symbol, f') \<and>
        descent_end heap ks (K ?s) symbol (lc_value (containing_entry f'))"
    proof (cases "length q + 1 = length ks")
      case end_of_key: True
      obtain f' where f': "descend_from trie p f track = Some (- 1, f')" "containing_entry f' = child ?s"
        using step(2) found bit end_of_key by blast
      have ks_q: "q @ [?s] = ks" using t end_of_key by simp
      have "?s = SYMBOL_END" using ends rep_bitmap(8) end_of_key by simp
      then have "last (q @ [?s]) = SYMBOL_END" by simp
      from represents_end [OF repS _ this, simplified snoc_eq_iff_butlast] have "entry_type (lc_value (child ?s)) = TYPE_LEAF"
        "K ?s = {entry_kv (lc_value (child ?s))}" "key_symbols (key_of heap (entry_kv (lc_value (child ?s)))) = ks"
        unfolding ks_q by simp_all
      then show ?thesis using f' by (simp add: descent_end_def)
    next
      case False
      then have more: "length q + 1 < length ks" using rep_bitmap(8) by simp
      then obtain f' p' where d: "descend_from trie p f track = descend_from trie p' f' track"
        and a: "finger_at trie ks f' p' (lc_value (child ?s)) 0 (length (q @ [?s]))"
        using step(3) found bit by blast
      have l: "length (q @ [?s]) < length ks" "take (length (q @ [?s])) ks = q @ [?s]" using more t by simp_all
      show ?thesis using rep_bitmap.IH [OF True a l] d by simp
    qed
    then obtain symbol f' where d: "descend_from trie p f track = Some (symbol, f')"
      and e: "descent_end heap ks (K ?s) symbol (lc_value (containing_entry f'))" by blast
    from descent_end_union [where K = K, OF True pre sub e] d show ?thesis by blast
  qed
qed

end
