(* ===== verification/PointOps.thy ===== *)
theory PointOps
  imports Subtrie
begin

text \<open>
  The point operations on a trie that holds a set of key objects: a lookup returns the object
  with the key, or null; an update of a missing key and an insertion of a present one report
  that and leave the trie as it is.
\<close>

definition absent :: "kv_heap \<Rightarrow> u64 set \<Rightarrow> u8 list \<Rightarrow> bool" where
  "absent heap K key \<longleftrightarrow> (\<forall>a\<in>K. key_of heap a \<noteq> key)"

lemma kv_key_length: "wf_kv kv \<Longrightarrow> length (kv_key kv) = unat (key_size kv)"
  by (simp add: kv_key_def wf_kv_def)

subsection \<open>Where the descent for a key ends\<close>

lemma init_finger_empty: "is_empty trie \<Longrightarrow> \<exists>f. init_finger trie = Some (None, f)"
  by (simp add: init_finger_def)

lemma key_descent:
  assumes holds: "trie_holds heap trie K" and ne: "\<not> is_empty trie" and key: "length key \<le> MAX_KEY_BYTES"
    and bytes: "take (length key) bytes = key"
  shows "\<exists>r f symbol f'. init_finger trie = Some (Some r, f) \<and>
    descend trie f (length key) bytes track = Some (symbol, f') \<and>
    descent_end heap (key_symbols key) K symbol (lc_value (containing_entry f'))"
proof -
  obtain root where root: "find_root trie = Some root" and rep: "represents heap trie [] (lc_value root) K"
    using holds ne by (auto simp: trie_holds_def)
  let ?f = "store_path_entry \<lparr>containing_entry = root, f_path = [], prefix_len = 0, f_prefix_hash = HASH_START_VALUE,
    last_prefix_symbol = ROOT_LAST_SYMBOL, depth_in_jump = 0\<rparr>"
  let ?ks = "key_symbols key"
  note b = num_key_symbols_bounds [OF key]
  have len: "length ?ks = num_key_symbols (length key)" by simp
  have init: "init_finger trie = Some (Some (last_pos root), ?f)" using root ne by (simp add: init_finger_def)
  have at0: "finger_at trie ?ks ?f (prefetcher_start trie (length key) bytes) (lc_value root) 0 (length [])"
    using prefetched_start [OF key bytes] by (simp add: finger_at_def store_path_entry_def)
  have "\<forall>i<length ?ks. ?ks ! i \<le> 32" "\<forall>i<length ?ks. ?ks ! i = SYMBOL_END \<longleftrightarrow> i = length ?ks - 1"
    unfolding len using key_symbols_le last_key_symbol by blast+
  from descend_represents [OF rep _ this at0, of track] show ?thesis
    using init b unfolding len descend_def by auto
qed

text \<open>What the end of the descent says of the key.\<close>

lemma descent_end_key:
  assumes holds: "trie_holds heap trie K" and "end": "descent_end heap (key_symbols key) K symbol e"
  shows "entry_type e \<noteq> TYPE_LEAF \<Longrightarrow> symbol \<noteq> - 1 \<and> absent heap K key"
    and "entry_type e = TYPE_LEAF \<Longrightarrow> entry_kv e \<in> K"
    and "entry_type e = TYPE_LEAF \<Longrightarrow> key_of heap (entry_kv e) \<noteq> key \<Longrightarrow> symbol \<noteq> - 1 \<and> absent heap K key"
    and "symbol = - 1 \<Longrightarrow> entry_type e = TYPE_LEAF \<and> key_of heap (entry_kv e) = key"
  using "end" unfolding descent_end_def absent_def key_symbols_inject by (auto split: if_splits)

lemma holds_keys: "trie_holds heap trie K \<Longrightarrow> a \<in> K \<Longrightarrow> wf_kv (heap a)"
  using represents_keys by (auto simp: trie_holds_def split: if_splits)

lemma holds_empty: "trie_holds heap trie K \<Longrightarrow> is_empty trie \<longleftrightarrow> K = {}"
  using represents_keys by (fastforce simp: trie_holds_def split: if_splits)

text \<open>The comparison at the leaf where the descent ends.\<close>

lemma leaf_compare:
  assumes "wf_kv (heap a)" and "length key \<le> MAX_KEY_BYTES"
  shows "kv_key_compare_to (heap a) (of_nat (length key)) key = 0 \<longleftrightarrow> key_of heap a = key"
proof (rule kv_key_compare_to_order(2) [OF assms(1)])
  show "unat (of_nat (length key) :: u64) = length key"
    using assms(2) by (simp add: unat_of_nat)
  show "length key < 2 ^ 31" using assms(2) by simp
qed

subsection \<open>Lookup\<close>

theorem ct_lookup_correct:
  assumes holds: "trie_holds heap trie K" and key: "length key \<le> MAX_KEY_BYTES"
  shows "\<exists>r. ct_lookup heap trie (length key) key = Some r \<and>
    (r \<in> K \<and> key_of heap r = key \<or> r = NULL \<and> absent heap K key)"
proof (cases "is_empty trie")
  case True
  then show ?thesis using init_finger_empty [OF True] holds_empty [OF holds] by (auto simp: ct_lookup_def absent_def)
next
  case False
  obtain r f symbol f' where init: "init_finger trie = Some (Some r, f)"
    and d: "descend trie f (length key) key False = Some (symbol, f')"
    and e: "descent_end heap (key_symbols key) K symbol (lc_value (containing_entry f'))"
    using key_descent [OF holds False key take_all [OF order_refl], of False] by blast
  note f = descent_end_key [OF holds e]
  let ?e = "lc_value (containing_entry f')"
  show ?thesis
  proof (cases "entry_type ?e = TYPE_LEAF")
    case True
    have "kv_key_compare_to (heap (entry_kv ?e)) (of_nat (length key)) key = 0 \<longleftrightarrow> key_of heap (entry_kv ?e) = key"
      by (rule leaf_compare [where heap = heap, OF holds_keys [OF holds f(2) [OF True]] key])
    then show ?thesis using init d f(2-4) True by (auto simp: ct_lookup_def Let_def)
  next
    case False
    then show ?thesis using init d f(1) by (auto simp: ct_lookup_def Let_def)
  qed
qed

text \<open>As a map from keys to key objects.\<close>

definition abs_map :: "kv_heap \<Rightarrow> u64 set \<Rightarrow> u8 list \<Rightarrow> u64" where
  "abs_map heap K key = (if absent heap K key then NULL else the_elem {a \<in> K. key_of heap a = key})"

lemma abs_map_singleton: "abs_map heap {kv} key = (if key = key_of heap kv then kv else NULL)"
proof -
  have "{a \<in> {kv}. key_of heap a = key_of heap kv} = {kv}" by auto
  then show ?thesis by (auto simp: abs_map_def absent_def)
qed

theorem ct_lookup_refines:
  assumes holds: "trie_holds heap trie K" and key: "length key \<le> MAX_KEY_BYTES"
  shows "ct_lookup heap trie (length key) key = Some (abs_map heap K key)"
proof -
  obtain r where r: "ct_lookup heap trie (length key) key = Some r"
    "r \<in> K \<and> key_of heap r = key \<or> r = NULL \<and> absent heap K key"
    using ct_lookup_correct [OF holds key] by blast
  have "{a \<in> K. key_of heap a = key} = {r}" if "r \<in> K" "key_of heap r = key"
    using trie_holds_inj [OF holds] that by (auto dest: inj_onD)
  then show ?thesis using r by (auto simp: abs_map_def absent_def)
qed

subsection \<open>Keys that are there, or not\<close>

text \<open>The bytes behind a key, such as those of the value, have no influence.\<close>

lemma memcmp_take: "n \<le> m \<Longrightarrow> memcmp a (take m b) n = memcmp a b n"
proof (induction n arbitrary: a b m)
  case (Suc n)
  then obtain m' where m: "m = Suc m'" by (cases m) auto
  show ?case using Suc unfolding m by (cases b) (auto simp: byte_at_def)
qed simp

lemma kv_compare_leaf:
  assumes "wf_kv k1" and "wf_kv k2"
  shows "kv_key_compare k1 k2 = kv_key_compare_to k1 (kv_key_size k2) (kv_key k2)"
    and "kv_key_compare k1 k2 < 0 \<longleftrightarrow> lex_less (kv_key k1) (kv_key k2)"
    and "kv_key_compare k1 k2 = 0 \<longleftrightarrow> kv_key k1 = kv_key k2"
    and "kv_key_compare k1 k2 > 0 \<longleftrightarrow> lex_less (kv_key k2) (kv_key k1)"
proof -
  have s: "unat (kv_key_size k2) = unat (key_size k2)" by (rule unat_kv_key_size [OF assms(2)])
  have "unat (if kv_key_size k1 < kv_key_size k2 then kv_key_size k1 else kv_key_size k2) \<le> unat (key_size k2)"
    unfolding s [symmetric] by (simp add: word_less_nat_alt)
  from memcmp_take [OF this, of "kv_bytes k1" "kv_bytes k2"]
  show eq: "kv_key_compare k1 k2 = kv_key_compare_to k1 (kv_key_size k2) (kv_key k2)"
    by (simp add: kv_key_compare_def kv_key_compare_to_def kv_key_def Let_def)
  have "unat (kv_key_size k2) = length (kv_key k2)" "length (kv_key k2) < 2 ^ 31"
    using s kv_key_length [OF assms(2)] assms(2) by (simp_all add: wf_kv_def)
  from kv_key_compare_to_order [OF assms(1) this] show
    "kv_key_compare k1 k2 < 0 \<longleftrightarrow> lex_less (kv_key k1) (kv_key k2)"
    "kv_key_compare k1 k2 = 0 \<longleftrightarrow> kv_key k1 = kv_key k2"
    "kv_key_compare k1 k2 > 0 \<longleftrightarrow> lex_less (kv_key k2) (kv_key k1)"
    unfolding eq by simp_all
qed

text \<open>The descent for the key of a key object.\<close>

lemma kv_descent:
  assumes holds: "trie_holds heap trie K" and ne: "\<not> is_empty trie" and kv: "wf_kv kv" "unat (key_size kv) \<le> MAX_KEY_BYTES"
  shows "\<exists>r f symbol f'. init_finger trie = Some (Some r, f) \<and>
    descend trie f (unat (kv_key_size kv)) (kv_bytes kv) track = Some (symbol, f') \<and>
    descent_end heap (key_symbols (kv_key kv)) K symbol (lc_value (containing_entry f'))"
proof -
  have n: "unat (kv_key_size kv) = length (kv_key kv)" using unat_kv_key_size [OF kv(1)] kv_key_length [OF kv(1)] by simp
  have "take (length (kv_key kv)) (kv_bytes kv) = kv_key kv" using kv_key_length [OF kv(1)] by (simp add: kv_key_def)
  from key_descent [OF holds ne _ this, of track] show ?thesis unfolding n using kv kv_key_length [OF kv(1)] by simp
qed

theorem ct_insert_present:
  assumes holds: "trie_holds heap trie K" and kv: "wf_kv (heap kv)" "unat (key_size (heap kv)) \<le> MAX_KEY_BYTES"
    and a: "a \<in> K" "key_of heap a = key_of heap kv"
  shows "ct_insert heap act trie kv = Some (S_ALREADYIN, trie)"
proof -
  have ne: "\<not> is_empty trie" using holds_empty [OF holds] a by blast
  obtain r f symbol f' where init: "init_finger trie = Some (Some r, f)"
    and d: "descend trie f (unat (kv_key_size (heap kv))) (kv_bytes (heap kv)) True = Some (symbol, f')"
    and e: "descent_end heap (key_symbols (key_of heap kv)) K symbol (lc_value (containing_entry f'))"
    using kv_descent [OF holds ne kv] by blast
  note f = descent_end_key [OF holds e]
  have leaf: "entry_type (lc_value (containing_entry f')) = TYPE_LEAF" using f(1) a by (auto simp: absent_def)
  have eq: "key_of heap (entry_kv (lc_value (containing_entry f'))) = key_of heap kv"
    using f(3) [OF leaf] a by (auto simp: absent_def)
  have "kv_key_compare (heap (entry_kv (lc_value (containing_entry f')))) (heap kv) = 0"
    using kv_compare_leaf(3) [OF holds_keys [OF holds f(2) [OF leaf]] kv(1)] eq by simp
  then have "create_leaf heap (trie, init_lock_mgr) f' kv (of_int symbol) = Some (SI_EXISTS, f', trie, init_lock_mgr)"
    using leaf by (simp add: create_leaf_def create_leaf_at_leaf_def Let_def)
  then have "ct_insert_internal heap trie kv False = Some (SI_EXISTS, trie, init_lock_mgr)"
    using init d by (simp add: ct_insert_internal_def)
  then have "insert_attempts heap act 0 trie kv False = Some (SI_EXISTS, trie)" by (simp add: insert_attempts.simps)
  then show ?thesis using unat_kv_key_size [OF kv(1)] kv(2) by (simp add: ct_insert_def)
qed

lemma update_missing_fails:
  assumes holds: "trie_holds heap trie K" and kv: "wf_kv (heap kv)" "unat (key_size (heap kv)) \<le> MAX_KEY_BYTES"
    and missing: "absent heap K (key_of heap kv)"
  shows "\<exists>s. ct_update_internal heap trie kv = Some (SI_FAIL, trie, s)"
proof (cases "is_empty trie")
  case True
  then show ?thesis using init_finger_empty [OF True] by (auto simp: ct_update_internal_def)
next
  case False
  obtain r f symbol f' where init: "init_finger trie = Some (Some r, f)"
    and d: "descend trie f (unat (kv_key_size (heap kv))) (kv_bytes (heap kv)) False = Some (symbol, f')"
    and e: "descent_end heap (key_symbols (key_of heap kv)) K symbol (lc_value (containing_entry f'))"
    using kv_descent [OF holds False kv] by blast
  note f = descent_end_key [OF holds e]
  let ?e = "lc_value (containing_entry f')"
  show ?thesis
  proof (cases "entry_type ?e = TYPE_LEAF")
    case True
    have "key_of heap (entry_kv ?e) \<noteq> key_of heap kv" using missing f(2) [OF True] by (auto simp: absent_def)
    then have "kv_key_compare (heap (entry_kv ?e)) (heap kv) \<noteq> 0"
      using kv_compare_leaf(3) [OF holds_keys [OF holds f(2) [OF True]] kv(1)] by simp
    then show ?thesis using init d True by (simp add: ct_update_internal_def)
  next
    case False
    then show ?thesis using init d by (simp add: ct_update_internal_def)
  qed
qed

theorem ct_update_missing:
  assumes holds: "trie_holds heap trie K" and kv: "wf_kv (heap kv)" "unat (key_size (heap kv)) \<le> MAX_KEY_BYTES"
    and missing: "absent heap K (key_of heap kv)"
  shows "ct_update heap act trie kv = Some (S_NOTFOUND, trie)"
proof -
  have "update_attempts heap act 0 trie kv = Some (SI_FAIL, trie)"
    using update_missing_fails [OF assms] by (auto simp: update_attempts.simps)
  then show ?thesis by (simp add: ct_update_def)
qed

theorem ct_insert_too_long:
  assumes "wf_kv (heap kv)" and "MAX_KEY_BYTES < unat (key_size (heap kv))"
  shows "ct_insert heap act trie kv = Some (S_KEYTOOLONG, trie)"
    and "ct_upsert heap act trie kv = Some (S_KEYTOOLONG, None, trie)"
  using assms unat_kv_key_size [OF assms(1)] by (simp_all add: ct_insert_def ct_upsert_def)

end
