(* ===== verification/FreshTrie.thy ===== *)
theory FreshTrie
  imports PointOps TableMap Alloc
begin

text \<open>
  A new trie: what \<open>ct_alloc\<close> returns satisfies the invariant of the table and holds no key;
  the first insertion creates the root. The memory of an anonymous mapping is zero.
\<close>

definition zero_bucket :: ct_bucket where
  "zero_bucket = \<lparr>cells = replicate 4 zero_entry, write_lock_and_seq = 0\<rparr>"

definition zero_mapping :: "(u64 \<Rightarrow> ct_bucket list option) \<Rightarrow> bool" where
  "zero_mapping os_mmap \<longleftrightarrow> (\<forall>n memory. os_mmap n = Some memory \<longrightarrow> memory = replicate (unat n div 64) zero_bucket)"

subsection \<open>Sizes\<close>

lemma unat_buckets_for:
  assumes "unat num_cells \<le> 2 ^ 33"
  shows "unat (buckets_for num_cells) = ((unat num_cells + 3) div 4 + 63) div 64 * 64"
proof -
  have a: "unat (num_cells + of_nat 4 - 1) = unat num_cells + 3"
    using assms by (simp add: unat_word_ariths)
  have b: "unat ((num_cells + of_nat 4 - 1) div of_nat 4) = (unat num_cells + 3) div 4"
    unfolding unat_div a by simp
  let ?n = "(num_cells + of_nat 4 - 1) div of_nat 4"
  have n: "(unat num_cells + 3) div 4 \<le> 2 ^ 32" using assms by simp
  have c: "unat (?n + of_nat (32 * 2) - 1) = (unat num_cells + 3) div 4 + 63"
    using n by (simp add: unat_word_ariths b)
  have d: "unat ((?n + of_nat (32 * 2) - 1) div of_nat (32 * 2)) = ((unat num_cells + 3) div 4 + 63) div 64"
    unfolding unat_div c by simp
  have "((unat num_cells + 3) div 4 + 63) div 64 * 64 < 2 ^ 64" using n by simp
  then show ?thesis using n by (simp add: buckets_for_def Let_def unat_word_ariths d)
qed

lemma buckets_for_bounds:
  assumes "0 < unat num_cells" and "unat num_cells \<le> 2 ^ 33"
  shows "0 < unat (buckets_for num_cells)" and "unat (buckets_for num_cells) \<le> 2 ^ 31 + 63"
    and "64 dvd unat (buckets_for num_cells)" and "unat num_cells \<le> 4 * unat (buckets_for num_cells)"
proof -
  define m where "m = (unat num_cells + 3) div 4"
  have m: "0 < m" "m \<le> 2 ^ 31" "unat num_cells \<le> 4 * m" using assms by (simp_all add: m_def)
  have n: "unat (buckets_for num_cells) = (m + 63) div 64 * 64" unfolding m_def by (rule unat_buckets_for [OF assms(2)])
  have "m \<le> (m + 63) div 64 * 64" by simp
  then show "0 < unat (buckets_for num_cells)" "unat (buckets_for num_cells) \<le> 2 ^ 31 + 63"
    "64 dvd unat (buckets_for num_cells)" "unat num_cells \<le> 4 * unat (buckets_for num_cells)"
    using m unfolding n by simp_all
qed

subsection \<open>The buckets of a new trie\<close>

lemma replicate_last_update: "(replicate (Suc n) x)[n := y] = replicate n x @ [y]"
  by (induction n) simp_all

definition min_leaf_entry :: ct_entry where
  "min_leaf_entry = zero_entry\<lparr>parent_color_and_flags := TYPE_LEAF, e_locator := zero_locator\<lparr>loc_primary_bucket := NO_BUCKET\<rparr>\<rparr>"

definition new_buckets :: "nat \<Rightarrow> ct_bucket list" where
  "new_buckets n = replicate n (init_bucket zero_bucket) @ [zero_bucket\<lparr>cells := (cells zero_bucket)[0 := min_leaf_entry]\<rparr>]"

lemma mapping_large_enough:
  assumes "unat n \<le> 2 ^ 31 + 63"
  shows "unat n + 1 \<le> unat (((n + 1) * 64 div HUGEPAGE_SIZE + 1) * HUGEPAGE_SIZE) div 64"
proof -
  have n1: "unat (n + 1) = unat n + 1" using assms by (simp add: unat_word_ariths)
  have a: "unat ((n + 1) * 64) = (unat n + 1) * 64" unfolding unat_word_ariths(2) n1 using assms by simp
  have b: "unat ((n + 1) * 64 div HUGEPAGE_SIZE) = (unat n + 1) * 64 div 0x200000" unfolding unat_div a by simp
  define q where "q = (unat n + 1) * 64 div 0x200000"
  have q: "q \<le> 2 ^ 17" using assms unfolding q_def by simp
  have c: "unat ((n + 1) * 64 div HUGEPAGE_SIZE + 1) = q + 1"
    unfolding unat_word_ariths(1) b q_def [symmetric] using q by simp
  have d: "unat (((n + 1) * 64 div HUGEPAGE_SIZE + 1) * HUGEPAGE_SIZE) = (q + 1) * 0x200000"
    unfolding unat_word_ariths(2) c using q by simp
  have "(unat n + 1) * 64 < (q + 1) * 0x200000"
    using div_mult_mod_eq [of "(unat n + 1) * 64" "0x200000 :: nat"] mod_less_divisor [of "0x200000" "(unat n + 1) * 64"]
    unfolding q_def [symmetric] by simp
  then show ?thesis unfolding d by simp
qed

lemma ct_alloc_result:
  assumes cells: "0 < unat num_cells" "unat num_cells \<le> 2 ^ 33"
    and mmap: "zero_mapping os_mmap" and alloc: "ct_alloc os_mmap os_malloc num_cells = Some trie"
  shows "buckets trie = new_buckets (unat (num_buckets trie))" and "num_buckets trie = buckets_for num_cells"
    and "is_empty trie" and "valid_table trie"
proof -
  define n where "n = buckets_for num_cells"
  note b = buckets_for_bounds [OF cells, folded n_def]
  let ?bytes = "((n + 1) * 64 div HUGEPAGE_SIZE + 1) * HUGEPAGE_SIZE"
  let ?t0 = "\<lparr>buckets = replicate (unat n + 1) zero_bucket, num_buckets = n, num_pairs = n * 2 ^ TAG_BITS,
    num_shuffle_blocks = drop_bit BITS_PER_SYMBOL (n * 2 ^ TAG_BITS), bucket_mix_table = [], is_empty = True\<rparr>"
  let ?head = "trie_min_leaf ?t0"
  let ?t1 = "set_cell ?t0 ?head ((cell ?t0 ?head)\<lparr>parent_color_and_flags := TYPE_LEAF\<rparr>)"
  let ?t2 = "set_cell ?t1 ?head ((cell ?t1 ?head)\<lparr>e_locator := (next_leaf (cell ?t1 ?head))\<lparr>loc_primary_bucket := - 1\<rparr>\<rparr>)"
  obtain memory where memory: "os_mmap ?bytes = Some memory"
    using alloc unfolding ct_alloc_def mmap_hugepage_def Let_def n_def [symmetric] by (cases "os_mmap ?bytes") auto
  then have "memory = replicate (unat ?bytes div 64) zero_bucket" using mmap by (simp add: zero_mapping_def)
  moreover note mapping_large_enough [OF b(2)]
  ultimately have taken: "take (unat n + 1) memory = replicate (unat n + 1) zero_bucket" by (simp only: take_replicate min.absorb1)
  have os_malloc: "os_malloc = True"
    using alloc unfolding ct_alloc_def mmap_hugepage_def Let_def n_def [symmetric] memory option.case by (cases os_malloc) simp_all
  have t: "trie = init_buckets (init_bucket_mix_table ?t2)"
    using alloc unfolding ct_alloc_def mmap_hugepage_def Let_def n_def [symmetric] memory option.case os_malloc taken
      not_True_eq_False if_False option.inject by (rule sym)
  have "valid_sizes ?t2"
    using b by (auto simp: valid_sizes_def set_cell_def)
  then have v: "valid_table (init_bucket_mix_table ?t2)" by (rule init_bucket_mix_table_valid)
  then show "valid_table trie" by (simp add: t init_buckets_def Let_def)
  show nb: "num_buckets trie = buckets_for num_cells" "is_empty trie"
    by (simp_all add: t init_buckets_def Let_def init_bucket_mix_table_def set_cell_def n_def)
  have "buckets ?t2 = replicate (unat n) zero_bucket @ [zero_bucket\<lparr>cells := (cells zero_bucket)[0 := min_leaf_entry]\<rparr>]"
    by (simp add: set_cell_def cell_def trie_min_leaf_def min_leaf_entry_def zero_bucket_def zero_entry_def
      replicate_last_update nth_append list_update_append del: replicate.simps)
  then show "buckets trie = new_buckets (unat (num_buckets trie))"
    unfolding nb(1) n_def [symmetric]
    by (simp add: t init_buckets_def Let_def init_bucket_mix_table_def set_cell_def new_buckets_def)
qed

subsection \<open>The invariants of a new trie\<close>

lemma init_cell:
  "cells (init_bucket zero_bucket) = replicate 4 (zero_entry\<lparr>parent_color_and_flags := 0x90, color_and_tag := 0x90\<rparr>)"
  "write_lock_and_seq (init_bucket zero_bucket) = 0"
proof -
  have "(push_bit PARENT_COLOR_SHIFT INVALID_COLOR OR TYPE_UNUSED :: u8) = 0x90" "(push_bit TAG_BITS INVALID_COLOR :: u8) = 0x90"
    by code_simp+
  then show "cells (init_bucket zero_bucket) = replicate 4 (zero_entry\<lparr>parent_color_and_flags := 0x90, color_and_tag := 0x90\<rparr>)"
    by (simp add: init_bucket_def zero_bucket_def)
  show "write_lock_and_seq (init_bucket zero_bucket) = 0" by (simp add: init_bucket_def)
qed

lemma init_entry:
  "entry_type (zero_entry\<lparr>parent_color_and_flags := 0x90, color_and_tag := 0x90\<rparr>) = TYPE_UNUSED"
  "entry_color (zero_entry\<lparr>parent_color_and_flags := 0x90, color_and_tag := 0x90\<rparr>) = INVALID_COLOR"
  "entry_parent_color (zero_entry\<lparr>parent_color_and_flags := 0x90, color_and_tag := 0x90\<rparr>) = INVALID_COLOR"
  "wf_entry (zero_entry\<lparr>parent_color_and_flags := 0x90, color_and_tag := 0x90\<rparr>)"
  by code_simp+

lemma min_leaf_entry_ok: "wf_entry min_leaf_entry" "entry_type min_leaf_entry = TYPE_LEAF"
  by code_simp+

text \<open>A trie without keys and without locks of this thread.\<close>

definition fresh_trie :: "nat set \<Rightarrow> cuckoo_trie \<Rightarrow> bool" where
  "fresh_trie others trie \<longleftrightarrow> table_inv trie \<and> table_content trie = {#} \<and> is_empty trie \<and>
     cell trie (trie_min_leaf trie) = min_leaf_entry \<and> unat (num_buckets trie) < 2 ^ 32 \<and> locks_ok others (trie, init_lock_mgr)"

theorem ct_alloc_fresh:
  assumes cells: "0 < unat num_cells" "unat num_cells \<le> 2 ^ 33"
    and mmap: "zero_mapping os_mmap" and alloc: "ct_alloc os_mmap os_malloc num_cells = Some trie"
  shows "fresh_trie {} trie" and "unat num_cells \<le> card (table_cells trie)"
proof -
  note a = ct_alloc_result [OF assms]
  define n where "n = unat (num_buckets trie)"
  have bs: "buckets trie = new_buckets n" using a(1) by (simp add: n_def)
  have cell: "cell trie p = zero_entry\<lparr>parent_color_and_flags := 0x90, color_and_tag := 0x90\<rparr>" if "p \<in> table_cells trie" for p
    using that by (auto simp: cell_def bs new_buckets_def nth_append init_cell table_cells_def simp flip: n_def)
  have word: "bucket_word trie b = 0" if "b \<le> n" for b
    using that by (auto simp: bucket_word_def bs new_buckets_def nth_append init_bucket_def zero_bucket_def le_less)
  have len: "length (buckets trie) = n + 1" by (simp add: bs new_buckets_def)
  have "table_ok trie"
    unfolding table_ok_cells n_def [symmetric]
  proof (intro conjI allI impI ballI)
    show "valid_table trie" by (rule a(4))
    show "length (buckets trie) = n + 1" by (rule len)
    fix b assume "b \<le> n"
    then show "length (cells (buckets trie ! b)) = 4" "at_rest (bucket_word trie b)"
      by (auto simp: word at_rest_def bs new_buckets_def nth_append init_bucket_def zero_bucket_def)
    fix i :: nat assume "i < 4"
    then show "wf_entry (cell trie (b, i))"
    proof (cases "b = n")
      case True
      have "wf_entry zero_entry" by code_simp
      then show ?thesis using True \<open>i < 4\<close> min_leaf_entry_ok
        by (auto simp: cell_def bs new_buckets_def zero_bucket_def nth_append nth_list_update_if)
    next
      case False
      then show ?thesis using \<open>b \<le> n\<close> \<open>i < 4\<close> cell [of "(b, i)"] init_entry by (simp add: table_cells_def n_def)
    qed
  next
    fix p assume "p \<in> table_cells trie"
    then show "marked_if_unused (cell trie p)" by (simp add: cell init_entry marked_if_unused_def)
  qed
  moreover have content: "table_content trie = {#}"
    unfolding table_content_def by (intro sum.neutral) (auto simp: cell cell_content_def init_entry)
  ultimately have "table_inv trie" by (simp add: table_inv_def distinct_slots_def valid_colors_def)
  moreover have "cell trie (trie_min_leaf trie) = min_leaf_entry"
    by (simp add: cell_def trie_min_leaf_def bs new_buckets_def zero_bucket_def nth_append flip: n_def)
  moreover have "unat (num_buckets trie) < 2 ^ 32" using buckets_for_bounds(2) [OF cells] a(2) by simp
  moreover have "locks_ok {} (trie, init_lock_mgr)"
    using word by (auto simp: locks_ok_def init_lock_mgr_def wf_mgr_def held_def len lock_byte_def)
  ultimately show "fresh_trie {} trie" using content a(3) by (simp add: fresh_trie_def)
  show "unat num_cells \<le> card (table_cells trie)"
    using buckets_for_bounds(4) [OF cells] by (simp add: table_cells_def card_cartesian_product a(2))
qed

subsection \<open>The first key\<close>

text \<open>The content and the invariant depend neither on the lock bytes nor on the minimal leaf.\<close>

lemma table_inv_unlocked:
  assumes u: "unlocked t = unlocked t'" and inv: "table_inv t'"
  shows "table_inv t" and "table_content t = table_content t'"
proof -
  have ok: "table_ok t" by (rule table_ok_unlocked [OF u table_invD(1) [OF inv]])
  show c: "table_content t = table_content t'" by (rule content_unlocked [OF u table_okD(3) [OF ok]])
  show "table_inv t" using ok inv c by (simp add: table_inv_def)
qed

lemma set_min_leaf:
  assumes inv: "table_inv t" and e: "wf_entry e"
  defines "t' \<equiv> set_cell t (trie_min_leaf t) e"
  shows "table_inv t'" and "table_content t' = table_content t" and "p \<in> table_cells t \<Longrightarrow> cell t' p = cell t p"
    and "cell t' (trie_min_leaf t) = e"
proof -
  note ok = table_invD(1) [OF inv]
  have v: "valid_ptr t (trie_min_leaf t)"
    using table_okD(3) [OF ok] table_okD(5) [OF ok order_refl] by (simp add: valid_ptr_def trie_min_leaf_def wf_bucket_def)
  show c: "cell t' p = cell t p" if "p \<in> table_cells t" for p
    using that v by (auto simp: t'_def table_simps trie_min_leaf_def table_cells_def)
  show "cell t' (trie_min_leaf t) = e" using v by (simp add: t'_def table_simps)
  have cells: "table_cells t' = table_cells t" by (simp add: table_cells_def t'_def table_simps)
  have home: "cell_content t' = cell_content t" by (simp add: fun_eq_iff cell_content_def home_def t'_def table_simps)
  show content: "table_content t' = table_content t" unfolding table_content_def cells home using c by simp
  have "cell t' p = (if p = trie_min_leaf t then e else cell t p)" for p using v by (simp add: t'_def table_simps)
  moreover have "valid_table t'" "length (buckets t') = length (buckets t)" "num_buckets t' = num_buckets t"
    "length (cells (buckets t' ! b)) = length (cells (buckets t ! b))" "bucket_word t' b = bucket_word t b" for b
    using table_okD(2) [OF ok] by (simp_all add: t'_def table_simps)
  ultimately have "table_ok t'"
    using ok e c unfolding table_ok_cells cells by auto
  then show "table_inv t'" using inv content by (simp add: table_inv_def)
qed

lemma table_inv_nonempty: "table_inv (t\<lparr>is_empty := b\<rparr>) = table_inv t" "table_content (t\<lparr>is_empty := b\<rparr>) = table_content t"
proof -
  have *: "cell (t\<lparr>is_empty := b\<rparr>) = cell t" "table_cells (t\<lparr>is_empty := b\<rparr>) = table_cells t"
    "cell_content (t\<lparr>is_empty := b\<rparr>) = cell_content t" "bucket_word (t\<lparr>is_empty := b\<rparr>) = bucket_word t"
    by (simp_all add: fun_eq_iff cell_def table_cells_def cell_content_def home_def bucket_word_def)
  show c: "table_content (t\<lparr>is_empty := b\<rparr>) = table_content t" by (simp add: table_content_def *)
  show "table_inv (t\<lparr>is_empty := b\<rparr>) = table_inv t" unfolding table_inv_def table_ok_cells * c by simp
qed

lemma read_entry_at_rest:
  assumes "table_ok t" and "fst p \<le> unat (num_buckets t)"
  shows "read_entry t p = Some (cell t p, bucket_word t (fst p))"
  using table_okD(6) [OF assms] by (subst read_entry.simps) (simp add: at_rest_def Let_def)

definition root_leaf :: "u64 \<Rightarrow> ct_entry" where
  "root_leaf kv =
     (entry_set_kv (zero_entry\<lparr>parent_color_and_flags := 0x91, color_and_tag := 0\<rparr>) kv)\<lparr>e_locator :=
        zero_locator\<lparr>loc_primary_bucket := NO_BUCKET\<rparr>\<rparr>"

lemma root_leaf_props:
  shows "wf_entry (root_leaf kv)" and "entry_type (root_leaf kv) = TYPE_LEAF" and "entry_color (root_leaf kv) = ROOT_COLOR"
    and "entry_tag (root_leaf kv) = 0" and "erase_side (root_leaf kv) = root_leaf kv" and "\<not> entry_is_secondary (root_leaf kv)"
    and "canonical_address kv \<Longrightarrow> entry_kv (root_leaf kv) = kv"
proof -
  have c: "(0x91 AND 3 :: u8) = 1" "(0x91 AND NOT 4 :: u8) = 0x91" "(0x91 AND 4 :: u8) = 0" by code_simp+
  show wf: "wf_entry (root_leaf kv)" by (simp add: root_leaf_def wf_entry_def entry_set_kv_def Let_def)
  show "entry_type (root_leaf kv) = TYPE_LEAF" "entry_color (root_leaf kv) = ROOT_COLOR" "entry_tag (root_leaf kv) = 0"
    by (simp_all add: root_leaf_def entry_set_kv_def Let_def entry_type_def entry_color_def entry_tag_def c)
  show "erase_side (root_leaf kv) = root_leaf kv" by (simp add: erase_side_def root_leaf_def entry_set_kv_def Let_def c)
  show "\<not> entry_is_secondary (root_leaf kv)" by (simp add: entry_is_secondary_def root_leaf_def entry_set_kv_def Let_def c)
  have "root_leaf kv = entry_set_kv (zero_entry\<lparr>parent_color_and_flags := 0x91, color_and_tag := 0,
      e_locator := zero_locator\<lparr>loc_primary_bucket := NO_BUCKET\<rparr>\<rparr>) kv"
    by (simp add: root_leaf_def entry_set_kv_def Let_def)
  moreover have "wf_entry (zero_entry\<lparr>parent_color_and_flags := 0x91, color_and_tag := 0,
      e_locator := zero_locator\<lparr>loc_primary_bucket := NO_BUCKET\<rparr>\<rparr>)" by code_simp
  ultimately show "canonical_address kv \<Longrightarrow> entry_kv (root_leaf kv) = kv" by (simp only: entry_kv_set_kv)
qed

lemma locks_ok_set:
  "locks_ok others (set_cell t p e, m) = locks_ok others (t, m)"
  "locks_ok others (t\<lparr>is_empty := b\<rparr>, m) = locks_ok others (t, m)"
  by (simp_all add: locks_ok_def table_simps) (simp add: bucket_word_def)

text \<open>The root as the code builds it.\<close>

lemma root_of_code:
  "(entry_set_kv (zero_entry\<lparr>parent_color_and_flags := push_bit PARENT_COLOR_SHIFT INVALID_COLOR OR TYPE_LEAF,
     color_and_tag := push_bit TAG_BITS ROOT_COLOR OR ucast (hash_to_tag HASH_START_VALUE)\<rparr>) kv)\<lparr>e_locator :=
     (next_leaf (entry_set_kv (zero_entry\<lparr>parent_color_and_flags := push_bit PARENT_COLOR_SHIFT INVALID_COLOR OR TYPE_LEAF,
     color_and_tag := push_bit TAG_BITS ROOT_COLOR OR ucast (hash_to_tag HASH_START_VALUE)\<rparr>) kv))\<lparr>loc_primary_bucket := - 1\<rparr>\<rparr> = root_leaf kv"
proof -
  have "(push_bit PARENT_COLOR_SHIFT INVALID_COLOR OR TYPE_LEAF :: u8) = 0x91" by code_simp
  moreover have "(push_bit TAG_BITS ROOT_COLOR OR ucast (hash_to_tag HASH_START_VALUE) :: u8) = 0" by code_simp
  ultimately show ?thesis by (simp add: root_leaf_def entry_set_kv_def Let_def zero_entry_def)
qed

text \<open>The minimal leaf when the root is the first leaf.\<close>

definition first_min_leaf :: ct_entry where
  "first_min_leaf = min_leaf_entry\<lparr>e_locator := \<lparr>loc_primary_bucket = 0, loc_tag = 0, loc_color = ROOT_COLOR\<rparr>\<rparr>"

theorem create_root_ok:
  assumes fresh: "fresh_trie others trie" and free: "0 \<notin> others"
  shows "\<exists>trie'. create_root (trie, init_lock_mgr) kv = Some (SI_OK, trie', []) \<and> table_inv trie' \<and>
    table_content trie' = {#(0, root_leaf kv)#} \<and> cell trie' (0, 0) = root_leaf kv \<and> \<not> is_empty trie' \<and>
    locks_ok others (trie', []) \<and> num_buckets trie' = num_buckets trie \<and> cell trie' (trie_min_leaf trie') = first_min_leaf"
proof -
  note f = fresh [unfolded fresh_trie_def init_lock_mgr_def]
  note ok = table_invD(1) [OF conjunct1 [OF f]]
  obtain lock t1 m1 where wl: "write_lock_bucket (trie, []) 0 = (lock, t1, m1)"
    by (metis prod_cases3)
  have nb: "0 < unat (num_buckets trie)" using table_okD(2) [OF ok] by (auto simp: valid_table_def valid_sizes_def)
  then have len: "0 < length (buckets trie)" using table_okD(3) [OF ok] by simp
  note w = write_lock_bucket_ok [OF _ len wl, of others, unfolded fst_conv snd_conv]
  have lok: "locks_ok others (trie, [])" using f by blast
  have "lock \<noteq> None" using w(3) [OF lok] free by blast
  have u1: "unlocked t1 = unlocked trie" by (rule w(2) [OF lok])
  have l1: "locks_ok others (t1, m1)" by (rule w(1) [OF lok])
  have inv1: "table_inv t1" "table_content t1 = {#}" using table_inv_unlocked [OF u1] f by auto
  have nb1: "num_buckets t1 = num_buckets trie" "is_empty t1 = is_empty trie" using unlocked_fields [OF u1] by simp_all
  have p: "(0, 0) \<in> table_cells t1" using nb nb1 by (simp add: table_cells_def)
  have unused: "entry_type (cell t1 (0, 0)) = TYPE_UNUSED"
    using inv1(2) p content_member [of "(home t1 0 (cell t1 (0, 0)), erase_side (cell t1 (0, 0)))" t1] by auto
  note ok1 = table_invD(1) [OF inv1(1)]
  let ?r = "root_leaf kv"
  note r = root_leaf_props [of kv]
  let ?t2 = "snd (write_entry t1 (0, 0) ?r)"
  have c2: "cell ?t2 q = (if q = (0, 0) then ?r else cell t1 q)" for q by (rule cell_write_entry [OF ok1 p r(1)])
  have h0: "home t1 0 ?r = 0" using r(6) by (simp add: home_def)
  have w2: "table_inv ?t2" "table_content ?t2 = add_mset (home t1 0 ?r, erase_side ?r) {#}"
    using write_free_cell [OF inv1(1) p unused r(1)] r(2,3) inv1(2) by simp_all
  have inv2: "table_inv ?t2" and content2: "table_content ?t2 = {#(0, ?r)#}" using w2 h0 r(5) by simp_all
  have nb2: "num_buckets ?t2 = num_buckets trie" using nb1 by simp
  let ?head = "trie_min_leaf ?t2"
  let ?e = "(cell ?t2 ?head)\<lparr>e_locator := \<lparr>loc_primary_bucket = 0, loc_tag = 0, loc_color = ROOT_COLOR\<rparr>\<rparr>"
  have head: "cell ?t2 ?head = min_leaf_entry"
  proof -
    have "?head \<noteq> (0, 0)" using nb by (simp add: trie_min_leaf_def nb1)
    then have "cell ?t2 ?head = cell t1 ?head" using c2 by simp
    also have "\<dots> = cell trie (trie_min_leaf trie)"
      using unlocked_cell [OF u1, of ?head] table_okD(3) [OF ok1] by (simp add: trie_min_leaf_def nb1)
    finally show ?thesis using f by simp
  qed
  then have e: "?e = first_min_leaf" by (simp add: first_min_leaf_def)
  then have wf_head: "wf_entry ?e" using min_leaf_entry_ok by (simp add: first_min_leaf_def wf_entry_def)
  note m = set_min_leaf [OF inv2 wf_head]
  let ?t3 = "set_cell ?t2 ?head ?e" and ?t4 = "(set_cell ?t2 ?head ?e)\<lparr>is_empty := False\<rparr>"
  have inv4: "table_inv ?t4" "table_content ?t4 = {#(0, ?r)#}" using m(1,2) content2 by (simp_all add: table_inv_nonempty)
  have "locks_ok others (?t2, m1)" by (rule locks_ok_write_entry [OF l1])
  then have l4: "locks_ok others (?t4, m1)" by (simp add: locks_ok_set)
  note rel = release_all_locks_ok [OF l4]
  obtain t5 where eq5: "release_all_locks (?t4, m1) = (t5, [])" using rel(3) by (metis prod.collapse)
  then have u5: "unlocked t5 = unlocked ?t4" using rel(2) by simp
  have inv5: "table_inv t5" "table_content t5 = {#(0, ?r)#}" using table_inv_unlocked [OF u5] inv4 by simp_all
  have len5: "0 < length (buckets t5)"
    using unlocked_eqD(1) [OF u5] table_okD(3) [OF table_invD(1) [OF inv4(1)]] by linarith
  have "cell t5 (0, 0) = cell ?t4 (0, 0)" by (rule unlocked_cell [OF u5, of "(0, 0)", unfolded fst_conv, OF len5])
  moreover have "cell ?t4 (0, 0) = ?r"
  proof -
    have "cell ?t4 (0, 0) = cell ?t3 (0, 0)" by (simp add: cell_def)
    also have "\<dots> = cell ?t2 (0, 0)" by (rule m(3)) (use nb in \<open>simp add: table_cells_def nb1\<close>)
    finally show ?thesis using c2 by simp
  qed
  moreover have nb5: "num_buckets t5 = num_buckets trie" using unlocked_fields(1) [OF u5] nb2 by (simp add: table_simps)
  moreover have "cell t5 (trie_min_leaf t5) = first_min_leaf"
  proof -
    have hd5: "trie_min_leaf t5 = ?head" using nb5 nb2 by (simp add: trie_min_leaf_def)
    have "fst ?head < length (buckets t5)"
      using unlocked_eqD(1) [OF u5] table_okD(3) [OF table_invD(1) [OF inv4(1)]] nb2 by (simp add: trie_min_leaf_def table_simps)
    then have "cell t5 ?head = cell ?t4 ?head" by (rule unlocked_cell [OF u5])
    also have "\<dots> = cell ?t3 ?head" by (simp add: cell_def)
    finally show ?thesis using m(4) e hd5 by simp
  qed
  moreover have "\<not> is_empty t5" using unlocked_fields(7) [OF u5] by simp
  moreover have "create_root (trie, init_lock_mgr) kv = Some (SI_OK, t5, [])"
  proof -
    have "(lock = None) = False" "is_empty t1 = True" "write_lock_bucket (trie, []) (unat (0 :: u64)) = (lock, t1, m1)"
      using \<open>lock \<noteq> None\<close> f nb1 wl by simp_all
    then show ?thesis
      unfolding create_root_def Let_def init_lock_mgr_def unfolding root_of_code unfolding start_hash
      by (simp only: prod.case if_False simp_thms unsigned_0 eq5)
  qed
  moreover have "locks_ok others (t5, [])" using rel(1) unfolding eq5 .
  ultimately show ?thesis using inv5 by (intro exI [of _ t5] conjI) simp_all
qed

text \<open>A trie with a leaf as its root holds one key.\<close>

lemma root_leaf_holds:
  assumes inv: "table_inv trie" and root: "cell trie (0, 0) = root_leaf kv" and ne: "\<not> is_empty trie"
    and kv: "canonical_address kv" "wf_kv (heap kv)"
  shows "trie_holds heap trie {kv}"
proof -
  have "find_root trie = Some \<lparr>lc_value = root_leaf kv, last_pos = (0, 0), lc_primary_bucket = 0, last_seq = bucket_word trie 0\<rparr>"
    using read_entry_at_rest [OF table_invD(1) [OF inv], of "(0, 0)"] root
    unfolding find_root_def Let_def start_hash by simp
  moreover have "represents heap trie [] (root_leaf kv) {entry_kv (root_leaf kv)}"
    using root_leaf_props(2,7) [of kv] kv by (intro rep_leaf) simp_all
  ultimately show ?thesis using ne root_leaf_props(7) [OF kv(1)] by (simp add: trie_holds_def)
qed

lemma insert_first:
  assumes fresh: "fresh_trie others trie" and free: "0 \<notin> others"
    and kv: "canonical_address kv" "unat (key_size (heap kv)) \<le> MAX_KEY_BYTES" "wf_kv (heap kv)"
  shows "\<exists>trie'. ct_insert heap act trie kv = Some (S_OK, trie') \<and> table_inv trie' \<and>
    table_content trie' = {#(0, root_leaf kv)#} \<and> cell trie' (0, 0) = root_leaf kv \<and> \<not> is_empty trie' \<and>
    locks_ok others (trie', []) \<and> num_buckets trie' = num_buckets trie \<and> cell trie' (trie_min_leaf trie') = first_min_leaf"
proof -
  obtain trie' where c: "create_root (trie, init_lock_mgr) kv = Some (SI_OK, trie', [])" "table_inv trie'"
    "table_content trie' = {#(0, root_leaf kv)#}" "cell trie' (0, 0) = root_leaf kv" "\<not> is_empty trie'"
    "locks_ok others (trie', [])" "num_buckets trie' = num_buckets trie" "cell trie' (trie_min_leaf trie') = first_min_leaf" using create_root_ok [OF fresh free] by blast
  obtain f where "init_finger trie = Some (None, f)" using init_finger_empty fresh by (auto simp: fresh_trie_def)
  then have "ct_insert_internal heap trie kv False = Some (SI_OK, trie', [])" by (simp add: ct_insert_internal_def c(1))
  then have "insert_attempts heap act 0 trie kv False = Some (SI_OK, trie')" by (simp add: insert_attempts.simps)
  then have "ct_insert heap act trie kv = Some (S_OK, trie')"
    using kv unat_kv_key_size [OF kv(3)] by (simp add: ct_insert_def)
  then show ?thesis using c by blast
qed

theorem ct_insert_first:
  assumes fresh: "fresh_trie others trie" and free: "0 \<notin> others"
    and kv: "canonical_address kv" "wf_kv (heap kv)" "unat (key_size (heap kv)) \<le> MAX_KEY_BYTES"
  shows "\<exists>trie'. ct_insert heap act trie kv = Some (S_OK, trie') \<and> trie_holds heap trie' {kv} \<and>
    table_inv trie' \<and> table_content trie' = {#(0, root_leaf kv)#} \<and> locks_ok others (trie', [])"
  using insert_first [where heap = heap and act = act, OF fresh free kv(1,3,2)] root_leaf_holds [where heap = heap] kv by blast

end
