(* ===== verification/Paths.thy ===== *)
theory Paths
  imports Prefetch "HOL-Library.Sublist"
begin

text \<open>
  Two computations on paths: the search for the child to the left of the path, from which
  the predecessor of a key is found, and the common part of two keys, from which
  \<open>split_leaf\<close> builds the nodes that replace a leaf.
\<close>

subsection \<open>The child to the left of a path\<close>

text \<open>
  The path goes through the child \<open>path_symbol\<close> of the node at each position; at the last
  position this is the symbol the search starts with.
\<close>

definition path_symbol :: "ct_path_entry list \<Rightarrow> nat \<Rightarrow> nat \<Rightarrow> nat \<Rightarrow> nat" where
  "path_symbol path end_pos symbol pos = (if pos = end_pos then symbol else unat (e_last_symbol (node_at path (pos + 1))))"

definition child_left_of :: "ct_entry \<Rightarrow> nat \<Rightarrow> nat \<Rightarrow> bool" where
  "child_left_of node symbol s \<longleftrightarrow> s < symbol \<and> get_bit (drop 3 (entry_bytes node)) s \<and>
     (\<forall>t. s < t \<and> t < symbol \<longrightarrow> \<not> get_bit (drop 3 (entry_bytes node)) t)"

definition no_child_left_of :: "ct_entry \<Rightarrow> nat \<Rightarrow> bool" where
  "no_child_left_of node symbol \<longleftrightarrow> (\<forall>s. s < symbol \<longrightarrow> \<not> get_bit (drop 3 (entry_bytes node)) s)"

lemma bitmap_child_before_cases:
  assumes "symbol < 64"
  shows "bitmap_child_before node symbol = - 1 \<and> no_child_left_of node symbol \<or>
    (\<exists>s. bitmap_child_before node symbol = int s \<and> child_left_of node symbol s)"
proof (cases "no_child_left_of node symbol")
  case True
  then show ?thesis using last_bit_before_props(1) [OF assms]
    by (simp add: bitmap_child_before_def no_child_left_of_def)
next
  case False
  let ?P = "\<lambda>s. s < symbol \<and> get_bit (drop 3 (entry_bytes node)) s"
  define m where "m = Max {s. ?P s}"
  have "finite {s. ?P s}" "{s. ?P s} \<noteq> {}" using False by (auto simp: no_child_left_of_def)
  then have m: "?P m" "\<And>t. ?P t \<Longrightarrow> t \<le> m"
    unfolding m_def using Max_in [of "{s. ?P s}"] Max_ge [of "{s. ?P s}"] by auto
  have none: "\<not> get_bit (drop 3 (entry_bytes node)) t" if "m < t" "t < symbol" for t
    using m(2) [of t] that by linarith
  have "child_left_of node symbol m" using m(1) none by (simp add: child_left_of_def)
  moreover have "bitmap_child_before node symbol = int m"
    unfolding bitmap_child_before_def using m(1) none by (intro last_bit_before_props(2) [OF assms]) blast+
  ultimately show ?thesis by blast
qed

lemma bitmap_above_Some:
  "bitmap_above path pos = Some q \<Longrightarrow> q < pos \<and> entry_type (node_at path q) = TYPE_BITMAP \<and>
     (\<forall>r. q < r \<and> r < pos \<longrightarrow> entry_type (node_at path r) \<noteq> TYPE_BITMAP)"
  by (induction pos) (auto split: if_splits simp: less_Suc_eq)

lemma bitmap_above_None:
  "bitmap_above path pos = None \<Longrightarrow> \<forall>r<pos. entry_type (node_at path r) \<noteq> TYPE_BITMAP"
  by (induction pos) (auto split: if_splits simp: less_Suc_eq)

text \<open>
  The search ends at the lowest position with a child to the left of the path; at the first
  position the node is taken whatever its type, above it only bitmaps count.
\<close>

definition left_edge :: "ct_path_entry list \<Rightarrow> nat \<Rightarrow> nat \<Rightarrow> nat \<Rightarrow> bool" where
  "left_edge path pos symbol r \<longleftrightarrow>
     (r = pos \<or> entry_type (node_at path r) = TYPE_BITMAP \<longrightarrow> no_child_left_of (node_at path r) (path_symbol path pos symbol r))"

theorem find_left_descend_correct:
  assumes "symbol < 64" and "\<forall>r\<le>pos. unat (e_last_symbol (node_at path r)) < 64"
  shows "case find_left_descend path pos symbol of
      None \<Rightarrow> \<forall>r\<le>pos. left_edge path pos symbol r
    | Some (q, s) \<Rightarrow> q \<le> pos \<and> (q = pos \<or> entry_type (node_at path q) = TYPE_BITMAP) \<and>
        child_left_of (node_at path q) (path_symbol path pos symbol q) s \<and> (\<forall>r. q < r \<and> r \<le> pos \<longrightarrow> left_edge path pos symbol r)"
  using assms
proof (induction path pos symbol rule: find_left_descend.induct)
  case (1 path pos symbol)
  let ?b = "bitmap_child_before (node_at path pos) symbol"
  from bitmap_child_before_cases [OF 1(2), of "node_at path pos"] show ?case
  proof
    assume "\<exists>s. ?b = int s \<and> child_left_of (node_at path pos) symbol s"
    then obtain s where s: "?b = int s" "child_left_of (node_at path pos) symbol s" by blast
    then have "find_left_descend path pos symbol = Some (pos, s)" by (subst find_left_descend.simps) simp
    then show ?thesis using s(2) by (auto simp: path_symbol_def)
  next
    assume none: "?b = - 1 \<and> no_child_left_of (node_at path pos) symbol"
    show ?thesis
    proof (cases "bitmap_above path pos")
      case None
      have "find_left_descend path pos symbol = None" using none None by (subst find_left_descend.simps) simp
      moreover have "left_edge path pos symbol r" if "r \<le> pos" for r
        using none bitmap_above_None [OF None] that by (cases "r = pos") (auto simp: left_edge_def path_symbol_def)
      ultimately show ?thesis by simp
    next
      case (Some q)
      note q = bitmap_above_Some [OF Some]
      let ?s = "unat (e_last_symbol (node_at path (q + 1)))"
      have eq: "find_left_descend path pos symbol = find_left_descend path q ?s"
        using none Some by (subst find_left_descend.simps) simp
      have ps: "path_symbol path q ?s r = path_symbol path pos symbol r" if "r \<le> q" for r
        using that q by (auto simp: path_symbol_def)
      have le: "left_edge path pos symbol r = left_edge path q ?s r" if "r \<le> q" for r
        using that q ps [OF that] by (auto simp: left_edge_def)
      have above: "left_edge path pos symbol r" if "q < r" "r \<le> pos" for r
        using none q that by (cases "r = pos") (auto simp: left_edge_def path_symbol_def)
      have less: "?s < 64" "\<forall>r\<le>q. unat (e_last_symbol (node_at path r)) < 64" using 1(3) q by auto
      have IH: "case find_left_descend path q ?s of
          None \<Rightarrow> \<forall>r\<le>q. left_edge path q ?s r
        | Some (q', s) \<Rightarrow> q' \<le> q \<and> (q' = q \<or> entry_type (node_at path q') = TYPE_BITMAP) \<and>
            child_left_of (node_at path q') (path_symbol path q ?s q') s \<and> (\<forall>r. q' < r \<and> r \<le> q \<longrightarrow> left_edge path q ?s r)"
        using 1(1) [OF refl _ Some less] none by simp
      show ?thesis
      proof (cases "find_left_descend path q ?s")
        case none': None
        have "\<forall>r\<le>q. left_edge path q ?s r" using IH unfolding none' by (simp only: option.case)
        then have "left_edge path pos symbol r" if "r \<le> pos" for r
          using le [of r] above [of r] that by (cases "r \<le> q") auto
        then show ?thesis using eq none' by simp
      next
        case (Some a)
        then obtain q' s where a: "find_left_descend path q ?s = Some (q', s)" by (cases a) auto
        have *: "q' \<le> q" "q' = q \<or> entry_type (node_at path q') = TYPE_BITMAP"
          "child_left_of (node_at path q') (path_symbol path q ?s q') s" "\<And>r. q' < r \<Longrightarrow> r \<le> q \<Longrightarrow> left_edge path q ?s r"
          using IH unfolding a option.case prod.case by blast+
        have "left_edge path pos symbol r" if "q' < r" "r \<le> pos" for r
          using *(4) [of r] le [of r] above [of r] that by (cases "r \<le> q") auto
        then have "\<forall>r. q' < r \<and> r \<le> pos \<longrightarrow> left_edge path pos symbol r" by blast
        moreover have "child_left_of (node_at path q') (path_symbol path pos symbol q') s"
          using *(3) unfolding ps [OF *(1)] .
        moreover have "q' \<le> pos" "q' = pos \<or> entry_type (node_at path q') = TYPE_BITMAP" using *(1,2) q by auto
        ultimately show ?thesis unfolding eq a option.case prod.case by blast
      qed
    qed
  qed
qed

subsection \<open>The common part of two keys\<close>

lemma get_string_symbol_take: "get_string_symbol n (take n bytes) i = get_string_symbol n bytes i"
  by (simp add: get_string_symbol_def Let_def byte_at_def)

lemma get_key_symbol_nth:
  assumes "wf_kv kv" and "i < num_key_symbols (length (kv_key kv))"
  shows "get_key_symbol kv i = key_symbols (kv_key kv) ! i"
proof -
  have n: "length (kv_key kv) = unat (key_size kv)" "unat (kv_key_size kv) = unat (key_size kv)"
    using assms(1) unat_kv_key_size by (simp_all add: kv_key_def wf_kv_def)
  then have "get_key_symbol kv i = get_string_symbol (length (kv_key kv)) (take (length (kv_key kv)) (kv_bytes kv)) i"
    by (simp add: get_key_symbol_def get_string_symbol_take)
  then show ?thesis using assms(2) n by (simp add: key_symbols_nth kv_key_def)
qed

text \<open>
  The nodes built for a list of symbols, from the hash of the prefix before them and the
  symbol before them: eight symbols per node, each node with the hash, the tag and the last
  symbol of its own prefix.
\<close>

definition path_node_ok :: "cuckoo_trie \<Rightarrow> u64 \<Rightarrow> u64 \<Rightarrow> u64 list \<Rightarrow> nat \<Rightarrow> path_node \<Rightarrow> bool" where
  "path_node_ok trie s0 h0 syms i node \<longleftrightarrow>
     wf_entry (fst node) \<and> entry_type (fst node) = TYPE_JUMP \<and>
     jump_symbols (fst node) = take 8 (drop (8 * i) syms) \<and>
     snd node = foldl (accumulate_hash trie) h0 (take (8 * i) syms) \<and>
     e_last_symbol (fst node) = ucast (last (s0 # take (8 * i) syms)) \<and>
     color_and_tag (fst node) = ucast (hash_to_tag (snd node))"

definition path_ok :: "cuckoo_trie \<Rightarrow> u64 \<Rightarrow> u64 \<Rightarrow> path_node list \<Rightarrow> u64 list \<Rightarrow> bool" where
  "path_ok trie s0 h0 nodes syms \<longleftrightarrow>
     length nodes = (length syms + 7) div 8 \<and> (\<forall>i<length nodes. path_node_ok trie s0 h0 syms i (nodes ! i))"

lemma extend_fields [simp]:
  "entry_type (extend_jump_node e s) = entry_type e" "e_last_symbol (extend_jump_node e s) = e_last_symbol e"
  "color_and_tag (extend_jump_node e s) = color_and_tag e"
  by (simp_all add: extend_jump_node_def Let_def entry_type_def)

lemma new_jump_node_props:
  "wf_entry (new_jump_node s h)" "entry_type (new_jump_node s h) = TYPE_JUMP" "jump_symbols (new_jump_node s h) = []"
  "entry_jump_size (new_jump_node s h) = 0"
  "e_last_symbol (new_jump_node s h) = ucast s" "color_and_tag (new_jump_node s h) = ucast (hash_to_tag h)"
proof -
  have "(push_bit PARENT_COLOR_SHIFT INVALID_COLOR OR TYPE_JUMP :: u8) AND TYPE_MASK = TYPE_JUMP" by code_simp
  then show "entry_type (new_jump_node s h) = TYPE_JUMP" by (simp add: new_jump_node_def entry_type_def)
  show "entry_jump_size (new_jump_node s h) = 0" by (simp add: new_jump_node_def entry_jump_size_def)
  then show "jump_symbols (new_jump_node s h) = []" by (simp add: jump_symbols_def)
qed (simp_all add: new_jump_node_def wf_entry_def zero_entry_def)

lemma path_node_ok_append:
  "8 * i + 8 \<le> length syms \<Longrightarrow> path_node_ok trie s0 h0 (syms @ rest) i node = path_node_ok trie s0 h0 syms i node"
  by (simp add: path_node_ok_def)

lemma grow_path_ok:
  assumes ok: "path_ok trie s0 h0 nodes syms" and s: "s \<noteq> SYMBOL_END" "s \<le> 32"
  shows "path_ok trie s0 h0 (grow_path nodes (last (s0 # syms)) (foldl (accumulate_hash trie) h0 syms) s) (syms @ [s])"
proof -
  have len: "length nodes = (length syms + 7) div 8" and node: "\<And>i. i < length nodes \<Longrightarrow> path_node_ok trie s0 h0 syms i (nodes ! i)"
    using ok by (simp_all add: path_ok_def)
  have size: "entry_jump_size (fst (nodes ! i)) = min 8 (length syms - 8 * i)" if "i < length nodes" for i
  proof -
    have "jump_symbols (fst (nodes ! i)) = take 8 (drop (8 * i) syms)" using node [OF that] by (simp add: path_node_ok_def)
    from arg_cong [OF this, of length] show ?thesis by simp
  qed
  let ?L = "length nodes - 1"
  show ?thesis
  proof (cases "nodes = [] \<or> entry_jump_size (fst (last nodes)) = MAX_JUMP_SYMBOLS")
    case True
    let ?x = "last (s0 # syms)" and ?h = "foldl (accumulate_hash trie) h0 syms"
    let ?new = "(extend_jump_node (new_jump_node ?x ?h) s, ?h)"
    have full: "length syms = 8 * length nodes"
    proof (cases "nodes = []")
      case False
      then have "entry_jump_size (fst (nodes ! ?L)) = 8" using True by (simp add: last_conv_nth)
      then have "8 \<le> length syms - 8 * ?L" using size [of ?L] False by simp
      then show ?thesis using len by linarith
    next
      case True
      then have "length syms + 7 < 8" using len by (simp add: div_eq_0_iff)
      then show ?thesis using True by simp
    qed
    have g: "grow_path nodes ?x ?h s = nodes @ [?new]" using True by (simp add: grow_path_def Let_def)
    have "jump_symbols (fst ?new) = [s]" "wf_entry (fst ?new)"
      using jump_symbols_extend [OF new_jump_node_props(1) _ s, of ?x ?h] new_jump_node_props wf_extend_jump_node by simp_all
    then have new: "path_node_ok trie s0 h0 (syms @ [s]) (length nodes) ?new"
      using full new_jump_node_props by (simp add: path_node_ok_def)
    have "path_node_ok trie s0 h0 (syms @ [s]) i ((nodes @ [?new]) ! i)" if "i < length nodes + 1" for i
      using that new node [of i] path_node_ok_append [of i syms trie s0 h0 "[s]" "nodes ! i"] full
      by (cases "i = length nodes") (simp_all add: nth_append)
    moreover have "length (nodes @ [?new]) = (length (syms @ [s]) + 7) div 8" using full by simp
    ultimately show ?thesis unfolding g path_ok_def by simp
  next
    case False
    then have ne: "nodes \<noteq> []" and L: "?L < length nodes" and small: "entry_jump_size (fst (nodes ! ?L)) < 8"
      using size [of ?L] by (auto simp: last_conv_nth)
    have short: "8 * ?L \<le> length syms" "length syms < 8 * length nodes"
      using size [OF L] small L len by linarith+
    let ?new = "(extend_jump_node (fst (nodes ! ?L)) s, snd (nodes ! ?L))"
    have g: "grow_path nodes (last (s0 # syms)) (foldl (accumulate_hash trie) h0 syms) s = nodes[?L := ?new]"
    proof -
      have "nodes[?L := ?new] = butlast nodes @ [?new]"
        using ne by (metis append_butlast_last_id length_butlast list_update_length)
      then show ?thesis using False ne by (simp add: grow_path_def Let_def last_conv_nth)
    qed
    note old = node [OF L, unfolded path_node_ok_def]
    have "jump_symbols (fst ?new) = drop (8 * ?L) syms @ [s]" "wf_entry (fst ?new)"
      using jump_symbols_extend [of "fst (nodes ! ?L)" s] old small s wf_extend_jump_node short L by simp_all
    moreover have "take 8 (drop (8 * ?L) (syms @ [s])) = drop (8 * ?L) syms @ [s]"
      "take (8 * ?L) (syms @ [s]) = take (8 * ?L) syms" using short L by simp_all
    ultimately have new: "path_node_ok trie s0 h0 (syms @ [s]) ?L ?new"
      using old by (simp only: path_node_ok_def fst_conv snd_conv extend_fields simp_thms)
    have "path_node_ok trie s0 h0 (syms @ [s]) i (nodes[?L := ?new] ! i)" if "i < length nodes" for i
      using that new node [of i] path_node_ok_append [of i syms trie s0 h0 "[s]" "nodes ! i"] short
      by (cases "i = ?L") simp_all
    moreover have "length (nodes[?L := ?new]) = (length (syms @ [s]) + 7) div 8" using short ne len by simp
    ultimately show ?thesis unfolding g path_ok_def by simp
  qed
qed

lemma first_difference:
  assumes ne: "k1 \<noteq> k2"
  obtains m where "m < num_key_symbols (length k1)" and "m < num_key_symbols (length k2)"
    and "take m (key_symbols k1) = take m (key_symbols k2)" and "key_symbols k1 ! m \<noteq> key_symbols k2 ! m"
proof -
  let ?a = "key_symbols k1" and ?b = "key_symbols k2"
  have len: "length ?a = num_key_symbols (length k1)" "length ?b = num_key_symbols (length k2)" by simp_all
  have pos: "0 < length ?a" "0 < length ?b" by (simp_all add: num_key_symbols_def)
  have "\<exists>m. m < length ?a \<and> m < length ?b \<and> ?a ! m \<noteq> ?b ! m"
  proof (rule ccontr)
    assume "\<not> ?thesis"
    then have eq: "\<And>m. m < length ?a \<Longrightarrow> m < length ?b \<Longrightarrow> ?a ! m = ?b ! m" by blast
    have "length ?a = length ?b"
    proof (cases "length ?a \<le> length ?b")
      case True
      then have "?b ! (length ?a - 1) = SYMBOL_END"
        using eq [of "length ?a - 1"] last_key_symbol [of "length ?a - 1" k1] pos len by simp
      moreover have "length ?a - 1 < num_key_symbols (length k2)" using True pos len by linarith
      ultimately have "length ?a - 1 = length ?b - 1" using last_key_symbol [of "length ?a - 1" k2] len by simp
      then show ?thesis using pos by linarith
    next
      case False
      then have "?a ! (length ?b - 1) = SYMBOL_END"
        using eq [of "length ?b - 1"] last_key_symbol [of "length ?b - 1" k2] pos len by simp
      moreover have "length ?b - 1 < num_key_symbols (length k1)" using False pos len by linarith
      ultimately have "length ?b - 1 = length ?a - 1" using last_key_symbol [of "length ?b - 1" k1] len by simp
      then show ?thesis using pos by linarith
    qed
    then have "?a = ?b" using eq by (intro nth_equalityI) simp_all
    then show False using ne key_symbols_inject by blast
  qed
  then obtain m where m: "m < length ?a" "m < length ?b" "?a ! m \<noteq> ?b ! m"
    and least: "\<And>i. i < m \<Longrightarrow> \<not> (i < length ?a \<and> i < length ?b \<and> ?a ! i \<noteq> ?b ! i)"
    using exists_least_iff [of "\<lambda>m. m < length ?a \<and> m < length ?b \<and> ?a ! m \<noteq> ?b ! m"] by blast
  have "take m ?a = take m ?b" using m least by (intro nth_equalityI) auto
  then show thesis using that m by simp
qed

lemma split_path_from:
  assumes kv: "wf_kv kv1" "wf_kv kv2"
    and m: "m < num_key_symbols (length (kv_key kv1))" "m < num_key_symbols (length (kv_key kv2))"
    and same: "take m (key_symbols (kv_key kv1)) = take m (key_symbols (kv_key kv2))"
    and differ: "key_symbols (kv_key kv1) ! m \<noteq> key_symbols (kv_key kv2) ! m"
    and k: "pos \<le> k" "k \<le> m" and ok: "path_ok trie s0 h0 nodes (drop pos (take k (key_symbols (kv_key kv1))))"
  defines "common \<equiv> \<lambda>k. drop pos (take k (key_symbols (kv_key kv1)))"
  shows "\<exists>nodes'. split_path trie kv1 kv2 k (last (s0 # common k)) (foldl (accumulate_hash trie) h0 (common k)) nodes =
      Some (nodes', key_symbols (kv_key kv1) ! m, key_symbols (kv_key kv2) ! m, last (s0 # common m),
        foldl (accumulate_hash trie) h0 (common m)) \<and> path_ok trie s0 h0 nodes' (common m)"
  using k ok
proof (induction "m - k" arbitrary: k nodes)
  case 0
  then have "k = m" by simp
  then have *: "get_key_symbol kv1 k = key_symbols (kv_key kv1) ! m" "get_key_symbol kv2 k = key_symbols (kv_key kv2) ! m"
    using get_key_symbol_nth kv m by simp_all
  have "split_path trie kv1 kv2 k (last (s0 # common k)) (foldl (accumulate_hash trie) h0 (common k)) nodes =
      Some (nodes, key_symbols (kv_key kv1) ! m, key_symbols (kv_key kv2) ! m, last (s0 # common k),
        foldl (accumulate_hash trie) h0 (common k))"
    by (subst split_path.simps) (simp only: * Let_def differ not_False_eq_True if_True)
  moreover have "path_ok trie s0 h0 nodes (common k)" using 0(4) by (simp only: common_def)
  ultimately show ?case unfolding \<open>k = m\<close> by blast
next
  case (Suc r)
  let ?s = "key_symbols (kv_key kv1) ! k"
  have km: "k < m" using Suc(2) by simp
  have eq: "key_symbols (kv_key kv2) ! k = ?s" using arg_cong [OF same, of "\<lambda>xs. xs ! k"] km by simp
  have *: "get_key_symbol kv1 k = ?s" "get_key_symbol kv2 k = ?s"
    using get_key_symbol_nth [OF kv(1), of k] get_key_symbol_nth [OF kv(2), of k] km m eq by simp_all
  have s: "?s \<noteq> SYMBOL_END" "?s \<le> 32"
    using last_key_symbol [of k "kv_key kv1"] key_symbols_le [of k "kv_key kv1"] km m by simp_all
  have c: "common (k + 1) = common k @ [?s]"
    using km m Suc.prems(1) by (simp add: common_def take_Suc_conv_app_nth)
  let ?nodes = "grow_path nodes (last (s0 # common k)) (foldl (accumulate_hash trie) h0 (common k)) ?s"
  have ok': "path_ok trie s0 h0 ?nodes (common (k + 1))"
    unfolding c using Suc.prems(3) s by (intro grow_path_ok) (simp_all add: common_def)
  have "split_path trie kv1 kv2 k (last (s0 # common k)) (foldl (accumulate_hash trie) h0 (common k)) nodes =
      split_path trie kv1 kv2 (k + 1) (last (s0 # common (k + 1))) (foldl (accumulate_hash trie) h0 (common (k + 1))) ?nodes"
    unfolding c by (subst split_path.simps) (simp add: * Let_def)
  then show ?case using Suc.hyps(1) [of "k + 1" ?nodes] Suc.hyps(2) Suc.prems(1) km ok' unfolding common_def by simp
qed

text \<open>
  For two different keys the loop ends at their first different symbol; the nodes carry the
  common symbols behind the given prefix.
\<close>

theorem split_path_correct:
  assumes kv: "wf_kv kv1" "wf_kv kv2" and ne: "kv_key kv1 \<noteq> kv_key kv2"
    and pre: "take pos (key_symbols (kv_key kv1)) = take pos (key_symbols (kv_key kv2))"
    and pos: "pos \<le> num_key_symbols (length (kv_key kv1))" "pos \<le> num_key_symbols (length (kv_key kv2))"
  defines "ks1 \<equiv> key_symbols (kv_key kv1)" and "ks2 \<equiv> key_symbols (kv_key kv2)"
  shows "\<exists>m nodes. pos \<le> m \<and> m < length ks1 \<and> m < length ks2 \<and> take m ks1 = take m ks2 \<and> ks1 ! m \<noteq> ks2 ! m \<and>
    split_path trie kv1 kv2 pos s0 h0 [] = Some (nodes, ks1 ! m, ks2 ! m, last (s0 # drop pos (take m ks1)),
      foldl (accumulate_hash trie) h0 (drop pos (take m ks1))) \<and>
    path_ok trie s0 h0 nodes (drop pos (take m ks1))"
proof -
  obtain m where m: "m < length ks1" "m < length ks2" "take m ks1 = take m ks2" "ks1 ! m \<noteq> ks2 ! m"
    using first_difference [OF ne] unfolding ks1_def ks2_def by (metis length_key_symbols)
  have "pos \<le> m"
  proof (rule ccontr)
    assume "\<not> pos \<le> m"
    then have "ks1 ! m = ks2 ! m" using arg_cong [OF pre, of "\<lambda>xs. xs ! m"] m by (simp add: ks1_def ks2_def)
    then show False using m(4) by simp
  qed
  moreover have "path_ok trie s0 h0 [] (drop pos (take pos ks1))" by (simp add: path_ok_def)
  ultimately show ?thesis
    using split_path_from [OF kv _ _ _ _ order_refl, of m pos trie s0 h0 "[]"] m unfolding ks1_def ks2_def by auto
qed

end
