(* ===== verification/Shape.thy ===== *)
theory Shape
  imports FreshTrie Paths
begin

text \<open>
  The shape of a trie: which node is at which prefix. A shape is a finite map from prefixes to
  entries, without the side flag, and the content of the table is what the shape says, each
  node at the home bucket of its prefix. Every condition on a shape is local: it speaks of a
  node and its children, or of two neighbouring leaves; so a change of the trie is a change
  of the shape at a few prefixes, wherever relocations have put the entries.
\<close>

type_synonym shape = "u64 list \<Rightarrow> ct_entry option"

subsection \<open>The payload of an entry\<close>

lemma entry_kv_cong:
  assumes "wf_entry a" and "wf_entry b" and "e_bytes a = e_bytes b" and "e_byte8 a = e_byte8 b"
  shows "entry_kv a = entry_kv b"
proof -
  have byte: "byte_at (entry_bytes a) (3 + i) = byte_at (entry_bytes b) (3 + i)" if "i < 6" for i
  proof -
    have "length (e_bytes a @ [e_byte8 a]) = 6" using assms(1) by (simp add: wf_entry_def)
    then show ?thesis using byte_at_middle [of "entry_bytes a" _ _ _ "e_bytes a @ [e_byte8 a]" "locator_bytes (e_locator a)" i]
        byte_at_middle [of "entry_bytes b" _ _ _ "e_bytes a @ [e_byte8 a]" "locator_bytes (e_locator b)" i] that assms(3,4)
      by (simp add: entry_bytes_def)
  qed
  have "get_bits_uint128 (entry_u128 a) (3 * 8) (6 * 8) = get_bits_uint128 (entry_u128 b) (3 * 8) (6 * 8)"
  proof (rule bit_word_eqI)
    fix j :: nat
    have sh: "(8 * 3 + j) div 8 = 3 + j div 8" "(8 * 3 + j) mod 8 = j mod 8" 
      by (rule div_mult_self4, simp, rule mod_mult_self4)
    have bits: "bit (get_bits_uint128 (entry_u128 e) (3 * 8) (6 * 8)) j \<longleftrightarrow>
        j < 48 \<and> bit (byte_at (entry_bytes e) (3 + j div 8)) (j mod 8)" for e
    proof -
      have "bit (get_bits_uint128 (entry_u128 e) (3 * 8) (6 * 8)) j \<longleftrightarrow>
          j < 48 \<and> bit (byte_at (entry_bytes e) ((8 * 3 + j) div 8)) ((8 * 3 + j) mod 8)"
        by (auto simp: get_bits_uint128_def bit_simps bit_mask_iff entry_u128_def bit_le_word add.commute)
      then show ?thesis unfolding sh .
    qed
    show "bit (get_bits_uint128 (entry_u128 a) (3 * 8) (6 * 8)) j = bit (get_bits_uint128 (entry_u128 b) (3 * 8) (6 * 8)) j"
      unfolding bits using byte [of "j div 8"] less_mult_imp_div_less [of j 6 8] by auto
  qed
  then show ?thesis by (simp only: entry_kv_def)
qed

lemma jump_symbols_cong:
  assumes "wf_entry a" and "wf_entry b" and "e_bytes a = e_bytes b" and "entry_jump_size a = entry_jump_size b"
    and "entry_jump_size b \<le> 8"
  shows "jump_symbols a = jump_symbols b"
  unfolding jump_symbols_def assms(4)
  by (rule map_cong [OF refl]) (use assms in \<open>auto intro!: jump_symbol_eqI\<close>)

text \<open>The nodes that differ from \<open>e\<close> in the stored side only.\<close>

lemma erased_node:
  assumes "erase_side v = e"
  shows "entry_type v = entry_type e" "wf_entry v = wf_entry e" "entry_color v = entry_color e" "entry_tag v = entry_tag e"
    "e_bytes v = e_bytes e" "e_byte8 v = e_byte8 e" "e_locator v = e_locator e" "e_last_symbol v = e_last_symbol e"
    "entry_parent_color v = entry_parent_color e" "entry_jump_size v = entry_jump_size e"
    "entry_child_color v = entry_child_color e" "color_and_tag v = color_and_tag e"
    "wf_entry e \<Longrightarrow> entry_kv v = entry_kv e"
    "wf_entry e \<Longrightarrow> entry_jump_size e \<le> 8 \<Longrightarrow> jump_symbols v = jump_symbols e"
proof -
  show wf: "wf_entry v = wf_entry e" using assms by (auto simp: wf_entry_def)
  show "entry_type v = entry_type e" "entry_color v = entry_color e" "entry_tag v = entry_tag e"
    "e_bytes v = e_bytes e" "e_byte8 v = e_byte8 e" "e_locator v = e_locator e" "e_last_symbol v = e_last_symbol e"
    "entry_parent_color v = entry_parent_color e" using assms by auto
  then show size: "entry_jump_size v = entry_jump_size e" "entry_child_color v = entry_child_color e"
    by (simp_all add: entry_jump_size_def entry_child_color_def)
  show "color_and_tag v = color_and_tag e" using assms by (auto simp: erase_side_def)
  show "wf_entry e \<Longrightarrow> entry_kv v = entry_kv e" using wf assms by (intro entry_kv_cong) auto
  show "wf_entry e \<Longrightarrow> entry_jump_size e \<le> 8 \<Longrightarrow> jump_symbols v = jump_symbols e"
    using wf size assms by (intro jump_symbols_cong) auto
qed

subsection \<open>Shapes\<close>

definition place :: "cuckoo_trie \<Rightarrow> shape \<Rightarrow> u64 list \<Rightarrow> u64 \<times> ct_entry" where
  "place trie T p = (hash_to_bucket (hash_path trie p), the (T p))"

definition shape_content :: "cuckoo_trie \<Rightarrow> shape \<Rightarrow> (u64 \<times> ct_entry) multiset" where
  "shape_content trie T = image_mset (place trie T) (mset_set (dom T))"

definition children :: "ct_entry \<Rightarrow> u64 set" where
  "children e = {s. s \<le> 32 \<and> get_bit (child_bitmap e) (unat s)}"

definition child_of :: "shape \<Rightarrow> u64 list \<Rightarrow> u64 list \<Rightarrow> bool" where
  "child_of T p q \<longleftrightarrow> (\<exists>e. T p = Some e \<and>
     (entry_type e = TYPE_JUMP \<and> q = p @ jump_symbols e \<or>
      entry_type e = TYPE_BITMAP \<and> (\<exists>s\<in>children e. q = p @ [s])))"

definition jump_child_ok :: "shape \<Rightarrow> u64 list \<Rightarrow> ct_entry \<Rightarrow> bool" where
  "jump_child_ok T p e \<longleftrightarrow>
     (\<exists>c. T (p @ jump_symbols e) = Some c \<and> entry_color c = entry_child_color e \<and> \<not> entry_parent_color c < 9)"

definition bitmap_children_ok :: "shape \<Rightarrow> u64 list \<Rightarrow> ct_entry \<Rightarrow> bool" where
  "bitmap_children_ok T p e \<longleftrightarrow>
     (\<forall>s\<in>children e. \<exists>c. T (p @ [s]) = Some c \<and> e_last_symbol c = ucast s \<and> entry_parent_color c = entry_color e)"

definition leaf_ok :: "kv_heap \<Rightarrow> u64 list \<Rightarrow> ct_entry \<Rightarrow> bool" where
  "leaf_ok heap p e \<longleftrightarrow> wf_kv (heap (entry_kv e)) \<and> prefix p (key_symbols (kv_key (heap (entry_kv e))))"

definition node_ok :: "kv_heap \<Rightarrow> cuckoo_trie \<Rightarrow> shape \<Rightarrow> u64 list \<Rightarrow> ct_entry \<Rightarrow> bool" where
  "node_ok heap trie T p e \<longleftrightarrow>
     wf_entry e \<and> erase_side e = e \<and> ucast (entry_tag e) = hash_to_tag (hash_path trie p) \<and> (\<forall>s\<in>set p. s \<le> 32) \<and>
     (entry_type e = TYPE_LEAF \<and> leaf_ok heap p e \<or>
      entry_type e = TYPE_JUMP \<and> 0 < entry_jump_size e \<and> entry_jump_size e \<le> 8 \<and> jump_child_ok T p e \<or>
      entry_type e = TYPE_BITMAP \<and> children e \<noteq> {} \<and> bitmap_children_ok T p e)"

definition shape_ok :: "kv_heap \<Rightarrow> cuckoo_trie \<Rightarrow> shape \<Rightarrow> bool" where
  "shape_ok heap trie T \<longleftrightarrow> finite (dom T) \<and> (\<exists>r. T [] = Some r \<and> \<not> entry_parent_color r < 9) \<and>
     (\<forall>p e. T p = Some e \<longrightarrow> node_ok heap trie T p e) \<and> (\<forall>q\<in>dom T. q \<noteq> [] \<longrightarrow> (\<exists>p. child_of T p q))"

definition trie_shape :: "kv_heap \<Rightarrow> cuckoo_trie \<Rightarrow> shape \<Rightarrow> bool" where
  "trie_shape heap trie T \<longleftrightarrow> table_inv trie \<and> \<not> is_empty trie \<and> table_content trie = shape_content trie T \<and>
     shape_ok heap trie T \<and> T [] = Some (cell trie root_ptr)"

definition leaves :: "shape \<Rightarrow> u64 list set" where
  "leaves T = {p. \<exists>e. T p = Some e \<and> entry_type e = TYPE_LEAF}"

definition kv_at :: "shape \<Rightarrow> u64 list \<Rightarrow> u64" where
  "kv_at T p = entry_kv (the (T p))"

definition kvs_of :: "shape \<Rightarrow> u64 set" where
  "kvs_of T = kv_at T ` leaves T"

lemma shape_okD:
  assumes "shape_ok heap trie T"
  shows "finite (dom T)" and "T p = Some e \<Longrightarrow> node_ok heap trie T p e"
    and "q \<in> dom T \<Longrightarrow> q \<noteq> [] \<Longrightarrow> \<exists>p. child_of T p q" and "T [] = Some r \<Longrightarrow> \<not> entry_parent_color r < 9"
    and "\<exists>r. T [] = Some r"
  using assms by (auto simp: shape_ok_def)

lemma trie_shapeD:
  assumes "trie_shape heap trie T"
  shows "table_inv trie" and "\<not> is_empty trie" and "table_content trie = shape_content trie T"
    and "shape_ok heap trie T" and "T [] = Some (cell trie root_ptr)"
  using assms by (auto simp: trie_shape_def)

lemma node_okD:
  assumes "node_ok heap trie T p e"
  shows "wf_entry e" and "erase_side e = e" and "ucast (entry_tag e) = hash_to_tag (hash_path trie p)" and "\<forall>s\<in>set p. s \<le> 32"
    and "entry_type e = TYPE_LEAF \<Longrightarrow> leaf_ok heap p e"
    and "entry_type e = TYPE_JUMP \<Longrightarrow> 0 < entry_jump_size e \<and> entry_jump_size e \<le> 8 \<and> jump_child_ok T p e"
    and "entry_type e = TYPE_BITMAP \<Longrightarrow> children e \<noteq> {} \<and> bitmap_children_ok T p e"
    and "entry_type e = TYPE_LEAF \<or> entry_type e = TYPE_JUMP \<or> entry_type e = TYPE_BITMAP"
    and "entry_type e \<noteq> TYPE_UNUSED"
  using assms by (auto simp: node_ok_def)


lemma shape_member:
  assumes "finite (dom T)"
  shows "x \<in># shape_content trie T \<longleftrightarrow> (\<exists>p\<in>dom T. x = place trie T p)"
  using assms by (auto simp: shape_content_def)

lemma slot_place: "T p = Some e \<Longrightarrow> slot (place trie T p) = (hash_to_bucket (hash_path trie p), entry_tag e, entry_color e)"
  by (simp add: slot_def place_def)

text \<open>Nodes at different prefixes have different slots.\<close>

lemma place_slot_inject:
  assumes fin: "finite (dom T)" and d: "distinct_slots (shape_content trie T)" and p: "p \<in> dom T" and q: "q \<in> dom T"
    and eq: "slot (place trie T p) = slot (place trie T q)"
  shows "p = q"
proof (rule ccontr)
  assume "p \<noteq> q"
  then have "{#p, q#} \<subseteq># mset_set (dom T)"
    using subset_imp_msubset_mset_set [of "{p, q}" "dom T"] p q fin by simp
  then have "{#slot (place trie T p), slot (place trie T q)#} \<subseteq># image_mset slot (shape_content trie T)"
    unfolding shape_content_def using image_mset_subseteq_mono [of "{#p, q#}" "mset_set (dom T)" "slot \<circ> place trie T"]
    by (simp add: image_mset.compositionality)
  then have "count {#slot (place trie T p), slot (place trie T q)#} (slot (place trie T q)) \<le>
      count (image_mset slot (shape_content trie T)) (slot (place trie T q))" by (rule mset_subset_eq_count)
  then show False using d [unfolded distinct_slots_def, THEN spec, of "slot (place trie T q)"] eq by simp
qed

lemma shape_slot_inject:
  assumes sh: "trie_shape heap trie T" and p: "T p = Some e" and q: "T q = Some e'"
    and eq: "hash_to_bucket (hash_path trie p) = hash_to_bucket (hash_path trie q)" "entry_tag e = entry_tag e'" "entry_color e = entry_color e'"
  shows "p = q"
proof (rule place_slot_inject)
  show "finite (dom T)" using shape_okD(1) [OF trie_shapeD(4) [OF sh]] .
  show "distinct_slots (shape_content trie T)" using table_invD(2) [OF trie_shapeD(1) [OF sh]] trie_shapeD(3) [OF sh] by simp
qed (use p q eq in \<open>auto simp: slot_place\<close>)

subsection \<open>Finding nodes\<close>

lemma shape_in_content:
  assumes "trie_shape heap trie T" and "T p = Some e"
  shows "(hash_to_bucket (hash_path trie p), e) \<in># table_content trie"
  using shape_member [OF shape_okD(1) [OF trie_shapeD(4) [OF assms(1)]]] trie_shapeD(3) [OF assms(1)] assms(2)
  by (force simp: place_def)

lemma content_in_shape:
  assumes "trie_shape heap trie T" and "(b, e) \<in># table_content trie"
  shows "\<exists>p. T p = Some e \<and> hash_to_bucket (hash_path trie p) = b"
  using shape_member [OF shape_okD(1) [OF trie_shapeD(4) [OF assms(1)]], of "(b, e)"] trie_shapeD(3) [OF assms(1)] assms(2)
  by (auto simp: place_def)

lemma shape_node:
  assumes "trie_shape heap trie T" and "T p = Some e"
  shows "node_ok heap trie T p e"
  using assms shape_okD(2) trie_shapeD(4) by blast

lemma shape_color:
  assumes "trie_shape heap trie T" and "T p = Some e"
  shows "entry_color e < 9"
  using table_invD(3) [OF trie_shapeD(1) [OF assms(1)]] shape_in_content [OF assms]
  by (auto simp: valid_colors_def word_less_nat_alt word_le_nat_alt)

text \<open>The copy \<open>c\<close> is one of the node at the prefix \<open>p\<close>, as it is stored now.\<close>

definition copy_at :: "cuckoo_trie \<Rightarrow> shape \<Rightarrow> u64 list \<Rightarrow> ct_entry_local_copy \<Rightarrow> bool" where
  "copy_at trie T p c \<longleftrightarrow> (\<exists>pos\<in>table_cells trie. c = copy_of trie (hash_to_bucket (hash_path trie p)) pos \<and>
     home trie (fst pos) (cell trie pos) = hash_to_bucket (hash_path trie p) \<and> T p = Some (erase_side (cell trie pos)))"

lemma find_node_by_color:
  assumes sh: "trie_shape heap trie T" and p: "T p = Some e"
  shows "\<exists>c. find_entry_in_pair_by_color trie (hash_to_bucket (hash_path trie p)) (hash_to_tag (hash_path trie p))
      (ucast (entry_color e)) = Some c \<and> copy_at trie T p c"
  using find_by_color_in_content [OF trie_shapeD(1) [OF sh] shape_in_content [OF sh p]] p
    node_okD(3) [OF shape_node [OF sh p]]
  by (auto simp: copy_at_def)

lemma shape_hash_valid:
  assumes "trie_shape heap trie T" and "T p = Some e"
  shows "valid_hash trie (hash_path trie p)"
  using hash_path_valid node_okD(4) [OF shape_node [OF assms]] table_invD(5) [OF trie_shapeD(1) [OF assms(1)]] by auto

lemma child_unique_by_parent:
  assumes sh: "trie_shape heap trie T" and p: "T p = Some e" "entry_type e = TYPE_BITMAP" "s \<in> children e"
    and c: "T (p @ [s]) = Some c" and q: "T q = Some c'"
    and eq: "hash_to_bucket (hash_path trie q) = hash_to_bucket (hash_path trie (p @ [s]))" "entry_tag c' = entry_tag c"
      "e_last_symbol c' = e_last_symbol c" "entry_parent_color c' = entry_parent_color c"
  shows "q = p @ [s]"
proof -
  note ok = trie_shapeD(4) [OF sh]
  note n = shape_node [OF sh p(1)]
  have s32: "s \<le> 32" using p(3) by (simp add: children_def)
  have bm: "bitmap_children_ok T p e" using node_okD(7) [OF n p(2)] by simp
  then have cc: "e_last_symbol c = ucast s" "entry_parent_color c = entry_color e"
    using p(3) c by (auto simp: bitmap_children_ok_def)
  have pc9: "entry_parent_color c' < 9" using shape_color [OF sh p(1)] cc(2) eq(4) by simp
  then have "q \<noteq> []" using shape_okD(4) [OF ok] q by auto
  then obtain p' where "child_of T p' q" using shape_okD(3) [OF ok] q by blast
  then obtain e' where e': "T p' = Some e'" and cases: "entry_type e' = TYPE_JUMP \<and> q = p' @ jump_symbols e' \<or>
      entry_type e' = TYPE_BITMAP \<and> (\<exists>s\<in>children e'. q = p' @ [s])" by (auto simp: child_of_def)
  note n' = shape_node [OF sh e']
  have "\<not> (entry_type e' = TYPE_JUMP \<and> q = p' @ jump_symbols e')"
    using node_okD(6) [OF n'] q pc9 by (auto simp: jump_child_ok_def)
  then obtain s' where b': "entry_type e' = TYPE_BITMAP" and s': "s' \<in> children e'" "q = p' @ [s']" using cases by blast
  have "bitmap_children_ok T p' e'" using node_okD(7) [OF n' b'] by simp
  then have cc': "e_last_symbol c' = ucast s'" "entry_parent_color c' = entry_color e'"
    using s' q by (auto simp: bitmap_children_ok_def)
  have s32': "s' \<le> 32" using s'(1) by (simp add: children_def)
  have ss: "s' = s"
  proof -
    have "(ucast s' :: u8) = ucast s" using cc(1) cc'(1) eq(3) by simp
    then show ?thesis using symbol_byte [OF s32] symbol_byte [OF s32'] by metis
  qed
  have vs: "valid_sizes trie" using table_invD(5) [OF trie_shapeD(1) [OF sh]] by auto
  have vh: "valid_hash trie (hash_path trie p)" "valid_hash trie (hash_path trie p')"
    using shape_hash_valid [OF sh p(1)] shape_hash_valid [OF sh e'] by blast+
  have t: "hash_to_tag (hash_path trie q) = hash_to_tag (hash_path trie (p @ [s]))"
    using node_okD(3) [OF shape_node [OF sh c]] node_okD(3) [OF shape_node [OF sh q]] eq(2) by simp
  have "hash_path trie q = hash_path trie (p @ [s])" by (rule hash_split_inject [OF eq(1) t])
  then have "accumulate_hash trie (hash_path trie p') s = accumulate_hash trie (hash_path trie p) s"
    unfolding s'(2) ss hash_path_snoc .
  then have "hash_path trie p' XOR s = hash_path trie p XOR s"
    by (rule accumulate_hash_inject [OF vs vh(2,1) s32 s32])
  from arg_cong [OF this, of "\<lambda>x. x XOR s"] have h: "hash_path trie p' = hash_path trie p" by (simp add: xor.assoc)
  have "entry_tag e' = entry_tag e"
  proof -
    have "(ucast (entry_tag e') :: u64) = ucast (entry_tag e)" using node_okD(3) [OF n] node_okD(3) [OF n'] h by simp
    then show ?thesis by (metis ucast_ucast_u8)
  qed
  moreover have "entry_color e' = entry_color e" using cc(2) cc'(2) eq(4) by simp
  ultimately have "p' = p" using shape_slot_inject [OF sh e' p(1)] h by simp
  then show ?thesis using s'(2) ss by simp
qed

lemma find_child_by_parent:
  assumes sh: "trie_shape heap trie T" and p: "T p = Some e" "entry_type e = TYPE_BITMAP" "s \<in> children e"
  shows "\<exists>c. find_entry_in_pair_by_parent trie (hash_to_bucket (hash_path trie (p @ [s]))) (hash_to_tag (hash_path trie (p @ [s])))
      s (ucast (entry_color e)) = Some c \<and> copy_at trie T (p @ [s]) c"
proof -
  have "bitmap_children_ok T p e" using node_okD(7) [OF shape_node [OF sh p(1)] p(2)] by simp
  then obtain c where c: "T (p @ [s]) = Some c" "e_last_symbol c = ucast s" "entry_parent_color c = entry_color e"
    using p(3) by (auto simp: bitmap_children_ok_def)
  note mem = shape_in_content [OF sh c(1)]
  have "(ucast (ucast s :: u8) :: u64) = s"
    using p(3) symbol_byte by (simp add: children_def)
  moreover have "e' = c" if e': "(hash_to_bucket (hash_path trie (p @ [s])), e') \<in># table_content trie" "entry_tag e' = entry_tag c"
    "e_last_symbol e' = e_last_symbol c" "entry_parent_color e' = entry_parent_color c" for e'
  proof -
    obtain q where q: "T q = Some e'" "hash_to_bucket (hash_path trie q) = hash_to_bucket (hash_path trie (p @ [s]))"
      using content_in_shape [OF sh e'(1)] by blast
    have "q = p @ [s]" using child_unique_by_parent [OF sh p c(1) q e'(2-4)] .
    then show ?thesis using q c by simp
  qed
  moreover have "entry_parent_color c < 9" using c(3) shape_color [OF sh p(1)] by simp
  ultimately show ?thesis
    using find_by_parent_in_content [OF trie_shapeD(1) [OF sh] mem] c node_okD(3) [OF shape_node [OF sh c(1)]]
    by (fastforce simp: copy_at_def)
qed


subsection \<open>Prefixes\<close>

lemma child_of_strict:
  assumes "shape_ok heap trie T" and "child_of T p q"
  shows "strict_prefix p q"
proof -
  obtain e where e: "T p = Some e" "entry_type e = TYPE_JUMP \<and> q = p @ jump_symbols e \<or>
      entry_type e = TYPE_BITMAP \<and> (\<exists>s\<in>children e. q = p @ [s])" using assms(2) by (auto simp: child_of_def)
  have "0 < entry_jump_size e" if "entry_type e = TYPE_JUMP"
    using node_okD(6) [OF shape_okD(2) [where T = T and p = p, OF assms(1) e(1)] that] by simp
  then have "jump_symbols e \<noteq> []" if "entry_type e = TYPE_JUMP" using that length_jump_symbols [of e] by fastforce
  then show ?thesis using e(2) by (auto simp: strict_prefix_def)
qed

lemma child_of_in_shape:
  assumes "shape_ok heap trie T" and "child_of T p q"
  shows "p \<in> dom T" and "q \<in> dom T"
proof -
  obtain e where e: "T p = Some e" "entry_type e = TYPE_JUMP \<and> q = p @ jump_symbols e \<or>
      entry_type e = TYPE_BITMAP \<and> (\<exists>s\<in>children e. q = p @ [s])" using assms(2) by (auto simp: child_of_def)
  then show "p \<in> dom T" by blast
  note n = shape_okD(2) [where T = T and p = p, OF assms(1) e(1)]
  show "q \<in> dom T" using e(2) node_okD(6,7) [OF n] by (auto simp: jump_child_ok_def bitmap_children_ok_def)
qed

text \<open>The path from the root to a node passes through every node at a prefix of it.\<close>

lemma child_towards:
  assumes ok: "shape_ok heap trie T" and "p \<in> dom T" and "q \<in> dom T" and "strict_prefix p q"
  shows "\<exists>r. child_of T p r \<and> prefix r q"
  using assms(2-4)
proof (induction "length q" arbitrary: p q rule: less_induct)
  case less
  have "q \<noteq> []" using less.prems(3) by auto
  then obtain p' where p': "child_of T p' q" using shape_okD(3) [OF ok less.prems(2)] by blast
  have sp': "strict_prefix p' q" by (rule child_of_strict [OF ok p'])
  have d': "p' \<in> dom T" using child_of_in_shape [OF ok p'] by blast
  consider "p = p'" | "strict_prefix p p'" | "strict_prefix p' p"
    using prefix_same_cases [of p q p'] sp' less.prems(3) by (auto simp: strict_prefix_def)
  then show ?case
  proof cases
    case 1
    then show ?thesis using p' by blast
  next
    case 2
    have "length p' < length q" using sp' by (rule prefix_length_less)
    from less.hyps [OF this less.prems(1) d' 2] show ?thesis
      using sp' by (meson prefix_order.less_imp_le prefix_order.trans)
  next
    case 3
    have l: "length p < length q" using less.prems(3) by (rule prefix_length_less)
    from less.hyps [OF this d' less.prems(1) 3] obtain r where r: "child_of T p' r" "prefix r p" by blast
    have "length r < length q" using r(2) l prefix_length_le by fastforce
    moreover have "length r = length q" using r(1) p' by (auto simp: child_of_def)
    ultimately show ?thesis by simp
  qed
qed

lemma leaf_no_child:
  assumes "shape_ok heap trie T" and "p \<in> leaves T" and "q \<in> dom T" and "prefix p q"
  shows "q = p"
proof (rule ccontr)
  assume "q \<noteq> p"
  then have "strict_prefix p q" "p \<in> dom T" using assms by (auto simp: strict_prefix_def leaves_def)
  then obtain r where "child_of T p r" using child_towards [OF assms(1) _ assms(3)] by blast
  then show False using assms(2) by (auto simp: child_of_def leaves_def)
qed

lemma leaves_dom: "p \<in> leaves T \<Longrightarrow> p \<in> dom T"
  by (auto simp: leaves_def)

definition below :: "shape \<Rightarrow> u64 list \<Rightarrow> u64 list set" where
  "below T p = {q \<in> leaves T. prefix p q}"

lemma below_leaf: "shape_ok heap trie T \<Longrightarrow> p \<in> leaves T \<Longrightarrow> below T p = {p}"
  using leaf_no_child leaves_dom by (auto simp: below_def)

lemma below_node:
  assumes ok: "shape_ok heap trie T" and p: "T p = Some e" "entry_type e \<noteq> TYPE_LEAF"
  shows "below T p = (\<Union>r\<in>{r. child_of T p r}. below T r)"
proof (intro equalityI subsetI)
  fix q assume q: "q \<in> below T p"
  then have "q \<noteq> p" using p by (auto simp: below_def leaves_def)
  then have "strict_prefix p q" "q \<in> dom T" using q by (auto simp: below_def strict_prefix_def leaves_def)
  then show "q \<in> (\<Union>r\<in>{r. child_of T p r}. below T r)"
    using child_towards [OF ok, of p q] p(1) q by (fastforce simp: below_def)
next
  fix q assume "q \<in> (\<Union>r\<in>{r. child_of T p r}. below T r)"
  then show "q \<in> below T p" using child_of_strict [OF ok] unfolding below_def strict_prefix_def
    by (auto intro: prefix_order.trans)
qed

lemma jump_child_of: "T p = Some e \<Longrightarrow> entry_type e = TYPE_JUMP \<Longrightarrow> child_of T p r \<longleftrightarrow> r = p @ jump_symbols e"
  by (auto simp: child_of_def)

lemma bitmap_child_of: "T p = Some e \<Longrightarrow> entry_type e = TYPE_BITMAP \<Longrightarrow> child_of T p r \<longleftrightarrow> (\<exists>s\<in>children e. r = p @ [s])"
  by (auto simp: child_of_def)

subsection \<open>A shape represents the keys of its leaves\<close>

lemma copy_at_value: "copy_at trie T p c \<Longrightarrow> T p = Some (erase_side (lc_value c))"
  by (auto simp: copy_at_def copy_of_def)

theorem shape_represents:
  assumes sh: "trie_shape heap trie T" and p: "T p = Some e" and v: "erase_side v = e"
  shows "represents heap trie p v (kv_at T ` below T p)"
  using p v
proof (induction "Max (length ` dom T) - length p" arbitrary: p e v rule: less_induct)
  case less
  note ok = trie_shapeD(4) [OF sh] and n = shape_node [OF sh less.prems(1)]
  note f = erased_node [OF less.prems(2)] and wf = node_okD(1) [OF n]
  have deeper: "Max (length ` dom T) - length r < Max (length ` dom T) - length p" if "child_of T p r" for r
  proof -
    have "length p < length r" using child_of_strict [OF ok that] by (rule prefix_length_less)
    moreover have "length r \<le> Max (length ` dom T)"
      using child_of_in_shape(2) [OF ok that] shape_okD(1) [OF ok] by (intro Max_ge) auto
    ultimately show ?thesis by simp
  qed
  consider (leaf) "entry_type e = TYPE_LEAF" | (jump) "entry_type e = TYPE_JUMP" | (bitmap) "entry_type e = TYPE_BITMAP"
    using node_okD(8) [OF n] by blast
  then show ?case
  proof cases
    case leaf
    then have "p \<in> leaves T" using less.prems(1) by (simp add: leaves_def)
    then have "kv_at T ` below T p = {entry_kv v}"
      using below_leaf [OF ok] f(13) wf less.prems(1) by (simp add: kv_at_def)
    then show ?thesis using node_okD(5) [OF n leaf] leaf f(1,13) wf rep_leaf [of v heap p trie] by (simp add: leaf_ok_def)
  next
    case jump
    note size = node_okD(6) [OF n jump]
    have js: "jump_symbols v = jump_symbols e" using f(14) wf size by simp
    obtain c where c: "T (p @ jump_symbols e) = Some c" "entry_color c = entry_child_color e"
      using size by (auto simp: jump_child_ok_def)
    obtain lc where lc: "find_entry_in_pair_by_color trie (hash_to_bucket (hash_path trie (p @ jump_symbols e)))
        (hash_to_tag (hash_path trie (p @ jump_symbols e))) (ucast (entry_color c)) = Some lc" "copy_at trie T (p @ jump_symbols e) lc"
      using find_node_by_color [OF sh c(1)] by blast
    have child: "child_of T p (p @ jump_symbols e)" using jump_child_of [where T = T and p = p, OF less.prems(1) jump] by simp
    have "represents heap trie (p @ jump_symbols e) (lc_value lc) (kv_at T ` below T (p @ jump_symbols e))"
      using less.hyps [OF deeper [OF child]] copy_at_value [OF lc(2)] by blast
    moreover have "below T p = below T (p @ jump_symbols e)"
      using below_node [OF ok less.prems(1)] jump_child_of [where T = T and p = p, OF less.prems(1) jump] jump by simp
    ultimately show ?thesis
      using rep_jump [where e = v and p = p and c = lc and heap = heap and K = "kv_at T ` below T p"] jump f(1,2,10,11) wf size lc(1) c(2) js by simp
  next
    case bitmap
    note bm = node_okD(7) [OF n bitmap]
    have S: "children e = {s. s \<le> 32 \<and> get_bit (child_bitmap v) (unat s)}" using f(5) by (simp add: children_def)
    let ?child = "\<lambda>s. the (find_entry_in_pair_by_parent trie (hash_to_bucket (hash_path trie (p @ [s])))
      (hash_to_tag (hash_path trie (p @ [s]))) s (ucast (entry_color v)))"
    have found: "find_entry_in_pair_by_parent trie (hash_to_bucket (hash_path trie (p @ [s])))
        (hash_to_tag (hash_path trie (p @ [s]))) s (ucast (entry_color v)) = Some (?child s) \<and> copy_at trie T (p @ [s]) (?child s)"
      if "s \<in> children e" for s
      using find_child_by_parent [OF sh less.prems(1) bitmap that] f(3) by auto
    have sub: "represents heap trie (p @ [s]) (lc_value (?child s)) (kv_at T ` below T (p @ [s]))" if "s \<in> children e" for s
    proof -
      have "child_of T p (p @ [s])" using bitmap_child_of [where T = T and p = p, OF less.prems(1) bitmap] that by blast
      then show ?thesis using less.hyps [OF deeper] copy_at_value found [OF that] by blast
    qed
    have "represents heap trie p v (\<Union>s\<in>children e. kv_at T ` below T (p @ [s]))"
      by (rule rep_bitmap [where child = ?child, OF _ S]) (use bitmap f(1) bm found sub in simp_all)
    moreover have "below T p = (\<Union>s\<in>children e. below T (p @ [s]))"
      using below_node [OF ok less.prems(1)] bitmap_child_of [where T = T and p = p, OF less.prems(1) bitmap] bitmap by auto
    ultimately show ?thesis by (simp add: image_UN)
  qed
qed


theorem trie_shape_holds:
  assumes sh: "trie_shape heap trie T"
  shows "trie_holds heap trie (kvs_of T)"
proof -
  let ?root = "\<lparr>lc_value = cell trie root_ptr, last_pos = root_ptr, lc_primary_bucket = hash_to_bucket HASH_START_VALUE,
    last_seq = bucket_word trie (fst root_ptr)\<rparr>"
  have "fst root_ptr \<le> unat (num_buckets trie)" unfolding root_ptr_def start_hash by simp
  from read_entry_at_rest [OF table_invD(1) [OF trie_shapeD(1) [OF sh]] this]
  have "find_root trie = Some ?root" by (simp add: find_root_def root_ptr_def Let_def)
  moreover have "represents heap trie [] (cell trie root_ptr) (kv_at T ` below T [])"
    using shape_represents [OF sh trie_shapeD(5) [OF sh]] node_okD(2) [OF shape_node [OF sh trie_shapeD(5) [OF sh]]] by blast
  moreover have "kv_at T ` below T [] = kvs_of T" by (simp add: below_def kvs_of_def)
  ultimately show ?thesis using trie_shapeD(2) [OF sh] by (simp add: trie_holds_def)
qed

end
