(* ===== verification/Walk.thy ===== *)
theory Walk
  imports Shape
begin

text \<open>
  The descent along a shape. It ends at a node of the shape, and the finger's path holds
  current copies of the nodes at the prefixes on the way, each the child of the one before.
\<close>

definition finger_on :: "cuckoo_trie \<Rightarrow> shape \<Rightarrow> u64 list \<Rightarrow> ct_finger \<Rightarrow> u64 list \<Rightarrow> nat \<Rightarrow> bool" where
  "finger_on trie T ks f q d \<longleftrightarrow>
     copy_at trie T q (containing_entry f) \<and> depth_in_jump f = d \<and> prefix_len f = length q + d \<and> length q + d \<le> length ks \<and>
     f_prefix_hash f = hash_path trie (take (length q + d) ks) \<and>
     last_prefix_symbol f = ucast (last (0 # take (length q + d) ks)) \<and>
     take (length q + d) ks = q @ take d (jump_symbols (the (T q))) \<and>
     (if entry_type (the (T q)) = TYPE_JUMP then d < entry_jump_size (the (T q)) else d = 0)"

definition path_on :: "cuckoo_trie \<Rightarrow> shape \<Rightarrow> ct_path_entry list \<Rightarrow> u64 list list \<Rightarrow> bool" where
  "path_on trie T path qs \<longleftrightarrow> qs \<noteq> [] \<and> hd qs = [] \<and> length path = length qs \<and>
     (\<forall>i<length qs. copy_at trie T (qs ! i) (pe_entry (path ! i)) \<and> pe_prefix_hash (path ! i) = hash_path trie (qs ! i)) \<and>
     (\<forall>i. i + 1 < length qs \<longrightarrow> child_of T (qs ! i) (qs ! (i + 1)))"

definition finger_path :: "cuckoo_trie \<Rightarrow> shape \<Rightarrow> ct_finger \<Rightarrow> u64 list list \<Rightarrow> bool" where
  "finger_path trie T f qs \<longleftrightarrow> path_on trie T (f_path f) qs \<and> containing_entry f = pe_entry (last (f_path f))"

text \<open>Why the descent has ended.\<close>

definition stopped_at :: "shape \<Rightarrow> u64 list \<Rightarrow> int \<Rightarrow> u64 list \<Rightarrow> nat \<Rightarrow> bool" where
  "stopped_at T ks symbol q d \<longleftrightarrow>
     (if symbol = - 1 then q \<in> leaves T \<and> q = ks \<and> d = 0
      else length q + d < length ks \<and> symbol = uint (ks ! (length q + d)) \<and>
        (entry_type (the (T q)) = TYPE_JUMP \<longrightarrow> jump_symbols (the (T q)) ! d \<noteq> ks ! (length q + d)) \<and>
        (entry_type (the (T q)) = TYPE_BITMAP \<longrightarrow> ks ! length q \<notin> children (the (T q))))"

lemma path_on_snoc:
  assumes "path_on trie T path qs" and "child_of T (last qs) q" and "copy_at trie T q c"
  shows "path_on trie T (path @ [\<lparr>pe_entry = c, pe_prefix_hash = hash_path trie q\<rparr>]) (qs @ [q])"
proof -
  have qs: "qs \<noteq> []" "length path = length qs" using assms(1) by (auto simp: path_on_def)
  have "child_of T ((qs @ [q]) ! i) ((qs @ [q]) ! (i + 1))" if "i + 1 < length (qs @ [q])" for i
  proof (cases "i + 1 < length qs")
    case True
    then show ?thesis using assms(1) by (simp add: path_on_def nth_append)
  next
    case False
    then have "i = length qs - 1" using that qs by (cases qs) auto
    then show ?thesis using assms(2) qs by (simp add: nth_append last_conv_nth)
  qed
  then show ?thesis using assms(1,3) qs by (auto simp: path_on_def nth_append less_Suc_eq)
qed

lemma finger_path_changed:
  assumes "finger_path trie T f qs" and "child_of T (last qs) q" and "copy_at trie T q c"
    and "f_path g = f_path f" and "containing_entry g = c" and "f_prefix_hash g = hash_path trie q"
  shows "finger_path trie T (finger_node_changed g True) (qs @ [q])"
  using path_on_snoc [OF _ assms(2,3), of "f_path f"] assms
  by (simp add: finger_path_def finger_node_changed_def store_path_entry_def Let_def)

lemma shape_end_leaf:
  assumes sh: "trie_shape heap trie T" and p: "T p = Some e" and "end": "p \<noteq> []" "last p = SYMBOL_END"
  shows "p \<in> leaves T"
  using represents_end [OF shape_represents [OF sh p node_okD(2) [OF shape_node [OF sh p]]] "end"] p
  by (simp add: leaves_def)

lemma copy_at_node:
  assumes "copy_at trie T q c" and "T q = Some e"
  shows "erase_side (lc_value c) = e"
  using assms by (auto simp: copy_at_def copy_of_def)

lemma jump_symbol_bounds:
  assumes "wf_entry e" and "entry_jump_size e \<le> 8" and "d < entry_jump_size e"
  shows "jump_symbols e ! d \<noteq> SYMBOL_END" and "jump_symbols e ! d \<le> 32" and "ucast (ucast (jump_symbols e ! d) :: u8) = jump_symbols e ! d"
proof -
  have "d < 8" using assms(2,3) by simp
  note b = get_jump_symbol_bounds [OF assms(1) this]
  show "jump_symbols e ! d \<noteq> SYMBOL_END" "jump_symbols e ! d \<le> 32" using b assms(3) by (simp_all add: jump_symbol_nth)
  then show "ucast (ucast (jump_symbols e ! d) :: u8) = jump_symbols e ! d" using symbol_byte by blast
qed

text \<open>One step of the walk: it stops, or the finger is on the shape one symbol further.\<close>

definition path_grows :: "cuckoo_trie \<Rightarrow> shape \<Rightarrow> bool \<Rightarrow> ct_finger \<Rightarrow> u64 list \<Rightarrow> ct_finger \<Rightarrow> u64 list \<Rightarrow> bool" where
  "path_grows trie T track f q f' q' \<longleftrightarrow>
     (\<forall>qs. track \<and> finger_path trie T f qs \<and> last qs = q \<longrightarrow> (\<exists>qs'. finger_path trie T f' qs' \<and> last qs' = q'))"

lemma path_grows_trans: "path_grows trie T track f q g p \<Longrightarrow> path_grows trie T track g p f' q' \<Longrightarrow> path_grows trie T track f q f' q'"
  unfolding path_grows_def by blast

lemma path_grows_child:
  assumes "child_of T q q'" and "copy_at trie T q' c" and "f_path g = f_path f" and "containing_entry g = c"
    and "f_prefix_hash g = hash_path trie q'"
  shows "path_grows trie T track f q (finger_node_changed g track) q'"
  unfolding path_grows_def using finger_path_changed [OF _ _ assms(2-5)] assms(1) by (metis last_snoc)

lemma at_child:
  assumes sh: "trie_shape heap trie T" and cp: "copy_at trie T q' c" and q': "q' = take (n + 1) ks" and n: "n < length ks"
    and g: "containing_entry g = c" "prefix_len g = n + 1" "f_prefix_hash g = hash_path trie q'" "last_prefix_symbol g = ucast (ks ! n)"
  shows "finger_on trie T ks (finger_node_changed g track) q' 0"
proof -
  obtain e where e: "T q' = Some e" using cp by (auto simp: copy_at_def)
  have "entry_type e = TYPE_JUMP \<Longrightarrow> 0 < entry_jump_size e" using node_okD(6) [OF shape_node [OF sh e]] by blast
  moreover have "length q' = n + 1" using q' n by simp
  moreover have "last (0 # take (n + 1) ks) = ks ! n" using n by (simp add: take_Suc_conv_app_nth)
  ultimately show ?thesis
    using cp e g q' by (auto simp: finger_on_def finger_node_changed_def store_path_entry_def Let_def)
qed

theorem descend_step:
  assumes sh: "trie_shape heap trie T" and ks: "\<forall>i<length ks. ks ! i \<le> 32"
    and ends: "\<forall>i<length ks. ks ! i = SYMBOL_END \<longleftrightarrow> i = length ks - 1"
    and on: "finger_on trie T ks f q d" and n: "length q + d < length ks"
  defines "s \<equiv> ks ! (length q + d)" and "h \<equiv> hash_path trie (take (length q + d + 1) ks)"
  shows "try_descend trie f s track h = Some (False, f) \<and> stopped_at T ks (uint s) q d \<or>
    (\<exists>f' q' d'. try_descend trie f s track h = Some (True, f') \<and> finger_on trie T ks f' q' d' \<and> length q' + d' = length q + d + 1 \<and>
      path_grows trie T track f q f' q' \<and> (s = SYMBOL_END \<longrightarrow> stopped_at T ks (- 1) q' d'))"
proof -
  let ?n = "length q + d" and ?v = "lc_value (containing_entry f)"
  note on' = on [unfolded finger_on_def]
  have cp: "copy_at trie T q (containing_entry f)" using on' by blast
  obtain e where e: "T q = Some e" using cp by (auto simp: copy_at_def)
  note nd = shape_node [OF sh e] and v = erased_node [OF copy_at_node [OF cp e]]
  note wf = node_okD(1) [OF nd]
  have pl: "prefix_len f = ?n" and dj: "depth_in_jump f = d" using on' by simp_all
  have s32: "s \<le> 32" using ks n by (simp add: s_def)
  have not1: "uint s \<noteq> - 1" using uint_ge_0 [of s] by linarith
  have t1: "take (?n + 1) ks = take ?n ks @ [s]" using n by (simp add: take_Suc_conv_app_nth s_def)
  consider (leaf) "entry_type e = TYPE_LEAF" | (jump) "entry_type e = TYPE_JUMP" | (bitmap) "entry_type e = TYPE_BITMAP"
    using node_okD(8) [OF nd] by blast
  then show ?thesis
  proof cases
    case leaf
    then have "try_descend trie f s track h = Some (False, f)" using v(1) by (simp add: try_descend_def Let_def)
    then show ?thesis using not1 n e leaf by (simp add: stopped_at_def s_def)
  next
    case jump
    note size = node_okD(6) [OF nd jump]
    have d: "d < entry_jump_size e" using on' e jump by simp
    have js: "jump_symbols ?v = jump_symbols e" using v(14) wf size by simp
    have sym: "get_jump_symbol ?v d = jump_symbols e ! d" using d v(10) js by (metis jump_symbol_nth)
    note jb = jump_symbol_bounds [OF wf conjunct1 [OF conjunct2 [OF size]] d]
    show ?thesis
    proof (cases "jump_symbols e ! d = s")
      case False
      then have "try_descend trie f s track h = Some (False, f)" using jump v(1) sym jb(3) dj by (simp add: try_descend_def Let_def)
      then show ?thesis using not1 n e jump False by (simp add: stopped_at_def s_def)
    next
      case True
      have ne: "s \<noteq> SYMBOL_END" using jb(1) True by simp
      then have more: "?n + 1 < length ks" using ends n unfolding s_def by (metis Suc_eq_plus1 Suc_lessI diff_Suc_1)
      have taken: "take (?n + 1) ks = q @ take (d + 1) (jump_symbols e)" using t1 on' e True d by (simp add: take_Suc_conv_app_nth)
      let ?f = "(finger_extend_prefix_known_hash f (ucast s) h)\<lparr>depth_in_jump := d + 1\<rparr>"
      show ?thesis
      proof (cases "d + 1 = entry_jump_size e")
        case False
        then have "try_descend trie f s track h = Some (True, ?f)"
          using jump v(1,10) True sym jb(3) dj by (simp add: try_descend_def Let_def finger_extend_prefix_known_hash_def)
        moreover have "finger_on trie T ks ?f q (d + 1)"
          using on' e jump d False taken t1 more by (simp add: finger_on_def finger_extend_prefix_known_hash_def h_def)
        moreover have "path_grows trie T track f q ?f q"
          by (auto simp: path_grows_def finger_path_def finger_extend_prefix_known_hash_def)
        ultimately show ?thesis using ne by (metis add.assoc)
      next
        case end_of_jump: True
        let ?q = "q @ jump_symbols e"
        have q': "?q = take (?n + 1) ks" using taken end_of_jump by simp
        have lq: "length ?q = ?n + 1" using end_of_jump by simp
        obtain c where c: "T ?q = Some c" "entry_color c = entry_child_color e" using size by (auto simp: jump_child_ok_def)
        obtain lc where lc: "find_entry_in_pair_by_color trie (hash_to_bucket (hash_path trie ?q))
            (hash_to_tag (hash_path trie ?q)) (ucast (entry_color c)) = Some lc" "copy_at trie T ?q lc"
          using find_node_by_color [OF sh c(1)] by blast
        let ?g = "?f\<lparr>containing_entry := lc\<rparr>"
        have hq: "h = hash_path trie ?q" by (simp add: h_def q')
        have "try_descend trie f s track h = Some (True, finger_node_changed ?g track)"
          using jump v(1,10,11) True sym jb(3) dj end_of_jump lc(1) c(2) hq
          by (simp add: try_descend_def Let_def finger_extend_prefix_known_hash_def)
        moreover have "finger_on trie T ks (finger_node_changed ?g track) ?q 0"
          by (rule at_child [OF sh lc(2) q' n]) (use pl hq in \<open>simp_all add: finger_extend_prefix_known_hash_def s_def\<close>)
        moreover have "path_grows trie T track f q (finger_node_changed ?g track) ?q"
          by (rule path_grows_child [OF _ lc(2)]) (use e jump hq in \<open>auto simp: child_of_def finger_extend_prefix_known_hash_def\<close>)
        ultimately show ?thesis using ne lq by (metis add_0_right)
      qed
    qed
  next
    case bitmap
    have d0: "d = 0" using on' e bitmap by simp
    have bit: "get_bit (child_bitmap ?v) (unat s) \<longleftrightarrow> s \<in> children e" using s32 v(5) by (simp add: children_def)
    show ?thesis
    proof (cases "s \<in> children e")
      case False
      then have "try_descend trie f s track h = Some (False, f)" using bitmap v(1) bit by (simp add: try_descend_def Let_def)
      then show ?thesis using not1 n e bitmap False d0 by (simp add: stopped_at_def s_def)
    next
      case True
      let ?q = "q @ [s]"
      have q': "?q = take (?n + 1) ks" using t1 on' d0 by simp
      obtain lc where lc: "find_entry_in_pair_by_parent trie (hash_to_bucket (hash_path trie ?q))
          (hash_to_tag (hash_path trie ?q)) s (ucast (entry_color e)) = Some lc" "copy_at trie T ?q lc"
        using find_child_by_parent [OF sh e bitmap True] by blast
      obtain c where c: "T ?q = Some c" using lc(2) by (auto simp: copy_at_def)
      let ?g = "(finger_extend_prefix_known_hash f (ucast s) h)\<lparr>containing_entry := lc\<rparr>"
      have hq: "h = hash_path trie ?q" by (simp add: h_def q')
      have "try_descend trie f s track h = Some (True, finger_node_changed ?g track)"
        using bitmap v(1,3) True bit lc(1) hq by (simp add: try_descend_def Let_def finger_extend_prefix_known_hash_def)
      moreover have "finger_on trie T ks (finger_node_changed ?g track) ?q 0"
        by (rule at_child [OF sh lc(2) q' n]) (use pl hq in \<open>simp_all add: finger_extend_prefix_known_hash_def s_def\<close>)
      moreover have "path_grows trie T track f q (finger_node_changed ?g track) ?q"
        by (rule path_grows_child [OF _ lc(2)]) (use e bitmap True hq in \<open>auto simp: child_of_def finger_extend_prefix_known_hash_def\<close>)
      moreover have "stopped_at T ks (- 1) ?q 0" if "s = SYMBOL_END"
      proof -
        have "?n = length ks - 1" using ends n that by (simp add: s_def)
        then have "?q = ks" using q' n by simp
        moreover have "?q \<in> leaves T" using shape_end_leaf [OF sh c] that by simp
        ultimately show ?thesis by (simp add: stopped_at_def)
      qed
      moreover have "length ?q + 0 = length q + d + 1" using d0 by simp
      ultimately show ?thesis by blast
    qed
  qed
qed

theorem descend_shape:
  assumes sh: "trie_shape heap trie T" and len: "length ks \<le> 411" and ks: "\<forall>i<length ks. ks ! i \<le> 32"
    and ends: "\<forall>i<length ks. ks ! i = SYMBOL_END \<longleftrightarrow> i = length ks - 1"
    and on: "finger_on trie T ks f q d" and n: "length q + d < length ks" and pre: "prefetched trie ks (length q + d + 4) p"
  shows "\<exists>symbol f' q' d'. descend_from trie p f track = Some (symbol, f') \<and> finger_on trie T ks f' q' d' \<and>
    stopped_at T ks symbol q' d' \<and> path_grows trie T track f q f' q'"
  using on n pre
proof (induction "length ks - (length q + d)" arbitrary: f q d p rule: less_induct)
  case less
  let ?n = "length q + d" and ?s = "ks ! (length q + d)" and ?h = "hash_path trie (take (length q + d + 1) ks)"
  have n: "prefix_len f = ?n" using less.prems(1) by (simp add: finger_on_def)
  have pf: "prefetched trie ks (prefix_len f + 4) p" using less.prems(3) n by simp
  note turn = descend_turn [OF pf len, unfolded n, OF less.prems(2)]
  from descend_step [OF sh ks ends less.prems(1,2), of track] show ?case
  proof (elim disjE conjE exE)
    assume t: "try_descend trie f ?s track ?h = Some (False, f)" and st: "stopped_at T ks (uint ?s) q d"
    have "descend_from trie p f track = Some (uint ?s, f)" using turn(1) t by simp
    moreover have "path_grows trie T track f q f q" by (auto simp: path_grows_def)
    ultimately show ?thesis using less.prems(1) st by blast
  next
    fix f' q' d'
    assume t: "try_descend trie f ?s track ?h = Some (True, f')" and on': "finger_on trie T ks f' q' d'"
      and len': "length q' + d' = ?n + 1" and grows: "path_grows trie T track f q f' q'"
      and "end": "?s = SYMBOL_END \<longrightarrow> stopped_at T ks (- 1) q' d'"
    show ?thesis
    proof (cases "?s = SYMBOL_END")
      case True
      then have "descend_from trie p f track = Some (- 1, f')" using turn(1) t by simp
      then show ?thesis using on' "end" True grows by blast
    next
      case False
      have step: "descend_from trie p f track = descend_from trie (prefetcher_step trie p) f' track" using turn(1) t False by simp
      have more: "?n + 1 < length ks" using ends less.prems(2) False by (metis Suc_eq_plus1 Suc_lessI diff_Suc_1)
      have pre': "prefetched trie ks (length q' + d' + 4) (prefetcher_step trie p)" using turn(2) n len' by (simp add: algebra_simps)
      have "length ks - (length q' + d') < length ks - ?n" "length q' + d' < length ks" using more len' by simp_all
      from less.hyps [OF this(1) on' this(2) pre'] obtain symbol f'' q'' d'' where
        r: "descend_from trie (prefetcher_step trie p) f' track = Some (symbol, f'')" "finger_on trie T ks f'' q'' d''"
          "stopped_at T ks symbol q'' d''" "path_grows trie T track f' q' f'' q''" by blast
      show ?thesis unfolding step using r(1-3) path_grows_trans [OF grows r(4)] by blast
    qed
  qed
qed

end
