(* ===== verification/Tracked.thy ===== *)
theory Tracked
  imports Walk
begin

text \<open>
  Changes of a trie step by step. The state between the steps of an operation is a table
  whose content is that of some shape; local copies stay usable as long as their bucket has
  not been written often enough for its counter to come round, \<open>2 ^ 23\<close> times.
\<close>

lemma frame_fields:
  assumes "frame t' = frame t"
  shows "num_buckets t' = num_buckets t" and "home t' = home t" and "accumulate_hash t' = accumulate_hash t"
    and "is_empty t' = is_empty t" and "hash_path t' = hash_path t" and "table_cells t' = table_cells t"
    and "trie_min_leaf t' = trie_min_leaf t"
proof -
  note f = frame_table [OF assms]
  show "num_buckets t' = num_buckets t" "home t' = home t" "accumulate_hash t' = accumulate_hash t" "is_empty t' = is_empty t"
    "table_cells t' = table_cells t" "trie_min_leaf t' = trie_min_leaf t" using f(1-6) .
  have "hash_path t' symbols = hash_path t symbols" for symbols unfolding hash_path_def f(3) ..
  then show "hash_path t' = hash_path t" by (rule ext)
qed

subsection \<open>Shapes and their content\<close>

lemma place_upd: "place trie (T(p \<mapsto> e)) q = (if q = p then (hash_to_bucket (hash_path trie p), e) else place trie T q)"
  by (simp add: place_def)

lemma shape_content_new:
  assumes "finite (dom T)" and "p \<notin> dom T"
  shows "shape_content trie (T(p \<mapsto> e)) = add_mset (hash_to_bucket (hash_path trie p), e) (shape_content trie T)"
proof -
  have "image_mset (place trie (T(p \<mapsto> e))) (mset_set (dom T)) = image_mset (place trie T) (mset_set (dom T))"
    by (rule image_mset_cong) (use assms in \<open>auto simp: place_upd\<close>)
  then show ?thesis using assms by (simp add: shape_content_def place_upd)
qed

lemma shape_content_upd:
  assumes fin: "finite (dom T)" and p: "T p = Some e"
  shows "shape_content trie (T(p \<mapsto> e')) =
    add_mset (hash_to_bucket (hash_path trie p), e') (shape_content trie T - {#(hash_to_bucket (hash_path trie p), e)#})"
proof -
  have f: "finite (dom (T(p := None)))" "p \<notin> dom (T(p := None))" using fin by simp_all
  have "shape_content trie ((T(p := None))(p \<mapsto> e)) = shape_content trie T" using p by (simp add: fun_upd_idem)
  then have "shape_content trie T = add_mset (hash_to_bucket (hash_path trie p), e) (shape_content trie (T(p := None)))"
    using shape_content_new [OF f, of trie e] by simp
  then show ?thesis using shape_content_new [OF f, of trie e'] by simp
qed

lemma shape_content_cong: "hash_path t' = hash_path t \<Longrightarrow> shape_content t' T = shape_content t T"
  unfolding shape_content_def place_def by simp

definition tracks :: "cuckoo_trie \<Rightarrow> shape \<Rightarrow> bool" where
  "tracks trie T \<longleftrightarrow> table_inv trie \<and> finite (dom T) \<and> table_content trie = shape_content trie T"

lemma tracksD:
  assumes "tracks trie T"
  shows "table_inv trie" and "finite (dom T)" and "table_content trie = shape_content trie T" and "table_ok trie"
    and "T p = Some e \<Longrightarrow> (hash_to_bucket (hash_path trie p), e) \<in># table_content trie"
proof -
  show t: "table_inv trie" "finite (dom T)" "table_content trie = shape_content trie T" "table_ok trie"
    using assms table_invD by (auto simp: tracks_def)
  show "T p = Some e \<Longrightarrow> (hash_to_bucket (hash_path trie p), e) \<in># table_content trie"
    unfolding t(3) shape_member [OF t(2)] by (force simp: place_def)
qed

lemma tracks_shape: "trie_shape heap trie T \<Longrightarrow> tracks trie T"
  using trie_shapeD(1,3,4) shape_okD(1) unfolding tracks_def by blast

lemma tracks_unlocked:
  assumes u: "unlocked t' = unlocked t" and tr: "tracks t T"
  shows "tracks t' T"
proof -
  have len: "length (buckets t') = unat (num_buckets t') + 1"
    unfolding unlocked_eqD(1) [OF u] unlocked_fields(1) [OF u] by (rule table_okD(3) [OF tracksD(4) [OF tr]])
  have c: "table_content t' = table_content t" by (rule content_unlocked [OF u len])
  have "frame t' = frame t" using wrote_unlocked [OF u, of "{}"] by (simp add: wrote_def)
  then have sc: "shape_content t' T = shape_content t T" by (rule shape_content_cong [OF frame_fields(5)])
  show ?thesis using tr table_ok_unlocked [OF u] unfolding tracks_def table_inv_def c sc by blast
qed

subsection \<open>Copies of nodes\<close>

text \<open>A copy of the node at \<open>p\<close>, taken at most \<open>n\<close> writes ago.\<close>

definition copy_on :: "cuckoo_trie \<Rightarrow> shape \<Rightarrow> u64 list \<Rightarrow> nat \<Rightarrow> ct_entry_local_copy \<Rightarrow> bool" where
  "copy_on trie T p n c \<longleftrightarrow> lc_primary_bucket c = hash_to_bucket (hash_path trie p) \<and> T p = Some (erase_side (lc_value c)) \<and>
     fst (last_pos c) < length (buckets trie) \<and>
     (\<exists>k\<le>n. seq_of_word (bucket_word trie (fst (last_pos c))) = seq_of_word (last_seq c) + of_nat (512 * k) \<and>
        (k = 0 \<longrightarrow> last_pos c \<in> table_cells trie \<and> cell trie (last_pos c) = lc_value c \<and>
           home trie (fst (last_pos c)) (lc_value c) = lc_primary_bucket c))"

lemma copy_at_on:
  assumes "copy_at trie T p c" and "table_ok trie"
  shows "copy_on trie T p n c"
proof -
  obtain pos where "pos \<in> table_cells trie" "c = copy_of trie (hash_to_bucket (hash_path trie p)) pos"
    "home trie (fst pos) (cell trie pos) = hash_to_bucket (hash_path trie p)" "T p = Some (erase_side (cell trie pos))"
    using assms(1) by (auto simp: copy_at_def)
  then show ?thesis using table_okD(3) [OF assms(2)] by (auto simp: copy_on_def copy_of_def table_cells_def intro!: exI [of _ 0])
qed

lemma copy_on_wrote:
  assumes c: "copy_on t T p n c" and w: "wrote B m t t'" and T: "T' p = T p"
  shows "copy_on t' T' p (n + m) c"
proof -
  let ?b = "fst (last_pos c)"
  have f: "frame t' = frame t" "length (buckets t') = length (buckets t)" using w by (simp_all add: wrote_def)
  note F = frame_fields [OF f(1)]
  obtain k where k: "k \<le> n" "seq_of_word (bucket_word t ?b) = seq_of_word (last_seq c) + of_nat (512 * k)"
    "k = 0 \<longrightarrow> last_pos c \<in> table_cells t \<and> cell t (last_pos c) = lc_value c \<and> home t ?b (lc_value c) = lc_primary_bucket c"
    using c by (auto simp: copy_on_def)
  have b: "?b < length (buckets t)" using c by (simp add: copy_on_def)
  obtain l where l: "l \<le> m" "seq_of_word (bucket_word t' ?b) = seq_of_word (bucket_word t ?b) + of_nat (512 * l)"
    "l = 0 \<longrightarrow> cells (buckets t' ! ?b) = cells (buckets t ! ?b)" using w b by (auto simp: wrote_def)
  have "cell t' (last_pos c) = cell t (last_pos c)" if "l = 0" using l(3) that by (simp add: cell_def)
  then have "\<exists>k\<le>n + m. seq_of_word (bucket_word t' ?b) = seq_of_word (last_seq c) + of_nat (512 * k) \<and>
      (k = 0 \<longrightarrow> last_pos c \<in> table_cells t' \<and> cell t' (last_pos c) = lc_value c \<and> home t' ?b (lc_value c) = lc_primary_bucket c)"
    using k l F by (intro exI [of _ "k + l"]) (auto simp: algebra_simps)
  then show ?thesis using c f F T by (simp add: copy_on_def)
qed

lemma copy_on_mono: "copy_on t T p n c \<Longrightarrow> n \<le> m \<Longrightarrow> copy_on t T p m c"
  unfolding copy_on_def by (meson order_trans)

lemma copy_on_current:
  assumes c: "copy_on trie T p n c" and tr: "tracks trie T" and n: "n < 2 ^ 23"
  shows "current trie c"
proof -
  obtain k where k: "k \<le> n" "seq_of_word (bucket_word trie (fst (last_pos c))) = seq_of_word (last_seq c) + of_nat (512 * k)"
    "k = 0 \<longrightarrow> last_pos c \<in> table_cells trie \<and> cell trie (last_pos c) = lc_value c \<and>
       home trie (fst (last_pos c)) (lc_value c) = lc_primary_bucket c" using c by (auto simp: copy_on_def)
  have "k = 0" if "validate_entry trie c"
  proof -
    have z: "(of_nat (512 * k) :: u32) = 0" using that k(2) by (simp add: validate_entry_def)
    have "512 * k < 2 ^ 32" using k(1) n by simp
    then have "unat (of_nat (512 * k) :: u32) = 512 * k" unfolding unat_of_nat by simp
    then show ?thesis unfolding z by simp
  qed
  moreover have "(lc_primary_bucket c, erase_side (lc_value c)) \<in># table_content trie"
    using c tracksD(5) [OF tr] by (simp add: copy_on_def)
  ultimately show ?thesis using k(3) by (auto simp: current_def)
qed


lemma tracks_cong:
  assumes "frame t' = frame t" and "table_inv t'" and "finite (dom T')" and "table_content t' = shape_content t T'"
  shows "tracks t' T'"
  using assms shape_content_cong [OF frame_fields(5) [OF assms(1)]] by (simp add: tracks_def)

text \<open>An update through a copy changes the shape at the copy's prefix.\<close>

theorem update_entry_tracks:
  assumes tr: "tracks trie T" and c: "copy_on trie T p n c" and n: "n < 2 ^ 23"
    and new: "wf_entry e" "entry_type e \<noteq> TYPE_UNUSED" "color_and_tag e = color_and_tag (lc_value c)"
      "entry_is_secondary e = entry_is_secondary (lc_value c)"
  shows "\<exists>c' trie'. update_entry trie c e = Some (c', trie') \<and> tracks trie' (T(p \<mapsto> erase_side e)) \<and>
    wrote {..<unat (num_buckets trie)} 1 trie trie' \<and> copy_on trie' (T(p \<mapsto> erase_side e)) p 0 c' \<and>
    erase_side (lc_value c') = erase_side e \<and>
    (\<exists>pos f. trie' = snd (write_entry trie pos f) \<and> pos \<in> table_cells trie \<and> wf_entry f \<and> erase_side f = erase_side e \<and>
       home trie (fst pos) (cell trie pos) = hash_to_bucket (hash_path trie p) \<and> T p = Some (erase_side (cell trie pos)) \<and>
       entry_is_secondary f = entry_is_secondary (cell trie pos))"
proof -
  note cur = copy_on_current [OF c tr n]
  have b: "lc_primary_bucket c = hash_to_bucket (hash_path trie p)" and T: "T p = Some (erase_side (lc_value c))"
    using c by (simp_all add: copy_on_def)
  obtain c' trie' where u: "update_entry trie c e = Some (c', trie')" "table_inv trie'" "current trie' c'"
    "table_content trie' = add_mset (lc_primary_bucket c, erase_side e) (table_content trie - {#(lc_primary_bucket c, erase_side (lc_value c))#})"
    "lc_primary_bucket c' = lc_primary_bucket c" "erase_side (lc_value c') = erase_side e"
    using update_entry_in_content [OF tracksD(1) [OF tr] cur new] by blast
  obtain pos f where w: "trie' = snd (write_entry trie pos f)" "last_pos c' = pos" "lc_value c' = f"
      "last_seq c' = fst (write_entry trie pos f)" "pos \<in> table_cells trie" "wf_entry f"
      "home trie (fst pos) (cell trie pos) = lc_primary_bucket c" "erase_side (cell trie pos) = erase_side (lc_value c)"
      "entry_is_secondary f = entry_is_secondary (cell trie pos)"
  proof (cases "validate_entry trie c")
    case True
    then show ?thesis using that [of "last_pos c" e] u(1) cur new(1,4)
      by (auto simp: update_entry_def case_prod_beta current_def)
  next
    case False
    have mem: "(lc_primary_bucket c, erase_side (lc_value c)) \<in># table_content trie" using cur by (simp add: current_def)
    obtain pos where "pos \<in> table_cells trie" "find_entry_in_pair_by_color trie (lc_primary_bucket c)
        (ucast (entry_tag (lc_value c))) (ucast (entry_color (lc_value c))) = Some (copy_of trie (lc_primary_bucket c) pos)"
      "home trie (fst pos) (cell trie pos) = lc_primary_bucket c" "erase_side (cell trie pos) = erase_side (lc_value c)"
      using find_by_color_in_content [OF tracksD(1) [OF tr] mem] by auto
    then show ?thesis using that [of pos "lc_value c'"] u(1) False new(1) put_side_fields(1,3) [of e "cell trie pos"]
      by (auto simp: update_entry_def update_entry_slow_path_def case_prod_beta copy_of_def put_side_def Let_def)
  qed
  have ok: "table_ok trie" by (rule tracksD(4) [OF tr])
  have wr: "wrote {..<unat (num_buckets trie)} 1 trie trie'" unfolding w(1) by (rule wrote_write_entry [OF w(5) ok w(6)])
  then have fr: "frame trie' = frame trie" by (simp add: wrote_def)
  have tr': "tracks trie' (T(p \<mapsto> erase_side e))"
    by (rule tracks_cong [OF fr u(2)]) (use tracksD(2,3) [OF tr] u(4) b T in \<open>simp_all add: shape_content_upd\<close>)
  have word: "bucket_word trie' (fst pos) = last_seq c'"
    using table_cells_valid [OF ok w(5)] w(1,4,6) by (simp add: write_entry_eq table_simps valid_ptr_def)
  then have "validate_entry trie' c'" using w(2) by (simp add: validate_entry_def)
  then have "last_pos c' \<in> table_cells trie'" "cell trie' (last_pos c') = lc_value c'"
    "home trie' (fst (last_pos c')) (lc_value c') = lc_primary_bucket c'" using u(3) by (simp_all add: current_def)
  moreover from this(1) have "fst (last_pos c') < length (buckets trie')"
    using table_okD(3) [OF tracksD(4) [OF tr']] by (auto simp: table_cells_def)
  ultimately have "copy_on trie' (T(p \<mapsto> erase_side e)) p 0 c'"
    using u(5,6) b word w(2) frame_fields(5) [OF fr] by (simp add: copy_on_def)
  moreover have "erase_side f = erase_side e" using u(6) w(3) by simp
  ultimately show ?thesis using u(1,6) tr' wr w(1,5-9) b T by (metis (no_types, lifting))
qed

lemma erase_id_iff: "erase_side e = e \<longleftrightarrow> \<not> entry_is_secondary e"
proof
  show "erase_side e = e \<Longrightarrow> \<not> entry_is_secondary e"
    using bit_sides(2) [of e 2] by (simp add: entry_is_secondary_bit)
  assume "\<not> entry_is_secondary e"
  then have "parent_color_and_flags (erase_side e) = parent_color_and_flags e"
    by (intro bit_word_eqI) (auto simp: bit_sides entry_is_secondary_bit)
  then show "erase_side e = e" by (simp add: erase_side_def)
qed

text \<open>The root stays where it is.\<close>

lemma hash_path_Nil: "hash_path trie [] = HASH_START_VALUE"
  by (simp add: hash_path_def)

lemma place_unique_cell:
  assumes tr: "tracks trie T" and T: "T p = Some (erase_side (cell trie pos))" "T q = Some (erase_side (cell trie pos'))"
    and cells: "pos \<in> table_cells trie" "pos' \<in> table_cells trie"
    and home: "home trie (fst pos) (cell trie pos) = hash_to_bucket (hash_path trie p)"
      "home trie (fst pos') (cell trie pos') = hash_to_bucket (hash_path trie q)"
    and used: "entry_type (cell trie pos) \<noteq> TYPE_UNUSED" "entry_type (cell trie pos') \<noteq> TYPE_UNUSED"
  shows "p = q \<longleftrightarrow> pos = pos'"
proof
  assume "pos = pos'"
  then show "p = q" using place_slot_inject [OF tracksD(2) [OF tr], of trie p q] tracksD(1,3) [OF tr] T home
    by (auto simp: slot_place table_inv_def)
next
  assume "p = q"
  then have "cell_slot trie pos = cell_slot trie pos'" using T home by (simp add: cell_slot_def slot_def)
  then show "pos = pos'" using cell_slot_unique [OF table_invD(2) [OF tracksD(1) [OF tr]] cells(1) used(1) cells(2) used(2)] by blast
qed

lemma write_keeps_root:
  assumes tr: "tracks trie T" and root: "T [] = Some (cell trie root_ptr)"
    and pos: "pos \<in> table_cells trie" "home trie (fst pos) (cell trie pos) = hash_to_bucket (hash_path trie p)"
      "T p = Some (erase_side (cell trie pos))" "entry_type (cell trie pos) \<noteq> TYPE_UNUSED" "entry_type (cell trie root_ptr) \<noteq> TYPE_UNUSED"
    and f: "wf_entry f" "entry_is_secondary f = entry_is_secondary (cell trie pos)" "\<not> entry_is_secondary (cell trie root_ptr)"
  shows "(T(p \<mapsto> erase_side f)) [] = Some (cell (snd (write_entry trie pos f)) root_ptr)"
proof -
  note ok = tracksD(4) [OF tr]
  have home: "home trie (fst root_ptr) (cell trie root_ptr) = hash_to_bucket (hash_path trie [])"
    using f(3) by (simp add: home_def hash_path_Nil root_ptr_def)
  have "T [] = Some (erase_side (cell trie root_ptr))" using root f(3) erase_id_iff by metis
  from place_unique_cell [OF tr pos(3) this pos(1) root_cell [OF ok] pos(2) home pos(4,5)]
  have "p = [] \<longleftrightarrow> pos = root_ptr" .
  then show ?thesis using cell_write_entry [OF ok pos(1) f(1), of root_ptr] root f erase_id_iff [of f] by auto
qed


text \<open>With the root in its place; this is what holds between the steps of an operation.\<close>

definition rooted :: "cuckoo_trie \<Rightarrow> shape \<Rightarrow> bool" where
  "rooted trie T \<longleftrightarrow> tracks trie T \<and> \<not> is_empty trie \<and> T [] = Some (cell trie root_ptr) \<and>
     \<not> entry_is_secondary (cell trie root_ptr) \<and> entry_type (cell trie root_ptr) \<noteq> TYPE_UNUSED"

lemma rootedD:
  assumes "rooted trie T"
  shows "tracks trie T" and "\<not> is_empty trie" and "T [] = Some (cell trie root_ptr)"
    and "\<not> entry_is_secondary (cell trie root_ptr)" and "entry_type (cell trie root_ptr) \<noteq> TYPE_UNUSED"
  using assms by (auto simp: rooted_def)

lemma shape_rooted: "trie_shape heap trie T \<Longrightarrow> rooted trie T"
  using tracks_shape trie_shapeD(2,5) node_okD(2,9) [OF shape_node] erase_id_iff unfolding rooted_def by metis

lemma rooted_unlocked:
  assumes u: "unlocked t' = unlocked t" and r: "rooted t T"
  shows "rooted t' T"
proof -
  note tr = rootedD(1) [OF r]
  have "fst root_ptr < length (buckets t')"
    using table_okD(3) [OF tracksD(4) [OF tr]] unlocked_eqD(1) [OF u] by (simp add: root_ptr_def start_hash)
  then have "cell t' root_ptr = cell t root_ptr" by (rule unlocked_cell [OF u])
  then show ?thesis using r tracks_unlocked [OF u tr] unlocked_fields(7) [OF u] by (simp add: rooted_def)
qed

lemma content_used:
  assumes inv: "table_inv trie" and p: "pos \<in> table_cells trie" and mem: "(b, erase_side (cell trie pos)) \<in># table_content trie"
  shows "entry_type (cell trie pos) \<noteq> TYPE_UNUSED"
proof -
  have "entry_color (erase_side (cell trie pos)) \<le> 8" using table_invD(3) [OF inv] mem by (auto simp: valid_colors_def)
  then have "entry_color (cell trie pos) < 9" by (simp add: word_less_nat_alt word_le_nat_alt)
  then show ?thesis by (rule used_color [OF table_invD(1) [OF inv] p])
qed

theorem update_entry_rooted:
  assumes r: "rooted trie T" and c: "copy_on trie T p n c" and n: "n < 2 ^ 23"
    and new: "wf_entry e" "entry_type e \<noteq> TYPE_UNUSED" "color_and_tag e = color_and_tag (lc_value c)"
      "entry_is_secondary e = entry_is_secondary (lc_value c)"
  shows "\<exists>c' trie'. update_entry trie c e = Some (c', trie') \<and> rooted trie' (T(p \<mapsto> erase_side e)) \<and>
    wrote {..<unat (num_buckets trie)} 1 trie trie' \<and> copy_on trie' (T(p \<mapsto> erase_side e)) p 0 c' \<and>
    erase_side (lc_value c') = erase_side e \<and> (\<exists>q f. trie' = snd (write_entry trie q f))"
proof -
  note tr = rootedD(1) [OF r]
  obtain c' trie' pos f where u: "update_entry trie c e = Some (c', trie')" "tracks trie' (T(p \<mapsto> erase_side e))"
    "wrote {..<unat (num_buckets trie)} 1 trie trie'" "copy_on trie' (T(p \<mapsto> erase_side e)) p 0 c'"
    "erase_side (lc_value c') = erase_side e" "trie' = snd (write_entry trie pos f)"
    and f: "pos \<in> table_cells trie" "wf_entry f" "erase_side f = erase_side e"
      "home trie (fst pos) (cell trie pos) = hash_to_bucket (hash_path trie p)" "T p = Some (erase_side (cell trie pos))"
      "entry_is_secondary f = entry_is_secondary (cell trie pos)"
    using update_entry_tracks [OF tr c n new] by blast
  have used: "entry_type (cell trie pos) \<noteq> TYPE_UNUSED"
    by (rule content_used [OF tracksD(1) [OF tr] f(1)]) (use tracksD(5) [OF tr f(5)] in simp)
  have root: "(T(p \<mapsto> erase_side e)) [] = Some (cell trie' root_ptr)"
    using write_keeps_root [OF tr rootedD(3) [OF r] f(1,4,5) used rootedD(5) [OF r] f(2,6) rootedD(4) [OF r]]
    by (simp add: u(6) f(3))
  have "entry_type f = entry_type e" using f(3) by (metis side_type(2))
  then have t: "entry_type (cell trie' root_ptr) \<noteq> TYPE_UNUSED"
    using cell_write_entry [OF tracksD(4) [OF tr] f(1,2), of root_ptr] rootedD(5) [OF r] new(2) u(6) by simp
  have s: "\<not> entry_is_secondary (cell trie' root_ptr)"
    using cell_write_entry [OF tracksD(4) [OF tr] f(1,2), of root_ptr] rootedD(4) [OF r] f(6) u(6) by auto
  have "rooted trie' (T(p \<mapsto> erase_side e))" using u(2,6) root t s rootedD(2) [OF r] by (simp add: rooted_def)
  then show ?thesis using u by blast
qed

end
