(* ===== verification/Reshape.thy ===== *)
theory Reshape
  imports Tracked PointOps
begin

text \<open>
  Local changes of a shape: a node that keeps its links to parent and children may change,
  as when the object of a leaf is replaced, a leaf is marked dirty or a \<open>max_leaf\<close> is moved.
  With them, an update of a present key is proved to replace exactly its object.
\<close>

definition link :: "ct_entry \<Rightarrow> u8 \<times> u8 \<times> u8" where
  "link e = (entry_color e, e_last_symbol e, entry_parent_color e)"

definition same_kids :: "ct_entry \<Rightarrow> ct_entry \<Rightarrow> bool" where
  "same_kids e e' \<longleftrightarrow> entry_type e' = entry_type e \<and>
     (entry_type e = TYPE_JUMP \<longrightarrow> jump_symbols e' = jump_symbols e) \<and> (entry_type e = TYPE_BITMAP \<longrightarrow> children e' = children e)"

lemma shape_ok_hash: "hash_path t' = hash_path t \<Longrightarrow> shape_ok heap t' T = shape_ok heap t T"
  by (simp add: shape_ok_def node_ok_def)

lemma trie_shapeI:
  assumes "tracks trie T" and "shape_ok heap trie T" and "\<not> is_empty trie" and "T [] = Some (cell trie root_ptr)"
  shows "trie_shape heap trie T"
  using assms by (simp add: trie_shape_def tracks_def)

lemma node_ok_upd:
  assumes n: "node_ok heap trie T p e" and q: "T q = Some c" and l: "link c' = link c"
  shows "node_ok heap trie (T(q \<mapsto> c')) p e"
proof -
  have "jump_child_ok T p e \<Longrightarrow> jump_child_ok (T(q \<mapsto> c')) p e"
    using q l by (auto simp: jump_child_ok_def link_def)
  moreover have "bitmap_children_ok T p e \<Longrightarrow> bitmap_children_ok (T(q \<mapsto> c')) p e"
    using q l by (auto simp: bitmap_children_ok_def link_def)
  ultimately show ?thesis using n by (auto simp: node_ok_def)
qed

lemma child_of_upd:
  assumes "T q = Some e" and "same_kids e e'"
  shows "child_of (T(q \<mapsto> e')) = child_of T"
  using assms by (auto simp: fun_eq_iff child_of_def same_kids_def)

theorem shape_ok_upd:
  assumes ok: "shape_ok heap trie T" and q: "T q = Some e" and l: "link e' = link e" and k: "same_kids e e'"
    and new: "node_ok heap trie T q e'"
  shows "shape_ok heap trie (T(q \<mapsto> e'))"
proof -
  have "node_ok heap trie (T(q \<mapsto> e')) p c" if "(T(q \<mapsto> e')) p = Some c" for p c
    using that new shape_okD(2) [where T = T and p = p, OF ok] node_ok_upd [where T = T and q = q, OF _ q l] by (auto split: if_splits)
  moreover have "\<exists>r. (T(q \<mapsto> e')) [] = Some r \<and> \<not> entry_parent_color r < 9"
    using shape_okD(4,5) [OF ok] q l by (auto simp: link_def)
  ultimately show ?thesis
    using ok q unfolding shape_ok_def child_of_upd [where T = T, OF q k] by auto
qed

lemma leaves_upd: "T q = Some e \<Longrightarrow> entry_type e' = entry_type e \<Longrightarrow> leaves (T(q \<mapsto> e')) = leaves T"
  by (auto simp: leaves_def)

subsection \<open>The walk of a key\<close>

text \<open>What the end of the walk says of the key: no child of the node there is on the way of the key.\<close>

lemma finger_on_prefix:
  assumes "finger_on trie T ks f q d"
  shows "prefix q ks" and "\<exists>e. T q = Some e"
proof -
  show "\<exists>e. T q = Some e" using assms by (auto simp: finger_on_def copy_at_def)
  have t: "take (length q + d) ks = q @ take d (jump_symbols (the (T q)))" using assms by (simp add: finger_on_def)
  show "prefix q ks" using take_is_prefix [of "length q + d" ks] unfolding t by (rule append_prefixD)
qed

lemma walk_no_child:
  assumes on: "finger_on trie T ks f q d" and st: "stopped_at T ks symbol q d" and r: "child_of T q r" "prefix r ks"
  shows False
proof -
  obtain e where e: "T q = Some e" using finger_on_prefix(2) [OF on] by blast
  have nl: "entry_type e \<noteq> TYPE_LEAF" using r(1) e by (auto simp: child_of_def)
  have not1: "symbol \<noteq> - 1" using st e nl by (auto simp: stopped_at_def leaves_def)
  note s = st [unfolded stopped_at_def]
  consider (jump) "entry_type e = TYPE_JUMP" "r = q @ jump_symbols e" |
    (bitmap) s where "entry_type e = TYPE_BITMAP" "s \<in> children e" "r = q @ [s]" using r(1) e by (auto simp: child_of_def)
  then show False
  proof cases
    case jump
    have d: "d < entry_jump_size e" using on e jump(1) by (simp add: finger_on_def)
    obtain z where z: "ks = q @ jump_symbols e @ z" using r(2) jump(2) by (auto simp: prefix_def)
    have "ks ! (length q + d) = jump_symbols e ! d" using d unfolding z by (simp add: nth_append)
    then show False using s not1 e jump(1) by simp
  next
    case (bitmap s)
    obtain z where z: "ks = q @ [s] @ z" using r(2) bitmap(3) by (auto simp: prefix_def)
    have "ks ! length q = s" unfolding z by simp
    then show False using st not1 e bitmap(1,2) by (simp add: stopped_at_def)
  qed
qed

lemma walk_not_above:
  assumes ok: "shape_ok heap trie T" and on: "finger_on trie T ks f q d" and st: "stopped_at T ks symbol q d"
    and b: "b \<in> dom T" "prefix b ks"
  shows "\<not> strict_prefix q b"
proof
  assume "strict_prefix q b"
  then obtain r where "child_of T q r" "prefix r b" using child_towards [OF ok _ b(1)] finger_on_prefix(2) [OF on] by blast
  then show False using walk_no_child [OF on st] b(2) by (blast intro: prefix_order.trans)
qed

lemma walk_end:
  assumes ok: "shape_ok heap trie T" and on: "finger_on trie T ks f q d" and st: "stopped_at T ks symbol q d"
    and p: "p \<in> leaves T" "prefix p ks"
  shows "p = q"
proof -
  have "q \<in> dom T" using finger_on_prefix(2) [OF on] by blast
  then have "\<not> strict_prefix p q" using leaf_no_child [OF ok p(1)] by (auto simp: strict_prefix_def)
  then show ?thesis
    using walk_not_above [OF ok on st leaves_dom [OF p(1)] p(2)] prefix_same_cases [OF p(2) finger_on_prefix(1) [OF on]]
    by (auto simp: strict_prefix_def)
qed

lemma copy_at_root:
  assumes sh: "trie_shape heap trie T"
  shows "copy_at trie T [] (copy_of trie 0 root_ptr)"
proof -
  note r = trie_shapeD(5) [OF sh]
  have "erase_side (cell trie root_ptr) = cell trie root_ptr" by (rule node_okD(2) [OF shape_node [OF sh r]])
  moreover from this have "home trie (fst root_ptr) (cell trie root_ptr) = 0"
    unfolding erase_id_iff by (simp add: home_def root_ptr_def start_hash)
  ultimately show ?thesis
    using r root_cell [OF table_invD(1) [OF trie_shapeD(1) [OF sh]]] by (auto simp: copy_at_def hash_path_Nil start_hash)
qed

lemma init_finger_shape:
  assumes sh: "trie_shape heap trie T" and ks: "ks \<noteq> []"
  shows "\<exists>f. init_finger trie = Some (Some root_ptr, f) \<and> finger_on trie T ks f [] 0 \<and> finger_path trie T f [[]]"
proof -
  let ?root = "copy_of trie 0 root_ptr"
  have "fst root_ptr \<le> unat (num_buckets trie)" unfolding root_ptr_def start_hash by simp
  from read_entry_at_rest [OF table_invD(1) [OF trie_shapeD(1) [OF sh]] this]
  have root: "find_root trie = Some ?root" by (simp add: find_root_def root_ptr_def Let_def copy_of_def start_hash)
  let ?f = "store_path_entry \<lparr>containing_entry = ?root, f_path = [], prefix_len = 0, f_prefix_hash = HASH_START_VALUE,
    last_prefix_symbol = ROOT_LAST_SYMBOL, depth_in_jump = 0\<rparr>"
  have init: "init_finger trie = Some (Some root_ptr, ?f)" using root trie_shapeD(2) [OF sh] by (simp add: init_finger_def copy_of_def)
  note cp = copy_at_root [OF sh]
  note r = trie_shapeD(5) [OF sh]
  have "entry_type (cell trie root_ptr) = TYPE_JUMP \<Longrightarrow> 0 < entry_jump_size (cell trie root_ptr)"
    using node_okD(6) [OF shape_node [OF sh r]] by blast
  then have "finger_on trie T ks ?f [] 0" using cp r by (simp add: finger_on_def store_path_entry_def hash_path_Nil)
  moreover have "finger_path trie T ?f [[]]" using cp by (simp add: finger_path_def path_on_def store_path_entry_def hash_path_Nil)
  ultimately show ?thesis using init by blast
qed

theorem key_walk:
  assumes sh: "trie_shape heap trie T" and key: "length key \<le> MAX_KEY_BYTES" and bytes: "take (length key) key_bytes = key"
  shows "\<exists>f symbol f' q d. init_finger trie = Some (Some root_ptr, f) \<and> finger_on trie T (key_symbols key) f [] 0 \<and>
    finger_path trie T f [[]] \<and> descend trie f (length key) key_bytes track = Some (symbol, f') \<and>
    finger_on trie T (key_symbols key) f' q d \<and> stopped_at T (key_symbols key) symbol q d \<and>
    (track \<longrightarrow> (\<exists>qs. finger_path trie T f' qs \<and> last qs = q))"
proof -
  let ?ks = "key_symbols key"
  note b = num_key_symbols_bounds [OF key]
  have len: "length ?ks = num_key_symbols (length key)" by simp
  have ks: "?ks \<noteq> []" using b len by (metis length_0_conv not_less_zero)
  obtain f where f: "init_finger trie = Some (Some root_ptr, f)" "finger_on trie T ?ks f [] 0" "finger_path trie T f [[]]"
    using init_finger_shape [OF sh ks] by blast
  have pre: "prefetched trie ?ks (length [] + 0 + 4) (prefetcher_start trie (length key) key_bytes)"
    using prefetched_start [OF key bytes] by simp
  have le: "length ?ks \<le> 411" "length [] + 0 < length ?ks" using b len ks by simp_all
  have "\<forall>i<length ?ks. ?ks ! i \<le> 32" "\<forall>i<length ?ks. ?ks ! i = SYMBOL_END \<longleftrightarrow> i = length ?ks - 1"
    unfolding len using key_symbols_le last_key_symbol by blast+
  from descend_shape [OF sh le(1) this f(2) le(2) pre, of track]
  obtain symbol f' q d where r: "descend_from trie (prefetcher_start trie (length key) key_bytes) f track = Some (symbol, f')"
    "finger_on trie T ?ks f' q d" "stopped_at T ?ks symbol q d"
    "path_grows trie T track f [] f' q" by blast
  have "track \<longrightarrow> (\<exists>qs. finger_path trie T f' qs \<and> last qs = q)" using r(4) f(3) unfolding path_grows_def by (metis last.simps)
  then show ?thesis using f r(1-3) unfolding descend_def by blast
qed

lemma kv_key_bytes:
  assumes "wf_kv kv"
  shows "unat (kv_key_size kv) = length (kv_key kv)" and "take (length (kv_key kv)) (kv_bytes kv) = kv_key kv"
  using unat_kv_key_size [OF assms] kv_key_length [OF assms] by (simp_all add: kv_key_def)

corollary kv_walk:
  assumes sh: "trie_shape heap trie T" and kv: "wf_kv kv" "unat (key_size kv) \<le> MAX_KEY_BYTES"
  shows "\<exists>r f symbol f' q d. init_finger trie = Some (Some r, f) \<and>
    descend trie f (unat (kv_key_size kv)) (kv_bytes kv) track = Some (symbol, f') \<and>
    finger_on trie T (key_symbols (kv_key kv)) f' q d \<and> stopped_at T (key_symbols (kv_key kv)) symbol q d \<and>
    (track \<longrightarrow> (\<exists>qs. finger_path trie T f' qs \<and> last qs = q))"
proof -
  have "length (kv_key kv) \<le> MAX_KEY_BYTES" using kv_key_length [OF kv(1)] kv(2) by simp
  from key_walk [OF sh this kv_key_bytes(2) [OF kv(1)], of track] show ?thesis unfolding kv_key_bytes(1) [OF kv(1)] by blast
qed


subsection \<open>Replacing the object of a leaf\<close>

lemma trie_shape_rooted:
  assumes "rooted trie T" and "shape_ok heap t T" and "frame trie = frame t"
  shows "trie_shape heap trie T"
  using assms(1,2) shape_ok_hash [OF frame_fields(5) [OF assms(3)]] by (simp add: trie_shape_def rooted_def tracks_def)

lemma entry_set_kv_fields:
  "entry_type (entry_set_kv e kv) = entry_type e" "color_and_tag (entry_set_kv e kv) = color_and_tag e"
  "entry_is_secondary (entry_set_kv e kv) = entry_is_secondary e" "e_last_symbol (entry_set_kv e kv) = e_last_symbol e"
  "parent_color_and_flags (entry_set_kv e kv) = parent_color_and_flags e" "e_locator (entry_set_kv e kv) = e_locator e"
  "wf_entry (entry_set_kv e kv)" "link (entry_set_kv e kv) = link e" "entry_tag (entry_set_kv e kv) = entry_tag e"
  by (simp_all add: entry_set_kv_def Let_def entry_type_def entry_is_secondary_def wf_entry_def link_def entry_color_def
    entry_parent_color_def entry_tag_def)

lemma erase_link: "link (erase_side e) = link e"
  by (simp add: link_def)

text \<open>The changed leaf: only its object is another one.\<close>

definition new_object :: "ct_entry \<Rightarrow> u64 \<Rightarrow> ct_entry \<Rightarrow> bool" where
  "new_object e kv e' \<longleftrightarrow> entry_type e' = TYPE_LEAF \<and> entry_kv e' = kv \<and> link e' = link e \<and>
     e_locator e' = e_locator e \<and> entry_dirty e' = entry_dirty e"

lemma erase_dirty [simp]: "entry_dirty (erase_side e) = entry_dirty e"
  by (simp add: entry_dirty_bit bit_sides)

lemma leaf_replaced:
  assumes ok: "shape_ok heap trie T" and q: "T q = Some (erase_side v)" "entry_type v = TYPE_LEAF"
    and kv: "canonical_address kv" "wf_kv (heap kv)" "kv_key (heap kv) = kv_key (heap (entry_kv (erase_side v)))"
  defines "e \<equiv> erase_side (entry_set_kv v kv)"
  shows "shape_ok heap trie (T(q \<mapsto> e))" and "new_object (erase_side v) kv e"
proof -
  note n = shape_okD(2) [where T = T and p = q, OF ok q(1)]
  have wf: "wf_entry v" using node_okD(1) [OF n] by (simp add: wf_entry_def)
  have we: "wf_entry e" using entry_set_kv_fields(7) [of v kv] by (simp add: e_def wf_entry_def)
  have t: "entry_type e = TYPE_LEAF" using q(2) entry_set_kv_fields(1) by (simp add: e_def)
  have "entry_kv e = entry_kv (entry_set_kv v kv)"
    by (rule entry_kv_cong) (simp_all add: e_def wf_entry_def entry_set_kv_def Let_def)
  then have ekv: "entry_kv e = kv" using entry_kv_set_kv [OF wf kv(1)] by simp
  have tag: "entry_tag e = entry_tag (erase_side v)" by (simp add: e_def entry_set_kv_fields(9))
  have "leaf_ok heap q (erase_side v)" using node_okD(5) [OF n] q(2) by simp
  then have "leaf_ok heap q e" using kv(2,3) ekv by (simp add: leaf_ok_def)
  then have new: "node_ok heap trie T q e" using n t we tag by (simp add: node_ok_def) (simp add: e_def)
  have l: "link e = link (erase_side v)" by (simp add: e_def erase_link entry_set_kv_fields(8))
  have "entry_dirty e = entry_dirty v" by (simp add: e_def) (simp add: entry_dirty_def entry_set_kv_fields(5))
  then show "new_object (erase_side v) kv e" using t ekv l by (simp add: new_object_def) (simp add: e_def entry_set_kv_fields(6))
  note l
  moreover have "same_kids (erase_side v) e" using t q(2) by (simp add: same_kids_def)
  ultimately show "shape_ok heap trie (T(q \<mapsto> e))" by (rule shape_ok_upd [where T = T, OF ok q(1) _ _ new])
qed

theorem replace_leaf_shape:
  assumes sh: "trie_shape heap trie T" and lok: "locks_ok others (trie, [])"
    and c: "copy_at trie T q (containing_entry f)" and q: "q \<in> leaves T"
    and kv: "canonical_address kv" "wf_kv (heap kv)" "kv_key (heap kv) = kv_key (heap (kv_at T q))"
  shows "\<exists>st trie'. replace_leaf_kv (trie, []) f kv = Some (st, trie', []) \<and> locks_ok others (trie', []) \<and>
    (if fst (last_pos (containing_entry f)) \<in> others then st = SI_RETRY \<and> trie' = trie
     else st = SI_OK \<and> wrote {..<unat (num_buckets trie)} 1 trie trie' \<and>
       (\<exists>e. new_object (the (T q)) kv e \<and> trie_shape heap trie' (T(q \<mapsto> e))))"
proof -
  let ?c = "containing_entry f" and ?e = "entry_set_kv (lc_value (containing_entry f)) kv"
  note r = shape_rooted [OF sh]
  note ok = tracksD(4) [OF rootedD(1) [OF r]]
  obtain pos where pos: "pos \<in> table_cells trie" "?c = copy_of trie (hash_to_bucket (hash_path trie q)) pos"
    and T: "T q = Some (erase_side (lc_value ?c))" using c by (auto simp: copy_at_def copy_of_def)
  have leaf: "entry_type (lc_value ?c) = TYPE_LEAF" using q T by (auto simp: leaves_def)
  have b: "fst (last_pos ?c) < length (buckets trie)" "snd (last_pos ?c) < CUCKOO_BUCKET_SIZE"
    using pos table_okD(3) [OF ok] by (auto simp: table_cells_def copy_of_def)
  obtain st s1 where u: "upgrade_lock (trie, []) ?c = (st, s1)" by (rule prod.exhaust)
  note U = upgrade_lock_ok [OF lok b u]
  have same: "seq_of_word (bucket_word trie (fst (last_pos ?c))) = seq_of_word (last_seq ?c)" using pos(2) by (simp add: copy_of_def)
  show ?thesis
  proof (cases "fst (last_pos ?c) \<in> others")
    case True
    then have "st = SI_RETRY" "s1 = (trie, [])" using U(3,4,5) by auto
    then show ?thesis using u lok True by (simp add: replace_leaf_kv_def)
  next
    case False
    then have st: "st = SI_OK" using U(5) same by simp
    obtain t1 m1 where s1: "s1 = (t1, m1)" by fastforce
    have u1: "unlocked t1 = unlocked trie" using U(2) s1 by simp
    have c1: "copy_on t1 T q 0 ?c" using copy_on_wrote [OF copy_at_on [OF c ok, of 0] wrote_unlocked [OF u1, of "{}"]] by simp
    obtain c2 t2 p2 f2 where u2: "update_entry t1 ?c ?e = Some (c2, t2)" "rooted t2 (T(q \<mapsto> erase_side ?e))"
      "wrote {..<unat (num_buckets t1)} 1 t1 t2" "t2 = snd (write_entry t1 p2 f2)"
      using update_entry_rooted [OF rooted_unlocked [OF u1 r] c1, of ?e] leaf entry_set_kv_fields by auto
    have l2: "locks_ok others (t2, m1)" using locks_ok_write_entry U(1) s1 u2(4) by simp
    note rel = release_all_locks_ok [OF l2]
    obtain t3 where t3: "release_all_locks (t2, m1) = (t3, [])" using rel(3) by (metis prod.collapse)
    have "num_buckets t1 = num_buckets trie" using unlocked_fields(1) [OF u1] .
    then have wr: "wrote {..<unat (num_buckets trie)} 1 trie t3"
      using wrote_trans [OF wrote_trans [OF wrote_unlocked [OF u1] u2(3)] wrote_unlocked [of t3 t2]] rel(2) t3 by simp
    then have "frame t3 = frame trie" by (simp add: wrote_def)
    moreover have "rooted t3 (T(q \<mapsto> erase_side ?e))" using rooted_unlocked [OF _ u2(2), of t3] rel(2) t3 by simp
    moreover have "kv_key (heap kv) = kv_key (heap (entry_kv (erase_side (lc_value ?c))))" using kv(3) T by (simp add: kv_at_def)
    note lr = leaf_replaced [where T = T and heap = heap, OF trie_shapeD(4) [OF sh] T leaf kv(1,2) this]
    ultimately have "trie_shape heap t3 (T(q \<mapsto> erase_side ?e))" using trie_shape_rooted lr(1) by blast
    moreover have "replace_leaf_kv (trie, []) f kv = Some (SI_OK, t3, [])"
      using u u2(1) t3 st s1 by (simp add: replace_leaf_kv_def Let_def)
    moreover have "locks_ok others (t3, [])" using rel(1) t3 by simp
    moreover have "new_object (the (T q)) kv (erase_side ?e)" using lr(2) T by simp
    moreover note wr
    ultimately show ?thesis unfolding if_not_P [OF False] by blast
  qed
qed

end
