(* ===== verification/LeafOrder.thy ===== *)
theory LeafOrder
  imports Reshape "HOL-Library.List_Lexorder"
begin

text \<open>
  The leaves in key order. The leaves before a place of the trie are those whose prefixes are
  lexicographically smaller; they change along a path only where a bitmap has children to
  the left of it. The search for a predecessor follows exactly these changes.
\<close>

subsection \<open>Lexicographic order and prefixes\<close>

lemma less_is_lex: "xs < ys \<longleftrightarrow> lex_less xs (ys :: 'a::linorder list)"
  by (simp add: list_less_def lexordp_conv_lexord)

lemma prefix_not_less: "prefix p l \<Longrightarrow> \<not> l < (p :: 'a::linorder list)"
proof (induction p arbitrary: l)
  case (Cons a p)
  then show ?case by (cases l) (auto simp: less_is_lex)
qed (simp add: less_is_lex)

lemma less_append_left:
  "\<not> prefix p l \<Longrightarrow> l < p @ x \<longleftrightarrow> l < (p :: 'a::linorder list)"
proof (induction p arbitrary: l)
  case (Cons a p)
  then show ?case by (cases l) (auto simp: less_is_lex)
qed simp

lemma less_append_right:
  "\<not> prefix l p \<Longrightarrow> l @ y < p \<longleftrightarrow> l < (p :: 'a::linorder list)"
proof (induction l arbitrary: p)
  case (Cons a l)
  then show ?case by (cases p) (auto simp: less_is_lex)
qed simp

lemma less_extend:
  assumes "\<not> prefix p l" and "\<not> prefix l p" and "prefix p p'" and "prefix l l'"
  shows "l' < p' \<longleftrightarrow> l < (p :: 'a::linorder list)"
proof -
  obtain x y where e: "p' = p @ x" "l' = l @ y" using assms(3,4) by (auto simp: prefix_def)
  have "\<not> prefix l (p @ x)" using assms(1,2) by (metis prefix_append prefix_def prefix_same_cases)
  then have "l @ y < p @ x \<longleftrightarrow> l < p @ x" by (rule less_append_right)
  then show ?thesis unfolding e using less_append_left [OF assms(1)] by simp
qed

lemma same_prefix_less: "p @ x < p @ y \<longleftrightarrow> x < (y :: 'a::linorder list)"
  by (induction p) (auto simp: less_is_lex)

lemma fork_less: "p @ t # w < p @ [s] \<longleftrightarrow> t < (s :: 'a::linorder)"
  unfolding same_prefix_less by (auto simp: less_is_lex)

lemma fork_less': "t < s \<Longrightarrow> p @ t # w < p @ (s :: 'a::linorder) # v"
  unfolding same_prefix_less by (simp add: less_is_lex)

subsection \<open>The leaves before a place\<close>

definition before :: "shape \<Rightarrow> u64 list \<Rightarrow> u64 list set" where
  "before T p = {l \<in> leaves T. l < p}"

lemma finite_leaves: "shape_ok heap trie T \<Longrightarrow> finite (leaves T)"
  using finite_subset [OF _ shape_okD(1)] leaves_dom by blast

lemma finite_before: "shape_ok heap trie T \<Longrightarrow> finite (before T p)"
  using finite_leaves by (auto simp: before_def)

lemma finite_below: "shape_ok heap trie T \<Longrightarrow> finite (below T p)"
  using finite_leaves by (auto simp: below_def)

lemma below_nonempty:
  assumes ok: "shape_ok heap trie T" and p: "p \<in> dom T"
  shows "below T p \<noteq> {}"
  using p
proof (induction "Max (length ` dom T) - length p" arbitrary: p rule: less_induct)
  case less
  obtain e where e: "T p = Some e" using less.prems by blast
  show ?case
  proof (cases "entry_type e = TYPE_LEAF")
    case True
    then have "p \<in> leaves T" using e by (simp add: leaves_def)
    then show ?thesis by (auto simp: below_def)
  next
    case False
    note n = shape_okD(2) [where T = T and p = p, OF ok e]
    obtain r where r: "child_of T p r"
      using False node_okD(6-8) [OF n] e by (auto simp: child_of_def)
    have "length p < length r" using child_of_strict [OF ok r] by (rule prefix_length_less)
    moreover have "length r \<le> Max (length ` dom T)"
      using child_of_in_shape(2) [OF ok r] shape_okD(1) [OF ok] by (intro Max_ge) auto
    ultimately have "below T r \<noteq> {}" using less.hyps [of r] child_of_in_shape(2) [OF ok r] by simp
    then show ?thesis using below_node [where T = T and p = p, OF ok e False] r by blast
  qed
qed

lemma before_below_disjoint: "l \<in> before T p \<Longrightarrow> \<not> prefix p l"
  using prefix_not_less by (auto simp: before_def)

lemma before_jump:
  assumes ok: "shape_ok heap trie T" and e: "T p = Some e" "entry_type e = TYPE_JUMP"
  shows "before T (p @ jump_symbols e) = before T p" and "below T (p @ jump_symbols e) = below T p"
proof -
  show b: "below T (p @ jump_symbols e) = below T p"
    using below_node [where T = T and p = p, OF ok e(1)] jump_child_of [where T = T and p = p, OF e] e(2) by simp
  have "l < p @ jump_symbols e \<longleftrightarrow> l < p" if "l \<in> leaves T" for l
  proof (cases "prefix p l")
    case True
    then have "l \<in> below T p" using that by (simp add: below_def)
    then have "prefix (p @ jump_symbols e) l" using b by (auto simp: below_def)
    then show ?thesis using True prefix_not_less by blast
  qed (rule less_append_left)
  then show "before T (p @ jump_symbols e) = before T p" by (auto simp: before_def)
qed

lemma below_bitmap:
  assumes ok: "shape_ok heap trie T" and e: "T p = Some e" "entry_type e = TYPE_BITMAP"
  shows "below T p = (\<Union>s\<in>children e. below T (p @ [s]))"
  using below_node [where T = T and p = p, OF ok e(1)] bitmap_child_of [where T = T and p = p, OF e] e(2) by auto

lemma before_bitmap:
  assumes ok: "shape_ok heap trie T" and e: "T p = Some e" "entry_type e = TYPE_BITMAP"
  shows "before T (p @ [s]) = before T p \<union> (\<Union>t\<in>{t \<in> children e. t < s}. below T (p @ [t]))"
proof (intro equalityI subsetI)
  fix l assume l: "l \<in> before T (p @ [s])"
  show "l \<in> before T p \<union> (\<Union>t\<in>{t \<in> children e. t < s}. below T (p @ [t]))"
  proof (cases "prefix p l")
    case True
    then have "l \<in> below T p" using l by (simp add: below_def before_def)
    then obtain t where t: "t \<in> children e" "l \<in> below T (p @ [t])" using below_bitmap [OF assms] by blast
    then obtain w where "l = p @ t # w" by (auto simp: below_def prefix_def)
    then have "t < s" using l fork_less by (auto simp: before_def)
    then show ?thesis using t by blast
  next
    case False
    then show ?thesis using l less_append_left by (auto simp: before_def)
  qed
next
  fix l assume "l \<in> before T p \<union> (\<Union>t\<in>{t \<in> children e. t < s}. below T (p @ [t]))"
  then consider "l \<in> before T p" | t where "t < s" "l \<in> below T (p @ [t])" by blast
  then show "l \<in> before T (p @ [s])"
  proof cases
    case 1
    then show ?thesis using less_append_left [of p l "[s]"] before_below_disjoint by (auto simp: before_def)
  next
    case 2
    then show ?thesis by (auto simp: below_def before_def prefix_def fork_less)
  qed
qed

lemma Max_before_bitmap:
  assumes ok: "shape_ok heap trie T" and e: "T p = Some e" "entry_type e = TYPE_BITMAP"
    and t: "t \<in> children e" "t < s" "\<And>u. u \<in> children e \<Longrightarrow> u < s \<Longrightarrow> u \<le> t"
  shows "Max (before T (p @ [s])) = Max (below T (p @ [t]))" and "Max (below T (p @ [t])) \<in> before T (p @ [s])"
proof -
  let ?m = "Max (below T (p @ [t]))"
  have "p @ [t] \<in> dom T" using child_of_in_shape(2) [OF ok, of p] bitmap_child_of [where T = T and p = p, OF e] t(1) by blast
  then have m: "?m \<in> below T (p @ [t])" by (intro Max_in finite_below [OF ok] below_nonempty [OF ok])
  then show mb: "?m \<in> before T (p @ [s])" using before_bitmap [OF ok e] t by blast
  obtain w where w: "?m = p @ t # w" using m by (auto simp: below_def prefix_def)
  show "Max (before T (p @ [s])) = ?m"
  proof (rule Max_eqI [OF finite_before [OF ok] _ mb])
    fix l assume "l \<in> before T (p @ [s])"
    then consider (left) "l \<in> before T p" | (under) u where "u \<in> children e" "u < s" "l \<in> below T (p @ [u])"
      using before_bitmap [OF ok e] by blast
    then show "l \<le> ?m"
    proof cases
      case left
      then have "l < p @ t # w" using less_append_left [of p l "t # w"] before_below_disjoint by (auto simp: before_def)
      then show ?thesis unfolding w by simp
    next
      case under
      then obtain v where v: "l = p @ u # v" by (auto simp: below_def prefix_def)
      have "u \<le> t" using t(3) under by blast
      then consider "u = t" | "u < t" by fastforce
      then show ?thesis
      proof cases
        case 1
        then show ?thesis using under(3) finite_below [OF ok] by simp
      next
        case 2
        then show ?thesis unfolding w v using fork_less' by (intro less_imp_le)
      qed
    qed
  qed
qed

subsection \<open>The search along the path\<close>

lemma path_node:
  assumes "path_on trie T path qs" and "i < length qs"
  shows "\<exists>e. T (qs ! i) = Some e \<and> erase_side (node_at path i) = e"
  using assms by (auto simp: path_on_def dest!: spec [of _ i] intro: copy_at_node) (auto simp: copy_at_def copy_of_def)

lemma path_chain:
  assumes ok: "shape_ok heap trie T" and path: "path_on trie T path qs" and j: "j < length qs"
    and no: "\<forall>k. i \<le> k \<and> k < j \<longrightarrow> entry_type (node_at path k) \<noteq> TYPE_BITMAP" and i: "i \<le> j"
  shows "before T (qs ! j) = before T (qs ! i)" and "below T (qs ! j) = below T (qs ! i)"
proof -
  have "before T (qs ! j) = before T (qs ! i) \<and> below T (qs ! j) = below T (qs ! i)"
    using j no i
  proof (induction j)
    case (Suc j)
    show ?case
    proof (cases "i = Suc j")
      case False
      then have ij: "i \<le> j" using Suc.prems(3) by simp
      have IH: "before T (qs ! j) = before T (qs ! i)" "below T (qs ! j) = below T (qs ! i)"
        using Suc.IH Suc.prems(1,2) ij by simp_all
      obtain e where e: "T (qs ! j) = Some e" "erase_side (node_at path j) = e" using path_node [OF path] Suc.prems(1) by (metis Suc_lessD)
      have ch: "child_of T (qs ! j) (qs ! Suc j)" using path Suc.prems(1) by (simp add: path_on_def)
      have "entry_type e \<noteq> TYPE_BITMAP" using spec [OF Suc.prems(2), of j] ij erased_node(1) [OF e(2)] by simp
      then have "entry_type e = TYPE_JUMP" "qs ! Suc j = qs ! j @ jump_symbols e" using ch e(1) by (auto simp: child_of_def)
      then show ?thesis using before_jump [where T = T and p = "qs ! j", OF ok e(1)] IH by simp
    qed simp
  qed simp
  then show "before T (qs ! j) = before T (qs ! i)" "below T (qs ! j) = below T (qs ! i)" by blast+
qed

lemma bitmap_bit:
  assumes "wf_entry v" and "erase_side v = e" and "s \<le> 32"
  shows "get_bit (drop 3 (entry_bytes v)) s \<longleftrightarrow> of_nat s \<in> children e"
proof -
  have "get_bit (drop 3 (entry_bytes v)) s = get_bit (e_bytes v) s" using payload_drop_bit [OF assms(1)] assms(3) by simp
  moreover have "unat (of_nat s :: u64) = s" using assms(3) by (simp add: unat_of_nat)
  moreover have "(of_nat s :: u64) \<le> 32" using assms(3) by (simp add: word_le_nat_alt \<open>unat (of_nat s :: u64) = s\<close>)
  ultimately show ?thesis using erased_node(5) [OF assms(2)] by (simp add: children_def)
qed

text \<open>What the search finds: the greatest leaf before the place is the greatest one below the child.\<close>

definition left_found :: "shape \<Rightarrow> u64 list list \<Rightarrow> nat \<Rightarrow> u64 list \<Rightarrow> (nat \<times> nat) option \<Rightarrow> bool" where
  "left_found T qs pos P r \<longleftrightarrow>
     (case r of None \<Rightarrow> before T P = {}
      | Some (q, t) \<Rightarrow> q \<le> pos \<and> t \<le> 32 \<and> entry_type (the (T (qs ! q))) = TYPE_BITMAP \<and> of_nat t \<in> children (the (T (qs ! q))) \<and>
          before T P \<noteq> {} \<and> Max (before T P) = Max (below T (qs ! q @ [of_nat t])))"

lemma unat_small_byte:
  assumes "(s :: u64) \<le> 32"
  shows "unat (ucast s :: u8) = unat s"
proof -
  have "unat s < 256" using assms by (simp add: word_le_nat_alt)
  then show ?thesis by (simp add: unsigned_ucast_eq take_bit_nat_eq_self)
qed

theorem left_search:
  assumes sh: "trie_shape heap trie T" and path: "path_on trie T path qs" and pos: "pos < length qs"
    and bm: "entry_type (the (T (qs ! pos))) = TYPE_BITMAP" and s: "symbol \<le> 33"
  shows "left_found T qs pos (qs ! pos @ [of_nat symbol]) (find_left_descend path pos symbol)"
  using path pos bm s
proof (induction path pos symbol rule: find_left_descend.induct)
  case (1 path pos symbol)
  let ?p = "qs ! pos" and ?v = "node_at path pos"
  note ok = trie_shapeD(4) [OF sh]
  obtain e where e: "T ?p = Some e" "erase_side ?v = e" using path_node [OF 1(2,3)] by blast
  have bm: "entry_type e = TYPE_BITMAP" using 1(4) e(1) by simp
  have wf: "wf_entry ?v" using node_okD(1) [OF shape_node [OF sh e(1)]] erased_node(2) [OF e(2)] by simp
  have num: "unat (of_nat k :: u64) = k" if "k \<le> 33" for k using that by (simp add: unat_of_nat)
  have child: "of_nat k \<in> children e \<longleftrightarrow> get_bit (drop 3 (entry_bytes ?v)) k" if "k < symbol" for k
    using bitmap_bit [OF wf e(2), of k] that 1(5) by simp
  have nat_child: "unat t < symbol \<and> get_bit (drop 3 (entry_bytes ?v)) (unat t)" if "t \<in> children e" "t < of_nat symbol" for t
    using that child [of "unat t"] num [OF 1(5)] by (simp add: word_less_nat_alt)
  have "symbol < 64" using 1(5) by simp
  from bitmap_child_before_cases [OF this, of ?v] show ?case
  proof (elim disjE exE conjE)
    fix k assume k: "bitmap_child_before ?v symbol = int k" "child_left_of ?v symbol k"
    note c = k(2) [unfolded child_left_of_def]
    have k33: "k \<le> 32" "k \<le> 33" using c 1(5) by simp_all
    have t: "of_nat k \<in> children e" using c child by blast
    have lt: "(of_nat k :: u64) < of_nat symbol" using c num [OF k33(2)] num [OF 1(5)] by (simp add: word_less_nat_alt)
    have "u \<le> of_nat k" if "u \<in> children e" "u < of_nat symbol" for u
      using nat_child [OF that] c num [OF k33(2)] by (metis not_le word_less_nat_alt)
    note m = Max_before_bitmap [where T = T and p = ?p, OF ok e(1) bm t lt this]
    have "find_left_descend path pos symbol = Some (pos, k)" using k(1) by (subst find_left_descend.simps) simp
    then show ?thesis using m t k33(1) e(1) bm by (auto simp: left_found_def)
  next
    assume b: "bitmap_child_before ?v symbol = - 1" and none: "no_child_left_of ?v symbol"
    have no: "{t \<in> children e. t < of_nat symbol} = {}" using none nat_child by (auto simp: no_child_left_of_def)
    have same: "before T (?p @ [of_nat symbol]) = before T ?p"
      unfolding before_bitmap [where T = T and p = ?p, OF ok e(1) bm] no by simp
    show ?thesis
    proof (cases "bitmap_above path pos")
      case None
      have "before T ?p = before T (qs ! 0)"
        by (rule path_chain(1) [OF ok 1(2,3)]) (use bitmap_above_None [OF None] in auto)
      moreover have "qs ! 0 = []" using 1(2) by (cases qs) (auto simp: path_on_def)
      ultimately have "before T ?p = {}" by (simp add: before_def less_is_lex)
      then show ?thesis using same b None by (subst find_left_descend.simps) (simp add: left_found_def)
    next
      case (Some q)
      note q = bitmap_above_Some [OF Some]
      have q1: "q + 1 < length qs" "q < length qs" using q 1(3) by simp_all
      obtain f where f: "T (qs ! q) = Some f" "erase_side (node_at path q) = f" using path_node [OF 1(2) q1(2)] by blast
      have fb: "entry_type f = TYPE_BITMAP" using q erased_node(1) [OF f(2)] by simp
      have "child_of T (qs ! q) (qs ! (q + 1))" using 1(2) q1 by (simp add: path_on_def)
      then obtain u where u: "u \<in> children f" "qs ! (q + 1) = qs ! q @ [u]" using f(1) fb by (auto simp: child_of_def)
      have "bitmap_children_ok T (qs ! q) f" using node_okD(7) [OF shape_node [OF sh f(1)] fb] by simp
      then obtain c where c: "T (qs ! (q + 1)) = Some c" "e_last_symbol c = ucast u" using u by (auto simp: bitmap_children_ok_def)
      obtain c' where c': "T (qs ! (q + 1)) = Some c'" "erase_side (node_at path (q + 1)) = c'" using path_node [OF 1(2) q1(1)] by blast
      have u32: "u \<le> 32" using u(1) by (simp add: children_def)
      have "e_last_symbol (node_at path (q + 1)) = ucast u" using erased_node(8) [OF c'(2)] c c' by simp
      then have "unat (e_last_symbol (node_at path (q + 1))) = unat u" using unat_small_byte [OF u32] by simp
      then have last: "(of_nat (unat (e_last_symbol (node_at path (q + 1)))) :: u64) = u"
        "unat (e_last_symbol (node_at path (q + 1))) \<le> 33" using u32 by (simp_all add: word_le_nat_alt)
      have "before T ?p = before T (qs ! (q + 1))"
        by (rule path_chain(1) [OF ok 1(2,3)]) (use q in auto)
      then have here: "before T (?p @ [of_nat symbol]) = before T (qs ! q @ [u])" using same u(2) by simp
      have "find_left_descend path pos symbol = find_left_descend path q (unat (e_last_symbol (node_at path (q + 1))))"
        using b Some by (subst find_left_descend.simps) simp
      moreover have "left_found T qs q (qs ! q @ [of_nat (unat (e_last_symbol (node_at path (q + 1))))])
          (find_left_descend path q (unat (e_last_symbol (node_at path (q + 1)))))"
        by (rule 1(1) [OF refl _ Some 1(2) q1(2) _ last(2)]) (use b f(1) fb in simp_all)
      ultimately show ?thesis unfolding last(1) using here q by (auto simp: left_found_def split: option.splits)
    qed
  qed
qed

end
