(* ===== verification/LeafList.thy ===== *)
theory LeafList
  imports LeafOrder
begin

text \<open>
  The linked list of the leaves: each leaf holds the locator of the next one in key order, each
  inner node that of the greatest leaf below it, each bitmap its greatest child, and the minimal leaf, which is no part of
  the trie, that of the first one. With it, the predecessor search of \<open>main.c\<close> is proved to
  find the greatest leaf before a place of the trie.
\<close>

definition loc_of :: "cuckoo_trie \<Rightarrow> shape \<Rightarrow> u64 list \<Rightarrow> ct_entry_locator" where
  "loc_of trie T p = \<lparr>loc_primary_bucket = ucast (hash_to_bucket (hash_path trie p)), loc_tag = ucast (hash_to_tag (hash_path trie p)),
     loc_color = entry_color (the (T p))\<rparr>"

definition after :: "shape \<Rightarrow> u64 list \<Rightarrow> u64 list set" where
  "after T p = {l \<in> leaves T. p < l}"

text \<open>A locator of the first leaf of a set, or the mark for the end of the list.\<close>

definition links_first :: "cuckoo_trie \<Rightarrow> shape \<Rightarrow> u64 list set \<Rightarrow> ct_entry_locator \<Rightarrow> bool" where
  "links_first trie T L l \<longleftrightarrow> (if L = {} then loc_primary_bucket l = NO_BUCKET else l = loc_of trie T (Min L))"

definition min_leaf_ok :: "cuckoo_trie \<Rightarrow> shape \<Rightarrow> ct_entry \<Rightarrow> bool" where
  "min_leaf_ok trie T m \<longleftrightarrow> wf_entry m \<and> entry_type m = TYPE_LEAF \<and> \<not> entry_dirty m \<and> links_first trie T (leaves T) (next_leaf m)"

definition listed :: "cuckoo_trie \<Rightarrow> shape \<Rightarrow> bool" where
  "listed trie T \<longleftrightarrow> unat (num_buckets trie) < 2 ^ 32 \<and>
     (\<forall>p\<in>leaves T. links_first trie T (after T p) (next_leaf (the (T p)))) \<and>
     (\<forall>p\<in>dom T - leaves T. max_leaf (the (T p)) = loc_of trie T (Max (below T p))) \<and>
     (\<forall>p\<in>dom T. entry_type (the (T p)) = TYPE_BITMAP \<longrightarrow> max_child (the (T p)) = ucast (Max (children (the (T p))))) \<and>
     (\<forall>p\<in>dom T. \<not> entry_dirty (the (T p))) \<and> min_leaf_ok trie T (cell trie (trie_min_leaf trie))"

lemma listedD:
  assumes "listed trie T"
  shows "unat (num_buckets trie) < 2 ^ 32" and "p \<in> leaves T \<Longrightarrow> T p = Some e \<Longrightarrow> links_first trie T (after T p) (next_leaf e)"
    and "T p = Some e \<Longrightarrow> entry_type e \<noteq> TYPE_LEAF \<Longrightarrow> max_leaf e = loc_of trie T (Max (below T p))"
    and "T p = Some e \<Longrightarrow> \<not> entry_dirty e" and "min_leaf_ok trie T (cell trie (trie_min_leaf trie))"
    and "T p = Some e \<Longrightarrow> entry_type e = TYPE_BITMAP \<Longrightarrow> max_child e = ucast (Max (children e))"
proof -
  show "T p = Some e \<Longrightarrow> entry_type e = TYPE_BITMAP \<Longrightarrow> max_child e = ucast (Max (children e))"
    using assms unfolding listed_def by (metis domI option.sel)
  show "unat (num_buckets trie) < 2 ^ 32" "min_leaf_ok trie T (cell trie (trie_min_leaf trie))" using assms by (simp_all add: listed_def)
  show "p \<in> leaves T \<Longrightarrow> T p = Some e \<Longrightarrow> links_first trie T (after T p) (next_leaf e)"
    using assms unfolding listed_def by (metis option.sel)
  show "max_leaf e = loc_of trie T (Max (below T p))" if "T p = Some e" "entry_type e \<noteq> TYPE_LEAF"
  proof -
    have "p \<in> dom T - leaves T" using that by (auto simp: leaves_def)
    then show ?thesis using assms that unfolding listed_def by (metis option.sel)
  qed
  show "T p = Some e \<Longrightarrow> \<not> entry_dirty e" using assms unfolding listed_def by (metis domI option.sel)
qed

definition ordered_trie :: "kv_heap \<Rightarrow> cuckoo_trie \<Rightarrow> shape \<Rightarrow> bool" where
  "ordered_trie heap trie T \<longleftrightarrow> trie_shape heap trie T \<and> listed trie T"

lemma ordered_trieD: "ordered_trie heap trie T \<Longrightarrow> trie_shape heap trie T" "ordered_trie heap trie T \<Longrightarrow> listed trie T"
  by (simp_all add: ordered_trie_def)

text \<open>A change of a node that keeps what the list depends on.\<close>

lemma min_leaf_wrote:
  assumes "wrote {..<unat (num_buckets trie)} n trie trie'" and "table_ok trie"
  shows "cell trie' (trie_min_leaf trie') = cell trie (trie_min_leaf trie)"
proof -
  have f: "frame trie' = frame trie" using assms(1) by (simp add: wrote_def)
  have "unat (num_buckets trie) < length (buckets trie)" using table_okD(3) [OF assms(2)] by simp
  then have "cells (buckets trie' ! unat (num_buckets trie)) = cells (buckets trie ! unat (num_buckets trie))"
    using assms(1) by (auto simp: wrote_def)
  then show ?thesis unfolding frame_fields(7) [OF f] by (simp add: cell_def trie_min_leaf_def)
qed

lemma loc_of_cong:
  assumes "frame trie' = frame trie" and "entry_color (the (T' p)) = entry_color (the (T p))"
  shows "loc_of trie' T' p = loc_of trie T p"
  using assms frame_fields(5) [OF assms(1)] by (simp add: loc_of_def)

theorem listed_upd:
  assumes ls: "listed trie T" and q: "T q = Some e" and w: "frame trie' = frame trie"
    and m: "cell trie' (trie_min_leaf trie') = cell trie (trie_min_leaf trie)"
    and e: "entry_type e' = entry_type e" "entry_type e \<noteq> TYPE_BITMAP" "entry_color e' = entry_color e" "e_locator e' = e_locator e" "entry_dirty e' = entry_dirty e"
  shows "listed trie' (T(q \<mapsto> e'))"
proof -
  let ?T = "T(q \<mapsto> e')"
  have L: "leaves ?T = leaves T" by (rule leaves_upd [where T = T, OF q e(1)])
  have D: "dom ?T = dom T" using q by auto
  have loc: "loc_of trie' ?T p = loc_of trie T p" for p by (rule loc_of_cong [OF w]) (use q e(3) in simp)
  have first: "links_first trie' ?T S l = links_first trie T S l" for S l by (simp add: links_first_def loc)
  have aft: "after ?T p = after T p" and bel: "below ?T p = below T p" for p by (simp_all add: after_def below_def L)
  have f: "e_locator (the (?T p)) = e_locator (the (T p))" "entry_dirty (the (?T p)) = entry_dirty (the (T p))" for p
    using q e by simp_all
  have "\<forall>p\<in>dom T. entry_type (the (?T p)) = TYPE_BITMAP \<longrightarrow> max_child (the (?T p)) = ucast (Max (children (the (?T p))))"
    using ls q e(1,2) by (auto simp: listed_def)
  then show ?thesis using ls unfolding listed_def min_leaf_ok_def m frame_fields(1) [OF w] L D loc first aft bel f by blast
qed

lemma listed_cong:
  assumes "frame trie' = frame trie" and "cell trie' (trie_min_leaf trie') = cell trie (trie_min_leaf trie)"
  shows "listed trie' T = listed trie T"
proof -
  have l: "loc_of trie' T p = loc_of trie T p" for p by (rule loc_of_cong [OF assms(1) refl])
  then have "links_first trie' T L e = links_first trie T L e" for L e by (simp add: links_first_def)
  then show ?thesis unfolding listed_def min_leaf_ok_def assms(2) frame_fields(1) [OF assms(1)] l by blast
qed

text \<open>Locks taken or given back do not matter.\<close>

lemma ordered_unlocked:
  assumes u: "unlocked trie' = unlocked trie" and sh: "trie_shape heap trie T" and ls: "listed trie T"
  shows "trie_shape heap trie' T" and "listed trie' T" and "frame trie' = frame trie"
proof -
  have w: "wrote {} 0 trie trie'" by (rule wrote_unlocked [OF u])
  then show f: "frame trie' = frame trie" by (simp add: wrote_def)
  show "trie_shape heap trie' T" by (rule trie_shape_rooted [OF rooted_unlocked [OF u shape_rooted [OF sh]] trie_shapeD(4) [OF sh] f])
  have "cell trie' (trie_min_leaf trie') = cell trie (trie_min_leaf trie)"
    by (rule min_leaf_wrote [OF wrote_mono [OF w order.refl empty_subsetI] table_invD(1) [OF trie_shapeD(1) [OF sh]]])
  then show "listed trie' T" using listed_cong [OF f] ls by blast
qed

subsection \<open>Following a locator\<close>

lemma copy_at_fields:
  assumes c: "copy_at trie T p c" and e: "T p = Some e"
  shows "next_leaf (lc_value c) = e_locator e" and "entry_type (lc_value c) = entry_type e" and "entry_dirty (lc_value c) = entry_dirty e"
proof -
  note s = copy_at_node [OF c e]
  show "next_leaf (lc_value c) = e_locator e" "entry_type (lc_value c) = entry_type e" using erased_node(1,7) [OF s] by simp_all
  show "entry_dirty (lc_value c) = entry_dirty e" unfolding entry_dirty_bit s [symmetric] by (simp add: bit_sides)
qed

lemma copy_at_current: "copy_at trie T p c \<Longrightarrow> validate_entry trie c"
  by (auto simp: copy_at_def copy_of_def validate_entry_def)

lemma loc_tag_small:
  assumes "trie_shape heap trie T" and "p \<in> dom T"
  shows "ucast (ucast (hash_to_tag (hash_path trie p)) :: u8) = hash_to_tag (hash_path trie p)"
proof -
  obtain e where "T p = Some e" using assms(2) by blast
  then show ?thesis using node_okD(3) [OF shape_node [OF assms(1)]] by (metis ucast_ucast_u8)
qed

lemma loc_of_bucket:
  assumes sh: "trie_shape heap trie T" and nb: "unat (num_buckets trie) < 2 ^ 32" and p: "p \<in> dom T"
  shows "ucast (loc_primary_bucket (loc_of trie T p)) = hash_to_bucket (hash_path trie p)"
    and "ucast (loc_tag (loc_of trie T p)) = hash_to_tag (hash_path trie p)" and "loc_primary_bucket (loc_of trie T p) \<noteq> NO_BUCKET"
proof -
  obtain e where e: "T p = Some e" using p by blast
  let ?b = "hash_to_bucket (hash_path trie p)"
  have vs: "valid_sizes trie" using table_invD(5) [OF trie_shapeD(1) [OF sh]] by auto
  have "valid_bucket trie ?b" using hash_split_valid(1) [OF vs shape_hash_valid [OF sh e]] .
  then have b: "unat ?b < unat (num_buckets trie)" by (simp add: valid_bucket_unat)
  then have b32: "unat ?b < 2 ^ 32 - 1" using nb by simp
  then have "take_bit 32 ?b = ?b" by (simp add: word_unat_eq_iff unsigned_take_bit_eq take_bit_nat_eq_self)
  moreover have "(ucast (ucast ?b :: u32) :: u64) = take_bit 32 ?b" by (rule bit_word_eqI) (simp add: bit_simps)
  ultimately show u: "ucast (loc_primary_bucket (loc_of trie T p)) = ?b" by (simp add: loc_of_def)
  show "ucast (loc_tag (loc_of trie T p)) = hash_to_tag (hash_path trie p)"
    using loc_tag_small [OF sh p] by (simp add: loc_of_def)
  show "loc_primary_bucket (loc_of trie T p) \<noteq> NO_BUCKET"
  proof
    assume "loc_primary_bucket (loc_of trie T p) = NO_BUCKET"
    then have "?b = ucast (- 1 :: u32)" using u by simp
    moreover have "(ucast (- 1 :: u32) :: u64) = 0xFFFFFFFF" by code_simp
    ultimately have "unat ?b = 2 ^ 32 - 1" by simp
    then show False using b32 by simp
  qed
qed

lemma follow_locator:
  assumes sh: "trie_shape heap trie T" and nb: "unat (num_buckets trie) < 2 ^ 32" and p: "p \<in> dom T"
  shows "\<exists>c. locator_to_entry trie (loc_of trie T p) = Some c \<and> copy_at trie T p c"
proof -
  obtain e where e: "T p = Some e" using p by blast
  have "loc_color (loc_of trie T p) = entry_color e" using e by (simp add: loc_of_def)
  then show ?thesis
    using find_node_by_color [OF sh e] loc_of_bucket [OF assms] by (simp add: locator_to_entry_def)
qed

subsection \<open>The predecessor of a place\<close>

definition min_copy :: "cuckoo_trie \<Rightarrow> ct_entry_local_copy" where
  "min_copy trie = copy_of trie (- 1) (trie_min_leaf trie)"

definition pred_copy :: "cuckoo_trie \<Rightarrow> shape \<Rightarrow> u64 list \<Rightarrow> ct_entry_local_copy \<Rightarrow> bool" where
  "pred_copy trie T P c \<longleftrightarrow> (if before T P = {} then c = min_copy trie else copy_at trie T (Max (before T P)) c)"

lemma read_min_copy: "table_ok trie \<Longrightarrow> read_min_leaf trie = Some (min_copy trie)"
  using read_entry_at_rest [of trie "trie_min_leaf trie"]
  by (simp add: read_min_leaf_def min_copy_def copy_of_def Let_def trie_min_leaf_def)

lemma Max_before:
  assumes "shape_ok heap trie T" and "before T P \<noteq> {}"
  shows "Max (before T P) \<in> leaves T" and "Max (before T P) < P" and "l \<in> leaves T \<Longrightarrow> l < P \<Longrightarrow> l \<le> Max (before T P)"
  using Max_in [OF finite_before [OF assms(1)] assms(2)] Max_ge [OF finite_before [OF assms(1)], of l P] by (auto simp: before_def)

text \<open>Its link leads to the first leaf that is not before the place.\<close>

lemma pred_copy_link:
  assumes sh: "trie_shape heap trie T" and ls: "listed trie T" and c: "pred_copy trie T P c"
  shows "links_first trie T {l \<in> leaves T. \<not> l < P} (next_leaf (lc_value c))" and "entry_type (lc_value c) = TYPE_LEAF"
    and "\<not> entry_dirty (lc_value c)" and "validate_entry trie c"
proof -
  note ok = trie_shapeD(4) [OF sh]
  have "links_first trie T {l \<in> leaves T. \<not> l < P} (next_leaf (lc_value c)) \<and> entry_type (lc_value c) = TYPE_LEAF \<and>
      \<not> entry_dirty (lc_value c) \<and> validate_entry trie c"
  proof (cases "before T P = {}")
    case True
    then have "{l \<in> leaves T. \<not> l < P} = leaves T" by (auto simp: before_def)
    then show ?thesis using listedD(5) [OF ls] c True
      by (simp add: pred_copy_def min_copy_def copy_of_def min_leaf_ok_def validate_entry_def)
  next
    case False
    let ?m = "Max (before T P)"
    note m = Max_before [OF ok False]
    have c: "copy_at trie T ?m c" using c False by (simp add: pred_copy_def)
    obtain e where e: "T ?m = Some e" "entry_type e = TYPE_LEAF" using m(1) by (auto simp: leaves_def)
    have "?m < l \<longleftrightarrow> \<not> l < P" if "l \<in> leaves T" for l using m(2) m(3) [OF that] by fastforce
    then have "{l \<in> leaves T. \<not> l < P} = after T ?m" by (auto simp: after_def)
    then show ?thesis
      using copy_at_fields [OF c e(1)] e(2) listedD(2) [OF ls m(1) e(1)] listedD(4) [OF ls e(1)] copy_at_current [OF c] by simp
  qed
  then show "links_first trie T {l \<in> leaves T. \<not> l < P} (next_leaf (lc_value c))" "entry_type (lc_value c) = TYPE_LEAF"
    "\<not> entry_dirty (lc_value c)" "validate_entry trie c" by blast+
qed

lemma valid_bucket_of_path:
  assumes "trie_shape heap trie T" and "p \<in> dom T"
  shows "hash_to_bucket (hash_path trie p) \<noteq> - 1"
proof -
  obtain e where e: "T p = Some e" using assms(2) by blast
  have "valid_sizes trie" using table_invD(5) [OF trie_shapeD(1) [OF assms(1)]] by auto
  then have "hash_to_bucket (hash_path trie p) < num_buckets trie"
    using hash_split_valid(1) [OF _ shape_hash_valid [OF assms(1) e]] by (simp add: valid_bucket_def)
  then show ?thesis using word_n1_ge [of "num_buckets trie"] by auto
qed

text \<open>The locator that the search prepares.\<close>

text \<open>The question a locator of a predecessor stands for: a child of a bitmap of the path.\<close>

definition asks_child :: "cuckoo_trie \<Rightarrow> shape \<Rightarrow> ct_pred_locator \<Rightarrow> u64 list \<Rightarrow> u64 \<Rightarrow> bool" where
  "asks_child trie T loc p s \<longleftrightarrow> (\<exists>e. T p = Some e \<and> entry_type e = TYPE_BITMAP \<and> s \<in> children e \<and>
     sub_parent_color loc = entry_color e \<and> ucast (sub_last_symbol loc) = s \<and>
     sub_primary_bucket loc = hash_to_bucket (hash_path trie (p @ [s])) \<and>
     ucast (sub_tag loc) = hash_to_tag (hash_path trie (p @ [s])))"

lemma asks_child_found:
  assumes sh: "trie_shape heap trie T" and a: "asks_child trie T loc p s"
  shows "\<exists>c. find_subtree trie loc = Some c \<and> copy_at trie T (p @ [s]) c" and "sub_primary_bucket loc \<noteq> - 1"
proof -
  obtain e where e: "T p = Some e" "entry_type e = TYPE_BITMAP" "s \<in> children e" "sub_parent_color loc = entry_color e"
    "ucast (sub_last_symbol loc) = s" "sub_primary_bucket loc = hash_to_bucket (hash_path trie (p @ [s]))"
    "ucast (sub_tag loc) = hash_to_tag (hash_path trie (p @ [s]))" using a by (auto simp: asks_child_def)
  show *: "\<exists>c. find_subtree trie loc = Some c \<and> copy_at trie T (p @ [s]) c"
    using find_child_by_parent [OF sh e(1-3)] e(4-7) by (simp add: find_subtree_def)
  then have "p @ [s] \<in> dom T" by (auto simp: copy_at_def)
  then show "sub_primary_bucket loc \<noteq> - 1" using valid_bucket_of_path [OF sh] e(6) by simp
qed

lemma prefetched_child:
  assumes sh: "trie_shape heap trie T" and path: "path_on trie T (f_path f) qs" and pos: "pos < length qs"
    and bm: "entry_type (the (T (qs ! pos))) = TYPE_BITMAP" and s: "symbol \<le> 33"
  defines "loc \<equiv> prefetch_path_child_predecessor trie f pos symbol" and "P \<equiv> qs ! pos @ [of_nat symbol]"
  shows "if before T P = {} then sub_primary_bucket loc = - 1
    else \<exists>p s. asks_child trie T loc p s \<and> the (sub_path_pos loc) < length qs \<and> Max (before T P) = Max (below T (p @ [s]))"
proof -
  note found = left_search [OF sh path pos bm s, folded P_def, unfolded left_found_def]
  show ?thesis
  proof (cases "find_left_descend (f_path f) pos symbol")
    case None
    then show ?thesis using found by (simp add: loc_def prefetch_path_child_predecessor_def)
  next
    case (Some a)
    obtain q t where a: "a = (q, t)" by fastforce
    obtain e where e: "T (qs ! q) = Some e" "erase_side (node_at (f_path f) q) = e"
      using path_node [OF path, of q] found Some a pos by auto
    have f: "q \<le> pos" "t \<le> 32" "entry_type e = TYPE_BITMAP" "of_nat t \<in> children e" "before T P \<noteq> {}"
      "Max (before T P) = Max (below T (qs ! q @ [of_nat t]))" using found Some a e(1) by simp_all
    let ?q = "qs ! q @ [of_nat t :: u64]"
    have hash: "accumulate_hash trie (pe_prefix_hash (f_path f ! q)) (of_nat t) = hash_path trie ?q"
      using path f(1) pos by (simp add: path_on_def hash_path_snoc)
    have color: "entry_color (node_at (f_path f) q) = entry_color e" by (rule erased_node(3) [OF e(2)])
    obtain c where "copy_at trie T ?q c" using find_child_by_parent [OF sh e(1) f(3,4)] by blast
    then have tag: "ucast (ucast (hash_to_tag (hash_path trie ?q)) :: u8) = hash_to_tag (hash_path trie ?q)"
      using loc_tag_small [OF sh, of ?q] by (auto simp: copy_at_def)
    have "ucast (of_nat t :: u8) = (of_nat t :: u64)"
      using f(2) by (simp add: word_unat_eq_iff unsigned_ucast_eq unat_of_nat take_bit_nat_eq_self)
    then have "asks_child trie T loc (qs ! q) (of_nat t)" using e(1) f(3,4) tag hash color
      by (simp add: asks_child_def loc_def prefetch_path_child_predecessor_def Some a Let_def)
    moreover have "the (sub_path_pos loc) = q" by (simp add: loc_def prefetch_path_child_predecessor_def Some a Let_def)
    ultimately show ?thesis using f(1,5,6) pos by auto
  qed
qed

lemma max_leaf_of:
  assumes sh: "trie_shape heap trie T" and ls: "listed trie T" and c: "copy_at trie T q c"
  shows "if entry_type (lc_value c) = TYPE_LEAF then Max (below T q) = q
    else \<exists>m. locator_to_entry trie (max_leaf (lc_value c)) = Some m \<and> copy_at trie T (Max (below T q)) m"
proof -
  note ok = trie_shapeD(4) [OF sh]
  obtain e where e: "T q = Some e" using c by (auto simp: copy_at_def)
  note f = copy_at_fields [OF c e]
  show ?thesis
  proof (cases "entry_type e = TYPE_LEAF")
    case True
    then have "below T q = {q}" using below_leaf [OF ok] e by (simp add: leaves_def)
    then show ?thesis using True f by simp
  next
    case False
    have "Max (below T q) \<in> below T q" using e by (intro Max_in finite_below [OF ok] below_nonempty [OF ok]) auto
    then have "Max (below T q) \<in> dom T" using leaves_dom by (auto simp: below_def)
    from follow_locator [OF sh listedD(1) [OF ls] this] show ?thesis using False f listedD(3) [OF ls e False] by simp
  qed
qed

lemma copy_current_locked:
  assumes c: "copy_at trie0 T p c" and ok: "table_ok trie0" and u: "unlocked trie = unlocked trie0"
  shows "validate_entry trie c"
proof -
  have "fst (last_pos c) < length (buckets trie0)"
    using c table_okD(3) [OF ok] by (auto simp: copy_at_def copy_of_def table_cells_def)
  then show ?thesis using copy_at_current [OF c] unlocked_eqD(1,3) [OF u] by (simp add: validate_entry_def)
qed

text \<open>The path and the locator may be older than locks that the thread has taken since.\<close>

theorem predecessor_found_locked:
  assumes sh0: "trie_shape heap trie0 T" and ls0: "listed trie0 T" and path: "path_on trie0 T (f_path f) qs" and pos: "pos < length qs"
    and bm: "entry_type (the (T (qs ! pos))) = TYPE_BITMAP" and s: "symbol \<le> 33" and u: "unlocked trie = unlocked trie0"
  defines "loc \<equiv> prefetch_path_child_predecessor trie0 f pos symbol"
  shows "\<exists>c. get_predecessor_atomic trie f loc old = Some (True, c) \<and> find_predecessor trie loc = Some (loc\<lparr>predecessor := c\<rparr>) \<and>
    pred_copy trie T (qs ! pos @ [of_nat symbol]) c"
proof -
  note sh = ordered_unlocked(1) [OF u sh0 ls0] and ls = ordered_unlocked(2) [OF u sh0 ls0]
  have "asks_child trie = asks_child trie0" unfolding asks_child_def fun_eq_iff frame_fields(5) [OF ordered_unlocked(3) [OF u sh0 ls0]] by simp
  note pre = prefetched_child [OF sh0 path pos bm s, folded loc_def, folded this]
  let ?P = "qs ! pos @ [of_nat symbol :: u64]"
  have "validate_entry trie (pe_entry (f_path f ! i))" if "i < length qs" for i
    using path that copy_current_locked [OF _ table_invD(1) [OF trie_shapeD(1) [OF sh0]] u] by (auto simp: path_on_def)
  moreover have "length (f_path f) = length qs" using path by (simp add: path_on_def)
  ultimately have valid: "validate_path_from trie f i" for i by (auto simp: validate_path_from_def list_all_length)
  note ok = table_invD(1) [OF trie_shapeD(1) [OF sh]]
  show ?thesis
  proof (cases "before T ?P = {}")
    case True
    then show ?thesis using pre read_min_copy [OF ok] valid
      by (simp add: get_predecessor_atomic_def find_predecessor_def pred_copy_def)
  next
    case False
    then obtain p s where a: "asks_child trie T loc p s" "Max (before T ?P) = Max (below T (p @ [s]))" using pre by auto
    let ?q = "p @ [s]"
    obtain c where c: "sub_primary_bucket loc \<noteq> - 1" "find_subtree trie loc = Some c" "copy_at trie T ?q c"
      "Max (before T ?P) = Max (below T ?q)" using asks_child_found [OF sh a(1)] a(2) by auto
    obtain e where e: "T ?q = Some e" using c(3) by (auto simp: copy_at_def)
    note f = copy_at_fields [OF c(3) e]
    note m = max_leaf_of [OF sh ls c(3)]
    show ?thesis
    proof (cases "entry_type (lc_value c) = TYPE_LEAF")
      case True
      then show ?thesis using c valid False m f(3) listedD(4) [OF ls e]
        by (simp add: get_predecessor_atomic_def find_predecessor_def pred_copy_def)
    next
      case no_leaf: False
      then obtain l where l: "locator_to_entry trie (max_leaf (lc_value c)) = Some l" "copy_at trie T (Max (below T ?q)) l"
        using m by auto
      then have p: "pred_copy trie T ?P l" using False c(4) by (simp add: pred_copy_def)
      show ?thesis using c(1,2) no_leaf l(1) valid copy_at_current [OF c(3)] pred_copy_link(2,3) [OF sh ls p] p
        by (simp add: get_predecessor_atomic_def find_predecessor_def)
    qed
  qed
qed

lemmas predecessor_found = predecessor_found_locked [OF _ _ _ _ _ _ refl]

end
