(* ===== verification/Update.thy ===== *)
theory Update
  imports LeafList
begin

text \<open>
  Update and upsert of a key that is there (\<open>ct_update\<close>, \<open>ct_upsert\<close>, \<open>main.c\<close>) on the shape of
  the trie: the object of exactly that key's leaf is replaced, every other leaf and every node
  stays, and the operation leaves no lock behind. The first insertion makes a shape of one leaf.
\<close>

subsection \<open>A leaf for each key\<close>

lemma leaf_symbols:
  assumes "shape_ok heap trie T" and "p \<in> leaves T"
  shows "wf_kv (heap (kv_at T p))" and "prefix p (key_symbols (key_of heap (kv_at T p)))"
proof -
  obtain e where e: "T p = Some e" "entry_type e = TYPE_LEAF" using assms(2) by (auto simp: leaves_def)
  have "leaf_ok heap p e" using node_okD(5) [OF shape_okD(2) [where T = T and p = p, OF assms(1) e(1)] e(2)] .
  then show "wf_kv (heap (kv_at T p))" "prefix p (key_symbols (key_of heap (kv_at T p)))"
    using e(1) by (simp_all add: leaf_ok_def kv_at_def)
qed

lemma leaf_key_unique:
  assumes ok: "shape_ok heap trie T" and p: "p \<in> leaves T" and q: "q \<in> leaves T"
    and eq: "key_of heap (kv_at T p) = key_of heap (kv_at T q)"
  shows "p = q"
proof -
  have "prefix p q \<or> prefix q p"
    using prefix_same_cases [OF leaf_symbols(2) [OF ok p] leaf_symbols(2) [OF ok q, folded eq]] by blast
  then show ?thesis using leaf_no_child [OF ok p leaves_dom [OF q]] leaf_no_child [OF ok q leaves_dom [OF p]] by blast
qed

lemma kv_at_unique:
  assumes "shape_ok heap trie T" and "p \<in> leaves T" and "q \<in> leaves T" and "kv_at T p = kv_at T q"
  shows "p = q"
  using leaf_key_unique [OF assms(1-3)] assms(4) by simp

lemma kvs_of_member: "a \<in> kvs_of T \<longleftrightarrow> (\<exists>p\<in>leaves T. a = kv_at T p)"
  by (auto simp: kvs_of_def)

lemma kvs_of_replaced:
  assumes ok: "shape_ok heap trie T" and q: "q \<in> leaves T" and e: "entry_type e = TYPE_LEAF" "entry_kv e = kv"
  shows "kvs_of (T(q \<mapsto> e)) = insert kv (kvs_of T - {kv_at T q})"
proof -
  have L: "leaves (T(q \<mapsto> e)) = leaves T" using q e(1) by (auto simp: leaves_def)
  have "kv_at (T(q \<mapsto> e)) p = (if p = q then kv else kv_at T p)" for p using e(2) by (simp add: kv_at_def)
  then have "kvs_of (T(q \<mapsto> e)) = insert kv (kv_at T ` (leaves T - {q}))" using q by (auto simp: kvs_of_def L)
  moreover have "kv_at T ` (leaves T - {q}) = kvs_of T - {kv_at T q}"
    using kv_at_unique [OF ok _ q] by (auto simp: kvs_of_def)
  ultimately show ?thesis by simp
qed

text \<open>Whether a key is there is decided by the node at which its walk ends.\<close>

lemma walk_key:
  assumes sh: "trie_shape heap trie T" and on: "finger_on trie T (key_symbols key) f q d"
    and st: "stopped_at T (key_symbols key) symbol q d" and p: "p \<in> leaves T" "key_of heap (kv_at T p) = key"
  shows "p = q"
  using walk_end [OF trie_shapeD(4) [OF sh] on st p(1)] leaf_symbols(2) [OF trie_shapeD(4) [OF sh] p(1)] p(2) by simp

lemma new_object_ordered:
  assumes o: "ordered_trie heap trie T" and q: "q \<in> leaves T" and new: "new_object (the (T q)) kv e"
    and sh: "trie_shape heap trie' (T(q \<mapsto> e))" and w: "wrote {..<unat (num_buckets trie)} n trie trie'"
  shows "ordered_trie heap trie' (T(q \<mapsto> e))"
proof -
  obtain f where f: "T q = Some f" "entry_type f = TYPE_LEAF" using q by (auto simp: leaves_def)
  have "frame trie' = frame trie" using w by (simp add: wrote_def)
  moreover have "cell trie' (trie_min_leaf trie') = cell trie (trie_min_leaf trie)"
    by (rule min_leaf_wrote [OF w table_invD(1) [OF trie_shapeD(1) [OF ordered_trieD(1) [OF o]]]])
  ultimately have "listed trie' (T(q \<mapsto> e))"
    by (rule listed_upd [where T = T, OF ordered_trieD(2) [OF o] f(1)]) (use new f in \<open>simp_all add: new_object_def link_def\<close>)
  then show ?thesis using sh by (simp add: ordered_trie_def)
qed

subsection \<open>Update\<close>

text \<open>The descent for a key that is there ends at its leaf.\<close>

lemma present_walk:
  assumes sh: "trie_shape heap trie T" and kv: "wf_kv (heap kv)" "unat (key_size (heap kv)) \<le> MAX_KEY_BYTES"
    and q: "q \<in> leaves T" "key_of heap (kv_at T q) = key_of heap kv"
  shows "\<exists>r f symbol f'. init_finger trie = Some (Some r, f) \<and>
    descend trie f (unat (kv_key_size (heap kv))) (kv_bytes (heap kv)) track = Some (symbol, f') \<and>
    copy_at trie T q (containing_entry f') \<and> entry_type (lc_value (containing_entry f')) = TYPE_LEAF \<and>
    kv_key_compare (heap (entry_kv (lc_value (containing_entry f')))) (heap kv) = 0"
proof -
  obtain r f symbol f' q' d where init: "init_finger trie = Some (Some r, f)"
    and dsc: "descend trie f (unat (kv_key_size (heap kv))) (kv_bytes (heap kv)) track = Some (symbol, f')"
    and on: "finger_on trie T (key_symbols (key_of heap kv)) f' q' d"
    and st: "stopped_at T (key_symbols (key_of heap kv)) symbol q' d" using kv_walk [OF sh kv, of track] by blast
  have "q' = q" using walk_key [OF sh on st q] by simp
  then have c: "copy_at trie T q (containing_entry f')" using on by (simp add: finger_on_def)
  obtain e where e: "T q = Some e" "entry_type e = TYPE_LEAF" using q(1) by (auto simp: leaves_def)
  note v = erased_node [OF copy_at_node [OF c e(1)]]
  have "entry_kv (lc_value (containing_entry f')) = kv_at T q"
    using v(13) node_okD(1) [OF shape_node [OF sh e(1)]] e(1) by (simp add: kv_at_def)
  then have "kv_key_compare (heap (entry_kv (lc_value (containing_entry f')))) (heap kv) = 0"
    using kv_compare_leaf(3) [OF leaf_symbols(1) [OF trie_shapeD(4) [OF sh] q(1)] kv(1)] q(2) by simp
  then show ?thesis using init dsc c v(1) e(2) by auto
qed

text \<open>One attempt; it has to be repeated only when another thread holds the bucket of the leaf.\<close>

lemma update_attempt:
  assumes sh: "trie_shape heap trie T" and lok: "locks_ok others (trie, [])"
    and kv: "canonical_address kv" "wf_kv (heap kv)" "unat (key_size (heap kv)) \<le> MAX_KEY_BYTES"
    and q: "q \<in> leaves T" "key_of heap (kv_at T q) = key_of heap kv"
  shows "\<exists>st trie'. ct_update_internal heap trie kv = Some (st, trie', []) \<and> locks_ok others (trie', []) \<and>
    (st = SI_RETRY \<and> trie' = trie \<and> others \<noteq> {} \<or>
     st = SI_OK \<and> wrote {..<unat (num_buckets trie)} 1 trie trie' \<and>
       (\<exists>e. new_object (the (T q)) kv e \<and> trie_shape heap trie' (T(q \<mapsto> e))))"
proof -
  obtain r f symbol f' where w: "init_finger trie = Some (Some r, f)"
    "descend trie f (unat (kv_key_size (heap kv))) (kv_bytes (heap kv)) False = Some (symbol, f')"
    "copy_at trie T q (containing_entry f')" "entry_type (lc_value (containing_entry f')) = TYPE_LEAF"
    "kv_key_compare (heap (entry_kv (lc_value (containing_entry f')))) (heap kv) = 0"
    using present_walk [OF sh kv(2,3) q, of False] by blast
  have "ct_update_internal heap trie kv = replace_leaf_kv (trie, []) f' kv"
    using w by (simp add: ct_update_internal_def init_lock_mgr_def)
  then show ?thesis using replace_leaf_shape [OF sh lok w(3) q(1) kv(1,2) q(2) [symmetric]] by (fastforce split: if_splits)
qed

theorem ct_update_shape:
  assumes sh: "ordered_trie heap trie T" and lok: "locks_ok {} (trie, [])"
    and kv: "canonical_address kv" "wf_kv (heap kv)" "unat (key_size (heap kv)) \<le> MAX_KEY_BYTES"
    and q: "q \<in> leaves T" "key_of heap (kv_at T q) = key_of heap kv"
  shows "\<exists>trie' e. ct_update heap act trie kv = Some (S_OK, trie') \<and> locks_ok {} (trie', []) \<and>
    new_object (the (T q)) kv e \<and> ordered_trie heap trie' (T(q \<mapsto> e))"
proof -
  obtain trie' e where u: "ct_update_internal heap trie kv = Some (SI_OK, trie', [])" "locks_ok {} (trie', [])"
    "new_object (the (T q)) kv e" "trie_shape heap trie' (T(q \<mapsto> e))" "wrote {..<unat (num_buckets trie)} 1 trie trie'"
    using update_attempt [OF ordered_trieD(1) [OF sh] lok kv q] by blast
  then have "ct_update heap act trie kv = Some (S_OK, trie')" by (simp add: ct_update_def update_attempts.simps)
  moreover have "ordered_trie heap trie' (T(q \<mapsto> e))" by (rule new_object_ordered [OF sh q(1) u(3-5)])
  ultimately show ?thesis using u by blast
qed

subsection \<open>Upsert of a present key\<close>

lemma upsert_attempt:
  assumes sh: "trie_shape heap trie T" and lok: "locks_ok others (trie, [])"
    and kv: "canonical_address kv" "wf_kv (heap kv)" "unat (key_size (heap kv)) \<le> MAX_KEY_BYTES"
    and q: "q \<in> leaves T" "key_of heap (kv_at T q) = key_of heap kv"
  shows "\<exists>st trie'. ct_insert_internal heap trie kv True = Some (st, trie', []) \<and> locks_ok others (trie', []) \<and>
    (st = SI_RETRY \<and> trie' = trie \<and> others \<noteq> {} \<or>
     st = SI_EXISTS \<and> wrote {..<unat (num_buckets trie)} 1 trie trie' \<and>
       (\<exists>e. new_object (the (T q)) kv e \<and> trie_shape heap trie' (T(q \<mapsto> e))))"
proof -
  obtain r f symbol f' where w: "init_finger trie = Some (Some r, f)"
    "descend trie f (unat (kv_key_size (heap kv))) (kv_bytes (heap kv)) True = Some (symbol, f')"
    "copy_at trie T q (containing_entry f')" "entry_type (lc_value (containing_entry f')) = TYPE_LEAF"
    "kv_key_compare (heap (entry_kv (lc_value (containing_entry f')))) (heap kv) = 0"
    using present_walk [OF sh kv(2,3) q, of True] by blast
  have "create_leaf heap (trie, []) f' kv (of_int symbol) = Some (SI_EXISTS, f', trie, [])"
    using w(4,5) by (simp add: create_leaf_def create_leaf_at_leaf_def Let_def)
  then have "ct_insert_internal heap trie kv True =
      do { (ret, s) \<leftarrow> replace_leaf_kv (trie, []) f' kv; if ret = SI_RETRY then Some (SI_RETRY, s) else Some (SI_EXISTS, s) }"
    using w(1,2) by (simp add: ct_insert_internal_def init_lock_mgr_def)
  then show ?thesis using replace_leaf_shape [OF sh lok w(3) q(1) kv(1,2) q(2) [symmetric]] by (fastforce split: if_splits)
qed

theorem ct_upsert_shape:
  assumes sh: "ordered_trie heap trie T" and lok: "locks_ok {} (trie, [])"
    and kv: "canonical_address kv" "wf_kv (heap kv)" "unat (key_size (heap kv)) \<le> MAX_KEY_BYTES"
    and q: "q \<in> leaves T" "key_of heap (kv_at T q) = key_of heap kv"
  shows "\<exists>trie' e. ct_upsert heap act trie kv = Some (S_OK, Some False, trie') \<and> locks_ok {} (trie', []) \<and>
    new_object (the (T q)) kv e \<and> ordered_trie heap trie' (T(q \<mapsto> e))"
proof -
  obtain trie' e where u: "ct_insert_internal heap trie kv True = Some (SI_EXISTS, trie', [])" "locks_ok {} (trie', [])"
    "new_object (the (T q)) kv e" "trie_shape heap trie' (T(q \<mapsto> e))" "wrote {..<unat (num_buckets trie)} 1 trie trie'"
    using upsert_attempt [OF ordered_trieD(1) [OF sh] lok kv q] by blast
  then have "ct_upsert heap act trie kv = Some (S_OK, Some False, trie')"
    using unat_kv_key_size [OF kv(2)] kv(3) by (simp add: ct_upsert_def insert_attempts.simps)
  moreover have "ordered_trie heap trie' (T(q \<mapsto> e))" by (rule new_object_ordered [OF sh q(1) u(3-5)])
  ultimately show ?thesis using u by blast
qed

subsection \<open>The first key\<close>

lemma root_leaf_parent: "entry_parent_color (root_leaf kv) = INVALID_COLOR"
proof -
  have "(drop_bit 4 0x91 :: u8) = 9" by code_simp
  then show ?thesis by (simp add: root_leaf_def entry_set_kv_def Let_def entry_parent_color_def)
qed

theorem root_leaf_shape:
  assumes inv: "table_inv trie" "table_content trie = {#(0, root_leaf kv)#}" and ne: "\<not> is_empty trie"
    and root: "cell trie (0, 0) = root_leaf kv" and kv: "canonical_address kv" "wf_kv (heap kv)"
  shows "trie_shape heap trie [[] \<mapsto> root_leaf kv]"
proof -
  note r = root_leaf_props [of kv]
  have "leaf_ok heap [] (root_leaf kv)" using r(7) kv by (simp add: leaf_ok_def)
  then have "node_ok heap trie [[] \<mapsto> root_leaf kv] [] (root_leaf kv)"
    using r(1,2,4,5) by (simp add: node_ok_def hash_path_Nil start_hash)
  then have "shape_ok heap trie [[] \<mapsto> root_leaf kv]" by (simp add: shape_ok_def root_leaf_parent)
  moreover have "shape_content trie [[] \<mapsto> root_leaf kv] = {#(0, root_leaf kv)#}"
    by (simp add: shape_content_def place_def hash_path_Nil start_hash)
  moreover have "cell trie root_ptr = root_leaf kv" using root by (simp add: root_ptr_def start_hash)
  ultimately show ?thesis using inv ne by (simp add: trie_shape_def)
qed

lemma root_leaf_listed:
  assumes "unat (num_buckets trie) < 2 ^ 32" and "cell trie (trie_min_leaf trie) = first_min_leaf"
  shows "listed trie [[] \<mapsto> root_leaf kv]"
proof -
  let ?T = "[[] \<mapsto> root_leaf kv]"
  note r = root_leaf_props [of kv]
  have L: "leaves ?T = {[]}" using r(2) by (auto simp: leaves_def)
  have "\<not> bit (0x91 :: u8) 3" by code_simp
  then have d: "\<not> entry_dirty (root_leaf kv)" by (simp add: entry_dirty_bit root_leaf_def entry_set_kv_def Let_def)
  have n: "loc_primary_bucket (e_locator (root_leaf kv)) = NO_BUCKET" by (simp add: root_leaf_def)
  have "wf_entry first_min_leaf" "entry_type first_min_leaf = TYPE_LEAF" "\<not> entry_dirty first_min_leaf" by code_simp+
  moreover have "e_locator first_min_leaf = loc_of trie ?T []"
    using r(3) by (simp add: first_min_leaf_def loc_of_def hash_path_Nil start_hash)
  ultimately have "min_leaf_ok trie ?T first_min_leaf" by (simp add: min_leaf_ok_def links_first_def L)
  then show ?thesis using assms d n r(2) by (auto simp: listed_def L links_first_def after_def)
qed

theorem ct_insert_first_shape:
  assumes fresh: "fresh_trie others trie" and free: "0 \<notin> others"
    and kv: "canonical_address kv" "wf_kv (heap kv)" "unat (key_size (heap kv)) \<le> MAX_KEY_BYTES"
  shows "\<exists>trie'. ct_insert heap act trie kv = Some (S_OK, trie') \<and> ordered_trie heap trie' [[] \<mapsto> root_leaf kv] \<and>
    locks_ok others (trie', [])"
proof -
  obtain trie' where t: "ct_insert heap act trie kv = Some (S_OK, trie')" "table_inv trie'" "table_content trie' = {#(0, root_leaf kv)#}"
    "cell trie' (0, 0) = root_leaf kv" "\<not> is_empty trie'" "locks_ok others (trie', [])" "num_buckets trie' = num_buckets trie"
    "cell trie' (trie_min_leaf trie') = first_min_leaf"
    using insert_first [where heap = heap and act = act, OF fresh free kv(1,3,2)] by blast
  have "trie_shape heap trie' [[] \<mapsto> root_leaf kv]" by (rule root_leaf_shape [where heap = heap, OF t(2,3,5,4) kv(1,2)])
  moreover have "listed trie' [[] \<mapsto> root_leaf kv]"
    by (rule root_leaf_listed) (use t(7,8) fresh in \<open>simp_all add: fresh_trie_def\<close>)
  ultimately show ?thesis using t by (auto simp: ordered_trie_def)
qed

subsection \<open>The trie as a map of key objects\<close>

text \<open>
  What a client relies on: the trie stands for a map from keys to key objects, lookup reads the
  map, and an update replaces the object of a key that is there and reports one that is not.
\<close>

locale object_map =
  fixes stands_for :: "'t \<Rightarrow> ('k \<Rightarrow> 'v) \<Rightarrow> bool" and look :: "'t \<Rightarrow> 'k \<Rightarrow> 'v option"
    and update :: "'t \<Rightarrow> 'v \<Rightarrow> (bool \<times> 't) option" and key :: "'v \<Rightarrow> 'k" and null :: 'v
    and valid_key :: "'k \<Rightarrow> bool" and valid_object :: "'v \<Rightarrow> bool"
  assumes look: "stands_for t m \<Longrightarrow> valid_key k \<Longrightarrow> look t k = Some (m k)"
    and update_there: "stands_for t m \<Longrightarrow> valid_object v \<Longrightarrow> m (key v) \<noteq> null \<Longrightarrow>
      \<exists>t'. update t v = Some (True, t') \<and> stands_for t' (m(key v := v))"
    and update_missing: "stands_for t m \<Longrightarrow> valid_object v \<Longrightarrow> m (key v) = null \<Longrightarrow> update t v = Some (False, t)"
    and object: "valid_object v \<Longrightarrow> v \<noteq> null" "valid_object v \<Longrightarrow> valid_key (key v)"
begin

primrec updates :: "'t \<Rightarrow> 'v list \<Rightarrow> 't option" where
  "updates t [] = Some t"
| "updates t (v # vs) = (case update t v of None \<Rightarrow> None | Some (found, t') \<Rightarrow> updates t' vs)"

definition put :: "'v \<Rightarrow> ('k \<Rightarrow> 'v) \<Rightarrow> 'k \<Rightarrow> 'v" where
  "put v m = (if m (key v) = null then m else m(key v := v))"

lemma update_put:
  assumes "stands_for t m" and "valid_object v"
  shows "\<exists>t'. update t v = Some (m (key v) \<noteq> null, t') \<and> stands_for t' (put v m)"
  using update_there [OF assms] update_missing [OF assms] assms(1) by (cases "m (key v) = null") (auto simp: put_def)

lemma updates_put:
  assumes "stands_for t m" and "\<forall>v\<in>set vs. valid_object v"
  shows "\<exists>t'. updates t vs = Some t' \<and> stands_for t' (fold put vs m)"
  using assms
proof (induction vs arbitrary: t m)
  case (Cons v vs)
  obtain t' where "update t v = Some (m (key v) \<noteq> null, t')" "stands_for t' (put v m)"
    using update_put Cons.prems by (metis list.set_intros(1))
  then show ?case using Cons.IH [of t' "put v m"] Cons.prems(2) by simp
qed simp

lemma fold_put:
  assumes "\<forall>v\<in>set vs. valid_object v"
  shows "fold put vs m k = (if m k = null then null else last (m k # filter (\<lambda>v. key v = k) vs))"
  using assms
proof (induction vs arbitrary: m)
  case (Cons v vs)
  have "v \<noteq> null" using Cons.prems object(1) by simp
  then have p: "put v m k = (if m k = null then null else if key v = k then v else m k)" by (auto simp: put_def)
  show ?case using Cons.IH [of "put v m"] Cons.prems \<open>v \<noteq> null\<close> by (auto simp: p)
qed simp

text \<open>After any updates, a key that was there has the object of the last update of it.\<close>

lemma look_updates:
  assumes "stands_for t m" and "\<forall>v\<in>set vs. valid_object v" and "valid_key k"
  shows "\<exists>t'. updates t vs = Some t' \<and>
    look t' k = Some (if m k = null then null else last (m k # filter (\<lambda>v. key v = k) vs))"
  using updates_put [OF assms(1,2)] look [OF _ assms(3)] fold_put [OF assms(2), of m k] by fastforce

end

text \<open>The trie provides it.\<close>

definition trie_map :: "kv_heap \<Rightarrow> cuckoo_trie \<Rightarrow> (u8 list \<Rightarrow> u64) \<Rightarrow> bool" where
  "trie_map heap trie m \<longleftrightarrow>
     (\<exists>T. ordered_trie heap trie T \<and> locks_ok {} (trie, []) \<and> NULL \<notin> kvs_of T \<and> m = abs_map heap (kvs_of T))"

definition storable :: "kv_heap \<Rightarrow> u64 \<Rightarrow> bool" where
  "storable heap kv \<longleftrightarrow>
     kv \<noteq> NULL \<and> canonical_address kv \<and> wf_kv (heap kv) \<and> unat (key_size (heap kv)) \<le> MAX_KEY_BYTES"

lemma abs_map_at:
  assumes "trie_shape heap trie T" and "q \<in> leaves T" and "key_of heap (kv_at T q) = key"
  shows "abs_map heap (kvs_of T) key = kv_at T q"
proof -
  have "p = q" if "p \<in> leaves T" "key_of heap (kv_at T p) = key" for p
    using leaf_key_unique [OF trie_shapeD(4) [OF assms(1)] that(1) assms(2)] that(2) assms(3) by simp
  then have "{a \<in> kvs_of T. key_of heap a = key} \<subseteq> {kv_at T q}" unfolding kvs_of_def by blast
  moreover have "kv_at T q \<in> {a \<in> kvs_of T. key_of heap a = key}" using assms(2,3) by (simp add: kvs_of_def)
  ultimately have "{a \<in> kvs_of T. key_of heap a = key} = {kv_at T q}" by blast
  moreover have "\<not> absent heap (kvs_of T) key" using assms(2,3) by (auto simp: absent_def kvs_of_def)
  ultimately show ?thesis by (simp add: abs_map_def)
qed

lemma abs_map_present:
  assumes "NULL \<notin> kvs_of T" and "trie_shape heap trie T"
  shows "abs_map heap (kvs_of T) key \<noteq> NULL \<longleftrightarrow> (\<exists>q\<in>leaves T. key_of heap (kv_at T q) = key)"
proof
  assume "abs_map heap (kvs_of T) key \<noteq> NULL"
  then have "\<not> absent heap (kvs_of T) key" by (auto simp: abs_map_def)
  then show "\<exists>q\<in>leaves T. key_of heap (kv_at T q) = key" by (auto simp: absent_def kvs_of_def)
next
  assume "\<exists>q\<in>leaves T. key_of heap (kv_at T q) = key"
  then show "abs_map heap (kvs_of T) key \<noteq> NULL"
    using abs_map_at [OF assms(2)] assms(1) by (metis kvs_of_member)
qed

lemma abs_map_replaced:
  assumes sh: "trie_shape heap trie T" "trie_shape heap trie' (T(q \<mapsto> e))" and q: "q \<in> leaves T"
    and e: "entry_type e = TYPE_LEAF" "entry_kv e = kv" and key: "key_of heap (kv_at T q) = key_of heap kv"
  shows "abs_map heap (kvs_of (T(q \<mapsto> e))) = (abs_map heap (kvs_of T))(key_of heap kv := kv)"
proof
  fix k
  have L: "leaves (T(q \<mapsto> e)) = leaves T" using q e(1) by (auto simp: leaves_def)
  have at: "kv_at (T(q \<mapsto> e)) p = (if p = q then kv else kv_at T p)" for p using e(2) by (simp add: kv_at_def)
  show "abs_map heap (kvs_of (T(q \<mapsto> e))) k = ((abs_map heap (kvs_of T))(key_of heap kv := kv)) k"
  proof (cases "\<exists>p\<in>leaves T. key_of heap (kv_at T p) = k")
    case True
    then obtain p where p: "p \<in> leaves T" "key_of heap (kv_at T p) = k" by blast
    have "key_of heap (kv_at (T(q \<mapsto> e)) p) = k" using p(2) key by (cases "p = q") (simp_all add: at)
    then have "abs_map heap (kvs_of (T(q \<mapsto> e))) k = kv_at (T(q \<mapsto> e)) p" using abs_map_at [OF sh(2)] p L by simp
    moreover have "p = q \<longleftrightarrow> key_of heap (kv_at T p) = key_of heap (kv_at T q)"
      using leaf_key_unique [OF trie_shapeD(4) [OF sh(1)] p(1) q] by auto
    then have "p = q \<longleftrightarrow> k = key_of heap kv" unfolding p(2) key .
    ultimately show ?thesis using abs_map_at [OF sh(1) p] at by simp
  next
    case False
    then have "absent heap (kvs_of T) k" "absent heap (kvs_of (T(q \<mapsto> e))) k" "k \<noteq> key_of heap kv"
      using at key q L by (auto simp: absent_def kvs_of_def)
    then show ?thesis by (simp add: abs_map_def)
  qed
qed

theorem ct_update_map:
  assumes t: "trie_map heap trie m" and kv: "storable heap kv" and there: "m (key_of heap kv) \<noteq> NULL"
  shows "\<exists>trie'. ct_update heap act trie kv = Some (S_OK, trie') \<and> trie_map heap trie' (m(key_of heap kv := kv))"
proof -
  obtain T where T: "ordered_trie heap trie T" "locks_ok {} (trie, [])" "NULL \<notin> kvs_of T" "m = abs_map heap (kvs_of T)"
    using t by (auto simp: trie_map_def)
  note sh = ordered_trieD(1) [OF T(1)]
  note k = kv [unfolded storable_def]
  obtain q where q: "q \<in> leaves T" "key_of heap (kv_at T q) = key_of heap kv"
    using abs_map_present [OF T(3) sh] there T(4) by blast
  obtain trie' e where u: "ct_update heap act trie kv = Some (S_OK, trie')" "locks_ok {} (trie', [])"
    "new_object (the (T q)) kv e" "ordered_trie heap trie' (T(q \<mapsto> e))"
    using ct_update_shape [where act = act, OF T(1,2) _ _ _ q] k by blast
  have e: "entry_type e = TYPE_LEAF" "entry_kv e = kv" using u(3) by (simp_all add: new_object_def)
  have "NULL \<notin> kvs_of (T(q \<mapsto> e))" using kvs_of_replaced [where T = T, OF trie_shapeD(4) [OF sh] q(1) e] T(3) k by simp
  then show ?thesis using u abs_map_replaced [OF sh ordered_trieD(1) [OF u(4)] q(1) e q(2)] T(4) unfolding trie_map_def by metis
qed

theorem ct_upsert_map:
  assumes t: "trie_map heap trie m" and kv: "storable heap kv" and there: "m (key_of heap kv) \<noteq> NULL"
  shows "\<exists>trie'. ct_upsert heap act trie kv = Some (S_OK, Some False, trie') \<and> trie_map heap trie' (m(key_of heap kv := kv))"
proof -
  obtain T where T: "ordered_trie heap trie T" "locks_ok {} (trie, [])" "NULL \<notin> kvs_of T" "m = abs_map heap (kvs_of T)"
    using t by (auto simp: trie_map_def)
  note sh = ordered_trieD(1) [OF T(1)]
  note k = kv [unfolded storable_def]
  obtain q where q: "q \<in> leaves T" "key_of heap (kv_at T q) = key_of heap kv"
    using abs_map_present [OF T(3) sh] there T(4) by blast
  obtain trie' e where u: "ct_upsert heap act trie kv = Some (S_OK, Some False, trie')" "locks_ok {} (trie', [])"
    "new_object (the (T q)) kv e" "ordered_trie heap trie' (T(q \<mapsto> e))"
    using ct_upsert_shape [where act = act, OF T(1,2) _ _ _ q] k by blast
  have e: "entry_type e = TYPE_LEAF" "entry_kv e = kv" using u(3) by (simp_all add: new_object_def)
  have "NULL \<notin> kvs_of (T(q \<mapsto> e))" using kvs_of_replaced [where T = T, OF trie_shapeD(4) [OF sh] q(1) e] T(3) k by simp
  then show ?thesis using u abs_map_replaced [OF sh ordered_trieD(1) [OF u(4)] q(1) e q(2)] T(4) unfolding trie_map_def by metis
qed

theorem ct_insert_first_map:
  assumes fresh: "fresh_trie {} trie" and kv: "storable heap kv"
  shows "\<exists>trie'. ct_insert heap act trie kv = Some (S_OK, trie') \<and>
    trie_map heap trie' ((\<lambda>_. NULL)(key_of heap kv := kv))"
proof -
  note k = kv [unfolded storable_def]
  obtain trie' where t: "ct_insert heap act trie kv = Some (S_OK, trie')" "ordered_trie heap trie' [[] \<mapsto> root_leaf kv]"
    "locks_ok {} (trie', [])" using ct_insert_first_shape [where heap = heap and act = act, OF fresh] k by auto
  have "leaves [[] \<mapsto> root_leaf kv] = {[]}" using root_leaf_props(2) [of kv] by (auto simp: leaves_def)
  then have K: "kvs_of [[] \<mapsto> root_leaf kv] = {kv}" using root_leaf_props(7) [of kv] k by (simp add: kvs_of_def kv_at_def)
  then have "abs_map heap (kvs_of [[] \<mapsto> root_leaf kv]) = (\<lambda>_. NULL)(key_of heap kv := kv)"
    by (auto simp: fun_eq_iff abs_map_singleton)
  then show ?thesis using t k K unfolding trie_map_def by (metis singletonD)
qed

interpretation tries: object_map "trie_map heap" "\<lambda>trie k. ct_lookup heap trie (length k) k"
  "\<lambda>trie kv. map_option (\<lambda>(r, t). (r = S_OK, t)) (ct_update heap act trie kv)" "key_of heap" NULL
  "\<lambda>k. length k \<le> MAX_KEY_BYTES" "storable heap" for heap act
proof
  show "ct_lookup heap t (length k) k = Some (m k)" if "trie_map heap t m" "length k \<le> MAX_KEY_BYTES" for t m k
    using that ct_lookup_refines trie_shape_holds ordered_trieD(1) by (fastforce simp: trie_map_def)
  show "\<exists>t'. map_option (\<lambda>(r, t). (r = S_OK, t)) (ct_update heap act t v) = Some (True, t') \<and> trie_map heap t' (m(key_of heap v := v))"
    if "trie_map heap t m" "storable heap v" "m (key_of heap v) \<noteq> NULL" for t m v
    using ct_update_map [OF that, of act] by auto
  show "map_option (\<lambda>(r, t). (r = S_OK, t)) (ct_update heap act t v) = Some (False, t)"
    if there: "trie_map heap t m" "storable heap v" "m (key_of heap v) = NULL" for t m v
  proof -
    obtain T where T: "trie_shape heap t T" "NULL \<notin> kvs_of T" "m = abs_map heap (kvs_of T)"
      using there(1) ordered_trieD(1) unfolding trie_map_def by blast
    have "absent heap (kvs_of T) (key_of heap v)"
      using abs_map_present [OF T(2,1)] there(3) T(3) by (auto simp: absent_def kvs_of_def)
    then show ?thesis
      using ct_update_missing [where heap = heap and act = act, OF trie_shape_holds [OF T(1)]] there(2) by (simp add: storable_def)
  qed
qed (auto simp: storable_def kv_key_length)

text \<open>A sequence of updates.\<close>

primrec update_all :: "kv_heap \<Rightarrow> interference \<Rightarrow> cuckoo_trie \<Rightarrow> u64 list \<Rightarrow> cuckoo_trie option" where
  "update_all heap act trie [] = Some trie"
| "update_all heap act trie (kv # kvs) = do {
     (ret, trie) \<leftarrow> ct_update heap act trie kv;
     update_all heap act trie kvs
   }"

lemma update_all_updates: "update_all heap act trie kvs = tries.updates heap act trie kvs"
  by (induction kvs arbitrary: trie) (auto split: option.splits simp: Option.bind_def)

theorem lookup_after_updates:
  assumes "trie_map heap trie m" and "\<forall>kv\<in>set kvs. storable heap kv" and "length key \<le> MAX_KEY_BYTES"
  shows "\<exists>trie'. update_all heap act trie kvs = Some trie' \<and>
    ct_lookup heap trie' (length key) key = Some (if m key = NULL then NULL else last (m key # filter (\<lambda>kv. key_of heap kv = key) kvs))"
  unfolding update_all_updates by (rule tries.look_updates [OF assms])

end
