(* ===== verification/IterWalk.thy ===== *)
theory IterWalk
  imports LeafList Update
begin

text \<open>
  The descent of an iterator, which remembers the lowest bitmap on its way, and the place
  that \<open>ct_iter_goto\<close> derives from its end: before it are exactly the leaves with a smaller key.
\<close>

subsection \<open>The iterator's descent is the descent of a lookup\<close>

definition path_end :: "ct_finger \<Rightarrow> bool" where
  "path_end f \<longleftrightarrow> f_path f \<noteq> [] \<and> containing_entry f = pe_entry (last (f_path f))"

lemma bitmap_above_append: "pos \<le> length path \<Longrightarrow> bitmap_above (path @ nodes) pos = bitmap_above path pos"
  by (induction pos) (simp_all add: nth_append)

lemma bitmap_above_end:
  assumes "path_end f"
  shows "bitmap_above (f_path f) (length (f_path f)) =
    (if entry_type (lc_value (containing_entry f)) = TYPE_BITMAP then Some (last_path_entry f) else bitmap_above (f_path f) (last_path_entry f))"
proof -
  obtain n where n: "length (f_path f) = Suc n" using assms by (cases "f_path f") (auto simp: path_end_def)
  then have "containing_entry f = pe_entry (f_path f ! n)" using assms by (simp add: path_end_def last_conv_nth)
  then show ?thesis by (simp add: n)
qed

text \<open>A successful step goes on in a jump node or extends the path.\<close>

lemma try_descend_path:
  assumes d: "try_descend trie f symbol True h = Some (True, f')" and e: "path_end f"
  shows "path_end f' \<and> prefix_len f' = prefix_len f + 1 \<and>
    bitmap_above (f_path f') (last_path_entry f') = bitmap_above (f_path f) (length (f_path f))"
proof -
  let ?v = "lc_value (containing_entry f)"
  have ext: "path_end (finger_node_changed g True) \<and> bitmap_above (f_path (finger_node_changed g True)) (last_path_entry (finger_node_changed g True)) =
      bitmap_above (f_path f) (length (f_path f))" if "f_path g = f_path f" for g
    using that by (simp add: path_end_def finger_node_changed_def store_path_entry_def Let_def bitmap_above_append)
  consider (same) "entry_type ?v = TYPE_JUMP" "f' = (finger_extend_prefix_known_hash f (ucast symbol) h)\<lparr>depth_in_jump := depth_in_jump f + 1\<rparr>"
    | (new) g where "f' = finger_node_changed g True" "f_path g = f_path f" "prefix_len g = prefix_len f + 1"
  proof (cases "entry_type ?v = TYPE_JUMP")
    case True
    show thesis
    proof (cases "depth_in_jump f + 1 = entry_jump_size ?v")
      case False
      then show thesis using d True same
        by (auto simp: try_descend_def Let_def finger_extend_prefix_known_hash_def split: if_splits)
    next
      case True
      then show thesis using d \<open>entry_type ?v = TYPE_JUMP\<close> new
        by (fastforce simp: try_descend_def Let_def finger_extend_prefix_known_hash_def bind_eq_Some_conv split: if_splits)
    qed
  next
    case False
    then show thesis using d new
      by (fastforce simp: try_descend_def Let_def finger_extend_prefix_known_hash_def bind_eq_Some_conv split: if_splits)
  qed
  then show ?thesis
  proof cases
    case same
    then show ?thesis using bitmap_above_end [OF e] e by (simp add: path_end_def finger_extend_prefix_known_hash_def)
  next
    case new
    then show ?thesis using ext [of g] by (simp add: finger_node_changed_def store_path_entry_def Let_def)
  qed
qed

lemma prefetcher_step_symbols [simp]: "p_key_symbols (prefetcher_step trie p) = p_key_symbols p"
  by (simp add: prefetcher_step_def Let_def)

lemma ucast_u8_0: "(ucast (b :: u8) :: u64) = 0 \<longleftrightarrow> b = 0"
  by (metis ucast_ucast_u8 unsigned_0)

theorem iter_descend_from:
  assumes "descend_from trie p f True = Some (symbol, f')" and "path_end f" and "0 < n"
    and "\<forall>j<n. byte_at (p_key_symbols p) (prefix_len f + j) = 0 \<longleftrightarrow> j = n - 1"
    and "last_bitmap = bitmap_above (f_path f) (last_path_entry f)"
  shows "iter_descend n (prefix_len f) trie p f last_bitmap s =
    Some (if symbol = - 1 then bitmap_above (f_path f') (last_path_entry f') else bitmap_above (f_path f') (length (f_path f')),
      if symbol = - 1 then SYMBOL_END else of_int symbol, f')"
  using assms
proof (induction n arbitrary: p f last_bitmap s)
  case (Suc n)
  let ?p = "prefetcher_step trie p"
  let ?s = "ucast (byte_at (p_key_symbols ?p) (prefix_len f)) :: u64"
  obtain ok g where t: "try_descend trie f ?s True (prefix_hashes ?p ! prefix_len f) = Some (ok, g)"
    using Suc.prems(1) by (subst (asm) descend_from.simps) (auto simp: Let_def bind_eq_Some_conv)
  note run = Suc.prems(1) [unfolded descend_from.simps [of trie p f True] Let_def t]
  have lb: "(if entry_type (lc_value (containing_entry f)) = TYPE_BITMAP then Some (last_path_entry f) else last_bitmap) =
      bitmap_above (f_path f) (length (f_path f))" using bitmap_above_end [OF Suc.prems(2)] Suc.prems(5) by simp
  have s0: "?s = SYMBOL_END \<longleftrightarrow> n = 0"
    using Suc.prems(4) [rule_format, of 0] ucast_u8_0 by auto
  show ?case
  proof (cases ok)
    case False
    then have "symbol = uint ?s" "f' = g" "g = f" using run t by (auto simp: try_descend_def Let_def bind_eq_Some_conv split: if_splits)
    moreover have "uint ?s \<noteq> - 1" using uint_ge_0 [of ?s] by linarith
    ultimately show ?thesis using t lb False by (simp add: Let_def)
  next
    case True
    then have "try_descend trie f ?s True (prefix_hashes ?p ! prefix_len f) = Some (True, g)" using t by simp
    note g = try_descend_path [OF this Suc.prems(2)]
    have step: "iter_descend (Suc n) (prefix_len f) trie p f last_bitmap s =
        iter_descend n (prefix_len g) trie ?p g (bitmap_above (f_path g) (last_path_entry g)) ?s"
      using t True g lb by (simp add: Let_def)
    show ?thesis
    proof (cases "n = 0")
      case True
      then have "symbol = - 1" "f' = g" using run s0 \<open>ok\<close> by auto
      then show ?thesis unfolding step using True s0 by simp
    next
      case False
      then have "descend_from trie ?p g True = Some (symbol, f')" using run s0 \<open>ok\<close> by simp
      moreover have "\<forall>j<n. byte_at (p_key_symbols ?p) (prefix_len g + j) = 0 \<longleftrightarrow> j = n - 1"
      proof (intro allI impI)
        fix j assume "j < n"
        then show "byte_at (p_key_symbols ?p) (prefix_len g + j) = 0 \<longleftrightarrow> j = n - 1"
          using Suc.prems(4) [rule_format, of "Suc j"] g by auto
      qed
      ultimately show ?thesis unfolding step using Suc.IH [of ?p g] g False by blast
    qed
  qed
qed simp

subsection \<open>The place of a key\<close>

definition smaller :: "kv_heap \<Rightarrow> shape \<Rightarrow> u8 list \<Rightarrow> u64 list set" where
  "smaller heap T key = {l \<in> leaves T. key_of heap (kv_at T l) < key}"

lemma key_less_symbols: "k1 < k2 \<longleftrightarrow> key_symbols k1 < key_symbols k2"
  unfolding less_is_lex by (rule key_symbols_less_iff [symmetric])

text \<open>The leaves are ordered as their keys.\<close>

lemma leaf_order:
  assumes ok: "shape_ok heap trie T" and p: "p \<in> leaves T" and q: "q \<in> leaves T" and less: "p < q"
  shows "key_of heap (kv_at T p) < key_of heap (kv_at T q)"
proof -
  have "p \<noteq> q" using less by simp
  then have "\<not> prefix p q" "\<not> prefix q p"
    using leaf_no_child [OF ok p leaves_dom [OF q]] leaf_no_child [OF ok q leaves_dom [OF p]] by blast+
  from less_extend [OF this(2,1) leaf_symbols(2) [OF ok q] leaf_symbols(2) [OF ok p]] show ?thesis
    using less by (simp add: key_less_symbols)
qed

lemma leaf_side:
  assumes ok: "shape_ok heap trie T" and l: "l \<in> leaves T" and P: "prefix P (key_symbols key)"
    and inc: "\<not> prefix P l" "\<not> prefix l P"
  shows "key_of heap (kv_at T l) < key \<longleftrightarrow> l < P"
  unfolding key_less_symbols using less_extend [OF inc P leaf_symbols(2) [OF ok l]] .

lemma path_prefix:
  assumes ok: "shape_ok heap trie T" and path: "path_on trie T path qs" and "i \<le> j" and "j < length qs"
  shows "prefix (qs ! i) (qs ! j)"
  using assms(3,4)
proof (induction j)
  case (Suc j)
  show ?case
  proof (cases "i = Suc j")
    case False
    then have "prefix (qs ! i) (qs ! j)" using Suc by simp
    moreover have "child_of T (qs ! j) (qs ! Suc j)" using path Suc.prems by (simp add: path_on_def)
    ultimately show ?thesis using child_of_strict [OF ok] by (meson prefix_order.less_imp_le prefix_order.trans)
  qed simp
qed simp

text \<open>At a bitmap without the next symbol.\<close>

lemma place_in_bitmap:
  assumes ok: "shape_ok heap trie T" and e: "T q = Some e" "entry_type e = TYPE_BITMAP" and s: "s \<notin> children e"
    and P: "prefix (q @ [s]) (key_symbols key)"
  shows "before T (q @ [s]) = smaller heap T key"
proof -
  have "l < q @ [s] \<longleftrightarrow> key_of heap (kv_at T l) < key" if l: "l \<in> leaves T" for l
  proof -
    have "\<not> prefix (q @ [s]) l"
    proof
      assume pl: "prefix (q @ [s]) l"
      then have "l \<in> below T q" using l append_prefixD by (auto simp: below_def)
      then obtain t where t: "t \<in> children e" "prefix (q @ [t]) l"
        using below_bitmap [where T = T and p = q, OF ok e] by (auto simp: below_def)
      then show False using s prefix_symbol_unique [OF pl t(2)] by simp
    qed
    moreover have "\<not> prefix l (q @ [s])"
    proof
      assume "prefix l (q @ [s])"
      then consider "l = q @ [s]" | "prefix l q" by (auto simp: prefix_snoc)
      then show False
      proof cases
        case 2
        then have "q = l" using leaf_no_child [OF ok l, of q] e by blast
        then show False using l e by (auto simp: leaves_def)
      qed (use \<open>\<not> prefix (q @ [s]) l\<close> in simp)
    qed
    ultimately show ?thesis using leaf_side [OF ok l P] by simp
  qed
  then show ?thesis by (auto simp: before_def smaller_def)
qed

text \<open>All leaves below the end of the walk are on one side of the key.\<close>

lemma jump_side:
  assumes ok: "shape_ok heap trie T" and l: "l \<in> below T q" and e: "T q = Some e" "entry_type e = TYPE_JUMP"
    and d: "d < entry_jump_size e" and ks: "length q + d < length (key_symbols key)"
    and t: "take (length q + d) (key_symbols key) = q @ take d (jump_symbols e)" and ne: "jump_symbols e ! d \<noteq> key_symbols key ! (length q + d)"
  shows "key_of heap (kv_at T l) < key \<longleftrightarrow> \<not> key_symbols key ! (length q + d) < jump_symbols e ! d"
proof -
  let ?ks = "key_symbols key" and ?js = "jump_symbols e"
  have "l \<in> below T (q @ ?js)" using before_jump(2) [where T = T and p = q, OF ok e] l by simp
  then have "l \<in> leaves T" "prefix (q @ ?js) l" by (auto simp: below_def)
  then have "prefix (q @ ?js) (key_symbols (key_of heap (kv_at T l)))" using leaf_symbols(2) [OF ok] prefix_order.trans by blast
  then obtain w where w: "key_symbols (key_of heap (kv_at T l)) = (q @ ?js) @ w" by (auto simp: prefix_def)
  have js: "?js = take d ?js @ ?js ! d # drop (Suc d) ?js" using d by (simp add: id_take_nth_drop)
  let ?p = "q @ take d ?js"
  have a: "key_symbols (key_of heap (kv_at T l)) = ?p @ ?js ! d # (drop (Suc d) ?js @ w)"
    using w arg_cong [OF js, of "\<lambda>x. q @ x @ w"] by simp
  have b: "?ks = ?p @ ?ks ! (length q + d) # drop (Suc (length q + d)) ?ks"
    using id_take_nth_drop [OF ks] unfolding t .
  consider "?js ! d < ?ks ! (length q + d)" | "?ks ! (length q + d) < ?js ! d" using ne by fastforce
  then show ?thesis
  proof cases
    case 1
    then have "key_symbols (key_of heap (kv_at T l)) < ?ks" by (subst a, subst b) (rule fork_less')
    then show ?thesis using 1 by (simp add: key_less_symbols)
  next
    case 2
    then have "?ks < key_symbols (key_of heap (kv_at T l))" by (subst a, subst b) (rule fork_less')
    then show ?thesis using 2 by (simp add: key_less_symbols)
  qed
qed

text \<open>When the end is no bitmap, the last bitmap on the path decides.\<close>

lemma place_at_child:
  assumes ok: "shape_ok heap trie T" and e: "T b = Some e" "entry_type e = TYPE_BITMAP" and c: "c \<in> children e"
    and P: "prefix (b @ [c]) (key_symbols key)"
    and side: "\<And>l. l \<in> below T (b @ [c]) \<Longrightarrow> key_of heap (kv_at T l) < key \<longleftrightarrow> left"
  shows "\<not> left \<Longrightarrow> before T (b @ [c]) = smaller heap T key" and "left \<Longrightarrow> before T (b @ [c + 1]) = smaller heap T key"
proof -
  have dom: "b @ [c] \<in> dom T" using child_of_in_shape(2) [OF ok, of b] bitmap_child_of [where T = T and p = b, OF e] c by blast
  have other: "l < b @ [c] \<longleftrightarrow> key_of heap (kv_at T l) < key" if "l \<in> leaves T" "l \<notin> below T (b @ [c])" for l
  proof -
    have np: "\<not> prefix (b @ [c]) l" using that by (simp add: below_def)
    then have "\<not> prefix l (b @ [c])" using leaf_no_child [OF ok that(1) dom] by auto
    then show ?thesis using leaf_side [OF ok that(1) P np] by simp
  qed
  have under: "\<not> l < b @ [c]" if "l \<in> below T (b @ [c])" for l using that prefix_not_less by (auto simp: below_def)
  show "before T (b @ [c]) = smaller heap T key" if "\<not> left"
    using other side that under unfolding before_def smaller_def by blast
  have "c \<le> 32" using c by (simp add: children_def)
  then have "t < c + 1 \<longleftrightarrow> t < c \<or> t = c" for t by (auto simp: word_less_nat_alt word_le_nat_alt unat_word_ariths word_unat_eq_iff)
  then have "{t \<in> children e. t < c + 1} = insert c {t \<in> children e. t < c}" using c by auto
  then have next_set: "before T (b @ [c + 1]) = before T (b @ [c]) \<union> below T (b @ [c])"
    unfolding before_bitmap [where T = T and p = b, OF ok e] by auto
  show "before T (b @ [c + 1]) = smaller heap T key" if "left"
  proof -
    have "l \<in> before T (b @ [c + 1]) \<longleftrightarrow> key_of heap (kv_at T l) < key" if "l \<in> leaves T" for l
      using other [OF that] side [of l] that \<open>left\<close> unfolding next_set by (cases "l \<in> below T (b @ [c])") (auto simp: before_def)
    then show ?thesis by (auto simp: before_def smaller_def)
  qed
qed

definition place_right :: "kv_heap \<Rightarrow> cuckoo_trie \<Rightarrow> shape \<Rightarrow> ct_finger \<Rightarrow> u64 list list \<Rightarrow> u8 list \<Rightarrow> iter_place \<Rightarrow> bool" where
  "place_right heap trie T f qs key pl \<longleftrightarrow>
     (case pl of
        Before loc \<Rightarrow> \<exists>pos s. loc = prefetch_path_child_predecessor trie f pos s \<and> pos < length qs \<and> s \<le> 33 \<and>
          entry_type (the (T (qs ! pos))) = TYPE_BITMAP \<and> before T (qs ! pos @ [of_nat s]) = smaller heap T key
      | At_first \<Rightarrow> smaller heap T key = {}
      | At_end \<Rightarrow> smaller heap T key = leaves T)"

lemma place_right_BeforeI:
  "pos < length qs \<Longrightarrow> s \<le> 33 \<Longrightarrow> entry_type (the (T (qs ! pos))) = TYPE_BITMAP \<Longrightarrow>
   before T (qs ! pos @ [of_nat s]) = smaller heap T key \<Longrightarrow>
   place_right heap trie T f qs key (Before (prefetch_path_child_predecessor trie f pos s))"
  unfolding place_right_def by auto

definition at_side :: "kv_heap \<Rightarrow> shape \<Rightarrow> u64 list \<Rightarrow> u8 list \<Rightarrow> bool \<Rightarrow> bool" where
  "at_side heap T p key left \<longleftrightarrow> (\<forall>l\<in>below T p. key_of heap (kv_at T l) < key \<longleftrightarrow> left)"

lemma bitmap_child_symbol:
  assumes sh: "trie_shape heap trie T" and path: "path_on trie T path qs" and pos: "pos + 1 < length qs"
    and e: "T (qs ! pos) = Some e" "entry_type e = TYPE_BITMAP"
  shows "\<exists>u\<in>children e. qs ! (pos + 1) = qs ! pos @ [u] \<and> unat (e_last_symbol (node_at path (pos + 1))) = unat u"
proof -
  have "child_of T (qs ! pos) (qs ! (pos + 1))" using path pos by (simp add: path_on_def)
  then obtain u where u: "u \<in> children e" "qs ! (pos + 1) = qs ! pos @ [u]" using e by (auto simp: child_of_def)
  have "bitmap_children_ok T (qs ! pos) e" using node_okD(7) [OF shape_node [OF sh e(1)] e(2)] by simp
  then obtain c where c: "T (qs ! (pos + 1)) = Some c" "e_last_symbol c = ucast u" using u by (auto simp: bitmap_children_ok_def)
  obtain c' where c': "T (qs ! (pos + 1)) = Some c'" "erase_side (node_at path (pos + 1)) = c'" using path_node [OF path pos] by blast
  have "u \<le> 32" using u(1) by (simp add: children_def)
  moreover have "e_last_symbol (node_at path (pos + 1)) = ucast u" using erased_node(8) [OF c'(2)] c c' by simp
  ultimately show ?thesis using u unat_small_byte by auto
qed

text \<open>Below the last bitmap of the path.\<close>

lemma place_by_last_bitmap:
  assumes sh: "trie_shape heap trie T" and path: "path_on trie T (f_path f) qs" and lb: "lb = bitmap_above (f_path f) (length qs - 1)"
    and pre: "prefix (last qs) (key_symbols key)" and nb: "entry_type (the (T (last qs))) \<noteq> TYPE_BITMAP"
    and side: "at_side heap T (last qs) key (\<not> is_before)"
  shows "place_right heap trie T f qs key
    (case lb of
       Some pos \<Rightarrow> (let last_bitmap_child = unat (e_last_symbol (node_at (f_path f) (pos + 1)))
         in if is_before then Before (prefetch_path_child_predecessor trie f pos last_bitmap_child)
            else Before (prefetch_path_child_predecessor trie f pos (last_bitmap_child + 1)))
     | None \<Rightarrow> if is_before then At_first else At_end)"
proof -
  note ok = trie_shapeD(4) [OF sh]
  have qs: "qs \<noteq> []" "qs ! 0 = []" using path by (auto simp: path_on_def hd_conv_nth)
  then have len: "length qs - 1 < length qs" "last qs = qs ! (length qs - 1)" by (simp_all add: last_conv_nth)
  show ?thesis
  proof (cases lb)
    case None
    have "below T (last qs) = below T (qs ! 0)" unfolding len(2)
      by (rule path_chain(2) [OF ok path len(1)]) (use None lb bitmap_above_None in auto)
    then have "below T (last qs) = leaves T" using qs by (simp add: below_def)
    then show ?thesis using side None by (auto simp: place_right_def at_side_def smaller_def)
  next
    case (Some pos)
    note b = bitmap_above_Some [OF Some [unfolded lb]]
    have pos: "pos + 1 < length qs" "pos < length qs" using conjunct1 [OF b] by linarith+
    obtain e where e: "T (qs ! pos) = Some e" "erase_side (node_at (f_path f) pos) = e" using path_node [OF path pos(2)] by blast
    have bm: "entry_type e = TYPE_BITMAP" using b erased_node(1) [OF e(2)] by simp
    obtain c where c: "c \<in> children e" "qs ! (pos + 1) = qs ! pos @ [c]" "unat (e_last_symbol (node_at (f_path f) (pos + 1))) = unat c"
      using bitmap_child_symbol [OF sh path pos(1) e(1) bm] by blast
    have c32: "unat c \<le> 32" using c(1) by (simp add: children_def word_le_nat_alt)
    have "below T (last qs) = below T (qs ! (pos + 1))" unfolding len(2)
      by (rule path_chain(2) [OF ok path len(1)]) (use b in auto)
    then have side': "key_of heap (kv_at T l) < key \<longleftrightarrow> \<not> is_before" if "l \<in> below T (qs ! pos @ [c])" for l
      using side that c(2) by (simp add: at_side_def)
    have "prefix (qs ! (pos + 1)) (last qs)" unfolding len(2) by (rule path_prefix [OF ok path]) (use pos len(1) in simp_all)
    then have P: "prefix (qs ! pos @ [c]) (key_symbols key)" using pre c(2) by simp
    note r = place_at_child [where T = T and b = "qs ! pos" and left = "\<not> is_before", OF ok e(1) bm c(1) P side']
    have n: "(of_nat (unat c) :: u64) = c" "(of_nat (unat c + 1) :: u64) = c + 1" by simp_all
    have bm': "entry_type (the (T (qs ! pos))) = TYPE_BITMAP" using e(1) bm by simp
    have "place_right heap trie T f qs key (Before (prefetch_path_child_predecessor trie f pos (unat c)))" if is_before
      by (rule place_right_BeforeI [where T = T, OF pos(2) _ bm']) (use that r(1) c32 n(1) in simp_all)
    moreover have "place_right heap trie T f qs key (Before (prefetch_path_child_predecessor trie f pos (unat c + 1)))" if "\<not> is_before"
      by (rule place_right_BeforeI [where T = T, OF pos(2) _ bm']) (use that r(2) c32 n(2) in \<open>simp_all add: add.commute\<close>)
    ultimately show ?thesis unfolding Some option.case c(3) Let_def by simp
  qed
qed

theorem place_iter_right:
  assumes sh: "trie_shape heap trie T" and key: "length key < 2 ^ 31"
    and on: "finger_on trie T (key_symbols key) f q d" and st: "stopped_at T (key_symbols key) symbol q d"
    and path: "finger_path trie T f qs" "last qs = q"
  shows "place_right heap trie T f qs key (place_iter heap trie f
    (if symbol = - 1 then bitmap_above (f_path f) (last_path_entry f) else bitmap_above (f_path f) (length (f_path f)))
    (if symbol = - 1 then SYMBOL_END else of_int symbol) (length key) key)"
proof -
  let ?ks = "key_symbols key" and ?v = "lc_value (containing_entry f)"
  note ok = trie_shapeD(4) [OF sh]
  obtain e where e: "T q = Some e" using on by (auto simp: finger_on_def copy_at_def)
  have cp: "copy_at trie T q (containing_entry f)" using on by (simp add: finger_on_def)
  note nd = shape_node [OF sh e] and v = erased_node [OF copy_at_node [OF cp e]]
  note on' = on [unfolded finger_on_def]
  have po: "path_on trie T (f_path f) qs" using path(1) by (simp add: finger_path_def)
  have lens: "length (f_path f) = length qs" "qs \<noteq> []" using po by (auto simp: path_on_def)
  have pe: "path_end f" using path(1) lens by (auto simp: path_end_def finger_path_def)
  have pq: "prefix q ?ks" using on' e take_is_prefix [of "length q + d" ?ks] by (metis append_prefixD)
  show ?thesis
  proof (cases "entry_type e = TYPE_BITMAP")
    case True
    have sym: "symbol \<noteq> - 1" using st True e by (auto simp: stopped_at_def leaves_def)
    have d0: "d = 0" using on' e True by simp
    have s: "length q < length ?ks" "symbol = uint (?ks ! length q)" "?ks ! length q \<notin> children e"
      using st sym d0 e True by (simp_all add: stopped_at_def)
    let ?s = "?ks ! length q"
    have s32: "unat ?s \<le> 32" using s(1) key_symbols_le by (simp add: word_le_nat_alt)
    have "take (length q + 1) ?ks = q @ [?s]" using on' e d0 s(1) by (simp add: take_Suc_conv_app_nth)
    then have "prefix (q @ [?s]) ?ks" by (metis take_is_prefix)
    from place_in_bitmap [where T = T and q = q, OF ok e True s(3) this]
    have b: "before T (q @ [?s]) = smaller heap T key" .
    have ql: "qs ! last_path_entry f = q" using path(2) lens by (simp add: last_conv_nth)
    have "place_iter heap trie f lb (of_int symbol) (length key) key = Before (prefetch_path_child_predecessor trie f (last_path_entry f) (unat ?s))" for lb
      using True v(1) s(2) by (simp add: place_iter_def Let_def prefetch_bitmap_child_predecessor_def)
    moreover have "place_right heap trie T f qs key (Before (prefetch_path_child_predecessor trie f (last_path_entry f) (unat ?s)))"
      by (rule place_right_BeforeI) (use b s32 ql e True lens in simp_all)
    ultimately show ?thesis using sym by simp
  next
    case False
    define is_before where "is_before \<longleftrightarrow> (if entry_type ?v = TYPE_LEAF then kv_key_compare_to (heap (entry_kv ?v)) (of_nat (length key)) key \<ge> 0
      else (if symbol = - 1 then SYMBOL_END else of_int symbol) < get_jump_symbol ?v (depth_in_jump f))"
    have side: "at_side heap T q key (\<not> is_before)"
    proof (cases "entry_type e = TYPE_LEAF")
      case True
      then have q: "q \<in> leaves T" using e by (simp add: leaves_def)
      have kv: "entry_kv ?v = kv_at T q" using v(13) node_okD(1) [OF nd] e by (simp add: kv_at_def)
      have "unat (of_nat (length key) :: u64) = length key" using key by (simp add: unat_of_nat)
      from kv_key_compare_to_order(1) [OF leaf_symbols(1) [OF ok q] this key]
      have "is_before \<longleftrightarrow> \<not> key_of heap (kv_at T q) < key" using True v(1) kv by (auto simp: is_before_def less_is_lex)
      then show ?thesis using below_leaf [OF ok q] by (simp add: at_side_def)
    next
      case nl: False
      then have jump: "entry_type e = TYPE_JUMP" using False node_okD(8) [OF nd] by blast
      note size = node_okD(6) [OF nd jump]
      have sym: "symbol \<noteq> - 1" using st nl e by (auto simp: stopped_at_def leaves_def)
      have d: "d < entry_jump_size e" and t: "take (length q + d) ?ks = q @ take d (jump_symbols e)" using on' e jump by simp_all
      have s: "length q + d < length ?ks" "symbol = uint (?ks ! (length q + d))" "jump_symbols e ! d \<noteq> ?ks ! (length q + d)"
        using st sym e jump by (simp_all add: stopped_at_def)
      have "jump_symbols ?v = jump_symbols e" using v(14) node_okD(1) [OF nd] size by simp
      then have "get_jump_symbol ?v d = jump_symbols e ! d" using d v(10) by (metis jump_symbol_nth)
      then have "is_before \<longleftrightarrow> ?ks ! (length q + d) < jump_symbols e ! d"
        using jump v(1) sym s(2) on' by (simp add: is_before_def)
      then show ?thesis using jump_side [where T = T and q = q, OF ok _ e jump d s(1) t s(3)] by (simp add: at_side_def)
    qed
    have lb: "bitmap_above (f_path f) (length (f_path f)) = bitmap_above (f_path f) (length qs - 1)"
      using bitmap_above_end [OF pe] False v(1) lens by simp
    have nb: "entry_type (the (T (last qs))) \<noteq> TYPE_BITMAP" using False e path(2) by simp
    have q': "prefix (last qs) ?ks" "at_side heap T (last qs) key (\<not> is_before)" using pq side path(2) by simp_all
    note r = place_by_last_bitmap [OF sh po refl q'(1) nb q'(2)]
    have "place_iter heap trie f (bitmap_above (f_path f) (length qs - 1)) (if symbol = - 1 then SYMBOL_END else of_int symbol) (length key) key =
      (case bitmap_above (f_path f) (length qs - 1) of
       Some pos \<Rightarrow> (let last_bitmap_child = unat (e_last_symbol (node_at (f_path f) (pos + 1)))
         in if is_before then Before (prefetch_path_child_predecessor trie f pos last_bitmap_child)
            else Before (prefetch_path_child_predecessor trie f pos (last_bitmap_child + 1)))
     | None \<Rightarrow> if is_before then At_first else At_end)"
      using False v(1) unfolding place_iter_def is_before_def Let_def by simp
    then have "place_right heap trie T f qs key (place_iter heap trie f (bitmap_above (f_path f) (length qs - 1))
        (if symbol = - 1 then SYMBOL_END else of_int symbol) (length key) key)" using r by (simp only:)
    moreover have "(if symbol = - 1 then bitmap_above (f_path f) (last_path_entry f) else bitmap_above (f_path f) (length (f_path f))) =
        bitmap_above (f_path f) (length qs - 1)" using lb lens by simp
    ultimately show ?thesis by (simp only:)
  qed
qed

end
