(* ===== verification/Scan.thy ===== *)
theory Scan
  imports IterWalk
begin

text \<open>
  Range scans (\<open>ct_iter_goto\<close> and \<open>ct_iter_next\<close>, \<open>main.c\<close>): after a goto, the calls of
  \<open>ct_iter_next\<close> report the key objects from the key on, in key order and each once, and null
  after the last one.
\<close>

definition rest :: "kv_heap \<Rightarrow> shape \<Rightarrow> u8 list \<Rightarrow> u64 list set" where
  "rest heap T key = leaves T - smaller heap T key"

text \<open>A set of leaves that contains with a leaf all later ones.\<close>

definition upward :: "shape \<Rightarrow> u64 list set \<Rightarrow> bool" where
  "upward T L \<longleftrightarrow> L \<subseteq> leaves T \<and> (\<forall>p\<in>L. after T p \<subseteq> L)"

text \<open>An iterator that has the leaves of a set still to report.\<close>

definition iter_on :: "cuckoo_trie \<Rightarrow> shape \<Rightarrow> ct_iter \<Rightarrow> u64 list set \<Rightarrow> bool" where
  "iter_on trie T iter L \<longleftrightarrow> upward T L \<and>
     (if is_exhausted iter then L = {}
      else if report_current iter then L \<noteq> {} \<and> copy_at trie T (Min L) (leaves0 iter)
      else links_first trie T L (iter_next_locator iter))"

lemma upward_without_first:
  assumes ok: "shape_ok heap trie T" and L: "upward T L" "L \<noteq> {}"
  shows "upward T (L - {Min L})" and "after T (Min L) = L - {Min L}"
proof -
  have fin: "finite L" using L finite_leaves [OF ok] finite_subset by (auto simp: upward_def)
  note m = Min_in [OF fin L(2)]
  show "after T (Min L) = L - {Min L}"
    using L m Min_le [OF fin] by (fastforce simp: upward_def after_def)
  have "\<not> p < Min L" if "p \<in> L" for p using Min_le [OF fin that] by simp
  then show "upward T (L - {Min L})" using L unfolding upward_def after_def by blast
qed

lemma upward_rest: "upward T (rest heap T key)" if "shape_ok heap trie T"
proof -
  have "key_of heap (kv_at T p) < key_of heap (kv_at T q)" if "p \<in> leaves T" "q \<in> leaves T" "p < q" for p q
    using leaf_order [OF \<open>shape_ok heap trie T\<close>] that by blast
  then show ?thesis by (fastforce simp: upward_def rest_def smaller_def after_def)
qed

subsection \<open>Placing the iterator\<close>

lemma descend_iter:
  assumes sh: "trie_shape heap trie T" and key: "length key \<le> MAX_KEY_BYTES" and ne: "key \<noteq> []"
  shows "\<exists>f lb symbol f' qs. init_finger trie = Some (Some root_ptr, f) \<and>
    iter_descend (num_key_symbols (length key)) 0 trie (prefetcher_start trie (length key) key) f None (- 1) = Some (lb, symbol, f') \<and>
    path_on trie T (f_path f') qs \<and> place_right heap trie T f' qs key (place_iter heap trie f' lb symbol (length key) key)"
proof -
  have bytes: "take (length key) key = key" by simp
  obtain f symbol f' q d where w: "init_finger trie = Some (Some root_ptr, f)" "finger_on trie T (key_symbols key) f [] 0"
    "finger_path trie T f [[]]" "descend trie f (length key) key True = Some (symbol, f')"
    "finger_on trie T (key_symbols key) f' q d" "stopped_at T (key_symbols key) symbol q d"
    "\<exists>qs. finger_path trie T f' qs \<and> last qs = q" using key_walk [OF sh key bytes, of True] by blast
  obtain qs where qs: "finger_path trie T f' qs" "last qs = q" using w(7) by blast
  let ?p = "prefetcher_start trie (length key) key" and ?n = "num_key_symbols (length key)"
  have len: "length (key_symbols key) = ?n" by simp
  have n: "0 < ?n" using num_key_symbols_bounds [OF key] by linarith
  have "prefetched trie (key_symbols key) 4 ?p" by (rule prefetched_start [OF key bytes])
  then have sym: "ucast (byte_at (p_key_symbols ?p) i) = key_symbols key ! i" if "i < ?n" for i
    using that by (simp add: prefetched_def)
  have "byte_at (p_key_symbols ?p) i = 0 \<longleftrightarrow> i = ?n - 1" if "i < ?n" for i
    using sym [OF that] last_key_symbol [OF that] ucast_u8_0 by metis
  moreover have pe: "path_end f" "f_path f \<noteq> []" "last_path_entry f = 0" "prefix_len f = 0"
    using w(2,3) by (auto simp: path_end_def finger_path_def path_on_def finger_on_def)
  ultimately have "\<forall>j<?n. byte_at (p_key_symbols ?p) (prefix_len f + j) = 0 \<longleftrightarrow> j = ?n - 1" by simp
  moreover have "None = bitmap_above (f_path f) (last_path_entry f)" using pe by simp
  ultimately have "iter_descend ?n (prefix_len f) trie ?p f None (- 1) =
    Some (if symbol = - 1 then bitmap_above (f_path f') (last_path_entry f') else bitmap_above (f_path f') (length (f_path f')),
      if symbol = - 1 then SYMBOL_END else of_int symbol, f')"
    using iter_descend_from [OF w(4) [unfolded descend_def] pe(1) n] by blast
  moreover have "length key < 2 ^ 31" using key by simp
  note place_iter_right [OF sh this w(5,6) qs]
  moreover have "path_on trie T (f_path f') qs" using qs(1) by (simp add: finger_path_def)
  ultimately show ?thesis using w(1) pe(4) by auto
qed

theorem goto_internal:
  assumes sh: "trie_shape heap trie T" and ls: "listed trie T" and key: "length key \<le> MAX_KEY_BYTES"
  shows "\<exists>iter'. ct_iter_goto_internal heap trie iter (length key) key = Some (SI_OK, iter') \<and>
    (is_exhausted iter' \<and> rest heap T key = {} \<or>
     \<not> is_exhausted iter' \<and> links_first trie T (rest heap T key) (iter_next_locator iter'))"
proof (cases "key = []")
  case True
  note r = trie_shapeD(5) [OF sh]
  obtain f where f: "init_finger trie = Some (Some root_ptr, f)" using init_finger_shape [OF sh, of "[0]"] by auto
  have "rest heap T key = leaves T" using True by (auto simp: rest_def smaller_def less_is_lex)
  then show ?thesis using True f read_min_copy [OF table_invD(1) [OF trie_shapeD(1) [OF sh]]] listedD(5) [OF ls]
    by (simp add: ct_iter_goto_internal_def iter_next_locator_def min_copy_def copy_of_def min_leaf_ok_def)
next
  case False
  obtain f lb symbol f' qs where w: "init_finger trie = Some (Some root_ptr, f)"
    "iter_descend (num_key_symbols (length key)) 0 trie (prefetcher_start trie (length key) key) f None (- 1) = Some (lb, symbol, f')"
    "path_on trie T (f_path f') qs" "place_right heap trie T f' qs key (place_iter heap trie f' lb symbol (length key) key)"
    using descend_iter [OF sh key False] by blast
  let ?i = "iter\<lparr>is_exhausted := False\<rparr>"
  let ?place = "place_iter heap trie f' lb symbol (length key) key"
  have go: "ct_iter_goto_internal heap trie iter (length key) key =
    (case ?place of
       Before loc \<Rightarrow> do {
         (found, leaf) \<leftarrow> get_predecessor_atomic trie f' loc (leaves0 ?i);
         Some (if found then SI_OK else SI_RETRY, ?i\<lparr>leaves0 := leaf\<rparr>)
       }
     | At_first \<Rightarrow> do {
         leaf \<leftarrow> read_min_leaf trie;
         let iter = ?i\<lparr>leaves0 := leaf\<rparr>;
         if entry_dirty (lc_value leaf) then Some (SI_RETRY, iter)
         else if \<not> validate_entry trie leaf then Some (SI_RETRY, iter)
         else Some (SI_OK, iter)
       }
     | At_end \<Rightarrow> Some (SI_OK, ?i\<lparr>is_exhausted := True\<rparr>))"
    using False w(1,2) by (cases ?place) (simp_all add: ct_iter_goto_internal_def)
  show ?thesis
  proof (cases ?place)
    case (Before loc)
    then obtain pos s where p: "loc = prefetch_path_child_predecessor trie f' pos s" "pos < length qs" "s \<le> 33"
      "entry_type (the (T (qs ! pos))) = TYPE_BITMAP" "before T (qs ! pos @ [of_nat s]) = smaller heap T key"
      using w(4) by (auto simp: place_right_def)
    let ?P = "qs ! pos @ [of_nat s :: u64]"
    obtain c where c: "get_predecessor_atomic trie f' loc (leaves0 ?i) = Some (True, c)" "pred_copy trie T ?P c"
      using predecessor_found [OF sh ls w(3) p(2,4,3), of "leaves0 ?i"] unfolding p(1) by blast
    have "rest heap T key = {l \<in> leaves T. \<not> l < ?P}" unfolding rest_def p(5) [symmetric] by (auto simp: before_def)
    then show ?thesis using go Before c(1) pred_copy_link(1) [OF sh ls c(2)] by (simp add: iter_next_locator_def)
  next
    case At_first
    then have "smaller heap T key = {}" using w(4) by (simp add: place_right_def)
    then have "rest heap T key = leaves T" by (simp add: rest_def)
    then show ?thesis using go At_first read_min_copy [OF table_invD(1) [OF trie_shapeD(1) [OF sh]]] listedD(5) [OF ls]
      by (simp add: iter_next_locator_def min_copy_def copy_of_def min_leaf_ok_def validate_entry_def)
  next
    case At_end
    then have "rest heap T key = {}" using w(4) by (simp add: place_right_def rest_def)
    then show ?thesis using go At_end by simp
  qed
qed

lemma next_leaf_found:
  assumes sh: "trie_shape heap trie T" and ls: "listed trie T" and L: "upward T L" "links_first trie T L (iter_next_locator iter)"
  shows "if L = {} then loc_primary_bucket (iter_next_locator iter) = NO_BUCKET
    else loc_primary_bucket (iter_next_locator iter) \<noteq> NO_BUCKET \<and>
      (\<exists>c. ct_iter_next_internal trie iter = Some (SI_OK, iter\<lparr>leaves0 := c\<rparr>) \<and> copy_at trie T (Min L) c)"
proof (cases "L = {}")
  case False
  note ok = trie_shapeD(4) [OF sh]
  have "finite L" using L finite_leaves [OF ok] finite_subset by (auto simp: upward_def)
  then have m: "Min L \<in> leaves T" using Min_in False L by (auto simp: upward_def)
  have l: "iter_next_locator iter = loc_of trie T (Min L)" using L(2) False by (simp add: links_first_def)
  obtain c where c: "locator_to_entry trie (loc_of trie T (Min L)) = Some c" "copy_at trie T (Min L) c"
    using follow_locator [OF sh listedD(1) [OF ls] leaves_dom [OF m]] by blast
  obtain e where e: "T (Min L) = Some e" "entry_type e = TYPE_LEAF" using m by (auto simp: leaves_def)
  have "entry_type (lc_value c) = TYPE_LEAF" using copy_at_fields(2) [OF c(2) e(1)] e(2) by simp
  then have "ct_iter_next_internal trie iter = Some (SI_OK, iter\<lparr>leaves0 := c\<rparr>)" using l c(1) by (simp add: ct_iter_next_internal_def)
  then show ?thesis using False l c(2) loc_of_bucket(3) [OF sh listedD(1) [OF ls] leaves_dom [OF m]] by auto
qed (use L(2) in \<open>simp add: links_first_def\<close>)

theorem goto_places:
  assumes sh: "trie_shape heap trie T" and ls: "listed trie T" and key: "length key \<le> MAX_KEY_BYTES"
  shows "\<exists>iter'. ct_iter_goto heap act n trie iter (length key) key = Some (iter', n, trie) \<and> iter_on trie T iter' (rest heap T key)"
proof -
  let ?L = "rest heap T key"
  note up = upward_rest [OF trie_shapeD(4) [OF sh], of key]
  obtain iter1 where i: "ct_iter_goto_internal heap trie iter (length key) key = Some (SI_OK, iter1)"
    "is_exhausted iter1 \<and> ?L = {} \<or> \<not> is_exhausted iter1 \<and> links_first trie T ?L (iter_next_locator iter1)"
    using goto_internal [OF sh ls key] by blast
  show ?thesis
  proof (cases "?L = {}")
    case True
    then have "\<not> is_exhausted iter1 \<Longrightarrow> loc_primary_bucket (iter_next_locator iter1) = NO_BUCKET"
      using i(2) next_leaf_found [OF sh ls up, of iter1] by simp
    then show ?thesis using i(1) True up by (subst ct_iter_goto.simps) (auto simp: iter_on_def Let_def)
  next
    case False
    then have "\<not> is_exhausted iter1" "links_first trie T ?L (iter_next_locator iter1)" using i(2) by auto
    moreover from next_leaf_found [OF sh ls up this(2)] False obtain c where
      "loc_primary_bucket (iter_next_locator iter1) \<noteq> NO_BUCKET" "ct_iter_next_internal trie iter1 = Some (SI_OK, iter1\<lparr>leaves0 := c\<rparr>)"
      "copy_at trie T (Min ?L) c" by auto
    ultimately show ?thesis using i(1) False up by (subst ct_iter_goto.simps) (auto simp: iter_on_def Let_def)
  qed
qed

subsection \<open>Reporting\<close>

lemma copy_kv:
  assumes sh: "trie_shape heap trie T" and c: "copy_at trie T p c"
  shows "entry_kv (lc_value c) = kv_at T p"
proof -
  obtain e where e: "T p = Some e" using c by (auto simp: copy_at_def)
  show ?thesis using erased_node(13) [OF copy_at_node [OF c e] node_okD(1) [OF shape_node [OF sh e]]] e by (simp add: kv_at_def)
qed

theorem next_reports:
  assumes sh: "trie_shape heap trie T" and ls: "listed trie T" and on: "iter_on trie T iter L"
  shows "\<exists>iter'. ct_iter_next heap act n trie iter = Some (if L = {} then NULL else kv_at T (Min L), iter', n, trie) \<and>
    iter_on trie T iter' (L - {Min L})"
proof -
  have up: "upward T L" using on by (simp add: iter_on_def)
  note w = upward_without_first [OF trie_shapeD(4) [OF sh] up]
  have reported: "iter_on trie T (iter\<lparr>report_current := False, leaves0 := c\<rparr>) (L - {Min L})"
    if "\<not> is_exhausted iter" "L \<noteq> {}" "copy_at trie T (Min L) c" for c
  proof -
    have "\<exists>e. T (Min L) = Some e" using that(3) by (auto simp: copy_at_def)
    then obtain e where e: "T (Min L) = Some e" by blast
    have "finite L" using up finite_leaves [OF trie_shapeD(4) [OF sh]] finite_subset by (auto simp: upward_def)
    then have "Min L \<in> leaves T" using up Min_in that(2) by (auto simp: upward_def)
    then have "links_first trie T (L - {Min L}) (next_leaf (lc_value c))"
      using listedD(2) [OF ls _ e] copy_at_fields(1) [OF that(3) e] w(2) [OF that(2)] by simp
    then show ?thesis using w(1) that by (simp add: iter_on_def iter_next_locator_def)
  qed
  consider (exhausted) "is_exhausted iter" | (current) "\<not> is_exhausted iter" "report_current iter"
    | (step) "\<not> is_exhausted iter" "\<not> report_current iter" by blast
  then show ?thesis
  proof cases
    case exhausted
    then have "L = {}" using on by (simp add: iter_on_def)
    then show ?thesis using exhausted on by (simp add: ct_iter_next_def)
  next
    case current
    then have L: "L \<noteq> {}" "copy_at trie T (Min L) (leaves0 iter)" using on by (simp_all add: iter_on_def)
    then show ?thesis using current reported [OF current(1) L] copy_kv [OF sh L(2)] by (simp add: ct_iter_next_def)
  next
    case step
    then have l: "links_first trie T L (iter_next_locator iter)" using on by (simp add: iter_on_def)
    note f = next_leaf_found [OF sh ls up l]
    show ?thesis
    proof (cases "L = {}")
      case True
      then show ?thesis using f step up by (simp add: ct_iter_next_def iter_on_def)
    next
      case False
      then obtain c where c: "loc_primary_bucket (iter_next_locator iter) \<noteq> NO_BUCKET"
        "ct_iter_next_internal trie iter = Some (SI_OK, iter\<lparr>leaves0 := c\<rparr>)" "copy_at trie T (Min L) c" using f by auto
      have "iter_fetch heap act n trie iter = Some (iter\<lparr>leaves0 := c\<rparr>, n, trie)" using c(2) by (subst iter_fetch.simps) simp
      moreover have "iter_on trie T (iter\<lparr>leaves0 := c\<rparr>) (L - {Min L})"
        using reported [OF step(1) False c(3)] step by (simp add: iter_on_def iter_next_locator_def)
      ultimately show ?thesis using step c(1) False copy_kv [OF sh c(3)] by (simp add: ct_iter_next_def)
    qed
  qed
qed

text \<open>Repeated calls, whose results are collected.\<close>

primrec collect ::
    "nat \<Rightarrow> kv_heap \<Rightarrow> interference \<Rightarrow> nat \<Rightarrow> cuckoo_trie \<Rightarrow> ct_iter \<Rightarrow> (u64 list \<times> ct_iter \<times> nat \<times> cuckoo_trie) option" where
  "collect 0 heap act n trie iter = Some ([], iter, n, trie)"
| "collect (Suc m) heap act n trie iter = do {
     (kv, iter, n, trie) \<leftarrow> ct_iter_next heap act n trie iter;
     (kvs, iter, n, trie) \<leftarrow> collect m heap act n trie iter;
     Some (kv # kvs, iter, n, trie)
   }"

definition ct_range_scan :: "nat \<Rightarrow> kv_heap \<Rightarrow> interference \<Rightarrow> cuckoo_trie \<Rightarrow> u8 list \<Rightarrow> u64 list option" where
  "ct_range_scan m heap act trie key = do {
     (iter, n, trie) \<leftarrow> ct_iter_goto heap act 0 trie ct_iter_alloc (length key) key;
     (kvs, iter, n, trie) \<leftarrow> collect m heap act n trie iter;
     Some kvs
   }"

lemma collect_leaves:
  assumes "trie_shape heap trie T" and "listed trie T" and "iter_on trie T iter L"
  shows "\<exists>iter'. collect m heap act n trie iter =
    Some (take m (map (kv_at T) (sorted_list_of_set L)) @ replicate (m - card L) NULL, iter', n, trie)"
  using assms(3)
proof (induction m arbitrary: iter L)
  case (Suc m)
  obtain iter' where s: "ct_iter_next heap act n trie iter = Some (if L = {} then NULL else kv_at T (Min L), iter', n, trie)"
    "iter_on trie T iter' (L - {Min L})" using next_reports [OF assms(1,2) Suc.prems] by blast
  obtain iter'' where c: "collect m heap act n trie iter' =
      Some (take m (map (kv_at T) (sorted_list_of_set (L - {Min L}))) @ replicate (m - card (L - {Min L})) NULL, iter'', n, trie)"
    using Suc.IH [OF s(2)] by blast
  have fin: "finite L" using Suc.prems finite_leaves [OF trie_shapeD(4) [OF assms(1)]] finite_subset
    by (auto simp: iter_on_def upward_def)
  show ?case
  proof (cases "L = {}")
    case True
    then show ?thesis using s c by simp
  next
    case False
    then have "sorted_list_of_set L = Min L # sorted_list_of_set (L - {Min L})" using fin by (simp add: sorted_list_of_set_nonempty)
    moreover have "card L = Suc (card (L - {Min L}))" using card.remove [OF fin Min_in [OF fin False]] by simp
    ultimately show ?thesis using s c False by simp
  qed
qed simp

theorem ct_range_scan_correct:
  assumes o: "ordered_trie heap trie T" and key: "length key \<le> MAX_KEY_BYTES"
  shows "\<exists>kvs. ct_range_scan m heap act trie key = Some (take m kvs @ replicate (m - length kvs) NULL) \<and>
    set kvs = {kv \<in> kvs_of T. \<not> lex_less (key_of heap kv) key} \<and>
    sorted_wrt (\<lambda>a b. lex_less (key_of heap a) (key_of heap b)) kvs"
proof -
  note sh = ordered_trieD(1) [OF o] and ls = ordered_trieD(2) [OF o]
  note ok = trie_shapeD(4) [OF sh]
  let ?L = "rest heap T key"
  let ?kvs = "map (kv_at T) (sorted_list_of_set ?L)"
  have fin: "finite ?L" using finite_leaves [OF ok] by (simp add: rest_def)
  obtain iter where g: "ct_iter_goto heap act 0 trie ct_iter_alloc (length key) key = Some (iter, 0, trie)" "iter_on trie T iter ?L"
    using goto_places [OF sh ls key] by blast
  obtain iter' where c: "collect m heap act 0 trie iter = Some (take m ?kvs @ replicate (m - card ?L) NULL, iter', 0, trie)"
    using collect_leaves [OF sh ls g(2)] by blast
  have "ct_range_scan m heap act trie key = Some (take m ?kvs @ replicate (m - length ?kvs) NULL)"
    using g(1) c by (simp add: ct_range_scan_def)
  moreover have "set ?kvs = {kv \<in> kvs_of T. \<not> lex_less (key_of heap kv) key}"
    using fin by (auto simp: rest_def smaller_def kvs_of_def less_is_lex)
  moreover have "sorted_wrt (\<lambda>a b. lex_less (key_of heap a) (key_of heap b)) ?kvs"
  proof -
    have "\<forall>p\<in>set (sorted_list_of_set ?L). p \<in> leaves T" using fin by (simp add: rest_def)
    then have "lex_less (key_of heap (kv_at T p)) (key_of heap (kv_at T q))"
      if "p \<in> set (sorted_list_of_set ?L)" "q \<in> set (sorted_list_of_set ?L)" "p < q" for p q
      using leaf_order [OF ok _ _ that(3)] that(1,2) by (simp add: less_is_lex)
    moreover have "sorted_wrt (<) (sorted_list_of_set ?L)" by (rule strict_sorted_list_of_set)
    ultimately show ?thesis unfolding sorted_wrt_map by (rule sorted_wrt_mono_rel)
  qed
  ultimately show ?thesis by blast
qed

text \<open>The same against the map a trie stands for.\<close>

theorem ct_range_scan_map:
  assumes m: "trie_map heap trie m" and key: "length key \<le> MAX_KEY_BYTES"
  shows "\<exists>kvs. ct_range_scan num heap act trie key = Some (take num kvs @ replicate (num - length kvs) NULL) \<and>
    set kvs = {m k | k. m k \<noteq> NULL \<and> \<not> lex_less k key} \<and>
    sorted_wrt (\<lambda>a b. lex_less (key_of heap a) (key_of heap b)) kvs"
proof -
  obtain T where T: "ordered_trie heap trie T" "NULL \<notin> kvs_of T" "m = abs_map heap (kvs_of T)" using m by (auto simp: trie_map_def)
  note sh = ordered_trieD(1) [OF T(1)]
  have "{kv \<in> kvs_of T. \<not> lex_less (key_of heap kv) key} = {m k | k. m k \<noteq> NULL \<and> \<not> lex_less k key}" (is "?A = ?B")
  proof
    show "?A \<subseteq> ?B"
    proof
      fix kv
      assume kv: "kv \<in> ?A"
      then obtain q where q: "q \<in> leaves T" "kv = kv_at T q" by (auto simp: kvs_of_def)
      have "m (key_of heap kv) = kv" using abs_map_at [OF sh q(1) refl] q(2) T(3) by simp
      moreover have "kv \<noteq> NULL" using kv T(2) by auto
      ultimately show "kv \<in> ?B" using kv by force
    qed
    show "?B \<subseteq> ?A"
    proof
      fix kv
      assume "kv \<in> ?B"
      then obtain k where k: "kv = m k" "m k \<noteq> NULL" "\<not> lex_less k key" by blast
      obtain q where q: "q \<in> leaves T" "key_of heap (kv_at T q) = k" using k(2) abs_map_present [OF T(2) sh] T(3) by blast
      have "m k = kv_at T q" using abs_map_at [OF sh q] T(3) by simp
      then show "kv \<in> ?A" using q k by (auto simp: kvs_of_def)
    qed
  qed
  then show ?thesis using ct_range_scan_correct [OF T(1) key, of num act] by simp
qed

end
