(* ===== verification/Checker.thy ===== *)
theory Checker
  imports Verify Scan
begin

text \<open>
  The consistency checker on a consistent trie: it returns, every check of a node and the walk
  along the list of the leaves succeed. Only its test that no jump node has a leaf as its child
  is not implied by the invariant of the other operations, so that it decides the result.
\<close>

definition leaf_below_jump :: "shape \<Rightarrow> u64 list \<Rightarrow> bool" where
  "leaf_below_jump T p \<longleftrightarrow> (\<exists>e. T p = Some e \<and> entry_type e = TYPE_JUMP \<and> p @ jump_symbols e \<in> leaves T)"

subsection \<open>Where a node is stored\<close>

definition stored_at :: "cuckoo_trie \<Rightarrow> shape \<Rightarrow> u64 list \<Rightarrow> entry_ptr \<Rightarrow> bool" where
  "stored_at trie T q pos \<longleftrightarrow> pos \<in> table_cells trie \<and> home trie (fst pos) (cell trie pos) = hash_to_bucket (hash_path trie q) \<and>
     T q = Some (erase_side (cell trie pos))"

lemma copy_stored: "copy_at trie T q c \<Longrightarrow> stored_at trie T q (last_pos c) \<and> lc_value c = cell trie (last_pos c)"
  by (auto simp: copy_at_def copy_of_def stored_at_def)

lemma cell_stored:
  assumes sh: "trie_shape heap trie T" and pos: "pos \<in> table_cells trie" "entry_type (cell trie pos) \<noteq> TYPE_UNUSED"
  obtains q where "stored_at trie T q pos"
proof -
  have "(home trie (fst pos) (cell trie pos), erase_side (cell trie pos)) \<in># table_content trie"
    using pos by (auto simp: content_member)
  from content_in_shape [OF sh this] obtain q where "T q = Some (erase_side (cell trie pos))"
    "hash_to_bucket (hash_path trie q) = home trie (fst pos) (cell trie pos)" by blast
  then have "stored_at trie T q pos" using pos by (simp add: stored_at_def)
  then show thesis by (rule that)
qed

lemma node_stored:
  assumes sh: "trie_shape heap trie T" and e: "T q = Some e"
  obtains pos where "stored_at trie T q pos" and "entry_type (cell trie pos) = entry_type e"
proof -
  obtain c where c: "copy_at trie T q c" using find_node_by_color [OF sh e] by blast
  show thesis by (rule that [of "last_pos c"]) (use copy_stored [OF c] copy_at_fields(2) [OF c e] in simp_all)
qed

lemma stored_unique:
  assumes sh: "trie_shape heap trie T" and p: "stored_at trie T q pos" and p': "stored_at trie T q pos'"
  shows "pos = pos'"
proof (rule cell_slot_unique [OF table_invD(2) [OF trie_shapeD(1) [OF sh]]])
  have used: "entry_type (cell trie x) \<noteq> TYPE_UNUSED" if "stored_at trie T q x" for x
    using node_okD(9) [OF shape_node [OF sh, of q "erase_side (cell trie x)"]] that by (simp add: stored_at_def)
  show "entry_type (cell trie pos) \<noteq> TYPE_UNUSED" "entry_type (cell trie pos') \<noteq> TYPE_UNUSED" using used p p' by blast+
qed (use p p' in \<open>auto simp: stored_at_def cell_slot_def\<close>)

lemma stored_node_unique:
  assumes sh: "trie_shape heap trie T" and p: "stored_at trie T q pos" and p': "stored_at trie T q' pos"
  shows "q = q'"
  using shape_slot_inject [OF sh, of q _ q'] p p' by (auto simp: stored_at_def)

lemma hash_join: "push_bit TAG_BITS (hash_to_bucket h) + hash_to_tag h = h"
proof -
  have "push_bit 4 (drop_bit 4 h) + take_bit 4 h = h" by (rule bits_ident)
  then show ?thesis by (simp add: hash_to_bucket_def hash_to_tag_def take_bit_eq_mask)
qed

lemma stored_hash:
  assumes sh: "trie_shape heap trie T" and p: "stored_at trie T q pos"
  shows "stored_prefix_hash trie (of_nat (fst pos)) (cell trie pos) = hash_path trie q"
proof -
  have "ucast (entry_tag (cell trie pos)) = hash_to_tag (hash_path trie q)"
    using node_okD(3) [OF shape_node [OF sh, of q "erase_side (cell trie pos)"]] p by (simp add: stored_at_def)
  moreover have "home trie (fst pos) (cell trie pos) = hash_to_bucket (hash_path trie q)" using p by (simp add: stored_at_def)
  ultimately have "stored_prefix_hash trie (of_nat (fst pos)) (cell trie pos) =
      push_bit TAG_BITS (hash_to_bucket (hash_path trie q)) + hash_to_tag (hash_path trie q)"
    unfolding stored_prefix_hash_def Let_def home_def by simp
  then show ?thesis unfolding hash_join .
qed

subsection \<open>The checks of a node\<close>

lemma leaf_locator_fine:
  assumes sh: "trie_shape heap trie T" and ls: "listed trie T" and l: "l \<in> leaves T"
  shows "leaf_locator_error trie (loc_of trie T l) = Some None"
    and "\<exists>pos. try_follow_locator trie (loc_of trie T l) = Some pos \<and> stored_at trie T l pos"
proof -
  note nb = listedD(1) [OF ls] and d = leaves_dom [OF l]
  obtain e where e: "T l = Some e" "entry_type e = TYPE_LEAF" using l by (auto simp: leaves_def)
  obtain c where c: "locator_to_entry trie (loc_of trie T l) = Some c" "copy_at trie T l c" using follow_locator [OF sh nb d] by blast
  then have f: "try_follow_locator trie (loc_of trie T l) = Some (last_pos c)"
    by (simp add: locator_to_entry_def try_follow_locator_def)
  then show "\<exists>pos. try_follow_locator trie (loc_of trie T l) = Some pos \<and> stored_at trie T l pos" using copy_stored [OF c(2)] by blast
  have "valid_sizes trie" using table_invD(5) [OF trie_shapeD(1) [OF sh]] by auto
  then have "\<not> num_buckets trie \<le> hash_to_bucket (hash_path trie l)"
    using hash_split_valid(1) [OF _ shape_hash_valid [OF sh e(1)]] by (simp add: valid_bucket_def)
  moreover have "entry_type (cell trie (last_pos c)) = TYPE_LEAF" using copy_stored [OF c(2)] copy_at_fields(2) [OF c(2) e(1)] e(2) by simp
  ultimately show "leaf_locator_error trie (loc_of trie T l) = Some None"
    using f loc_of_bucket(1) [OF sh nb d] by (simp add: leaf_locator_error_def)
qed

lemma children_fine:
  assumes sh: "trie_shape heap trie T" and e: "T q = Some e" "entry_type e = TYPE_BITMAP" and v: "erase_side v = e" 
    and cs: "\<forall>s\<in>set cs. s \<le> 32"
  shows "verify_children trie v (hash_path trie q) cs = Some True"
  using cs
proof (induction cs)
  case (Cons s cs)
  have s32: "s \<le> 32" using Cons.prems by simp
  have n: "unat (of_nat s :: u64) = s" using s32 by (simp add: unat_of_nat)
  note f = erased_node(3,5) [OF v]
  show ?case
  proof (cases "get_bit (child_bitmap v) s")
    case True
    have "(of_nat s :: u64) \<in> children e" using True s32 f n by (simp add: children_def word_le_nat_alt)
    from find_child_by_parent [OF sh e this] show ?thesis using True Cons f by (auto simp: hash_path_snoc Let_def)
  qed (use Cons in simp)
qed simp

lemma jump_child_check:
  assumes sh: "trie_shape heap trie T" and e: "T q = Some e" "entry_type e = TYPE_JUMP" and p: "stored_at trie T q pos"
  shows "verify_jump_child trie (of_nat (fst pos)) (snd pos) = Some (\<not> leaf_below_jump T q)"
proof -
  have v: "erase_side (cell trie pos) = e" using p e by (simp add: stored_at_def)
  have u: "unat (of_nat (fst pos) :: u64) = fst pos" using cell_bucket_unat(1) [of pos trie] p by (simp add: stored_at_def)
  note nd = shape_node [OF sh e(1)] and f = erased_node [OF v]
  have jump: "entry_jump_size e \<le> 8" "jump_child_ok T q e" using node_okD(6) [OF nd e(2)] by simp_all
  then obtain c where c: "T (q @ jump_symbols e) = Some c" "entry_color c = entry_child_color e" by (auto simp: jump_child_ok_def)
  have "jump_symbols (cell trie pos) = jump_symbols e" using f(14) [OF node_okD(1) [OF nd] jump(1)] .
  moreover have "foldl (\<lambda>h k. accumulate_hash trie h (get_jump_symbol v k)) h [0..<entry_jump_size v] =
      foldl (accumulate_hash trie) h (jump_symbols v)" for v h
    by (simp add: jump_symbols_def foldl_map)
  ultimately have hash: "foldl (\<lambda>h k. accumulate_hash trie h (get_jump_symbol (cell trie pos) k))
      (stored_prefix_hash trie (of_nat (fst pos)) (cell trie pos)) [0..<entry_jump_size (cell trie pos)] = hash_path trie (q @ jump_symbols e)"
    unfolding stored_hash [OF sh p] by (simp add: hash_path_def)
  obtain lc where lc: "find_entry_in_pair_by_color trie (hash_to_bucket (hash_path trie (q @ jump_symbols e)))
      (hash_to_tag (hash_path trie (q @ jump_symbols e))) (ucast (entry_color c)) = Some lc" "copy_at trie T (q @ jump_symbols e) lc"
    using find_node_by_color [OF sh c(1)] by blast
  have "entry_type (cell trie (last_pos lc)) = entry_type c" using copy_stored [OF lc(2)] copy_at_fields(2) [OF lc(2) c(1)] by simp
  moreover have "leaf_below_jump T q \<longleftrightarrow> entry_type c = TYPE_LEAF" using e c(1) by (auto simp: leaf_below_jump_def leaves_def)
  ultimately show ?thesis using lc(1) c(2) f(11) unfolding verify_jump_child_def u by (simp add: hash)
qed

lemma entry_check:
  assumes sh: "trie_shape heap trie T" and ls: "listed trie T" and p: "stored_at trie T q pos"
  shows "verify_entry trie (of_nat (fst pos)) (snd pos) = Some (\<not> leaf_below_jump T q)"
proof -
  let ?v = "cell trie pos" and ?b = "of_nat (fst pos) :: u64"
  note ok = trie_shapeD(4) [OF sh]
  obtain e where e: "T q = Some e" "erase_side ?v = e" using p by (simp add: stored_at_def)
  have u: "(unat ?b, snd pos) = pos" using cell_bucket_unat(1) [of pos trie] p by (simp add: stored_at_def)
  note f = erased_node(1,7) [OF e(2)] and kinds = node_okD(8) [OF shape_node [OF sh e(1)]]
  have max: "leaf_locator_error trie (max_leaf ?v) = Some None" if "entry_type e \<noteq> TYPE_LEAF"
  proof -
    have "Max (below T q) \<in> below T q" using e by (intro Max_in finite_below [OF ok] below_nonempty [OF ok]) auto
    then have "Max (below T q) \<in> leaves T" by (simp add: below_def)
    from leaf_locator_fine(1) [OF sh ls this] show ?thesis using listedD(3) [OF ls e(1) that] f by simp
  qed
  have "leaf_locator_error trie (next_leaf ?v) = Some None"
    if "entry_type e = TYPE_LEAF" "loc_primary_bucket (next_leaf ?v) \<noteq> NO_BUCKET"
  proof -
    have l: "q \<in> leaves T" using e(1) that(1) by (simp add: leaves_def)
    from listedD(2) [OF ls this e(1)] have "after T q \<noteq> {}" "next_leaf ?v = loc_of trie T (Min (after T q))"
      using that(2) f by (auto simp: links_first_def split: if_splits)
    moreover have "finite (after T q)" using finite_leaves [OF ok] by (simp add: after_def)
    ultimately show ?thesis using leaf_locator_fine(1) [OF sh ls, of "Min (after T q)"] Min_in [of "after T q"] by (auto simp: after_def)
  qed
  moreover have "verify_bitmap_children trie ?b (snd pos) = Some True" if "entry_type e = TYPE_BITMAP"
    using children_fine [OF sh e(1) that e(2), of "[0..<FANOUT + 1]"] stored_hash [OF sh p]
    by (simp add: verify_bitmap_children_def u)
  moreover have "verify_jump_child trie ?b (snd pos) = Some (\<not> leaf_below_jump T q)" if "entry_type e = TYPE_JUMP"
    using jump_child_check [OF sh e(1) that p] .
  moreover have "\<not> leaf_below_jump T q" if "entry_type e \<noteq> TYPE_JUMP" using e(1) that by (simp add: leaf_below_jump_def)
  ultimately show ?thesis using kinds max f(1) by (auto simp: verify_entry_def u Let_def)
qed

lemma cells_check:
  assumes sh: "trie_shape heap trie T" and ls: "listed trie T" and ps: "set ps \<subseteq> table_cells trie"
  shows "verify_cells trie ps = Some (\<forall>q. (\<exists>pos\<in>set ps. stored_at trie T q pos) \<longrightarrow> \<not> leaf_below_jump T q)"
  using ps
proof (induction ps)
  case (Cons pos ps)
  show ?case
  proof (cases "entry_type (cell trie pos) = TYPE_UNUSED")
    case True
    have "\<not> stored_at trie T q pos" for q
      using node_okD(9) [OF shape_node [OF sh, of q "erase_side (cell trie pos)"]] True by (auto simp: stored_at_def)
    then show ?thesis using Cons True by simp
  next
    case False
    obtain q where q: "stored_at trie T q pos" using cell_stored [OF sh _ False] Cons.prems by auto
    have only: "stored_at trie T q' pos \<longleftrightarrow> q' = q" for q' using stored_node_unique [OF sh _ q] q by blast
    have "verify_cells trie ps = Some (\<forall>q. (\<exists>pos\<in>set ps. stored_at trie T q pos) \<longrightarrow> \<not> leaf_below_jump T q)"
      using Cons by simp
    then have "verify_cells trie (pos # ps) = Some (\<not> leaf_below_jump T q \<and>
        (\<forall>q. (\<exists>pos\<in>set ps. stored_at trie T q pos) \<longrightarrow> \<not> leaf_below_jump T q))"
      using False entry_check [OF sh ls q] by simp
    moreover have "(\<forall>q'. (\<exists>x\<in>set (pos # ps). stored_at trie T q' x) \<longrightarrow> \<not> leaf_below_jump T q') \<longleftrightarrow> \<not> leaf_below_jump T q \<and>
        (\<forall>q. (\<exists>pos\<in>set ps. stored_at trie T q pos) \<longrightarrow> \<not> leaf_below_jump T q)"
      using only by (metis list.set_intros(1,2) set_ConsD)
    ultimately show ?thesis by simp
  qed
qed simp

subsection \<open>The walk along the list\<close>

lemma leaf_keys_increase:
  assumes ok: "shape_ok heap trie T" and p: "p \<in> leaves T" and q: "q \<in> leaves T" and less: "p < q"
  shows "0 < kv_key_compare (heap (kv_at T q)) (heap (kv_at T p))"
proof -
  have "wf_kv (heap (kv_at T l))" if "l \<in> leaves T" for l
    using that node_okD(5) [OF shape_okD(2) [OF ok, of l]] by (auto simp: leaves_def leaf_ok_def kv_at_def)
  then show ?thesis using kv_compare_leaf(4) p q leaf_order [OF ok p q less] by (simp add: less_is_lex)
qed

definition mark_of :: "entry_ptr \<Rightarrow> nat" where
  "mark_of pos = fst pos * CUCKOO_BUCKET_SIZE + snd pos"

lemma follow_list:
  assumes sh: "trie_shape heap trie T" and ls: "listed trie T" and L: "upward T L" "links_first trie T L next"
    and n: "card L + n \<le> num" and last: "\<And>kv. prev = Some kv \<Longrightarrow> \<exists>p\<in>leaves T. kv = kv_at T p \<and> (\<forall>l\<in>L. p < l)"
  shows "\<exists>marks'. follow_linklist heap trie num n marks prev next = Some (Some marks') \<and> length marks' = length marks \<and>
    (\<forall>i<length marks. marks' ! i \<longrightarrow> marks ! i \<and> (\<forall>l\<in>L. \<forall>pos. stored_at trie T l pos \<longrightarrow> mark_of pos \<noteq> i))"
  using L n last
proof (induction "card L" arbitrary: L n marks prev "next")
  case 0
  have "finite L" using 0(2) finite_leaves [OF trie_shapeD(4) [OF sh]] finite_subset by (auto simp: upward_def)
  then have "L = {}" using 0(1) by simp
  then show ?case using 0(3) by (subst follow_linklist.simps) (simp add: links_first_def)
next
  case (Suc k)
  note ok = trie_shapeD(4) [OF sh]
  have fin: "finite L" using Suc(3) finite_leaves [OF ok] finite_subset by (auto simp: upward_def)
  have ne: "L \<noteq> {}" using Suc(2) by auto
  let ?m = "Min L"
  have mL: "?m \<in> L" using Min_in fin ne by blast
  then have m: "?m \<in> leaves T" using Suc(3) by (auto simp: upward_def)
  obtain e where e: "T ?m = Some e" "entry_type e = TYPE_LEAF" using m by (auto simp: leaves_def)
  have l: "next = loc_of trie T ?m" using Suc(4) ne by (simp add: links_first_def)
  obtain pos where pos: "try_follow_locator trie next = Some pos" "stored_at trie T ?m pos"
    using leaf_locator_fine(2) [OF sh ls m] l by blast
  have v: "erase_side (cell trie pos) = e" using pos(2) e by (simp add: stored_at_def)
  note f = erased_node [OF v]
  have kv: "entry_kv (cell trie pos) = kv_at T ?m" using f(13) [OF node_okD(1) [OF shape_node [OF sh e(1)]]] e by (simp add: kv_at_def)
  note rest = upward_without_first [OF ok Suc(3) ne]
  have "links_first trie T (L - {?m}) (next_leaf (cell trie pos))" using listedD(2) [OF ls m e(1)] rest(2) f(7) by simp
  moreover have "k = card (L - {?m})" using Suc(2) mL fin by simp
  moreover have "card (L - {?m}) + (n + 1) \<le> num" using Suc(2,5) \<open>k = card (L - {?m})\<close> by simp
  moreover have "\<exists>p\<in>leaves T. kv = kv_at T p \<and> (\<forall>l\<in>L - {?m}. p < l)" if "Some (entry_kv (cell trie pos)) = Some kv" for kv
    using that kv m Min_le [OF fin] by (intro bexI [of _ ?m]) (auto simp: order_less_le)
  ultimately obtain marks' where IH: "follow_linklist heap trie num (n + 1) (marks[mark_of pos := False]) (Some (entry_kv (cell trie pos)))
      (next_leaf (cell trie pos)) = Some (Some marks')" "length marks' = length marks"
    "\<forall>i<length marks. marks' ! i \<longrightarrow> marks[mark_of pos := False] ! i \<and>
      (\<forall>l\<in>L - {?m}. \<forall>pos. stored_at trie T l pos \<longrightarrow> mark_of pos \<noteq> i)"
    using Suc(1) [OF _ rest(1), of "next_leaf (cell trie pos)" "n + 1" "Some (entry_kv (cell trie pos))" "marks[mark_of pos := False]"] by auto
  have "\<not> (case prev of None \<Rightarrow> False | Some kv \<Rightarrow> kv_key_compare (heap (entry_kv (cell trie pos))) (heap kv) \<le> 0)"
    using Suc(6) leaf_keys_increase [OF ok _ m] mL kv by (fastforce split: option.splits)
  moreover have "loc_primary_bucket next \<noteq> NO_BUCKET" using l loc_of_bucket(3) [OF sh listedD(1) [OF ls] leaves_dom [OF m]] by simp
  moreover have "\<not> n + 1 > num" using Suc(2,5) by simp
  moreover have "entry_type (cell trie pos) = TYPE_LEAF" using f(1) e(2) by simp
  ultimately have "follow_linklist heap trie num n marks prev next = Some (Some marks')"
    using IH(1) pos(1) by (subst follow_linklist.simps) (simp add: Let_def mark_of_def)
  moreover have "marks ! i \<and> (\<forall>l\<in>L. \<forall>pos. stored_at trie T l pos \<longrightarrow> mark_of pos \<noteq> i)" if "i < length marks" "marks' ! i" for i
  proof -
    have i: "marks[mark_of pos := False] ! i" "\<forall>l\<in>L - {?m}. \<forall>pos. stored_at trie T l pos \<longrightarrow> mark_of pos \<noteq> i"
      using IH(3) that by blast+
    have "mark_of pos \<noteq> i" using i(1) that(1) by auto
    moreover from this have "marks ! i" using i(1) by simp
    ultimately show ?thesis using i(2) stored_unique [OF sh _ pos(2)] by blast
  qed
  ultimately show ?case using IH(2) by blast
qed

lemma mark_of_position:
  assumes "i < length (cell_positions trie)"
  shows "mark_of (cell_positions trie ! i) = i"
proof -
  have *: "length (concat (map (\<lambda>b. map (Pair b) [0..<4]) [0..<n])) = n * 4 \<and>
    (\<forall>b<n. \<forall>i<4. concat (map (\<lambda>b. map (Pair b) [0..<4]) [0..<n]) ! (b * 4 + i) = (b, i))" for n :: nat
    by (induction n) (auto simp: nth_append less_Suc_eq)
  have c: "cell_positions trie = concat (map (\<lambda>b. map (Pair b) [0..<4]) [0..<unat (num_buckets trie)])"
    by (simp add: cell_positions_def)
  have "i div 4 < unat (num_buckets trie)" "i mod 4 < 4" "i div 4 * 4 + i mod 4 = i"
    using assms * [of "unat (num_buckets trie)"] by (simp_all add: c less_mult_imp_div_less)
  then have "cell_positions trie ! i = (i div 4, i mod 4)" using * [of "unat (num_buckets trie)"] unfolding c by metis
  then show ?thesis by (simp add: mark_of_def)
qed

lemma set_positions: "set (cell_positions trie) = table_cells trie"
  by (auto simp: cell_positions_def table_cells_def)

lemma leaf_count:
  assumes sh: "trie_shape heap trie T"
  shows "card (leaves T) \<le> length (filter (\<lambda>p. entry_type (cell trie p) = TYPE_LEAF) (cell_positions trie))"
proof -
  let ?P = "filter (\<lambda>p. entry_type (cell trie p) = TYPE_LEAF) (cell_positions trie)"
  have "\<exists>pos\<in>set ?P. stored_at trie T l pos" if l: "l \<in> leaves T" for l
  proof -
    obtain e where e: "T l = Some e" "entry_type e = TYPE_LEAF" using l by (auto simp: leaves_def)
    obtain pos where pos: "stored_at trie T l pos" "entry_type (cell trie pos) = entry_type e" by (rule node_stored [OF sh e(1)])
    moreover from pos(1) have "pos \<in> set (cell_positions trie)" by (simp add: stored_at_def set_positions)
    ultimately show ?thesis using e(2) by (intro bexI [of _ pos]) simp_all
  qed
  then obtain f where f: "\<forall>l\<in>leaves T. f l \<in> set ?P \<and> stored_at trie T l (f l)" by metis
  have "card (leaves T) \<le> card (set ?P)"
  proof (rule card_inj_on_le)
    show "inj_on f (leaves T)" using f stored_node_unique [OF sh] by (metis inj_onI)
    show "f ` leaves T \<subseteq> set ?P" using f by blast
  qed simp
  also have "\<dots> \<le> length ?P" by (rule card_length)
  finally show ?thesis .
qed

lemma linklist_check:
  assumes sh: "trie_shape heap trie T" and ls: "listed trie T"
  shows "verify_linklist heap trie = Some True"
proof -
  let ?leaf = "\<lambda>p. entry_type (cell trie p) = TYPE_LEAF" and ?P = "cell_positions trie"
  have "upward T (leaves T)" by (auto simp: upward_def after_def)
  moreover have "links_first trie T (leaves T) (next_leaf (cell trie (trie_min_leaf trie)))"
    using listedD(5) [OF ls] by (simp add: min_leaf_ok_def)
  moreover have "card (leaves T) + 0 \<le> length (filter ?leaf ?P)" using leaf_count [OF sh] by simp
  moreover have "\<exists>p\<in>leaves T. kv = kv_at T p \<and> (\<forall>l\<in>leaves T. p < l)" if "None = Some kv" for kv using that by simp
  ultimately have "\<exists>marks. follow_linklist heap trie (length (filter ?leaf ?P)) 0 (map ?leaf ?P) None
      (next_leaf (cell trie (trie_min_leaf trie))) = Some (Some marks) \<and> length marks = length (map ?leaf ?P) \<and>
    (\<forall>i<length (map ?leaf ?P). marks ! i \<longrightarrow> map ?leaf ?P ! i \<and>
      (\<forall>l\<in>leaves T. \<forall>pos. stored_at trie T l pos \<longrightarrow> mark_of pos \<noteq> i))"
    by (rule follow_list [OF sh ls])
  then obtain marks where w: "follow_linklist heap trie (length (filter ?leaf ?P)) 0 (map ?leaf ?P) None
      (next_leaf (cell trie (trie_min_leaf trie))) = Some (Some marks)" "length marks = length ?P"
    "\<forall>i<length ?P. marks ! i \<longrightarrow> map ?leaf ?P ! i \<and> (\<forall>l\<in>leaves T. \<forall>pos. stored_at trie T l pos \<longrightarrow> mark_of pos \<noteq> i)"
    unfolding length_map by blast
  have "\<not> marks ! i" if i: "i < length marks" for i
  proof
    assume mi: "marks ! i"
    let ?pos = "?P ! i"
    have leaf: "?leaf ?pos" using w(2,3) i mi by fastforce
    have mem: "?pos \<in> table_cells trie" using nth_mem [of i ?P] i w(2) by (simp add: set_positions)
    then obtain q where q: "stored_at trie T q ?pos" using cell_stored [OF sh mem] leaf by auto
    then have "q \<in> leaves T" using leaf by (auto simp: stored_at_def leaves_def)
    moreover have "mark_of ?pos = i" using mark_of_position i w(2) by simp
    ultimately show False using w(2,3) i mi q by fastforce
  qed
  then have "\<not> list_ex (\<lambda>u. u) marks" by (auto simp: list_ex_iff in_set_conv_nth)
  then show ?thesis using w(1) by (simp add: verify_linklist_def Let_def)
qed

subsection \<open>The whole check\<close>

theorem checker_result:
  assumes o: "ordered_trie heap trie T" and lok: "locks_ok {} (trie, [])"
  shows "ct_verify_trie heap trie = Some (\<forall>p. \<not> leaf_below_jump T p)"
proof -
  note sh = ordered_trieD(1) [OF o] and ls = ordered_trieD(2) [OF o]
  have locks: "list_all (\<lambda>b. lock_byte (bucket_word trie b) = 0) [0..<unat (num_buckets trie)]"
    using locks_okD(4) [OF lok] table_okD(3) [OF table_invD(1) [OF trie_shapeD(1) [OF sh]]] by (auto simp: list_all_iff)
  have "\<exists>pos\<in>table_cells trie. stored_at trie T q pos" if q: "leaf_below_jump T q" for q
  proof -
    obtain e where "T q = Some e" using q by (auto simp: leaf_below_jump_def)
    then obtain pos where "stored_at trie T q pos" using node_stored [OF sh] by blast
    then show ?thesis by (auto simp: stored_at_def)
  qed
  then have "(\<forall>q. (\<exists>pos\<in>table_cells trie. stored_at trie T q pos) \<longrightarrow> \<not> leaf_below_jump T q) = (\<forall>p. \<not> leaf_below_jump T p)" by blast
  then have "verify_cells trie (cell_positions trie) = Some (\<forall>p. \<not> leaf_below_jump T p)"
    using cells_check [OF sh ls, of "cell_positions trie"] unfolding set_positions by simp
  then show ?thesis using locks linklist_check [OF sh ls] by (simp add: ct_verify_trie_def Let_def)
qed

end
