(* ===== verification/CheckerSound.thy ===== *)
theory CheckerSound
  imports Checker
begin

text \<open>
  What an accepting run of the consistency checker says of an arbitrary table: no bucket is
  locked, and the list of the leaves runs through exactly the leaves of the table, each once and
  in the order of their keys. Nothing is assumed of the nodes but that the objects of the
  leaves are well formed and that the locators of the list have a tag that can be searched for.
\<close>

definition leaf_cells :: "cuckoo_trie \<Rightarrow> entry_ptr set" where
  "leaf_cells trie = {pos \<in> table_cells trie. entry_type (cell trie pos) = TYPE_LEAF}"

definition leaf_key :: "kv_heap \<Rightarrow> cuckoo_trie \<Rightarrow> entry_ptr \<Rightarrow> u8 list" where
  "leaf_key heap trie pos = kv_key (heap (entry_kv (cell trie pos)))"

text \<open>The tags of the links, and the bucket of the first one, which the checker does not look at.\<close>

definition links_searchable :: "cuckoo_trie \<Rightarrow> bool" where
  "links_searchable trie \<longleftrightarrow>
     (\<forall>pos\<in>insert (trie_min_leaf trie) (leaf_cells trie).
        loc_primary_bucket (next_leaf (cell trie pos)) \<noteq> NO_BUCKET \<longrightarrow> loc_tag (next_leaf (cell trie pos)) < 16) \<and>
     (loc_primary_bucket (next_leaf (cell trie (trie_min_leaf trie))) \<noteq> NO_BUCKET \<longrightarrow>
        ucast (loc_primary_bucket (next_leaf (cell trie (trie_min_leaf trie)))) < num_buckets trie)"

text \<open>The cells that the links lead to, from a locator on to the end of the list.\<close>

primrec leaf_chain :: "cuckoo_trie \<Rightarrow> ct_entry_locator \<Rightarrow> entry_ptr list \<Rightarrow> bool" where
  "leaf_chain trie l [] \<longleftrightarrow> loc_primary_bucket l = NO_BUCKET"
| "leaf_chain trie l (pos # ps) \<longleftrightarrow> loc_primary_bucket l \<noteq> NO_BUCKET \<and> try_follow_locator trie l = Some pos \<and>
     entry_type (cell trie pos) = TYPE_LEAF \<and> leaf_chain trie (next_leaf (cell trie pos)) ps"

primrec rising :: "kv_heap \<Rightarrow> cuckoo_trie \<Rightarrow> u64 option \<Rightarrow> entry_ptr list \<Rightarrow> bool" where
  "rising heap trie prev [] \<longleftrightarrow> True"
| "rising heap trie prev (pos # ps) \<longleftrightarrow>
     (case prev of None \<Rightarrow> True | Some kv \<Rightarrow> 0 < kv_key_compare (heap (entry_kv (cell trie pos))) (heap kv)) \<and>
     rising heap trie (Some (entry_kv (cell trie pos))) ps"

primrec clear_marks :: "bool list \<Rightarrow> entry_ptr list \<Rightarrow> bool list" where
  "clear_marks marks [] = marks"
| "clear_marks marks (pos # ps) = clear_marks (marks[mark_of pos := False]) ps"

lemma clear_marks_nth: "i \<notin> mark_of ` set ps \<Longrightarrow> clear_marks marks ps ! i = marks ! i"
  by (induction ps arbitrary: marks) auto

lemma length_clear_marks [simp]: "length (clear_marks marks ps) = length marks"
  by (induction ps arbitrary: marks) auto

subsection \<open>The walk\<close>

lemma follow_sound:
  assumes "follow_linklist heap trie num n marks prev next = Some (Some marks')"
  shows "\<exists>ps. leaf_chain trie next ps \<and> rising heap trie prev ps \<and> marks' = clear_marks marks ps"
proof -
  have "\<forall>marks'. r = Some marks' \<longrightarrow>
      (\<exists>ps. leaf_chain trie next ps \<and> rising heap trie prev ps \<and> marks' = clear_marks marks ps)"
    if r: "follow_linklist heap trie num n marks prev next = Some r" for r
    using r
  proof (rule follow_linklist.raw_induct [where P = "\<lambda>heap trie num n marks prev next r. \<forall>marks'. r = Some marks' \<longrightarrow>
      (\<exists>ps. leaf_chain trie next ps \<and> rising heap trie prev ps \<and> marks' = clear_marks marks ps)", rotated])
    fix follow heap trie num n marks prev "next" and r :: "bool list option"
    assume IH: "\<And>heap trie num n marks prev next r. follow heap trie num n marks prev next = Some r \<Longrightarrow>
        \<forall>marks'. r = Some marks' \<longrightarrow> (\<exists>ps. leaf_chain trie next ps \<and> rising heap trie prev ps \<and> marks' = clear_marks marks ps)"
      and body: "(if loc_primary_bucket next = NO_BUCKET then Some (Some marks)
        else do {
          leaf \<leftarrow> try_follow_locator trie next;
          let entry = cell trie leaf;
          if entry_type entry \<noteq> TYPE_LEAF then Some None
          else if (case prev of None \<Rightarrow> False
                   | Some kv \<Rightarrow> kv_key_compare (heap (entry_kv entry)) (heap kv) \<le> 0) then Some None
          else if n + 1 > num then Some None
          else follow heap trie num (n + 1) (marks[fst leaf * CUCKOO_BUCKET_SIZE + snd leaf := False])
                 (Some (entry_kv entry)) (next_leaf entry)
        }) = Some r"
    show "\<forall>marks'. r = Some marks' \<longrightarrow>
        (\<exists>ps. leaf_chain trie next ps \<and> rising heap trie prev ps \<and> marks' = clear_marks marks ps)"
    proof (intro allI impI)
      fix marks' assume r: "r = Some marks'"
      show "\<exists>ps. leaf_chain trie next ps \<and> rising heap trie prev ps \<and> marks' = clear_marks marks ps"
      proof (cases "loc_primary_bucket next = NO_BUCKET")
        case True
        then have "leaf_chain trie next [] \<and> rising heap trie prev [] \<and> marks' = clear_marks marks []" using body r by simp
        then show ?thesis by blast
      next
        case False
        then obtain pos where pos: "try_follow_locator trie next = Some pos" using body by (auto split: bind_splits)
        let ?kv = "entry_kv (cell trie pos)"
        have step: "entry_type (cell trie pos) = TYPE_LEAF"
          "\<not> (case prev of None \<Rightarrow> False | Some kv \<Rightarrow> kv_key_compare (heap ?kv) (heap kv) \<le> 0)"
          "follow heap trie num (n + 1) (marks[mark_of pos := False]) (Some ?kv) (next_leaf (cell trie pos)) = Some (Some marks')"
          using body False pos r by (auto simp: Let_def mark_of_def split: if_splits)
        obtain ps where ps: "leaf_chain trie (next_leaf (cell trie pos)) ps" "rising heap trie (Some ?kv) ps"
          "marks' = clear_marks (marks[mark_of pos := False]) ps" using IH [OF step(3)] by blast
        have "leaf_chain trie next (pos # ps) \<and> rising heap trie prev (pos # ps) \<and> marks' = clear_marks marks (pos # ps)"
          using False pos step(1,2) ps by (auto split: option.splits)
        then show ?thesis by blast
      qed
    qed
  qed
  then show ?thesis using assms by blast
qed

lemma rising_sorted:
  assumes "rising heap trie prev ps" and "\<forall>pos\<in>set ps. wf_kv (heap (entry_kv (cell trie pos)))" and "\<And>kv. prev = Some kv \<Longrightarrow> wf_kv (heap kv)"
  shows "sorted_wrt (\<lambda>p q. leaf_key heap trie p < leaf_key heap trie q) ps \<and>
    (\<forall>kv. prev = Some kv \<longrightarrow> (\<forall>pos\<in>set ps. kv_key (heap kv) < leaf_key heap trie pos))"
  using assms
proof (induction ps arbitrary: prev)
  case (Cons pos ps)
  have s: "sorted_wrt (\<lambda>p q. leaf_key heap trie p < leaf_key heap trie q) ps"
    "\<forall>q\<in>set ps. leaf_key heap trie pos < leaf_key heap trie q"
    using Cons.IH [of "Some (entry_kv (cell trie pos))"] Cons.prems(1,2) by (auto simp: leaf_key_def)
  have "kv_key (heap kv) < leaf_key heap trie pos" if "prev = Some kv" for kv
    using Cons.prems that kv_compare_leaf(4) [of "heap (entry_kv (cell trie pos))" "heap kv"] by (simp add: leaf_key_def less_is_lex)
  then show ?case using s by fastforce
qed simp

subsection \<open>The cells of the list\<close>

lemma found_position:
  assumes ok: "table_ok trie" and vb: "valid_bucket trie b" and tag: "tag < 16"
    and f: "find_entry_in_pair_by_color trie b tag color = Some c"
  shows "last_pos c \<in> table_cells trie"
proof -
  have len: "length (cells (bucket_of trie b)) = 4" if "valid_bucket trie b" for b
    using that table_okD(5) [OF ok, of "unat b"] by (simp add: bucket_of_def wf_bucket_def valid_bucket_unat)
  have found: "last_pos (found_in b b' r) \<in> table_cells trie"
    if "valid_bucket trie b" "find_entry_in_bucket_by_color (bucket_of trie b) sec tag color = Some r" for b b' sec r
  proof -
    obtain i e w where "r = (i, e, w)" by (cases r)
    then have "fst r < 4" using search_obs_Some(1) that(2) len [OF that(1)]
      unfolding find_entry_in_bucket_by_color_def by (metis fst_conv)
    then show ?thesis using that(1) by (simp add: found_in_def table_cells_def valid_bucket_unat)
  qed
  have vm: "valid_bucket trie (mix_bucket trie b tag)"
    using pair.mix_valid [OF table_okD(2) [OF ok] vb] tag by (simp add: valid_tag_def)
  have eq: "find_entry_in_pair_by_color trie b tag color =
    (case find_entry_in_bucket_by_color (bucket_of trie b) False tag color of
       Some r \<Rightarrow> Some (found_in b b r)
     | None \<Rightarrow> (case find_entry_in_bucket_by_color (bucket_of trie (mix_bucket trie b tag)) True tag color of
         Some r \<Rightarrow> Some (found_in (mix_bucket trie b tag) b r)
       | None \<Rightarrow> find_entry_in_pair_by_color trie b tag color))"
    by (subst find_entry_in_pair_by_color.simps) (simp only: Let_def)
  consider r where "find_entry_in_bucket_by_color (bucket_of trie b) False tag color = Some r" "c = found_in b b r"
    | r where "find_entry_in_bucket_by_color (bucket_of trie (mix_bucket trie b tag)) True tag color = Some r"
      "c = found_in (mix_bucket trie b tag) b r"
    using pair_by_color_returns [OF f] f eq by (auto split: option.splits)
  then show ?thesis using found [OF vb] found [OF vm] by cases blast+
qed

lemma cells_sound:
  assumes "verify_cells trie ps = Some True" and "pos \<in> set ps" and "entry_type (cell trie pos) \<noteq> TYPE_UNUSED"
  shows "verify_entry trie (of_nat (fst pos)) (snd pos) = Some True"
  using assms by (induction ps) (auto split: if_splits bind_splits)

lemma next_in_range:
  assumes v: "verify_entry trie (of_nat (fst pos)) (snd pos) = Some True" and pos: "pos \<in> leaf_cells trie"
  shows "loc_primary_bucket (next_leaf (cell trie pos)) = NO_BUCKET \<or> ucast (loc_primary_bucket (next_leaf (cell trie pos))) < num_buckets trie"
proof -
  have u: "(unat (of_nat (fst pos) :: u64), snd pos) = pos" using cell_bucket_unat(1) [of pos trie] pos by (simp add: leaf_cells_def)
  have "entry_type (cell trie pos) = TYPE_LEAF" using pos by (simp add: leaf_cells_def)
  then show ?thesis using v
    by (auto simp: verify_entry_def u Let_def leaf_locator_error_def not_less[symmetric] split: if_splits bind_splits)
qed

lemma chain_cells:
  assumes ok: "table_ok trie" and links: "links_searchable trie"
    and nodes: "\<forall>pos\<in>leaf_cells trie. verify_entry trie (of_nat (fst pos)) (snd pos) = Some True"
    and "leaf_chain trie l ps"
    and "loc_primary_bucket l \<noteq> NO_BUCKET \<Longrightarrow> loc_tag l < 16 \<and> ucast (loc_primary_bucket l) < num_buckets trie"
  shows "set ps \<subseteq> leaf_cells trie"
  using assms(4-5)
proof (induction ps arbitrary: l)
  case (Cons pos ps)
  have vb: "valid_bucket trie (ucast (loc_primary_bucket l))" and t16: "loc_tag l < 16" using Cons.prems by (simp_all add: valid_bucket_def)
  have t: "ucast (loc_tag l) < (16 :: u64)"
    using t16 by (simp add: word_less_nat_alt unsigned_ucast_eq take_bit_nat_eq_self)
  obtain c where "find_entry_in_pair_by_color trie (ucast (loc_primary_bucket l)) (ucast (loc_tag l)) (ucast (loc_color l)) = Some c"
    "pos = last_pos c" using Cons.prems(1) by (auto simp: try_follow_locator_def split: bind_splits)
  then have pos: "pos \<in> leaf_cells trie" using found_position [OF ok vb t] Cons.prems(1) by (simp add: leaf_cells_def)
  then show ?case using Cons.IH [of "next_leaf (cell trie pos)"] Cons.prems(1) links nodes next_in_range [of trie pos]
    by (auto simp: links_searchable_def)
qed simp

theorem checker_is_sound:
  assumes ok: "table_ok trie" and links: "links_searchable trie"
    and kv: "\<forall>pos\<in>leaf_cells trie. wf_kv (heap (entry_kv (cell trie pos)))" and accepted: "ct_verify_trie heap trie = Some True"
  shows "\<forall>b<unat (num_buckets trie). lock_byte (bucket_word trie b) = 0"
    and "\<exists>ps. leaf_chain trie (next_leaf (cell trie (trie_min_leaf trie))) ps \<and> set ps = leaf_cells trie \<and>
      sorted_wrt (\<lambda>p q. leaf_key heap trie p < leaf_key heap trie q) ps"
proof -
  let ?leaf = "\<lambda>p. entry_type (cell trie p) = TYPE_LEAF" and ?P = "cell_positions trie"
  have parts: "list_all (\<lambda>b. lock_byte (bucket_word trie b) = 0) [0..<unat (num_buckets trie)]"
    "verify_cells trie ?P = Some True" "verify_linklist heap trie = Some True"
    using accepted by (auto simp: ct_verify_trie_def Let_def split: bind_splits)
  show "\<forall>b<unat (num_buckets trie). lock_byte (bucket_word trie b) = 0" using parts(1) by (simp add: list_all_iff)
  have nodes: "\<forall>pos\<in>leaf_cells trie. verify_entry trie (of_nat (fst pos)) (snd pos) = Some True"
    using cells_sound [OF parts(2)] by (auto simp: leaf_cells_def set_positions)
  obtain marks where marks: "follow_linklist heap trie (length (filter ?leaf ?P)) 0 (map ?leaf ?P) None
      (next_leaf (cell trie (trie_min_leaf trie))) = Some (Some marks)" "\<not> list_ex (\<lambda>u. u) marks"
    using parts(3) by (auto simp: verify_linklist_def Let_def split: bind_splits option.splits)
  obtain ps where ps: "leaf_chain trie (next_leaf (cell trie (trie_min_leaf trie))) ps" "rising heap trie None ps"
    "marks = clear_marks (map ?leaf ?P) ps" using follow_sound [OF marks(1)] by blast
  have sub: "set ps \<subseteq> leaf_cells trie"
    by (rule chain_cells [OF ok links nodes ps(1)]) (use links in \<open>simp add: links_searchable_def\<close>)
  have "pos \<in> set ps" if pos: "pos \<in> leaf_cells trie" for pos
  proof -
    have "pos \<in> set ?P" using pos by (simp add: leaf_cells_def set_positions)
    then obtain i where i: "i < length ?P" "?P ! i = pos" by (auto simp: in_set_conv_nth)
    have "\<not> marks ! i" using marks(2) i(1) ps(3) by (auto simp: list_ex_iff in_set_conv_nth)
    then have "clear_marks (map ?leaf ?P) ps ! i \<noteq> map ?leaf ?P ! i" using ps(3) pos i by (simp add: leaf_cells_def)
    then obtain q where q: "q \<in> set ps" "mark_of q = i" using clear_marks_nth [of i ps] by blast
    then have "q \<in> set ?P" using sub by (auto simp: leaf_cells_def set_positions)
    then obtain j where j: "j < length ?P" "?P ! j = q" by (auto simp: in_set_conv_nth)
    then have "j = i" using mark_of_position q(2) by metis
    then show ?thesis using i(2) j(2) q(1) by simp
  qed
  then have "set ps = leaf_cells trie" using sub by blast
  moreover have "sorted_wrt (\<lambda>p q. leaf_key heap trie p < leaf_key heap trie q) ps"
    using rising_sorted [OF ps(2)] kv sub by auto
  ultimately show "\<exists>ps. leaf_chain trie (next_leaf (cell trie (trie_min_leaf trie))) ps \<and> set ps = leaf_cells trie \<and>
      sorted_wrt (\<lambda>p q. leaf_key heap trie p < leaf_key heap trie q) ps" using ps(1) by blast
qed

text \<open>A consistent trie has such links.\<close>

lemma loc_of_searchable:
  assumes sh: "trie_shape heap trie T" and ls: "listed trie T" and l: "links_first trie T L l" "L \<subseteq> leaves T"
    and b: "loc_primary_bucket l \<noteq> NO_BUCKET"
  shows "loc_tag l < 16" and "ucast (loc_primary_bucket l) < num_buckets trie"
proof -
  note nb = listedD(1) [OF ls]
  have ne: "L \<noteq> {}" and eq: "l = loc_of trie T (Min L)" using l(1) b by (auto simp: links_first_def split: if_splits)
  have "finite L" using l(2) finite_leaves [OF trie_shapeD(4) [OF sh]] finite_subset by blast
  then have d: "Min L \<in> dom T" using Min_in ne l(2) leaves_dom by blast
  then obtain e where e: "T (Min L) = Some e" by blast
  have vs: "valid_sizes trie" using table_invD(5) [OF trie_shapeD(1) [OF sh]] by auto
  note hs = hash_split_valid [OF vs shape_hash_valid [OF sh e]] and lb = loc_of_bucket [OF sh nb d]
  show "ucast (loc_primary_bucket l) < num_buckets trie" using hs(1) lb(1) unfolding eq by (simp add: valid_bucket_def)
  have "ucast (loc_tag l) < (16 :: u64)" using hs(2) lb(2) unfolding eq by (simp add: valid_tag_def)
  moreover have "unat (loc_tag l) < 2 ^ 8" using unsigned_less [of "loc_tag l"] by simp
  then have "unat (ucast (loc_tag l) :: u64) = unat (loc_tag l)" by (simp add: unsigned_ucast_eq take_bit_nat_eq_self)
  ultimately show "loc_tag l < 16" by (simp add: word_less_nat_alt)
qed

lemma consistent_links:
  assumes sh: "trie_shape heap trie T" and ls: "listed trie T"
  shows "links_searchable trie" and "\<forall>pos\<in>leaf_cells trie. wf_kv (heap (entry_kv (cell trie pos)))"
proof -
  have leaf: "wf_kv (heap (entry_kv (cell trie pos))) \<and>
      (loc_primary_bucket (next_leaf (cell trie pos)) \<noteq> NO_BUCKET \<longrightarrow> loc_tag (next_leaf (cell trie pos)) < 16)"
    if pos: "pos \<in> leaf_cells trie" for pos
  proof -
    have "pos \<in> table_cells trie" "entry_type (cell trie pos) \<noteq> TYPE_UNUSED" using pos by (simp_all add: leaf_cells_def)
    then obtain q where q: "stored_at trie T q pos" using cell_stored [OF sh] by blast
    define e where "e = erase_side (cell trie pos)"
    have e: "T q = Some e" "entry_type e = TYPE_LEAF" using q pos by (simp_all add: stored_at_def leaf_cells_def e_def)
    note nd = shape_node [OF sh e(1)] and f = erased_node [OF e_def [symmetric]]
    have "wf_kv (heap (entry_kv e))" using node_okD(5) [OF nd e(2)] by (simp add: leaf_ok_def)
    moreover have "q \<in> leaves T" using e by (simp add: leaves_def)
    moreover have "after T q \<subseteq> leaves T" by (auto simp: after_def)
    ultimately show ?thesis using loc_of_searchable(1) [OF sh ls listedD(2) [OF ls _ e(1)]] f(7) f(13) [OF node_okD(1) [OF nd]] by simp
  qed
  then show "\<forall>pos\<in>leaf_cells trie. wf_kv (heap (entry_kv (cell trie pos)))" by blast
  have "links_first trie T (leaves T) (next_leaf (cell trie (trie_min_leaf trie)))"
    using listedD(5) [OF ls] by (simp add: min_leaf_ok_def)
  from loc_of_searchable [OF sh ls this order.refl] leaf show "links_searchable trie" by (auto simp: links_searchable_def)
qed

end
