(* ===== verification/NodeRefs.thy ===== *)
theory NodeRefs
  imports LeafList
begin

text \<open>
  The state between the steps of an insertion: a trie whose table holds the nodes of a shape
  \<open>T\<close>, with the entry \<open>m\<close> in the place of the minimal leaf. A reference is a prefix of \<open>T\<close> or
  the minimal leaf; a local copy of either stays usable while other entries are written.
\<close>

type_synonym node_ref = "u64 list option"

definition view :: "cuckoo_trie \<Rightarrow> shape \<Rightarrow> ct_entry \<Rightarrow> bool" where
  "view trie T m \<longleftrightarrow> rooted trie T \<and> cell trie (trie_min_leaf trie) = m"

definition ref_on :: "cuckoo_trie \<Rightarrow> shape \<Rightarrow> node_ref \<Rightarrow> nat \<Rightarrow> ct_entry_local_copy \<Rightarrow> bool" where
  "ref_on trie T r n c \<longleftrightarrow> (case r of Some p \<Rightarrow> copy_on trie T p n c
     | None \<Rightarrow> last_pos c = trie_min_leaf trie \<and> lc_value c = cell trie (trie_min_leaf trie) \<and>
         seq_of_word (bucket_word trie (fst (trie_min_leaf trie))) = seq_of_word (last_seq c))"

definition put_node :: "node_ref \<Rightarrow> ct_entry \<Rightarrow> shape \<Rightarrow> shape" where
  "put_node r e T = (case r of Some p \<Rightarrow> T(p \<mapsto> erase_side e) | None \<Rightarrow> T)"

definition put_min :: "node_ref \<Rightarrow> ct_entry \<Rightarrow> ct_entry \<Rightarrow> ct_entry" where
  "put_min r e m = (case r of Some p \<Rightarrow> m | None \<Rightarrow> e)"

definition ref_buckets :: "cuckoo_trie \<Rightarrow> node_ref \<Rightarrow> nat set" where
  "ref_buckets trie r = (case r of Some p \<Rightarrow> {..<unat (num_buckets trie)} | None \<Rightarrow> {unat (num_buckets trie)})"

lemmas ref_defs = ref_on_def put_node_def put_min_def ref_buckets_def

subsection \<open>The minimal leaf\<close>

lemma min_leaf_ptr:
  assumes "table_ok trie"
  shows "valid_ptr trie (trie_min_leaf trie)" and "wf_entry (cell trie (trie_min_leaf trie))"
    and "p \<in> table_cells trie \<Longrightarrow> p \<noteq> trie_min_leaf trie"
  using table_okD(3) [OF assms] table_okD(5) [OF assms order_refl]
  by (auto simp: valid_ptr_def trie_min_leaf_def wf_bucket_def cell_def table_cells_def)

lemma write_min_leaf:
  assumes ok: "table_ok trie" and e: "wf_entry e"
  defines "p \<equiv> trie_min_leaf trie"
  defines "t \<equiv> snd (write_entry trie p e)"
  shows "table_ok t" and "table_content t = table_content trie" and "cell t q = (if q = p then e else cell trie q)"
    and "wrote {unat (num_buckets trie)} 1 trie t" and "bucket_word t (fst p) = fst (write_entry trie p e)"
proof -
  note v = min_leaf_ptr [OF ok]
  have fp: "fst p = unat (num_buckets trie)" by (simp add: p_def trie_min_leaf_def)
  show c: "cell t q = (if q = p then e else cell trie q)" for q
    using v(1,2) e by (simp add: t_def p_def write_entry_eq table_simps)
  have w: "bucket_word t b = (if b = fst p then bucket_word trie b + 512 else bucket_word trie b)" for b
    using v(1,2) e by (simp add: t_def p_def write_entry_eq table_simps valid_ptr_def)
  then show "bucket_word t (fst p) = fst (write_entry trie p e)" using v(1,2) e by (simp add: p_def write_entry_eq)
  have cells: "table_cells t = table_cells trie" "cell_content t = cell_content trie" by (simp_all add: t_def)
  show "table_content t = table_content trie" unfolding table_content_def cells
    by (rule sum.cong) (use c v(3) in \<open>auto simp: p_def\<close>)
  have "valid_table t" "length (buckets t) = length (buckets trie)" "num_buckets t = num_buckets trie"
    "length (cells (buckets t ! b)) = length (cells (buckets trie ! b))" "at_rest (bucket_word t b) = at_rest (bucket_word trie b)" for b
    using table_okD(2) [OF ok] w at_rest_add v(1,2) e by (simp_all add: t_def p_def write_entry_eq table_simps)
  then show "table_ok t" using ok e c v(3) unfolding table_ok_cells cells by (auto simp: p_def)
  have "\<exists>k\<le>1. seq_of_word (bucket_word t b) = seq_of_word (bucket_word trie b) + of_nat (512 * k) \<and>
      (k = 0 \<longrightarrow> cells (buckets t ! b) = cells (buckets trie ! b)) \<and> (b \<notin> {unat (num_buckets trie)} \<longrightarrow> k = 0)" for b
  proof (cases "b = fst p")
    case True
    then show ?thesis using w seq_of_word_add fp by (intro exI [of _ 1]) simp
  next
    case False
    then show ?thesis using w cells_write_entry by (intro exI [of _ 0]) (simp add: t_def p_def)
  qed
  then show "wrote {unat (num_buckets trie)} 1 trie t" by (simp add: wrote_def t_def p_def)
qed

lemma wrote_frame: "wrote B n t t' \<Longrightarrow> frame t' = frame t"
  by (simp add: wrote_def)

lemma rooted_write_min:
  assumes r: "rooted trie T" and e: "wf_entry e"
  shows "rooted (snd (write_entry trie (trie_min_leaf trie) e)) T"
proof -
  let ?t = "snd (write_entry trie (trie_min_leaf trie) e)"
  note tr = rootedD(1) [OF r]
  note ok = tracksD(4) [OF tr]
  note w = write_min_leaf [OF ok e]
  have "table_inv ?t" using w(1,2) table_invD(2,3) [OF tracksD(1) [OF tr]] by (simp add: table_inv_def)
  then have "tracks ?t T" using tracks_cong [OF wrote_frame [OF w(4)]] tracksD(2,3) [OF tr] w(2) by simp
  moreover have "cell ?t root_ptr = cell trie root_ptr" using w(3) min_leaf_ptr(3) [OF ok root_cell [OF ok]] by simp
  ultimately show ?thesis using r frame_fields(4) [OF wrote_frame [OF w(4)]] by (simp add: rooted_def)
qed

subsection \<open>Updates through references\<close>

lemma viewD:
  assumes "view trie T m"
  shows "rooted trie T" and "tracks trie T" and "table_ok trie" and "cell trie (trie_min_leaf trie) = m"
    and "length (buckets trie) = unat (num_buckets trie) + 1"
proof -
  show r: "rooted trie T" "cell trie (trie_min_leaf trie) = m" using assms by (simp_all add: view_def)
  show t: "tracks trie T" by (rule rootedD(1) [OF r(1)])
  show ok: "table_ok trie" by (rule tracksD(4) [OF t])
  show "length (buckets trie) = unat (num_buckets trie) + 1" by (rule table_okD(3) [OF ok])
qed

lemma ref_on_wrote:
  assumes r: "ref_on t T r n c" and w: "wrote B m t t'" and T: "\<And>p. r = Some p \<Longrightarrow> T' p = T p"
    and B: "r = None \<Longrightarrow> unat (num_buckets t) \<notin> B" and ok: "table_ok t"
  shows "ref_on t' T' r (n + m) c"
proof (cases r)
  case None
  let ?b = "unat (num_buckets t)"
  have f: "frame t' = frame t" using w by (simp add: wrote_def)
  have p: "trie_min_leaf t' = trie_min_leaf t" "fst (trie_min_leaf t) = ?b" using frame_fields(7) [OF f] by (simp_all add: trie_min_leaf_def)
  have b: "?b < length (buckets t)" using table_okD(3) [OF ok] by simp
  then have "seq_of_word (bucket_word t' ?b) = seq_of_word (bucket_word t ?b)" "cells (buckets t' ! ?b) = cells (buckets t ! ?b)"
    using w B [OF None] by (auto simp: wrote_def)
  moreover from this(2) have "cell t' (trie_min_leaf t) = cell t (trie_min_leaf t)" using p(2) by (simp add: cell_def)
  ultimately show ?thesis using r None p by (simp add: ref_on_def)
next
  case (Some p)
  then show ?thesis using r copy_on_wrote [where T = T and T' = T', OF _ w T [OF Some]] by (simp add: ref_on_def)
qed

lemma ref_on_mono: "ref_on t T r n c \<Longrightarrow> n \<le> m \<Longrightarrow> ref_on t T r m c"
  using copy_on_mono by (auto simp: ref_on_def split: option.splits)

theorem update_ref:
  assumes v: "view trie T m" and c: "ref_on trie T r n c" and n: "n < 2 ^ 23"
    and e: "wf_entry e" "entry_type e \<noteq> TYPE_UNUSED" "color_and_tag e = color_and_tag (lc_value c)"
      "entry_is_secondary e = entry_is_secondary (lc_value c)"
  shows "\<exists>c' trie'. update_entry trie c e = Some (c', trie') \<and> view trie' (put_node r e T) (put_min r e m) \<and>
    wrote (ref_buckets trie r) 1 trie trie' \<and> ref_on trie' (put_node r e T) r 0 c' \<and>
    erase_side (lc_value c') = erase_side e \<and> (r = None \<longrightarrow> lc_value c' = e) \<and> (\<exists>q f. trie' = snd (write_entry trie q f))"
proof (cases r)
  case None
  let ?p = "trie_min_leaf trie"
  let ?t = "snd (write_entry trie ?p e)"
  note w = write_min_leaf [OF viewD(3) [OF v] e(1)]
  have p: "last_pos c = ?p" "validate_entry trie c" using c None by (simp_all add: ref_on_def validate_entry_def)
  have q: "trie_min_leaf ?t = ?p" by (rule frame_fields(7) [OF wrote_frame [OF w(4)]])
  have "update_entry trie c e = Some (c\<lparr>lc_value := e, last_seq := fst (write_entry trie ?p e)\<rparr>, ?t)"
    using p by (simp add: update_entry_def case_prod_beta)
  moreover have "view ?t T e" using rooted_write_min [OF viewD(1) [OF v] e(1)] w(3) q by (simp add: view_def)
  moreover have "ref_on ?t T None 0 (c\<lparr>lc_value := e, last_seq := fst (write_entry trie ?p e)\<rparr>)"
    using w(3,5) q p(1) by (simp add: ref_on_def)
  moreover have "\<exists>q f. ?t = snd (write_entry trie q f)" by blast
  ultimately show ?thesis using None w(4) by (auto simp: ref_defs simp del: split_paired_Ex)
next
  case (Some p)
  then have "copy_on trie T p n c" using c by (simp add: ref_on_def)
  from update_entry_rooted [OF viewD(1) [OF v] this n e] obtain c' trie' where u: "update_entry trie c e = Some (c', trie')"
    "rooted trie' (T(p \<mapsto> erase_side e))" "wrote {..<unat (num_buckets trie)} 1 trie trie'"
    "copy_on trie' (T(p \<mapsto> erase_side e)) p 0 c'" "erase_side (lc_value c') = erase_side e" "\<exists>q f. trie' = snd (write_entry trie q f)"
    by blast
  have "cell trie' (trie_min_leaf trie') = m" using min_leaf_wrote [OF u(3) viewD(3) [OF v]] viewD(4) [OF v] by simp
  then show ?thesis using u Some by (auto simp: ref_defs view_def)
qed

subsection \<open>Writing a cell directly\<close>

text \<open>Tables with the same cells hold the same shape.\<close>

lemma rooted_same_cells:
  assumes f: "frame t' = frame t" and len: "length (buckets t') = length (buckets t)"
    and lens: "\<And>b. length (cells (buckets t' ! b)) = length (cells (buckets t ! b))" and c: "\<And>p. cell t' p = cell t p"
    and rest: "\<And>b. at_rest (bucket_word t' b) = at_rest (bucket_word t b)" and r: "rooted t T"
  shows "rooted t' T"
proof -
  note F = frame_fields [OF f]
  note tr = rootedD(1) [OF r]
  have "valid_table t' = valid_table t" using arg_cong [OF f [unfolded frame_def], of valid_table] by simp
  then have ok: "table_ok t'" using tracksD(4) [OF tr] unfolding table_ok_cells len lens c rest F(1,6) by simp
  have "cell_content t' = cell_content t" by (simp add: fun_eq_iff cell_content_def F(2))
  then have content: "table_content t' = table_content t" by (simp add: table_content_def F(6) c)
  have "table_inv t'" using ok content tracksD(1) [OF tr] by (simp add: table_inv_def)
  then have "tracks t' T" using tracks_cong [OF f] tracksD(2,3) [OF tr] content by simp
  then show ?thesis using r F(4) c by (simp add: rooted_def)
qed

lemma set_cell_frame [simp]: "frame (set_cell t p e) = frame t"
  by (simp add: frame_def set_cell_def)

theorem set_node:
  assumes v: "view trie T m" and pos: "pos \<in> table_cells trie" "home trie (fst pos) (cell trie pos) = hash_to_bucket (hash_path trie p)"
      "T p = Some (erase_side (cell trie pos))"
    and e: "wf_entry e" "entry_type e \<noteq> TYPE_UNUSED" "color_and_tag e = color_and_tag (cell trie pos)"
      "entry_is_secondary e = entry_is_secondary (cell trie pos)"
  shows "view (set_cell trie pos e) (T(p \<mapsto> erase_side e)) m" and "cell (set_cell trie pos e) q = (if q = pos then e else cell trie q)"
    and "\<And>r n c. ref_on trie T r n c \<Longrightarrow> r \<noteq> Some p \<Longrightarrow> ref_on (set_cell trie pos e) (T(p \<mapsto> erase_side e)) r n c"
proof -
  let ?t = "set_cell trie pos e" and ?w = "snd (write_entry trie pos e)" and ?T = "T(p \<mapsto> erase_side e)"
  note ok = viewD(3) [OF v] and tr = viewD(2) [OF v]
  note vp = table_cells_valid [OF ok pos(1)]
  show c: "cell ?t q = (if q = pos then e else cell trie q)" for q using vp(2) by (simp add: table_simps)
  let ?c = "copy_of trie (hash_to_bucket (hash_path trie p)) pos"
  have "copy_at trie T p ?c" using pos by (auto simp: copy_at_def)
  from copy_at_on [OF this ok, of 0] have on: "copy_on trie T p 0 ?c" .
  have e': "color_and_tag e = color_and_tag (lc_value ?c)" "entry_is_secondary e = entry_is_secondary (lc_value ?c)"
    using e(3,4) by (simp_all add: copy_of_def)
  have "update_entry trie ?c e = Some (?c\<lparr>lc_value := e, last_seq := fst (write_entry trie pos e)\<rparr>, ?w)"
    by (simp add: update_entry_def validate_entry_def copy_of_def case_prod_beta)
  then have "rooted ?w ?T" using update_entry_rooted [OF viewD(1) [OF v] on _ e(1,2) e'] by auto
  moreover have "cell ?w q = cell ?t q" for q unfolding c cell_write_entry [OF ok pos(1) e(1)] ..
  ultimately have "rooted ?t ?T"
    by (intro rooted_same_cells [of ?t ?w], simp) (use vp e(1) in \<open>simp_all add: write_entry_eq table_simps at_rest_add\<close>)
  moreover have "trie_min_leaf ?t = trie_min_leaf trie" by (simp add: trie_min_leaf_def table_simps)
  moreover have "cell ?t (trie_min_leaf trie) = m" using c min_leaf_ptr(3) [OF ok pos(1)] viewD(4) [OF v] by auto
  ultimately show "view ?t ?T m" by (simp add: view_def)
  have F: "home ?t = home trie" "hash_path ?t = hash_path trie" "table_cells ?t = table_cells trie" "trie_min_leaf ?t = trie_min_leaf trie"
    "length (buckets ?t) = length (buckets trie)" "bucket_word ?t b = bucket_word trie b" for b
    using frame_fields [OF set_cell_frame [of trie pos e]] by (simp_all add: table_simps)
  have used: "entry_type (cell trie pos) \<noteq> TYPE_UNUSED"
    by (rule content_used [OF tracksD(1) [OF tr] pos(1)]) (use tracksD(5) [OF tr pos(3)] in simp)
  show "ref_on ?t ?T r n d" if r: "ref_on trie T r n d" "r \<noteq> Some p" for r n d
  proof (cases r)
    case None
    then show ?thesis using r(1) c min_leaf_ptr(3) [OF ok pos(1)] by (auto simp: ref_on_def F)
  next
    case (Some q)
    then have ne: "q \<noteq> p" and on': "copy_on trie T q n d" using r by (simp_all add: ref_on_def)
    have "last_pos d \<noteq> pos" if "last_pos d \<in> table_cells trie" "cell trie (last_pos d) = lc_value d"
      "home trie (fst (last_pos d)) (lc_value d) = lc_primary_bucket d"
    proof -
      have T: "T q = Some (erase_side (cell trie (last_pos d)))" and h: "home trie (fst (last_pos d)) (cell trie (last_pos d)) = hash_to_bucket (hash_path trie q)"
        using on' that by (simp_all add: copy_on_def)
      have u: "entry_type (cell trie (last_pos d)) \<noteq> TYPE_UNUSED"
        by (rule content_used [OF tracksD(1) [OF tr] that(1)]) (use tracksD(5) [OF tr T] in simp)
      from place_unique_cell [OF tr T pos(3) that(1) pos(1) h pos(2) u used] show ?thesis using ne by simp
    qed
    then have "copy_on ?t ?T q n d" using on' ne unfolding copy_on_def F c fun_upd_other [OF ne] by auto
    then show ?thesis using Some by (simp add: ref_on_def)
  qed
qed

subsection \<open>Adding a node\<close>

theorem add_node:
  assumes v: "view trie T m" and lok: "locks_ok others (trie, mgr)" and p: "T p = None" "p \<noteq> []" "\<forall>s\<in>set p. s \<le> 32"
    and e: "wf_entry e" "\<not> entry_is_secondary e" "entry_type e \<noteq> TYPE_UNUSED"
  shows "\<exists>st out e' trie' mgr'. add_entry (trie, mgr) (hash_path trie p) e immovable lock = Some (st, out, e', trie', mgr') \<and>
    locks_ok others (trie', mgr') \<and> wrote {..<unat (num_buckets trie)} 1003 trie trie' \<and>
    (if st = SI_OK
     then \<exists>pos c. out = Some pos \<and> pos \<in> table_cells trie' \<and> cell trie' pos = e' \<and> c < 9 \<and>
       home trie' (fst pos) e' = hash_to_bucket (hash_path trie p) \<and> entry_type e' \<noteq> TYPE_UNUSED \<and>
       erase_side e' = e\<lparr>color_and_tag := ucast (hash_to_tag (hash_path trie p)) OR push_bit 4 c\<rparr> \<and>
       entry_tag e' = ucast (hash_to_tag (hash_path trie p)) \<and> view trie' (T(p \<mapsto> erase_side e')) m
     else st \<in> {SI_RETRY, SI_FAIL} \<and> out = None \<and> view trie' T m)"
proof -
  let ?h = "hash_path trie p"
  note tr = viewD(2) [OF v] and ok = viewD(3) [OF v] and r = viewD(1) [OF v]
  have vs: "valid_sizes trie" using table_okD(2) [OF ok] by auto
  from add_entry_ok [OF ok lok hash_path_valid [OF vs p(3)] e, of immovable lock] obtain st out e' trie' mgr' where
    a: "add_entry (trie, mgr) ?h e immovable lock = Some (st, out, e', trie', mgr')"
      "added others ?h e (trie, mgr) (st, out, e', trie', mgr')" by auto
  note A = a(2) [unfolded added_def Let_def prod.case fst_conv snd_conv]
  note inv = add_entry_inv [OF tracksD(1) [OF tr] a(2), unfolded fst_conv snd_conv]
  have w: "wrote {..<unat (num_buckets trie)} 1003 trie trie'" using A by blast
  note f = wrote_frame [OF w]
  have root: "cell trie' root_ptr = cell trie root_ptr" using A rootedD(5) [OF r] by blast
  have min: "cell trie' (trie_min_leaf trie') = m" using min_leaf_wrote [OF w ok] viewD(4) [OF v] by simp
  have lok': "locks_ok others (trie', mgr')" using A by blast
  have view: "view trie' T' m" if "table_content trie' = shape_content trie T'" "finite (dom T')" "T' [] = T []" for T'
    using r root min inv(1) that tracks_cong [OF f inv(1) that(2,1)] frame_fields(4) [OF f] by (simp add: view_def rooted_def)
  show ?thesis
  proof (cases "st = SI_OK")
    case True
    then obtain pos c where pc: "out = Some pos" "pos \<in> table_cells trie'" "cell trie' pos = e'" "c < 9"
      "home trie' (fst pos) e' = hash_to_bucket ?h" "erase_side e' = e\<lparr>color_and_tag := ucast (hash_to_tag ?h) OR push_bit 4 c\<rparr>"
      "entry_tag e' = ucast (hash_to_tag ?h)" using A unfolding if_P [OF True] by blast
    have t: "entry_type e' \<noteq> TYPE_UNUSED"
    proof -
      have "entry_type e' = entry_type (erase_side e')" by simp
      also have "\<dots> = entry_type e" unfolding pc(6) by (simp add: entry_type_def)
      finally show ?thesis using e(3) by simp
    qed
    have "table_content trie' = shape_content trie (T(p \<mapsto> erase_side e'))"
      using inv(4) [OF True] tracksD(2,3) [OF tr] p(1) by (subst shape_content_new) auto
    from view [OF this] have "view trie' (T(p \<mapsto> erase_side e')) m" using p(2) tracksD(2) [OF tr] by simp
    then show ?thesis using a(1) lok' w True pc t by auto
  next
    case False
    have "view trie' T m" by (rule view) (use inv(6) [OF False] tracksD(2,3) [OF tr] in simp_all)
    then show ?thesis using a(1) lok' w False A by auto
  qed
qed

end
