(* ===== verification/Graft.thy ===== *)
theory Graft
  imports NodeRefs
begin

text \<open>
  A new leaf below a bitmap, on the level of shapes: the bitmap gets one more child, the list
  of the leaves one more member, and the nodes on the way from the root perhaps another
  greatest leaf.
\<close>

subsection \<open>Shapes that differ in their locators\<close>

definition same_but_locators :: "shape \<Rightarrow> shape \<Rightarrow> bool" where
  "same_but_locators T T' \<longleftrightarrow> dom T' = dom T \<and> (\<forall>p\<in>dom T. \<exists>l. T' p = Some (the (T p)\<lparr>e_locator := l\<rparr>))"

lemma locator_update_fields [simp]:
  "entry_type (e\<lparr>e_locator := l\<rparr>) = entry_type e" "entry_color (e\<lparr>e_locator := l\<rparr>) = entry_color e"
  "entry_tag (e\<lparr>e_locator := l\<rparr>) = entry_tag e" "entry_parent_color (e\<lparr>e_locator := l\<rparr>) = entry_parent_color e"
  "entry_child_color (e\<lparr>e_locator := l\<rparr>) = entry_child_color e" "entry_jump_size (e\<lparr>e_locator := l\<rparr>) = entry_jump_size e"
  "wf_entry (e\<lparr>e_locator := l\<rparr>) = wf_entry e" "entry_dirty (e\<lparr>e_locator := l\<rparr>) = entry_dirty e"
  "entry_is_secondary (e\<lparr>e_locator := l\<rparr>) = entry_is_secondary e" "children (e\<lparr>e_locator := l\<rparr>) = children e"
  "erase_side (e\<lparr>e_locator := l\<rparr>) = (erase_side e)\<lparr>e_locator := l\<rparr>"
  by (simp_all add: entry_type_def entry_color_def entry_tag_def entry_parent_color_def entry_child_color_def
      entry_jump_size_def wf_entry_def entry_dirty_def entry_is_secondary_def erase_side_def children_def)

lemma locator_update_kv: "wf_entry e \<Longrightarrow> entry_kv (e\<lparr>e_locator := l\<rparr>) = entry_kv e"
  by (rule entry_kv_cong) simp_all

lemma locator_update_jump:
  "wf_entry e \<Longrightarrow> entry_jump_size e \<le> 8 \<Longrightarrow> jump_symbols (e\<lparr>e_locator := l\<rparr>) = jump_symbols e"
  by (rule jump_symbols_cong) simp_all

lemma same_but_locatorsD:
  assumes "same_but_locators T T'" and "T p = Some e"
  shows "\<exists>l. T' p = Some (e\<lparr>e_locator := l\<rparr>)"
  using assms unfolding same_but_locators_def by (metis domI option.sel)

lemma same_but_locators_refl [intro]: "same_but_locators T T"
proof -
  have "the (T p)\<lparr>e_locator := e_locator (the (T p))\<rparr> = the (T p)" for p by simp
  then show ?thesis unfolding same_but_locators_def by (metis domD option.sel)
qed

lemma same_but_locators_upd:
  assumes "same_but_locators T T'" and "T' p = Some e"
  shows "same_but_locators T (T'(p \<mapsto> e\<lparr>e_locator := l\<rparr>))"
proof -
  have d: "dom T' = dom T" using assms(1) by (simp add: same_but_locators_def)
  then obtain c where c: "T p = Some c" using assms(2) by blast
  obtain k where "e = c\<lparr>e_locator := k\<rparr>" using same_but_locatorsD [OF assms(1) c] assms(2) by auto
  then have "e\<lparr>e_locator := l\<rparr> = c\<lparr>e_locator := l\<rparr>" by simp
  then show ?thesis using assms c d unfolding same_but_locators_def by auto
qed

lemma same_kids_locators:
  assumes ok: "shape_ok heap trie T" and s: "same_but_locators T T'"
  shows "child_of T' = child_of T" and "leaves T' = leaves T" and "p \<in> dom T \<Longrightarrow> kv_at T' p = kv_at T p"
    and "p \<in> dom T \<Longrightarrow> loc_of trie' T' p = loc_of trie' T p"
proof -
  have f: "\<exists>l. T' p = Some (e\<lparr>e_locator := l\<rparr>)" "wf_entry e" "entry_type e = TYPE_JUMP \<Longrightarrow> entry_jump_size e \<le> 8"
    if "T p = Some e" for p e
    using same_but_locatorsD [OF s that] node_okD(1,6) [OF shape_okD(2) [where T = T and p = p, OF ok that]] by blast+
  have d: "dom T' = dom T" using s by (simp add: same_but_locators_def)
  have "child_of T' p q = child_of T p q" for p q
  proof (cases "T p")
    case None
    then have "T' p = None" using d by blast
    then show ?thesis using None by (simp add: child_of_def)
  next
    case (Some e)
    then obtain l where l: "T' p = Some (e\<lparr>e_locator := l\<rparr>)" using f by blast
    have "jump_symbols (e\<lparr>e_locator := l\<rparr>) = jump_symbols e" if "entry_type e = TYPE_JUMP"
      using locator_update_jump [OF f(2,3) [OF Some]] that by blast
    then show ?thesis unfolding child_of_def Some l by auto
  qed
  then show "child_of T' = child_of T" by (simp add: fun_eq_iff)
  have "p \<in> leaves T' \<longleftrightarrow> p \<in> leaves T" for p
  proof (cases "T p")
    case None
    then have "T' p = None" using d by blast
    then show ?thesis using None by (simp add: leaves_def)
  next
    case (Some e)
    then show ?thesis using f(1) [OF Some] by (auto simp: leaves_def)
  qed
  then show "leaves T' = leaves T" by blast
  assume "p \<in> dom T"
  then obtain e where e: "T p = Some e" by blast
  from f(1) [OF e] obtain l where l: "T' p = Some (e\<lparr>e_locator := l\<rparr>)" by blast
  show "kv_at T' p = kv_at T p" using locator_update_kv [OF f(2) [OF e]] by (simp add: kv_at_def e l)
  show "loc_of trie' T' p = loc_of trie' T p" by (simp add: loc_of_def e l)
qed

theorem shape_ok_locators:
  assumes ok: "shape_ok heap trie T" and s: "same_but_locators T T'"
  shows "shape_ok heap trie T'"
proof -
  have d: "dom T' = dom T" using s by (simp add: same_but_locators_def)
  note kids = same_kids_locators(1) [OF ok s]
  have link: "\<exists>c'. T' p = Some c' \<and> entry_color c' = entry_color c \<and> e_last_symbol c' = e_last_symbol c \<and>
      entry_parent_color c' = entry_parent_color c" if "T p = Some c" for p c
    using same_but_locatorsD [OF s that] by auto
  have "node_ok heap trie T' p e'" if "T' p = Some e'" for p e'
  proof -
    have "p \<in> dom T'" using that by (rule domI)
    then have "p \<in> dom T" unfolding d .
    then obtain e where e: "T p = Some e" unfolding domIff by auto
    obtain l where l0: "T' p = Some (e\<lparr>e_locator := l\<rparr>)" using same_but_locatorsD [OF s e] ..
    then have l: "e' = e\<lparr>e_locator := l\<rparr>" using that by simp
    note n = shape_okD(2) [where T = T and p = p, OF ok e]
    note wf = node_okD(1) [OF n]
    have "erase_side e' = e'" using node_okD(2) [OF n] by (simp add: l)
    moreover have "jump_child_ok T' p e'" if jump: "entry_type e = TYPE_JUMP"
    proof -
      have "jump_symbols e' = jump_symbols e" using locator_update_jump [OF wf] node_okD(6) [OF n jump] by (simp add: l)
      moreover obtain c where "T (p @ jump_symbols e) = Some c" "entry_color c = entry_child_color e" "\<not> entry_parent_color c < 9"
        using node_okD(6) [OF n jump] by (auto simp: jump_child_ok_def)
      moreover have "entry_child_color e' = entry_child_color e" by (simp add: l)
      ultimately show ?thesis using link unfolding jump_child_ok_def by metis
    qed
    moreover have "bitmap_children_ok T' p e'" if "entry_type e = TYPE_BITMAP"
    proof -
      have "bitmap_children_ok T p e" using node_okD(7) [OF n that] by blast
      moreover have "children e' = children e" "entry_color e' = entry_color e" by (simp_all add: l)
      ultimately show ?thesis using link unfolding bitmap_children_ok_def by metis
    qed
    moreover have "leaf_ok heap p e'" if "leaf_ok heap p e" using that locator_update_kv [OF wf] by (simp add: leaf_ok_def l)
    ultimately show ?thesis using n unfolding node_ok_def by (auto simp: l)
  qed
  moreover have "\<exists>r. T' [] = Some r \<and> \<not> entry_parent_color r < 9" using shape_okD(4,5) [OF ok] link by metis
  ultimately show ?thesis using ok unfolding shape_ok_def kids d by blast
qed

subsection \<open>One more child\<close>

lemma bitmap_free_child:
  assumes ok: "shape_ok heap trie T" and q: "T q = Some e" "entry_type e = TYPE_BITMAP" and s: "s \<notin> children e"
  shows "T (q @ [s]) = None"
proof (rule ccontr)
  assume "T (q @ [s]) \<noteq> None"
  then have "q @ [s] \<in> dom T" "q \<in> dom T" using q by auto
  moreover have "strict_prefix q (q @ [s])" by (simp add: strict_prefix_def)
  ultimately obtain r where r: "child_of T q r" "prefix r (q @ [s])" using child_towards [OF ok] by blast
  then show False using bitmap_child_of [where T = T, OF q] s by auto
qed

text \<open>The bitmap with the child, and the leaf.\<close>

definition graft_ok :: "kv_heap \<Rightarrow> cuckoo_trie \<Rightarrow> shape \<Rightarrow> u64 list \<Rightarrow> u64 \<Rightarrow> ct_entry \<Rightarrow> ct_entry \<Rightarrow> bool" where
  "graft_ok heap trie T q s e' l \<longleftrightarrow> (\<exists>e. T q = Some e \<and> entry_type e = TYPE_BITMAP \<and> s \<le> 32 \<and> s \<notin> children e \<and>
     link e' = link e \<and> entry_type e' = TYPE_BITMAP \<and> wf_entry e' \<and> erase_side e' = e' \<and> entry_tag e' = entry_tag e \<and>
     children e' = insert s (children e) \<and>
     wf_entry l \<and> erase_side l = l \<and> entry_type l = TYPE_LEAF \<and> ucast (entry_tag l) = hash_to_tag (hash_path trie (q @ [s])) \<and>
     leaf_ok heap (q @ [s]) l \<and> e_last_symbol l = ucast s \<and> entry_parent_color l = entry_color e)"

theorem graft_shape:
  assumes ok: "shape_ok heap trie T" and g: "graft_ok heap trie T q s e' l"
  defines "p \<equiv> q @ [s]" and "U \<equiv> T(q \<mapsto> e', q @ [s] \<mapsto> l)"
  shows "shape_ok heap trie U" and "leaves U = insert p (leaves T)" and "p \<notin> dom T"
    and "x \<in> leaves T \<Longrightarrow> kv_at U x = kv_at T x"
proof -
  obtain e where e: "T q = Some e" "entry_type e = TYPE_BITMAP" "s \<le> 32" "s \<notin> children e" "link e' = link e"
    "entry_type e' = TYPE_BITMAP" "wf_entry e'" "erase_side e' = e'" "entry_tag e' = entry_tag e" "children e' = insert s (children e)"
    and l: "wf_entry l" "erase_side l = l" "entry_type l = TYPE_LEAF" "ucast (entry_tag l) = hash_to_tag (hash_path trie p)"
      "leaf_ok heap p l" "e_last_symbol l = ucast s" "entry_parent_color l = entry_color e"
    using g by (auto simp: graft_ok_def p_def)
  have np: "T p = None" unfolding p_def by (rule bitmap_free_child [OF ok e(1,2,4)])
  then show "p \<notin> dom T" by auto
  have qp: "q \<noteq> p" "p \<noteq> []" by (simp_all add: p_def)
  have U: "U q = Some e'" "U p = Some l" "x \<noteq> q \<Longrightarrow> x \<noteq> p \<Longrightarrow> U x = T x" for x
    using qp by (simp_all add: U_def p_def)
  have dom: "dom U = insert p (dom T)" using e(1) by (auto simp: U_def p_def)
  show L: "leaves U = insert p (leaves T)" using e(1,2,6) l(3) by (auto simp: leaves_def U_def p_def)
  show "kv_at U x = kv_at T x" if "x \<in> leaves T"
  proof -
    have "x \<noteq> q" "x \<noteq> p" using that e(1,2) np by (auto simp: leaves_def)
    then show ?thesis using U(3) by (simp add: kv_at_def)
  qed
  have link: "\<exists>c'. U x = Some c' \<and> entry_color c' = entry_color c \<and> e_last_symbol c' = e_last_symbol c \<and>
      entry_parent_color c' = entry_parent_color c" if "T x = Some c" for x c
  proof -
    have "x \<noteq> p" using that np by auto
    then show ?thesis using that U(1,3) e(1,5) by (cases "x = q") (auto simp: link_def)
  qed
  note nq = shape_okD(2) [where T = T and p = q, OF ok e(1)]
  have "node_ok heap trie U x c" if "U x = Some c" for x c
  proof -
    consider "x = p" | "x = q" | "x \<noteq> p" "x \<noteq> q" by blast
    then show ?thesis
    proof cases
      case 1
      have "\<forall>s\<in>set p. s \<le> 32" using node_okD(4) [OF nq] e(3) by (simp add: p_def)
      then show ?thesis using 1 that U(2) l by (simp add: node_ok_def)
    next
      case 2
      then have c: "c = e'" using that U(1) by simp
      have "\<exists>d. U (q @ [t]) = Some d \<and> e_last_symbol d = ucast t \<and> entry_parent_color d = entry_color e'" if "t \<in> children e'" for t
      proof (cases "t = s")
        case True
        then show ?thesis using U(2) l(6,7) e(5) by (simp add: p_def link_def)
      next
        case False
        then have "t \<in> children e" using that e(10) by simp
        then obtain d where "T (q @ [t]) = Some d" "e_last_symbol d = ucast t" "entry_parent_color d = entry_color e"
          using node_okD(7) [OF nq e(2)] by (auto simp: bitmap_children_ok_def)
        then show ?thesis using link e(5) by (fastforce simp: link_def)
      qed
      then show ?thesis using node_okD(3,4) [OF nq] e 2 unfolding c node_ok_def bitmap_children_ok_def by auto
    next
      case 3
      then have x: "T x = Some c" using that U(3) by simp
      note n = shape_okD(2) [where T = T and p = x, OF ok x]
      have "jump_child_ok U x c" if "jump_child_ok T x c" using that link unfolding jump_child_ok_def by metis
      moreover have "bitmap_children_ok U x c" if "bitmap_children_ok T x c"
        using that link unfolding bitmap_children_ok_def by metis
      ultimately show ?thesis using n unfolding node_ok_def by blast
    qed
  qed
  moreover have "\<exists>r. U [] = Some r \<and> \<not> entry_parent_color r < 9" using shape_okD(4,5) [OF ok] link by metis
  moreover have "finite (dom U)" using shape_okD(1) [OF ok] dom by simp
  moreover have "\<exists>y. child_of U y x" if x: "x \<in> dom U" "x \<noteq> []" for x
  proof (cases "x = p")
    case True
    then show ?thesis using U(1) e(6,10) by (auto simp: child_of_def p_def)
  next
    case False
    then have "x \<in> dom T" using x dom by simp
    then obtain y where y: "child_of T y x" using shape_okD(3) [OF ok _ x(2)] by blast
    then have "y \<noteq> p" using child_of_in_shape(1) [OF ok y] np by auto
    then have "child_of U y x" using y U(1,3) e by (cases "y = q") (auto simp: child_of_def)
    then show ?thesis by blast
  qed
  ultimately show "shape_ok heap trie U" unfolding shape_ok_def by blast
qed

end
