(* ===== verification/NewLeaf.thy ===== *)
theory NewLeaf
  imports Graft
begin

text \<open>
  The list of the leaves with one more member: the new leaf takes over the link of its
  predecessor, which then leads to the new leaf; the inner nodes above it may have a new
  greatest leaf.
\<close>

subsection \<open>Links in the larger shape\<close>

lemma graft_dom:
  assumes "graft_ok heap trie T q s e' l" and "same_but_locators (T(q \<mapsto> e', q @ [s] \<mapsto> l)) T'"
  shows "dom T' = insert (q @ [s]) (dom T)"
  using assms by (auto simp: graft_ok_def same_but_locators_def)

lemma graft_node:
  assumes g: "graft_ok heap trie T q s e' l" and sb: "same_but_locators (T(q \<mapsto> e', q @ [s] \<mapsto> l)) T'"
    and x: "T x = Some c" and p: "T (q @ [s]) = None"
  shows "\<exists>c' k. T' x = Some (c'\<lparr>e_locator := k\<rparr>) \<and> entry_color c' = entry_color c \<and> entry_type c' = entry_type c \<and>
    (if x = q then c' = e' else c' = c)"
proof (cases "x = q")
  case True
  have "(T(q \<mapsto> e', q @ [s] \<mapsto> l)) x = Some e'" using True by simp
  from same_but_locatorsD [OF sb this] show ?thesis using g x True by (auto simp: graft_ok_def link_def)
next
  case False
  then have "(T(q \<mapsto> e', q @ [s] \<mapsto> l)) x = Some c" using x p by auto
  from same_but_locatorsD [OF sb this] show ?thesis using False by auto
qed

lemma links_first_subset:
  assumes f: "frame trie' = frame trie" and loc: "\<And>x. x \<in> dom T \<Longrightarrow> entry_color (the (T' x)) = entry_color (the (T x))"
    and S: "finite S" "S \<subseteq> dom T"
  shows "links_first trie' T' S k = links_first trie T S k"
proof (cases "S = {}")
  case False
  then have "Min S \<in> dom T" using S Min_in by blast
  from loc_of_cong [where T = T and T' = T' and p = "Min S", OF f loc [OF this]] show ?thesis
    using False by (simp add: links_first_def)
qed (simp add: links_first_def)

text \<open>The new leaf is the first one behind its predecessor; behind a smaller leaf nothing changes.\<close>

lemma after_graft:
  assumes ok: "shape_ok heap trie T" and L: "leaves T' = insert p (leaves T)" and p: "p \<notin> leaves T"
  shows "after T' p = {x \<in> leaves T. \<not> x < p}"
    and "x \<in> leaves T \<Longrightarrow> p < x \<Longrightarrow> after T' x = after T x"
    and "x \<in> leaves T \<Longrightarrow> x < p \<Longrightarrow> x \<noteq> Max (before T p) \<Longrightarrow> after T x \<noteq> {} \<and> Min (after T' x) = Min (after T x) \<and> Min (after T x) \<in> leaves T"
    and "before T p \<noteq> {} \<Longrightarrow> Min (after T' (Max (before T p))) = p"
    and "before T p = {} \<Longrightarrow> Min (leaves T') = p" and "before T p \<noteq> {} \<Longrightarrow> Min (leaves T') = Min (leaves T)"
proof -
  note fin = finite_leaves [OF ok]
  have finA: "finite (after T x)" for x using fin by (simp add: after_def)
  have up: "after T' x = (if x < p then insert p (after T x) else after T x)" for x
    using L by (auto simp: after_def)
  show "after T' p = {x \<in> leaves T. \<not> x < p}" using L p by (auto simp: after_def not_less order.order_iff_strict)
  show "x \<in> leaves T \<Longrightarrow> p < x \<Longrightarrow> after T' x = after T x" using up by auto
  show "after T x \<noteq> {} \<and> Min (after T' x) = Min (after T x) \<and> Min (after T x) \<in> leaves T"
    if x: "x \<in> leaves T" "x < p" "x \<noteq> Max (before T p)"
  proof -
    let ?m = "Max (before T p)"
    have ne: "before T p \<noteq> {}" using x by (auto simp: before_def)
    note m = Max_before [OF ok ne]
    have "x \<le> ?m" using m(3) x by blast
    then have mem: "?m \<in> after T x" using m(1) x(3) by (auto simp: after_def)
    then have "Min (after T x) \<le> ?m" using finA by simp
    then have lt: "Min (after T x) < p" using m(2) by simp
    have "Min (insert p (after T x)) = Min (after T x)" using finA mem lt by (subst Min_insert) (auto simp: min_def)
    moreover have "Min (after T x) \<in> after T x" using finA mem by (intro Min_in) auto
    ultimately show ?thesis using up x(2) mem by (auto simp: after_def)
  qed
  show "Min (after T' (Max (before T p))) = p" if ne: "before T p \<noteq> {}"
  proof -
    let ?m = "Max (before T p)"
    note m = Max_before [OF ok ne]
    have "p \<le> x" if "x \<in> after T ?m" for x using that m(3) [of x] by (force simp: after_def)
    then have "Min (insert p (after T ?m)) = p" using finA by (intro Min_eqI) auto
    then show ?thesis using up m(2) by simp
  qed
  show "Min (leaves T') = p" if "before T p = {}"
    using that fin unfolding L by (intro Min_eqI) (auto simp: before_def not_less)
  show "Min (leaves T') = Min (leaves T)" if ne: "before T p \<noteq> {}"
  proof -
    obtain x where x: "x \<in> leaves T" "x < p" using ne by (auto simp: before_def)
    then have "Min (leaves T) < p" using fin Min_le [OF fin x(1)] by (metis order.strict_trans1)
    then show ?thesis using fin x unfolding L by (subst Min_insert) (auto simp: min_def)
  qed
qed

subsection \<open>The list\<close>

theorem graft_listed:
  assumes sh: "trie_shape heap trie T" and ls: "listed trie T" and g: "graft_ok heap trie T q s e' l"
    and new: "max_child e' = ucast (Max (children e'))" "\<not> entry_dirty e'" "\<not> entry_dirty l"
    and f: "frame trie' = frame trie"
  defines "p \<equiv> q @ [s]"
  assumes sb: "same_but_locators (T(q \<mapsto> e', p \<mapsto> l)) T'"
    and own: "links_first trie T {x \<in> leaves T. \<not> x < p} (e_locator (the (T' p)))"
    and pred: "before T p \<noteq> {} \<Longrightarrow> e_locator (the (T' (Max (before T p)))) = loc_of trie T' p"
    and others: "\<And>x. x \<in> leaves T \<Longrightarrow> before T p = {} \<or> x \<noteq> Max (before T p) \<Longrightarrow> e_locator (the (T' x)) = e_locator (the (T x))"
    and inner: "\<And>x. x \<in> dom T - leaves T \<Longrightarrow> e_locator (the (T' x)) = loc_of trie T' (Max (below T' x))"
    and min: "cell trie' (trie_min_leaf trie') =
      (let m = cell trie (trie_min_leaf trie) in if before T p = {} then m\<lparr>e_locator := loc_of trie T' p\<rparr> else m)"
  shows "listed trie' T'"
proof -
  note ok = trie_shapeD(4) [OF sh]
  note G = graft_shape [OF ok g, folded p_def]
  have np: "T p = None" using G(3) by blast
  have sb': "same_but_locators (T(q \<mapsto> e', q @ [s] \<mapsto> l)) T'" using sb by (simp add: p_def)
  have D: "dom T' = insert p (dom T)" unfolding p_def by (rule graft_dom [OF g sb'])
  have L: "leaves T' = insert p (leaves T)" using same_kids_locators(2) [OF G(1) sb] G(2) by simp
  have pl: "p \<notin> leaves T" using G(3) leaves_dom by blast
  note A = after_graft [OF ok L pl]
  note node = graft_node [OF g sb' _ np [unfolded p_def]]
  have col: "entry_color (the (T' x)) = entry_color (the (T x))" if "x \<in> dom T" for x
    using that node by fastforce
  have loc: "loc_of trie' T' x = loc_of trie T' x" for x by (rule loc_of_cong [OF f refl])
  have sub: "links_first trie' T' S k = links_first trie T S k" if "finite S" "S \<subseteq> dom T" for S k
    by (rule links_first_subset [OF f _ that]) (rule col)
  have fin: "finite (after T x)" "after T x \<subseteq> dom T" for x
    using finite_leaves [OF ok] leaves_dom by (auto simp: after_def)
  have 1: "links_first trie' T' (after T' x) (next_leaf (the (T' x)))" if "x \<in> leaves T'" for x
  proof (cases "x = p")
    case True
    have "{x \<in> leaves T. \<not> x < p} \<subseteq> dom T" using leaves_dom by blast
    then show ?thesis using own A(1) sub [where S = "{x \<in> leaves T. \<not> x < p}"] finite_leaves [OF ok] True by simp
  next
    case False
    then have x: "x \<in> leaves T" using that L by simp
    then obtain c where c: "T x = Some c" by (auto simp: leaves_def)
    have old: "links_first trie T (after T x) (e_locator (the (T x)))" using listedD(2) [OF ls x c] c by simp
    consider "p < x" | "x < p" "x = Max (before T p)" | "x < p" "x \<noteq> Max (before T p)" using False by fastforce
    then show ?thesis
    proof cases
      case 1
      have "before T p = {} \<or> x \<noteq> Max (before T p)" using 1 Max_before(2) [OF ok, of p] by fastforce
      then show ?thesis using old others [OF x] A(2) [OF x 1] sub [OF fin] by simp
    next
      case 2
      then have ne: "before T p \<noteq> {}" using x by (auto simp: before_def)
      have "p \<in> after T' x" using L 2 by (simp add: after_def)
      then show ?thesis using pred [OF ne] A(4) [OF ne] loc 2(2) unfolding links_first_def by auto
    next
      case 3
      have "after T' x \<noteq> {}" using L 3 by (auto simp: after_def)
      moreover have "loc_of trie' T' (Min (after T x)) = loc_of trie T (Min (after T x))"
        using A(3) [OF x 3] by (intro loc_of_cong [OF f col] leaves_dom) blast
      ultimately show ?thesis using old others [OF x] 3 A(3) [OF x 3] by (simp add: links_first_def)
    qed
  qed
  have 2: "max_leaf (the (T' x)) = loc_of trie' T' (Max (below T' x))" if "x \<in> dom T' - leaves T'" for x
    using inner [of x] that D L loc by auto
  have 3: "max_child (the (T' x)) = ucast (Max (children (the (T' x))))"
    if x: "x \<in> dom T'" "entry_type (the (T' x)) = TYPE_BITMAP" for x
  proof -
    have "x \<noteq> p"
    proof
      assume "x = p"
      then have "p \<in> leaves T'" using L by simp
      then show False using x(2) \<open>x = p\<close> by (auto simp: leaves_def)
    qed
    then obtain c where c: "T x = Some c" using x(1) D by auto
    from node [OF this] obtain c' k where k: "T' x = Some (c'\<lparr>e_locator := k\<rparr>)" "entry_type c' = entry_type c"
      "if x = q then c' = e' else c' = c" by blast
    have "entry_type c = TYPE_BITMAP" using x(2) k by simp
    then have "max_child c' = ucast (Max (children c'))" using k(3) new(1) listedD(6) [OF ls c] by (auto split: if_splits)
    then show ?thesis using k(1) by simp
  qed
  have 4: "\<not> entry_dirty (the (T' x))" if x: "x \<in> dom T'" for x
  proof (cases "x = p")
    case True
    have "(T(q \<mapsto> e', p \<mapsto> l)) p = Some l" by simp
    from same_but_locatorsD [OF sb this] show ?thesis using new(3) True by auto
  next
    case False
    then obtain c where c: "T x = Some c" using x D by auto
    from node [OF this] obtain c' k where k: "T' x = Some (c'\<lparr>e_locator := k\<rparr>)" "if x = q then c' = e' else c' = c" by blast
    then have "\<not> entry_dirty c'" using new(2) listedD(4) [OF ls c] by (auto split: if_splits)
    then show ?thesis using k(1) by simp
  qed
  have 5: "min_leaf_ok trie' T' (cell trie' (trie_min_leaf trie'))"
  proof -
    let ?m = "cell trie (trie_min_leaf trie)"
    note m = listedD(5) [OF ls, unfolded min_leaf_ok_def]
    show ?thesis
    proof (cases "before T p = {}")
      case True
      have "leaves T' \<noteq> {}" using L by simp
      then have "links_first trie' T' (leaves T') (loc_of trie T' p)" using A(5) [OF True] loc by (simp add: links_first_def)
      then show ?thesis using min m True by (simp add: Let_def min_leaf_ok_def)
    next
      case False
      then have ne: "leaves T \<noteq> {}" "leaves T' \<noteq> {}" using L by (auto simp: before_def)
      then have "Min (leaves T) \<in> dom T" using finite_leaves [OF ok] leaves_dom by (meson Min_in)
      then have "loc_of trie' T' (Min (leaves T)) = loc_of trie T (Min (leaves T))" by (intro loc_of_cong [OF f col])
      then have "links_first trie' T' (leaves T') (next_leaf ?m)" using m A(6) [OF False] ne by (simp add: links_first_def)
      then show ?thesis using min m False by (simp add: Let_def min_leaf_ok_def)
    qed
  qed
  have "unat (num_buckets trie') < 2 ^ 32" using listedD(1) [OF ls] frame_fields(1) [OF f] by simp
  then show ?thesis unfolding listed_def using 1 2 3 4 5 by blast
qed

end
