(* ===== verification/Propagate.thy ===== *)
theory Propagate
  imports NewLeaf
begin

text \<open>
  \<open>propagate_max_leaf\<close> on shapes: along the path upwards each node takes over the locator of
  the greatest leaf from its child, until the child is not the greatest one. Afterwards every
  node of the path has the locator of its greatest leaf.
\<close>

subsection \<open>The function on shapes\<close>

primrec propagate_shape :: "u64 list list \<Rightarrow> nat \<Rightarrow> shape \<Rightarrow> shape" where
  "propagate_shape qs 0 T = T"
| "propagate_shape qs (Suc i) T =
     (let child = the (T (qs ! Suc i)); parent = the (T (qs ! i))
      in if entry_type parent = TYPE_BITMAP \<and> e_last_symbol child < max_child parent then T
         else propagate_shape qs i (T(qs ! i \<mapsto> parent\<lparr>e_locator := e_locator child\<rparr>)))"

lemma propagate_other: "(\<And>j. j < i \<Longrightarrow> x \<noteq> qs ! j) \<Longrightarrow> propagate_shape qs i T x = T x"
  by (induction i arbitrary: T) (auto simp: Let_def)

lemma propagate_same:
  assumes "same_but_locators U T" and "\<And>j. j < i \<Longrightarrow> qs ! j \<in> dom U"
  shows "same_but_locators U (propagate_shape qs i T)"
  using assms
proof (induction i arbitrary: T)
  case (Suc i)
  have "dom T = dom U" using Suc.prems(1) by (simp add: same_but_locators_def)
  then obtain e where e: "T (qs ! i) = Some e" using Suc.prems(2) [of i] by auto
  note upd = same_but_locators_upd [OF Suc.prems(1) e]
  have "same_but_locators U (propagate_shape qs i (T(qs ! i \<mapsto> e\<lparr>e_locator := l\<rparr>)))" for l
    by (intro Suc.IH upd) (use Suc.prems(2) in simp)
  then show ?case using Suc.prems(1) e by (simp add: Let_def)
qed simp

subsection \<open>The greatest leaf of a node\<close>

lemma Max_below_child:
  assumes ok: "shape_ok heap trie T" and e: "T p = Some e" "entry_type e = TYPE_BITMAP"
    and s: "s \<in> children e" "\<And>u. u \<in> children e \<Longrightarrow> u \<le> s"
  shows "Max (below T p) = Max (below T (p @ [s]))"
proof -
  let ?m = "Max (below T (p @ [s]))"
  have "p @ [s] \<in> dom T" using child_of_in_shape(2) [OF ok, of p] bitmap_child_of [where T = T and p = p, OF e] s(1) by blast
  then have m: "?m \<in> below T (p @ [s])" by (intro Max_in finite_below [OF ok] below_nonempty [OF ok])
  then obtain w where w: "?m = p @ s # w" by (auto simp: below_def prefix_def)
  show ?thesis
  proof (rule Max_eqI [OF finite_below [OF ok]])
    show "?m \<in> below T p" using m s(1) below_bitmap [where T = T and p = p, OF ok e] by blast
    fix l assume "l \<in> below T p"
    then obtain u where u: "u \<in> children e" "l \<in> below T (p @ [u])" using below_bitmap [where T = T and p = p, OF ok e] by blast
    then obtain v where v: "l = p @ u # v" by (auto simp: below_def prefix_def)
    consider "u = s" | "u < s" using s(2) [OF u(1)] by fastforce
    then show "l \<le> ?m"
    proof cases
      case 1
      then show ?thesis using u(2) finite_below [OF ok] by simp
    next
      case 2
      then show ?thesis unfolding w v using fork_less' by (intro less_imp_le)
    qed
  qed
qed

lemma greater_child_leaf:
  assumes ok: "shape_ok heap trie T" and e: "T p = Some e" "entry_type e = TYPE_BITMAP"
    and u: "u \<in> children e" "t < u" and x: "prefix x p" and l: "prefix (p @ [t]) l"
  shows "l < Max (below T x)"
proof -
  have "p @ [u] \<in> dom T" using child_of_in_shape(2) [OF ok, of p] bitmap_child_of [where T = T and p = p, OF e] u(1) by blast
  then obtain k where k: "k \<in> below T (p @ [u])" using below_nonempty [OF ok] by blast
  then obtain v where v: "k = p @ u # v" by (auto simp: below_def prefix_def)
  obtain w where w: "l = p @ t # w" using l by (auto simp: prefix_def)
  have "k \<in> below T x" using k x by (auto simp: below_def prefix_def)
  then have "k \<le> Max (below T x)" by (rule Max_ge [OF finite_below [OF ok]])
  moreover have "l < k" unfolding v w by (rule fork_less' [OF u(2)])
  ultimately show ?thesis by simp
qed

text \<open>The locator of a node is that of its greatest leaf; the shape \<open>U\<close> says which that is.\<close>

definition max_leaf_right :: "cuckoo_trie \<Rightarrow> shape \<Rightarrow> shape \<Rightarrow> u64 list \<Rightarrow> bool" where
  "max_leaf_right trie U T x \<longleftrightarrow> e_locator (the (T x)) = loc_of trie U (Max (below U x))"

definition max_children_right :: "shape \<Rightarrow> bool" where
  "max_children_right U \<longleftrightarrow>
     (\<forall>x e. U x = Some e \<and> entry_type e = TYPE_BITMAP \<longrightarrow> max_child e = ucast (Max (children e)))"

definition chain_on :: "shape \<Rightarrow> u64 list list \<Rightarrow> nat \<Rightarrow> bool" where
  "chain_on U qs i \<longleftrightarrow> (\<forall>j<i. child_of U (qs ! j) (qs ! Suc j))"

lemma chain_strict:
  assumes ok: "shape_ok heap trie U" and c: "chain_on U qs i"
  shows "j < k \<Longrightarrow> k \<le> i \<Longrightarrow> strict_prefix (qs ! j) (qs ! k)"
proof (induction k)
  case (Suc k)
  then have step: "strict_prefix (qs ! k) (qs ! Suc k)" using c child_of_strict [OF ok] by (simp add: chain_on_def)
  show ?case
  proof (cases "j = k")
    case False
    then have "strict_prefix (qs ! j) (qs ! k)" using Suc by simp
    then show ?thesis using step by (rule prefix_order.less_trans)
  qed (use step in simp)
qed simp

lemma chain_node:
  assumes ok: "shape_ok heap trie U" and c: "chain_on U qs (Suc i)" and sb: "same_but_locators U T"
    and mc: "max_children_right U"
  defines "parent \<equiv> the (T (qs ! i))" and "child \<equiv> the (T (qs ! Suc i))"
  shows "if entry_type parent = TYPE_BITMAP \<and> e_last_symbol child < max_child parent
    then \<exists>e t u. U (qs ! i) = Some e \<and> entry_type e = TYPE_BITMAP \<and> qs ! Suc i = qs ! i @ [t] \<and> u \<in> children e \<and> t < u
    else Max (below U (qs ! i)) = Max (below U (qs ! Suc i))"
proof -
  have ch: "child_of U (qs ! i) (qs ! Suc i)" using c by (simp add: chain_on_def)
  then obtain e where e: "U (qs ! i) = Some e" by (auto simp: child_of_def)
  obtain c where c: "U (qs ! Suc i) = Some c" using child_of_in_shape(2) [OF ok ch] by blast
  obtain k where k: "T (qs ! i) = Some (e\<lparr>e_locator := k\<rparr>)" using same_but_locatorsD [OF sb e] by blast
  obtain k' where k': "T (qs ! Suc i) = Some (c\<lparr>e_locator := k'\<rparr>)" using same_but_locatorsD [OF sb c] by blast
  have P: "entry_type parent = entry_type e" "max_child parent = max_child e" "e_last_symbol child = e_last_symbol c"
    by (simp_all add: parent_def child_def k k')
  note n = shape_okD(2) [where T = U and p = "qs ! i", OF ok e]
  consider (jump) "entry_type e = TYPE_JUMP" "qs ! Suc i = qs ! i @ jump_symbols e"
    | (bitmap) t where "entry_type e = TYPE_BITMAP" "t \<in> children e" "qs ! Suc i = qs ! i @ [t]" using ch e by (auto simp: child_of_def)
  then show ?thesis
  proof cases
    case jump
    then show ?thesis using before_jump(2) [where T = U and p = "qs ! i", OF ok e] P(1) by simp
  next
    case bitmap
    let ?u = "Max (children e)"
    have fin: "finite (children e)" by simp
    have u: "?u \<in> children e" using fin bitmap(2) by (intro Max_in) auto
    have le: "x \<le> ?u" if "x \<in> children e" for x using fin that by simp
    have "bitmap_children_ok U (qs ! i) e" using node_okD(7) [OF n bitmap(1)] by blast
    then have "e_last_symbol c = ucast t" using bitmap(2,3) c by (auto simp: bitmap_children_ok_def)
    moreover have "max_child e = ucast ?u" using mc e bitmap(1) by (auto simp: max_children_right_def)
    moreover have "(ucast t :: u8) < ucast ?u \<longleftrightarrow> t < ?u"
      using unat_small_byte [of t] unat_small_byte [of ?u] bitmap(2) u by (simp add: word_less_nat_alt children_def)
    ultimately have sym: "e_last_symbol child < max_child parent \<longleftrightarrow> t < ?u" using P by simp
    show ?thesis
    proof (cases "t < ?u")
      case True
      then show ?thesis using P(1) bitmap e u sym by auto
    next
      case False
      then have "t = ?u" using le [OF bitmap(2)] by simp
      then have "Max (below U (qs ! i)) = Max (below U (qs ! Suc i))"
        using Max_below_child [where T = U and p = "qs ! i", OF ok e bitmap(1) u le] bitmap(3) by simp
      then show ?thesis using False sym by simp
    qed
  qed
qed

theorem propagate_max:
  assumes ok: "shape_ok heap trie U"
    and mc: "max_children_right U"
    and p: "prefix (qs ! i) p" and c: "chain_on U qs i" and sb: "same_but_locators U T"
    and base: "max_leaf_right trie U T (qs ! i)"
    and old: "\<And>j. j < i \<Longrightarrow> Max (below U (qs ! j)) \<noteq> p \<Longrightarrow> max_leaf_right trie U T (qs ! j)"
  shows "j \<le> i \<Longrightarrow> max_leaf_right trie U (propagate_shape qs i T) (qs ! j)"
  using p c sb base old
proof (induction i arbitrary: T j)
  case (Suc i)
  let ?parent = "the (T (qs ! i))" and ?child = "the (T (qs ! Suc i))"
  note step = chain_node [OF ok Suc.prems(3,4) mc]
  show ?case
  proof (cases "entry_type ?parent = TYPE_BITMAP \<and> e_last_symbol ?child < max_child ?parent")
    case True
    then obtain e t u where e: "U (qs ! i) = Some e" "entry_type e = TYPE_BITMAP" "qs ! Suc i = qs ! i @ [t]"
      "u \<in> children e" "t < u" using step unfolding if_P [OF True] by blast
    have "max_leaf_right trie U T (qs ! j)" if "j < Suc i"
    proof (rule Suc.prems(6) [OF that])
      have "prefix (qs ! j) (qs ! i)"
        using chain_strict [OF ok Suc.prems(3), of j i] that by (cases "j = i") (auto simp: strict_prefix_def)
      then show "Max (below U (qs ! j)) \<noteq> p"
        using greater_child_leaf [where T = U and p = "qs ! i", OF ok e(1,2,4,5)] Suc.prems(2) e(3) by fastforce
    qed
    then show ?thesis using True Suc.prems(1,5) by (cases "j = Suc i") (simp_all add: Let_def)
  next
    case False
    have same: "Max (below U (qs ! i)) = Max (below U (qs ! Suc i))" using step unfolding if_not_P [OF False] .
    let ?T = "T(qs ! i \<mapsto> ?parent\<lparr>e_locator := e_locator ?child\<rparr>)"
    have r: "propagate_shape qs (Suc i) T = propagate_shape qs i ?T"
      unfolding propagate_shape.simps Let_def if_not_P [OF False] ..
    have d: "dom T = dom U" using Suc.prems(4) by (simp add: same_but_locators_def)
    have ch: "child_of U (qs ! i) (qs ! Suc i)" using Suc.prems(3) by (simp add: chain_on_def)
    then obtain e where e: "T (qs ! i) = Some e" using child_of_in_shape(1) [OF ok ch] d by blast
    have sb': "same_but_locators U ?T" using same_but_locators_upd [OF Suc.prems(4) e] e by simp
    have ne: "qs ! k \<noteq> qs ! i" if "k < i" for k
      using chain_strict [OF ok Suc.prems(3) that] by auto
    have ne': "qs ! Suc i \<noteq> qs ! k" if "k \<le> i" for k
      using chain_strict [OF ok Suc.prems(3), of k "Suc i"] that by auto
    show ?thesis
    proof (cases "j = Suc i")
      case True
      have "propagate_shape qs i ?T (qs ! Suc i) = T (qs ! Suc i)" using propagate_other [of i "qs ! Suc i" qs ?T] ne' by simp
      then show ?thesis using Suc.prems(5) r True by (simp add: max_leaf_right_def)
    next
      case False
      have a: "prefix (qs ! i) p"
        using child_of_strict [OF ok ch] Suc.prems(2) by (auto simp: strict_prefix_def intro: prefix_order.trans)
      have b: "chain_on U qs i" using Suc.prems(3) by (simp add: chain_on_def)
      have c: "max_leaf_right trie U ?T (qs ! i)" using Suc.prems(5) same by (simp add: max_leaf_right_def)
      have d: "max_leaf_right trie U ?T (qs ! k)" if "k < i" "Max (below U (qs ! k)) \<noteq> p" for k
        using Suc.prems(6) [of k] that ne by (simp add: max_leaf_right_def)
      have "j \<le> i" using False Suc.prems(1) by simp
      then show ?thesis unfolding r by (rule Suc.IH [OF _ a b sb' c]) (rule d)
    qed
  qed
qed simp

text \<open>The path holds every node above its end.\<close>

lemma chain_covers:
  assumes ok: "shape_ok heap trie U" and c: "chain_on U qs n" and h: "qs ! 0 = []" and x: "x \<in> dom U" "prefix x (qs ! n)"
  shows "\<exists>j\<le>n. x = qs ! j"
proof -
  have "\<exists>j\<le>k. x = qs ! j" if "k \<le> n" "prefix x (qs ! k)" for k
    using that
  proof (induction k)
    case 0
    then show ?case using h by simp
  next
    case (Suc k)
    have ch: "child_of U (qs ! k) (qs ! Suc k)" using c Suc.prems(1) by (simp add: chain_on_def)
    consider "x = qs ! Suc k" | "prefix x (qs ! k)" | "strict_prefix x (qs ! Suc k)" "strict_prefix (qs ! k) x"
      using prefix_same_cases [OF Suc.prems(2), of "qs ! k"] child_of_strict [OF ok ch] Suc.prems(2)
      by (auto simp: strict_prefix_def)
    then show ?case
    proof cases
      case 2
      then show ?thesis using Suc by (meson Suc_leD le_SucI)
    next
      case 3
      obtain r where r: "child_of U (qs ! k) r" "prefix r x"
        using child_towards [OF ok child_of_in_shape(1) [OF ok ch] x(1) 3(2)] by blast
      have "length r = length (qs ! Suc k)" using r(1) ch by (auto simp: child_of_def)
      moreover have "length r < length (qs ! Suc k)"
        using prefix_length_le [OF r(2)] prefix_length_less [OF 3(1)] by simp
      ultimately show ?thesis by simp
    qed blast
  qed
  then show ?thesis using x(2) by blast
qed

end
