(* ===== verification/GraftLeaf.thy ===== *)
theory GraftLeaf
  imports Propagate
begin

text \<open>
  The whole change of an insertion below a bitmap, on the level of shapes: the bitmap and the
  leaf are grafted, the predecessor is linked to the leaf, and the greatest leaf is propagated.
\<close>

definition link_leaf :: "shape \<Rightarrow> u64 list \<Rightarrow> ct_entry_locator \<Rightarrow> shape" where
  "link_leaf T p k =
     (if before T p = {} then T
      else T(Max (before T p) \<mapsto> (the (T (Max (before T p))))\<lparr>e_locator := k\<rparr>))"

definition grafted :: "shape \<Rightarrow> u64 list \<Rightarrow> u64 \<Rightarrow> ct_entry \<Rightarrow> ct_entry \<Rightarrow> shape" where
  "grafted T q s e' l = T(q \<mapsto> e', q @ [s] \<mapsto> l)"

lemma child_of_grafted:
  assumes ok: "shape_ok heap trie T" and g: "graft_ok heap trie T q s e' l" and c: "child_of T x y"
  shows "child_of (grafted T q s e' l) x y"
proof -
  have "x \<noteq> q @ [s]" using graft_shape(3) [OF ok g] c by (auto simp: child_of_def)
  then show ?thesis using c g by (cases "x = q") (auto simp: child_of_def grafted_def graft_ok_def)
qed

lemma before_grafted:
  assumes "leaves U = insert p (leaves T)"
  shows "before U p = before T p"
  using assms by (auto simp: before_def)

lemma below_grafted:
  assumes "leaves U = insert p (leaves T)"
  shows "below U x = (if prefix x p then insert p (below T x) else below T x)"
  using assms by (auto simp: below_def)

text \<open>The locator of the bitmap, as \<open>mark_bitmap_child\<close> leaves it.\<close>

lemma bitmap_max_leaf:
  assumes sh: "trie_shape heap trie T" and ls: "listed trie T" and g: "graft_ok heap trie T q s e' l"
    and e: "T q = Some e"
    and new: "max_child e' = (if ucast (max_child e) < s then ucast s else max_child e)"
      "e_locator e' = (if ucast (max_child e) < s then loc_of trie (grafted T q s e' l) (q @ [s]) else e_locator e)"
  shows "max_child e' = ucast (Max (children e'))"
    and "e_locator e' = loc_of trie (grafted T q s e' l) (Max (below (grafted T q s e' l) q))"
proof -
  let ?U = "grafted T q s e' l" and ?p = "q @ [s]" and ?m = "Max (children e)"
  note ok = trie_shapeD(4) [OF sh]
  note G = graft_shape [OF ok g, folded grafted_def]
  have f: "entry_type e = TYPE_BITMAP" "s \<le> 32" "s \<notin> children e" "entry_type e' = TYPE_BITMAP" "children e' = insert s (children e)"
    "entry_color e' = entry_color e" using g e by (auto simp: graft_ok_def link_def)
  have fin: "finite (children e)" by simp
  have ne: "children e \<noteq> {}" using node_okD(7) [OF shape_node [OF sh e] f(1)] by blast
  have m: "?m \<in> children e" "?m \<le> 32" using Max_in [OF fin ne] by (simp_all add: children_def)
  have le: "u \<le> ?m" if "u \<in> children e" for u using fin that by simp
  have old: "max_child e = ucast ?m" by (rule listedD(6) [OF ls e f(1)])
  have round: "(ucast (ucast ?m :: u8) :: u64) = ?m" using symbol_byte m(2) by blast
  have Uq: "?U q = Some e'" by (simp add: grafted_def)
  show mc: "max_child e' = ucast (Max (children e'))"
  proof -
    have "Max (children e') = max s ?m" unfolding f(5) by (rule Max_insert [OF fin ne])
    moreover have "max_child e' = (if ?m < s then ucast s else ucast ?m)" unfolding new(1) old round ..
    ultimately show ?thesis by (auto simp: max_def)
  qed
  show "e_locator e' = loc_of trie ?U (Max (below ?U q))"
  proof (cases "?m < s")
    case True
    have "u \<le> s" if "u \<in> children e'" for u
    proof (cases "u = s")
      case False
      then have "u \<le> ?m" using le that f(5) by blast
      then show ?thesis using True by (rule order.trans [OF _ less_imp_le])
    qed simp
    then have "Max (below ?U q) = Max (below ?U ?p)"
      using f(5) by (intro Max_below_child [where T = ?U and p = q, OF G(1) Uq f(4)]) auto
    moreover have "below ?U ?p = {?p}" using below_leaf [OF G(1)] G(2) by simp
    ultimately show ?thesis using new(2) old round True by simp
  next
    case False
    have lt: "s \<noteq> ?m" using m(1) f(3) by auto
    have "u \<le> ?m" if "u \<in> children e'" for u using le that f(5) False by (cases "u = s") (simp_all add: not_less)
    then have "Max (below ?U q) = Max (below ?U (q @ [?m]))"
      using m(1) f(5) by (intro Max_below_child [where T = ?U and p = q, OF G(1) Uq f(4)]) auto
    also have "below ?U (q @ [?m]) = below T (q @ [?m])" using below_grafted [OF G(2)] lt by simp
    also have "Max (below T (q @ [?m])) = Max (below T q)"
      by (rule Max_below_child [where T = T and p = q, OF ok e f(1) m(1) le, symmetric])
    finally have same: "Max (below ?U q) = Max (below T q)" .
    have "Max (below T q) \<in> leaves T"
      using Max_in [OF finite_below [OF ok] below_nonempty [OF ok, of q]] e by (auto simp: below_def)
    then have "Max (below T q) \<in> dom T" "Max (below T q) \<noteq> ?p" "Max (below T q) \<noteq> q"
      using G(3) leaves_dom e f(1) by (auto simp: leaves_def)
    then have "loc_of trie ?U (Max (below T q)) = loc_of trie T (Max (below T q))"
      by (intro loc_of_cong refl) (simp add: grafted_def)
    moreover have "e_locator e = loc_of trie T (Max (below T q))" by (rule listedD(3) [OF ls e]) (use f(1) in simp)
    ultimately show ?thesis using new(2) old round False same by simp
  qed
qed

lemma link_leaf_node:
  assumes ok: "shape_ok heap trie U"
  shows "same_but_locators U (link_leaf U p k)"
    and "x \<noteq> Max (before U p) \<or> before U p = {} \<Longrightarrow> link_leaf U p k x = U x"
    and "before U p \<noteq> {} \<Longrightarrow> e_locator (the (link_leaf U p k (Max (before U p)))) = k"
proof -
  show "same_but_locators U (link_leaf U p k)"
  proof (cases "before U p = {}")
    case False
    then obtain e where e: "U (Max (before U p)) = Some e" using Max_before(1) [OF ok False] by (auto simp: leaves_def)
    from same_but_locators_upd [where T = U and T' = U, OF same_but_locators_refl this] show ?thesis
      using False by (simp add: link_leaf_def e)
  qed (simp add: link_leaf_def same_but_locators_refl)
qed (auto simp: link_leaf_def)

theorem grafted_leaf:
  assumes sh: "trie_shape heap trie T" and ls: "listed trie T" and g: "graft_ok heap trie T q s e' l" and e: "T q = Some e"
    and new: "max_child e' = (if ucast (max_child e) < s then ucast s else max_child e)"
      "e_locator e' = (if ucast (max_child e) < s then loc_of trie (grafted T q s e' l) (q @ [s]) else e_locator e)"
      "\<not> entry_dirty e'" "\<not> entry_dirty l"
    and own: "links_first trie T {x \<in> leaves T. \<not> x < q @ [s]} (e_locator l)"
    and path: "chain_on T qs n" "qs ! 0 = []" "qs ! n = q" and f: "frame trie' = frame trie"
  defines "p \<equiv> q @ [s]" and "U \<equiv> grafted T q s e' l"
  defines "V \<equiv> propagate_shape qs n (link_leaf U p (loc_of trie U p))"
  assumes min: "cell trie' (trie_min_leaf trie') =
      (let m = cell trie (trie_min_leaf trie) in if before T p = {} then m\<lparr>e_locator := loc_of trie U p\<rparr> else m)"
  shows "shape_ok heap trie V" and "listed trie' V" and "leaves V = insert p (leaves T)"
    and "kv_at V p = entry_kv l" and "x \<in> leaves T \<Longrightarrow> kv_at V x = kv_at T x"
proof -
  let ?a = "Max (before T p)" and ?W = "link_leaf U p (loc_of trie U p)"
  note ok = trie_shapeD(4) [OF sh]
  note G = graft_shape [OF ok g, folded grafted_def, folded p_def U_def]
  have gf: "entry_type e = TYPE_BITMAP" "s \<le> 32" "s \<notin> children e" "entry_type e' = TYPE_BITMAP" "children e' = insert s (children e)"
    "entry_color e' = entry_color e" "entry_type l = TYPE_LEAF" using g e by (auto simp: graft_ok_def link_def)
  note B = bitmap_max_leaf [OF sh ls g e new(1,2), folded U_def]
  have bef: "before U p = before T p" by (rule before_grafted [OF G(2)])
  have bel: "below U x = (if prefix x p then insert p (below T x) else below T x)" for x by (rule below_grafted [OF G(2)])
  have np: "T p = None" using G(3) by blast
  have U: "U q = Some e'" "U p = Some l" "x \<noteq> q \<Longrightarrow> x \<noteq> p \<Longrightarrow> U x = T x" for x by (simp_all add: U_def grafted_def p_def)
  have loc: "loc_of trie U x = loc_of trie T x" if "x \<in> dom T" for x
    
  proof (rule loc_of_cong [OF refl])
    show "entry_color (the (U x)) = entry_color (the (T x))"
      using that e np U(1) gf(6) U(3) [of x] by (cases "x = q"; cases "x = p") auto
  qed
  note W = link_leaf_node [where p = p and k = "loc_of trie U p", OF G(1), unfolded bef]
  have okW: "shape_ok heap trie ?W" by (rule shape_ok_locators [OF G(1) W(1)])
  have c: "chain_on U qs n" using path(1) child_of_grafted [OF ok g] by (simp add: chain_on_def U_def)
  have inner: "qs ! j \<in> dom T" "qs ! j \<notin> leaves T" "prefix (qs ! j) q" if "j \<le> n" for j
  proof -
    have "\<exists>c. T (qs ! j) = Some c \<and> entry_type c \<noteq> TYPE_LEAF"
    proof (cases "j = n")
      case False
      then have "child_of T (qs ! j) (qs ! Suc j)" using path(1) that by (simp add: chain_on_def)
      then show ?thesis by (auto simp: child_of_def)
    qed (use path(3) e gf(1) in simp)
    then show "qs ! j \<in> dom T" "qs ! j \<notin> leaves T" by (auto simp: leaves_def)
    show "prefix (qs ! j) q" using chain_strict [OF ok path(1), of j n] that path(3) by (cases "j = n") (auto simp: strict_prefix_def)
  qed
  have sbV: "same_but_locators U V" unfolding V_def
    by (rule propagate_same [OF W(1)]) (use inner(1) U e in \<open>auto simp: U_def grafted_def\<close>)
  show okV: "shape_ok heap trie V" by (rule shape_ok_locators [OF G(1) sbV])
  note KV = same_kids_locators [OF G(1) sbV]
  show LV: "leaves V = insert p (leaves T)" using KV(2) G(2) by simp
  have "p \<in> dom U" using U(2) by blast
  then show "kv_at V p = entry_kv l" using KV(3) U(2) by (simp add: kv_at_def)
  show "kv_at V x = kv_at T x" if x: "x \<in> leaves T" for x
  proof -
    have "x \<in> dom U" using x G(2) leaves_dom by blast
    then show ?thesis using KV(3) G(4) [OF x] by simp
  qed
  have out: "V x = ?W x" if "\<And>j. j < n \<Longrightarrow> x \<noteq> qs ! j" for x unfolding V_def by (rule propagate_other [OF that])
  have leafV: "V x = ?W x" if "x \<in> leaves U" for x
  proof (rule out)
    fix j assume "j < n"
    then have "qs ! j \<in> dom T" "qs ! j \<notin> leaves T" using inner(1,2) [of j] by simp_all
    then show "x \<noteq> qs ! j" using that unfolding G(2) by (metis G(3) insertE)
  qed
  have a: "?a \<in> leaves T" if "before T p \<noteq> {}" using Max_before(1) [OF ok that] .
  have Wx: "?W x = T x" if "x \<noteq> q" "x \<noteq> p" "before T p = {} \<or> x \<noteq> ?a" for x
    using W(2) [of x] U(3) that by auto
  have mc: "max_children_right U" unfolding max_children_right_def
  proof (intro allI impI)
    fix x c assume x: "U x = Some c \<and> entry_type c = TYPE_BITMAP"
    have "x \<noteq> p" using x U(2) gf(7) by auto
    then show "max_child c = ucast (Max (children c))"
      using x U(1,3) B(1) listedD(6) [where T = T and p = x, OF ls] by (cases "x = q") auto
  qed
  have Wq: "?W q = Some e'"
  proof -
    have "q \<notin> leaves T" using e gf(1) by (auto simp: leaves_def)
    then have "before T p = {} \<or> q \<noteq> ?a" using a by fastforce
    then show ?thesis using W(2) [of q] U(1) by auto
  qed
  have path_right: "max_leaf_right trie U V (qs ! j)" if j: "j \<le> n" for j
    unfolding V_def
  proof (rule propagate_max [OF G(1) mc _ c W(1) _ _ j, of p])
    show "prefix (qs ! n) p" by (simp add: path(3) p_def)
    show "max_leaf_right trie U ?W (qs ! n)" using B(2) Wq by (simp add: max_leaf_right_def path(3))
    show "max_leaf_right trie U ?W (qs ! k)" if k: "k < n" "Max (below U (qs ! k)) \<noteq> p" for k
    proof -
      note i = inner [of k]
      have pre: "prefix (qs ! k) p" using i(3) k by (auto simp: p_def intro: prefix_order.trans)
      obtain d where d: "T (qs ! k) = Some d" using i(1) k by auto
      have t: "entry_type d \<noteq> TYPE_LEAF" using i(2) k d by (auto simp: leaves_def)
      have "qs ! k \<noteq> q" using chain_strict [OF ok path(1), of k n] k path(3) by auto
      moreover have "qs ! k \<noteq> p" using d np by auto
      moreover have "before T p = {} \<or> qs ! k \<noteq> ?a" using a i(2) [OF less_imp_le [OF k(1)]] by fastforce
      ultimately have w: "?W (qs ! k) = Some d" using Wx d by simp
      let ?B = "below T (qs ! k)"
      have B: "finite ?B" "?B \<noteq> {}" using finite_below [OF ok] below_nonempty [OF ok i(1)] k by simp_all
      have "Max (insert p ?B) = Max ?B" using k(2) bel pre B by (auto simp: max_def split: if_splits)
      then have m: "Max (below U (qs ! k)) = Max ?B" using bel pre by simp
      have "Max ?B \<in> dom T" using Max_in [OF B] leaves_dom by (auto simp: below_def)
      then show ?thesis using listedD(3) [OF ls d t] m w loc by (simp add: max_leaf_right_def)
    qed
  qed
  have same: "loc_of trie V x = loc_of trie U x" if "x \<in> dom U" for x by (rule KV(4) [OF that])
  have belV: "below V x = below U x" for x using LV G(2) by (simp add: below_def)
  have pU: "p \<in> dom U" using U(2) by blast
  have inDom: "Max (below U x) \<in> dom U" if "x \<in> dom U" for x
    using Max_in [OF finite_below [OF G(1)] below_nonempty [OF G(1) that]] leaves_dom by (auto simp: below_def)
  show "listed trie' V"
  proof (rule graft_listed [OF sh ls g B(1) new(3,4) f, folded p_def])
    show "same_but_locators (T(q \<mapsto> e', p \<mapsto> l)) V" using sbV by (simp add: U_def grafted_def p_def)
    have pa: "p \<noteq> ?a \<or> before T p = {}" using a leaves_dom [of ?a T] G(3) by fastforce
    have "V p = ?W p" by (rule leafV) (simp add: G(2))
    also have "\<dots> = Some l" using W(2) [OF pa] U(2) by simp
    finally show "links_first trie T {x \<in> leaves T. \<not> x < p} (next_leaf (the (V p)))" using own by (simp add: p_def)
    show "next_leaf (the (V ?a)) = loc_of trie V p" if "before T p \<noteq> {}"
      using leafV [of ?a] a [OF that] G(2) W(3) [OF that] same [OF pU] by simp
    show "next_leaf (the (V x)) = next_leaf (the (T x))" if "x \<in> leaves T" "before T p = {} \<or> x \<noteq> ?a" for x
    proof -
      have "x \<noteq> q" "x \<noteq> p" using that e gf(1) np by (auto simp: leaves_def)
      then show ?thesis using leafV [of x] that G(2) Wx by simp
    qed
    show "max_leaf (the (V x)) = loc_of trie V (Max (below V x))" if x: "x \<in> dom T - leaves T" for x
    proof -
      have xU: "x \<in> dom U" using x e by (auto simp: U_def grafted_def)
      show ?thesis
      proof (cases "\<exists>j\<le>n. x = qs ! j")
        case True
        then show ?thesis using path_right same [OF inDom [OF xU]] belV by (auto simp: max_leaf_right_def)
      next
        case False
        then have "\<not> prefix x q" using chain_covers [OF ok path(1,2), of x] x path(3) by auto
        moreover have "x \<noteq> p" using x np by auto
        ultimately have npre: "\<not> prefix x p" by (simp add: p_def)
        then have "x \<noteq> q" by (auto simp: p_def)
        moreover have "before T p = {} \<or> x \<noteq> ?a" using a x by fastforce
        ultimately have "?W x = T x" using Wx \<open>x \<noteq> p\<close> by blast
        moreover have "V x = ?W x" by (rule out) (use False in auto)
        ultimately have "V x = T x" by simp
        moreover obtain d where d: "T x = Some d" using x by blast
        moreover have "entry_type d \<noteq> TYPE_LEAF" using x d by (auto simp: leaves_def)
        ultimately have "max_leaf (the (V x)) = loc_of trie T (Max (below T x))" using listedD(3) [OF ls d] by simp
        moreover have "Max (below T x) \<in> dom T"
          using Max_in [OF finite_below [OF ok] below_nonempty [OF ok, of x]] x leaves_dom by (auto simp: below_def)
        ultimately show ?thesis using same [OF inDom [OF xU]] belV bel npre loc by simp
      qed
    qed
    show "cell trie' (trie_min_leaf trie') =
        (let m = cell trie (trie_min_leaf trie) in if before T p = {} then m\<lparr>e_locator := loc_of trie V p\<rparr> else m)"
      using min unfolding same [OF pU] .
  qed
qed

end
