(* ===== verification/VectorizedOps.thy ===== *)
theory VectorizedOps
  imports Iterator Alloc
begin

text \<open>
  The build of the library with the vectorized searches (\<open>main_vectorized.c\<close>): its operations
  over the searches of a pair that use SIMD lanes, and its insertions, which choose the color of
  a new entry with them. The functions that neither search nor choose a color are those of
  \<open>main.c\<close>, word by word.
\<close>

section \<open>Lookups, updates and iterators\<close>

definition locator_to_entry_vectorized :: "cuckoo_trie \<Rightarrow> ct_entry_locator \<Rightarrow> ct_entry_local_copy option" where
  "locator_to_entry_vectorized trie l =
     find_entry_in_pair_by_color_vectorized trie (ucast (loc_primary_bucket l)) (ucast (loc_tag l)) (ucast (loc_color l))"

definition update_entry_slow_path_vectorized ::
    "cuckoo_trie \<Rightarrow> ct_entry_local_copy \<Rightarrow> ct_entry \<Rightarrow> (ct_entry_local_copy \<times> cuckoo_trie) option" where
  "update_entry_slow_path_vectorized trie local_copy new_value = do {
     found \<leftarrow> find_entry_in_pair_by_color_vectorized trie (lc_primary_bucket local_copy)
       (ucast (entry_tag (lc_value local_copy))) (ucast (entry_color (lc_value local_copy)));
     let cur_entry_pos = last_pos found;
     let adjusted_new_value = new_value\<lparr>parent_color_and_flags :=
       parent_color_and_flags new_value AND NOT FLAG_SECONDARY_BUCKET\<rparr>;
     let adjusted_new_value = adjusted_new_value\<lparr>parent_color_and_flags :=
       parent_color_and_flags adjusted_new_value OR
       (parent_color_and_flags (cell trie cur_entry_pos) AND FLAG_SECONDARY_BUCKET)\<rparr>;
     let (new_seq, trie) = write_entry trie cur_entry_pos adjusted_new_value;
     Some (local_copy\<lparr>lc_value := adjusted_new_value, last_pos := cur_entry_pos, last_seq := new_seq\<rparr>, trie)
   }"

definition update_entry_vectorized ::
    "cuckoo_trie \<Rightarrow> ct_entry_local_copy \<Rightarrow> ct_entry \<Rightarrow> (ct_entry_local_copy \<times> cuckoo_trie) option" where
  "update_entry_vectorized trie local_copy new_value =
     (let entry_didnt_move = validate_entry trie local_copy
      in if entry_didnt_move
         then let (new_seq, trie) = write_entry trie (last_pos local_copy) new_value
              in Some (local_copy\<lparr>lc_value := new_value, last_seq := new_seq\<rparr>, trie)
         else update_entry_slow_path_vectorized trie local_copy new_value)"

definition try_descend_vectorized :: "cuckoo_trie \<Rightarrow> ct_finger \<Rightarrow> u64 \<Rightarrow> bool \<Rightarrow> u64 \<Rightarrow> (bool \<times> ct_finger) option" where
  "try_descend_vectorized trie finger symbol save_path expected_hash =
     (let node = lc_value (containing_entry finger)
      in if entry_type node = TYPE_LEAF then Some (False, finger)
         else if entry_type node = TYPE_JUMP
         then (let next_symbol = ucast (get_jump_symbol node (depth_in_jump finger)) :: u8
               in if ucast next_symbol \<noteq> symbol then Some (False, finger)
                  else let finger = finger_extend_prefix_known_hash finger (ucast symbol) expected_hash;
                           finger = finger\<lparr>depth_in_jump := depth_in_jump finger + 1\<rparr>
                       in if depth_in_jump finger = entry_jump_size node
                          then do {
                            child \<leftarrow> find_entry_in_pair_by_color_vectorized trie (hash_to_bucket (f_prefix_hash finger))
                              (hash_to_tag (f_prefix_hash finger)) (ucast (entry_child_color node));
                            Some (True, finger_node_changed (finger\<lparr>containing_entry := child\<rparr>) save_path)
                          }
                          else Some (True, finger))
         else if \<not> get_bit (child_bitmap node) (unat symbol) then Some (False, finger)
         else let finger = finger_extend_prefix_known_hash finger (ucast symbol) expected_hash
              in do {
                child \<leftarrow> find_entry_in_pair_by_parent_vectorized trie (hash_to_bucket (f_prefix_hash finger))
                  (hash_to_tag (f_prefix_hash finger)) symbol (ucast (entry_color node));
                Some (True, finger_node_changed (finger\<lparr>containing_entry := child\<rparr>) save_path)
              })"

definition find_subtree_vectorized :: "cuckoo_trie \<Rightarrow> ct_pred_locator \<Rightarrow> ct_entry_local_copy option" where
  "find_subtree_vectorized trie loc =
     find_entry_in_pair_by_parent_vectorized trie (sub_primary_bucket loc) (ucast (sub_tag loc))
       (ucast (sub_last_symbol loc)) (ucast (sub_parent_color loc))"

definition get_predecessor_atomic_vectorized ::
    "cuckoo_trie \<Rightarrow> ct_finger \<Rightarrow> ct_pred_locator \<Rightarrow> ct_entry_local_copy \<Rightarrow> (bool \<times> ct_entry_local_copy) option" where
  "get_predecessor_atomic_vectorized trie finger loc result =
     (if sub_primary_bucket loc = - 1
      then do {
        result \<leftarrow> read_min_leaf trie;
        Some (validate_path_from trie finger 0, result)
      }
      else do {
        subtree_root \<leftarrow> find_subtree_vectorized trie loc;
        if entry_type (lc_value subtree_root) = TYPE_LEAF
        then (if \<not> validate_path_from trie finger (the (sub_path_pos loc)) then Some (False, result)
              else if entry_dirty (lc_value subtree_root) then Some (False, result)
              else Some (True, subtree_root))
        else do {
          result \<leftarrow> locator_to_entry_vectorized trie (max_leaf (lc_value subtree_root));
          if entry_type (lc_value result) \<noteq> TYPE_LEAF then Some (False, result)
          else if \<not> validate_path_from trie finger (the (sub_path_pos loc)) then Some (False, result)
          else if \<not> validate_entry trie subtree_root then Some (False, result)
          else if entry_dirty (lc_value result) then Some (False, result)
          else Some (True, result)
        }
      })"

partial_function (option) descend_from_vectorized ::
    "cuckoo_trie \<Rightarrow> key_prefetcher \<Rightarrow> ct_finger \<Rightarrow> bool \<Rightarrow> (int \<times> ct_finger) option" where
  "descend_from_vectorized trie p finger track_path =
     (let p = prefetcher_step trie p;
          symbol = ucast (byte_at (p_key_symbols p) (prefix_len finger)) :: u64
      in do {
        (success, finger) \<leftarrow> try_descend_vectorized trie finger symbol track_path (prefix_hashes p ! prefix_len finger);
        if \<not> success then Some (uint symbol, finger)
        else if symbol = SYMBOL_END then Some (- 1, finger)
        else descend_from_vectorized trie p finger track_path
      })"

definition descend_vectorized :: "cuckoo_trie \<Rightarrow> ct_finger \<Rightarrow> nat \<Rightarrow> u8 list \<Rightarrow> bool \<Rightarrow> (int \<times> ct_finger) option" where
  "descend_vectorized trie finger key_len key_bytes track_path =
     descend_from_vectorized trie (prefetcher_start trie key_len key_bytes) finger track_path"

definition replace_leaf_kv_vectorized :: "lock_state \<Rightarrow> ct_finger \<Rightarrow> u64 \<Rightarrow> (status \<times> lock_state) option" where
  "replace_leaf_kv_vectorized s finger kv =
     (let (ret, s) = upgrade_lock s (containing_entry finger)
      in if ret = SI_RETRY then Some (SI_RETRY, s)
         else let (trie, mgr) = s
              in do {
                let new_entry = entry_set_kv (lc_value (containing_entry finger)) kv;
                (copy, trie) \<leftarrow> update_entry_vectorized trie (containing_entry finger) new_entry;
                Some (SI_OK, release_all_locks (trie, mgr))
              })"

definition ct_lookup_vectorized :: "kv_heap \<Rightarrow> cuckoo_trie \<Rightarrow> nat \<Rightarrow> u8 list \<Rightarrow> u64 option" where
  "ct_lookup_vectorized heap trie key_len key_bytes = do {
     (root, finger) \<leftarrow> init_finger trie;
     if root = None then Some NULL
     else do {
       (symbol, finger) \<leftarrow> descend_vectorized trie finger key_len key_bytes False;
       let leaf_kv = entry_kv (lc_value (containing_entry finger));
       if symbol = - 1 then Some leaf_kv
       else if entry_type (lc_value (containing_entry finger)) \<noteq> TYPE_LEAF then Some NULL
       else if kv_key_compare_to (heap leaf_kv) (of_nat key_len) key_bytes = 0 then Some leaf_kv
       else Some NULL
     }
   }"

definition ct_update_internal_vectorized :: "kv_heap \<Rightarrow> cuckoo_trie \<Rightarrow> u64 \<Rightarrow> (status \<times> lock_state) option" where
  "ct_update_internal_vectorized heap trie kv = do {
     (root, finger) \<leftarrow> init_finger trie;
     let s = (trie, init_lock_mgr);
     if root = None then Some (SI_FAIL, s)
     else do {
       (symbol, finger) \<leftarrow> descend_vectorized trie finger (unat (kv_key_size (heap kv))) (kv_bytes (heap kv)) False;
       if entry_type (lc_value (containing_entry finger)) \<noteq> TYPE_LEAF then Some (SI_FAIL, s)
       else do {
         let leaf_kv = entry_kv (lc_value (containing_entry finger));
         if kv_key_compare (heap leaf_kv) (heap kv) \<noteq> 0 then Some (SI_FAIL, s)
         else replace_leaf_kv_vectorized s finger kv
       }
     }
   }"

partial_function (option) update_attempts_vectorized ::
    "kv_heap \<Rightarrow> interference \<Rightarrow> nat \<Rightarrow> cuckoo_trie \<Rightarrow> u64 \<Rightarrow> (status \<times> cuckoo_trie) option" where
  "update_attempts_vectorized heap act n trie kv = do {
     (ret, trie, mgr) \<leftarrow> ct_update_internal_vectorized heap trie kv;
     if ret = SI_RETRY then update_attempts_vectorized heap act (n + 1) (act n trie) kv
     else Some (ret, trie)
   }"

definition ct_update_vectorized :: "kv_heap \<Rightarrow> interference \<Rightarrow> cuckoo_trie \<Rightarrow> u64 \<Rightarrow> (api_result \<times> cuckoo_trie) option" where
  "ct_update_vectorized heap act trie kv = do {
     (ret, trie) \<leftarrow> update_attempts_vectorized heap act 0 trie kv;
     if ret = SI_FAIL then Some (S_NOTFOUND, trie) else Some (S_OK, trie)
   }"

primrec iter_descend_vectorized ::
    "nat \<Rightarrow> nat \<Rightarrow> cuckoo_trie \<Rightarrow> key_prefetcher \<Rightarrow> ct_finger \<Rightarrow> nat option \<Rightarrow> u64
      \<Rightarrow> (nat option \<times> u64 \<times> ct_finger) option" where
  "iter_descend_vectorized 0 depth trie p finger last_bitmap symbol = Some (last_bitmap, symbol, finger)"
| "iter_descend_vectorized (Suc n) depth trie p finger last_bitmap symbol =
     (let p = prefetcher_step trie p;
          last_bitmap = (if entry_type (lc_value (containing_entry finger)) = TYPE_BITMAP
                         then Some (last_path_entry finger) else last_bitmap);
          symbol = ucast (byte_at (p_key_symbols p) depth) :: u64
      in do {
        (success, finger) \<leftarrow> try_descend_vectorized trie finger symbol True (prefix_hashes p ! depth);
        if \<not> success then Some (last_bitmap, symbol, finger)
        else iter_descend_vectorized n (depth + 1) trie p finger last_bitmap symbol
      })"

definition ct_iter_goto_internal_vectorized ::
    "kv_heap \<Rightarrow> cuckoo_trie \<Rightarrow> ct_iter \<Rightarrow> nat \<Rightarrow> u8 list \<Rightarrow> (status \<times> ct_iter) option" where
  "ct_iter_goto_internal_vectorized heap trie iter key_len key_bytes = do {
     (root, finger) \<leftarrow> init_finger trie;
     let iter = iter\<lparr>is_exhausted := False\<rparr>;
     if root = None then Some (SI_OK, iter\<lparr>is_exhausted := True\<rparr>)
     else if key_len = 0
     then do { leaf \<leftarrow> read_min_leaf trie; Some (SI_OK, iter\<lparr>leaves0 := leaf\<rparr>) }
     else do {
       let p = prefetcher_start trie key_len key_bytes;
       (last_bitmap, symbol, finger) \<leftarrow> iter_descend_vectorized (num_key_symbols key_len) 0 trie p finger None (- 1);
       case place_iter heap trie finger last_bitmap symbol key_len key_bytes of
         Before loc \<Rightarrow> do {
           (found, leaf) \<leftarrow> get_predecessor_atomic_vectorized trie finger loc (leaves0 iter);
           Some (if found then SI_OK else SI_RETRY, iter\<lparr>leaves0 := leaf\<rparr>)
         }
       | At_first \<Rightarrow> do {
           leaf \<leftarrow> read_min_leaf trie;
           let iter = iter\<lparr>leaves0 := leaf\<rparr>;
           if entry_dirty (lc_value leaf) then Some (SI_RETRY, iter)
           else if \<not> validate_entry trie leaf then Some (SI_RETRY, iter)
           else Some (SI_OK, iter)
         }
       | At_end \<Rightarrow> Some (SI_OK, iter\<lparr>is_exhausted := True\<rparr>)
     }
   }"

definition ct_iter_next_internal_vectorized :: "cuckoo_trie \<Rightarrow> ct_iter \<Rightarrow> (status \<times> ct_iter) option" where
  "ct_iter_next_internal_vectorized trie iter = do {
     new_leaf \<leftarrow> locator_to_entry_vectorized trie (iter_next_locator iter);
     if entry_type (lc_value new_leaf) \<noteq> TYPE_LEAF then Some (SI_RETRY, iter)
     else Some (SI_OK, iter\<lparr>leaves0 := new_leaf\<rparr>)
   }"

partial_function (option) ct_iter_goto_vectorized ::
    "kv_heap \<Rightarrow> interference \<Rightarrow> nat \<Rightarrow> cuckoo_trie \<Rightarrow> ct_iter \<Rightarrow> nat \<Rightarrow> u8 list \<Rightarrow> (ct_iter \<times> nat \<times> cuckoo_trie) option" where
  "ct_iter_goto_vectorized heap act n trie iter key_len key_bytes = do {
     (result, iter) \<leftarrow> ct_iter_goto_internal_vectorized heap trie iter key_len key_bytes;
     if result = SI_RETRY then ct_iter_goto_vectorized heap act (n + 1) (act n trie) iter key_len key_bytes
     else let iter = (if loc_primary_bucket (iter_next_locator iter) = NO_BUCKET
                      then iter\<lparr>is_exhausted := True\<rparr> else iter)
          in if is_exhausted iter then Some (iter, n, trie)
             else do {
               (result, iter) \<leftarrow> ct_iter_next_internal_vectorized trie iter;
               if result = SI_RETRY then ct_iter_goto_vectorized heap act (n + 1) (act n trie) iter key_len key_bytes
               else Some (iter\<lparr>report_current := True\<rparr>, n, trie)
             }
   }"

partial_function (option) iter_fetch_vectorized ::
    "kv_heap \<Rightarrow> interference \<Rightarrow> nat \<Rightarrow> cuckoo_trie \<Rightarrow> ct_iter \<Rightarrow> (ct_iter \<times> nat \<times> cuckoo_trie) option" where
  "iter_fetch_vectorized heap act n trie iter = do {
     (result, iter) \<leftarrow> ct_iter_next_internal_vectorized trie iter;
     if result = SI_RETRY
     then do {
       let last_reported_key = heap (entry_kv (lc_value (leaves0 iter)));
       (iter, n, trie) \<leftarrow> ct_iter_goto_vectorized heap act (n + 1) (act n trie) iter
         (unat (kv_key_size last_reported_key)) (kv_bytes last_reported_key);
       iter_fetch_vectorized heap act n trie (iter\<lparr>report_current := False\<rparr>)
     }
     else Some (iter, n, trie)
   }"

definition ct_iter_next_vectorized ::
    "kv_heap \<Rightarrow> interference \<Rightarrow> nat \<Rightarrow> cuckoo_trie \<Rightarrow> ct_iter \<Rightarrow> (u64 \<times> ct_iter \<times> nat \<times> cuckoo_trie) option" where
  "ct_iter_next_vectorized heap act n trie iter =
     (if is_exhausted iter then Some (NULL, iter, n, trie)
      else if report_current iter
      then Some (entry_kv (lc_value (leaves0 iter)), iter\<lparr>report_current := False\<rparr>, n, trie)
      else if loc_primary_bucket (iter_next_locator iter) = NO_BUCKET
      then Some (NULL, iter\<lparr>is_exhausted := True\<rparr>, n, trie)
      else do {
        (iter, n, trie) \<leftarrow> iter_fetch_vectorized heap act n trie iter;
        Some (entry_kv (lc_value (leaves0 iter)), iter, n, trie)
      })"

section \<open>Insertions\<close>

subsection \<open>Entries of the table\<close>

text \<open>\<open>avx\<close> tells whether the build has the instructions for eight lanes.\<close>

definition remove_entry_by_value_vectorized :: "cuckoo_trie \<Rightarrow> ct_entry \<Rightarrow> u64 \<Rightarrow> cuckoo_trie option" where
  "remove_entry_by_value_vectorized trie entry prefix_hash = do {
     found \<leftarrow> find_entry_in_pair_by_color_vectorized trie (hash_to_bucket prefix_hash) (hash_to_tag prefix_hash)
       (ucast (entry_color entry));
     Some (remove_entry_by_address trie (last_pos found))
   }"

definition mark_entry_dirty_vectorized :: "cuckoo_trie \<Rightarrow> ct_entry_local_copy \<Rightarrow> (ct_entry_local_copy \<times> cuckoo_trie) option" where
  "mark_entry_dirty_vectorized trie local_copy = update_entry_vectorized trie local_copy (entry_set_dirty (lc_value local_copy))"

definition mark_entry_clean_vectorized :: "cuckoo_trie \<Rightarrow> ct_entry_local_copy \<Rightarrow> (ct_entry_local_copy \<times> cuckoo_trie) option" where
  "mark_entry_clean_vectorized trie local_copy = update_entry_vectorized trie local_copy (entry_set_clean (lc_value local_copy))"

definition add_in_cell_vectorized ::
    "bool \<Rightarrow> lock_state \<Rightarrow> u64 \<Rightarrow> ct_entry \<Rightarrow> bool \<Rightarrow> entry_ptr \<Rightarrow> u64 \<Rightarrow> u64 \<Rightarrow> ct_bucket_read_lock
      \<Rightarrow> status \<times> entry_ptr option \<times> ct_entry \<times> lock_state" where
  "add_in_cell_vectorized avx s prefix_hash entry lock result result_bucket flags_to_add alternate_bucket_lock =
     (let (trie, mgr) = s;
          primary_bucket_num = hash_to_bucket prefix_hash;
          secondary_bucket_num = mix_bucket trie primary_bucket_num (hash_to_tag prefix_hash);
          mgr = (if lock then write_lock_entry_in_locked_bucket mgr result else mgr);
          unused_color = unused_color_in_pair_vectorized avx (bucket_of trie primary_bucket_num) (bucket_of trie secondary_bucket_num);
          entry = entry_add_flags entry flags_to_add;
          entry = entry_set_color_and_tag entry (push_bit TAG_BITS (ucast unused_color) OR hash_to_tag prefix_hash);
          trie = snd (write_entry trie result entry);
          ret = read_unlock_bucket trie alternate_bucket_lock
      in if ret \<noteq> SI_OK
         then (SI_RETRY, None, entry,
               release_bucket_lock (remove_entry_by_address trie result, mgr) (unat result_bucket))
         else (SI_OK, Some result, entry, release_bucket_lock (trie, mgr) (unat result_bucket)))"

definition add_entry_vectorized ::
    "bool \<Rightarrow> lock_state \<Rightarrow> u64 \<Rightarrow> ct_entry \<Rightarrow> entry_ptr option \<Rightarrow> bool
      \<Rightarrow> (status \<times> entry_ptr option \<times> ct_entry \<times> lock_state) option" where
  "add_entry_vectorized avx s prefix_hash entry immovable_entry lock =
     (let trie = fst s;
          primary_bucket_num = hash_to_bucket prefix_hash;
          secondary_bucket_num = mix_bucket trie primary_bucket_num (hash_to_tag prefix_hash);
          primary_read_lock = read_lock_bucket trie (unat primary_bucket_num);
          secondary_read_lock = read_lock_bucket trie (unat secondary_bucket_num)
      in case find_free_cell_in_bucket (bucket_of trie primary_bucket_num) of
           Some k \<Rightarrow>
             (let (ret, s) = upgrade_bucket_lock s primary_read_lock
              in if ret = SI_RETRY then Some (SI_RETRY, None, entry, s)
                 else Some (add_in_cell_vectorized avx s prefix_hash entry lock (unat primary_bucket_num, k) primary_bucket_num 0
                              secondary_read_lock))
         | None \<Rightarrow>
         (case find_free_cell_in_bucket (bucket_of trie secondary_bucket_num) of
           Some k \<Rightarrow>
             (let (ret, s) = upgrade_bucket_lock s secondary_read_lock
              in if ret = SI_RETRY then Some (SI_RETRY, None, entry, s)
                 else Some (add_in_cell_vectorized avx s prefix_hash entry lock (unat secondary_bucket_num, k) secondary_bucket_num
                              (ucast FLAG_SECONDARY_BUCKET) primary_read_lock))
         | None \<Rightarrow>
             (let (ret, s) = upgrade_bucket_lock s primary_read_lock
              in if ret = SI_RETRY then Some (SI_RETRY, None, entry, s)
                 else do {
                   (ret, result, s) \<leftarrow> relocate_entry s primary_bucket_num immovable_entry;
                   if ret = SI_FAIL \<or> ret = SI_RETRY
                   then Some (ret, None, entry, release_bucket_lock s (unat primary_bucket_num))
                   else Some (add_in_cell_vectorized avx s prefix_hash entry lock (the result) primary_bucket_num 0
                                secondary_read_lock)
                 })))"

subsection \<open>The list of the leaves\<close>

definition find_predecessor_vectorized :: "cuckoo_trie \<Rightarrow> ct_pred_locator \<Rightarrow> ct_pred_locator option" where
  "find_predecessor_vectorized trie loc =
     (if sub_primary_bucket loc = - 1
      then do { leaf \<leftarrow> read_min_leaf trie; Some (loc\<lparr>predecessor := leaf\<rparr>) }
      else do {
        subtree_root \<leftarrow> find_subtree_vectorized trie loc;
        if entry_type (lc_value subtree_root) = TYPE_LEAF then Some (loc\<lparr>predecessor := subtree_root\<rparr>)
        else do {
          leaf \<leftarrow> locator_to_entry_vectorized trie (max_leaf (lc_value subtree_root));
          Some (loc\<lparr>predecessor := leaf\<rparr>)
        }
      })"

definition linklist_insert_vectorized ::
    "cuckoo_trie \<Rightarrow> ct_pred_locator \<Rightarrow> ct_entry \<Rightarrow> u64 \<Rightarrow> (ct_pred_locator \<times> cuckoo_trie) option" where
  "linklist_insert_vectorized trie loc new_entry primary_bucket = do {
     let new_entry_locator = \<lparr>loc_primary_bucket = ucast primary_bucket, loc_tag = entry_tag new_entry,
       loc_color = entry_color new_entry\<rparr>;
     let new_prev = (lc_value (predecessor loc))\<lparr>e_locator := new_entry_locator\<rparr>;
     (copy, trie) \<leftarrow> update_entry_vectorized trie (predecessor loc) new_prev;
     Some (loc\<lparr>predecessor := copy\<rparr>, trie)
   }"

definition linklist_insert_two_vectorized ::
    "cuckoo_trie \<Rightarrow> ct_pred_locator \<Rightarrow> u64 \<Rightarrow> u8 \<Rightarrow> (ct_pred_locator \<times> cuckoo_trie) option" where
  "linklist_insert_two_vectorized trie loc entry_1_hash entry_1_color = do {
     let first_entry_locator = \<lparr>loc_primary_bucket = ucast (hash_to_bucket entry_1_hash),
       loc_tag = ucast (hash_to_tag entry_1_hash), loc_color = entry_1_color\<rparr>;
     let new_prev = (lc_value (predecessor loc))\<lparr>e_locator := first_entry_locator\<rparr>;
     (copy, trie) \<leftarrow> update_entry_vectorized trie (predecessor loc) new_prev;
     Some (loc\<lparr>predecessor := copy\<rparr>, trie)
   }"

definition lock_predecessor_vectorized ::
    "lock_state \<Rightarrow> ct_finger \<Rightarrow> ct_pred_locator \<Rightarrow> (status \<times> ct_pred_locator \<times> lock_state) option" where
  "lock_predecessor_vectorized s finger loc = do {
     (found, leaf) \<leftarrow> get_predecessor_atomic_vectorized (fst s) finger loc (predecessor loc);
     let loc = loc\<lparr>predecessor := leaf\<rparr>;
     if \<not> found then Some (SI_RETRY, loc, s)
     else let (ret, s) = upgrade_lock s (predecessor loc) in Some (ret, loc, s)
   }"

subsection \<open>Nodes\<close>

definition create_bitmap_child_vectorized ::
    "bool \<Rightarrow> lock_state \<Rightarrow> ct_finger \<Rightarrow> u8 \<Rightarrow> u64 \<Rightarrow> u64 \<Rightarrow> (status \<times> entry_ptr option \<times> ct_entry \<times> lock_state) option" where
  "create_bitmap_child_vectorized avx s finger bitmap_color symbol kv =
     (let bitmap_in_trie = last_pos (containing_entry finger);
          child_prefix_hash = accumulate_hash (fst s) (f_prefix_hash finger) symbol;
          child = zero_entry\<lparr>parent_color_and_flags := push_bit PARENT_COLOR_SHIFT bitmap_color OR TYPE_LEAF,
                    e_last_symbol := ucast symbol\<rparr>;
          child = entry_set_kv child kv
      in add_entry_vectorized avx s child_prefix_hash child (Some bitmap_in_trie) True)"

definition mark_bitmap_child_vectorized ::
    "cuckoo_trie \<Rightarrow> ct_entry_local_copy \<Rightarrow> u64 \<Rightarrow> u64 \<Rightarrow> u8 \<Rightarrow> (ct_entry_local_copy \<times> cuckoo_trie) option" where
  "mark_bitmap_child_vectorized trie bitmap_local_copy symbol child_prefix_hash child_color =
     (let new_bitmap = entry_set_child_bit (lc_value bitmap_local_copy) (unat symbol);
          new_bitmap =
            (if ucast (max_child (lc_value bitmap_local_copy)) < symbol
             then new_bitmap\<lparr>e_byte8 := ucast symbol,
                    e_locator := \<lparr>loc_primary_bucket = ucast (hash_to_bucket child_prefix_hash),
                      loc_tag = ucast (hash_to_tag child_prefix_hash), loc_color = child_color\<rparr>\<rparr>
             else new_bitmap)
      in update_entry_vectorized trie bitmap_local_copy new_bitmap)"

primrec propagate_from_vectorized :: "nat \<Rightarrow> nat \<Rightarrow> cuckoo_trie \<Rightarrow> ct_finger \<Rightarrow> (ct_finger \<times> cuckoo_trie) option" where
  "propagate_from_vectorized top_path_pos 0 trie finger = Some (finger, trie)"
| "propagate_from_vectorized top_path_pos (Suc q) trie finger =
     (let child = node_at (f_path finger) (Suc q); parent = node_at (f_path finger) q
      in if Suc q \<le> top_path_pos then Some (finger, trie)
         else if entry_type parent = TYPE_BITMAP \<and> e_last_symbol child < max_child parent
         then Some (finger, trie)
         else do {
           (copy, trie) \<leftarrow> update_entry_vectorized trie (pe_entry (f_path finger ! q)) (parent\<lparr>e_locator := max_leaf child\<rparr>);
           propagate_from_vectorized top_path_pos q trie (set_path_copy finger q copy)
         })"

definition propagate_max_leaf_vectorized :: "cuckoo_trie \<Rightarrow> ct_finger \<Rightarrow> nat \<Rightarrow> (ct_finger \<times> cuckoo_trie) option" where
  "propagate_max_leaf_vectorized trie finger top_path_pos = propagate_from_vectorized top_path_pos (last_path_entry finger) trie finger"

definition update_path_entry_vectorized ::
    "cuckoo_trie \<Rightarrow> ct_finger \<Rightarrow> ct_entry \<Rightarrow> (ct_finger \<times> cuckoo_trie) option" where
  "update_path_entry_vectorized trie finger new_value = do {
     (copy, trie) \<leftarrow> update_entry_vectorized trie (pe_entry (f_path finger ! last_path_entry finger)) new_value;
     Some (set_path_copy finger (last_path_entry finger) copy, trie)
   }"

subsection \<open>Splitting a leaf\<close>

definition split_leaf_locks_vectorized ::
    "lock_state \<Rightarrow> ct_finger \<Rightarrow> ct_pred_locator \<Rightarrow> (status \<times> ct_pred_locator \<times> lock_state) option" where
  "split_leaf_locks_vectorized s finger loc =
     (let path = f_path finger; parent = last_path_entry finger - 1;
          (ret, s) = (if last_path_entry finger > 0 then upgrade_lock s (pe_entry (path ! parent)) else (SI_OK, s))
      in if ret = SI_RETRY then Some (SI_RETRY, loc, s)
         else let (ret, s) = (if last_path_entry finger > 0
                              then upgrade_locks_on_left_parents_above s finger parent else (SI_OK, s))
              in if ret = SI_RETRY then Some (SI_RETRY, loc, s)
                 else let (ret, s) = upgrade_lock s (containing_entry finger)
                      in if ret = SI_RETRY then Some (SI_RETRY, loc, s)
                         else lock_predecessor_vectorized s finger loc)"

primrec add_path_nodes_vectorized ::
    "bool \<Rightarrow> nat \<Rightarrow> u64 list \<Rightarrow> ct_entry list \<Rightarrow> nat \<Rightarrow> lock_state \<Rightarrow> (status \<times> ct_entry list \<times> nat \<times> lock_state) option" where
  "add_path_nodes_vectorized avx 0 hashes path_nodes written s = Some (SI_OK, path_nodes, written, s)"
| "add_path_nodes_vectorized avx (Suc i) hashes path_nodes written s = do {
     (ret, pos, node, s) \<leftarrow> add_entry_vectorized avx s (hashes ! Suc i) (path_nodes ! Suc i) None True;
     let path_nodes = path_nodes[Suc i := node];
     if ret \<noteq> SI_OK then Some (ret, path_nodes, written, s)
     else add_path_nodes_vectorized avx i hashes (path_nodes[i := entry_set_child_color (path_nodes ! i) (entry_color node)])
            (written + 1) s
   }"

primrec remove_path_nodes_vectorized :: "nat \<Rightarrow> u64 list \<Rightarrow> ct_entry list \<Rightarrow> nat \<Rightarrow> cuckoo_trie \<Rightarrow> cuckoo_trie option" where
  "remove_path_nodes_vectorized 0 hashes path_nodes path_idx trie = Some trie"
| "remove_path_nodes_vectorized (Suc n) hashes path_nodes path_idx trie = do {
     trie \<leftarrow> remove_entry_by_value_vectorized trie (path_nodes ! path_idx) (hashes ! path_idx);
     remove_path_nodes_vectorized n hashes path_nodes (path_idx - 1) trie
   }"

definition split_leaf_failed_vectorized ::
    "lock_state \<Rightarrow> u64 list \<Rightarrow> ct_entry list \<Rightarrow> nat \<Rightarrow> (ct_entry \<times> u64) option \<Rightarrow> (status \<times> lock_state) option" where
  "split_leaf_failed_vectorized s hashes path_nodes written maximal_leaf = do {
     let (trie, mgr) = s;
     trie \<leftarrow> remove_path_nodes_vectorized written hashes path_nodes (length path_nodes - 1) trie;
     trie \<leftarrow> (case maximal_leaf of
                None \<Rightarrow> Some trie
              | Some (content, hash) \<Rightarrow> remove_entry_by_value_vectorized trie content hash);
     Some (SI_RETRY, release_all_locks (trie, mgr))
   }"

definition split_leaf_publish_vectorized ::
    "lock_state \<Rightarrow> ct_finger \<Rightarrow> ct_pred_locator \<Rightarrow> ct_entry \<Rightarrow> u64 \<Rightarrow> u8 \<Rightarrow> (status \<times> ct_finger \<times> lock_state) option" where
  "split_leaf_publish_vectorized s finger loc path_head minimal_leaf_hash minimal_leaf_color = do {
     let (trie, mgr) = s;
     (copy, trie) \<leftarrow> mark_entry_dirty_vectorized trie (predecessor loc);
     let loc = loc\<lparr>predecessor := copy\<rparr>;
     (finger, trie) \<leftarrow> update_path_entry_vectorized trie finger path_head;
     (loc, trie) \<leftarrow> linklist_insert_two_vectorized trie loc minimal_leaf_hash minimal_leaf_color;
     (finger, trie) \<leftarrow> propagate_max_leaf_vectorized trie finger 0;
     (copy, trie) \<leftarrow> mark_entry_clean_vectorized trie (predecessor loc);
     Some (SI_OK, finger, release_all_locks (trie, mgr))
   }"

definition split_leaf_vectorized ::
    "bool \<Rightarrow> kv_heap \<Rightarrow> lock_state \<Rightarrow> ct_finger \<Rightarrow> u64 \<Rightarrow> bool \<Rightarrow> ct_pred_locator \<Rightarrow> (status \<times> ct_finger \<times> lock_state) option" where
  "split_leaf_vectorized avx heap s finger kv is_maximal loc = do {
     let leaf = lc_value (containing_entry finger);
     let existing_kv = entry_kv leaf;
     let original_leaf_next = next_leaf leaf;
     (ret, loc, s) \<leftarrow> split_leaf_locks_vectorized s finger loc;
     if ret = SI_RETRY then Some (SI_RETRY, finger, release_all_locks s)
     else do {
       (nodes, existing_key_symbol, new_key_symbol, symbol, prefix_hash) \<leftarrow>
         split_path (fst s) (heap existing_kv) (heap kv) (prefix_len finger) (ucast (last_prefix_symbol finger))
           (f_prefix_hash finger) [];
       let (minimal_child, maximal_child, minimal_kv, maximal_kv) =
         (if is_maximal then (existing_key_symbol, new_key_symbol, existing_kv, kv)
          else (new_key_symbol, existing_key_symbol, kv, existing_kv));
       let path_nodes = map fst nodes @ [new_bitmap_node symbol];
       let hashes = map snd nodes @ [prefix_hash];
       let num_path_nodes = length path_nodes;
       let path_nodes = path_nodes[0 := set_path_head leaf (path_nodes ! 0)];
       let minimal_leaf_hash = accumulate_hash (fst s) prefix_hash minimal_child;
       let maximal_leaf_hash = accumulate_hash (fst s) prefix_hash maximal_child;
       let maximal_content = zero_entry\<lparr>parent_color_and_flags := TYPE_LEAF, e_last_symbol := ucast maximal_child\<rparr>;
       (ret, maximal_leaf, maximal_content, s) \<leftarrow> add_entry_vectorized avx s maximal_leaf_hash maximal_content None True;
       if ret = SI_RETRY then do {
         (ret, s) \<leftarrow> split_leaf_failed_vectorized s hashes path_nodes 0 None; Some (ret, finger, s)
       }
       else if ret = SI_FAIL then Some (SI_FAIL, finger, release_all_locks s)
       else do {
         let (trie, mgr) = s;
         let maximal_leaf = the maximal_leaf;
         let trie = set_cell trie maximal_leaf (entry_set_kv (cell trie maximal_leaf) maximal_kv);
         let trie = set_cell trie maximal_leaf ((cell trie maximal_leaf)\<lparr>e_locator := original_leaf_next\<rparr>);
         let maximal_leaf_color = entry_color (cell trie maximal_leaf);
         let maximal_locator = \<lparr>loc_primary_bucket = ucast (hash_to_bucket maximal_leaf_hash),
               loc_tag = ucast (hash_to_tag maximal_leaf_hash), loc_color = maximal_leaf_color\<rparr>;
         let bitmap_node = path_nodes ! (num_path_nodes - 1);
         let bitmap_node = bitmap_node\<lparr>e_bytes := set_bit_at (child_bitmap bitmap_node) (unat minimal_child) True\<rparr>;
         let bitmap_node = bitmap_node\<lparr>e_bytes := set_bit_at (child_bitmap bitmap_node) (unat maximal_child) True\<rparr>;
         let bitmap_node = bitmap_node\<lparr>e_byte8 := ucast maximal_child\<rparr>;
         let path_nodes = path_nodes[num_path_nodes - 1 := bitmap_node];
         let path_nodes = map (\<lambda>node. node\<lparr>e_locator := maximal_locator\<rparr>) path_nodes;
         (ret, path_nodes, written, trie, mgr) \<leftarrow> add_path_nodes_vectorized avx (num_path_nodes - 1) hashes path_nodes 0 (trie, mgr);
         if ret = SI_RETRY then do {
           (ret, s) \<leftarrow> split_leaf_failed_vectorized (trie, mgr) hashes path_nodes written (Some (maximal_content, maximal_leaf_hash));
           Some (ret, finger, s)
         }
         else if ret = SI_FAIL then Some (SI_FAIL, finger, release_all_locks (trie, mgr))
         else do {
           let bitmap_color = entry_color (path_nodes ! (num_path_nodes - 1));
           let trie = set_cell trie maximal_leaf (entry_set_parent_color (cell trie maximal_leaf) bitmap_color);
           let minimal_content = zero_entry\<lparr>e_last_symbol := ucast minimal_child,
                 parent_color_and_flags := push_bit PARENT_COLOR_SHIFT bitmap_color OR TYPE_LEAF\<rparr>;
           let minimal_content = (entry_set_kv minimal_content minimal_kv)\<lparr>e_locator := maximal_locator\<rparr>;
           (ret, minimal_leaf, minimal_content, s) \<leftarrow>
             add_entry_vectorized avx (trie, mgr) minimal_leaf_hash minimal_content (Some maximal_leaf) True;
           if ret = SI_RETRY then do {
             (ret, s) \<leftarrow> split_leaf_failed_vectorized s hashes path_nodes written (Some (maximal_content, maximal_leaf_hash));
             Some (ret, finger, s)
           }
           else if ret = SI_FAIL then Some (SI_FAIL, finger, release_all_locks s)
           else split_leaf_publish_vectorized s finger loc (path_nodes ! 0) minimal_leaf_hash (entry_color minimal_content)
         }
       }
     }
   }"

subsection \<open>Splitting a jump node\<close>

definition split_jump_failed_vectorized ::
    "lock_state \<Rightarrow> ct_finger \<Rightarrow> (ct_entry \<times> entry_ptr) option \<Rightarrow> (status \<times> ct_finger \<times> lock_state) option" where
  "split_jump_failed_vectorized s finger bitmap = do {
     let (trie, mgr) = s;
     trie \<leftarrow> (case bitmap of
                None \<Rightarrow> Some trie
              | Some (bitmap_node, _) \<Rightarrow> remove_entry_by_value_vectorized trie bitmap_node (f_prefix_hash finger));
     Some (SI_RETRY, finger, release_all_locks (trie, mgr))
   }"

definition split_jump_publish_vectorized ::
    "lock_state \<Rightarrow> ct_finger \<Rightarrow> ct_entry \<Rightarrow> (ct_entry \<times> entry_ptr) option \<Rightarrow> u32 \<Rightarrow> (status \<times> ct_finger \<times> lock_state) option" where
  "split_jump_publish_vectorized s finger new_head bitmap bitmap_seq = do {
     let (trie, mgr) = s;
     (finger, trie) \<leftarrow> update_path_entry_vectorized trie finger new_head;
     let finger = reread_path_end finger;
     let finger = (case bitmap of
         None \<Rightarrow> finger
       | Some (bitmap_node, bitmap_node_in_trie) \<Rightarrow>
           finger_node_changed (finger\<lparr>containing_entry :=
             \<lparr>lc_value = bitmap_node, last_pos = bitmap_node_in_trie,
              lc_primary_bucket = hash_to_bucket (f_prefix_hash finger), last_seq = bitmap_seq\<rparr>\<rparr>) True);
     Some (SI_OK, finger, release_all_locks (trie, mgr))
   }"

definition split_jump_tail_vectorized ::
    "bool \<Rightarrow> lock_state \<Rightarrow> ct_entry \<Rightarrow> nat \<Rightarrow> u64 \<Rightarrow> ct_entry_local_copy \<Rightarrow> u8 \<Rightarrow> entry_ptr option
      \<Rightarrow> (status \<times> lock_state) option" where
  "split_jump_tail_vectorized avx s jump_node remaining_jump_symbols tail_prefix_hash bitmap_child bitmap_color bitmap_node_in_trie =
     (if remaining_jump_symbols + 1 < entry_jump_size jump_node
      then do {
        let split_symbol = get_jump_symbol jump_node remaining_jump_symbols;
        let tail = tail_jump_node jump_node remaining_jump_symbols split_symbol bitmap_color;
        (ret, tail_addr, tail, s) \<leftarrow> add_entry_vectorized avx s tail_prefix_hash tail bitmap_node_in_trie False;
        Some (ret, s)
      }
      else let (trie, mgr) = s
           in Some (SI_OK, entry_set_parent_color_atomic trie (last_pos bitmap_child) bitmap_color, mgr))"

definition split_jump_locks_vectorized ::
    "lock_state \<Rightarrow> ct_finger \<Rightarrow> u64 \<Rightarrow> (status \<times> ct_entry_local_copy \<times> lock_state) option" where
  "split_jump_locks_vectorized s finger tail_prefix_hash = do {
     let jump_node = lc_value (containing_entry finger);
     let has_tail = depth_in_jump finger + 1 < entry_jump_size jump_node;
     (ret, bitmap_child, s) \<leftarrow>
       (if has_tail then Some (SI_OK, zero_copy, s)
        else do {
          bitmap_child \<leftarrow> find_entry_in_pair_by_color_vectorized (fst s) (hash_to_bucket tail_prefix_hash)
            (hash_to_tag tail_prefix_hash) (ucast (entry_child_color jump_node));
          let (ret, s) = upgrade_lock s bitmap_child;
          Some (ret, bitmap_child, s)
        });
     if ret = SI_RETRY then Some (SI_RETRY, bitmap_child, s)
     else let (ret, s) = upgrade_lock s (containing_entry finger) in Some (ret, bitmap_child, s)
   }"

definition split_jump_node_vectorized :: "bool \<Rightarrow> lock_state \<Rightarrow> ct_finger \<Rightarrow> (status \<times> ct_finger \<times> lock_state) option" where
  "split_jump_node_vectorized avx s finger = do {
     let remaining_jump_symbols = depth_in_jump finger;
     let jump_node_backup = lc_value (containing_entry finger);
     let split_symbol = get_jump_symbol jump_node_backup remaining_jump_symbols;
     let tail_prefix_hash = accumulate_hash (fst s) (f_prefix_hash finger) split_symbol;
     (ret, bitmap_child, s) \<leftarrow> split_jump_locks_vectorized s finger tail_prefix_hash;
     if ret = SI_RETRY then split_jump_failed_vectorized s finger None
     else do {
       let new_head = split_head jump_node_backup remaining_jump_symbols;
       let bitmap_node = split_bitmap jump_node_backup remaining_jump_symbols (last_prefix_symbol finger);
       if remaining_jump_symbols = 0
       then do {
         (ret, s) \<leftarrow> split_jump_tail_vectorized avx s jump_node_backup remaining_jump_symbols tail_prefix_hash bitmap_child
           (entry_color bitmap_node) None;
         if ret = SI_RETRY then split_jump_failed_vectorized s finger None
         else if ret = SI_FAIL then Some (SI_FAIL, finger, release_all_locks s)
         else split_jump_publish_vectorized s finger bitmap_node None (- 1)
       }
       else do {
         (ret, bitmap_node_in_trie, bitmap_node, s) \<leftarrow> add_entry_vectorized avx s (f_prefix_hash finger) bitmap_node None True;
         if ret = SI_RETRY then split_jump_failed_vectorized s finger None
         else if ret = SI_FAIL then Some (SI_FAIL, finger, release_all_locks s)
         else do {
           let bitmap = (bitmap_node, the bitmap_node_in_trie);
           let bitmap_seq = bucket_word (fst s) (fst (the bitmap_node_in_trie));
           let new_head = entry_set_child_color new_head (entry_color bitmap_node);
           (ret, s) \<leftarrow> split_jump_tail_vectorized avx s jump_node_backup remaining_jump_symbols tail_prefix_hash bitmap_child
             (entry_color bitmap_node) bitmap_node_in_trie;
           if ret = SI_RETRY then split_jump_failed_vectorized s finger (Some bitmap)
           else if ret = SI_FAIL then Some (SI_FAIL, finger, release_all_locks s)
           else split_jump_publish_vectorized s finger new_head (Some bitmap) bitmap_seq
         }
       }
     }
   }"

subsection \<open>Insertions\<close>

definition create_leaf_in_bitmap_vectorized ::
    "bool \<Rightarrow> lock_state \<Rightarrow> ct_finger \<Rightarrow> u64 \<Rightarrow> u64 \<Rightarrow> (status \<times> ct_finger \<times> lock_state) option" where
  "create_leaf_in_bitmap_vectorized avx s finger kv next_symbol = do {
     let loc = prefetch_bitmap_child_predecessor (fst s) finger (unat next_symbol);
     let new_leaf_hash = accumulate_hash (fst s) (f_prefix_hash finger) next_symbol;
     let (ret, s) = upgrade_lock s (containing_entry finger);
     if ret = SI_RETRY then create_leaf_failed s finger
     else do {
       let (ret, s) = upgrade_locks_on_left_parents_above s finger (last_path_entry finger);
       if ret = SI_RETRY then create_leaf_failed s finger
       else do {
         (ret, loc, s) \<leftarrow> lock_predecessor_vectorized s finger loc;
         if ret = SI_RETRY then create_leaf_failed s finger
         else do {
           (ret, new_leaf, child, s) \<leftarrow>
             create_bitmap_child_vectorized avx s finger (entry_color (lc_value (containing_entry finger))) next_symbol kv;
           if ret = SI_RETRY then create_leaf_failed s finger
           else if ret = SI_FAIL then Some (SI_FAIL, finger, release_all_locks s)
           else do {
             let (trie, mgr) = s;
             let new_leaf = the new_leaf;
             let new_leaf_next = next_leaf (lc_value (predecessor loc));
             let trie = set_cell trie new_leaf ((cell trie new_leaf)\<lparr>e_locator := new_leaf_next\<rparr>);
             (copy, trie) \<leftarrow> mark_entry_dirty_vectorized trie (predecessor loc);
             let loc = loc\<lparr>predecessor := copy\<rparr>;
             (loc, trie) \<leftarrow> linklist_insert_vectorized trie loc (cell trie new_leaf) (hash_to_bucket new_leaf_hash);
             (copy, trie) \<leftarrow> mark_bitmap_child_vectorized trie (pe_entry (f_path finger ! last_path_entry finger)) next_symbol
               new_leaf_hash (entry_color (cell trie new_leaf));
             let finger = set_path_copy finger (last_path_entry finger) copy;
             let finger = reread_path_end finger;
             (finger, trie) \<leftarrow> propagate_max_leaf_vectorized trie finger 0;
             (copy, trie) \<leftarrow> mark_entry_clean_vectorized trie (predecessor loc);
             Some (SI_OK, finger, release_all_locks (trie, mgr))
           }
         }
       }
     }
   }"

definition create_leaf_at_leaf_vectorized ::
    "bool \<Rightarrow> kv_heap \<Rightarrow> lock_state \<Rightarrow> ct_finger \<Rightarrow> u64 \<Rightarrow> (status \<times> ct_finger \<times> lock_state) option" where
  "create_leaf_at_leaf_vectorized avx heap s finger kv =
     (let loc = prefetch_leaf_predecessor (fst s) finger;
          leaf_kv = entry_kv (lc_value (containing_entry finger));
          leaf_cmp = kv_key_compare (heap leaf_kv) (heap kv)
      in if leaf_cmp = 0 then Some (SI_EXISTS, finger, s)
         else split_leaf_vectorized avx heap s finger kv (leaf_cmp < 0) loc)"

definition create_leaf_vectorized ::
    "bool \<Rightarrow> kv_heap \<Rightarrow> lock_state \<Rightarrow> ct_finger \<Rightarrow> u64 \<Rightarrow> u64 \<Rightarrow> (status \<times> ct_finger \<times> lock_state) option" where
  "create_leaf_vectorized avx heap s finger kv next_symbol = do {
     (ret, finger, s) \<leftarrow>
       (if entry_type (lc_value (containing_entry finger)) = TYPE_JUMP then split_jump_node_vectorized avx s finger
        else Some (SI_OK, finger, s));
     if ret = SI_RETRY then create_leaf_failed s finger
     else if ret = SI_FAIL then Some (SI_FAIL, finger, s)
     else if entry_type (lc_value (containing_entry finger)) = TYPE_BITMAP
     then create_leaf_in_bitmap_vectorized avx s finger kv next_symbol
     else create_leaf_at_leaf_vectorized avx heap s finger kv
   }"

definition ct_insert_internal_vectorized :: "bool \<Rightarrow> kv_heap \<Rightarrow> cuckoo_trie \<Rightarrow> u64 \<Rightarrow> bool \<Rightarrow> (status \<times> lock_state) option" where
  "ct_insert_internal_vectorized avx heap trie kv is_upsert = do {
     let key = heap kv;
     (root, finger) \<leftarrow> init_finger trie;
     let s = (trie, init_lock_mgr);
     (ret, s) \<leftarrow> (if root = None then create_root s kv else Some (SI_EXISTS, s));
     if ret = SI_OK then Some (SI_OK, s)
     else do {
       (root, finger) \<leftarrow> (if root = None then init_finger (fst s) else Some (root, finger));
       (symbol, finger) \<leftarrow> descend_vectorized (fst s) finger (unat (kv_key_size key)) (kv_bytes key) True;
       (result, finger, s) \<leftarrow> create_leaf_vectorized avx heap s finger kv (of_int symbol);
       if is_upsert \<and> result = SI_EXISTS
       then do {
         (ret, s) \<leftarrow> replace_leaf_kv_vectorized s finger kv;
         if ret = SI_RETRY then Some (SI_RETRY, s) else Some (result, s)
       }
       else Some (result, s)
     }
   }"

partial_function (option) insert_attempts_vectorized ::
    "bool \<Rightarrow> kv_heap \<Rightarrow> interference \<Rightarrow> nat \<Rightarrow> cuckoo_trie \<Rightarrow> u64 \<Rightarrow> bool \<Rightarrow> (status \<times> cuckoo_trie) option" where
  "insert_attempts_vectorized avx heap act n trie kv is_upsert = do {
     (ret, trie, mgr) \<leftarrow> ct_insert_internal_vectorized avx heap trie kv is_upsert;
     if ret = SI_RETRY then insert_attempts_vectorized avx heap act (n + 1) (act n trie) kv is_upsert
     else Some (ret, trie)
   }"

definition ct_insert_vectorized :: "bool \<Rightarrow> kv_heap \<Rightarrow> interference \<Rightarrow> cuckoo_trie \<Rightarrow> u64 \<Rightarrow> (api_result \<times> cuckoo_trie) option" where
  "ct_insert_vectorized avx heap act trie kv =
     (if unat (kv_key_size (heap kv)) > MAX_KEY_BYTES then Some (S_KEYTOOLONG, trie)
      else do {
        (ret, trie) \<leftarrow> insert_attempts_vectorized avx heap act 0 trie kv False;
        if ret = SI_FAIL then Some (S_OVERFLOW, trie)
        else if ret = SI_EXISTS then Some (S_ALREADYIN, trie)
        else Some (S_OK, trie)
      })"

definition ct_upsert_vectorized ::
    "bool \<Rightarrow> kv_heap \<Rightarrow> interference \<Rightarrow> cuckoo_trie \<Rightarrow> u64 \<Rightarrow> (api_result \<times> bool option \<times> cuckoo_trie) option" where
  "ct_upsert_vectorized avx heap act trie kv =
     (if unat (kv_key_size (heap kv)) > MAX_KEY_BYTES then Some (S_KEYTOOLONG, None, trie)
      else do {
        (ret, trie) \<leftarrow> insert_attempts_vectorized avx heap act 0 trie kv True;
        if ret = SI_FAIL then Some (S_OVERFLOW, None, trie)
        else Some (S_OK, Some (ret \<noteq> SI_EXISTS), trie)
      })"

section \<open>Allocation\<close>

text \<open>A cell is initialised by a copy of a whole template, not field by field.\<close>

definition init_bucket_vectorized :: "ct_bucket \<Rightarrow> ct_bucket" where
  "init_bucket_vectorized bucket =
     (let unused = zero_entry\<lparr>parent_color_and_flags := push_bit PARENT_COLOR_SHIFT INVALID_COLOR OR TYPE_UNUSED,
            color_and_tag := push_bit TAG_BITS INVALID_COLOR\<rparr>
      in bucket\<lparr>cells := map (\<lambda>_. unused) (cells bucket), write_lock_and_seq := 0\<rparr>)"

definition init_buckets_vectorized :: "cuckoo_trie \<Rightarrow> cuckoo_trie" where
  "init_buckets_vectorized trie =
     (let n = unat (num_buckets trie)
      in trie\<lparr>buckets := map init_bucket_vectorized (take n (buckets trie)) @ drop n (buckets trie)\<rparr>)"

definition ct_alloc_vectorized :: "(u64 \<Rightarrow> ct_bucket list option) \<Rightarrow> bool \<Rightarrow> u64 \<Rightarrow> cuckoo_trie option" where
  "ct_alloc_vectorized os_mmap os_malloc num_cells =
     (let n = buckets_for num_cells;
          buckets_to_alloc = n + 1;
          buckets_pages = buckets_to_alloc * 64 div HUGEPAGE_SIZE + 1
      in case mmap_hugepage os_mmap (buckets_pages * HUGEPAGE_SIZE) of
           None \<Rightarrow> None
         | Some memory \<Rightarrow>
             (if \<not> os_malloc then None
              else let trie = \<lparr>buckets = take (unat n + 1) memory, num_buckets = n, num_pairs = n * 2 ^ TAG_BITS,
                         num_shuffle_blocks = drop_bit BITS_PER_SYMBOL (n * 2 ^ TAG_BITS),
                         bucket_mix_table = [], is_empty = True\<rparr>;
                       head = trie_min_leaf trie;
                       trie = set_cell trie head ((cell trie head)\<lparr>parent_color_and_flags := TYPE_LEAF\<rparr>);
                       trie = set_cell trie head ((cell trie head)\<lparr>e_locator :=
                         (next_leaf (cell trie head))\<lparr>loc_primary_bucket := - 1\<rparr>\<rparr>);
                       trie = init_bucket_mix_table trie
                   in Some (init_buckets_vectorized trie)))"

end
