(* ===== verification/VectorizedTable.thy ===== *)
theory VectorizedTable
  imports VectorizedOps TableMap
begin

text \<open>
  The hash table of the build with the vectorized searches: on a well-formed table its
  searches, updates and additions are those of \<open>main.c\<close>.
\<close>

section \<open>The searches of a pair\<close>

lemma both_buckets_ok:
  assumes ok: "table_ok trie" and b: "valid_bucket trie b" and t: "valid_tag tag"
  shows "wf_bucket (bucket_of trie b)" "unused_cells_marked (bucket_of trie b)"
    "wf_bucket (bucket_of trie (mix_bucket trie b tag))" "unused_cells_marked (bucket_of trie (mix_bucket trie b tag))"
proof -
  have "valid_bucket trie (mix_bucket trie b tag)" using pair.mix_valid [OF table_okD(2) [OF ok] b t] .
  then show "wf_bucket (bucket_of trie b)" "unused_cells_marked (bucket_of trie b)"
    "wf_bucket (bucket_of trie (mix_bucket trie b tag))" "unused_cells_marked (bucket_of trie (mix_bucket trie b tag))"
    using b table_okD(4,5) [OF ok] by (simp_all add: bucket_of_def valid_bucket_unat)
qed

lemma pair_by_color_vectorized:
  assumes ok: "table_ok trie" and b: "valid_bucket trie b" and t: "tag < 16" and c: "color < 9"
  shows "find_entry_in_pair_by_color_vectorized trie b tag color = find_entry_in_pair_by_color trie b tag color"
proof -
  note pb = both_buckets_ok [OF ok b, unfolded valid_tag_def, OF t]
  note eq = find_by_color_vectorized_eq [OF pb(1,2) t c, of False] find_by_color_vectorized_eq [OF pb(3,4) t c, of True]
  show ?thesis
  proof (cases "find_entry_in_bucket_by_color (bucket_of trie b) False tag color = None \<and>
      find_entry_in_bucket_by_color (bucket_of trie (mix_bucket trie b tag)) True tag color = None")
    case True
    then show ?thesis using pair_by_color_returns [of trie b tag color] pair_by_color_vectorized_returns [of trie b tag color] eq
      by (metis not_Some_eq)
  next
    case False
    then show ?thesis
      by (subst find_entry_in_pair_by_color_vectorized.simps, subst find_entry_in_pair_by_color.simps)
        (auto simp: Let_def eq split: option.splits)
  qed
qed

lemma pair_by_parent_vectorized:
  assumes ok: "table_ok trie" and b: "valid_bucket trie b" and t: "tag < 16" and ls: "ls < 256" and pc: "pc < 9"
  shows "find_entry_in_pair_by_parent_vectorized trie b tag ls pc = find_entry_in_pair_by_parent trie b tag ls pc"
proof -
  have c: "pc < 16" "pc \<noteq> 9" using pc less_trans [OF pc, of 16] by auto
  note pb = both_buckets_ok [OF ok b, unfolded valid_tag_def, OF t]
  note eq = find_by_parent_vectorized_eq [OF pb(1,2) t ls c, of False] find_by_parent_vectorized_eq [OF pb(3,4) t ls c, of True]
  show ?thesis
  proof (cases "find_entry_in_bucket_by_parent (bucket_of trie b) False tag ls pc = None \<and>
      find_entry_in_bucket_by_parent (bucket_of trie (mix_bucket trie b tag)) True tag ls pc = None")
    case True
    then show ?thesis
      using pair_by_parent_returns [of trie b tag ls pc] pair_by_parent_vectorized_returns [of trie b tag ls pc] eq
      by (metis not_Some_eq)
  next
    case False
    then show ?thesis
      by (subst find_entry_in_pair_by_parent_vectorized.simps, subst find_entry_in_pair_by_parent.simps)
        (auto simp: Let_def eq split: option.splits)
  qed
qed

lemma color_small: "c < (9 :: u8) \<Longrightarrow> (ucast c :: u64) < 9"
  by (simp add: word_less_nat_alt unsigned_ucast_eq take_bit_eq_mod)

section \<open>Updates and additions\<close>

lemma update_entry_vectorized_eq:
  assumes ok: "table_ok trie" and b: "valid_bucket trie (lc_primary_bucket c)" and color: "entry_color (lc_value c) < 9"
  shows "update_entry_vectorized trie c e = update_entry trie c e"
proof -
  have "ucast (entry_tag (lc_value c)) < (16 :: u64)" using valid_tag_of_entry [of "lc_value c"] by (simp add: valid_tag_def)
  from pair_by_color_vectorized [OF ok b this color_small [OF color]]
  have "update_entry_slow_path_vectorized trie c e = update_entry_slow_path trie c e"
    by (simp add: update_entry_slow_path_vectorized_def update_entry_slow_path_def)
  then show ?thesis by (simp add: update_entry_vectorized_def update_entry_def)
qed

lemma add_in_cell_vectorized_eq:
  assumes ok: "table_ok trie" and h: "valid_hash trie h"
  shows "add_in_cell_vectorized avx (trie, mgr) h e lock p rb fl alt = add_in_cell (trie, mgr) h e lock p rb fl alt"
proof -
  have "valid_sizes trie" using table_okD(2) [OF ok] by auto
  note hs = hash_split_valid [OF this h]
  note w = both_buckets_ok [OF ok hs]
  show ?thesis by (simp add: add_in_cell_vectorized_def add_in_cell_def unused_color_vectorized_eq [OF w(1,3)])
qed

lemma valid_hash_buckets:
  assumes "table_ok t" and "valid_sizes trie" and "num_buckets t = num_buckets trie" and "valid_hash trie h"
  shows "valid_hash t h"
proof -
  have "valid_sizes t" using table_okD(2) [OF assms(1)] by auto
  then have "unat (num_pairs t) = unat (num_pairs trie)" using assms(2,3) by (elim valid_sizes_unat) simp
  then show ?thesis using assms(4) by (simp add: valid_hash_def word_less_nat_alt)
qed

theorem add_entry_vectorized_eq:
  assumes tok: "table_ok trie" and lok: "locks_ok others (trie, mgr)" and h: "valid_hash trie h"
  shows "add_entry_vectorized avx (trie, mgr) h e immovable lock = add_entry (trie, mgr) h e immovable lock"
proof -
  let ?b = "hash_to_bucket h" and ?d = "mix_bucket trie (hash_to_bucket h) (hash_to_tag h)"
  have vt: "valid_table trie" using table_okD(2) [OF tok] .
  then have vs: "valid_sizes trie" by auto
  note hs = hash_split_valid [OF vs h]
  have vd: "valid_bucket trie ?d" by (rule pair.mix_valid [OF vt hs])
  obtain st1 t1 m1 where s1: "upgrade_bucket_lock (trie, mgr) (read_lock_bucket trie (unat ?b)) = (st1, t1, m1)"
    using prod_cases3 by blast
  obtain st2 t2 m2 where s2: "upgrade_bucket_lock (trie, mgr) (read_lock_bucket trie (unat ?d)) = (st2, t2, m2)"
    using prod_cases3 by blast
  have same: "add_in_cell_vectorized avx (t, m) h e lock p rb fl alt = add_in_cell (t, m) h e lock p rb fl alt"
    if "table_ok t" "num_buckets t = num_buckets trie" for t m p rb fl alt
    by (rule add_in_cell_vectorized_eq [OF that(1) valid_hash_buckets [OF that(1) vs that(2) h]])
  have one: "add_in_cell_vectorized avx (t1, m1) h e lock p rb fl alt = add_in_cell (t1, m1) h e lock p rb fl alt"
    if st: "st1 \<noteq> SI_RETRY" for p rb fl alt
    by (rule same) (use upgrade_then [OF tok lok hs(1) s1 st] unlocked_fields(1) in blast)+
  have two: "add_in_cell_vectorized avx (t2, m2) h e lock p rb fl alt = add_in_cell (t2, m2) h e lock p rb fl alt"
    if st: "st2 \<noteq> SI_RETRY" for p rb fl alt
    by (rule same) (use upgrade_then [OF tok lok vd s2 st] unlocked_fields(1) in blast)+
  show ?thesis
  proof (cases "find_free_cell_in_bucket (bucket_of trie ?b) = None \<and> find_free_cell_in_bucket (bucket_of trie ?d) = None \<and> st1 \<noteq> SI_RETRY")
    case False
    then show ?thesis using one two s1 s2
      by (auto simp: add_entry_vectorized_def add_entry_def Let_def split: option.split)
  next
    case True
    then have full: "find_free_cell_in_bucket (bucket_of trie ?b) = None" "find_free_cell_in_bucket (bucket_of trie ?d) = None"
      and st: "st1 \<noteq> SI_RETRY" by auto
    note up = upgrade_then [OF tok lok hs(1) s1 st]
    note st1 = same_table [OF up(3) tok]
    have vb1: "valid_bucket t1 ?b" using hs(1) st1(3) by (simp add: valid_bucket_def)
    have full1: "find_free_cell_in_bucket (bucket_of t1 ?b) = None"
      using full(1) st1(7) [OF hs(1)] by (simp add: find_free_cell_in_bucket_def)
    have "0 < spare_refs m1 (unat ?b)" using up(4) by simp
    from relocate_entry_ok [OF up(1,2) vb1 full1 this, of immovable] obtain r out t3 m3 where
      r: "relocate_entry (t1, m1) ?b immovable = Some (r, out, t3, m3)" "relocated others immovable ?b (t1, m1) r out (t3, m3)" by auto
    have "table_ok t3" "num_buckets t3 = num_buckets trie" using r(2) st1(3) by (simp_all add: relocated_def)
    then show ?thesis using full st s1 r(1) by (simp add: add_entry_vectorized_def add_entry_def Let_def same)
  qed
qed

end
