(* ===== verification/CreateSteps.thy ===== *)
theory CreateSteps
  imports GraftLeaf VectorizedTable
begin

text \<open>
  The steps of an insertion on the state: each is one write through a reference, or the
  change of a new leaf before anything leads to it. A write through one reference leaves the
  others usable, keeps the locks, and changes the shape at its own node only. Through a
  reference both builds make the same write.
\<close>

subsection \<open>Marking a leaf\<close>

lemma bit_8: "bit (8 :: u8) n \<longleftrightarrow> n = 3"
proof -
  have "(8 :: u8) = push_bit 3 1" by code_simp
  then show ?thesis by (simp only: bit_push_bit_iff bit_1_iff) auto
qed

lemma dirty_bits:
  "bit (parent_color_and_flags e OR FLAG_DIRTY) n \<longleftrightarrow> n = 3 \<or> bit (parent_color_and_flags e) n"
  "bit (parent_color_and_flags e AND NOT FLAG_DIRTY) n \<longleftrightarrow> n \<noteq> 3 \<and> bit (parent_color_and_flags e) n"
  by (simp only: bit_or_iff bit_and_iff bit_not_iff bit_8; auto dest: bit_imp_le_length)+

lemma dirty_fields:
  assumes "wf_entry e"
  shows "wf_entry (entry_set_dirty e)" "entry_type (entry_set_dirty e) = entry_type e"
    "color_and_tag (entry_set_dirty e) = color_and_tag e" "entry_is_secondary (entry_set_dirty e) = entry_is_secondary e"
    and "wf_entry (entry_set_clean e)" "entry_type (entry_set_clean e) = entry_type e"
    "color_and_tag (entry_set_clean e) = color_and_tag e" "entry_is_secondary (entry_set_clean e) = entry_is_secondary e"
proof -
  note eq = entry_set_dirty_eq [OF assms] entry_set_clean_eq [OF assms]
  show "wf_entry (entry_set_dirty e)" "wf_entry (entry_set_clean e)" "color_and_tag (entry_set_dirty e) = color_and_tag e"
    "color_and_tag (entry_set_clean e) = color_and_tag e" using assms unfolding eq by (simp_all add: wf_entry_def)
  have bits: "bit (parent_color_and_flags (entry_set_dirty e)) n \<longleftrightarrow> n = 3 \<or> bit (parent_color_and_flags e) n"
    "bit (parent_color_and_flags (entry_set_clean e)) n \<longleftrightarrow> n \<noteq> 3 \<and> bit (parent_color_and_flags e) n" for n
    using dirty_bits [of e n] by (simp_all add: eq)
  show "entry_type (entry_set_dirty e) = entry_type e" "entry_type (entry_set_clean e) = entry_type e"
    by (rule entry_type_eqI; simp add: bits)+
  show "entry_is_secondary (entry_set_dirty e) = entry_is_secondary e" "entry_is_secondary (entry_set_clean e) = entry_is_secondary e"
    unfolding entry_is_secondary_bit bits by simp_all
qed

text \<open>A clean leaf that is marked, linked to another leaf and marked clean again.\<close>

lemma erase_set:
  assumes "wf_entry e"
  shows "erase_side (entry_set_dirty e) = (erase_side e)\<lparr>parent_color_and_flags := parent_color_and_flags (erase_side e) OR FLAG_DIRTY\<rparr>"
    and "erase_side (entry_set_clean e) = (erase_side e)\<lparr>parent_color_and_flags := parent_color_and_flags (erase_side e) AND NOT FLAG_DIRTY\<rparr>"
proof -
  let ?f = "parent_color_and_flags e"
  have "(?f AND NOT FLAG_SECONDARY_BUCKET) OR FLAG_DIRTY = (?f OR FLAG_DIRTY) AND NOT FLAG_SECONDARY_BUCKET"
    by (rule bit_word_eqI) (simp only: bit_or_iff bit_and_iff bit_not_iff bit_8 bit_4, auto)
  moreover have "(?f AND NOT FLAG_SECONDARY_BUCKET) AND NOT FLAG_DIRTY = (?f AND NOT FLAG_DIRTY) AND NOT FLAG_SECONDARY_BUCKET"
    by (simp only: ac_simps)
  ultimately show "erase_side (entry_set_dirty e) = (erase_side e)\<lparr>parent_color_and_flags := parent_color_and_flags (erase_side e) OR FLAG_DIRTY\<rparr>"
    "erase_side (entry_set_clean e) = (erase_side e)\<lparr>parent_color_and_flags := parent_color_and_flags (erase_side e) AND NOT FLAG_DIRTY\<rparr>"
    by (simp_all add: entry_set_dirty_eq [OF assms] entry_set_clean_eq [OF assms] erase_side_def)
qed

lemma marked_and_linked:
  assumes wf: "wf_entry v" "wf_entry v1" "wf_entry v2" and clean: "\<not> entry_dirty v"
    and v1: "erase_side v1 = erase_side (entry_set_dirty v)" and v2: "erase_side v2 = erase_side (v1\<lparr>e_locator := k\<rparr>)"
  shows "erase_side (entry_set_clean v2) = (erase_side v)\<lparr>e_locator := k\<rparr>"
proof -
  let ?f = "parent_color_and_flags (erase_side v)"
  have f: "(?f OR FLAG_DIRTY) AND NOT FLAG_DIRTY = ?f"
  proof (rule bit_word_eqI)
    fix n
    show "bit ((?f OR FLAG_DIRTY) AND NOT FLAG_DIRTY) n = bit ?f n"
      using clean dirty_bits(2) [of "(erase_side v)\<lparr>parent_color_and_flags := ?f OR FLAG_DIRTY\<rparr>" n] dirty_bits(1) [of "erase_side v" n]
      by (auto simp: entry_dirty_bit bit_sides)
  qed
  have "erase_side v2 = (erase_side v)\<lparr>parent_color_and_flags := ?f OR FLAG_DIRTY, e_locator := k\<rparr>"
    using v1 v2 erase_set(1) [OF wf(1)] by simp
  then show ?thesis using erase_set(2) [OF wf(3)] f by simp
qed

subsection \<open>Writes through references\<close>

lemma node_wf:
  assumes tr: "tracks trie T" and e: "T p = Some e"
  shows "wf_entry e" and "entry_type e \<noteq> TYPE_UNUSED"
proof -
  obtain pos where pos: "pos \<in> table_cells trie" "erase_side (cell trie pos) = e"
    using find_by_color_in_content [OF tracksD(1) [OF tr] tracksD(5) [OF tr e]] by auto
  have "entry_type (cell trie pos) \<noteq> TYPE_UNUSED"
    by (rule content_used [OF tracksD(1) [OF tr] pos(1)]) (use tracksD(5) [OF tr e] pos(2) in simp)
  moreover have "wf_entry (cell trie pos)" using wf_cell(1) [OF table_okD(1) [OF tracksD(4) [OF tr]] pos(1)] .
  ultimately show "wf_entry e" "entry_type e \<noteq> TYPE_UNUSED" using erased_node(1,2) [OF pos(2)] by simp_all
qed

lemma ref_value:
  assumes v: "view trie T m" and r: "ref_on trie T (Some p) n c"
  shows "T p = Some (erase_side (lc_value c))" and "wf_entry (lc_value c)" and "entry_type (lc_value c) \<noteq> TYPE_UNUSED"
proof -
  show T: "T p = Some (erase_side (lc_value c))" using r by (simp add: ref_on_def copy_on_def)
  show "wf_entry (lc_value c)" "entry_type (lc_value c) \<noteq> TYPE_UNUSED"
    using node_wf [OF viewD(2) [OF v] T] by (metis erased_node(1,2))+
qed

text \<open>The node at \<open>p\<close> is in the cell \<open>pos\<close>. Only a write through a reference to it moves or changes it.\<close>

definition sits :: "cuckoo_trie \<Rightarrow> shape \<Rightarrow> u64 list \<Rightarrow> entry_ptr \<Rightarrow> bool" where
  "sits trie T p pos \<longleftrightarrow> pos \<in> table_cells trie \<and>
     home trie (fst pos) (cell trie pos) = hash_to_bucket (hash_path trie p) \<and> T p = Some (erase_side (cell trie pos))"

lemma sits_used:
  assumes tr: "tracks trie T" and s: "sits trie T p pos"
  shows "entry_type (cell trie pos) \<noteq> TYPE_UNUSED"
  by (rule content_used [OF tracksD(1) [OF tr]]) (use s tracksD(5) [OF tr, of p "erase_side (cell trie pos)"] in \<open>auto simp: sits_def\<close>)

lemma update_keeps_place:
  assumes v: "view trie T m" and c: "ref_on trie T r n c" and n: "n < 2 ^ 23"
    and e: "wf_entry e" "entry_type e \<noteq> TYPE_UNUSED" "color_and_tag e = color_and_tag (lc_value c)"
      "entry_is_secondary e = entry_is_secondary (lc_value c)"
    and u: "update_entry trie c e = Some (c', trie')" and s: "sits trie T p pos" and r: "r \<noteq> Some p"
  shows "cell trie' pos = cell trie pos"
proof -
  note tr = viewD(2) [OF v] and ok = viewD(3) [OF v]
  have pos: "pos \<in> table_cells trie" using s by (simp add: sits_def)
  show ?thesis
  proof (cases r)
    case None
    let ?p = "trie_min_leaf trie"
    have "last_pos c = ?p" "validate_entry trie c" using c None by (simp_all add: ref_on_def validate_entry_def)
    then have "trie' = snd (write_entry trie ?p e)" using u by (simp add: update_entry_def case_prod_beta)
    then show ?thesis using write_min_leaf(3) [OF ok e(1)] min_leaf_ptr(3) [OF ok pos] by simp
  next
    case (Some q)
    then have "copy_on trie T q n c" using c by (simp add: ref_on_def)
    from update_entry_tracks [OF tr this n e] u obtain pos' f where w: "trie' = snd (write_entry trie pos' f)" "pos' \<in> table_cells trie"
      "wf_entry f" "home trie (fst pos') (cell trie pos') = hash_to_bucket (hash_path trie q)" "T q = Some (erase_side (cell trie pos'))"
      by auto
    have s': "sits trie T q pos'" using w by (simp add: sits_def)
    from place_unique_cell [OF tr w(5) _ w(2) pos w(4) _ sits_used [OF tr s'] sits_used [OF tr s]] have "pos' \<noteq> pos"
      using s r Some by (auto simp: sits_def)
    then show ?thesis using cell_write_entry [OF ok w(2,3), of pos] w(1) by simp
  qed
qed

lemma ref_vectorized:
  assumes v: "view trie T m" and c: "ref_on trie T r n c"
  shows "update_entry_vectorized trie c e = update_entry trie c e"
proof (cases r)
  case None
  then have "validate_entry trie c" using c by (simp add: ref_on_def validate_entry_def)
  then show ?thesis by (simp add: update_entry_vectorized_def update_entry_def)
next
  case (Some p)
  note tr = viewD(2) [OF v] and ok = viewD(3) [OF v]
  have T: "T p = Some (erase_side (lc_value c))" and b: "lc_primary_bucket c = hash_to_bucket (hash_path trie p)"
    using c Some by (simp_all add: ref_on_def copy_on_def)
  note m = tracksD(5) [OF tr T]
  then obtain q where "q \<in> table_cells trie" "hash_to_bucket (hash_path trie p) = home trie (fst q) (cell trie q)"
    by (auto simp: content_member)
  then have "valid_bucket trie (lc_primary_bucket c)" unfolding b using home_valid [OF ok] by simp
  moreover have "entry_color (lc_value c) < 9"
  proof -
    have "entry_color (lc_value c) \<le> MAX_VALID_COLOR"
      using table_invD(3) [OF tracksD(1) [OF tr]] m by (fastforce simp: valid_colors_def)
    then show ?thesis by (simp add: word_less_nat_alt word_le_nat_alt)
  qed
  ultimately show ?thesis by (rule update_entry_vectorized_eq [OF ok])
qed

theorem update_step:
  assumes v: "view trie T m" and lok: "locks_ok others (trie, mgr)" and c: "ref_on trie T r n c" and n: "n < 2 ^ 23"
    and e: "wf_entry e" "entry_type e \<noteq> TYPE_UNUSED" "color_and_tag e = color_and_tag (lc_value c)"
      "entry_is_secondary e = entry_is_secondary (lc_value c)"
  shows "\<exists>c' trie'. update_entry trie c e = Some (c', trie') \<and> update_entry_vectorized trie c e = Some (c', trie') \<and>
    view trie' (put_node r e T) (put_min r e m) \<and> locks_ok others (trie', mgr) \<and> frame trie' = frame trie \<and> ref_on trie' (put_node r e T) r 0 c' \<and>
    erase_side (lc_value c') = erase_side e \<and> (r = None \<longrightarrow> lc_value c' = e) \<and>
    (\<forall>r' k d. ref_on trie T r' k d \<and> r' \<noteq> r \<longrightarrow> ref_on trie' (put_node r e T) r' (k + 1) d) \<and>
    (\<forall>p pos. sits trie T p pos \<and> r \<noteq> Some p \<longrightarrow> sits trie' (put_node r e T) p pos \<and> cell trie' pos = cell trie pos)"
proof -
  obtain c' trie' q f where u: "update_entry trie c e = Some (c', trie')" "view trie' (put_node r e T) (put_min r e m)"
    "wrote (ref_buckets trie r) 1 trie trie'" "ref_on trie' (put_node r e T) r 0 c'" "erase_side (lc_value c') = erase_side e"
    "r = None \<longrightarrow> lc_value c' = e" "trie' = snd (write_entry trie q f)" using update_ref [OF v c n e] by blast
  note F = frame_fields [OF wrote_frame [OF u(3)]]
  have "ref_on trie' (put_node r e T) r' (k + 1) d" if "ref_on trie T r' k d" "r' \<noteq> r" for r' k d
    by (rule ref_on_wrote [OF that(1) u(3)]) (use that(2) viewD(3) [OF v] in \<open>auto simp: put_node_def ref_buckets_def split: option.split\<close>)
  moreover have "locks_ok others (trie', mgr)" unfolding u(7) by (rule locks_ok_write_entry [OF lok])
  moreover have "sits trie' (put_node r e T) p pos \<and> cell trie' pos = cell trie pos" if "sits trie T p pos" "r \<noteq> Some p" for p pos
    using update_keeps_place [OF v c n e u(1) that] that F by (auto simp: sits_def put_node_def split: option.split)
  moreover have "update_entry_vectorized trie c e = Some (c', trie')" unfolding ref_vectorized [OF v c] by (rule u(1))
  ultimately show ?thesis using u wrote_frame [OF u(3)] by blast
qed

lemma put_twice: "put_node r a (put_node r b T) = put_node r a T" "put_min r a (put_min r b m) = put_min r a m"
  by (cases r; simp add: put_node_def put_min_def)+

subsection \<open>Propagation\<close>

theorem propagate_view:
  assumes v: "view trie T m" and lok: "locks_ok others (trie, mgr)" and len: "length (f_path f) = length qs" "i < length qs"
    and refs: "\<And>j. j \<le> i \<Longrightarrow> ref_on trie T (Some (qs ! j)) k (pe_entry (f_path f ! j))" and d: "distinct qs" and n: "k + i < 2 ^ 23"
  shows "\<exists>f' trie'. propagate_from 0 i trie f = Some (f', trie') \<and> propagate_from_vectorized 0 i trie f = Some (f', trie') \<and> view trie' (propagate_shape qs i T) m \<and>
    locks_ok others (trie', mgr) \<and> frame trie' = frame trie \<and>
    (\<forall>r l c. ref_on trie T r l c \<and> (\<forall>j\<le>i. r \<noteq> Some (qs ! j)) \<longrightarrow> ref_on trie' (propagate_shape qs i T) r (l + i) c)"
  using v lok len refs n
proof (induction i arbitrary: trie T f k)
  case (Suc i)
  let ?c = "pe_entry (f_path f ! Suc i)" and ?p = "pe_entry (f_path f ! i)"
  have c: "ref_on trie T (Some (qs ! Suc i)) k ?c" and p: "ref_on trie T (Some (qs ! i)) k ?p" using Suc.prems(5) by simp_all
  note vc = ref_value [OF Suc.prems(1) c] and vp = ref_value [OF Suc.prems(1) p]
  let ?stop = "entry_type (lc_value ?p) = TYPE_BITMAP \<and> e_last_symbol (lc_value ?c) < max_child (lc_value ?p)"
  have stop: "?stop \<longleftrightarrow> entry_type (the (T (qs ! i))) = TYPE_BITMAP \<and> e_last_symbol (the (T (qs ! Suc i))) < max_child (the (T (qs ! i)))"
    using vc(1) vp(1) by simp
  show ?case
  proof (cases ?stop)
    case True
    then have "propagate_from 0 (Suc i) trie f = Some (f, trie)" "propagate_from_vectorized 0 (Suc i) trie f = Some (f, trie)"
      "propagate_shape qs (Suc i) T = T"
      using stop by (simp_all add: Let_def)
    then show ?thesis using Suc.prems(1,2) ref_on_mono by auto
  next
    case False
    let ?e = "(lc_value ?p)\<lparr>e_locator := max_leaf (lc_value ?c)\<rparr>"
    have "k < 2 ^ 23" using Suc.prems(6) by simp
    moreover have "entry_is_secondary ?e = entry_is_secondary (lc_value ?p)" by simp
    ultimately obtain c' t where u0: "update_entry_vectorized trie ?p ?e = Some (c', t)" and u: "update_entry trie ?p ?e = Some (c', t)" "view t (put_node (Some (qs ! i)) ?e T) m"
      "locks_ok others (t, mgr)" "frame t = frame trie" "ref_on t (put_node (Some (qs ! i)) ?e T) (Some (qs ! i)) 0 c'"
      "\<forall>r' k d. ref_on trie T r' k d \<and> r' \<noteq> Some (qs ! i) \<longrightarrow> ref_on t (put_node (Some (qs ! i)) ?e T) r' (k + 1) d"
      using update_step [OF Suc.prems(1,2) p, of ?e] vp(2,3) by (fastforce simp: put_min_def)
    let ?T = "put_node (Some (qs ! i)) ?e T" and ?f = "set_path_copy f i c'"
    have T: "?T = T(qs ! i \<mapsto> (the (T (qs ! i)))\<lparr>e_locator := e_locator (the (T (qs ! Suc i)))\<rparr>)"
      using vc(1) vp(1) by (simp add: put_node_def)
    have shape: "propagate_shape qs (Suc i) T = propagate_shape qs i ?T"
      unfolding T propagate_shape.simps Let_def if_not_P [OF False [unfolded stop]] ..
    have run: "propagate_from 0 (Suc i) trie f = propagate_from 0 i t ?f"
      unfolding propagate_from.simps Let_def if_not_P [OF False] using u(1) by simp
    have run': "propagate_from_vectorized 0 (Suc i) trie f = propagate_from_vectorized 0 i t ?f"
      unfolding propagate_from_vectorized.simps Let_def if_not_P [OF False] using u0 by simp
    have i: "i < length (f_path f)" "i < length qs" using Suc.prems(3,4) by simp_all
    have "ref_on t ?T (Some (qs ! j)) (k + 1) (pe_entry (f_path ?f ! j))" if j: "j \<le> i" for j
    proof (cases "j = i")
      case True
      then show ?thesis using ref_on_mono [OF u(5), of "k + 1"] i by (simp add: set_path_copy_def)
    next
      case False
      then have "qs ! j \<noteq> qs ! i" using j i(2) d by (simp add: nth_eq_iff_index_eq)
      then show ?thesis using u(6) Suc.prems(5) [of j] j False by (simp add: set_path_copy_def)
    qed
    from Suc.IH [OF u(2,3) _ i(2) this] obtain f' t' where r0: "propagate_from_vectorized 0 i t ?f = Some (f', t')" and r: "propagate_from 0 i t ?f = Some (f', t')"
      "view t' (propagate_shape qs i ?T) m" "locks_ok others (t', mgr)" "frame t' = frame t"
      "\<forall>r l c. ref_on t ?T r l c \<and> (\<forall>j\<le>i. r \<noteq> Some (qs ! j)) \<longrightarrow> ref_on t' (propagate_shape qs i ?T) r (l + i) c"
      using Suc.prems(3,6) by (auto simp: set_path_copy_def)
    have "ref_on t' (propagate_shape qs i ?T) r (l + Suc i) c" if "ref_on trie T r l c" "\<forall>j\<le>Suc i. r \<noteq> Some (qs ! j)" for r l c
      using r(5) [rule_format, of r "l + 1" c] u(6) [rule_format, of r l c] that by auto
    then show ?thesis using r0 r(1-4) u(4) unfolding run run' shape by auto
  qed
qed (auto intro: ref_on_mono)

end
