(* ===== verification/PublishLeaf.thy ===== *)
theory PublishLeaf
  imports CreateSteps
begin

text \<open>
  The last part of an insertion below a bitmap (\<open>create_leaf\<close>, \<open>main.c\<close>): the predecessor is
  marked, linked to the new leaf, the bitmap gets the child, the greatest leaf is propagated
  and the mark is taken away. On the shape these five writes are one change.
\<close>

definition marked_bitmap :: "ct_entry \<Rightarrow> u64 \<Rightarrow> ct_entry_locator \<Rightarrow> ct_entry" where
  "marked_bitmap v s k =
     (let b = entry_set_child_bit v (unat s)
      in if ucast (max_child v) < s then b\<lparr>e_byte8 := ucast s, e_locator := k\<rparr> else b)"

lemma mark_bitmap_child_eq:
  "mark_bitmap_child trie c s h color = update_entry trie c (marked_bitmap (lc_value c) s
     \<lparr>loc_primary_bucket = ucast (hash_to_bucket h), loc_tag = ucast (hash_to_tag h), loc_color = color\<rparr>)"
  by (simp add: mark_bitmap_child_def marked_bitmap_def Let_def)

lemma mark_bitmap_child_vectorized_eq:
  "mark_bitmap_child_vectorized trie c s h color = update_entry_vectorized trie c (marked_bitmap (lc_value c) s
     \<lparr>loc_primary_bucket = ucast (hash_to_bucket h), loc_tag = ucast (hash_to_tag h), loc_color = color\<rparr>)"
  by (simp add: mark_bitmap_child_vectorized_def marked_bitmap_def Let_def)

lemma wf_erase: "wf_entry (erase_side e) = wf_entry e"
  using erased_node(2) [OF refl, of e] by blast

lemma marked_bitmap_fields:
  assumes "wf_entry v" and "s \<le> 32"
  shows "wf_entry (marked_bitmap v s k)" "entry_type (marked_bitmap v s k) = entry_type v"
    "color_and_tag (marked_bitmap v s k) = color_and_tag v" "entry_is_secondary (marked_bitmap v s k) = entry_is_secondary v"
    "children (marked_bitmap v s k) = insert s (children v)" "entry_dirty (marked_bitmap v s k) = entry_dirty v"
    "max_child (marked_bitmap v s k) = (if ucast (max_child v) < s then ucast s else max_child v)"
    "e_locator (marked_bitmap v s k) = (if ucast (max_child v) < s then k else e_locator v)"
    "link (marked_bitmap v s k) = link v" "erase_side (marked_bitmap v s k) = marked_bitmap (erase_side v) s k"
proof -
  have s40: "unat s < 40" using assms(2) by (simp add: word_le_nat_alt)
  have len: "length (e_bytes v) = 5" using assms(1) by (simp add: wf_entry_def)
  have eq: "entry_set_child_bit v (unat s) = v\<lparr>e_bytes := set_bit_at (child_bitmap v) (unat s) True\<rparr>"
    by (rule entry_set_child_bit_eq [OF assms(1) s40])
  have wfe: "wf_entry (erase_side v)" using assms(1) by (simp add: wf_erase)
  have eq': "entry_set_child_bit (erase_side v) (unat s) = (erase_side v)\<lparr>e_bytes := set_bit_at (child_bitmap v) (unat s) True\<rparr>"
    using entry_set_child_bit_eq [OF wfe s40] by simp
  note defs = marked_bitmap_def eq Let_def
  show "wf_entry (marked_bitmap v s k)" "entry_type (marked_bitmap v s k) = entry_type v"
    "color_and_tag (marked_bitmap v s k) = color_and_tag v" "entry_is_secondary (marked_bitmap v s k) = entry_is_secondary v"
    "entry_dirty (marked_bitmap v s k) = entry_dirty v"
    "max_child (marked_bitmap v s k) = (if ucast (max_child v) < s then ucast s else max_child v)"
    "e_locator (marked_bitmap v s k) = (if ucast (max_child v) < s then k else e_locator v)"
    "link (marked_bitmap v s k) = link v"
    using len by (simp_all add: defs wf_entry_def entry_type_def entry_is_secondary_def entry_dirty_def link_def entry_color_def entry_parent_color_def)
  show "erase_side (marked_bitmap v s k) = marked_bitmap (erase_side v) s k"
    unfolding marked_bitmap_def eq eq' Let_def by (simp add: erase_side_def)
  have "get_bit (child_bitmap (marked_bitmap v s k)) (unat t) \<longleftrightarrow> t = s \<or> get_bit (child_bitmap v) (unat t)" if "t \<le> 32" for t
    using get_set_bit_at [of "unat s" "child_bitmap v" True "unat t"] s40 len by (simp add: defs word_unat_eq_iff)
  then show "children (marked_bitmap v s k) = insert s (children v)" using assms(2) by (auto simp: children_def)
qed

lemma marked_min:
  assumes wf: "wf_entry v" and clean: "\<not> entry_dirty v"
  shows "entry_set_clean ((entry_set_dirty v)\<lparr>e_locator := k\<rparr>) = v\<lparr>e_locator := k\<rparr>"
proof -
  let ?f = "parent_color_and_flags v"
  have f: "(?f OR FLAG_DIRTY) AND NOT FLAG_DIRTY = ?f"
  proof (rule bit_word_eqI)
    fix n
    show "bit ((?f OR FLAG_DIRTY) AND NOT FLAG_DIRTY) n = bit ?f n"
      using clean dirty_bits(2) [of "v\<lparr>parent_color_and_flags := ?f OR FLAG_DIRTY\<rparr>" n] dirty_bits(1) [of v n]
      by (auto simp: entry_dirty_bit)
  qed
  have "wf_entry (v\<lparr>parent_color_and_flags := ?f OR FLAG_DIRTY, e_locator := k\<rparr>)" using wf by (simp add: wf_entry_def)
  from entry_set_clean_eq [OF this] show ?thesis using f by (simp add: entry_set_dirty_eq [OF wf])
qed

lemma propagate_upd:
  assumes "\<And>j. j \<le> i \<Longrightarrow> a \<noteq> qs ! j"
  shows "propagate_shape qs i (T(a \<mapsto> c)) = (propagate_shape qs i T)(a \<mapsto> c)"
  using assms
proof (induction i arbitrary: T)
  case (Suc i)
  have ne: "qs ! Suc i \<noteq> a" "qs ! i \<noteq> a" using Suc.prems [of "Suc i"] Suc.prems [of i] by auto
  then have at: "(T(a \<mapsto> c)) (qs ! i) = T (qs ! i)" "(T(a \<mapsto> c)) (qs ! Suc i) = T (qs ! Suc i)"
    and twist: "T(a \<mapsto> c, qs ! i \<mapsto> e) = T(qs ! i \<mapsto> e, a \<mapsto> c)" for e by (simp_all add: fun_upd_twist)
  have IH: "propagate_shape qs i (S(a \<mapsto> c)) = (propagate_shape qs i S)(a \<mapsto> c)" for S
    by (rule Suc.IH) (use Suc.prems in simp)
  show ?case unfolding propagate_shape.simps Let_def at twist IH by (rule if_distrib [where f = "\<lambda>S. S(a \<mapsto> c)", symmetric])
qed simp

definition pred_ref :: "shape \<Rightarrow> u64 list \<Rightarrow> node_ref" where
  "pred_ref T p = (if before T p = {} then None else Some (Max (before T p)))"

text \<open>The shape and the minimal leaf with the locator of one leaf changed.\<close>

definition relink :: "node_ref \<Rightarrow> ct_entry_locator \<Rightarrow> shape \<Rightarrow> shape" where
  "relink r k T = (case r of None \<Rightarrow> T | Some a \<Rightarrow> T(a \<mapsto> (the (T a))\<lparr>e_locator := k\<rparr>))"

definition relink_min :: "node_ref \<Rightarrow> ct_entry_locator \<Rightarrow> ct_entry \<Rightarrow> ct_entry" where
  "relink_min r k m = (case r of None \<Rightarrow> m\<lparr>e_locator := k\<rparr> | Some a \<Rightarrow> m)"

theorem publish_leaf:
  fixes loc :: ct_pred_locator and f :: ct_finger
  defines "c \<equiv> predecessor loc" and "n \<equiv> last_path_entry f"
  defines "b \<equiv> pe_entry (f_path f ! n)"
  assumes v: "view t X m" and lok: "locks_ok others (t, mgr)" and c: "ref_on t X r k c"
    and cv: "wf_entry (lc_value c)" "entry_type (lc_value c) = TYPE_LEAF" "\<not> entry_dirty (lc_value c)"
    and path: "length (f_path f) = length qs" "qs \<noteq> []" "distinct qs"
    and refs: "\<And>j. j \<le> n \<Longrightarrow> ref_on t X (Some (qs ! j)) k (pe_entry (f_path f ! j))"
    and bm: "entry_type (lc_value b) = TYPE_BITMAP" and s: "s \<le> 32"
    and sit: "sits t X p pos" and tag: "entry_tag (cell t pos) = ucast (hash_to_tag h)"
    and ne: "r \<noteq> Some p" "\<And>j. j \<le> n \<Longrightarrow> r \<noteq> Some (qs ! j)" "\<And>j. j \<le> n \<Longrightarrow> p \<noteq> qs ! j" and k: "k + n + 10 < 2 ^ 23"
  defines "K \<equiv> \<lparr>loc_primary_bucket = ucast (hash_to_bucket h), loc_tag = ucast (hash_to_tag h), loc_color = entry_color (cell t pos)\<rparr>"
  shows "\<exists>c1 t1 loc2 t2 c3 t3 f4 t4 c5 t5. mark_entry_dirty t c = Some (c1, t1) \<and>
    linklist_insert t1 (loc\<lparr>predecessor := c1\<rparr>) (cell t1 pos) (hash_to_bucket h) = Some (loc2, t2) \<and>
    mark_bitmap_child t2 b s h (entry_color (cell t2 pos)) = Some (c3, t3) \<and>
    propagate_max_leaf t3 (reread_path_end (set_path_copy f n c3)) 0 = Some (f4, t4) \<and>
    mark_entry_clean t4 (predecessor loc2) = Some (c5, t5) \<and>
    mark_entry_dirty_vectorized t c = Some (c1, t1) \<and>
    linklist_insert_vectorized t1 (loc\<lparr>predecessor := c1\<rparr>) (cell t1 pos) (hash_to_bucket h) = Some (loc2, t2) \<and>
    mark_bitmap_child_vectorized t2 b s h (entry_color (cell t2 pos)) = Some (c3, t3) \<and>
    propagate_max_leaf_vectorized t3 (reread_path_end (set_path_copy f n c3)) 0 = Some (f4, t4) \<and>
    mark_entry_clean_vectorized t4 (predecessor loc2) = Some (c5, t5) \<and> locks_ok others (t5, mgr) \<and> frame t5 = frame t \<and>
    view t5 (propagate_shape qs n (relink r K (X(qs ! n \<mapsto> erase_side (marked_bitmap (lc_value b) s K))))) (relink_min r K m)"
proof -
  note dc = dirty_fields [OF cv(1)]
  have n: "n < length qs" using path by (simp add: n_def)
  let ?d = "entry_set_dirty (lc_value c)"
  have td: "entry_type ?d \<noteq> TYPE_UNUSED" and kk: "k < 2 ^ 23" using dc(2) cv(2) k by simp_all
  obtain c1 t1 where v1: "update_entry_vectorized t c ?d = Some (c1, t1)" and 1: "update_entry t c ?d = Some (c1, t1)" "view t1 (put_node r ?d X) (put_min r ?d m)" "locks_ok others (t1, mgr)"
    "frame t1 = frame t" "ref_on t1 (put_node r ?d X) r 0 c1" "erase_side (lc_value c1) = erase_side ?d" "r = None \<longrightarrow> lc_value c1 = ?d"
    "\<forall>r' l d. ref_on t X r' l d \<and> r' \<noteq> r \<longrightarrow> ref_on t1 (put_node r ?d X) r' (l + 1) d"
    "\<forall>p pos. sits t X p pos \<and> r \<noteq> Some p \<longrightarrow> sits t1 (put_node r ?d X) p pos \<and> cell t1 pos = cell t pos"
    using update_step [OF v lok c kk dc(1) td dc(3,4)] by blast
  have w1: "wf_entry (lc_value c1)" "entry_type (lc_value c1) = TYPE_LEAF" "entry_is_secondary (lc_value c1) = entry_is_secondary (lc_value c1)"
    using dc(1,2) cv(2) erased_node(1,2) [OF 1(6)] by (simp_all add: wf_erase)
  let ?l = "(lc_value c1)\<lparr>e_locator := K\<rparr>"
  have l: "wf_entry ?l" "entry_type ?l \<noteq> TYPE_UNUSED" "color_and_tag ?l = color_and_tag (lc_value c1)"
    "entry_is_secondary ?l = entry_is_secondary (lc_value c1)" using w1 by simp_all
  have zero: "(0 :: nat) < 2 ^ 23" by simp
  obtain c2 t2 where v2: "update_entry_vectorized t1 c1 ?l = Some (c2, t2)" and 2: "update_entry t1 c1 ?l = Some (c2, t2)" "view t2 (put_node r ?l X) (put_min r ?l m)" "locks_ok others (t2, mgr)"
    "frame t2 = frame t1" "ref_on t2 (put_node r ?l X) r 0 c2" "erase_side (lc_value c2) = erase_side ?l" "r = None \<longrightarrow> lc_value c2 = ?l"
    "\<forall>r' l d. ref_on t1 (put_node r ?d X) r' l d \<and> r' \<noteq> r \<longrightarrow> ref_on t2 (put_node r ?l X) r' (l + 1) d"
    "\<forall>p pos. sits t1 (put_node r ?d X) p pos \<and> r \<noteq> Some p \<longrightarrow> sits t2 (put_node r ?l X) p pos \<and> cell t2 pos = cell t1 pos"
    using update_step [OF 1(2,3,5) zero l] unfolding put_twice by blast
  have cell: "cell t1 pos = cell t pos" "cell t2 pos = cell t pos" 
    using 1(9) [rule_format, of p pos] 2(9) [rule_format, of p pos] sit ne(1) by simp_all
  have run2: "linklist_insert t1 (loc\<lparr>predecessor := c1\<rparr>) (cell t1 pos) (hash_to_bucket h) = Some (loc\<lparr>predecessor := c2\<rparr>, t2)"
    using 2(1) cell(1) tag by (simp add: linklist_insert_def K_def)
  have run2v: "linklist_insert_vectorized t1 (loc\<lparr>predecessor := c1\<rparr>) (cell t1 pos) (hash_to_bucket h) = Some (loc\<lparr>predecessor := c2\<rparr>, t2)"
    using v2 cell(1) tag by (simp add: linklist_insert_vectorized_def K_def)
  have b2: "ref_on t2 (put_node r ?l X) (Some (qs ! j)) (k + 2) (pe_entry (f_path f ! j))" if "j \<le> n" for j
    using 2(8) [rule_format, of "Some (qs ! j)" "k + 1"] 1(8) [rule_format, of "Some (qs ! j)" k] refs [OF that] ne(2) [OF that] by simp
  note vb = ref_value [OF 2(2) b2 [OF order.refl], folded b_def]
  note mb = marked_bitmap_fields [OF vb(2) s]
  let ?e = "marked_bitmap (lc_value b) s K" and ?q = "Some (qs ! n)"
  have e: "wf_entry ?e" "entry_type ?e \<noteq> TYPE_UNUSED" "color_and_tag ?e = color_and_tag (lc_value b)"
    "entry_is_secondary ?e = entry_is_secondary (lc_value b)" using mb(1-4) [of K] bm by simp_all
  have k2: "k + 2 < 2 ^ 23" using k by simp
  let ?Y = "put_node ?q ?e (put_node r ?l X)" and ?m = "put_min r ?l m"
  obtain c3 t3 where v3: "update_entry_vectorized t2 b ?e = Some (c3, t3)" and 3: "update_entry t2 b ?e = Some (c3, t3)" "view t3 ?Y ?m" "locks_ok others (t3, mgr)" "frame t3 = frame t2"
    "ref_on t3 ?Y ?q 0 c3" "\<forall>r' l d. ref_on t2 (put_node r ?l X) r' l d \<and> r' \<noteq> ?q \<longrightarrow> ref_on t3 ?Y r' (l + 1) d"
    using update_step [OF 2(2,3) b2 [OF order.refl, folded b_def] k2 e] by (auto simp: put_min_def)
  have run3: "mark_bitmap_child t2 b s h (entry_color (cell t2 pos)) = Some (c3, t3)"
    using 3(1) cell(2) by (simp add: mark_bitmap_child_eq K_def)
  have run3v: "mark_bitmap_child_vectorized t2 b s h (entry_color (cell t2 pos)) = Some (c3, t3)"
    using v3 cell(2) by (simp add: mark_bitmap_child_vectorized_eq K_def)
  let ?f = "reread_path_end (set_path_copy f n c3)"
  have f: "f_path ?f = (f_path f)[n := (f_path f ! n)\<lparr>pe_entry := c3\<rparr>]" "last_path_entry ?f = n"
    by (simp_all add: reread_path_end_def set_path_copy_def n_def)
  have b3: "ref_on t3 ?Y (Some (qs ! j)) (k + 3) (pe_entry (f_path ?f ! j))" if j: "j \<le> n" for j
  proof (cases "j = n")
    case True
    then show ?thesis using ref_on_mono [OF 3(5), of "k + 3"] f path n by simp
  next
    case False
    then have "qs ! j \<noteq> qs ! n" using j n path(3) by (simp add: nth_eq_iff_index_eq)
    then show ?thesis using 3(6) [rule_format, of "Some (qs ! j)" "k + 2"] b2 [OF j] False f by (simp add: numeral_eq_Suc)
  qed
  have "length (f_path ?f) = length qs" "k + 3 + n < 2 ^ 23" using f path(1) k by simp_all
  from propagate_view [OF 3(2,3) this(1) n b3 path(3) this(2)] obtain f4 t4 where
    v4: "propagate_from_vectorized 0 n t3 ?f = Some (f4, t4)" and 4: "propagate_from 0 n t3 ?f = Some (f4, t4)" "view t4 (propagate_shape qs n ?Y) ?m" "locks_ok others (t4, mgr)" "frame t4 = frame t3"
      "\<forall>r l c. ref_on t3 ?Y r l c \<and> (\<forall>j\<le>n. r \<noteq> Some (qs ! j)) \<longrightarrow> ref_on t4 (propagate_shape qs n ?Y) r (l + n) c" by blast
  have c4: "ref_on t4 (propagate_shape qs n ?Y) r (1 + n) c2"
    using 4(5) [rule_format, of r 1 c2] 3(6) [rule_format, of r 0 c2] 2(5) ne(2) by simp
  have w2: "wf_entry (lc_value c2)" "entry_type (lc_value c2) = TYPE_LEAF"
    using w1 l(1) erased_node(1,2) [OF 2(6)] by (simp_all add: wf_erase)
  note dd = dirty_fields [OF w2(1)]
  let ?c = "entry_set_clean (lc_value c2)"
  have n1: "1 + n < 2 ^ 23" using k by simp
  have cl: "entry_type ?c \<noteq> TYPE_UNUSED" using dd(6) w2(2) by simp
  obtain c5 t5 where v5: "update_entry_vectorized t4 c2 ?c = Some (c5, t5)" and 5: "update_entry t4 c2 ?c = Some (c5, t5)" "view t5 (put_node r ?c (propagate_shape qs n ?Y)) (put_min r ?c m)"
    "locks_ok others (t5, mgr)" "frame t5 = frame t4"
    using update_step [OF 4(2,3) c4 n1 dd(5) cl dd(7,8)] unfolding put_twice by blast
  have "put_node r ?c (propagate_shape qs n ?Y) = propagate_shape qs n (relink r K (X(qs ! n \<mapsto> erase_side ?e)))"
  proof (cases r)
    case (Some a)
    have a: "a \<noteq> qs ! j" if "j \<le> n" for j using ne(2) [OF that] Some by simp
    have X: "X a = Some (erase_side (lc_value c))" using c Some by (simp add: ref_on_def copy_on_def)
    have val: "erase_side ?c = (the (X a))\<lparr>e_locator := K\<rparr>"
      using marked_and_linked [OF cv(1) w1(1) w2(1) cv(3) 1(6) 2(6)] X by simp
    have "?Y = X(qs ! n \<mapsto> erase_side ?e, a \<mapsto> erase_side ?l)" using a [of n] Some by (simp add: put_node_def fun_upd_twist)
    then have "put_node r ?c (propagate_shape qs n ?Y) = (propagate_shape qs n (X(qs ! n \<mapsto> erase_side ?e)))(a \<mapsto> erase_side ?c)"
      using Some propagate_upd [of n a qs, OF a] by (simp add: put_node_def)
    also have "\<dots> = propagate_shape qs n (X(qs ! n \<mapsto> erase_side ?e, a \<mapsto> erase_side ?c))" using propagate_upd [of n a qs, OF a] by simp
    finally show ?thesis using Some val a [of n] by (simp add: relink_def)
  qed (simp add: put_node_def relink_def)
  moreover have "put_min r ?c m = relink_min r K m"
  proof (cases r)
    case None
    then have "lc_value c = m" using c viewD(4) [OF v] by (simp add: ref_on_def)
    then show ?thesis using None 1(7) 2(7) marked_min [OF cv(1,3)] by (simp add: put_min_def relink_min_def)
  qed (simp add: put_min_def relink_min_def)
  ultimately have "view t5 (propagate_shape qs n (relink r K (X(qs ! n \<mapsto> erase_side ?e)))) (relink_min r K m)" using 5(2) by simp
  moreover have "frame t5 = frame t" using 1(4) 2(4) 3(4) 4(4) 5(4) by simp
  moreover have "propagate_max_leaf t3 ?f 0 = Some (f4, t4)" using 4(1) f(2) by (simp add: propagate_max_leaf_def)
  moreover have "propagate_max_leaf_vectorized t3 ?f 0 = Some (f4, t4)" using v4 f(2) by (simp add: propagate_max_leaf_vectorized_def)
  ultimately show ?thesis using 1(1) run2 run3 5(1,3) v1 run2v run3v v5
    by (auto simp: mark_entry_dirty_def mark_entry_clean_def mark_entry_dirty_vectorized_def mark_entry_clean_vectorized_def)
qed

end
