(* ===== verification/Vectorized.thy ===== *)
theory Vectorized
  imports Scan VectorizedTable
begin

text \<open>
  The lookups, updates and iterators of the build with the vectorized searches
  (\<open>VectorizedOps\<close>): on every trie in order they return what the operations of \<open>main.c\<close>
  return, and leave the same trie.
\<close>

text \<open>The questions the operations ask about the nodes of a trie.\<close>

lemma path_place:
  assumes sh: "trie_shape heap trie T" and p: "\<forall>s\<in>set p. s \<le> 32"
  shows "valid_bucket trie (hash_to_bucket (hash_path trie p))" "hash_to_tag (hash_path trie p) < 16"
proof -
  have v: "valid_sizes trie" using table_invD(5) [OF trie_shapeD(1) [OF sh]] by auto
  show "valid_bucket trie (hash_to_bucket (hash_path trie p))" "hash_to_tag (hash_path trie p) < 16"
    using hash_split_valid [OF v hash_path_valid [OF v p]] by (simp_all add: valid_tag_def)
qed

lemma node_by_color_vectorized:
  assumes sh: "trie_shape heap trie T" and p: "\<forall>s\<in>set p. s \<le> 32" and c: "c < (9 :: u8)"
  shows "find_entry_in_pair_by_color_vectorized trie (hash_to_bucket (hash_path trie p)) (hash_to_tag (hash_path trie p)) (ucast c) =
    find_entry_in_pair_by_color trie (hash_to_bucket (hash_path trie p)) (hash_to_tag (hash_path trie p)) (ucast c)"
  using pair_by_color_vectorized [OF table_invD(1) [OF trie_shapeD(1) [OF sh]] path_place [OF sh p] color_small [OF c]] .

lemma child_by_parent_vectorized:
  assumes sh: "trie_shape heap trie T" and p: "\<forall>s\<in>set p. s \<le> 32" and s: "s \<le> 32" and c: "c < (9 :: u8)"
  shows "find_entry_in_pair_by_parent_vectorized trie (hash_to_bucket (hash_path trie p)) (hash_to_tag (hash_path trie p)) s (ucast c) =
    find_entry_in_pair_by_parent trie (hash_to_bucket (hash_path trie p)) (hash_to_tag (hash_path trie p)) s (ucast c)"
proof -
  have "s < 256" using s by (simp add: word_less_nat_alt word_le_nat_alt)
  then show ?thesis
    using pair_by_parent_vectorized [OF table_invD(1) [OF trie_shapeD(1) [OF sh]] path_place [OF sh p] _ color_small [OF c]] by blast
qed

section \<open>Lookups\<close>

lemma try_descend_vectorized_eq:
  assumes sh: "trie_shape heap trie T" and ks: "\<forall>i<length ks. ks ! i \<le> 32" and on: "finger_on trie T ks f q d"
    and n: "length q + d < length ks"
  defines "s \<equiv> ks ! (length q + d)" and "h \<equiv> hash_path trie (take (length q + d + 1) ks)"
  shows "try_descend_vectorized trie f s track h = try_descend trie f s track h"
proof -
  let ?p = "take (length q + d + 1) ks" and ?v = "lc_value (containing_entry f)"
  have p: "\<forall>s\<in>set ?p. s \<le> 32" using ks by (auto simp: in_set_conv_nth)
  have s: "s \<le> 32" using ks n by (simp add: s_def)
  have cp: "copy_at trie T q (containing_entry f)" using on by (simp add: finger_on_def)
  obtain e where e: "T q = Some e" using cp by (auto simp: copy_at_def)
  note nd = shape_node [OF sh e] and v = erased_node [OF copy_at_node [OF cp e]]
  have child: "entry_child_color ?v < 9" if "entry_type ?v = TYPE_JUMP"
  proof -
    have "jump_child_ok T q e" using node_okD(6) [OF nd] that v(1) by simp
    then obtain c where "T (q @ jump_symbols e) = Some c" "entry_color c = entry_child_color e" by (auto simp: jump_child_ok_def)
    then show ?thesis using shape_color [OF sh] v(11) by metis
  qed
  have own: "entry_color ?v < 9" using shape_color [OF sh e] v(3) by simp
  show ?thesis
    unfolding try_descend_vectorized_def try_descend_def Let_def
    using node_by_color_vectorized [OF sh p child, folded h_def] child_by_parent_vectorized [OF sh p s own, folded h_def]
    by (simp add: finger_extend_prefix_known_hash_def)
qed

lemma prefetched_turn:
  assumes p: "prefetched trie ks (n + 4) p" and len: "length ks \<le> 411" and n: "n < length ks"
  shows "ucast (byte_at (p_key_symbols (prefetcher_step trie p)) n) = ks ! n"
    and "prefix_hashes (prefetcher_step trie p) ! n = hash_path trie (take (n + 1) ks)"
    and "prefetched trie ks (n + 5) (prefetcher_step trie p)"
proof -
  show p': "prefetched trie ks (n + 5) (prefetcher_step trie p)" using prefetched_step [OF p len] by (simp add: add.commute)
  then show "ucast (byte_at (p_key_symbols (prefetcher_step trie p)) n) = ks ! n"
    "prefix_hashes (prefetcher_step trie p) ! n = hash_path trie (take (n + 1) ks)"
    using n unfolding prefetched_def by auto
qed

lemma descend_from_vectorized_eq:
  assumes sh: "trie_shape heap trie T" and len: "length ks \<le> 411" and ks: "\<forall>i<length ks. ks ! i \<le> 32"
    and ends: "\<forall>i<length ks. ks ! i = SYMBOL_END \<longleftrightarrow> i = length ks - 1"
    and on: "finger_on trie T ks f q d" and n: "length q + d < length ks" and pre: "prefetched trie ks (length q + d + 4) p"
  shows "descend_from_vectorized trie p f track = descend_from trie p f track"
  using on n pre
proof (induction "length ks - (length q + d)" arbitrary: f q d p rule: less_induct)
  case less
  let ?n = "length q + d" and ?s = "ks ! (length q + d)" and ?h = "hash_path trie (take (length q + d + 1) ks)"
  have n: "prefix_len f = ?n" using less.prems(1) by (simp add: finger_on_def)
  have pf: "prefetched trie ks (prefix_len f + 4) p" using less.prems(3) n by simp
  note ask = prefetched_turn [OF pf len, unfolded n, OF less.prems(2)]
  note same = try_descend_vectorized_eq [OF sh ks less.prems(1,2), of track]
  from descend_step [OF sh ks ends less.prems(1,2), of track] show ?case
  proof (elim disjE conjE exE)
    assume "try_descend trie f ?s track ?h = Some (False, f)"
    then show ?thesis using same ask n by (subst descend_from_vectorized.simps, subst descend_from.simps) (simp add: Let_def)
  next
    fix f' q' d'
    assume t: "try_descend trie f ?s track ?h = Some (True, f')" and on': "finger_on trie T ks f' q' d'"
      and len': "length q' + d' = ?n + 1"
    show ?thesis
    proof (cases "?s = SYMBOL_END")
      case True
      then show ?thesis using t same ask n by (subst descend_from_vectorized.simps, subst descend_from.simps) (simp add: Let_def)
    next
      case False
      have more: "?n + 1 < length ks" using ends less.prems(2) False by (metis Suc_eq_plus1 Suc_lessI diff_Suc_1)
      have pre': "prefetched trie ks (length q' + d' + 4) (prefetcher_step trie p)" using ask n len' by (simp add: algebra_simps)
      have "length ks - (length q' + d') < length ks - ?n" "length q' + d' < length ks" using more len' by simp_all
      from less.hyps [OF this(1) on' this(2) pre'] show ?thesis
        using t same ask n False by (subst descend_from_vectorized.simps, subst descend_from.simps) (simp add: Let_def)
    qed
  qed
qed

text \<open>The whole descent for a key.\<close>

lemma descent_facts:
  assumes sh: "trie_shape heap trie T" and key: "length key \<le> MAX_KEY_BYTES" and bytes: "take (length key) key_bytes = key"
    and f: "init_finger trie = Some (Some r, f)"
  defines "ks \<equiv> key_symbols key" and "p \<equiv> prefetcher_start trie (length key) key_bytes"
  shows "length ks \<le> 411" "\<forall>i<length ks. ks ! i \<le> 32" "\<forall>i<length ks. ks ! i = SYMBOL_END \<longleftrightarrow> i = length ks - 1"
    "finger_on trie T ks f [] 0" "0 < length ks" "prefetched trie ks 4 p"
proof -
  note b = num_key_symbols_bounds [OF key]
  have len: "length ks = num_key_symbols (length key)" by (simp add: ks_def)
  show ne: "0 < length ks" using b len by linarith
  show "length ks \<le> 411" using b len by simp
  show "prefetched trie ks 4 p" unfolding p_def ks_def by (rule prefetched_start [OF key bytes])
  show "\<forall>i<length ks. ks ! i \<le> 32" "\<forall>i<length ks. ks ! i = SYMBOL_END \<longleftrightarrow> i = length ks - 1"
    unfolding len unfolding ks_def using key_symbols_le last_key_symbol by blast+
  show "finger_on trie T ks f [] 0" using init_finger_shape [OF sh, of ks] ne f by auto
qed

lemma descend_vectorized_eq:
  assumes sh: "trie_shape heap trie T" and key: "length key \<le> MAX_KEY_BYTES" and bytes: "take (length key) key_bytes = key"
    and f: "init_finger trie = Some (Some r, f)"
  shows "descend_vectorized trie f (length key) key_bytes track = descend trie f (length key) key_bytes track"
proof -
  note k = descent_facts [OF assms]
  from descend_from_vectorized_eq [OF sh k(1-4)] k(5,6) show ?thesis by (simp add: descend_vectorized_def descend_def)
qed

theorem ct_lookup_vectorized_eq:
  assumes sh: "trie_shape heap trie T" and key: "length key \<le> MAX_KEY_BYTES"
  shows "ct_lookup_vectorized heap trie (length key) key = ct_lookup heap trie (length key) key"
proof -
  obtain f where f: "init_finger trie = Some (Some root_ptr, f)" using init_finger_shape [OF sh, of "[0]"] by auto
  show ?thesis using f descend_vectorized_eq [OF sh key _ f, of key] by (simp add: ct_lookup_vectorized_def ct_lookup_def)
qed

section \<open>Updates\<close>

lemma replace_leaf_kv_vectorized_eq:
  assumes sh: "trie_shape heap trie T" and lok: "locks_ok others (trie, [])" and c: "copy_at trie T q (containing_entry f)"
  shows "replace_leaf_kv_vectorized (trie, []) f kv = replace_leaf_kv (trie, []) f kv"
proof -
  let ?c = "containing_entry f"
  obtain e where e: "T q = Some e" using c by (auto simp: copy_at_def)
  obtain pos where pos: "pos \<in> table_cells trie" "?c = copy_of trie (hash_to_bucket (hash_path trie q)) pos"
    using c by (auto simp: copy_at_def)
  note ok = table_invD(1) [OF trie_shapeD(1) [OF sh]]
  have b: "fst (last_pos ?c) < length (buckets trie)" "snd (last_pos ?c) < CUCKOO_BUCKET_SIZE"
    using pos table_okD(3) [OF ok] by (auto simp: table_cells_def copy_of_def)
  obtain st t1 m1 where u: "upgrade_lock (trie, []) ?c = (st, t1, m1)" by (metis prod.exhaust)
  have u1: "unlocked t1 = unlocked trie" using upgrade_lock_ok(2) [OF lok b u] by simp
  have "table_ok t1" using rooted_unlocked [OF u1 shape_rooted [OF sh]] tracksD(4) rootedD(1) by blast
  moreover have "valid_bucket t1 (lc_primary_bucket ?c)"
    using path_place(1) [OF sh node_okD(4) [OF shape_node [OF sh e]]] pos(2) unlocked_fields(1) [OF u1]
    by (simp add: copy_of_def valid_bucket_def)
  moreover have "entry_color (lc_value ?c) < 9" using erased_node(3) [OF copy_at_node [OF c e]] shape_color [OF sh e] by simp
  ultimately have "update_entry_vectorized t1 ?c e' = update_entry t1 ?c e'" for e' by (rule update_entry_vectorized_eq)
  then show ?thesis unfolding replace_leaf_kv_vectorized_def replace_leaf_kv_def u by simp
qed

lemma ct_update_internal_vectorized_eq:
  assumes sh: "trie_shape heap trie T" and lok: "locks_ok others (trie, [])"
    and kv: "wf_kv (heap kv)" "unat (key_size (heap kv)) \<le> MAX_KEY_BYTES"
  shows "ct_update_internal_vectorized heap trie kv = ct_update_internal heap trie kv"
proof -
  obtain r f symbol f' q d where w: "init_finger trie = Some (Some r, f)"
    "descend trie f (unat (kv_key_size (heap kv))) (kv_bytes (heap kv)) False = Some (symbol, f')"
    "finger_on trie T (key_symbols (kv_key (heap kv))) f' q d" using kv_walk [OF sh kv, of False] by blast
  have key: "length (kv_key (heap kv)) \<le> MAX_KEY_BYTES" using kv_key_length [OF kv(1)] kv(2) by simp
  from descend_vectorized_eq [OF sh key kv_key_bytes(2) [OF kv(1)] w(1), of False]
  have "descend_vectorized trie f (unat (kv_key_size (heap kv))) (kv_bytes (heap kv)) False = Some (symbol, f')"
    using w(2) kv_key_bytes(1) [OF kv(1)] by simp
  moreover have "copy_at trie T q (containing_entry f')" using w(3) by (simp add: finger_on_def)
  note replace_leaf_kv_vectorized_eq [OF sh lok this, of kv]
  ultimately show ?thesis using w(1,2)
    by (simp add: ct_update_internal_vectorized_def ct_update_internal_def init_lock_mgr_def Let_def)
qed

theorem ct_update_vectorized_eq:
  assumes m: "trie_map heap trie m" and kv: "storable heap kv"
  shows "ct_update_vectorized heap act trie kv = ct_update heap act trie kv"
proof -
  obtain T where T: "ordered_trie heap trie T" "locks_ok {} (trie, [])" using m by (auto simp: trie_map_def)
  note sh = ordered_trieD(1) [OF T(1)]
  have kv': "canonical_address kv" "wf_kv (heap kv)" "unat (key_size (heap kv)) \<le> MAX_KEY_BYTES" using kv by (simp_all add: storable_def)
  have "\<exists>st s. ct_update_internal heap trie kv = Some (st, s) \<and> st \<noteq> SI_RETRY"
  proof (cases "\<exists>q\<in>leaves T. key_of heap (kv_at T q) = key_of heap kv")
    case True
    then obtain q where "q \<in> leaves T" "key_of heap (kv_at T q) = key_of heap kv" by blast
    from update_attempt [OF sh T(2) kv' this] show ?thesis by auto
  next
    case False
    then have "absent heap (kvs_of T) (key_of heap kv)" by (auto simp: absent_def kvs_of_def)
    from update_missing_fails [OF trie_shape_holds [OF sh] kv'(2,3) this] show ?thesis by auto
  qed
  then obtain st trie' mgr where u: "ct_update_internal heap trie kv = Some (st, trie', mgr)" "st \<noteq> SI_RETRY" by auto
  then have "update_attempts_vectorized heap act 0 trie kv = update_attempts heap act 0 trie kv"
    using ct_update_internal_vectorized_eq [OF sh T(2) kv'(2,3)]
    by (subst update_attempts_vectorized.simps, subst update_attempts.simps) simp
  then show ?thesis by (simp add: ct_update_vectorized_def ct_update_def)
qed

section \<open>Iterators\<close>

lemma iter_descend_vectorized_eq:
  assumes sh: "trie_shape heap trie T" and len: "length ks \<le> 411" and ks: "\<forall>i<length ks. ks ! i \<le> 32"
    and ends: "\<forall>i<length ks. ks ! i = SYMBOL_END \<longleftrightarrow> i = length ks - 1"
    and on: "finger_on trie T ks f q d" and n: "length q + d + n \<le> length ks" and pre: "prefetched trie ks (length q + d + 4) p"
  shows "iter_descend_vectorized n (length q + d) trie p f last_bitmap s = iter_descend n (length q + d) trie p f last_bitmap s"
  using on n pre
proof (induction n arbitrary: p f q d last_bitmap s)
  case (Suc n)
  let ?n = "length q + d" and ?s = "ks ! (length q + d)" and ?h = "hash_path trie (take (length q + d + 1) ks)"
  have lt: "?n < length ks" using Suc.prems(2) by simp
  note ask = prefetched_turn [OF Suc.prems(3) len lt]
  note same = try_descend_vectorized_eq [OF sh ks Suc.prems(1) lt, of True]
  from descend_step [OF sh ks ends Suc.prems(1) lt, of True] show ?case
  proof (elim disjE conjE exE)
    assume "try_descend trie f ?s True ?h = Some (False, f)"
    then show ?thesis using same ask by (simp add: Let_def)
  next
    fix f' q' d'
    assume t: "try_descend trie f ?s True ?h = Some (True, f')" and on': "finger_on trie T ks f' q' d'"
      and len': "length q' + d' = ?n + 1"
    have "prefetched trie ks (length q' + d' + 4) (prefetcher_step trie p)" "length q' + d' + n \<le> length ks"
      using ask(3) len' Suc.prems(2) by (simp_all add: algebra_simps)
    note IH = Suc.IH [OF on' this(2,1), unfolded len']
    show ?thesis using t same ask(1,2) IH by (simp add: Let_def)
  qed
qed simp

lemma locator_to_entry_vectorized_eq:
  assumes sh: "trie_shape heap trie T" and nb: "unat (num_buckets trie) < 2 ^ 32" and p: "p \<in> dom T"
  shows "locator_to_entry_vectorized trie (loc_of trie T p) = locator_to_entry trie (loc_of trie T p)"
proof -
  obtain e where e: "T p = Some e" using p by blast
  have "loc_color (loc_of trie T p) = entry_color e" using e by (simp add: loc_of_def)
  then show ?thesis
    using node_by_color_vectorized [OF sh node_okD(4) [OF shape_node [OF sh e]] shape_color [OF sh e]] loc_of_bucket [OF assms]
    by (simp add: locator_to_entry_def locator_to_entry_vectorized_def)
qed

lemma get_predecessor_vectorized_locked:
  assumes sh0: "trie_shape heap trie0 T" and ls0: "listed trie0 T" and path: "path_on trie0 T (f_path f) qs" and pos: "pos < length qs"
    and bm: "entry_type (the (T (qs ! pos))) = TYPE_BITMAP" and s: "symbol \<le> 33" and u: "unlocked trie = unlocked trie0"
  defines "loc \<equiv> prefetch_path_child_predecessor trie0 f pos symbol"
  shows "get_predecessor_atomic_vectorized trie f loc old = get_predecessor_atomic trie f loc old"
proof (cases "sub_primary_bucket loc = - 1")
  case True
  then show ?thesis by (simp add: get_predecessor_atomic_vectorized_def get_predecessor_atomic_def)
next
  case False
  note sh = ordered_unlocked(1) [OF u sh0 ls0] and ls = ordered_unlocked(2) [OF u sh0 ls0]
  have "asks_child trie = asks_child trie0" unfolding asks_child_def fun_eq_iff frame_fields(5) [OF ordered_unlocked(3) [OF u sh0 ls0]] by simp
  note pre = prefetched_child [OF sh0 path pos bm s, folded loc_def, folded this]
  obtain p s where a: "asks_child trie T loc p s" using pre False by (auto split: if_splits)
  obtain e where e: "T p = Some e" "s \<in> children e" "sub_parent_color loc = entry_color e" "ucast (sub_last_symbol loc) = s"
    "sub_primary_bucket loc = hash_to_bucket (hash_path trie (p @ [s]))" "ucast (sub_tag loc) = hash_to_tag (hash_path trie (p @ [s]))"
    using a by (auto simp: asks_child_def)
  have s32: "s \<le> 32" using e(2) by (simp add: children_def)
  then have "\<forall>x\<in>set (p @ [s]). x \<le> 32" using node_okD(4) [OF shape_node [OF sh e(1)]] by simp
  from child_by_parent_vectorized [OF sh this s32 shape_color [OF sh e(1)]]
  have sub: "find_subtree_vectorized trie loc = find_subtree trie loc"
    by (simp add: find_subtree_vectorized_def find_subtree_def e(3-6))
  obtain c where c: "find_subtree trie loc = Some c" "copy_at trie T (p @ [s]) c" using asks_child_found [OF sh a] by blast
  obtain d where d: "T (p @ [s]) = Some d" using c(2) by (auto simp: copy_at_def)
  have "locator_to_entry_vectorized trie (max_leaf (lc_value c)) = locator_to_entry trie (max_leaf (lc_value c))"
    if "entry_type (lc_value c) \<noteq> TYPE_LEAF"
  proof -
    note f = copy_at_fields [OF c(2) d]
    have "max_leaf d = loc_of trie T (Max (below T (p @ [s])))" using listedD(3) [OF ls d] that f(2) by simp
    moreover have "Max (below T (p @ [s])) \<in> below T (p @ [s])"
      using d trie_shapeD(4) [OF sh] by (intro Max_in finite_below below_nonempty) auto
    then have "Max (below T (p @ [s])) \<in> dom T" using leaves_dom by (auto simp: below_def)
    ultimately show ?thesis using locator_to_entry_vectorized_eq [OF sh listedD(1) [OF ls]] f(1) by simp
  qed
  then show ?thesis using sub c(1) False
    by (simp add: get_predecessor_atomic_vectorized_def get_predecessor_atomic_def)
qed

lemmas get_predecessor_vectorized_eq = get_predecessor_vectorized_locked [OF _ _ _ _ _ _ refl]

lemma next_internal_vectorized_eq:
  assumes sh: "trie_shape heap trie T" and ls: "listed trie T"
    and L: "L \<subseteq> leaves T" "L \<noteq> {}" "links_first trie T L (iter_next_locator iter)"
  shows "ct_iter_next_internal_vectorized trie iter = ct_iter_next_internal trie iter"
proof -
  have "finite L" using L(1) finite_leaves [OF trie_shapeD(4) [OF sh]] finite_subset by blast
  then have "Min L \<in> dom T" using Min_in [OF _ L(2)] L(1) leaves_dom by blast
  from locator_to_entry_vectorized_eq [OF sh listedD(1) [OF ls] this] show ?thesis using L(2,3)
    by (simp add: ct_iter_next_internal_vectorized_def ct_iter_next_internal_def links_first_def)
qed

theorem goto_internal_vectorized_eq:
  assumes sh: "trie_shape heap trie T" and ls: "listed trie T" and key: "length key \<le> MAX_KEY_BYTES"
  shows "ct_iter_goto_internal_vectorized heap trie iter (length key) key = ct_iter_goto_internal heap trie iter (length key) key"
proof (cases "key = []")
  case False
  obtain f lb symbol f' qs where w: "init_finger trie = Some (Some root_ptr, f)"
    "iter_descend (num_key_symbols (length key)) 0 trie (prefetcher_start trie (length key) key) f None (- 1) = Some (lb, symbol, f')"
    "path_on trie T (f_path f') qs" "place_right heap trie T f' qs key (place_iter heap trie f' lb symbol (length key) key)"
    using descend_iter [OF sh key False] by blast
  note k = descent_facts [OF sh key take_all [OF order.refl] w(1)]
  have "iter_descend_vectorized (num_key_symbols (length key)) 0 trie (prefetcher_start trie (length key) key) f None (- 1) =
      Some (lb, symbol, f')"
    using iter_descend_vectorized_eq [OF sh k(1-4), of "num_key_symbols (length key)"] k(6) w(2) by simp
  moreover have "get_predecessor_atomic_vectorized trie f' loc old = get_predecessor_atomic trie f' loc old"
    if "place_iter heap trie f' lb symbol (length key) key = Before loc" for loc old
    using w(4) that get_predecessor_vectorized_eq [OF sh ls w(3)] by (auto simp: place_right_def)
  ultimately show ?thesis using w(1,2)
    by (auto simp: ct_iter_goto_internal_vectorized_def ct_iter_goto_internal_def Let_def split: iter_place.split)
qed (simp add: ct_iter_goto_internal_vectorized_def ct_iter_goto_internal_def Let_def cong: if_cong)

theorem goto_vectorized_eq:
  assumes sh: "trie_shape heap trie T" and ls: "listed trie T" and key: "length key \<le> MAX_KEY_BYTES"
  shows "ct_iter_goto_vectorized heap act n trie iter (length key) key = ct_iter_goto heap act n trie iter (length key) key"
proof -
  let ?L = "rest heap T key"
  have up: "upward T ?L" using upward_rest [OF trie_shapeD(4) [OF sh]] .
  obtain iter1 where i: "ct_iter_goto_internal heap trie iter (length key) key = Some (SI_OK, iter1)"
    "is_exhausted iter1 \<and> ?L = {} \<or> \<not> is_exhausted iter1 \<and> links_first trie T ?L (iter_next_locator iter1)"
    using goto_internal [OF sh ls key] by blast
  note same = goto_internal_vectorized_eq [OF sh ls key, of iter]
  show ?thesis
  proof (cases "?L = {}")
    case True
    then have "\<not> is_exhausted iter1 \<Longrightarrow> loc_primary_bucket (iter_next_locator iter1) = NO_BUCKET"
      using i(2) by (simp add: links_first_def)
    then show ?thesis using i(1) same
      by (subst ct_iter_goto_vectorized.simps, subst ct_iter_goto.simps) (auto simp: Let_def)
  next
    case False
    then have links: "links_first trie T ?L (iter_next_locator iter1)" using i(2) by auto
    have sub: "?L \<subseteq> leaves T" using up by (simp add: upward_def)
    obtain c where "ct_iter_next_internal trie iter1 = Some (SI_OK, iter1\<lparr>leaves0 := c\<rparr>)"
      using next_leaf_found [OF sh ls up links] False by auto
    then show ?thesis using i(1) same next_internal_vectorized_eq [OF sh ls sub False links]
      by (subst ct_iter_goto_vectorized.simps, subst ct_iter_goto.simps) (auto simp: Let_def)
  qed
qed

theorem next_vectorized_eq:
  assumes sh: "trie_shape heap trie T" and ls: "listed trie T" and on: "iter_on trie T iter L"
  shows "ct_iter_next_vectorized heap act n trie iter = ct_iter_next heap act n trie iter"
proof (cases "\<not> is_exhausted iter \<and> \<not> report_current iter \<and> L \<noteq> {}")
  case True
  then have L: "upward T L" "L \<subseteq> leaves T" "L \<noteq> {}" "links_first trie T L (iter_next_locator iter)"
    using on by (auto simp: iter_on_def upward_def)
  obtain c where "ct_iter_next_internal trie iter = Some (SI_OK, iter\<lparr>leaves0 := c\<rparr>)"
    using next_leaf_found [OF sh ls L(1,4)] L(3) by auto
  then have "iter_fetch_vectorized heap act n trie iter = iter_fetch heap act n trie iter"
    using next_internal_vectorized_eq [OF sh ls L(2-4)]
    by (subst iter_fetch_vectorized.simps, subst iter_fetch.simps) simp
  then show ?thesis by (simp add: ct_iter_next_vectorized_def ct_iter_next_def)
next
  case False
  then show ?thesis using on
    by (auto simp: ct_iter_next_vectorized_def ct_iter_next_def iter_on_def links_first_def)
qed

text \<open>Range scans of this build.\<close>

primrec collect_vectorized ::
    "nat \<Rightarrow> kv_heap \<Rightarrow> interference \<Rightarrow> nat \<Rightarrow> cuckoo_trie \<Rightarrow> ct_iter \<Rightarrow> (u64 list \<times> ct_iter \<times> nat \<times> cuckoo_trie) option" where
  "collect_vectorized 0 heap act n trie iter = Some ([], iter, n, trie)"
| "collect_vectorized (Suc m) heap act n trie iter = do {
     (kv, iter, n, trie) \<leftarrow> ct_iter_next_vectorized heap act n trie iter;
     (kvs, iter, n, trie) \<leftarrow> collect_vectorized m heap act n trie iter;
     Some (kv # kvs, iter, n, trie)
   }"

definition ct_range_scan_vectorized :: "nat \<Rightarrow> kv_heap \<Rightarrow> interference \<Rightarrow> cuckoo_trie \<Rightarrow> u8 list \<Rightarrow> u64 list option" where
  "ct_range_scan_vectorized m heap act trie key = do {
     (iter, n, trie) \<leftarrow> ct_iter_goto_vectorized heap act 0 trie ct_iter_alloc (length key) key;
     (kvs, iter, n, trie) \<leftarrow> collect_vectorized m heap act n trie iter;
     Some kvs
   }"

lemma collect_vectorized_eq:
  assumes "trie_shape heap trie T" and "listed trie T" and "iter_on trie T iter L"
  shows "collect_vectorized m heap act n trie iter = collect m heap act n trie iter"
  using assms(3)
proof (induction m arbitrary: iter L)
  case (Suc m)
  obtain kv iter' where s: "ct_iter_next heap act n trie iter = Some (kv, iter', n, trie)" "iter_on trie T iter' (L - {Min L})"
    using next_reports [OF assms(1,2) Suc.prems] by blast
  then show ?case using next_vectorized_eq [OF assms(1,2) Suc.prems] Suc.IH [OF s(2)] by simp
qed simp

theorem ct_range_scan_vectorized_eq:
  assumes o: "ordered_trie heap trie T" and key: "length key \<le> MAX_KEY_BYTES"
  shows "ct_range_scan_vectorized m heap act trie key = ct_range_scan m heap act trie key"
proof -
  note sh = ordered_trieD(1) [OF o] and ls = ordered_trieD(2) [OF o]
  obtain iter where "ct_iter_goto heap act 0 trie ct_iter_alloc (length key) key = Some (iter, 0, trie)"
    "iter_on trie T iter (rest heap T key)" using goto_places [OF sh ls key] by blast
  then show ?thesis using goto_vectorized_eq [OF sh ls key] collect_vectorized_eq [OF sh ls]
    by (simp add: ct_range_scan_vectorized_def ct_range_scan_def)
qed

section \<open>Allocation\<close>

text \<open>On the zeros of a new mapping, a copied template and the written fields give the same cells.\<close>

lemma init_buckets_vectorized_eq:
  assumes "\<forall>b\<in>set (take (unat (num_buckets trie)) (buckets trie)). b = zero_bucket"
  shows "init_buckets_vectorized trie = init_buckets trie"
proof -
  have "init_bucket_vectorized zero_bucket = init_bucket zero_bucket"
    by (simp add: init_bucket_vectorized_def init_bucket_def zero_bucket_def Let_def)
  then show ?thesis unfolding init_buckets_vectorized_def init_buckets_def Let_def using assms by (metis map_cong)
qed

theorem ct_alloc_vectorized_eq:
  assumes mmap: "zero_mapping os_mmap"
  shows "ct_alloc_vectorized os_mmap os_malloc num_cells = ct_alloc os_mmap os_malloc num_cells"
proof (cases "os_mmap ((((buckets_for num_cells) + 1) * 64 div HUGEPAGE_SIZE + 1) * HUGEPAGE_SIZE)")
  case None
  then show ?thesis unfolding ct_alloc_vectorized_def ct_alloc_def mmap_hugepage_def Let_def None option.case by simp
next
  case (Some memory)
  obtain k where "memory = replicate k zero_bucket" using mmap Some unfolding zero_mapping_def by metis
  then have zero: "b = zero_bucket" if "b \<in> set memory" for b using that by simp
  have same: "init_buckets_vectorized (init_bucket_mix_table (set_cell (set_cell t h e) h e')) = init_buckets (init_bucket_mix_table (set_cell (set_cell t h e) h e'))"
    if "buckets t = take k memory" "h = trie_min_leaf t" for t :: cuckoo_trie and h e e' k
  proof (rule init_buckets_vectorized_eq)
    show "\<forall>b\<in>set (take (unat (num_buckets (init_bucket_mix_table (set_cell (set_cell t h e) h e'))))
        (buckets (init_bucket_mix_table (set_cell (set_cell t h e) h e')))). b = zero_bucket"
      using that zero by (auto simp: init_bucket_mix_table_def set_cell_def trie_min_leaf_def dest: in_set_takeD)
  qed
  show ?thesis
    unfolding ct_alloc_vectorized_def ct_alloc_def mmap_hugepage_def Let_def Some option.case
    by (intro if_cong refl arg_cong [where f = "Option.Some"] same) (simp_all add: trie_min_leaf_def set_cell_def)
qed

end
