(* ===== verification/LeafLocks.thy ===== *)
theory LeafLocks
  imports PublishLeaf Vectorized
begin

text \<open>
  The first part of an insertion below a bitmap: the locks. A thread that is alone gets all of
  them, since nothing was written after the copies of the finger were read.
\<close>

lemma upgrade_alone:
  assumes lok: "locks_ok {} (trie, mgr)" and b: "fst (last_pos c) < length (buckets trie)" "snd (last_pos c) < CUCKOO_BUCKET_SIZE"
    and valid: "validate_entry trie c"
  obtains trie' mgr' where "upgrade_lock (trie, mgr) c = (SI_OK, trie', mgr')" and "locks_ok {} (trie', mgr')"
    and "unlocked trie' = unlocked trie"
proof -
  obtain st t m where s: "upgrade_lock (trie, mgr) c = (st, t, m)" using prod_cases3 by blast
  note u = upgrade_lock_ok [OF lok b s]
  have "st = SI_OK" using u(5) valid by (simp add: validate_entry_def)
  then show thesis using that s u(1,2) by simp
qed

lemma copy_at_ptr:
  assumes "copy_at trie T p c" and "table_ok trie"
  shows "fst (last_pos c) < length (buckets trie)" and "snd (last_pos c) < CUCKOO_BUCKET_SIZE"
  using assms table_okD(3) [OF assms(2)] by (auto simp: copy_at_def copy_of_def table_cells_def)

lemma upgrade_copy:
  assumes lok: "locks_ok {} (trie, mgr)" and u: "unlocked trie = unlocked trie0" and c: "copy_at trie0 T p c" and ok: "table_ok trie0"
  obtains trie' mgr' where "upgrade_lock (trie, mgr) c = (SI_OK, trie', mgr')" and "locks_ok {} (trie', mgr')"
    and "unlocked trie' = unlocked trie0"
proof -
  have "fst (last_pos c) < length (buckets trie)" using copy_at_ptr(1) [OF c ok] unlocked_eqD(1) [OF u] by simp
  from upgrade_alone [OF lok this copy_at_ptr(2) [OF c ok] copy_current_locked [OF c ok u]] obtain t m where
    "upgrade_lock (trie, mgr) c = (SI_OK, t, m)" "locks_ok {} (t, m)" "unlocked t = unlocked trie" by blast
  then show thesis using that u by simp
qed

lemma upgrade_left_alone:
  assumes path: "path_on trie0 T path qs" and ok: "table_ok trie0"
    and lok: "locks_ok {} (trie, mgr)" and u: "unlocked trie = unlocked trie0" and i: "i < length qs"
  shows "\<exists>n trie' mgr'. upgrade_left_parents path i (trie, mgr) = (SI_OK, n, trie', mgr') \<and> locks_ok {} (trie', mgr') \<and>
    unlocked trie' = unlocked trie0"
  using lok u i
proof (induction i arbitrary: trie mgr)
  case (Suc i)
  have c: "copy_at trie0 T (qs ! i) (pe_entry (path ! i))" using path Suc.prems(3) by (simp add: path_on_def)
  obtain t m where t: "upgrade_lock (trie, mgr) (pe_entry (path ! i)) = (SI_OK, t, m)" "locks_ok {} (t, m)" "unlocked t = unlocked trie0"
    using upgrade_copy [OF Suc.prems(1,2) c ok] .
  have "i < length qs" using Suc.prems(3) by simp
  from Suc.IH [OF t(2,3) this] show ?case using t(1) Suc.prems(1,2) by (auto simp: Let_def)
qed simp

lemma pred_copy_ptr:
  assumes sh: "trie_shape heap trie T" and c: "pred_copy trie T P c"
  shows "fst (last_pos c) < length (buckets trie)" and "snd (last_pos c) < CUCKOO_BUCKET_SIZE"
proof -
  note ok = table_invD(1) [OF trie_shapeD(1) [OF sh]]
  have "fst (last_pos c) < length (buckets trie) \<and> snd (last_pos c) < CUCKOO_BUCKET_SIZE"
  proof (cases "before T P = {}")
    case True
    then show ?thesis using c table_okD(3) [OF ok] by (simp add: pred_copy_def min_copy_def copy_of_def trie_min_leaf_def)
  next
    case False
    then show ?thesis using c copy_at_ptr [OF _ ok] by (auto simp: pred_copy_def)
  qed
  then show "fst (last_pos c) < length (buckets trie)" "snd (last_pos c) < CUCKOO_BUCKET_SIZE" by blast+
qed

theorem bitmap_locks:
  fixes f :: ct_finger
  assumes o: "ordered_trie heap trie T" and lok: "locks_ok {} (trie, mgr)" and fp: "finger_path trie T f qs"
    and bm: "entry_type (the (T (last qs))) = TYPE_BITMAP" and s: "s \<le> 32"
  defines "loc \<equiv> prefetch_bitmap_child_predecessor trie f (unat s)"
  obtains t1 m1 t2 m2 t3 t4 m4 c where "upgrade_lock (trie, mgr) (containing_entry f) = (SI_OK, t1, m1)"
    and "upgrade_locks_on_left_parents_above (t1, m1) f (last_path_entry f) = (SI_OK, t2, m2)"
    and "lock_predecessor (t2, m2) f loc = Some (SI_OK, loc\<lparr>predecessor := c\<rparr>, t4, m4)"
    and "locks_ok {} (t4, m4)" and "unlocked t4 = unlocked trie" and "unlocked t3 = unlocked trie" and "pred_copy t3 T (last qs @ [s]) c"
    and "lock_predecessor_vectorized (t2, m2) f loc = Some (SI_OK, loc\<lparr>predecessor := c\<rparr>, t4, m4)"
proof -
  note sh = ordered_trieD(1) [OF o] and ls = ordered_trieD(2) [OF o]
  have ok: "table_ok trie" by (rule table_invD(1) [OF trie_shapeD(1) [OF sh]])
  have path: "path_on trie T (f_path f) qs" and ce: "containing_entry f = pe_entry (last (f_path f))" using fp by (simp_all add: finger_path_def)
  then have q: "qs \<noteq> []" "length (f_path f) = length qs" by (simp_all add: path_on_def)
  have fne: "f_path f \<noteq> []" using q by auto
  have last: "last_path_entry f < length qs" "qs ! last_path_entry f = last qs" using q by (simp_all add: last_conv_nth)
  have "copy_at trie T (qs ! last_path_entry f) (pe_entry (f_path f ! last_path_entry f))"
    using path last(1) unfolding path_on_def by blast
  then have "copy_at trie T (last qs) (containing_entry f)" unfolding last(2) ce last_conv_nth [OF fne] .
  then obtain t1 m1 where 1: "upgrade_lock (trie, mgr) (containing_entry f) = (SI_OK, t1, m1)" "locks_ok {} (t1, m1)" "unlocked t1 = unlocked trie"
    using upgrade_copy [OF lok refl _ ok] by blast
  obtain n t2 m2 where 2: "upgrade_left_parents (f_path f) (last_path_entry f) (t1, m1) = (SI_OK, n, t2, m2)" "locks_ok {} (t2, m2)"
    "unlocked t2 = unlocked trie" using upgrade_left_alone [OF path ok 1(2,3) last(1)] by blast
  have two: "upgrade_locks_on_left_parents_above (t1, m1) f (last_path_entry f) = (SI_OK, t2, m2)"
    using 2(1) by (simp add: upgrade_locks_on_left_parents_above_def)
  have s33: "unat s \<le> 33" using s by (simp add: word_le_nat_alt)
  have bm': "entry_type (the (T (qs ! last_path_entry f))) = TYPE_BITMAP" using bm last(2) by simp
  obtain c where c: "get_predecessor_atomic t2 f loc (predecessor loc) = Some (True, c)" "pred_copy t2 T (last qs @ [s]) c"
    using predecessor_found_locked [OF sh ls path last(1) bm' s33 2(3), of "predecessor loc"] last(2)
    by (auto simp: loc_def prefetch_bitmap_child_predecessor_def)
  note sh2 = ordered_unlocked(1) [OF 2(3) sh ls] and ls2 = ordered_unlocked(2) [OF 2(3) sh ls]
  obtain t4 m4 where 4: "upgrade_lock (t2, m2) c = (SI_OK, t4, m4)" "locks_ok {} (t4, m4)" "unlocked t4 = unlocked t2"
    using upgrade_alone [OF 2(2) pred_copy_ptr [OF sh2 c(2)] pred_copy_link(4) [OF sh2 ls2 c(2)]] .
  have "lock_predecessor (t2, m2) f loc = Some (SI_OK, loc\<lparr>predecessor := c\<rparr>, t4, m4)"
    using c(1) 4(1) by (simp add: lock_predecessor_def)
  moreover have "get_predecessor_atomic_vectorized t2 f loc old = get_predecessor_atomic t2 f loc old" for old
    using get_predecessor_vectorized_locked [OF sh ls path last(1) bm' s33 2(3)]
    by (simp add: loc_def prefetch_bitmap_child_predecessor_def)
  then have "lock_predecessor_vectorized (t2, m2) f loc = Some (SI_OK, loc\<lparr>predecessor := c\<rparr>, t4, m4)"
    using c(1) 4(1) by (simp add: lock_predecessor_vectorized_def)
  ultimately show thesis using that 1(1) two 4(2,3) 2(3) c(2) by simp
qed

end
