(* ===== verification/AddAlone.thy ===== *)
theory AddAlone
  imports AddEntry
begin

text \<open>
  A thread that is alone. No lock is refused to it, so a relocation never has to be repeated;
  adding an entry has to be repeated only when a relocation went through the alternate bucket,
  and then the primary bucket has a free cell, with which the next attempt succeeds.
\<close>

definition has_room :: "cuckoo_trie \<Rightarrow> u64 \<Rightarrow> bool" where
  "has_room trie b \<longleftrightarrow> find_free_cell_in_bucket (bucket_of trie b) \<noteq> None"

lemma has_room_cell:
  assumes "wf_trie trie" and "valid_bucket trie b"
  shows "has_room trie b \<longleftrightarrow> (\<exists>k<4. entry_type (cell trie (unat b, k)) = TYPE_UNUSED)"
proof
  assume "has_room trie b"
  then obtain k where "find_free_cell_in_bucket (bucket_of trie b) = Some k" by (auto simp: has_room_def)
  then show "\<exists>k<4. entry_type (cell trie (unat b, k)) = TYPE_UNUSED" using find_free_Some [OF assms] by blast
next
  assume "\<exists>k<4. entry_type (cell trie (unat b, k)) = TYPE_UNUSED"
  then show "has_room trie b" using find_free_None [OF assms] by (auto simp: has_room_def)
qed

lemma has_room_unlocked:
  assumes "unlocked t = unlocked trie" and "table_ok trie" and "valid_bucket trie b"
  shows "has_room t b = has_room trie b"
proof -
  have "cells (bucket_of t b) = cells (bucket_of trie b)" using same_table(7) [OF assms(1,2)] assms(3) .
  then show ?thesis by (simp add: has_room_def find_free_cell_in_bucket_def)
qed

lemma upgrade_bucket_alone:
  assumes lok: "locks_ok {} (trie, mgr)" and b: "b < length (buckets trie)"
    and seq: "seq_of_word (bucket_word trie b) = seq_of_word (bucket_word t0 b)"
    and s: "upgrade_bucket_lock (trie, mgr) (read_lock_bucket t0 b) = (st, s')"
  shows "st = SI_OK"
  using upgrade_bucket_lock_ok(5) [OF lok _ s] b seq by (simp add: read_lock_bucket_def)

subsection \<open>Relocation\<close>

lemma upgrade_path_alone:
  assumes q: "queue_ok t0 immovable b0 queue" and wf: "wf_trie t0" and pos: "pos < length queue"
    and ok: "locks_ok {} (trie, mgr)" and u: "unlocked trie = unlocked t0"
    and r: "upgrade_path queue pos c (trie, mgr) = Some (st, n, s')"
  shows "st = SI_OK"
  using pos ok u r
proof (induction pos arbitrary: trie mgr c rule: less_induct)
  case (less pos)
  show ?case
  proof (cases "pos = 0")
    case True
    then show ?thesis using less.prems(4) by (subst (asm) upgrade_path.simps) simp
  next
    case False
    note par = queue_parent [OF q less.prems(1) False]
    let ?b = "unat (rq_bucket (queue ! pos))"
    obtain st1 t1 m1 where s: "upgrade_bucket_lock (trie, mgr) (read_lock_bucket t0 ?b) = (st1, t1, m1)"
      using prod_cases3 by blast
    have bl: "?b < length (buckets trie)" using queue_bucket(2) [OF q wf less.prems(1)] unlocked_eqD(1) [OF less.prems(3)] by simp
    then have st1: "st1 = SI_OK" using upgrade_bucket_alone [OF less.prems(2) _ _ s] unlocked_eqD(3) [OF less.prems(3)] by simp
    have "rl_bucket (read_lock_bucket t0 ?b) < length (buckets trie)" using bl by (simp add: read_lock_bucket_def)
    note up = upgrade_bucket_lock_ok [OF less.prems(2) this s]
    have "upgrade_path queue (nat (parent_queue_pos (queue ! pos))) (c + 1) (t1, m1) = Some (st, n, s')"
      using less.prems(4) False s st1 par(4) by (subst (asm) upgrade_path.simps) simp
    from less.IH [OF par(1,2) _ _ this] show ?thesis using up(1,2) less.prems(3) by simp
  qed
qed

lemma relocate_alone:
  assumes tok: "table_ok trie" and lok: "locks_ok {} (trie, mgr)" and vb: "valid_bucket trie b0"
    and full: "find_free_cell_in_bucket (bucket_of trie b0) = None"
    and r: "relocate_entry (trie, mgr) b0 immovable = Some (st, out, s')"
  shows "st \<noteq> SI_RETRY"
proof -
  let ?q0 = "[\<lparr>rq_bucket = b0, rq_read_lock = \<lparr>rl_bucket = 0, rl_seq = 0\<rparr>, parent_queue_pos = - 1, rq_child_idx = 0\<rparr>]"
  have wf: "wf_trie trie" and vt: "valid_table trie" using table_okD(1,2) [OF tok] .
  show ?thesis
  proof (cases "relocate_search trie immovable ?q0 0")
    case None
    then show ?thesis using r by (simp add: relocate_entry_def)
  next
    case (Some res)
    obtain queue qp k child rl fc where res: "res = (queue, qp, k, child, rl, fc)" by (cases res)
    note so = relocate_search_ok [OF init_queue_ok [OF vb full] vt Some [unfolded res]]
    let ?pos = "qp - 1"
    have q: "queue_ok trie immovable b0 queue" and pos: "?pos < length queue"
      and mov: "movable trie immovable (rq_bucket (queue ! ?pos)) k child" and rl: "rl = read_lock_bucket trie (unat child)"
      using so by (auto simp: found_ok_def)
    have vc: "valid_bucket trie child" using movable_child [OF vt queue_bucket(1) [OF q wf pos] mov] .
    then have bl: "unat child < length (buckets trie)" using table_okD(3) [OF tok] by (simp add: valid_bucket_unat)
    obtain st1 t1 m1 where s1: "upgrade_bucket_lock (trie, mgr) (read_lock_bucket trie (unat child)) = (st1, t1, m1)"
      using prod_cases3 by blast
    have ok1: "st1 = SI_OK" by (rule upgrade_bucket_alone [OF lok bl refl s1])
    have "rl_bucket (read_lock_bucket trie (unat child)) < length (buckets trie)" using bl by (simp add: read_lock_bucket_def)
    note up = upgrade_bucket_lock_ok [OF lok this s1, unfolded fst_conv]
    obtain st2 n s2 where s2: "upgrade_path queue ?pos 1 (t1, m1) = Some (st2, n, s2)"
      using upgrade_path_ok [OF q wf pos up(1,2), of 1] by blast
    have "st2 = SI_OK" by (rule upgrade_path_alone [OF q wf pos up(1,2) s2])
    then show ?thesis using r Some res s1 ok1 rl s2
      by (auto simp: relocate_entry_def Let_def split: bind_splits prod.splits)
  qed
qed

subsection \<open>Adding an entry\<close>

lemma release_cell [simp]: "cell (fst (release_bucket_lock (t, m) b)) p = cell t p"
  by (simp add: release_bucket_lock_def remove_lock_def clear_lock_byte_def Let_def table_simps split: option.splits)

lemma read_unlock_elsewhere:
  assumes u: "unlocked trie = unlocked t0" and b: "b < length (buckets trie)" "b \<noteq> fst p"
  shows "read_unlock_bucket (snd (write_entry trie p e)) (read_lock_bucket t0 b) = SI_OK"
  using unlocked_eqD(3) [OF u b(1)] seq_write_entry [OF b(2), of trie e] by (simp add: read_unlock_bucket_def read_lock_bucket_def)

lemma add_in_cell_refused:
  assumes tok: "table_ok trie" and h: "valid_hash trie h" and p: "p \<in> table_cells trie" "entry_type (cell trie p) = TYPE_UNUSED"
    and e: "wf_entry e" "\<not> entry_is_secondary e" "entry_type e \<noteq> TYPE_UNUSED"
    and side: "fst p = unat (hash_to_bucket h)"
    and r: "add_in_cell (trie, mgr) h e lock p rb 0 alt = (st, out, e', s')" and st: "st \<noteq> SI_OK"
  shows "cell (fst s') p = unused_entry"
proof -
  have vs: "valid_sizes trie" using table_okD(2) [OF tok] by auto
  note hs = hash_split_valid [OF vs h]
  have t: "hash_to_tag h < 16" using hs(2) by (simp add: valid_tag_def)
  define c where "c = unused_color_in_pair (bucket_of trie (hash_to_bucket h)) (bucket_of trie (mix_bucket trie (hash_to_bucket h) (hash_to_tag h)))"
  have "c < 9" using unused_color_ok(1) [OF tok hs(1) t p] side by (simp add: c_def)
  note f = stored_entry_fields [OF e nibble_less_9 [OF this] t, of False]
  let ?e = "stored_entry e False c (hash_to_tag h)"
  let ?t1 = "snd (write_entry trie p ?e)"
  have "table_ok ?t1" by (rule table_ok_write_entry [OF tok p(1) f(1,6)])
  moreover have "p \<in> table_cells ?t1" using p(1) by simp
  ultimately have "cell (snd (write_entry ?t1 p unused_entry)) p = unused_entry" using unused_entry_ok(1) by (simp add: cell_write_entry)
  moreover have "fst s' = fst (release_bucket_lock (snd (write_entry ?t1 p unused_entry), if lock then write_lock_entry_in_locked_bucket mgr p else mgr) (unat rb))"
    using r st by (auto simp: add_in_cell_def Let_def c_def stored_entry_def remove_entry_by_address_def split: if_splits prod.splits)
  ultimately show ?thesis by simp
qed

lemma add_in_cell_accepted:
  assumes "\<And>e. read_unlock_bucket (snd (write_entry trie p e)) alt = SI_OK"
  shows "fst (add_in_cell (trie, mgr) h e lock p rb fl alt) = SI_OK"
  using assms by (simp add: add_in_cell_def Let_def)

theorem add_entry_alone:
  assumes tok: "table_ok trie" and lok: "locks_ok {} (trie, mgr)" and h: "valid_hash trie h"
    and e: "wf_entry e" "\<not> entry_is_secondary e" "entry_type e \<noteq> TYPE_UNUSED"
    and r: "add_entry (trie, mgr) h e immovable lock = Some (st, out, e', t', m')"
  shows "has_room trie (hash_to_bucket h) \<Longrightarrow> st = SI_OK" and "st = SI_RETRY \<Longrightarrow> has_room t' (hash_to_bucket h)"
proof -
  let ?b = "hash_to_bucket h" and ?t = "hash_to_tag h"
  let ?d = "mix_bucket trie ?b ?t"
  have vt: "valid_table trie" and wf: "wf_trie trie" using table_okD(2) [OF tok] table_okD(1) [OF tok] .
  then have vs: "valid_sizes trie" by auto
  note hs = hash_split_valid [OF vs h]
  have vd: "valid_bucket trie ?d" by (rule pair.mix_valid [OF vt hs])
  have ne: "unat ?d \<noteq> unat ?b" using pair.mix_neq [OF vt hs] by (simp add: word_unat_eq_iff)
  have bl: "unat ?b < length (buckets trie)" "unat ?d < length (buckets trie)"
    using hs(1) vd table_okD(3) [OF tok] by (simp_all add: valid_bucket_unat)
  obtain st1 t1 m1 where s1: "upgrade_bucket_lock (trie, mgr) (read_lock_bucket trie (unat ?b)) = (st1, t1, m1)"
    using prod_cases3 by blast
  obtain st2 t2 m2 where s2: "upgrade_bucket_lock (trie, mgr) (read_lock_bucket trie (unat ?d)) = (st2, t2, m2)"
    using prod_cases3 by blast
  have st1: "st1 = SI_OK" by (rule upgrade_bucket_alone [OF lok bl(1) refl s1])
  have st2: "st2 = SI_OK" by (rule upgrade_bucket_alone [OF lok bl(2) refl s2])
  note up1 = upgrade_then [OF tok lok hs(1) s1, unfolded st1, OF status.distinct(1)]
  note up2 = upgrade_then [OF tok lok vd s2, unfolded st2, OF status.distinct(1)]
  show "st = SI_OK" if room: "has_room trie ?b"
  proof -
    obtain k where k: "find_free_cell_in_bucket (bucket_of trie ?b) = Some k" using room by (auto simp: has_room_def)
    have "fst (add_in_cell (t1, m1) h e lock (unat ?b, k) ?b 0 (read_lock_bucket trie (unat ?d))) = SI_OK"
      by (rule add_in_cell_accepted, rule read_unlock_elsewhere [OF up1(3)]) (use ne bl(2) unlocked_eqD(1) [OF up1(3)] in auto)
    then show ?thesis using r k s1 st1 by (simp add: add_entry_def Let_def)
  qed
  show "has_room t' ?b" if retry: "st = SI_RETRY"
  proof (cases "find_free_cell_in_bucket (bucket_of trie ?b)")
    case (Some k)
    have "fst (add_in_cell (t1, m1) h e lock (unat ?b, k) ?b 0 (read_lock_bucket trie (unat ?d))) = SI_OK"
      by (rule add_in_cell_accepted, rule read_unlock_elsewhere [OF up1(3)]) (use ne bl(2) unlocked_eqD(1) [OF up1(3)] in auto)
    then show ?thesis using r Some s1 st1 retry by (simp add: add_entry_def Let_def)
  next
    case full: None
    show ?thesis
    proof (cases "find_free_cell_in_bucket (bucket_of trie ?d)")
      case (Some k)
      have "fst (add_in_cell (t2, m2) h e lock (unat ?d, k) ?d (ucast FLAG_SECONDARY_BUCKET) (read_lock_bucket trie (unat ?b))) = SI_OK"
        by (rule add_in_cell_accepted, rule read_unlock_elsewhere [OF up2(3)]) (use ne bl(1) unlocked_eqD(1) [OF up2(3)] in auto)
      then show ?thesis using r full Some s2 st2 retry by (simp add: add_entry_def Let_def)
    next
      case full2: None
      note same = same_table [OF up1(3) tok]
      have vb1: "valid_bucket t1 ?b" using hs(1) same(3) by (simp add: valid_bucket_def)
      have full1: "find_free_cell_in_bucket (bucket_of t1 ?b) = None"
        using full same(7) [OF hs(1)] by (simp add: find_free_cell_in_bucket_def)
      have sp1: "0 < spare_refs m1 (unat ?b)" using up1(4) by simp
      from relocate_entry_ok [OF up1(1,2) vb1 full1 sp1, of immovable] obtain st3 out3 t3 m3 where
        q: "relocate_entry (t1, m1) ?b immovable = Some (st3, out3, t3, m3)" "relocated {} immovable ?b (t1, m1) st3 out3 (t3, m3)"
          "st3 \<in> {SI_OK, SI_RETRY, SI_FAIL}"
        by auto
      have nr: "st3 \<noteq> SI_RETRY" by (rule relocate_alone [OF up1(1,2) vb1 full1 q(1)])
      have nf: "st3 \<noteq> SI_FAIL" using r full full2 s1 st1 q(1) retry by (auto simp: add_entry_def Let_def)
      with nr have ok3: "st3 = SI_OK" using q(3) by auto
      then obtain k where k: "k < 4" "out3 = Some (unat ?b, k)" "entry_type (cell t3 (unat ?b, k)) = TYPE_UNUSED"
        using q(2) by (auto simp: relocated_def)
      have a: "add_in_cell (t3, m3) h e lock (unat ?b, k) ?b 0 (read_lock_bucket trie (unat ?d)) = (st, out, e', t', m')"
        using r full full2 s1 st1 q(1) ok3 k(2) by (simp add: add_entry_def Let_def)
      have tok3: "table_ok t3" and nb3: "num_buckets t3 = num_buckets trie" using q(2) same by (simp_all add: relocated_def)
      have "valid_sizes t3" using table_okD(2) [OF tok3] by auto
      then have "unat (num_pairs t3) = unat (num_pairs trie)" using nb3 vs by (elim valid_sizes_unat) simp
      then have h3: "valid_hash t3 h" using h by (simp add: valid_hash_def word_less_nat_alt)
      have p3: "(unat ?b, k) \<in> table_cells t3" using hs(1) k(1) nb3 by (simp add: table_cells_def valid_bucket_unat)
      have c: "cell t' (unat ?b, k) = unused_entry" using add_in_cell_refused [OF tok3 h3 p3 k(3) e _ a] retry by simp
      from add_entry_ok [OF tok lok h e, of immovable lock] r have "table_ok t' \<and> num_buckets t' = num_buckets trie"
        by (auto simp: added_def Let_def)
      then have "wf_trie t'" "valid_bucket t' ?b" using hs(1) table_okD(1) by (auto simp: valid_bucket_def)
      from has_room_cell [OF this] show ?thesis using c k(1) unused_entry_ok(2) by auto
    qed
  qed
qed

end
