(* ===== verification/CreateInBitmap.thy ===== *)
theory CreateInBitmap
  imports LeafLocks AddAlone
begin

text \<open>
  The insertion of a key below a bitmap that has no child for its next symbol, as one thread
  runs it alone: the trie gets exactly the leaf of the key, in the table, below its bitmap
  and in the list of the leaves; when the table has no room the trie stands for the same keys
  as before.
\<close>

subsection \<open>The new leaf\<close>

definition new_child :: "u8 \<Rightarrow> u64 \<Rightarrow> u64 \<Rightarrow> ct_entry" where
  "new_child color s kv = entry_set_kv (zero_entry\<lparr>parent_color_and_flags := push_bit PARENT_COLOR_SHIFT color OR TYPE_LEAF,
     e_last_symbol := ucast s\<rparr>) kv"

lemma leaf_flags_bits: "bit (push_bit PARENT_COLOR_SHIFT color OR TYPE_LEAF :: u8) n \<longleftrightarrow> n = 0 \<or> 4 \<le> n \<and> n < 8 \<and> bit color (n - 4)"
  by (auto simp: bit_or_iff bit_push_bit_iff bit_1_iff)

lemma new_child_fields:
  shows "wf_entry (new_child color s kv)" "\<not> entry_is_secondary (new_child color s kv)" "entry_type (new_child color s kv) = TYPE_LEAF"
    "\<not> entry_dirty (new_child color s kv)" "e_last_symbol (new_child color s kv) = ucast s"
    and "nibble color \<Longrightarrow> entry_parent_color (new_child color s kv) = color"
    and "canonical_address kv \<Longrightarrow> entry_kv (new_child color s kv) = kv"
proof -
  let ?e = "zero_entry\<lparr>parent_color_and_flags := push_bit PARENT_COLOR_SHIFT color OR TYPE_LEAF, e_last_symbol := ucast s\<rparr>"
  note F = entry_set_kv_fields [of ?e kv, folded new_child_def]
  have flags: "parent_color_and_flags (new_child color s kv) = push_bit PARENT_COLOR_SHIFT color OR TYPE_LEAF" unfolding F(5) by simp
  have bits: "bit (parent_color_and_flags (new_child color s kv)) n \<longleftrightarrow> n = 0 \<or> 4 \<le> n \<and> n < 8 \<and> bit color (n - 4)" for n
    unfolding flags by (rule leaf_flags_bits)
  show "wf_entry (new_child color s kv)" by (rule F(7))
  show "\<not> entry_is_secondary (new_child color s kv)" "\<not> entry_dirty (new_child color s kv)"
    unfolding entry_is_secondary_bit entry_dirty_bit bits by simp_all
  have "entry_type (new_child color s kv) = entry_type (zero_entry\<lparr>parent_color_and_flags := 1\<rparr>)"
    by (rule entry_type_eqI) (simp add: bits bit_1_iff)
  then show "entry_type (new_child color s kv) = TYPE_LEAF" by (simp add: entry_type_def)
  show "e_last_symbol (new_child color s kv) = ucast s" unfolding F(4) by simp
  show "entry_parent_color (new_child color s kv) = color" if "nibble color"
  proof (rule bit_word_eqI)
    fix n
    show "bit (entry_parent_color (new_child color s kv)) n = bit color n"
      using that by (auto simp: entry_parent_color_def bit_drop_bit_eq bits nibble_bits not_less [symmetric] dest: bit_imp_le_length)
  qed
  show "entry_kv (new_child color s kv) = kv" if "canonical_address kv"
    unfolding new_child_def by (rule entry_kv_set_kv) (use that in \<open>simp_all add: wf_entry_def zero_entry_def\<close>)
qed

lemma create_bitmap_child_vectorized_eq:
  "create_bitmap_child_vectorized avx s f color symbol kv = add_entry_vectorized avx s
     (accumulate_hash (fst s) (f_prefix_hash f) symbol) (new_child color symbol kv) (Some (last_pos (containing_entry f))) True"
  by (simp add: create_bitmap_child_vectorized_def new_child_def Let_def)

lemma create_bitmap_child_eq:
  "create_bitmap_child s f color symbol kv =
     add_entry s (accumulate_hash (fst s) (f_prefix_hash f) symbol) (new_child color symbol kv) (Some (last_pos (containing_entry f))) True"
  by (simp add: create_bitmap_child_def new_child_def Let_def)

subsection \<open>Before and after\<close>

lemma ordered_view:
  assumes o: "ordered_trie heap trie T" and v: "view t T (cell trie (trie_min_leaf trie))" and f: "frame t = frame trie"
  shows "ordered_trie heap t T"
proof -
  note sh = ordered_trieD(1) [OF o]
  have "trie_shape heap t T" by (rule trie_shape_rooted [OF viewD(1) [OF v] trie_shapeD(4) [OF sh] f])
  moreover have "listed t T" using listed_cong [OF f] viewD(4) [OF v] ordered_trieD(2) [OF o] by simp
  ultimately show ?thesis by (simp add: ordered_trie_def)
qed

lemma ordered_released:
  assumes o: "ordered_trie heap t V" and lok: "locks_ok others (t, mgr)"
  obtains t' where "release_all_locks (t, mgr) = (t', [])" and "ordered_trie heap t' V" and "locks_ok others (t', [])"
    and "frame t' = frame t" and "unlocked t' = unlocked t"
proof -
  obtain t' m' where r: "release_all_locks (t, mgr) = (t', m')" by fastforce
  note rel = release_all_locks_ok [OF lok, unfolded r fst_conv snd_conv]
  note u = ordered_unlocked [OF rel(2) ordered_trieD [OF o]]
  show thesis by (rule that [of t']) (use r rel u in \<open>simp_all add: ordered_trie_def\<close>)
qed

lemma ref_on_copy:
  assumes c: "copy_at trie T p c" and ok: "table_ok trie" and u: "unlocked t = unlocked trie"
  shows "ref_on t T (Some p) 0 c"
  using copy_on_wrote [where T = T and T' = T, OF copy_at_on [OF c ok, of 0] wrote_unlocked [OF u, of "{}"]] by (simp add: ref_on_def)

lemma ref_on_pred:
  assumes c: "pred_copy trie T P c" and ok: "table_ok trie" and u: "unlocked t = unlocked trie"
  shows "ref_on t T (pred_ref T P) 0 c"
proof (cases "before T P = {}")
  case True
  then have "ref_on trie T None 0 c" using c by (simp add: pred_copy_def min_copy_def copy_of_def ref_on_def)
  from ref_on_wrote [OF this wrote_unlocked [OF u, of "{}"] _ _ ok, of T] show ?thesis using True by (simp add: pred_ref_def)
next
  case False
  then show ?thesis using ref_on_copy [OF _ ok u] c by (simp add: pred_copy_def pred_ref_def)
qed

text \<open>
  What an attempt to insert leaves behind. An attempt that has to be repeated leaves a free
  cell in the primary bucket of the new leaf, and with one an attempt is not repeated.
\<close>

definition inserted :: "kv_heap \<Rightarrow> cuckoo_trie \<Rightarrow> shape \<Rightarrow> u64 list \<Rightarrow> u64 \<Rightarrow> status \<Rightarrow> cuckoo_trie \<Rightarrow> bool" where
  "inserted heap trie T p kv st trie' \<longleftrightarrow> locks_ok {} (trie', []) \<and> frame trie' = frame trie \<and>
     (if st = SI_OK
      then \<exists>V. ordered_trie heap trie' V \<and> leaves V = insert p (leaves T) \<and> kv_at V p = kv \<and> (\<forall>x\<in>leaves T. kv_at V x = kv_at T x)
      else st \<in> {SI_RETRY, SI_FAIL} \<and> ordered_trie heap trie' T) \<and>
     (has_room trie (hash_to_bucket (hash_path trie p)) \<longrightarrow> st = SI_OK) \<and>
     (st = SI_RETRY \<longrightarrow> has_room trie' (hash_to_bucket (hash_path trie p)))"

subsection \<open>The insertion\<close>

lemma grafted_new_leaf:
  assumes sh: "trie_shape heap trie T" and e: "T q = Some e" "entry_type e = TYPE_BITMAP" and s: "s \<le> 32" "s \<notin> children e"
    and kv: "canonical_address kv" "wf_kv (heap kv)" "prefix (q @ [s]) (key_symbols (key_of heap kv))"
    and tag: "tag = hash_to_tag (hash_path trie (q @ [s]))" and c9: "c < 9"
    and l: "l = (new_child (entry_color e) s kv)\<lparr>color_and_tag := ucast tag OR push_bit 4 c, e_locator := nxt\<rparr>"
  shows "graft_ok heap trie T q s (marked_bitmap e s k) l" and "\<not> entry_dirty l" and "entry_kv l = kv"
proof -
  note n = shape_node [OF sh e(1)] and ok = trie_shapeD(4) [OF sh]
  note wf = node_okD(1,2) [OF n]
  note mb = marked_bitmap_fields [OF wf(1) s(1)]
  note ch = new_child_fields [where color = "entry_color e" and s = s and kv = kv]
  have vs: "valid_sizes trie" using table_invD(5) [OF trie_shapeD(1) [OF sh]] by auto
  have p32: "\<forall>x\<in>set (q @ [s]). x \<le> 32" using node_okD(4) [OF n] s(1) by auto
  have t16: "tag < 16" using hash_split_valid(2) [OF vs hash_path_valid [OF vs p32]] unfolding tag valid_tag_def by simp
  then obtain u :: u8 where u: "tag = ucast u" "nibble u" by (rule u64_nibble)
  then have tu: "ucast tag = u" by (simp add: ucast_ucast_u8)
  have ct: "entry_tag l = u" using entry_tag_color_combined(1) [OF u(2) nibble_less_9 [OF c9]] by (simp add: l tu)
  have lw: "wf_entry l" using ch(1) by (simp add: l wf_entry_def)
  show kvl: "entry_kv l = kv" unfolding l using entry_kv_cong [OF lw ch(1)] ch(7) [OF kv(1)] by (simp add: l)
  show "\<not> entry_dirty l" using ch(4) by (simp add: l entry_dirty_def)
  have "erase_side l = l" unfolding erase_id_iff using ch(2) by (simp add: l entry_is_secondary_def)
  moreover have "entry_type l = TYPE_LEAF" "e_last_symbol l = ucast s" "entry_parent_color l = entry_color e"
    using ch(3,5,6) by (simp_all add: l entry_type_def entry_parent_color_def)
  moreover have "ucast (entry_tag l) = hash_to_tag (hash_path trie (q @ [s]))" using u(1) by (simp add: ct tag)
  moreover have "leaf_ok heap (q @ [s]) l" using kv kvl by (simp add: leaf_ok_def)
  moreover have "erase_side (marked_bitmap e s k) = marked_bitmap e s k" using mb(10) wf(2) by simp
  moreover have "entry_tag (marked_bitmap e s k) = entry_tag e" using mb(3) by (simp add: entry_tag_def)
  ultimately show "graft_ok heap trie T q s (marked_bitmap e s k) l"
    using e s mb lw by (auto simp: graft_ok_def)
qed

lemma view_unlocked:
  assumes sh: "trie_shape heap trie T" and u: "unlocked t = unlocked trie"
  shows "view t T (cell trie (trie_min_leaf trie))" and "frame t = frame trie"
proof -
  have w: "wrote {} 0 trie t" by (rule wrote_unlocked [OF u])
  then show "frame t = frame trie" by (rule wrote_frame)
  have "cell t (trie_min_leaf t) = cell trie (trie_min_leaf trie)"
    by (rule min_leaf_wrote [OF wrote_mono [OF w order.refl empty_subsetI] table_invD(1) [OF trie_shapeD(1) [OF sh]]])
  then show "view t T (cell trie (trie_min_leaf trie))" using rooted_unlocked [OF u shape_rooted [OF sh]] by (simp add: view_def)
qed

lemma path_depth:
  assumes ok: "shape_ok heap trie T" and path: "path_on trie T path qs" and n: "n = length path - 1"
  shows "chain_on T qs n" and "qs ! 0 = []" and "qs ! n = last qs" and "n < length qs" and "distinct qs" and "n \<le> length (last qs)"
proof -
  have qs: "qs \<noteq> []" "length path = length qs" "hd qs = []" using path by (simp_all add: path_on_def)
  show nl: "n < length qs" "qs ! n = last qs" "qs ! 0 = []" using qs n by (simp_all add: last_conv_nth hd_conv_nth)
  show chain: "chain_on T qs n" using path n qs by (auto simp: chain_on_def path_on_def)
  have grow: "length (qs ! i) < length (qs ! j)" if "i < j" "j \<le> n" for i j
    using chain_strict [OF ok chain that] by (rule prefix_length_less)
  show "distinct qs"
  proof (unfold distinct_conv_nth, intro allI impI)
    fix i j assume "i < length qs" "j < length qs" "i \<noteq> j"
    then show "qs ! i \<noteq> qs ! j" using grow [of i j] grow [of j i] n qs(2) by (cases "i < j") fastforce+
  qed
  have "i \<le> length (qs ! i)" if "i \<le> n" for i
    using that
  proof (induction i)
    case (Suc i)
    then show ?case using grow [of i "Suc i"] by simp
  qed simp
  then show "n \<le> length (last qs)" using nl(2) by force
qed

lemma place_fresh:
  assumes ok: "shape_ok heap trie T" and path: "path_on trie T path qs" and n: "n = length path - 1"
    and e: "T (last qs) = Some e" "entry_type e = TYPE_BITMAP" and s: "s \<notin> children e"
  defines "p \<equiv> last qs @ [s]"
  shows "T p = None" and "j \<le> n \<Longrightarrow> p \<noteq> qs ! j" and "pred_ref T p \<noteq> Some p" and "j \<le> n \<Longrightarrow> pred_ref T p \<noteq> Some (qs ! j)"
proof -
  note P = path_depth [OF ok path n]
  show np: "T p = None" unfolding p_def by (rule bitmap_free_child [OF ok e s])
  show ne: "p \<noteq> qs ! j" if "j \<le> n" for j
  proof -
    have "prefix (qs ! j) (last qs)"
      using chain_strict [OF ok P(1), of j n] that P(3) by (cases "j = n") (auto simp: strict_prefix_def)
    then have "length (qs ! j) \<le> length (last qs)" by (rule prefix_length_le)
    then show ?thesis unfolding p_def by (metis Suc_n_not_le_n length_append_singleton)
  qed
  have inner: "qs ! j \<notin> leaves T" if "j \<le> n" for j
  proof (cases "j = n")
    case False
    then have "child_of T (qs ! j) (qs ! Suc j)" using P(1) that by (simp add: chain_on_def)
    then show ?thesis by (auto simp: child_of_def leaves_def)
  qed (use P(3) e in \<open>simp add: leaves_def\<close>)
  have a: "x \<in> leaves T" if "pred_ref T p = Some x" for x
  proof (cases "before T p = {}")
    case False
    then show ?thesis using Max_before(1) [OF ok False] that by (simp add: pred_ref_def)
  qed (use that in \<open>simp add: pred_ref_def\<close>)
  show rp: "pred_ref T p \<noteq> Some p" using a [of p] leaves_dom [of p T] np by blast
  show rq: "pred_ref T p \<noteq> Some (qs ! j)" if "j \<le> n" for j using a inner [OF that] by blast
qed

text \<open>The writes of the last part, from the table with the linked new leaf on.\<close>

lemma published_leaf:
  fixes f :: ct_finger
  assumes o: "ordered_trie heap trie T" and lok: "locks_ok {} (t, mgr)" and path: "path_on trie T (f_path f) qs"
    and len: "length (last qs) \<le> 411" and e: "T (last qs) = Some e" "entry_type e = TYPE_BITMAP" and s: "s \<le> 32" "s \<notin> children e"
  defines "p \<equiv> last qs @ [s]" and "n \<equiv> last_path_entry f"
  assumes kv: "canonical_address kv" "wf_kv (heap kv)" "prefix p (key_symbols (key_of heap kv))"
    and l: "l = (new_child (entry_color e) s kv)\<lparr>color_and_tag := ucast (hash_to_tag (hash_path trie p)) OR push_bit 4 c, e_locator := nxt\<rparr>" "c < 9"
    and own: "links_first trie T {x \<in> leaves T. \<not> x < p} nxt"
    and v: "view t (T(p \<mapsto> l)) (cell trie (trie_min_leaf trie))" and f: "frame t = frame trie"
    and sit: "sits t (T(p \<mapsto> l)) p pos"
    and refs: "\<And>j. j \<le> n \<Longrightarrow> ref_on t (T(p \<mapsto> l)) (Some (qs ! j)) 1003 (pe_entry (f_path f ! j))"
    and pred: "ref_on t (T(p \<mapsto> l)) (pred_ref T p) 1003 (predecessor loc)" "wf_entry (lc_value (predecessor loc))"
      "entry_type (lc_value (predecessor loc)) = TYPE_LEAF" "\<not> entry_dirty (lc_value (predecessor loc))"
  shows "\<exists>c1 t1 loc2 t2 c3 t3 f4 t4 c5 t5. mark_entry_dirty t (predecessor loc) = Some (c1, t1) \<and>
    linklist_insert t1 (loc\<lparr>predecessor := c1\<rparr>) (cell t1 pos) (hash_to_bucket (hash_path trie p)) = Some (loc2, t2) \<and>
    mark_bitmap_child t2 (pe_entry (f_path f ! n)) s (hash_path trie p) (entry_color (cell t2 pos)) = Some (c3, t3) \<and>
    propagate_max_leaf t3 (reread_path_end (set_path_copy f n c3)) 0 = Some (f4, t4) \<and>
    mark_entry_clean t4 (predecessor loc2) = Some (c5, t5) \<and>
    mark_entry_dirty_vectorized t (predecessor loc) = Some (c1, t1) \<and>
    linklist_insert_vectorized t1 (loc\<lparr>predecessor := c1\<rparr>) (cell t1 pos) (hash_to_bucket (hash_path trie p)) = Some (loc2, t2) \<and>
    mark_bitmap_child_vectorized t2 (pe_entry (f_path f ! n)) s (hash_path trie p) (entry_color (cell t2 pos)) = Some (c3, t3) \<and>
    propagate_max_leaf_vectorized t3 (reread_path_end (set_path_copy f n c3)) 0 = Some (f4, t4) \<and>
    mark_entry_clean_vectorized t4 (predecessor loc2) = Some (c5, t5) \<and> locks_ok {} (t5, mgr) \<and> frame t5 = frame trie \<and>
    (\<exists>V. ordered_trie heap t5 V \<and> leaves V = insert p (leaves T) \<and> kv_at V p = kv \<and> (\<forall>x\<in>leaves T. kv_at V x = kv_at T x))"
proof -
  note sh = ordered_trieD(1) [OF o] and ls = ordered_trieD(2) [OF o]
  note ok = trie_shapeD(4) [OF sh]
  note P = path_depth [OF ok path n_def [THEN meta_eq_to_obj_eq]]
  let ?X = "T(p \<mapsto> l)" and ?b = "lc_value (pe_entry (f_path f ! n))"
  let ?K = "\<lparr>loc_primary_bucket = ucast (hash_to_bucket (hash_path trie p)), loc_tag = ucast (hash_to_tag (hash_path trie p)),
    loc_color = entry_color (cell t pos)\<rparr>"
  note G = grafted_new_leaf [OF sh e s kv(1,2) kv(3) [unfolded p_def] refl l(2) l(1) [unfolded p_def]]
  note fresh = place_fresh [OF ok path n_def [THEN meta_eq_to_obj_eq] e s(2), folded p_def]
  note ne = fresh(2) and rp = fresh(3) and rq = fresh(4)
  have Tb: "erase_side ?b = e"
    using ref_value(1) [OF v refs [of n]] ne [of n] P(3) e(1) by simp
  have bw: "wf_entry ?b" "entry_type ?b = TYPE_BITMAP" using ref_value(2) [OF v refs [of n]] erased_node(1) [OF Tb] e(2) by simp_all
  have col: "entry_color (cell t pos) = entry_color l" "entry_tag (cell t pos) = entry_tag l"
    using sit erased_node(3,4) [of "cell t pos" l] by (auto simp: sits_def)
  have tag: "entry_tag (cell t pos) = ucast (hash_to_tag (hash_path trie p))"
  proof -
    have "ucast (entry_tag l) = hash_to_tag (hash_path trie p)" using G(1) by (auto simp: graft_ok_def p_def)
    then show ?thesis unfolding col(2) by (metis ucast_ucast_u8)
  qed
  have k: "1003 + n + 10 < 2 ^ 23" using P(6) len by simp
  have bl: "length (f_path f) = length qs" "qs \<noteq> []" using path by (simp_all add: path_on_def)
  obtain c1 t1 loc2 t2 c3 t3 f4 t4 c5 t5 where S: "mark_entry_dirty t (predecessor loc) = Some (c1, t1)"
    "linklist_insert t1 (loc\<lparr>predecessor := c1\<rparr>) (cell t1 pos) (hash_to_bucket (hash_path trie p)) = Some (loc2, t2)"
    "mark_bitmap_child t2 (pe_entry (f_path f ! n)) s (hash_path trie p) (entry_color (cell t2 pos)) = Some (c3, t3)"
    "propagate_max_leaf t3 (reread_path_end (set_path_copy f n c3)) 0 = Some (f4, t4)"
    "mark_entry_clean t4 (predecessor loc2) = Some (c5, t5)" "locks_ok {} (t5, mgr)" "frame t5 = frame t"
    "view t5 (propagate_shape qs n (relink (pred_ref T p) ?K (?X(qs ! n \<mapsto> erase_side (marked_bitmap ?b s ?K)))))
      (relink_min (pred_ref T p) ?K (cell trie (trie_min_leaf trie)))"
    and Sv: "mark_entry_dirty_vectorized t (predecessor loc) = Some (c1, t1)"
    "linklist_insert_vectorized t1 (loc\<lparr>predecessor := c1\<rparr>) (cell t1 pos) (hash_to_bucket (hash_path trie p)) = Some (loc2, t2)"
    "mark_bitmap_child_vectorized t2 (pe_entry (f_path f ! n)) s (hash_path trie p) (entry_color (cell t2 pos)) = Some (c3, t3)"
    "propagate_max_leaf_vectorized t3 (reread_path_end (set_path_copy f n c3)) 0 = Some (f4, t4)"
    "mark_entry_clean_vectorized t4 (predecessor loc2) = Some (c5, t5)"
    using publish_leaf [OF v lok pred bl P(5) refs [unfolded n_def] bw(2) [unfolded n_def] s(1) sit tag rp rq [unfolded n_def] ne [unfolded n_def] k [unfolded n_def]]
    unfolding n_def by blast
  let ?e = "marked_bitmap e s ?K"
  let ?U = "grafted T (last qs) s ?e l"
  note wf = node_okD(1) [OF shape_node [OF sh e(1)]]
  note mb = marked_bitmap_fields [OF wf s(1)]
  have "?X(qs ! n \<mapsto> erase_side (marked_bitmap ?b s ?K)) = ?U"
    using ne [of n] marked_bitmap_fields(10) [OF bw(1) s(1)] Tb unfolding P(3) by (simp add: grafted_def p_def fun_upd_twist)
  moreover have UL: "leaves ?U = insert p (leaves T)" using graft_shape(2) [OF ok G(1)] by (simp add: grafted_def p_def)
  moreover have K: "loc_of trie ?U p = ?K" by (simp add: loc_of_def grafted_def p_def [symmetric] col(1))
  ultimately have view: "view t5 (propagate_shape qs n (link_leaf ?U p (loc_of trie ?U p))) (relink_min (pred_ref T p) ?K (cell trie (trie_min_leaf trie)))"
    using S(8) before_grafted [OF UL] by (simp add: relink_def link_leaf_def pred_ref_def split: if_splits)
  have f5: "frame t5 = frame trie" using S(7) f by simp
  have loc: "e_locator ?e = (if ucast (max_child e) < s then loc_of trie ?U (last qs @ [s]) else e_locator e)"
    using mb(8) K by (simp add: p_def)
  have "\<not> entry_dirty ?e" using mb(6) listedD(4) [OF ls e(1)] by simp
  moreover have "links_first trie T {x \<in> leaves T. \<not> x < last qs @ [s]} (e_locator l)" using own by (simp add: p_def l(1))
  moreover have "cell t5 (trie_min_leaf t5) = (let m = cell trie (trie_min_leaf trie) in
      if before T (last qs @ [s]) = {} then m\<lparr>e_locator := loc_of trie ?U (last qs @ [s])\<rparr> else m)"
    using viewD(4) [OF view] K by (simp add: relink_min_def pred_ref_def p_def Let_def)
  ultimately have V: "shape_ok heap trie (propagate_shape qs n (link_leaf ?U p (loc_of trie ?U p)))"
    "listed t5 (propagate_shape qs n (link_leaf ?U p (loc_of trie ?U p)))"
    "leaves (propagate_shape qs n (link_leaf ?U p (loc_of trie ?U p))) = insert p (leaves T)"
    "kv_at (propagate_shape qs n (link_leaf ?U p (loc_of trie ?U p))) p = entry_kv l"
    "\<And>x. x \<in> leaves T \<Longrightarrow> kv_at (propagate_shape qs n (link_leaf ?U p (loc_of trie ?U p))) x = kv_at T x"
    using grafted_leaf [OF sh ls G(1) e(1) mb(7) loc _ G(2) _ P(1-3) f5] unfolding p_def by blast+
  have "trie_shape heap t5 (propagate_shape qs n (link_leaf ?U p (loc_of trie ?U p)))"
    by (rule trie_shape_rooted [OF viewD(1) [OF view] V(1) f5])
  then have "ordered_trie heap t5 (propagate_shape qs n (link_leaf ?U p (loc_of trie ?U p)))" using V(2) by (simp add: ordered_trie_def)
  then show ?thesis using S(1-6) Sv f5 V(3-5) G(3) by blast
qed

theorem create_leaf_in_bitmap_alone:
  assumes o: "ordered_trie heap trie T" and lok: "locks_ok {} (trie, mgr)" and fp: "finger_path trie T f qs"
    and h: "f_prefix_hash f = hash_path trie (last qs)" and len: "length (last qs) \<le> 411"
    and e: "T (last qs) = Some e" "entry_type e = TYPE_BITMAP" and s: "s \<le> 32" "s \<notin> children e"
  defines "p \<equiv> last qs @ [s]"
  assumes kv: "canonical_address kv" "wf_kv (heap kv)" "prefix p (key_symbols (key_of heap kv))"
  shows "\<exists>st f' trie'. create_leaf_in_bitmap (trie, mgr) f kv s = Some (st, f', trie', []) \<and>
    (\<forall>avx. create_leaf_in_bitmap_vectorized avx (trie, mgr) f kv s = Some (st, f', trie', [])) \<and> inserted heap trie T p kv st trie'"
proof -
  let ?q = "last qs" and ?n = "last_path_entry f" and ?loc = "prefetch_bitmap_child_predecessor trie f (unat s)"
  let ?m = "cell trie (trie_min_leaf trie)"
  note sh = ordered_trieD(1) [OF o] and ls = ordered_trieD(2) [OF o]
  note ok = trie_shapeD(4) [OF sh]
  have tok: "table_ok trie" by (rule table_invD(1) [OF trie_shapeD(1) [OF sh]])
  have path: "path_on trie T (f_path f) qs" and ce: "containing_entry f = pe_entry (last (f_path f))" using fp by (simp_all add: finger_path_def)
  note P = path_depth [OF ok path refl]
  have bm: "entry_type (the (T ?q)) = TYPE_BITMAP" using e by simp
  obtain t1 m1 t2 m2 t3 t4 m4 c where L: "upgrade_lock (trie, mgr) (containing_entry f) = (SI_OK, t1, m1)"
    "upgrade_locks_on_left_parents_above (t1, m1) f ?n = (SI_OK, t2, m2)"
    "lock_predecessor (t2, m2) f ?loc = Some (SI_OK, ?loc\<lparr>predecessor := c\<rparr>, t4, m4)"
    "locks_ok {} (t4, m4)" "unlocked t4 = unlocked trie" "unlocked t3 = unlocked trie" "pred_copy t3 T (?q @ [s]) c"
    "lock_predecessor_vectorized (t2, m2) f ?loc = Some (SI_OK, ?loc\<lparr>predecessor := c\<rparr>, t4, m4)"
    by (rule bitmap_locks [OF o lok fp bm s(1)]) (rule that)
  note v4 = view_unlocked [OF sh L(5)] and v3 = view_unlocked [OF sh L(6)]
  note o3 = ordered_unlocked(1,2) [OF L(6) sh ls]
  have nodes: "copy_at trie T (qs ! j) (pe_entry (f_path f ! j))" if "j \<le> ?n" for j
    using path le_less_trans [OF that P(4)] unfolding path_on_def by blast
  have refs4: "ref_on t4 T (Some (qs ! j)) 0 (pe_entry (f_path f ! j))" if "j \<le> ?n" for j
    by (rule ref_on_copy [OF nodes [OF that] tok L(5)])
  have pred4: "ref_on t4 T (pred_ref T p) 0 c"
    by (rule ref_on_pred [OF L(7) [folded p_def] table_invD(1) [OF trie_shapeD(1) [OF o3(1)]] trans [OF L(5) L(6) [symmetric]]])
  note F = frame_fields [OF v4(2)] and fresh = place_fresh [OF ok path refl e s(2), folded p_def]
  have ce': "containing_entry f = pe_entry (f_path f ! ?n)"
  proof -
    have "f_path f \<noteq> []" using path by (auto simp: path_on_def)
    then show ?thesis using ce by (simp add: last_conv_nth)
  qed
  have val: "erase_side (lc_value (containing_entry f)) = e"
    using copy_at_node [OF nodes [OF order.refl], unfolded P(3), OF e(1)] ce' by simp
  let ?ch = "new_child (entry_color e) s kv" and ?h = "hash_path trie p"
  note ch = new_child_fields [where color = "entry_color e" and s = s and kv = kv]
  have p32: "\<forall>x\<in>set p. x \<le> 32" "p \<noteq> []" using node_okD(4) [OF shape_node [OF sh e(1)]] s(1) by (auto simp: p_def)
  have leaf: "entry_type ?ch \<noteq> TYPE_UNUSED" using ch(3) by simp
  from add_node [OF v4(1) L(4) fresh(1) p32(2,1) ch(1,2) leaf, of "Some (last_pos (containing_entry f))" True] obtain st out e1 t5 m5 where
    A: "add_entry (t4, m4) (hash_path t4 p) ?ch (Some (last_pos (containing_entry f))) True = Some (st, out, e1, t5, m5)"
      "locks_ok {} (t5, m5)" "wrote {..<unat (num_buckets t4)} 1003 t4 t5"
    and R: "if st = SI_OK
      then \<exists>pos c. out = Some pos \<and> pos \<in> table_cells t5 \<and> cell t5 pos = e1 \<and> c < 9 \<and>
        home t5 (fst pos) e1 = hash_to_bucket (hash_path t4 p) \<and> entry_type e1 \<noteq> TYPE_UNUSED \<and>
        erase_side e1 = ?ch\<lparr>color_and_tag := ucast (hash_to_tag (hash_path t4 p)) OR push_bit 4 c\<rparr> \<and>
        entry_tag e1 = ucast (hash_to_tag (hash_path t4 p)) \<and> view t5 (T(p \<mapsto> erase_side e1)) ?m
      else st \<in> {SI_RETRY, SI_FAIL} \<and> out = None \<and> view t5 T ?m" by blast
  have tok4: "table_ok t4" by (rule viewD(3) [OF v4(1)])
  have vh4: "valid_hash t4 (hash_path t4 p)" using hash_path_valid [OF _ p32(1)] table_okD(2) [OF tok4] by auto
  have vb: "valid_bucket trie (hash_to_bucket (hash_path t4 p))"
    using hash_split_valid(1) [OF _ vh4] table_okD(2) [OF tok4] F(1) by (auto simp: valid_bucket_def)
  note room = add_entry_alone [OF tok4 L(4) vh4 ch(1,2) leaf A(1), unfolded has_room_unlocked [OF L(5) tok vb], unfolded F(5)]
  have child: "create_bitmap_child (t4, m4) f (entry_color (lc_value (containing_entry f))) s kv = Some (st, out, e1, t5, m5)"
    using A(1) erased_node(3) [OF val] F(3,5) by (simp add: create_bitmap_child_eq h p_def hash_path_snoc)
  have child_v: "create_bitmap_child_vectorized avx (t4, m4) f (entry_color (lc_value (containing_entry f))) s kv = Some (st, out, e1, t5, m5)" for avx
    using A(1) erased_node(3) [OF val] F(3,5) add_entry_vectorized_eq [OF tok4 L(4) vh4, of avx]
    by (simp add: create_bitmap_child_vectorized_eq h p_def hash_path_snoc)
  have f5: "frame t5 = frame trie" using wrote_frame [OF A(3)] v4(2) by simp
  have hash: "accumulate_hash trie (f_prefix_hash f) s = ?h" by (simp add: h p_def hash_path_snoc)
  show ?thesis
  proof (cases "st = SI_OK")
    case False
    then have r: "st = SI_RETRY \<or> st = SI_FAIL" "view t5 T ?m" using R by auto
    obtain t' where t': "release_all_locks (t5, m5) = (t', [])" "ordered_trie heap t' T" "locks_ok {} (t', [])" "frame t' = frame t5"
      "unlocked t' = unlocked t5"
      by (rule ordered_released [OF ordered_view [OF o r(2) f5] A(2)])
    have "create_leaf_in_bitmap (trie, mgr) f kv s = Some (st, f, release_all_locks (t5, m5))"
      using L(1-3) child r(1) by (auto simp: create_leaf_in_bitmap_def create_leaf_failed_def)
    moreover have "create_leaf_in_bitmap_vectorized avx (trie, mgr) f kv s = Some (st, f, release_all_locks (t5, m5))" for avx
      using L(1,2,8) child_v r(1) by (auto simp: create_leaf_in_bitmap_vectorized_def create_leaf_failed_def)
    moreover have "has_room t' (hash_to_bucket ?h) = has_room t5 (hash_to_bucket ?h)"
      using has_room_unlocked [OF t'(5) viewD(3) [OF r(2)]] vb frame_fields(1,5) [OF f5] F(5) by (simp add: valid_bucket_def)
    ultimately show ?thesis using t' f5 r(1) False room by (auto simp: inserted_def)
  next
    case True
    from R [unfolded if_P [OF True]] obtain pos c9 where N: "out = Some pos" "pos \<in> table_cells t5" "cell t5 pos = e1" "c9 < 9"
      "home t5 (fst pos) e1 = hash_to_bucket (hash_path t4 p)" "entry_type e1 \<noteq> TYPE_UNUSED"
      "erase_side e1 = ?ch\<lparr>color_and_tag := ucast (hash_to_tag (hash_path t4 p)) OR push_bit 4 c9\<rparr>"
      "view t5 (T(p \<mapsto> erase_side e1)) ?m" by blast
    let ?nxt = "next_leaf (lc_value c)"
    let ?e2 = "e1\<lparr>e_locator := ?nxt\<rparr>"
    let ?t6 = "set_cell t5 pos ?e2" and ?l = "erase_side ?e2"
    have T5: "(T(p \<mapsto> erase_side e1)) p = Some (erase_side (cell t5 pos))" using N(3) by simp
    have home5: "home t5 (fst pos) (cell t5 pos) = hash_to_bucket (hash_path t5 p)"
      using N(3,5) F(5) frame_fields(5) [OF f5] by simp
    have e2: "wf_entry ?e2" "entry_type ?e2 \<noteq> TYPE_UNUSED" "color_and_tag ?e2 = color_and_tag (cell t5 pos)"
      "entry_is_secondary ?e2 = entry_is_secondary (cell t5 pos)"
      using wf_cell(1) [OF table_okD(1) [OF viewD(3) [OF N(8)]] N(2)] N(3,6) by simp_all
    note S6 = set_node [OF N(8,2) home5 T5 e2]
    have v6: "view ?t6 (T(p \<mapsto> ?l)) ?m" using S6(1) unfolding fun_upd_upd .
    have f6: "frame ?t6 = frame trie" using f5 by simp
    have moved: "ref_on ?t6 (T(p \<mapsto> ?l)) r 1003 d" if d: "ref_on t4 T r 0 d" "r \<noteq> Some p" for r d
    proof -
      have "ref_on t5 (T(p \<mapsto> erase_side e1)) r (0 + 1003) d"
        by (rule ref_on_wrote [OF d(1) A(3) _ _ viewD(3) [OF v4(1)]]) (use d(2) in auto)
      then have "ref_on t5 (T(p \<mapsto> erase_side e1)) r 1003 d" by simp
      from S6(3) [OF this d(2)] show ?thesis unfolding fun_upd_upd .
    qed
    have lok6: "locks_ok {} (?t6, m5)" using A(2) by (simp add: locks_ok_def table_simps)
    have c6: "cell ?t6 pos = ?e2" using S6(2) by simp
    note F6 = frame_fields [OF f6] and F5 = frame_fields [OF f5]
    have "home t b ?e2 = home t b e1" for t b by (simp add: home_def)
    then have sit: "sits ?t6 (T(p \<mapsto> ?l)) p pos"
      using N(2,5) c6 F F5 F6 by (simp add: sits_def)
    have l: "?l = ?ch\<lparr>color_and_tag := ucast (hash_to_tag ?h) OR push_bit 4 c9, e_locator := ?nxt\<rparr>"
      using N(7) F(5) by simp
    note pc = pred_copy_link [OF o3 L(7), folded p_def]
    have "loc_of t3 T x = loc_of trie T x" for x by (rule loc_of_cong [OF v3(2) refl])
    then have own: "links_first trie T {x \<in> leaves T. \<not> x < p} ?nxt" using pc(1) by (simp add: links_first_def)
    let ?loc' = "?loc\<lparr>predecessor := c\<rparr>"
    have cw: "wf_entry (lc_value c)"
    proof (cases "pred_ref T p")
      case None
      then show ?thesis using pred4 min_leaf_ptr(2) [OF viewD(3) [OF v4(1)]] by (simp add: ref_on_def)
    next
      case (Some a)
      then show ?thesis using ref_value(2) [OF v4(1)] pred4 by simp
    qed
    have refs6: "ref_on ?t6 (T(p \<mapsto> ?l)) (Some (qs ! j)) 1003 (pe_entry (f_path f ! j))" if "j \<le> ?n" for j
      by (rule moved [OF refs4 [OF that]]) (use fresh(2) [OF that] in simp)
    have pred6: "ref_on ?t6 (T(p \<mapsto> ?l)) (pred_ref T p) 1003 (predecessor ?loc')" using moved [OF pred4 fresh(3)] by simp
    have pl: "wf_entry (lc_value (predecessor ?loc'))" "entry_type (lc_value (predecessor ?loc')) = TYPE_LEAF"
      "\<not> entry_dirty (lc_value (predecessor ?loc'))" using cw pc(2,3) by simp_all
    obtain c1 u1 loc2 u2 c3 u3 f4 u4 c5 u5 V where S: "mark_entry_dirty ?t6 (predecessor ?loc') = Some (c1, u1)"
      "linklist_insert u1 (?loc'\<lparr>predecessor := c1\<rparr>) (cell u1 pos) (hash_to_bucket ?h) = Some (loc2, u2)"
      "mark_bitmap_child u2 (pe_entry (f_path f ! ?n)) s ?h (entry_color (cell u2 pos)) = Some (c3, u3)"
      "propagate_max_leaf u3 (reread_path_end (set_path_copy f ?n c3)) 0 = Some (f4, u4)"
      "mark_entry_clean u4 (predecessor loc2) = Some (c5, u5)" "locks_ok {} (u5, m5)" "frame u5 = frame trie"
      "ordered_trie heap u5 V" "leaves V = insert p (leaves T)" "kv_at V p = kv" "\<forall>x\<in>leaves T. kv_at V x = kv_at T x"
      and Sv: "mark_entry_dirty_vectorized ?t6 (predecessor ?loc') = Some (c1, u1)"
      "linklist_insert_vectorized u1 (?loc'\<lparr>predecessor := c1\<rparr>) (cell u1 pos) (hash_to_bucket ?h) = Some (loc2, u2)"
      "mark_bitmap_child_vectorized u2 (pe_entry (f_path f ! ?n)) s ?h (entry_color (cell u2 pos)) = Some (c3, u3)"
      "propagate_max_leaf_vectorized u3 (reread_path_end (set_path_copy f ?n c3)) 0 = Some (f4, u4)"
      "mark_entry_clean_vectorized u4 (predecessor loc2) = Some (c5, u5)"
      using published_leaf [OF o lok6 path len e s kv(1,2) kv(3) [unfolded p_def] l [unfolded p_def] N(4) own [unfolded p_def]
        v6 [unfolded p_def] f6 sit [unfolded p_def] refs6 [unfolded p_def] pred6 [unfolded p_def] pl] unfolding p_def by blast
    obtain t' where t': "release_all_locks (u5, m5) = (t', [])" "ordered_trie heap t' V" "locks_ok {} (t', [])" "frame t' = frame u5"
      by (rule ordered_released [OF S(8,6)])
    have "create_leaf_in_bitmap (trie, mgr) f kv s = Some (SI_OK, f4, release_all_locks (u5, m5))"
      using L(1-3) child True N(1,3) S(1-5) hash by (simp add: create_leaf_in_bitmap_def)
    moreover have "create_leaf_in_bitmap_vectorized avx (trie, mgr) f kv s = Some (SI_OK, f4, release_all_locks (u5, m5))" for avx
      using L(1,2,8) child_v True N(1,3) Sv hash by (simp add: create_leaf_in_bitmap_vectorized_def)
    ultimately show ?thesis using t' S(7,9-11) True by (auto simp: inserted_def)
  qed
qed

end
