(* ===== verification/InsertBelow.thy ===== *)
theory InsertBelow
  imports CreateInBitmap Update
begin

text \<open>
  The insertion of a new key whose walk ends at a bitmap, by a thread that is alone: the walk
  of the key, at most two attempts, and the trie as a map afterwards.
\<close>

subsection \<open>The walk\<close>

text \<open>The walk of the key ends at the bitmap, at the symbol for which the bitmap has no child.\<close>

lemma walk_at_bitmap:
  assumes ok: "shape_ok heap trie T" and on: "finger_on trie T ks f q d" and st: "stopped_at T ks symbol q d"
    and b: "T b = Some e" "entry_type e = TYPE_BITMAP" "s \<notin> children e" "prefix (b @ [s]) ks"
  shows "q = b \<and> d = 0 \<and> symbol = uint s"
proof -
  obtain c where c: "T q = Some c" using finger_on_prefix(2) [OF on] by blast
  have pq: "prefix q ks" by (rule finger_on_prefix(1) [OF on])
  have pb: "prefix b ks" using b(4) by (rule append_prefixD)
  obtain z where z: "ks = b @ s # z" using b(4) by (auto simp: prefix_def)
  have not_below: "\<not> strict_prefix b q"
  proof
    assume "strict_prefix b q"
    then obtain r where r: "child_of T b r" "prefix r q" using child_towards [OF ok] b(1) c by blast
    then obtain u where u: "r = b @ [u]" "u \<in> children e" using b(1,2) by (auto simp: child_of_def)
    have "prefix r ks" using r(2) pq by (rule prefix_order.trans)
    then show False using u z b(3) by auto
  qed
  have "\<not> strict_prefix q b" using walk_not_above [OF ok on st _ pb] b(1) by blast
  have q: "q = b" using prefix_same_cases [OF pq pb] not_below \<open>\<not> strict_prefix q b\<close> by (auto simp: strict_prefix_def)
  have d: "d = 0" using on b(1,2) unfolding q by (simp add: finger_on_def)
  have "symbol \<noteq> - 1" using st b(1,2) unfolding q by (auto simp: stopped_at_def leaves_def)
  then have "symbol = uint (ks ! length b)" using st unfolding q d by (simp add: stopped_at_def)
  then show ?thesis using q d z by simp
qed

subsection \<open>An attempt\<close>

text \<open>The place of a new key: below the bitmap at \<open>q\<close>, which has no child for the symbol \<open>s\<close>.\<close>

definition below_bitmap :: "kv_heap \<Rightarrow> shape \<Rightarrow> u64 list \<Rightarrow> u64 \<Rightarrow> u64 \<Rightarrow> bool" where
  "below_bitmap heap T q s kv \<longleftrightarrow>
     (case T q of None \<Rightarrow> False | Some e \<Rightarrow> entry_type e = TYPE_BITMAP \<and> s \<notin> children e) \<and>
     prefix (q @ [s]) (key_symbols (key_of heap kv))"

lemma key_place_bounds:
  assumes "prefix (q @ [s]) (key_symbols key)" and "length key \<le> MAX_KEY_BYTES"
  shows "s \<le> 32" and "length q \<le> 411"
proof -
  note b = num_key_symbols_bounds [OF assms(2)]
  have len: "length (key_symbols key) = num_key_symbols (length key)" by simp
  obtain z where z: "key_symbols key = q @ s # z" using assms(1) by (auto simp: prefix_def)
  then have q: "length q < num_key_symbols (length key)" unfolding len [symmetric] z by simp
  then show "length q \<le> 411" using b by simp
  have "key_symbols key ! length q = s" unfolding z by simp
  then show "s \<le> 32" using key_symbols_le q by metis
qed

theorem insert_attempt_below:
  assumes o: "ordered_trie heap trie T" and lok: "locks_ok {} (trie, [])" and kv: "storable heap kv"
    and b: "below_bitmap heap T q s kv"
  shows "\<exists>st trie'. (\<forall>up. ct_insert_internal heap trie kv up = Some (st, trie', [])) \<and>
    (\<forall>avx up. ct_insert_internal_vectorized avx heap trie kv up = Some (st, trie', [])) \<and> inserted heap trie T (q @ [s]) kv st trie'"
proof -
  note sh = ordered_trieD(1) [OF o]
  note k = kv [unfolded storable_def]
  obtain e where e: "T q = Some e" "entry_type e = TYPE_BITMAP" "s \<notin> children e" "prefix (q @ [s]) (key_symbols (key_of heap kv))"
    using b by (auto simp: below_bitmap_def split: option.splits)
  have key: "length (key_of heap kv) \<le> MAX_KEY_BYTES" using kv_key_length k by metis
  note bounds = key_place_bounds [OF e(4) key]
  obtain r f symbol f' q' d qs where w: "init_finger trie = Some (Some r, f)"
    "descend trie f (unat (kv_key_size (heap kv))) (kv_bytes (heap kv)) True = Some (symbol, f')"
    "finger_on trie T (key_symbols (key_of heap kv)) f' q' d" "stopped_at T (key_symbols (key_of heap kv)) symbol q' d"
    "finger_path trie T f' qs" "last qs = q'"
    using kv_walk [where kv = "heap kv" and track = True, OF sh] k by blast
  have "q' = q \<and> d = 0 \<and> symbol = uint s" by (rule walk_at_bitmap [OF trie_shapeD(4) [OF sh] w(3,4) e])
  then have q: "q' = q" "symbol = uint s" "last qs = q" and on: "finger_on trie T (key_symbols (key_of heap kv)) f' q 0" using w(3,6) by simp_all
  have "take (length q) (key_symbols (key_of heap kv)) = q" using on by (simp add: finger_on_def)
  then have h: "f_prefix_hash f' = hash_path trie (last qs)" using on q(3) by (simp add: finger_on_def)
  have "copy_at trie T q (containing_entry f')" using on by (simp add: finger_on_def)
  from erased_node(1) [OF copy_at_node [OF this e(1)]] have bm: "entry_type (lc_value (containing_entry f')) = TYPE_BITMAP" using e(2) by simp
  obtain st f2 trie' where c: "create_leaf_in_bitmap (trie, []) f' kv s = Some (st, f2, trie', [])" "inserted heap trie T (q @ [s]) kv st trie'"
    and cv: "\<And>avx. create_leaf_in_bitmap_vectorized avx (trie, []) f' kv s = Some (st, f2, trie', [])"
    using create_leaf_in_bitmap_alone [where heap = heap and kv = kv and s = s, OF o lok w(5) h] bounds e k unfolding q(3) by blast
  have "create_leaf heap (trie, []) f' kv (of_int symbol) = Some (st, f2, trie', [])" using bm c(1) q(2) by (simp add: create_leaf_def)
  moreover have not_there: "st \<noteq> SI_EXISTS" using c(2) by (auto simp: inserted_def split: if_splits)
  ultimately have "ct_insert_internal heap trie kv up = Some (st, trie', [])" for up
    using w(1,2) by (simp add: ct_insert_internal_def init_lock_mgr_def)
  moreover have "ct_insert_internal_vectorized avx heap trie kv up = Some (st, trie', [])" for avx up
  proof -
    have wfk: "wf_kv (heap kv)" using k by blast
    have "descend_vectorized trie f (unat (kv_key_size (heap kv))) (kv_bytes (heap kv)) True = Some (symbol, f')"
      using descend_vectorized_eq [OF sh key kv_key_bytes(2) [OF wfk] w(1), of True] w(2) kv_key_bytes(1) [OF wfk] by simp
    moreover have "create_leaf_vectorized avx heap (trie, []) f' kv (of_int symbol) = Some (st, f2, trie', [])"
      using bm cv q(2) by (simp add: create_leaf_vectorized_def)
    ultimately show ?thesis using w(1) not_there by (simp add: ct_insert_internal_vectorized_def init_lock_mgr_def)
  qed
  ultimately show ?thesis using c(2) by blast
qed

subsection \<open>The whole call\<close>

text \<open>
  The loop around the attempts ends after at most \<open>n\<close> of them: one of the first \<open>n\<close>, each on the
  trie that the one before it has left, returns with a status other than \<open>SI_RETRY\<close>.
\<close>

primrec ends_within :: "nat \<Rightarrow> (cuckoo_trie \<Rightarrow> (status \<times> lock_state) option) \<Rightarrow> cuckoo_trie \<Rightarrow> bool" where
  "ends_within 0 attempt trie = False"
| "ends_within (Suc n) attempt trie =
     (case attempt trie of None \<Rightarrow> False
      | Some (ret, trie', mgr) \<Rightarrow> ret \<noteq> SI_RETRY \<or> ends_within n attempt trie')"

text \<open>A failed first attempt leaves room for the second one.\<close>

theorem insert_below_attempts:
  assumes o: "ordered_trie heap trie T" and lok: "locks_ok {} (trie, [])" and kv: "storable heap kv"
    and b: "below_bitmap heap T q s kv"
  shows "ends_within 2 (\<lambda>t. ct_insert_internal heap t kv up) trie"
    and "ends_within 2 (\<lambda>t. ct_insert_internal_vectorized avx heap t kv up) trie"
proof -
  obtain st t where a: "ct_insert_internal heap trie kv up = Some (st, t, [])" "inserted heap trie T (q @ [s]) kv st t"
    and av: "ct_insert_internal_vectorized avx heap trie kv up = Some (st, t, [])"
    using insert_attempt_below [OF assms] by blast
  have "ends_within 2 (\<lambda>t. ct_insert_internal heap t kv up) trie \<and>
    ends_within 2 (\<lambda>t. ct_insert_internal_vectorized avx heap t kv up) trie"
  proof (cases "st = SI_RETRY")
    case True
    then have t: "ordered_trie heap t T" "locks_ok {} (t, [])" "frame t = frame trie" "has_room t (hash_to_bucket (hash_path trie (q @ [s])))"
      using a(2) by (auto simp: inserted_def)
    obtain st2 t2 where a2: "ct_insert_internal heap t kv up = Some (st2, t2, [])" "inserted heap t T (q @ [s]) kv st2 t2"
      and av2: "ct_insert_internal_vectorized avx heap t kv up = Some (st2, t2, [])"
      using insert_attempt_below [OF t(1,2) kv b] by blast
    have "st2 = SI_OK" using a2(2) t(4) frame_fields(5) [OF t(3)] by (simp add: inserted_def)
    then show ?thesis using a(1) av a2(1) av2 by (simp add: numeral_2_eq_2)
  qed (use a(1) av in \<open>simp add: numeral_2_eq_2\<close>)
  then show "ends_within 2 (\<lambda>t. ct_insert_internal heap t kv up) trie"
    and "ends_within 2 (\<lambda>t. ct_insert_internal_vectorized avx heap t kv up) trie" by blast+
qed

theorem insert_below:
  assumes o: "ordered_trie heap trie T" and lok: "locks_ok {} (trie, [])" and kv: "storable heap kv"
    and b: "below_bitmap heap T q s kv"
  shows "\<exists>st trie'. (\<forall>up. insert_attempts heap (\<lambda>n t. t) 0 trie kv up = Some (st, trie')) \<and>
    (\<forall>avx up. insert_attempts_vectorized avx heap (\<lambda>n t. t) 0 trie kv up = Some (st, trie')) \<and> locks_ok {} (trie', []) \<and>
    (if st = SI_OK
     then \<exists>V. ordered_trie heap trie' V \<and> leaves V = insert (q @ [s]) (leaves T) \<and> kv_at V (q @ [s]) = kv \<and>
       (\<forall>x\<in>leaves T. kv_at V x = kv_at T x)
     else st = SI_FAIL \<and> ordered_trie heap trie' T \<and> \<not> has_room trie (hash_to_bucket (hash_path trie (q @ [s]))))"
proof -
  obtain st t where av: "\<And>avx up. ct_insert_internal_vectorized avx heap trie kv up = Some (st, t, [])"
    and a: "\<And>up. ct_insert_internal heap trie kv up = Some (st, t, [])" "inserted heap trie T (q @ [s]) kv st t"
    using insert_attempt_below [OF assms] by blast
  show ?thesis
  proof (cases "st = SI_RETRY")
    case False
    then have "insert_attempts heap (\<lambda>n t. t) 0 trie kv up = Some (st, t)" for up using a(1) by (simp add: insert_attempts.simps)
    moreover have "insert_attempts_vectorized avx heap (\<lambda>n t. t) 0 trie kv up = Some (st, t)" for avx up
      using av False by (simp add: insert_attempts_vectorized.simps)
    ultimately show ?thesis using a(2) False by (auto simp: inserted_def split: if_splits)
  next
    case True
    then have t: "ordered_trie heap t T" "locks_ok {} (t, [])" "frame t = frame trie" "has_room t (hash_to_bucket (hash_path trie (q @ [s])))"
      "\<not> has_room trie (hash_to_bucket (hash_path trie (q @ [s])))"
      using a(2) by (auto simp: inserted_def)
    obtain st2 t2 where av2: "\<And>avx up. ct_insert_internal_vectorized avx heap t kv up = Some (st2, t2, [])" and a2: "\<And>up. ct_insert_internal heap t kv up = Some (st2, t2, [])" "inserted heap t T (q @ [s]) kv st2 t2"
      using insert_attempt_below [OF t(1,2) kv b] by blast
    have st2: "st2 = SI_OK" using a2(2) t(4) frame_fields(5) [OF t(3)] by (simp add: inserted_def)
    then have "insert_attempts heap (\<lambda>n t. t) 1 t kv up = Some (SI_OK, t2)" for up using a2(1) by (simp add: insert_attempts.simps)
    then have "insert_attempts heap (\<lambda>n t. t) 0 trie kv up = Some (SI_OK, t2)" for up
      using a(1) True by (subst insert_attempts.simps) simp
    moreover have "insert_attempts_vectorized avx heap (\<lambda>n t. t) 1 t kv up = Some (SI_OK, t2)" for avx up
      using av2 st2 by (simp add: insert_attempts_vectorized.simps)
    then have "insert_attempts_vectorized avx heap (\<lambda>n t. t) 0 trie kv up = Some (SI_OK, t2)" for avx up
      using av True by (subst insert_attempts_vectorized.simps) simp
    ultimately show ?thesis using a2(2) st2 by (auto simp: inserted_def)
  qed
qed

subsection \<open>The map\<close>

lemma kvs_of_added:
  assumes "leaves V = insert p (leaves T)" and "kv_at V p = kv" and "\<forall>x\<in>leaves T. kv_at V x = kv_at T x"
  shows "kvs_of V = insert kv (kvs_of T)"
  using assms by (auto simp: kvs_of_def)

lemma abs_map_added:
  assumes new: "absent heap K (key_of heap kv)"
  shows "abs_map heap (insert kv K) = (abs_map heap K)(key_of heap kv := kv)"
proof
  fix k
  have "{a \<in> insert kv K. key_of heap a = key_of heap kv} = {kv}" using new by (auto simp: absent_def)
  moreover have "{a \<in> insert kv K. key_of heap a = k} = {a \<in> K. key_of heap a = k}" if "k \<noteq> key_of heap kv" using that by auto
  ultimately show "abs_map heap (insert kv K) k = ((abs_map heap K)(key_of heap kv := kv)) k"
    by (auto simp: abs_map_def absent_def)
qed

lemma below_bitmap_absent:
  assumes sh: "trie_shape heap trie T" and b: "below_bitmap heap T q s kv"
  shows "absent heap (kvs_of T) (key_of heap kv)"
proof -
  note ok = trie_shapeD(4) [OF sh]
  obtain e where e: "T q = Some e" "entry_type e = TYPE_BITMAP" "s \<notin> children e" "prefix (q @ [s]) (key_symbols (key_of heap kv))"
    using b by (auto simp: below_bitmap_def split: option.splits)
  have "key_of heap (kv_at T p) \<noteq> key_of heap kv" if p: "p \<in> leaves T" for p
  proof
    assume eq: "key_of heap (kv_at T p) = key_of heap kv"
    obtain c where c: "T p = Some c" "entry_type c = TYPE_LEAF" using p by (auto simp: leaves_def)
    then have "leaf_ok heap p c" using node_okD(5) [OF shape_node [OF sh]] by blast
    then have pp: "prefix p (key_symbols (key_of heap kv))" using eq c(1) by (simp add: leaf_ok_def kv_at_def)
    have qq: "prefix q (key_symbols (key_of heap kv))" using e(4) by (rule append_prefixD)
    have "p \<noteq> q" using p e(1,2) by (auto simp: leaves_def)
    moreover have "\<not> strict_prefix p q" using leaf_no_child [OF ok p] e(1) by (auto simp: strict_prefix_def)
    ultimately have "strict_prefix q p" using prefix_same_cases [OF pp qq] by (auto simp: strict_prefix_def)
    then obtain r where r: "child_of T q r" "prefix r p" using child_towards [OF ok _ leaves_dom [OF p]] e(1) by blast
    then obtain u where "r = q @ [u]" "u \<in> children e" using e(1,2) by (auto simp: child_of_def)
    moreover have "prefix r (key_symbols (key_of heap kv))" using r(2) pp by (rule prefix_order.trans)
    ultimately show False using e(3,4) by (auto simp: prefix_def)
  qed
  then show ?thesis by (auto simp: absent_def kvs_of_def)
qed

theorem insert_vectorized_below:
  assumes o: "ordered_trie heap trie T" and lok: "locks_ok {} (trie, [])" and kv: "storable heap kv"
    and b: "below_bitmap heap T q s kv"
  shows "ct_insert_vectorized avx heap (\<lambda>n t. t) trie kv = ct_insert heap (\<lambda>n t. t) trie kv"
    and "ct_upsert_vectorized avx heap (\<lambda>n t. t) trie kv = ct_upsert heap (\<lambda>n t. t) trie kv"
  using insert_below [OF assms]
  by (auto simp: ct_insert_vectorized_def ct_insert_def ct_upsert_vectorized_def ct_upsert_def)

theorem ct_insert_below:
  assumes o: "ordered_trie heap trie T" and lok: "locks_ok {} (trie, [])" and null: "NULL \<notin> kvs_of T" and kv: "storable heap kv"
    and b: "below_bitmap heap T q s kv"
  defines "m \<equiv> abs_map heap (kvs_of T)"
  shows "\<exists>r trie'. ct_insert heap (\<lambda>n t. t) trie kv = Some (r, trie') \<and>
      ct_upsert heap (\<lambda>n t. t) trie kv = Some (r, if r = S_OK then Some True else None, trie') \<and>
      (if r = S_OK then trie_map heap trie' (m(key_of heap kv := kv))
       else r = S_OVERFLOW \<and> trie_map heap trie' m \<and> \<not> has_room trie (hash_to_bucket (hash_path trie (q @ [s]))))"
proof -
  note k = kv [unfolded storable_def]
  obtain st t where a: "\<And>up. insert_attempts heap (\<lambda>n t. t) 0 trie kv up = Some (st, t)" "locks_ok {} (t, [])"
    and r: "if st = SI_OK
     then \<exists>V. ordered_trie heap t V \<and> leaves V = insert (q @ [s]) (leaves T) \<and> kv_at V (q @ [s]) = kv \<and> (\<forall>x\<in>leaves T. kv_at V x = kv_at T x)
     else st = SI_FAIL \<and> ordered_trie heap t T \<and> \<not> has_room trie (hash_to_bucket (hash_path trie (q @ [s])))"
    using insert_below [OF o lok kv b] by blast
  have size: "unat (kv_key_size (heap kv)) \<le> MAX_KEY_BYTES" using unat_kv_key_size k by metis
  show ?thesis
  proof (cases "st = SI_OK")
    case True
    then obtain V where V: "ordered_trie heap t V" "leaves V = insert (q @ [s]) (leaves T)" "kv_at V (q @ [s]) = kv"
      "\<forall>x\<in>leaves T. kv_at V x = kv_at T x" using r by auto
    note kvs = kvs_of_added [OF V(2-4)]
    have "abs_map heap (kvs_of V) = m(key_of heap kv := kv)"
      unfolding kvs m_def by (rule abs_map_added [OF below_bitmap_absent [OF ordered_trieD(1) [OF o] b]])
    moreover have "NULL \<notin> kvs_of V" using null k unfolding kvs by auto
    ultimately have "trie_map heap t (m(key_of heap kv := kv))" using V(1) a(2) unfolding trie_map_def by metis
    then show ?thesis using a(1) True size by (simp add: ct_insert_def ct_upsert_def)
  next
    case False
    then have st: "st = SI_FAIL" and o': "ordered_trie heap t T" and full: "\<not> has_room trie (hash_to_bucket (hash_path trie (q @ [s])))"
      using r by auto
    have "trie_map heap t m" using o' a(2) null unfolding trie_map_def m_def by blast
    then show ?thesis using a(1) st full size by (simp add: ct_insert_def ct_upsert_def)
  qed
qed

end
