(* ===== verification/BitmapTrie.thy ===== *)
theory BitmapTrie
  imports InsertBelow
begin

text \<open>
  A trie whose root is a bitmap with one leaf, built from a trie with one key: the smallest
  trie with a place below a bitmap.
\<close>

subsection \<open>Room in a table of few entries\<close>

lemma content_size: "finite C \<Longrightarrow> size (\<Sum>p\<in>C. cell_content trie (fst p) (cell trie p)) = card {p\<in>C. entry_type (cell trie p) \<noteq> TYPE_UNUSED}"
proof (induction C rule: finite_induct)
  case (insert x C)
  have "{p\<in>insert x C. entry_type (cell trie p) \<noteq> TYPE_UNUSED} =
      (if entry_type (cell trie x) \<noteq> TYPE_UNUSED then insert x else id) {p\<in>C. entry_type (cell trie p) \<noteq> TYPE_UNUSED}" by auto
  then show ?case using insert by (simp add: cell_content_def)
qed simp

lemma few_entries_room:
  assumes ok: "table_ok trie" and b: "valid_bucket trie b" and few: "size (table_content trie) < 4"
  shows "has_room trie b"
proof (rule ccontr)
  assume "\<not> has_room trie b"
  then have used: "entry_type (cell trie (unat b, k)) \<noteq> TYPE_UNUSED" if "k < 4" for k
    using has_room_cell [OF table_okD(1) [OF ok] b] that by blast
  have fin: "finite (table_cells trie)" by (simp add: table_cells_def)
  have "Pair (unat b) ` {..<4} \<subseteq> {p\<in>table_cells trie. entry_type (cell trie p) \<noteq> TYPE_UNUSED}"
    using used b by (auto simp: table_cells_def valid_bucket_unat)
  from card_mono [OF _ this] have "card (Pair (unat b) ` {..<4 :: nat}) \<le> size (table_content trie)"
    using content_size [OF fin] fin by (simp add: table_content_def)
  moreover have "card (Pair (unat b) ` {..<4 :: nat}) = 4" by (simp add: card_image inj_on_def)
  ultimately show False using few by simp
qed

subsection \<open>The nodes\<close>

definition root_bitmap :: "u64 \<Rightarrow> ct_entry_locator \<Rightarrow> ct_entry" where
  "root_bitmap s k = marked_bitmap (zero_entry\<lparr>parent_color_and_flags := 0x92\<rparr>) s k"

lemma zero_bitmap:
  defines "z \<equiv> zero_entry\<lparr>parent_color_and_flags := 0x92\<rparr>"
  shows "wf_entry z" "entry_type z = TYPE_BITMAP" "children z = {}" "\<not> entry_is_secondary z" "\<not> entry_dirty z" "max_child z = 0"
    "entry_color z = 0" "entry_parent_color z = 9" "entry_tag z = 0" "color_and_tag z = 0" "erase_side z = z"
proof -
  show "wf_entry z" "entry_type z = TYPE_BITMAP" "\<not> entry_is_secondary z" "\<not> entry_dirty z" "max_child z = 0"
    "entry_color z = 0" "entry_parent_color z = 9" "entry_tag z = 0" "color_and_tag z = 0" "erase_side z = z"
    unfolding z_def by code_simp+
  have "child_bitmap z = [0, 0, 0, 0, 0]" unfolding z_def by code_simp
  moreover have "\<not> get_bit [0, 0, 0, 0, 0] i" if "i < 40" for i
  proof -
    have "\<forall>i\<in>set [0..<40]. \<not> get_bit [0, 0, 0, 0, 0] i" by code_simp
    then show ?thesis using that by simp
  qed
  ultimately show "children z = {}" by (auto simp: children_def word_le_nat_alt)
qed

lemma root_bitmap_fields:
  assumes "0 < s" and "s \<le> 32"
  shows "wf_entry (root_bitmap s k)" "entry_type (root_bitmap s k) = TYPE_BITMAP" "children (root_bitmap s k) = {s}"
    "\<not> entry_is_secondary (root_bitmap s k)" "\<not> entry_dirty (root_bitmap s k)" "max_child (root_bitmap s k) = ucast s"
    "e_locator (root_bitmap s k) = k" "entry_color (root_bitmap s k) = 0" "entry_parent_color (root_bitmap s k) = 9"
    "entry_tag (root_bitmap s k) = 0" "color_and_tag (root_bitmap s k) = 0" "erase_side (root_bitmap s k) = root_bitmap s k"
proof -
  note z = zero_bitmap
  note m = marked_bitmap_fields [OF z(1) assms(2), of k, folded root_bitmap_def, unfolded z(2-11)]
  show "wf_entry (root_bitmap s k)" "entry_type (root_bitmap s k) = TYPE_BITMAP" "children (root_bitmap s k) = {s}"
    "\<not> entry_is_secondary (root_bitmap s k)" "\<not> entry_dirty (root_bitmap s k)" "max_child (root_bitmap s k) = ucast s"
    "e_locator (root_bitmap s k) = k" "color_and_tag (root_bitmap s k) = 0" "erase_side (root_bitmap s k) = root_bitmap s k"
    using m assms z by (simp_all add: root_bitmap_def)
  show "entry_color (root_bitmap s k) = 0" "entry_parent_color (root_bitmap s k) = 9" using m(9) z(7,8) by (simp_all add: link_def)
  show "entry_tag (root_bitmap s k) = 0" using m(3) z(9,10) by (simp add: entry_tag_def)
qed

definition only_leaf :: "u64 \<Rightarrow> u64 \<Rightarrow> ct_entry" where
  "only_leaf s kv = (new_child 0 s kv)\<lparr>e_locator := zero_locator\<lparr>loc_primary_bucket := NO_BUCKET\<rparr>\<rparr>"

subsection \<open>The shape\<close>

definition one_leaf :: "u64 \<Rightarrow> ct_entry_locator \<Rightarrow> ct_entry \<Rightarrow> shape" where
  "one_leaf s k l = [[] \<mapsto> root_bitmap s k, [s] \<mapsto> l]"

definition good_leaf :: "kv_heap \<Rightarrow> cuckoo_trie \<Rightarrow> u64 \<Rightarrow> ct_entry \<Rightarrow> bool" where
  "good_leaf heap t s l \<longleftrightarrow> wf_entry l \<and> erase_side l = l \<and> ucast (entry_tag l) = hash_to_tag (hash_path t [s]) \<and>
     entry_type l = TYPE_LEAF \<and> leaf_ok heap [s] l \<and> e_last_symbol l = ucast s \<and> entry_parent_color l = 0 \<and> \<not> entry_dirty l \<and>
     loc_primary_bucket (e_locator l) = NO_BUCKET"

lemma one_leaf_shape:
  assumes s: "0 < s" "s \<le> 32" and l: "good_leaf heap t s l"
  shows "shape_ok heap t (one_leaf s k l)" and "leaves (one_leaf s k l) = {[s]}"
proof -
  let ?T = "one_leaf s k l"
  note r = root_bitmap_fields [OF s, of k]
  note l = l [unfolded good_leaf_def]
  have T: "?T p = (if p = [] then Some (root_bitmap s k) else if p = [s] then Some l else None)" for p by (simp add: one_leaf_def)
  have d: "dom ?T = {[], [s]}" by (auto simp: one_leaf_def)
  have "node_ok heap t ?T [] (root_bitmap s k)"
    using r l by (simp add: node_ok_def bitmap_children_ok_def T hash_path_Nil start_hash)
  moreover have "node_ok heap t ?T [s] l" using l s by (simp add: node_ok_def)
  moreover have "child_of ?T [] [s]" using r by (simp add: child_of_def T)
  ultimately show "shape_ok heap t ?T" unfolding shape_ok_def d using r(9) by (auto simp: T)
  show "leaves ?T = {[s]}" using r(2) l by (auto simp: leaves_def T)
qed

lemma one_leaf_listed:
  assumes s: "0 < s" "s \<le> 32" and l: "good_leaf heap t s l" and k: "k = loc_of t (one_leaf s k l) [s]"
    and n: "unat (num_buckets t) < 2 ^ 32" and m: "cell t (trie_min_leaf t) = first_min_leaf\<lparr>e_locator := k\<rparr>"
  shows "listed t (one_leaf s k l)"
proof -
  let ?T = "one_leaf s k l"
  note sh = one_leaf_shape [OF s l, of k]
  note r = root_bitmap_fields [OF s, of k]
  have T: "?T [] = Some (root_bitmap s k)" "?T [s] = Some l" by (simp_all add: one_leaf_def)
  have d: "dom ?T = {[], [s]}" by (auto simp: one_leaf_def)
  have "below ?T [] = {[s]}" using sh(2) by (auto simp: below_def)
  moreover have "after ?T [s] = {}" using sh(2) by (auto simp: after_def)
  moreover have "wf_entry (first_min_leaf\<lparr>e_locator := k\<rparr>)" "entry_type (first_min_leaf\<lparr>e_locator := k\<rparr>) = TYPE_LEAF"
    "\<not> entry_dirty (first_min_leaf\<lparr>e_locator := k\<rparr>)"
  proof -
    have "wf_entry first_min_leaf" "entry_type first_min_leaf = TYPE_LEAF" "\<not> entry_dirty first_min_leaf" by code_simp+
    then show "wf_entry (first_min_leaf\<lparr>e_locator := k\<rparr>)" "entry_type (first_min_leaf\<lparr>e_locator := k\<rparr>) = TYPE_LEAF"
      "\<not> entry_dirty (first_min_leaf\<lparr>e_locator := k\<rparr>)" by (simp_all add: wf_entry_def entry_type_def entry_dirty_def)
  qed
  moreover have "{[], [s]} - {[s]} = {[] :: u64 list}" by auto
  ultimately show ?thesis
    using sh(2) r l n m k [symmetric] unfolding listed_def d good_leaf_def by (simp add: T links_first_def min_leaf_ok_def)
qed

subsection \<open>The trie\<close>

lemma only_leaf_good:
  assumes sh: "trie_shape heap trie T" and t: "hash_path t = hash_path trie" and s: "s \<le> 32"
    and kv: "canonical_address kv" "wf_kv (heap kv)" "prefix [s] (key_symbols (key_of heap kv))"
    and tag: "tag = hash_to_tag (hash_path trie [s])" and c9: "c < 9"
    and l: "l = (only_leaf s kv)\<lparr>color_and_tag := ucast tag OR push_bit 4 c\<rparr>"
  shows "good_leaf heap t s l" and "entry_kv l = kv"
proof -
  note ch = new_child_fields [where color = 0 and s = s and kv = kv]
  have vs: "valid_sizes trie" using table_invD(5) [OF trie_shapeD(1) [OF sh]] by auto
  have t16: "tag < 16" using hash_split_valid(2) [OF vs hash_path_valid [OF vs, of "[s]"]] s unfolding tag valid_tag_def by simp
  then obtain u :: u8 where u: "tag = ucast u" "nibble u" by (rule u64_nibble)
  have ct: "entry_tag l = u" using entry_tag_color_combined(1) [OF u(2) nibble_less_9 [OF c9]] u(1) by (simp add: l ucast_ucast_u8)
  have lw: "wf_entry l" using ch(1) by (simp add: l only_leaf_def wf_entry_def)
  show kvl: "entry_kv l = kv" unfolding l only_leaf_def using entry_kv_cong [OF lw ch(1)] ch(7) [OF kv(1)] by (simp add: l only_leaf_def)
  have "nibble 0" by (simp add: nibble_def)
  then have "entry_parent_color l = 0" using ch(6) by (simp add: l only_leaf_def entry_parent_color_def)
  moreover have "erase_side l = l" unfolding erase_id_iff using ch(2) by (simp add: l only_leaf_def entry_is_secondary_def)
  moreover have "leaf_ok heap [s] l" using kv kvl by (simp add: leaf_ok_def)
  moreover have "ucast (entry_tag l) = hash_to_tag (hash_path t [s])" using u(1) tag by (simp add: ct t)
  moreover have "entry_type l = TYPE_LEAF" "e_last_symbol l = ucast s" "\<not> entry_dirty l" "loc_primary_bucket (e_locator l) = NO_BUCKET"
    using ch(3,4,5) by (simp_all add: l only_leaf_def entry_type_def entry_dirty_def)
  ultimately show "good_leaf heap t s l" using lw by (simp add: good_leaf_def)
qed

lemma set_root:
  assumes v: "view t T m" and T: "T [] = Some r" and ct: "color_and_tag r = 0" and s: "0 < s" "s \<le> 32"
  shows "view (set_cell t root_ptr (root_bitmap s k)) (T([] \<mapsto> root_bitmap s k)) m"
proof -
  note R = root_bitmap_fields [OF s, of k]
  note rt = viewD(1) [OF v]
  have r: "cell t root_ptr = r" using rootedD(3) [OF rt] T by simp
  have sec: "\<not> entry_is_secondary (cell t root_ptr)" by (rule rootedD(4) [OF rt])
  then have id: "erase_side (cell t root_ptr) = cell t root_ptr" unfolding erase_id_iff .
  have home: "home t (fst root_ptr) (cell t root_ptr) = hash_to_bucket (hash_path t [])"
    using sec by (simp add: home_def root_ptr_def start_hash hash_path_Nil)
  have "view (set_cell t root_ptr (root_bitmap s k)) (T([] \<mapsto> erase_side (root_bitmap s k))) m"
    by (rule set_node(1) [OF v root_cell [OF viewD(3) [OF v]] home]) (use R T r sec id ct in simp_all)
  then show ?thesis by (simp add: R)
qed

theorem one_leaf_trie:
  assumes o: "ordered_trie heap trie [[] \<mapsto> root_leaf kv]" and lok: "locks_ok {} (trie, [])"
    and min: "cell trie (trie_min_leaf trie) = first_min_leaf" and s: "0 < s" "s \<le> 32"
    and kv: "canonical_address kv" "wf_kv (heap kv)" "prefix [s] (key_symbols (key_of heap kv))"
  shows "\<exists>t k l. ordered_trie heap t (one_leaf s k l) \<and> locks_ok {} (t, []) \<and> entry_kv l = kv \<and> frame t = frame trie"
proof -
  note sh = ordered_trieD(1) [OF o] and ls = ordered_trieD(2) [OF o]
  let ?T0 = "[[] \<mapsto> root_leaf kv]" and ?k0 = "zero_locator"
  have v0: "view trie ?T0 first_min_leaf" using shape_rooted [OF sh] min by (simp add: view_def)
  have root: "color_and_tag (root_leaf kv) = 0" unfolding root_leaf_def by (simp add: entry_set_kv_fields(2))
  define t1 where "t1 = set_cell trie root_ptr (root_bitmap s ?k0)"
  have "view t1 (?T0([] \<mapsto> root_bitmap s ?k0)) first_min_leaf"
    unfolding t1_def by (rule set_root [OF v0 _ root s]) simp
  then have v1: "view t1 [[] \<mapsto> root_bitmap s ?k0] first_min_leaf" by simp
  have f1: "frame t1 = frame trie" by (simp add: t1_def)
  have l1: "locks_ok {} (t1, [])" using lok by (simp add: t1_def locks_ok_def table_simps)
  note ch = new_child_fields [where color = 0 and s = s and kv = kv]
  have e: "wf_entry (only_leaf s kv)" "\<not> entry_is_secondary (only_leaf s kv)" "entry_type (only_leaf s kv) \<noteq> TYPE_UNUSED"
    using ch(1-3) by (simp_all add: only_leaf_def wf_entry_def entry_is_secondary_def entry_type_def)
  from add_node [OF v1 l1, of "[s]" "only_leaf s kv" None False] s e obtain st out e1 t2 m2 where
    A: "add_entry (t1, []) (hash_path t1 [s]) (only_leaf s kv) None False = Some (st, out, e1, t2, m2)"
      "locks_ok {} (t2, m2)" "wrote {..<unat (num_buckets t1)} 1003 t1 t2"
    and R: "if st = SI_OK
     then \<exists>pos c. out = Some pos \<and> pos \<in> table_cells t2 \<and> cell t2 pos = e1 \<and> c < 9 \<and>
       home t2 (fst pos) e1 = hash_to_bucket (hash_path t1 [s]) \<and> entry_type e1 \<noteq> TYPE_UNUSED \<and>
       erase_side e1 = (only_leaf s kv)\<lparr>color_and_tag := ucast (hash_to_tag (hash_path t1 [s])) OR push_bit 4 c\<rparr> \<and>
       entry_tag e1 = ucast (hash_to_tag (hash_path t1 [s])) \<and> view t2 ([[] \<mapsto> root_bitmap s ?k0, [s] \<mapsto> erase_side e1]) first_min_leaf
     else st \<in> {SI_RETRY, SI_FAIL} \<and> out = None \<and> view t2 [[] \<mapsto> root_bitmap s ?k0] first_min_leaf"
    by auto
  have tok1: "table_ok t1" by (rule viewD(3) [OF v1])
  have vs1: "valid_sizes t1" using table_okD(2) [OF tok1] by auto
  have vh1: "valid_hash t1 (hash_path t1 [s])" using hash_path_valid [OF vs1, of "[s]"] s by simp
  have "size (table_content t1) = 1" using tracksD(3) [OF viewD(2) [OF v1]] by (simp add: shape_content_def)
  then have "has_room t1 (hash_to_bucket (hash_path t1 [s]))" using few_entries_room [OF tok1 hash_split_valid(1) [OF vs1 vh1]] by simp
  then have st: "st = SI_OK" by (rule add_entry_alone(1) [OF tok1 l1 vh1 e A(1)])
  from R [unfolded if_P [OF st]] obtain c where c: "c < 9"
    "erase_side e1 = (only_leaf s kv)\<lparr>color_and_tag := ucast (hash_to_tag (hash_path t1 [s])) OR push_bit 4 c\<rparr>"
    "view t2 ([[] \<mapsto> root_bitmap s ?k0, [s] \<mapsto> erase_side e1]) first_min_leaf" by blast
  define l where "l = erase_side e1"
  have f2: "frame t2 = frame trie" using wrote_frame [OF A(3)] f1 by simp
  define k where "k = loc_of t2 (one_leaf s ?k0 l) [s]"
  define t3 where "t3 = set_cell t2 root_ptr (root_bitmap s k)"
  have "view t3 ([[] \<mapsto> root_bitmap s ?k0, [s] \<mapsto> l]([] \<mapsto> root_bitmap s k)) first_min_leaf"
    unfolding t3_def by (rule set_root [OF c(3) [folded l_def] _ _ s]) (use s root_bitmap_fields(11) [OF s, of ?k0] in simp_all)
  then have v3: "view t3 (one_leaf s k l) first_min_leaf" by (simp add: one_leaf_def fun_upd_twist)
  let ?m = "first_min_leaf\<lparr>e_locator := k\<rparr>"
  define t4 where "t4 = snd (write_entry t3 (trie_min_leaf t3) ?m)"
  have "wf_entry first_min_leaf" by code_simp
  then have wm: "wf_entry ?m" by (simp add: wf_entry_def)
  note w = write_min_leaf [OF viewD(3) [OF v3] wm, folded t4_def]
  have f4: "frame t4 = frame trie" using wrote_frame [OF w(4)] f2 by (simp add: t3_def)
  have r4: "rooted t4 (one_leaf s k l)" unfolding t4_def by (rule rooted_write_min [OF viewD(1) [OF v3] wm])
  have m4: "cell t4 (trie_min_leaf t4) = ?m" using w(3) frame_fields(7) [OF wrote_frame [OF w(4)]] by simp
  have F: "hash_path t1 = hash_path trie" "hash_path t2 = hash_path trie" "hash_path t4 = hash_path trie" "num_buckets t4 = num_buckets trie"
    using frame_fields [OF f1] frame_fields [OF f2] frame_fields [OF f4] by simp_all
  note G = only_leaf_good [OF sh F(3) s(2) kv refl c(1) c(2) [folded l_def, unfolded F(1)]]
  have "entry_color (the (one_leaf s ?k0 l [s])) = entry_color (the (one_leaf s k l [s]))" by (simp add: one_leaf_def)
  then have k: "k = loc_of t4 (one_leaf s k l) [s]" unfolding k_def loc_of_def F by simp
  have "trie_shape heap t4 (one_leaf s k l)" by (rule trie_shape_rooted [OF r4 one_leaf_shape(1) [OF s G(1)] refl])
  moreover have "listed t4 (one_leaf s k l)" by (rule one_leaf_listed [OF s G(1) k _ m4]) (use listedD(1) [OF ls] F in simp)
  ultimately have o4: "ordered_trie heap t4 (one_leaf s k l)" by (simp add: ordered_trie_def)
  have l4: "locks_ok {} (t4, m2)" unfolding t4_def
    by (rule locks_ok_write_entry) (use A(2) in \<open>simp add: t3_def locks_ok_def table_simps\<close>)
  obtain t5 where "ordered_trie heap t5 (one_leaf s k l)" "locks_ok {} (t5, [])" "frame t5 = frame t4"
    by (rule ordered_released [OF o4 l4])
  then show ?thesis using G(2) f4 by auto
qed

end
