(* ===== verification/Sched.thy ===== *)
theory Sched
  imports Hashing
begin

text \<open>
  The deterministic scheduler of the multithreading tests (\<open>mt_debug.c\<close>). It lets one
  registered thread at a time access the trie and draws the next one at random among the
  threads that have not finished.

  Single precision is modelled exactly: the draw is a 32-bit number rounded to 24
  significant bits and divided by \<open>2 ^ 32\<close>, the value of \<open>MAX_DWORD\<close> as a float; so all
  numbers that occur are naturals over \<open>2 ^ 32\<close>.
\<close>

abbreviation (input) MAX_THREADS :: nat where "MAX_THREADS \<equiv> 128"

record sched =
  mt_debug_enabled :: bool
  sched_rand_state :: u64
  running_thread :: "nat option"
  sched_threads :: "nat list"
  num_running_threads :: nat
  finished :: "bool list"

definition sched_init :: sched where
  "sched_init = \<lparr>mt_debug_enabled = False, sched_rand_state = 1, running_thread = None, sched_threads = [],
     num_running_threads = 0, finished = []\<rparr>"

definition rand_dword_r :: "u64 \<Rightarrow> u32 \<times> u64" where
  "rand_dword_r state =
     (let state = 6364136223846793005 * state + 1 in (ucast (drop_bit 32 state), state))"

text \<open>Rounding to 24 significant bits, ties to the even neighbour.\<close>

fun excess_bits :: "nat \<Rightarrow> nat" where
  "excess_bits n = (if n < 2 ^ 24 then 0 else Suc (excess_bits (n div 2)))"

declare excess_bits.simps [simp del]

definition float_round :: "nat \<Rightarrow> nat" where
  "float_round n =
     (let unit = 2 ^ excess_bits n; quotient = n div unit; rest = n mod unit
      in if 2 * rest < unit \<or> (2 * rest = unit \<and> even quotient) then quotient * unit else (quotient + 1) * unit)"

text \<open>Is \<open>running_seen \<ge> num_running_threads * rand\<close>, for the draw \<open>dword\<close>?\<close>

definition seen_enough :: "nat \<Rightarrow> nat \<Rightarrow> u32 \<Rightarrow> bool" where
  "seen_enough running_seen num_running dword \<longleftrightarrow>
     float_round (num_running * float_round (unat dword)) \<le> running_seen * 2 ^ 32"

primrec pick_thread :: "nat \<Rightarrow> u32 \<Rightarrow> nat \<Rightarrow> nat \<Rightarrow> bool list \<Rightarrow> nat" where
  "pick_thread num_running dword i running_seen [] = i"
| "pick_thread num_running dword i running_seen (f # fs) =
     (if f then pick_thread num_running dword (i + 1) running_seen fs
      else if seen_enough (running_seen + 1) num_running dword then i
      else pick_thread num_running dword (i + 1) (running_seen + 1) fs)"

definition next_turn_locked :: "sched \<Rightarrow> sched" where
  "next_turn_locked s =
     (if num_running_threads s = 0 then s
      else let (dword, state) = rand_dword_r (sched_rand_state s)
           in s\<lparr>sched_rand_state := state,
                running_thread := Some (pick_thread (num_running_threads s) dword 0 0 (finished s))\<rparr>)"

definition next_turn :: "sched \<Rightarrow> sched" where
  "next_turn s = next_turn_locked s"

text \<open>The index of a registered thread; before the start it waits (\<open>None\<close>).\<close>

primrec index_from :: "nat \<Rightarrow> nat \<Rightarrow> nat list \<Rightarrow> nat option" where
  "index_from i thread [] = None"
| "index_from i thread (t # ts) = (if thread = t then Some i else index_from (i + 1) thread ts)"

definition thread_index :: "sched \<Rightarrow> nat \<Rightarrow> nat option" where
  "thread_index s self = (if running_thread s = None then None else index_from 0 self (sched_threads s))"

text \<open>A thread may access the trie when it need not wait; afterwards it passes the turn on.\<close>

definition mt_debug_wait_for_access :: "sched \<Rightarrow> nat \<Rightarrow> bool" where
  "mt_debug_wait_for_access s self \<longleftrightarrow>
     \<not> mt_debug_enabled s \<or> (case thread_index s self of None \<Rightarrow> False | Some i \<Rightarrow> running_thread s = Some i)"

definition mt_debug_access_done :: "sched \<Rightarrow> sched" where
  "mt_debug_access_done s = (if \<not> mt_debug_enabled s then s else next_turn s)"

definition ct_mtdbg_register_thread :: "sched \<Rightarrow> nat \<Rightarrow> sched" where
  "ct_mtdbg_register_thread s thread_id =
     s\<lparr>sched_threads := sched_threads s @ [thread_id], finished := finished s @ [False],
       num_running_threads := num_running_threads s + 1\<rparr>"

definition ct_mtdbg_start :: "sched \<Rightarrow> sched" where
  "ct_mtdbg_start s = next_turn s"

definition ct_mtdbg_thread_done :: "sched \<Rightarrow> nat \<Rightarrow> sched option" where
  "ct_mtdbg_thread_done s self =
     (if \<not> mt_debug_enabled s then Some s
      else case thread_index s self of
             None \<Rightarrow> None
           | Some i \<Rightarrow>
               (let s = s\<lparr>finished := (finished s)[i := True], num_running_threads := num_running_threads s - 1\<rparr>
                in Some (if running_thread s = Some i then next_turn_locked s else s)))"

definition ct_mtdbg_set_enabled :: "sched \<Rightarrow> bool \<Rightarrow> sched" where
  "ct_mtdbg_set_enabled s enabled = s\<lparr>mt_debug_enabled := enabled\<rparr>"

definition ct_mtdbg_seed :: "sched \<Rightarrow> u64 \<Rightarrow> sched" where
  "ct_mtdbg_seed s seed = s\<lparr>sched_rand_state := seed\<rparr>"

subsection \<open>The rounding\<close>

lemma excess_bits_bounds:
  "n < 2 ^ (24 + excess_bits n) \<and> (0 < excess_bits n \<longrightarrow> 2 ^ (23 + excess_bits n) \<le> n)"
proof (induction n rule: excess_bits.induct)
  case (1 n)
  show ?case
  proof (cases "n < 2 ^ 24")
    case True
    then show ?thesis by (simp add: excess_bits.simps [of n])
  next
    case False
    let ?e = "excess_bits (n div 2)"
    have e: "excess_bits n = Suc ?e" using False by (simp add: excess_bits.simps [of n])
    have IH: "n div 2 < 2 ^ (24 + ?e)" "0 < ?e \<Longrightarrow> 2 ^ (23 + ?e) \<le> n div 2" using 1 False by auto
    have low: "2 ^ (23 + ?e) \<le> n div 2"
      using IH(2) False by (cases "?e = 0") auto
    have "n < 2 * 2 ^ (24 + ?e)" using IH(1) by linarith
    moreover have "2 * 2 ^ (23 + ?e) \<le> n" using low by linarith
    ultimately show ?thesis unfolding e add_Suc_right power_Suc by blast
  qed
qed

text \<open>A number of at most 24 significant bits bounds the rounding of what it bounds.\<close>

lemma float_round_le:
  assumes m: "m \<le> a * 2 ^ k" and a: "a \<le> 2 ^ 24"
  shows "float_round m \<le> a * 2 ^ k"
proof -
  let ?e = "excess_bits m"
  define q where "q = m div 2 ^ ?e"
  define r where "r = m mod 2 ^ ?e"
  have mqr: "m = q * 2 ^ ?e + r" by (simp only: q_def r_def div_mult_mod_eq)
  have *: "float_round m = q * 2 ^ ?e \<or> (r \<noteq> 0 \<and> float_round m = (q + 1) * 2 ^ ?e)"
    by (cases "m mod 2 ^ ?e = 0") (auto simp: float_round_def Let_def q_def r_def)
  show ?thesis
  proof (cases "r = 0")
    case True
    then show ?thesis using * m mqr by simp
  next
    case False
    then have "?e > 0" by (cases "?e = 0") (auto simp: r_def)
    then have low: "2 ^ (23 + ?e) \<le> m" using excess_bits_bounds by blast
    have "?e \<le> k"
    proof (rule ccontr)
      assume "\<not> ?e \<le> k"
      then have "k + 1 \<le> ?e" by simp
      have "a * 2 ^ k \<le> 2 ^ 24 * 2 ^ k" using a by (rule mult_le_mono1)
      also have "\<dots> = (2 ^ (23 + (k + 1)) :: nat)" by (simp add: power_add)
      also have "\<dots> \<le> 2 ^ (23 + ?e)" using \<open>k + 1 \<le> ?e\<close> by (intro power_increasing) simp_all
      finally have "m = 2 ^ (23 + ?e)" using low m by simp
      then have "2 ^ ?e dvd m" by (metis power_add dvd_triv_right)
      then have "r = 0" by (simp add: r_def)
      then show False using False by simp
    qed
    then obtain j where k: "k = ?e + j" using le_Suc_ex by blast
    have "q * 2 ^ ?e < a * 2 ^ k" using m mqr False by linarith
    then have "q * 2 ^ ?e < a * 2 ^ j * 2 ^ ?e" by (simp add: k power_add ac_simps)
    then have "q + 1 \<le> a * 2 ^ j" by simp
    then have "(q + 1) * 2 ^ ?e \<le> a * 2 ^ j * 2 ^ ?e" by (rule mult_le_mono1)
    then have "(q + 1) * 2 ^ ?e \<le> a * 2 ^ k" by (simp add: k power_add ac_simps)
    then show ?thesis using * by auto
  qed
qed

lemma seen_all:
  assumes "n \<le> MAX_THREADS"
  shows "seen_enough n n dword"
proof -
  have "unat dword \<le> 1 * 2 ^ 32" using unsigned_less [of dword, where 'a = nat] by simp
  then have "float_round (unat dword) \<le> 1 * 2 ^ 32" by (rule float_round_le) simp
  then have "n * float_round (unat dword) \<le> n * 2 ^ 32" by simp
  then have "float_round (n * float_round (unat dword)) \<le> n * 2 ^ 32" using assms by (intro float_round_le) simp_all
  then show ?thesis by (simp add: seen_enough_def)
qed

subsection \<open>The draw finds a thread that runs\<close>

abbreviation running_count :: "bool list \<Rightarrow> nat" where
  "running_count fs \<equiv> length (filter Not fs)"

lemma pick_thread_running:
  assumes "running_seen + running_count fs = n" and "0 < running_count fs" and "n \<le> MAX_THREADS"
  shows "\<exists>k<length fs. pick_thread n dword i running_seen fs = i + k \<and> \<not> fs ! k"
  using assms
proof (induction fs arbitrary: i running_seen)
  case (Cons f fs)
  show ?case
  proof (cases f)
    case True
    then obtain k where "k < length fs" "pick_thread n dword (i + 1) running_seen fs = i + 1 + k" "\<not> fs ! k"
      using Cons.IH [of running_seen "i + 1"] Cons.prems by auto
    then show ?thesis using True by (intro exI [of _ "k + 1"]) simp
  next
    case False
    show ?thesis
    proof (cases "seen_enough (running_seen + 1) n dword")
      case True
      then show ?thesis using False by (intro exI [of _ 0]) simp
    next
      case more: False
      have "0 < running_count fs"
      proof (rule ccontr)
        assume "\<not> 0 < running_count fs"
        then have "running_seen + 1 = n" using Cons.prems(1) False by simp
        then show False using more seen_all [OF Cons.prems(3)] by metis
      qed
      then obtain k where "k < length fs" "pick_thread n dword (i + 1) (running_seen + 1) fs = i + 1 + k" "\<not> fs ! k"
        using Cons.IH [of "running_seen + 1" "i + 1"] Cons.prems False by auto
      then show ?thesis using False more by (intro exI [of _ "k + 1"]) simp
    qed
  qed
qed simp

text \<open>
  The invariant: the count is right, every registered thread has a flag, and the turn is with
  a thread that has not finished, as long as there is one.
\<close>

definition sched_ok :: "sched \<Rightarrow> bool" where
  "sched_ok s \<longleftrightarrow>
     length (finished s) = length (sched_threads s) \<and> length (sched_threads s) \<le> MAX_THREADS \<and>
     distinct (sched_threads s) \<and> num_running_threads s = running_count (finished s) \<and>
     (\<forall>i. running_thread s = Some i \<longrightarrow> i < length (finished s) \<and> (0 < num_running_threads s \<longrightarrow> \<not> finished s ! i))"

lemma next_turn_runs:
  assumes n: "num_running_threads s = running_count (finished s)" "length (finished s) \<le> MAX_THREADS"
    and some: "0 < num_running_threads s"
  shows "\<exists>i<length (finished s). running_thread (next_turn_locked s) = Some i \<and> \<not> finished s ! i"
proof -
  have le: "num_running_threads s \<le> MAX_THREADS" using n length_filter_le [of Not "finished s"] by linarith
  obtain dword state where d: "rand_dword_r (sched_rand_state s) = (dword, state)" by fastforce
  have "0 + running_count (finished s) = num_running_threads s" "0 < running_count (finished s)" using n some by simp_all
  from pick_thread_running [OF this le, of dword 0]
  show ?thesis using some d by (auto simp: next_turn_locked_def Let_def)
qed

lemma next_turn_fields [simp]:
  "finished (next_turn_locked s) = finished s" "sched_threads (next_turn_locked s) = sched_threads s"
  "num_running_threads (next_turn_locked s) = num_running_threads s"
  "mt_debug_enabled (next_turn_locked s) = mt_debug_enabled s"
  by (simp_all add: next_turn_locked_def Let_def case_prod_beta)

lemma next_turn_ok:
  assumes "sched_ok s"
  shows "sched_ok (next_turn_locked s)"
proof (cases "num_running_threads s = 0")
  case True
  then show ?thesis using assms by (simp add: next_turn_locked_def)
next
  case False
  then have "\<exists>i<length (finished s). running_thread (next_turn_locked s) = Some i \<and> \<not> finished s ! i"
    using assms by (intro next_turn_runs) (simp_all add: sched_ok_def)
  then show ?thesis using assms by (auto simp: sched_ok_def)
qed

lemma index_from_Some:
  "index_from i thread ts = Some j \<Longrightarrow> i \<le> j \<and> j < i + length ts \<and> ts ! (j - i) = thread"
proof (induction ts arbitrary: i)
  case (Cons t ts)
  show ?case
  proof (cases "thread = t")
    case False
    then have "index_from (i + 1) thread ts = Some j" using Cons.prems by simp
    then have "i + 1 \<le> j \<and> j < i + 1 + length ts \<and> ts ! (j - (i + 1)) = thread" by (rule Cons.IH)
    moreover from this have "j - i = Suc (j - (i + 1))" by arith
    ultimately show ?thesis by simp
  qed (use Cons.prems in simp)
qed simp

lemma running_count_update:
  "i < length fs \<Longrightarrow> \<not> fs ! i \<Longrightarrow> Suc (running_count (fs[i := True])) = running_count fs"
  by (induction fs arbitrary: i) (auto split: nat.split simp: nth_Cons)

text \<open>The operations keep the invariant; a thread reports its end once.\<close>

theorem sched_operations_ok:
  assumes ok: "sched_ok s"
  shows "sched_ok (ct_mtdbg_start s)" and "sched_ok (mt_debug_access_done s)"
    and "thread_id \<notin> set (sched_threads s) \<Longrightarrow> length (sched_threads s) < MAX_THREADS \<Longrightarrow> running_thread s = None \<Longrightarrow>
      sched_ok (ct_mtdbg_register_thread s thread_id)"
    and "ct_mtdbg_thread_done s self = Some s' \<Longrightarrow> mt_debug_wait_for_access s self \<Longrightarrow> 0 < num_running_threads s \<Longrightarrow>
      sched_ok s'"
proof -
  show "sched_ok (ct_mtdbg_start s)" "sched_ok (mt_debug_access_done s)"
    using next_turn_ok [OF ok] ok by (simp_all add: ct_mtdbg_start_def mt_debug_access_done_def next_turn_def)
  show "sched_ok (ct_mtdbg_register_thread s thread_id)"
    if "thread_id \<notin> set (sched_threads s)" "length (sched_threads s) < MAX_THREADS" "running_thread s = None"
    using ok that by (simp add: sched_ok_def ct_mtdbg_register_thread_def)
  assume d: "ct_mtdbg_thread_done s self = Some s'" and w: "mt_debug_wait_for_access s self" and some: "0 < num_running_threads s"
  show "sched_ok s'"
  proof (cases "mt_debug_enabled s")
    case False
    then show ?thesis using d ok by (simp add: ct_mtdbg_thread_done_def)
  next
    case True
    then obtain i where i: "thread_index s self = Some i" "running_thread s = Some i"
      using w by (auto simp: mt_debug_wait_for_access_def split: option.splits)
    have il: "i < length (finished s)" "\<not> finished s ! i" using ok i(2) some by (auto simp: sched_ok_def)
    let ?s = "s\<lparr>finished := (finished s)[i := True], num_running_threads := num_running_threads s - 1\<rparr>"
    have s': "s' = next_turn_locked ?s" using d True i by (simp add: ct_mtdbg_thread_done_def Let_def)
    have count: "num_running_threads ?s = running_count (finished ?s)"
      using ok running_count_update [OF il] by (auto simp: sched_ok_def)
    show ?thesis
    proof (cases "num_running_threads ?s = 0")
      case True
      then have "s' = ?s" using s' by (simp add: next_turn_locked_def)
      then show ?thesis using ok il i(2) count True by (simp add: sched_ok_def)
    next
      case False
      then have some': "0 < num_running_threads ?s" by (rule neq0_conv [THEN iffD1])
      have "length (finished ?s) \<le> MAX_THREADS" using ok by (simp add: sched_ok_def)
      from next_turn_runs [OF count this some']
      have "\<exists>j<length (finished ?s). running_thread (next_turn_locked ?s) = Some j \<and> \<not> finished ?s ! j" .
      moreover have "num_running_threads (next_turn_locked ?s) = running_count (finished (next_turn_locked ?s))"
        unfolding next_turn_fields by (rule count)
      ultimately show ?thesis unfolding s' using ok by (auto simp only: sched_ok_def next_turn_fields) auto
    qed
  qed
qed

text \<open>Two threads never have the turn at the same time.\<close>

theorem turn_exclusive:
  assumes "mt_debug_enabled s"
    and "mt_debug_wait_for_access s thread1" and "mt_debug_wait_for_access s thread2"
  shows "thread1 = thread2"
proof -
  obtain i j where i: "thread_index s thread1 = Some i" "running_thread s = Some i"
    and j: "thread_index s thread2 = Some j" "running_thread s = Some j"
    using assms by (auto simp: mt_debug_wait_for_access_def split: option.splits)
  then have "index_from 0 thread1 (sched_threads s) = Some i" "index_from 0 thread2 (sched_threads s) = Some i"
    by (simp_all add: thread_index_def)
  then have "sched_threads s ! (i - 0) = thread1" "sched_threads s ! (i - 0) = thread2" using index_from_Some by blast+
  then show ?thesis by simp
qed

text \<open>As long as a thread runs, some registered thread that has not finished has the turn.\<close>

lemma index_from_distinct:
  assumes "distinct ts" and "k < length ts"
  shows "index_from i (ts ! k) ts = Some (i + k)"
  using assms
proof (induction ts arbitrary: i k)
  case (Cons t ts)
  then show ?case by (cases k) (auto simp: nth_mem)
qed simp

theorem turn_given:
  assumes ok: "sched_ok s" and some: "0 < num_running_threads s"
  shows "\<exists>i<length (sched_threads s). \<not> finished s ! i \<and> mt_debug_wait_for_access (ct_mtdbg_start s) (sched_threads s ! i)"
proof -
  obtain i where i: "i < length (finished s)" "running_thread (next_turn_locked s) = Some i" "\<not> finished s ! i"
    using next_turn_runs [of s] ok some by (auto simp: sched_ok_def)
  have "index_from 0 (sched_threads s ! i) (sched_threads s) = Some (0 + i)"
    using ok i(1) by (intro index_from_distinct) (simp_all add: sched_ok_def)
  then show ?thesis using ok i
    by (intro exI [of _ i]) (simp add: sched_ok_def mt_debug_wait_for_access_def ct_mtdbg_start_def next_turn_def thread_index_def)
qed

theorem one_turn:
  assumes ok: "sched_ok s" and enabled: "mt_debug_enabled s" and some: "0 < num_running_threads s"
  shows "\<exists>i<length (sched_threads s). \<not> finished s ! i \<and>
    (\<forall>thread. mt_debug_wait_for_access (ct_mtdbg_start s) thread \<longleftrightarrow> thread = sched_threads s ! i)"
proof -
  obtain i where i: "i < length (sched_threads s)" "\<not> finished s ! i"
    "mt_debug_wait_for_access (ct_mtdbg_start s) (sched_threads s ! i)" using turn_given [OF ok some] by blast
  have "mt_debug_enabled (ct_mtdbg_start s)" using enabled by (simp add: ct_mtdbg_start_def next_turn_def)
  then show ?thesis using i turn_exclusive by blast
qed

end
