(* ===== verification/Stats.thy ===== *)
theory Stats
  imports Prelude
begin

text \<open>
  The timing statistics of the searches (\<open>timing_helpers.h\<close>, \<open>main.c\<close>). The elapsed cycles
  are read from the processor, so they are an argument here. The histogram has a bin
  below 50 cycles, ten bins of 50 cycles, and a last one from 5000 cycles on; a time
  between 550 and 4999 cycles is in no bin.
\<close>

abbreviation (input) HIST_BINS :: nat where "HIST_BINS \<equiv> 13"

record timing_stats =
  total_cycles :: u64
  call_count :: u64
  min_cycles :: u64
  max_cycles :: u64
  hist :: "u64 list"

record find_stats =
  timing :: timing_stats
  primary_bucket_hits :: u64
  secondary_bucket_hits :: u64
  primary_cell_counts :: "u64 list"
  secondary_cell_counts :: "u64 list"

definition timing_init :: timing_stats where
  "timing_init = \<lparr>total_cycles = 0, call_count = 0, min_cycles = - 1, max_cycles = 0, hist = replicate HIST_BINS 0\<rparr>"

definition find_stats_init :: find_stats where
  "find_stats_init = \<lparr>timing = timing_init, primary_bucket_hits = 0, secondary_bucket_hits = 0,
     primary_cell_counts = replicate 5 0, secondary_cell_counts = replicate 5 0\<rparr>"

definition timing_bin :: "u64 \<Rightarrow> int" where
  "timing_bin cycles =
     (if cycles < 50 then 0
      else if cycles < 550 then 1 + uint ((cycles - 50) div 50)
      else if cycles \<ge> 5000 then 12 else - 1)"

definition count_at :: "u64 list \<Rightarrow> nat \<Rightarrow> u64 list" where
  "count_at xs i = xs[i := xs ! i + 1]"

definition update_timing_stats :: "timing_stats \<Rightarrow> u64 \<Rightarrow> timing_stats" where
  "update_timing_stats t cycles =
     (let t = t\<lparr>total_cycles := total_cycles t + cycles\<rparr>;
          t = t\<lparr>call_count := call_count t + 1\<rparr>;
          t = (if cycles < min_cycles t then t\<lparr>min_cycles := cycles\<rparr> else t);
          t = (if max_cycles t < cycles then t\<lparr>max_cycles := cycles\<rparr> else t);
          bin = timing_bin cycles
      in if bin \<ge> 0 then t\<lparr>hist := count_at (hist t) (nat bin)\<rparr> else t)"

definition update_find_stats :: "find_stats \<Rightarrow> u64 \<Rightarrow> bool \<Rightarrow> nat \<Rightarrow> find_stats" where
  "update_find_stats s cycles is_secondary cell_idx =
     (let s = s\<lparr>timing := update_timing_stats (timing s) cycles\<rparr>
      in if is_secondary
         then s\<lparr>secondary_bucket_hits := secondary_bucket_hits s + 1,
                secondary_cell_counts := count_at (secondary_cell_counts s) cell_idx\<rparr>
         else s\<lparr>primary_bucket_hits := primary_bucket_hits s + 1,
                primary_cell_counts := count_at (primary_cell_counts s) cell_idx\<rparr>)"

text \<open>The length of a bar of the printed histogram: the largest bin has 50 characters.\<close>

definition histogram_max :: "u64 list \<Rightarrow> u64" where
  "histogram_max counts =
     (let max_bin = foldl (\<lambda>m h. if h > m then h else m) 0 counts in if max_bin = 0 then 1 else max_bin)"

definition bar_length :: "u64 list \<Rightarrow> nat \<Rightarrow> int" where
  "bar_length counts i =
     (let max_bin = histogram_max counts;
          bar_len = sint (ucast ((counts ! i * 50 + max_bin div 2) div max_bin) :: u32);
          bar_len = (if bar_len < 0 then 0 else bar_len)
      in if bar_len > 50 then 50 else bar_len)"

subsection \<open>The bins\<close>

text \<open>Bin 11 stays empty, and the times from 550 to 4999 cycles are in no bin.\<close>

theorem timing_bin_cases:
  shows "timing_bin c = - 1 \<longleftrightarrow> 550 \<le> c \<and> c < 5000"
    and "timing_bin c = 12 \<longleftrightarrow> 5000 \<le> c"
    and "- 1 \<le> timing_bin c" and "timing_bin c \<le> 12" and "timing_bin c \<noteq> 11"
    and "0 \<le> timing_bin c \<Longrightarrow> timing_bin c \<le> 10 \<Longrightarrow> timing_bin c = int (unat c div 50)"
proof -
  have mid: "uint ((c - 50) div 50) = int (unat c div 50) - 1 \<and> unat c div 50 \<le> 10 \<and> 1 \<le> unat c div 50"
    if "\<not> c < 50" "c < 550"
  proof -
    have c: "50 \<le> unat c" "unat c < 550" using that by (simp_all add: word_less_nat_alt)
    have "unat ((c - 50) div 50) = (unat c - 50) div 50"
      using that unfolding unat_div by (simp add: unat_sub not_less)
    also have "\<dots> = unat c div 50 - 1" using c by simp
    finally have u: "unat ((c - 50) div 50) = unat c div 50 - 1" .
    have "1 \<le> unat c div 50" "unat c div 50 \<le> 10" using c by linarith+
    then show ?thesis by (simp only: uint_nat u) (simp add: of_nat_diff)
  qed
  have bounds: "c < 50 \<Longrightarrow> unat c div 50 = 0" "5000 \<le> c \<Longrightarrow> \<not> c < 550" "5000 \<le> c \<Longrightarrow> \<not> c < 50" "c < 50 \<Longrightarrow> c < 550"
    by (simp_all add: word_less_nat_alt word_le_nat_alt)
  consider "c < 50" | "\<not> c < 50" "c < 550" | "550 \<le> c" "c < 5000" | "5000 \<le> c"
    by (meson not_le)
  then have "(timing_bin c = - 1 \<longleftrightarrow> 550 \<le> c \<and> c < 5000) \<and> (timing_bin c = 12 \<longleftrightarrow> 5000 \<le> c) \<and>
      - 1 \<le> timing_bin c \<and> timing_bin c \<le> 12 \<and> timing_bin c \<noteq> 11 \<and>
      (0 \<le> timing_bin c \<and> timing_bin c \<le> 10 \<longrightarrow> timing_bin c = int (unat c div 50))"
  proof cases
    case 1
    then have "\<not> 550 \<le> c" "\<not> 5000 \<le> c" by (simp_all add: word_less_nat_alt word_le_nat_alt)
    then show ?thesis using 1 bounds by (simp add: timing_bin_def)
  next
    case 2
    then have "\<not> 550 \<le> c" "\<not> 5000 \<le> c" by (simp_all add: word_less_nat_alt word_le_nat_alt)
    then show ?thesis using 2 mid [OF 2] by (simp add: timing_bin_def)
  next
    case 3
    then have "\<not> c < 50" "\<not> c < 550" "\<not> 5000 \<le> c" by (simp_all add: word_less_nat_alt word_le_nat_alt)
    then show ?thesis using 3 by (simp add: timing_bin_def)
  next
    case 4
    then have "\<not> c < 5000" by simp
    then show ?thesis using 4 bounds by (simp add: timing_bin_def)
  qed
  then show "timing_bin c = - 1 \<longleftrightarrow> 550 \<le> c \<and> c < 5000" "timing_bin c = 12 \<longleftrightarrow> 5000 \<le> c"
    "- 1 \<le> timing_bin c" "timing_bin c \<le> 12" "timing_bin c \<noteq> 11"
    "0 \<le> timing_bin c \<Longrightarrow> timing_bin c \<le> 10 \<Longrightarrow> timing_bin c = int (unat c div 50)" by blast+
qed

subsection \<open>The statistics of a sequence of searches\<close>

lemma update_fields [simp]:
  "total_cycles (update_timing_stats t c) = total_cycles t + c"
  "call_count (update_timing_stats t c) = call_count t + 1"
  "min_cycles (update_timing_stats t c) = min (min_cycles t) c"
  "max_cycles (update_timing_stats t c) = max (max_cycles t) c"
  "length (hist (update_timing_stats t c)) = length (hist t)"
  by (auto simp: update_timing_stats_def Let_def count_at_def min_def max_def)

lemma update_hist:
  assumes "length (hist t) = HIST_BINS" and "b < HIST_BINS"
  shows "hist (update_timing_stats t c) ! b = hist t ! b + (if timing_bin c = int b then 1 else 0)"
  using assms timing_bin_cases(4) [of c]
  by (auto simp: update_timing_stats_def Let_def count_at_def nth_list_update)

theorem timing_stats_of_calls:
  fixes cs :: "u64 list"
  defines "t \<equiv> foldl update_timing_stats timing_init cs"
  shows "total_cycles t = sum_list cs" and "call_count t = of_nat (length cs)"
    and "b < HIST_BINS \<Longrightarrow> hist t ! b = of_nat (length (filter (\<lambda>c. timing_bin c = int b) cs))"
    and "cs \<noteq> [] \<Longrightarrow> min_cycles t = Min (set cs) \<and> max_cycles t = Max (set cs)"
proof -
  have len: "length (hist (foldl update_timing_stats timing_init cs)) = HIST_BINS" for cs
    by (induction cs rule: rev_induct) (simp_all add: timing_init_def)
  have "total_cycles t = sum_list cs \<and> call_count t = of_nat (length cs) \<and>
    (\<forall>b<HIST_BINS. hist t ! b = of_nat (length (filter (\<lambda>c. timing_bin c = int b) cs))) \<and>
    (cs \<noteq> [] \<longrightarrow> min_cycles t = Min (set cs) \<and> max_cycles t = Max (set cs))"
    unfolding t_def
  proof (induction cs rule: rev_induct)
    case Nil
    then show ?case by (simp add: timing_init_def)
  next
    case (snoc c cs)
    let ?t = "foldl update_timing_stats timing_init cs"
    have "\<forall>b<HIST_BINS. hist (update_timing_stats ?t c) ! b =
        of_nat (length (filter (\<lambda>c. timing_bin c = int b) (cs @ [c])))"
      using snoc update_hist [OF len, of _ cs c] by simp
    moreover have "min (min_cycles ?t) c = Min (set (cs @ [c])) \<and> max (max_cycles ?t) c = Max (set (cs @ [c]))"
      using snoc word_order.extremum [of c] by (cases "cs = []") (auto simp: timing_init_def min.commute max.commute)
    ultimately show ?case using snoc by (simp add: add.commute)
  qed
  then show "total_cycles t = sum_list cs" "call_count t = of_nat (length cs)"
    "b < HIST_BINS \<Longrightarrow> hist t ! b = of_nat (length (filter (\<lambda>c. timing_bin c = int b) cs))"
    "cs \<noteq> [] \<Longrightarrow> min_cycles t = Min (set cs) \<and> max_cycles t = Max (set cs)" by blast+
qed

text \<open>
  The statistics of any sequence of calls: sum and number, modulo \<open>2 ^ 64\<close>, least and greatest
  time, and in each bin the number of the times that belong there; no time belongs into bin 11,
  and those from 550 to 4999 belong into no bin.
\<close>

theorem timing_statistics:
  fixes cs :: "u64 list"
  assumes "cs \<noteq> []" and "b < 13"
  shows "(let t = foldl update_timing_stats timing_init cs
     in total_cycles t = sum_list cs \<and> call_count t = of_nat (length cs) \<and>
       min_cycles t = Min (set cs) \<and> max_cycles t = Max (set cs) \<and>
       hist t ! b = of_nat (length (filter (\<lambda>c. timing_bin c = int b) cs))) \<and>
    (timing_bin c = - 1 \<longleftrightarrow> 550 \<le> c \<and> c < 5000) \<and> timing_bin c \<noteq> 11"
  using timing_stats_of_calls(1,2,4) [where cs = cs] timing_stats_of_calls(3) [where cs = cs and b = b] timing_bin_cases(1,5) [of c] assms
  by (simp add: Let_def)

end
