(* ===== verification/RandomDist.thy ===== *)
theory RandomDist
  imports Hashing
begin

text \<open>
  Sampling of the benchmark's key distributions (\<open>random_dist.c\<close>). The cumulative weights
  of the Zipf ranges are double precision numbers; all the sampling does with them is to
  compare them, so their type is any linear order here, and the draw
  \<open>rand_double () * total_weight\<close> is a function \<open>scale\<close> of the 64 random bits. The
  initialisation of the ranges calls \<open>pow\<close> and \<open>floor\<close> and is not modelled.
\<close>

datatype dist_type = DIST_UNIFORM | DIST_ZIPF | DIST_ZIPF_RANK

record 'w zipf_range =
  weight_cumsum :: 'w
  range_start :: u64
  range_size :: u64

record 'w rand_distribution =
  zipf_ranges :: "'w zipf_range list"
  dist_max :: u64
  dist_type :: dist_type

definition rand_uniform_init :: "'w rand_distribution \<Rightarrow> u64 \<Rightarrow> 'w rand_distribution" where
  "rand_uniform_init dist mx = dist\<lparr>dist_max := mx, dist_type := DIST_UNIFORM\<rparr>"

text \<open>The permutation that spreads the common values.\<close>

definition mix :: "u64 \<Rightarrow> u64" where
  "mix x =
     (let x = x XOR drop_bit 33 x;
          x = x * 0xC2B2AE3D27D4EB4F;
          x = x XOR drop_bit 29 x;
          x = x * 0x165667B19E3779F9
      in x XOR drop_bit 32 x)"

text \<open>The binary search for the range of the draw \<open>x\<close>, in \<open>low..<high\<close>.\<close>

function find_range :: "('w::linorder) list \<Rightarrow> 'w \<Rightarrow> nat \<Rightarrow> nat \<Rightarrow> nat" where
  "find_range weights x low high =
     (if high - low \<le> 1 then low
      else let mid = (low + high) div 2 - 1
           in if x < weights ! mid then find_range weights x low (mid + 1)
              else find_range weights x (mid + 1) high)"
  by pat_completeness auto
termination
  by (relation "measure (\<lambda>(weights, x, low, high). high - low)") auto

declare find_range.simps [simp del]

definition rand_dist :: "(u64 \<Rightarrow> 'w::linorder) \<Rightarrow> 'w rand_distribution \<Rightarrow> u64 \<Rightarrow> u64 \<times> u64" where
  "rand_dist scale dist state =
     (if dist_type dist = DIST_UNIFORM
      then (let (r, state) = rand_uint64 state in (r mod dist_max dist, state))
      else let (r, state) = rand_uint64 state;
               x = scale r;
               range_num = find_range (map weight_cumsum (zipf_ranges dist)) x 0 (length (zipf_ranges dist));
               range = zipf_ranges dist ! range_num;
               (r, state) = rand_uint64 state;
               zipf_rand = r mod range_size range + range_start range
           in if dist_type dist = DIST_ZIPF then (mix zipf_rand mod dist_max dist, state) else (zipf_rand, state))"

subsection \<open>The binary search\<close>

text \<open>
  The ranges are sorted by their cumulative weights; the draw is below the last one, which is
  the total. The range found is the first whose cumulative weight exceeds the draw.
\<close>

lemma find_range_bounds:
  assumes sorted: "sorted weights" and range: "low < high" "high \<le> length weights"
    and high: "x < weights ! (high - 1)" and low: "\<forall>j<low. weights ! j \<le> x"
  shows "find_range weights x low high < high \<and> x < weights ! find_range weights x low high \<and>
    (\<forall>j<find_range weights x low high. weights ! j \<le> x)"
  using assms
proof (induction weights x low high rule: find_range.induct)
  case (1 weights x low high)
  show ?case
  proof (cases "high - low \<le> 1")
    case True
    then have "high - 1 = low" using 1(4) by simp
    then show ?thesis using True 1 by (simp add: find_range.simps [of weights x low high])
  next
    case False
    let ?mid = "(low + high) div 2 - 1"
    have mid: "low \<le> ?mid" "?mid + 1 < high" using False by simp_all
    show ?thesis
    proof (cases "x < weights ! ?mid")
      case True
      have "find_range weights x low high = find_range weights x low (?mid + 1)"
        using False True by (simp add: find_range.simps [of weights x low high] Let_def)
      moreover have "find_range weights x low (?mid + 1) < ?mid + 1 \<and> x < weights ! find_range weights x low (?mid + 1) \<and>
          (\<forall>j<find_range weights x low (?mid + 1). weights ! j \<le> x)"
        using 1(1) [OF False refl True 1(3)] mid 1(5) True 1(7) by simp
      ultimately show ?thesis using mid by auto
    next
      case le: False
      have "find_range weights x low high = find_range weights x (?mid + 1) high"
        using False le by (simp add: find_range.simps [of weights x low high] Let_def)
      moreover have "\<forall>j<?mid + 1. weights ! j \<le> x"
      proof (intro allI impI)
        fix j assume "j < ?mid + 1"
        then have "weights ! j \<le> weights ! ?mid" using mid 1(3,5) by (intro sorted_nth_mono) auto
        then show "weights ! j \<le> x" using le by simp
      qed
      ultimately show ?thesis using 1(2) [OF False refl le 1(3)] mid 1(5,6) by simp
    qed
  qed
qed

theorem find_range_correct:
  assumes "sorted weights" and "weights \<noteq> []" and "x < last weights"
  shows "find_range weights x 0 (length weights) < length weights"
    and "x < weights ! find_range weights x 0 (length weights)"
    and "j < find_range weights x 0 (length weights) \<Longrightarrow> weights ! j \<le> x"
  using find_range_bounds [OF assms(1), of 0 "length weights" x] assms by (auto simp: last_conv_nth)

subsection \<open>The permutation\<close>

lemma xor_shift_inject:
  assumes k: "0 < k" and eq: "x XOR drop_bit k x = y XOR drop_bit k (y :: u64)"
  shows "x = y"
proof (rule bit_word_eqI)
  have step: "bit x n = bit y n" if "bit x (n + k) = bit y (n + k)" for n
  proof -
    have "bit (x XOR drop_bit k x) n = bit (y XOR drop_bit k y) n" using eq by simp
    then show ?thesis using that by (auto simp: bit_simps add.commute)
  qed
  have "bit x n = bit y n" for n
  proof (induction "64 - n" arbitrary: n rule: less_induct)
    case less
    show ?case
    proof (cases "n < 64")
      case True
      then have "64 - (n + k) < 64 - n" using k by simp
      then have "bit x (n + k) = bit y (n + k)" by (rule less)
      then show ?thesis by (rule step)
    next
      case False
      then show ?thesis using bit_imp_le_length [of x n] bit_imp_le_length [of y n] by auto
    qed
  qed
  then show "bit x n = bit y n" for n .
qed

lemma mult_inject:
  assumes inv: "c * d = (1 :: u64)" and eq: "x * c = y * c"
  shows "x = y"
proof -
  have "x * (c * d) = y * (c * d)" using eq by (simp only: mult.assoc [symmetric])
  then show ?thesis by (simp only: inv mult_1_right)
qed

theorem mix_inject: "mix x = mix y \<longleftrightarrow> x = y"
proof
  assume eq: "mix x = mix y"
  have m1: "(0xC2B2AE3D27D4EB4F :: u64) * 0x0BA79078168D4BAF = 1" by simp
  have m2: "(0x165667B19E3779F9 :: u64) * 0xE9E9F4C41D6DF849 = 1" by simp
  show "x = y"
    by (rule xor_shift_inject [of 33, OF _ mult_inject [OF m1, OF xor_shift_inject [of 29, OF _ mult_inject [OF m2,
        OF xor_shift_inject [of 32, OF _ eq [unfolded mix_def Let_def]]]]]]) simp_all
qed simp

text \<open>The values drawn are below the bound; the uniform draw and the spread one are in range.\<close>

theorem rand_dist_bound:
  assumes "dist_type dist \<noteq> DIST_ZIPF_RANK" and "0 < dist_max dist"
  shows "fst (rand_dist scale dist state) < dist_max dist"
  using assms word_mod_less_divisor [of "dist_max dist"]
  by (cases "dist_type dist") (auto simp: rand_dist_def Let_def case_prod_beta)

end
