(* ===== verification/Dataset.thy ===== *)
theory Dataset
  imports KeyOrder
begin

text \<open>
  The datasets of the tests and benchmarks (\<open>dataset.c\<close>): keys drawn at random or read from a
  file, and the buffer of key objects built from them. A stream is the list of the bytes still
  to be read, and the file system, a parameter, gives the bytes of a file. The memory of the
  growing buffer is a list of bytes; a pointer into it is an offset. Closing the stream and
  the messages for the user are left out.
\<close>

subsection \<open>The library functions used\<close>

text \<open>A read of one item: all of it or nothing, and nothing of a size of zero.\<close>

definition fread :: "nat \<Rightarrow> u8 list \<Rightarrow> u8 list option \<times> u8 list" where
  "fread n file =
     (if n = 0 then (None, file) else if length file < n then (None, []) else (Some (take n file), drop n file))"

definition is_digit :: "char \<Rightarrow> bool" where
  "is_digit c \<longleftrightarrow> 48 \<le> (of_char c :: nat) \<and> (of_char c :: nat) \<le> 57"

definition is_space :: "char \<Rightarrow> bool" where
  "is_space c \<longleftrightarrow> (of_char c :: nat) \<in> {9, 10, 11, 12, 13, 32}"

fun read_digits :: "int \<Rightarrow> string \<Rightarrow> int \<times> string" where
  "read_digits acc [] = (acc, [])"
| "read_digits acc (c # cs) = (if is_digit c then read_digits (acc * 10 + (of_char c - 48)) cs else (acc, c # cs))"

text \<open>The value and the rest of the string, which is the whole string when there is no number.\<close>

definition strtol :: "string \<Rightarrow> int \<times> string" where
  "strtol s =
     (let t = dropWhile is_space s;
          negative = (t \<noteq> [] \<and> hd t = CHR ''-'');
          u = (if t \<noteq> [] \<and> hd t \<in> {CHR ''-'', CHR ''+''} then tl t else t)
      in if u = [] \<or> \<not> is_digit (hd u) then (0, s)
         else let (value, rest) = read_digits 0 u;
                  value = (if negative then - value else value)
              in (max (- (2 ^ 63)) (min (2 ^ 63 - 1) value), rest))"

definition atoi :: "string \<Rightarrow> u32" where
  "atoi s = word_of_int (fst (strtol s))"

primrec random_bytes :: "nat \<Rightarrow> u64 \<Rightarrow> u8 list \<times> u64" where
  "random_bytes 0 state = ([], state)"
| "random_bytes (Suc n) state =
     (let (value, state) = rand_dword state;
          (bytes, state) = random_bytes n state
      in (ucast (value mod 256) # bytes, state))"

subsection \<open>Reading keys\<close>

abbreviation (input) DATASET_ALL_KEYS :: u64 where "DATASET_ALL_KEYS \<equiv> - 1"
abbreviation (input) DATASET_DEFAULT_SIZE :: u64 where "DATASET_DEFAULT_SIZE \<equiv> 10000000"
abbreviation (input) MAX_KEY_SIZE :: nat where "MAX_KEY_SIZE \<equiv> 256"
abbreviation (input) RAND_VAR_MAX_SIZE :: u64 where "RAND_VAR_MAX_SIZE \<equiv> 16"

record blob =
  blob_size :: u32
  blob_bytes :: "u8 list"

text \<open>The functions that read a key, each with the context it is given.\<close>

datatype key_reader = Read_random u32 | Read_rand_var | Read_file "u8 list"

record dataset =
  ds_num_keys :: u64
  ds_total_size :: u64
  ds_kvs :: "u8 list option"
  ds_kv_pointers :: "nat list"
  ds_reader :: key_reader

definition blob_fill :: "blob \<Rightarrow> u8 list \<Rightarrow> blob" where
  "blob_fill buf bytes = buf\<lparr>blob_bytes := bytes @ drop (length bytes) (blob_bytes buf)\<rparr>"

definition random_dataset_read_key :: "u32 \<Rightarrow> blob \<Rightarrow> u64 \<Rightarrow> bool \<times> blob \<times> u64" where
  "random_dataset_read_key key_len buf rng =
     (let (bytes, rng) = random_bytes (nat (sint key_len)) rng
      in (True, (blob_fill buf bytes)\<lparr>blob_size := key_len\<rparr>, rng))"

definition rand_var_read_key :: "blob \<Rightarrow> u64 \<Rightarrow> bool \<times> blob \<times> u64" where
  "rand_var_read_key buf rng =
     (let (r, rng) = rand_uint64 rng;
          key_len = ucast (r mod RAND_VAR_MAX_SIZE) :: u32;
          (bytes, rng) = random_bytes (nat (sint key_len)) rng
      in (True, (blob_fill buf bytes)\<lparr>blob_size := key_len\<rparr>, rng))"

definition file_dataset_read_key :: "u8 list \<Rightarrow> blob \<Rightarrow> bool \<times> blob \<times> u8 list" where
  "file_dataset_read_key file buf =
     (case fread 4 file of
        (None, file) \<Rightarrow> (False, buf, file)
      | (Some size_bytes, file) \<Rightarrow>
          (let size = le_word size_bytes :: u32
           in if unat size > MAX_KEY_SIZE then (False, buf, file)
              else let buf = buf\<lparr>blob_size := size\<rparr>
                   in case fread (unat size) file of
                        (None, file) \<Rightarrow> (False, buf, file)
                      | (Some bytes, file) \<Rightarrow> (True, blob_fill buf bytes, file)))"

definition read_key :: "dataset \<Rightarrow> blob \<Rightarrow> u64 \<Rightarrow> bool \<times> dataset \<times> blob \<times> u64" where
  "read_key dataset buf rng =
     (case ds_reader dataset of
        Read_random key_len \<Rightarrow> (let (ok, buf, rng) = random_dataset_read_key key_len buf rng in (ok, dataset, buf, rng))
      | Read_rand_var \<Rightarrow> (let (ok, buf, rng) = rand_var_read_key buf rng in (ok, dataset, buf, rng))
      | Read_file file \<Rightarrow>
          (let (ok, buf, file) = file_dataset_read_key file buf in (ok, dataset\<lparr>ds_reader := Read_file file\<rparr>, buf, rng)))"

subsection \<open>Opening a dataset\<close>

definition init_random_dataset :: "dataset \<Rightarrow> u64 \<Rightarrow> u32 \<Rightarrow> bool \<times> dataset" where
  "init_random_dataset dataset num_keys key_len =
     (let num_keys = (if num_keys = DATASET_ALL_KEYS then DATASET_DEFAULT_SIZE else num_keys)
      in if sint key_len > int MAX_KEY_SIZE then (False, dataset)
         else (True, dataset\<lparr>ds_num_keys := num_keys, ds_reader := Read_random key_len\<rparr>))"

definition init_rand_var_dataset :: "dataset \<Rightarrow> u64 \<Rightarrow> bool \<times> dataset" where
  "init_rand_var_dataset dataset num_keys =
     (let num_keys = (if num_keys = DATASET_ALL_KEYS then DATASET_DEFAULT_SIZE else num_keys)
      in (True, dataset\<lparr>ds_num_keys := num_keys, ds_reader := Read_rand_var\<rparr>))"

definition init_dataset :: "(string \<Rightarrow> u8 list option) \<Rightarrow> dataset \<Rightarrow> string \<Rightarrow> u64 \<Rightarrow> bool \<times> dataset" where
  "init_dataset fopen dataset name keys_requested =
     (let dataset = dataset\<lparr>ds_kvs := None\<rparr>
      in if name = ''rand-var'' then init_rand_var_dataset dataset keys_requested
         else if take 5 name = ''rand-''
         then (if snd (strtol (drop 5 name)) \<noteq> [] then (False, dataset)
               else init_random_dataset dataset keys_requested (atoi (drop 5 name)))
         else case fopen name of
                None \<Rightarrow> (False, dataset)
              | Some file \<Rightarrow>
                  (case fread 8 file of
                     (None, file) \<Rightarrow> (False, dataset)
                   | (Some bytes, file) \<Rightarrow>
                       (let num_keys = le_word bytes;
                            dataset = dataset\<lparr>ds_num_keys := (if num_keys > keys_requested then keys_requested else num_keys)\<rparr>
                        in case fread 8 file of
                             (None, file) \<Rightarrow> (False, dataset)
                           | (Some bytes, file) \<Rightarrow>
                               (True, dataset\<lparr>ds_total_size := le_word bytes, ds_reader := Read_file file\<rparr>))))"

subsection \<open>The key objects\<close>

definition encode_kv :: "ct_kv \<Rightarrow> u8 list" where
  "encode_kv kv = le_bytes 4 (key_size kv) @ le_bytes 4 (value_size kv) @ kv_bytes kv"

definition load_kv :: "u8 list \<Rightarrow> nat \<Rightarrow> ct_kv" where
  "load_kv memory pos =
     \<lparr>key_size = le_word (take 4 (drop pos memory)), value_size = le_word (take 4 (drop (pos + 4) memory)),
      kv_bytes = drop (pos + 8) memory\<rparr>"

definition store_bytes :: "u8 list \<Rightarrow> nat \<Rightarrow> u8 list \<Rightarrow> u8 list" where
  "store_bytes memory pos bytes = take pos memory @ bytes @ drop (pos + length bytes) memory"

text \<open>The object of one key: sizes, the bytes of the key, and a value of bytes \<open>0xAB\<close>.\<close>

definition build_kv :: "blob \<Rightarrow> u32 \<Rightarrow> ct_kv" where
  "build_kv key_buf value_len =
     (kv_init \<lparr>key_size = 0, value_size = 0, kv_bytes = []\<rparr> (scast (blob_size key_buf)) (scast value_len))
       \<lparr>kv_bytes := take (unat (scast (blob_size key_buf) :: u64)) (blob_bytes key_buf) @
          replicate (unat (scast value_len :: u64)) 0xAB\<rparr>"

primrec fill_kvs :: "nat \<Rightarrow> dataset \<Rightarrow> blob \<Rightarrow> u32 \<Rightarrow> dynamic_buffer \<Rightarrow> u8 list \<Rightarrow> u64 \<Rightarrow> bool \<times> dataset \<times> u8 list \<times> u64" where
  "fill_kvs 0 dataset key_buf value_len kvs_buf memory rng = (True, dataset, memory, rng)"
| "fill_kvs (Suc n) dataset key_buf value_len kvs_buf memory rng =
     (let (ok, dataset, key_buf, rng) = read_key dataset key_buf rng
      in if \<not> ok then (False, dataset, memory, rng)
         else let kv_len = kv_required_size (scast (blob_size key_buf)) (scast value_len);
                  (buf_pos, kvs_buf') = dynamic_buffer_extend kvs_buf (unat kv_len);
                  memory = memory @ replicate (db_size kvs_buf' - db_size kvs_buf) 0
              in fill_kvs n dataset key_buf value_len kvs_buf'
                   (store_bytes memory buf_pos (encode_kv (build_kv key_buf value_len))) rng)"

primrec collect_pointers :: "nat \<Rightarrow> u8 list \<Rightarrow> nat \<Rightarrow> nat list" where
  "collect_pointers 0 memory buf_pos = []"
| "collect_pointers (Suc n) memory buf_pos =
     buf_pos # collect_pointers n memory (buf_pos + unat (kv_size (load_kv memory buf_pos)))"

definition build_kvs :: "dataset \<Rightarrow> u32 \<Rightarrow> u64 \<Rightarrow> dataset \<times> u64" where
  "build_kvs dataset value_len rng =
     (if ds_kvs dataset \<noteq> None then (dataset, rng)
      else let n = unat (ds_num_keys dataset);
               key_buf = \<lparr>blob_size = 0, blob_bytes = replicate MAX_KEY_SIZE 0\<rparr>;
               (ok, dataset, memory, rng) =
                 fill_kvs n dataset key_buf value_len dynamic_buffer_init (replicate (db_size dynamic_buffer_init) 0) rng
           in if \<not> ok then (dataset\<lparr>ds_kv_pointers := replicate n 0\<rparr>, rng)
              else (dataset\<lparr>ds_kv_pointers := collect_pointers n memory 0, ds_kvs := Some memory\<rparr>, rng))"

subsection \<open>Files of keys\<close>

definition file_key :: "u8 list \<Rightarrow> u8 list" where
  "file_key key = le_bytes 4 (of_nat (length key) :: u32) @ key"

definition dataset_file :: "u8 list list \<Rightarrow> u64 \<Rightarrow> u8 list" where
  "dataset_file keys key_bytes =
     le_bytes 8 (of_nat (length keys) :: u64) @ le_bytes 8 key_bytes @ concat (map file_key keys)"

definition good_key :: "u8 list \<Rightarrow> bool" where
  "good_key key \<longleftrightarrow> key \<noteq> [] \<and> length key \<le> MAX_KEY_SIZE"

lemma unat_scast_u32:
  assumes "unat (x :: u32) < 2 ^ 31"
  shows "unat (scast x :: u64) = unat x"
  using unat_kv_key_size [of "\<lparr>key_size = x, value_size = 0, kv_bytes = replicate (unat x) 0\<rparr>"] assms
  by (simp add: kv_key_size_def wf_kv_def)

lemma read_file_key:
  assumes "good_key key" and "length (blob_bytes buf) = MAX_KEY_SIZE"
  shows "\<exists>buf'. file_dataset_read_key (file_key key @ file) buf = (True, buf', file) \<and> length (blob_bytes buf') = MAX_KEY_SIZE \<and>
    blob_size buf' = of_nat (length key) \<and> take (length key) (blob_bytes buf') = key"
proof -
  have len: "length key \<le> 256" "0 < length key" using assms(1) by (simp_all add: good_key_def)
  then have size: "unat (of_nat (length key) :: u32) = length key" by (simp add: unat_of_nat)
  have word: "le_word (le_bytes 4 (of_nat (length key) :: u32)) = (of_nat (length key) :: u32)" by (rule le_word_le_bytes) simp
  have "fread 4 (file_key key @ file) = (Some (le_bytes 4 (of_nat (length key) :: u32)), key @ file)"
    by (simp add: file_key_def fread_def)
  moreover have "fread (length key) (key @ file) = (Some key, file)" using len by (simp add: fread_def)
  ultimately show ?thesis using len assms(2) by (simp add: file_dataset_read_key_def word size Let_def blob_fill_def)
qed

text \<open>An empty key cannot be read, as a read of size zero reports no item.\<close>

lemma empty_key_fails: "fst (file_dataset_read_key (file_key [] @ file) buf) = False"
proof -
  have "le_word (le_bytes 4 (0 :: u32)) = (0 :: u32)" by (rule le_word_le_bytes) simp
  then show ?thesis by (simp add: file_dataset_read_key_def file_key_def fread_def Let_def)
qed

text \<open>What the buffer holds for a key, and what is read back from it.\<close>

definition stored_key :: "u32 \<Rightarrow> u8 list \<Rightarrow> u8 list" where
  "stored_key value_len key =
     le_bytes 4 (of_nat (length key) :: u32) @ le_bytes 4 value_len @ key @ replicate (unat value_len) 0xAB"

lemma length_stored_key [simp]: "length (stored_key value_len key) = 8 + length key + unat value_len"
  by (simp add: stored_key_def)

lemma good_key_size:
  assumes "good_key key"
  shows "unat (of_nat (length key) :: u32) = length key" and "length key < 2 ^ 31"
  using assms by (simp_all add: good_key_def unat_of_nat)

lemma encode_built:
  assumes key: "good_key key" and v: "unat value_len < 2 ^ 31"
    and buf: "blob_size buf = of_nat (length key)" "take (length key) (blob_bytes buf) = key"
  shows "encode_kv (build_kv buf value_len) = stored_key value_len key"
    and "unat (kv_required_size (scast (blob_size buf)) (scast value_len)) = length (stored_key value_len key)"
proof -
  note size = good_key_size [OF key]
  have k: "unat (scast (blob_size buf) :: u64) = length key" using unat_scast_u32 [of "blob_size buf"] size buf(1) by simp
  have w: "unat (scast value_len :: u64) = unat value_len" by (rule unat_scast_u32 [OF v])
  have down: "ucast (scast x :: u64) = x" for x :: u32 by (rule bit_word_eqI) (simp add: bit_simps)
  show "encode_kv (build_kv buf value_len) = stored_key value_len key"
    using k w buf by (simp add: encode_kv_def build_kv_def kv_init_def stored_key_def down)
  show "unat (kv_required_size (scast (blob_size buf)) (scast value_len)) = length (stored_key value_len key)"
    using k w v key by (simp add: kv_required_size_def good_key_def unat_word_ariths)
qed

lemma load_stored:
  fixes before :: "u8 list"
  assumes key: "good_key key"
  shows "load_kv (before @ stored_key value_len key @ after) (length before) =
    \<lparr>key_size = of_nat (length key), value_size = value_len, kv_bytes = key @ replicate (unat value_len) 0xAB @ after\<rparr>"
proof -
  have word: "le_word (le_bytes 4 x) = (x :: u32)" for x by (rule le_word_le_bytes) simp
  show ?thesis by (simp add: load_kv_def stored_key_def word)
qed

subsection \<open>Building the objects of a file\<close>

lemma fill_kvs_file:
  assumes "\<forall>key\<in>set keys. good_key key" and v: "unat value_len < 2 ^ 31" and "ds_reader dataset = Read_file (concat (map file_key keys) @ file)"
    and "length (blob_bytes buf) = MAX_KEY_SIZE" and "db_pos kvs_buf \<le> db_size kvs_buf" and "length memory = db_size kvs_buf"
  shows "\<exists>memory' after. fill_kvs (length keys) dataset buf value_len kvs_buf memory rng =
      (True, dataset\<lparr>ds_reader := Read_file file\<rparr>, memory', rng) \<and>
    memory' = take (db_pos kvs_buf) memory @ concat (map (stored_key value_len) keys) @ after"
  using assms(1,3-6)
proof (induction keys arbitrary: dataset buf kvs_buf memory)
  case Nil
  then have "dataset\<lparr>ds_reader := Read_file file\<rparr> = dataset" by simp
  then show ?case by (auto intro: exI [of _ "drop (db_pos kvs_buf) memory"])
next
  case (Cons key keys)
  have key: "good_key key" using Cons.prems(1) by simp
  obtain buf' where b: "file_dataset_read_key (file_key key @ concat (map file_key keys) @ file) buf =
      (True, buf', concat (map file_key keys) @ file)" "length (blob_bytes buf') = MAX_KEY_SIZE"
    "blob_size buf' = of_nat (length key)" "take (length key) (blob_bytes buf') = key"
    using read_file_key [OF key Cons.prems(3)] by blast
  let ?ds = "dataset\<lparr>ds_reader := Read_file (concat (map file_key keys) @ file)\<rparr>"
  have r: "read_key dataset buf rng = (True, ?ds, buf', rng)" using b(1) Cons.prems(2) by (simp add: read_key_def)
  let ?o = "stored_key value_len key"
  note e = encode_built [OF key v b(3,4)]
  obtain pos kvs_buf' where x: "dynamic_buffer_extend kvs_buf (length ?o) = (pos, kvs_buf')"
    by (cases "dynamic_buffer_extend kvs_buf (length ?o)")
  note f = dynamic_buffer_extend_fits [OF x Cons.prems(4)]
  let ?m = "memory @ replicate (db_size kvs_buf' - db_size kvs_buf) 0"
  have lm: "length ?m = db_size kvs_buf'" using Cons.prems(5) f(4) by simp
  have ls: "length (store_bytes ?m pos ?o) = db_size kvs_buf'" using lm f(2,3) by (simp add: store_bytes_def)
  have ts: "take (db_pos kvs_buf') (store_bytes ?m pos ?o) = take (db_pos kvs_buf) memory @ ?o"
    using lm f(1-3) Cons.prems(4,5) by (simp add: store_bytes_def)
  have "\<forall>key\<in>set keys. good_key key" using Cons.prems(1) by simp
  from Cons.IH [OF this _ b(2) f(3) ls, of ?ds] obtain memory' after where
    IH: "fill_kvs (length keys) ?ds buf' value_len kvs_buf' (store_bytes ?m pos ?o) rng =
      (True, ?ds\<lparr>ds_reader := Read_file file\<rparr>, memory', rng)"
    "memory' = take (db_pos kvs_buf') (store_bytes ?m pos ?o) @ concat (map (stored_key value_len) keys) @ after" by auto
  have "fill_kvs (length (key # keys)) dataset buf value_len kvs_buf memory rng =
      (True, dataset\<lparr>ds_reader := Read_file file\<rparr>, memory', rng)"
    using r x e IH(1) by simp
  moreover have "memory' = take (db_pos kvs_buf) memory @ concat (map (stored_key value_len) (key # keys)) @ after"
    using IH(2) ts by simp
  ultimately show ?case by blast
qed

definition holds_key :: "u32 \<Rightarrow> u8 list \<Rightarrow> nat \<Rightarrow> u8 list \<Rightarrow> bool" where
  "holds_key value_len memory pos key \<longleftrightarrow> (let kv = load_kv memory pos in
     wf_kv kv \<and> kv_key kv = key \<and> value_size kv = value_len \<and>
     take (unat value_len) (kv_value_bytes kv) = replicate (unat value_len) 0xAB)"

lemma pointers_hold_keys:
  assumes "\<forall>key\<in>set keys. good_key key" and v: "unat value_len < 2 ^ 31"
    and "memory = before @ concat (map (stored_key value_len) keys) @ after"
  shows "list_all2 (holds_key value_len memory) (collect_pointers (length keys) memory (length before)) keys"
  using assms(1,3)
proof (induction keys arbitrary: before)
  case (Cons key keys)
  have key: "good_key key" using Cons.prems(1) by simp
  note size = good_key_size [OF key]
  let ?kv = "\<lparr>key_size = of_nat (length key), value_size = value_len,
    kv_bytes = key @ replicate (unat value_len) 0xAB @ concat (map (stored_key value_len) keys) @ after\<rparr>"
  have kv: "load_kv memory (length before) = ?kv" using load_stored [OF key] Cons.prems(2) by simp
  have wf: "wf_kv ?kv" using size by (simp add: wf_kv_def)
  have "unat (scast (key_size ?kv) :: u64) = length key" using unat_scast_u32 [of "key_size ?kv"] size by simp
  moreover have "unat (scast value_len :: u64) = unat value_len" by (rule unat_scast_u32 [OF v])
  ultimately have ks: "unat (kv_size ?kv) = length (stored_key value_len key)" "unat (kv_key_size ?kv) = length key"
    using v key by (simp_all add: kv_size_def kv_key_size_def good_key_def unat_word_ariths)
  have "holds_key value_len memory (length before) key"
    using wf size ks(2) by (simp add: holds_key_def kv kv_key_def kv_value_bytes_def)
  moreover have "list_all2 (holds_key value_len memory)
      (collect_pointers (length keys) memory (length (before @ stored_key value_len key))) keys"
    by (rule Cons.IH) (use Cons.prems in simp_all)
  ultimately show ?case using ks(1) by (simp add: kv)
qed simp

theorem dataset_file_read:
  fixes requested :: u64
  assumes fl: "fopen name = Some (dataset_file keys key_bytes)" "take 5 name \<noteq> ''rand-''"
    and keys: "\<forall>key\<in>set keys. good_key key" "length keys < 2 ^ 64" and v: "unat value_len < 2 ^ 31"
  defines "n \<equiv> min (length keys) (unat requested)"
  shows "\<exists>dataset1 dataset2 memory. init_dataset fopen dataset name requested = (True, dataset1) \<and>
    build_kvs dataset1 value_len rng = (dataset2, rng) \<and> ds_kvs dataset2 = Some memory \<and>
    list_all2 (holds_key value_len memory) (ds_kv_pointers dataset2) (take n keys)"
proof -
  have word: "le_word (le_bytes 8 x) = (x :: u64)" for x by (rule le_word_le_bytes) simp
  have read: "fread 8 (le_bytes 8 (x :: u64) @ rest) = (Some (le_bytes 8 x), rest)" for x rest by (simp add: fread_def)
  have num: "unat (of_nat (length keys) :: u64) = length keys" using keys(2) by (simp add: unat_of_nat)
  let ?num = "if (of_nat (length keys) :: u64) > requested then requested else of_nat (length keys)"
  have n: "unat ?num = n" using num by (auto simp: n_def word_less_nat_alt min_def)
  let ?ds = "dataset\<lparr>ds_kvs := None, ds_num_keys := ?num, ds_total_size := key_bytes,
    ds_reader := Read_file (concat (map file_key keys))\<rparr>"
  have "name \<noteq> ''rand-var''" using fl(2) by auto
  then have init: "init_dataset fopen dataset name requested = (True, ?ds)"
    using fl by (simp add: init_dataset_def dataset_file_def read word Let_def)
  let ?buf = "\<lparr>blob_size = 0, blob_bytes = replicate MAX_KEY_SIZE 0\<rparr> :: blob"
  have good: "\<forall>key\<in>set (take n keys). good_key key" using keys(1) by (meson in_set_takeD)
  have len: "length (take n keys) = n" by (simp add: n_def)
  have "concat (map file_key keys) = concat (map file_key (take n keys)) @ concat (map file_key (drop n keys))"
    by (metis append_take_drop_id concat_append map_append)
  then have "ds_reader ?ds = Read_file (concat (map file_key (take n keys)) @ concat (map file_key (drop n keys)))" by simp
  from fill_kvs_file [OF good v this, of ?buf dynamic_buffer_init "replicate 1024 0" rng] obtain memory after where
    m: "fill_kvs n ?ds ?buf value_len dynamic_buffer_init (replicate 1024 0) rng =
      (True, ?ds\<lparr>ds_reader := Read_file (concat (map file_key (drop n keys)))\<rparr>, memory, rng)"
    "memory = concat (map (stored_key value_len) (take n keys)) @ after"
    unfolding len by (auto simp: dynamic_buffer_init_def)
  have "list_all2 (holds_key value_len memory) (collect_pointers n memory 0) (take n keys)"
    using pointers_hold_keys [OF good v, of memory "[]" after] m(2) len by simp
  moreover have "db_size dynamic_buffer_init = 1024" by (simp add: dynamic_buffer_init_def)
  ultimately show ?thesis using init m(1) n by (simp add: build_kvs_def Let_def)
qed

end
