(* ===== verification/Spec2Isabelle.thy ===== *)
theory Spec2Isabelle
  imports Prelude Bits Entry Hashing Keys KeyOrder Lookup Locks Threads Table Colors Content LockRefs Writes Relocate AddEntry TableMap Finger Insert CreateLeaf Api Iterator Alloc Verify Checker CheckerSound JumpNodes Prefetch Paths Subtrie PointOps FreshTrie Shape Walk Tracked Reshape LeafOrder LeafList NodeRefs Graft NewLeaf Propagate GraftLeaf CreateSteps PublishLeaf LeafLocks CreateInBitmap AddAlone Update VectorizedOps VectorizedTable IterWalk Scan Vectorized InsertBelow VectorizedInsert BitmapTrie Sched Stats RandomDist Dataset
begin

text \<open>
  The Cuckoo Trie (\<open>src/\<close>) is an ordered index over keys of at most 256 bytes: a trie whose
  nodes are the entries of one cuckoo hash table, so that a node is found by the hash of its
  prefix and not through a pointer. These theories model the library in its release build
  with \<open>MULTITHREADING\<close>, from the bytes of an entry to the operations of \<open>cuckoo_trie.h\<close>,
  and prove what its parts promise each other.

  \<^bold>\<open>Parts of the program and their theories.\<close>
  \<^item> \<open>Prelude\<close>, \<open>Bits\<close> (\<open>util.c\<close>, \<open>util.h\<close>): bytes and little-endian words; bit strings, bit
    copies, the growing buffer.
  \<^item> \<open>Entry\<close> (\<open>cuckoo_trie_internal.h\<close>, \<open>config.h\<close>): an entry is a record of its 15 bytes, with
    the accessors of the header file; a bucket is four entries and the 32-bit word of write
    lock and sequence counter; the trie is the list of its buckets, the last of them for the
    minimal leaf. A pointer to an entry is the pair of bucket and cell number, and
    \<open>entry_address_decode\<close> justifies the code's way back from addresses.
  \<^item> \<open>Hashing\<close> (\<open>main.c\<close>, \<open>random.c\<close>): the hash of a prefix, the two buckets of an entry, the
    table of offsets between them.
  \<^item> \<open>Keys\<close>, \<open>KeyOrder\<close>, \<open>Prefetch\<close> (\<open>key_object.h\<close>, \<open>main.c\<close>): key objects, keys as sequences of
    5-bit symbols, the order of both, and the prefetcher that expands symbols in blocks.
  \<^item> \<open>Lookup\<close>, \<open>Colors\<close> (\<open>main.c\<close>, \<open>main_vectorized.c\<close>): the searches of a bucket and of a
    pair, by color and by parent, scalar and with SIMD lanes; the unused color of a pair.
  \<^item> \<open>Locks\<close>, \<open>LockRefs\<close>, \<open>Threads\<close> (\<open>atomics.c\<close>, \<open>atomics.h\<close>): entry writes, the lock manager of
    a thread with its reference counts, and the interleavings of several threads as a step
    relation.
  \<^item> \<open>Table\<close>, \<open>Content\<close>, \<open>Writes\<close>, \<open>Relocate\<close>, \<open>AddEntry\<close>, \<open>AddAlone\<close>, \<open>TableMap\<close>
    (\<open>main.c\<close>): the hash table. Its
    abstract view is \<open>table_content\<close>, the multiset of the entries in use, each with its home
    bucket and without the flag that says on which side of the pair it is stored; the
    invariant \<open>table_inv\<close> adds that home bucket, tag and color determine an entry.
  \<^item> \<open>Finger\<close>, \<open>Paths\<close>, \<open>Insert\<close>, \<open>CreateLeaf\<close>, \<open>JumpNodes\<close> (\<open>main.c\<close>, \<open>main.h\<close>): the path of a
    key, the descent, the predecessor search, and the changes of the trie's shape.
  \<^item> \<open>Api\<close>, \<open>Iterator\<close>, \<open>Alloc\<close> (\<open>main.c\<close>): the operations of the library.
  \<^item> \<open>Subtrie\<close>, \<open>PointOps\<close>, \<open>FreshTrie\<close>: the abstract specification. \<open>trie_holds heap trie K\<close> says
    that the trie stores the set \<open>K\<close> of key objects, \<open>abs_map\<close> is the finite map it stands for.
  \<^item> \<open>Shape\<close>, \<open>Walk\<close>, \<open>Tracked\<close>, \<open>Reshape\<close>, \<open>Update\<close>: the trie as a map from prefixes to nodes
    (\<open>trie_shape\<close>), the descent along a key on it, the copies of its nodes while other entries
    are written, and the effect of an update of a present key; \<open>trie_map\<close> says that a trie
    stands for a map from keys to key objects.
  \<^item> \<open>LeafOrder\<close>, \<open>LeafList\<close>, \<open>IterWalk\<close>, \<open>Scan\<close>: the order of the leaves, the locators that
    link each leaf to the next and each bitmap to its greatest leaf (\<open>ordered_trie\<close>), the
    predecessor search on them, and range scans.
  \<^item> \<open>NodeRefs\<close>, \<open>Graft\<close>, \<open>NewLeaf\<close>, \<open>Propagate\<close>, \<open>GraftLeaf\<close>, \<open>CreateSteps\<close>, \<open>PublishLeaf\<close>,
    \<open>LeafLocks\<close>, \<open>CreateInBitmap\<close>, \<open>InsertBelow\<close>: the insertion of a new key below a bitmap by a
    thread that is alone. First copies of nodes while other nodes are written, then, on shapes,
    a new leaf below a bitmap, in the list of the leaves and as the greatest leaf of the nodes
    above it, then the steps of \<open>create_leaf_in_bitmap\<close> on those shapes, and at last the whole
    call (\<open>ct_insert_below\<close>). \<open>BitmapTrie\<close> builds a trie to which that theorem applies.
  \<^item> \<open>VectorizedOps\<close>, \<open>VectorizedTable\<close>, \<open>Vectorized\<close>, \<open>VectorizedInsert\<close> (\<open>main_vectorized.c\<close>): the
    operations of the build with the SIMD searches, and their agreement with those of \<open>main.c\<close>:
    searches, updates and additions on the table, lookups, updates, iterators and allocation,
    and insertions where their outcome is proved. The functions of that file that neither search
    nor choose a color repeat those of \<open>main.c\<close> word by word and are modelled there.
  \<^item> \<open>Verify\<close> (\<open>verify_trie.c\<close>), \<open>Sched\<close> (\<open>mt_debug.c\<close>), \<open>Stats\<close> (\<open>timing_helpers.h\<close>),
    \<open>RandomDist\<close> (\<open>random_dist.c\<close>): the consistency checker, the deterministic scheduler of the
    tests, the statistics, and the sampling of the benchmark. \<open>Dataset\<close> (\<open>dataset.c\<close>): the keys of
    the tests, drawn at random or read from a file, and the objects built from them. \<open>Checker\<close> proves that the checker
    accepts what the invariant \<open>ordered_trie\<close> describes, but for a leaf below a jump node, and
    \<open>CheckerSound\<close> what its acceptance says of a table of which nothing is known.

  \<^bold>\<open>How they interact.\<close> An operation descends from the root with a finger; each step
  asks the table for the child with the next hash. A change locks the buckets of the nodes it
  replaces through local copies, whose sequence counters show whether they are still current,
  adds new entries, which may relocate others, and makes them reachable with one final write.
  The map is lifted from the table: \<open>find_by_color_in_content\<close> and \<open>find_by_parent_in_content\<close>
  turn searches of cells into statements on the content, which relocation does not change.

  \<^bold>\<open>Effects and errors.\<close> The state of an operation is the trie and the lock manager of its
  thread (\<open>lock_state\<close>), passed explicitly. Status codes are the datatypes \<open>status\<close> and
  \<open>api_result\<close>. A loop that may run forever is a partial function into \<open>option\<close>: \<open>None\<close> is
  a call that never returns, and properties state that calls return. No fuel is used. Key
  objects live in a heap that the library only reads. An operation runs without interruption
  except between two attempts, where \<open>interference\<close>, a parameter, gives the trie as the other
  threads have left it; buckets that other threads hold are the set \<open>others\<close> of the lock
  invariant. The memory mapping of the operating system and the success of \<open>malloc\<close> are
  parameters of \<open>ct_alloc\<close>; the hypothesis \<open>zero_mapping\<close> is the documented behaviour of an
  anonymous mapping. Local variables that C leaves uninitialised are zero. The arrays of a path
  and of the prefetcher are lists without the bound of the C arrays, which is too low by one
  element for the longest keys. The buffers of the tests and of the datasets are lists whose sizes are
  natural numbers: \<open>malloc\<close> and \<open>realloc\<close> of them do not fail, and 64 bits hold their sizes.

  \<^bold>\<open>What the properties show.\<close> C1 to C11: the trie as a map, its range scans, insertion
  below a bitmap, the build with the SIMD searches, and the consistency checker (C8, C9). The
  other groups: allocation and the hash table (C12 to C20), the SIMD searches (C21, C22), locks,
  threads and writes (C23 to C27), keys (C28 to C31), hashing (C32 to C34), nodes and paths (C35
  to C37), bit fields (C38), datasets (C39) and the scheduler (C40).

  \<^bold>\<open>Not modelled.\<close> Prefetch instructions and branch hints have no effect here. The weak
  memory model and the overlap of operations of several threads below the level of lock
  operations are outside of the model. Formatted output, the seeding from the clock, the
  weights of the Zipf distribution, which are computed in floating point, the benchmarks and
  the test programs are left out. Of \<open>ct_free\<close> the model has the size of the mapping it gives
  back, which is the whole mapping (\<open>ct_free_whole_mapping\<close>). Insertions are modelled completely. Proved
  of them are the table operations they consist of, the paths they build, and their outcome
  for the first key, for a present key, for a key that is too long, and, for a thread that is
  alone, for a new key below a bitmap. The outcome of splitting a leaf or a jump node is not
  proved: the code writes through addresses of entries that it may itself have relocated.
  Lookups, updates and range scans are proved on every trie that satisfies \<open>trie_map\<close>,
  whatever its size.
\<close>

section \<open>Example objects\<close>

text \<open>Small concrete objects on which the properties are instantiated.\<close>

definition example_entry :: "u8 \<Rightarrow> u8 \<Rightarrow> u8 \<Rightarrow> ct_entry" where
  "example_entry flags color_tag symbol =
     \<lparr>parent_color_and_flags = flags, color_and_tag = color_tag, e_last_symbol = symbol,
      e_bytes = [1, 2, 3, 4, 5], e_byte8 = 6,
      e_locator = \<lparr>loc_primary_bucket = 7, loc_tag = 8, loc_color = 1\<rparr>\<rparr>"

definition example_bucket :: ct_bucket where
  "example_bucket = \<lparr>cells = [example_entry 0x91 0x23 0, unused_entry, unused_entry, unused_entry],
     write_lock_and_seq = 0\<rparr>"

definition empty_bucket :: ct_bucket where
  "empty_bucket = \<lparr>cells = replicate 4 unused_entry, write_lock_and_seq = 0\<rparr>"

definition example_trie :: cuckoo_trie where
  "example_trie = \<lparr>buckets = example_bucket # replicate 64 empty_bucket, num_buckets = 64, num_pairs = 1024,
     num_shuffle_blocks = 32, bucket_mix_table = replicate 16 1, is_empty = False\<rparr>"

lemma example_valid_table: "valid_table example_trie"
  by (simp add: valid_table_def valid_sizes_def valid_mix_table_def example_trie_def)

lemma example_bucket_wf: "wf_bucket example_bucket" "unused_cells_marked example_bucket"
proof -
  show "wf_bucket example_bucket"
    by (simp add: wf_bucket_def example_bucket_def wf_entry_def example_entry_def unused_entry_def)
  show "unused_cells_marked example_bucket" by code_simp
qed

lemma empty_bucket_wf: "wf_bucket empty_bucket"
  by (simp add: wf_bucket_def empty_bucket_def wf_entry_def unused_entry_def)

text \<open>
  Key objects whose key is the low byte of their address; a new trie of a hundred cells, and
  the same trie after the insertion of the key object 65.
\<close>

definition example_heap :: kv_heap where
  "example_heap a = \<lparr>key_size = 1, value_size = 0, kv_bytes = [ucast a]\<rparr>"

definition example_mmap :: "u64 \<Rightarrow> ct_bucket list option" where
  "example_mmap n = Some (replicate (unat n div 64) zero_bucket)"

definition idle :: interference where
  "idle n trie = trie"

definition example_fresh :: cuckoo_trie where
  "example_fresh = the (ct_alloc example_mmap True 100)"

definition example_one :: cuckoo_trie where
  "example_one = snd (the (ct_insert example_heap idle example_fresh 65))"

lemma example_kv: "wf_kv (example_heap a)" "unat (key_size (example_heap a)) \<le> 256" "kv_key (example_heap a) = [ucast a]"
  by (simp_all add: example_heap_def wf_kv_def kv_key_def)

lemma example_mmap_zero: "zero_mapping example_mmap"
  by (simp add: zero_mapping_def example_mmap_def)

lemma example_alloc: "ct_alloc example_mmap True 100 = Some example_fresh"
proof -
  have "ct_alloc example_mmap True 100 \<noteq> None" by (simp add: ct_alloc_def mmap_hugepage_def example_mmap_def Let_def)
  then show ?thesis unfolding example_fresh_def by force
qed

lemma example_fresh_ok: "fresh_trie {} example_fresh" "is_empty example_fresh" "table_inv example_fresh"
  "locks_ok {} (example_fresh, init_lock_mgr)"
proof -
  show f: "fresh_trie {} example_fresh" using ct_alloc_fresh [OF _ _ example_mmap_zero example_alloc] by simp
  then show "is_empty example_fresh" "table_inv example_fresh" "locks_ok {} (example_fresh, init_lock_mgr)"
    by (simp_all add: fresh_trie_def)
qed

lemma canonical_small: "canonical_address 65"
  by code_simp

lemma example_one_ok:
  "ct_insert example_heap idle example_fresh 65 = Some (S_OK, example_one)"
  "trie_holds example_heap example_one {65}" "table_inv example_one"
  "table_content example_one = {#(0, root_leaf 65)#}" "locks_ok {} (example_one, [])"
proof -
  obtain t where "ct_insert example_heap idle example_fresh 65 = Some (S_OK, t)" "trie_holds example_heap t {65}"
    "table_inv t" "table_content t = {#(0, root_leaf 65)#}" "locks_ok {} (t, [])"
    using ct_insert_first [where heap = example_heap and act = idle, OF example_fresh_ok(1) _ canonical_small example_kv(1,2)]
    by auto
  then show "ct_insert example_heap idle example_fresh 65 = Some (S_OK, example_one)"
    "trie_holds example_heap example_one {65}" "table_inv example_one"
    "table_content example_one = {#(0, root_leaf 65)#}" "locks_ok {} (example_one, [])"
    by (simp_all add: example_one_def)
qed

lemma storable_small: "storable example_heap 65" "storable example_heap 321"
proof -
  have "canonical_address 321" by code_simp
  then show "storable example_heap 65" "storable example_heap 321"
    using canonical_small by (simp_all add: storable_def example_kv)
qed

lemma example_one_map: "trie_map example_heap example_one ((\<lambda>_. 0)([65] := 65))"
proof -
  obtain t where "ct_insert example_heap idle example_fresh 65 = Some (S_OK, t)" "trie_map example_heap t ((\<lambda>_. 0)([65] := 65))"
    using ct_insert_first_map [OF example_fresh_ok(1) storable_small(1), of idle] by (auto simp: example_kv)
  then show ?thesis using example_one_ok(1) by simp
qed

text \<open>
  A trie with the key object 65 below a bitmap, and the place for the key object 200: the
  symbols of their keys are 9, 5, 0 and 26, 1, 0.
\<close>

lemma example_symbols: "key_symbols [65] = [9, 5, 0]" "key_symbols [200] = [26, 1, 0]"
  by code_simp+

lemma storable_200: "storable example_heap 200" "kv_key (example_heap 65) = [65]" "kv_key (example_heap 200) = [200]"
proof -
  have "canonical_address 200" by code_simp
  then show "storable example_heap 200" by (simp add: storable_def example_kv)
  show "kv_key (example_heap 65) = [65]" "kv_key (example_heap 200) = [200]" by (simp_all add: example_kv)
qed

lemma example_bitmap_trie:
  obtains t k l where "ordered_trie example_heap t (one_leaf 9 k l)" and "locks_ok {} (t, [])" and "entry_kv l = 65"
    and "shape_ok example_heap t (one_leaf 9 k l)" and "kvs_of (one_leaf 9 k l) = {65}"
    and "size (table_content t) = 2" and "below_bitmap example_heap (one_leaf 9 k l) [] 26 200"
proof -
  have kv: "canonical_address 65" "wf_kv (example_heap 65)" "unat (key_size (example_heap 65)) \<le> 256"
    using canonical_small example_kv by blast+
  obtain t0 where t0: "ct_insert example_heap idle example_fresh 65 = Some (S_OK, t0)" "table_inv t0"
    "table_content t0 = {#(0, root_leaf 65)#}" "cell t0 (0, 0) = root_leaf 65" "\<not> is_empty t0" "locks_ok {} (t0, [])"
    "num_buckets t0 = num_buckets example_fresh" "cell t0 (trie_min_leaf t0) = first_min_leaf"
    using insert_first [where heap = example_heap and act = idle, OF example_fresh_ok(1) _ kv(1,3,2)] by auto
  have sh0: "trie_shape example_heap t0 [[] \<mapsto> root_leaf 65]" by (rule root_leaf_shape [where heap = example_heap, OF t0(2,3,5,4) kv(1,2)])
  have ls0: "listed t0 [[] \<mapsto> root_leaf 65]"
    by (rule root_leaf_listed) (use t0(7,8) example_fresh_ok(1) in \<open>simp_all add: fresh_trie_def\<close>)
  have "prefix [9] (key_symbols (kv_key (example_heap 65)))" by (simp add: storable_200 example_symbols)
  from one_leaf_trie [where heap = example_heap, OF _ t0(6,8) _ _ kv(1,2) this] sh0 ls0 obtain t k l where
    t: "ordered_trie example_heap t (one_leaf 9 k l)" "locks_ok {} (t, [])" "entry_kv l = 65"
    by (auto simp: ordered_trie_def)
  note sh = ordered_trieD(1) [OF t(1)]
  note ok = trie_shapeD(4) [OF sh]
  have T: "one_leaf 9 k l [] = Some (root_bitmap 9 k)" "dom (one_leaf 9 k l) = {[], [9]}" by (auto simp: one_leaf_def)
  have L: "leaves (one_leaf 9 k l) = {[9]}"
  proof -
    have "child_of (one_leaf 9 k l) [] [9]" using root_bitmap_fields [of 9 k] by (simp add: child_of_def T)
    moreover have "p = [9]" if "p \<in> leaves (one_leaf 9 k l)" for p
      using that leaves_dom [OF that] root_bitmap_fields(2) [of 9 k] by (auto simp: T leaves_def)
    moreover have "leaves (one_leaf 9 k l) \<noteq> {}" using below_nonempty [OF ok, of "[]"] by (auto simp: T below_def)
    ultimately show ?thesis by blast
  qed
  have "the (one_leaf 9 k l [9]) = l" by (simp add: one_leaf_def)
  then have "kvs_of (one_leaf 9 k l) = {65}" using t(3) by (simp add: kvs_of_def L kv_at_def)
  moreover have "size (table_content t) = 2" using trie_shapeD(3) [OF sh] by (simp add: shape_content_def T)
  moreover have "below_bitmap example_heap (one_leaf 9 k l) [] 26 200"
    using root_bitmap_fields [of 9 k] by (simp add: below_bitmap_def T storable_200 example_symbols)
  ultimately show thesis using that t ok by blast
qed

lemma example_sizes: "valid_sizes example_one" "valid_sizes example_trie"
  using table_invD(5) [OF example_one_ok(3)] example_valid_table by auto

text \<open>A table with the child 5 of a node of color 2 in its first cell.\<close>

definition example_child :: cuckoo_trie where
  "example_child = snd (write_entry example_fresh (0, 0) (example_entry 0x21 0x20 5))"

lemma example_child_ok:
  "table_inv example_child" "table_content example_child = {#(0, example_entry 0x21 0x20 5)#}"
proof -
  let ?e = "example_entry 0x21 0x20 5"
  have e: "wf_entry ?e" "entry_type ?e = TYPE_LEAF" "entry_color ?e = 2" "\<not> entry_is_secondary ?e" "erase_side ?e = ?e"
    by code_simp+
  have c: "table_content example_fresh = {#}" using example_fresh_ok(1) by (simp add: fresh_trie_def)
  have p: "(0, 0) \<in> table_cells example_fresh"
    using table_invD(5) [OF example_fresh_ok(3)] by (auto simp: table_cells_def valid_table_def valid_sizes_def)
  have u: "entry_type (cell example_fresh (0, 0)) = TYPE_UNUSED"
    using c p content_member [of "(home example_fresh 0 (cell example_fresh (0, 0)), erase_side (cell example_fresh (0, 0)))" example_fresh]
    by auto
  have h: "home example_fresh 0 ?e = 0" using e(4) by (simp add: home_def)
  have w: "table_inv example_child" "table_content example_child = add_mset (home example_fresh 0 ?e, erase_side ?e) {#}"
    using write_free_cell [OF example_fresh_ok(3) p u e(1)] c e(2,3) unfolding example_child_def by simp_all
  show "table_inv example_child" "table_content example_child = {#(0, ?e)#}" using w h e(5) by simp_all
qed

text \<open>A table whose first bucket is full and locked by the running thread.\<close>

definition fill_cell :: "nat \<Rightarrow> cuckoo_trie \<Rightarrow> cuckoo_trie" where
  "fill_cell i trie = snd (write_entry trie (0, i) (example_entry 0x21 (push_bit 4 (of_nat i)) 5))"

definition example_full :: lock_state where
  "example_full = snd (write_lock_bucket (fold fill_cell [0, 1, 2, 3] example_fresh, []) 0)"

lemma fill_cells:
  assumes "table_ok t" and "locks_ok {} (t, [])" and "num_buckets t = num_buckets example_fresh" and "\<forall>i\<in>set is. i < 4"
  shows "table_ok (fold fill_cell is t) \<and> locks_ok {} (fold fill_cell is t, []) \<and>
    num_buckets (fold fill_cell is t) = num_buckets example_fresh \<and>
    (\<forall>i. i \<in> set is \<or> entry_type (cell t (0, i)) \<noteq> TYPE_UNUSED \<longrightarrow> entry_type (cell (fold fill_cell is t) (0, i)) \<noteq> TYPE_UNUSED)"
  using assms
proof (induction "is" arbitrary: t)
  case (Cons i "is")
  let ?e = "example_entry 0x21 (push_bit 4 (of_nat i)) 5"
  have e: "wf_entry ?e" "entry_type ?e = TYPE_LEAF" by (simp_all add: example_entry_def wf_entry_def entry_type_def)
  have p: "(0, i) \<in> table_cells t"
    using table_okD(2) [OF Cons.prems(1)] Cons.prems(4) by (auto simp: table_cells_def valid_table_def valid_sizes_def)
  have ok: "table_ok (fill_cell i t)" unfolding fill_cell_def
    by (rule table_ok_write_entry [OF Cons.prems(1) p e(1)]) (simp add: marked_if_unused_def e(2))
  have l: "locks_ok {} (fill_cell i t, [])" unfolding fill_cell_def by (rule locks_ok_write_entry [OF Cons.prems(2)])
  have nb: "num_buckets (fill_cell i t) = num_buckets example_fresh" using Cons.prems(3) by (simp add: fill_cell_def)
  have c: "cell (fill_cell i t) q = (if q = (0, i) then ?e else cell t q)" for q
    unfolding fill_cell_def by (rule cell_write_entry [OF Cons.prems(1) p e(1)])
  show ?case using Cons.IH [OF ok l nb] Cons.prems(4) e(2) by (auto simp: c)
qed simp

lemma example_full_ok:
  obtains trie mgr where "example_full = (trie, mgr)" and "table_ok trie" and "locks_ok {} (trie, mgr)"
    and "valid_bucket trie 0" and "find_free_cell_in_bucket (bucket_of trie 0) = None" and "0 < spare_refs mgr (unat (0 :: u64))"
proof -
  define full where "full = fold fill_cell [0, 1, 2, 3] example_fresh"
  obtain lock trie mgr where w: "write_lock_bucket (full, []) 0 = (lock, trie, mgr)" by (metis prod_cases3)
  have l0: "locks_ok {} (example_fresh, [])" using example_fresh_ok(4) by (simp add: init_lock_mgr_def)
  have f: "table_ok full \<and> locks_ok {} (full, []) \<and> num_buckets full = num_buckets example_fresh \<and>
      (\<forall>i. i \<in> set [0, 1, 2, 3] \<or> entry_type (cell example_fresh (0, i)) \<noteq> TYPE_UNUSED \<longrightarrow> entry_type (cell full (0, i)) \<noteq> TYPE_UNUSED)"
    unfolding full_def by (rule fill_cells [OF table_invD(1) [OF example_fresh_ok(3)] l0 refl]) simp
  then have ok: "table_ok full" "locks_ok {} (full, [])" and used: "\<And>i. i < 4 \<Longrightarrow> entry_type (cell full (0, i)) \<noteq> TYPE_UNUSED"
    using four_cells by fastforce+
  have len: "0 < length (buckets full)" using table_okD(3) [OF ok(1)] by simp
  note wl = write_lock_bucket_ok [OF ok(2) len w, unfolded fst_conv snd_conv]
  have t: "table_ok trie" by (rule table_ok_unlocked [OF wl(2) ok(1)])
  have vb: "valid_bucket trie 0"
    using table_okD(2) [OF t] by (auto simp: valid_bucket_unat valid_table_def valid_sizes_def)
  have "entry_type (cell trie (0, i)) \<noteq> TYPE_UNUSED" if "i < 4" for i
    using used [OF that] unlocked_cell [OF wl(2), of "(0, i)"] unlocked_eqD(1) [OF wl(2)] len by simp
  then have "find_free_cell_in_bucket (bucket_of trie 0) = None"
    using find_free_Some [OF table_okD(1) [OF t] vb] by fastforce
  moreover have "lock_byte (bucket_word full 0) = 0" using locks_okD(4) [OF ok(2) len] by simp
  then have "mgr = add_lock [] 0" using w by (simp add: write_lock_bucket_def take_free(1) [OF ok(2) len])
  then have "0 < spare_refs mgr (unat (0 :: u64))" by (simp add: spare_refs_def find_add_lock) (simp add: add_lock_def)
  ultimately show thesis using that [of trie mgr] w t wl(1) vb by (simp add: example_full_def full_def)
qed

section \<open>The trie as a map\<close>

text \<open>C1. \<open>ct_lookup\<close> refines the lookup in a finite map: on a trie that holds a set of key
  objects, it returns the one with the key searched for, and null when there is none. The
  call returns for every key of at most \<open>MAX_KEY_BYTES\<close> bytes.\<close>

theorem ct_lookup_refines_map:
  assumes "trie_holds heap trie K" and "length key \<le> 256"
  shows "ct_lookup heap trie (length key) key = Some (abs_map heap K key)"
  using assms by (rule ct_lookup_refines)

theorem ct_lookup_refines_map_witness:
  "ct_lookup example_heap example_one 1 [65] = Some (abs_map example_heap {65} [65]) \<and>
   ct_lookup example_heap example_one 0 [] = Some 0"
  using ct_lookup_refines_map [OF example_one_ok(2), of "[65]"] ct_lookup_refines_map [OF example_one_ok(2), of "[]"]
  by (simp add: abs_map_def absent_def example_kv)

text \<open>C2. From allocation to lookup: the first insertion into a trie that \<open>ct_alloc\<close> has
  returned succeeds, a lookup of its key then returns the inserted object, and a lookup of
  any other key returns null.\<close>

theorem alloc_insert_lookup:
  assumes "0 < unat num_cells" and "unat num_cells \<le> 2 ^ 33" and "zero_mapping os_mmap"
    and "ct_alloc os_mmap os_malloc num_cells = Some trie"
    and "canonical_address kv" and "wf_kv (heap kv)" and "unat (key_size (heap kv)) \<le> 256"
    and "length key \<le> 256"
  shows "\<exists>trie'. ct_insert heap act trie kv = Some (S_OK, trie') \<and>
    ct_lookup heap trie' (length key) key = Some (if key = kv_key (heap kv) then kv else 0)"
proof -
  have "fresh_trie {} trie" using assms(1-4) by (rule ct_alloc_fresh)
  then obtain trie' where t: "ct_insert heap act trie kv = Some (S_OK, trie')" "trie_holds heap trie' {kv}"
    using ct_insert_first [of "{}" trie kv heap act] assms(5-7) by auto
  then show ?thesis
    using ct_lookup_refines [OF t(2) assms(8)] by (auto simp: abs_map_singleton)
qed

theorem alloc_insert_lookup_witness:
  "\<exists>trie'. ct_insert example_heap idle example_fresh 66 = Some (S_OK, trie') \<and>
    ct_lookup example_heap trie' 1 [66] = Some 66"
proof -
  have "canonical_address 66" by code_simp
  then show ?thesis
    using alloc_insert_lookup [OF _ _ example_mmap_zero example_alloc, of 66 example_heap "[66]" idle] by (simp add: example_kv)
qed

text \<open>C3. Inserting a new key whose walk ends at a bitmap, by a thread that is alone: \<open>ct_insert\<close>
  and \<open>ct_upsert\<close> return. When they report success the trie stands for the map with the new key,
  and is intact: its table, its shape, the list of its leaves and its locks. Otherwise they
  report \<open>S_OVERFLOW\<close>, the trie stands for the same map as before, and the primary bucket of the
  new leaf was full. \<open>ct_insert\<close> and \<open>ct_upsert\<close> of the build with the SIMD searches return the
  same and leave the same trie. In both builds the second attempt at the latest ends with a
  status other than \<open>SI_RETRY\<close>.\<close>

theorem insertion_below_bitmap:
  assumes "ordered_trie heap trie T" and "locks_ok {} (trie, [])" and "0 \<notin> kvs_of T" and "storable heap kv"
    and "below_bitmap heap T q s kv"
  shows "(\<exists>r trie'. ct_insert heap (\<lambda>n t. t) trie kv = Some (r, trie') \<and>
      ct_upsert heap (\<lambda>n t. t) trie kv = Some (r, if r = S_OK then Some True else None, trie') \<and>
      (if r = S_OK then trie_map heap trie' ((abs_map heap (kvs_of T))(kv_key (heap kv) := kv))
       else r = S_OVERFLOW \<and> trie_map heap trie' (abs_map heap (kvs_of T)) \<and>
         \<not> has_room trie (hash_to_bucket (hash_path trie (q @ [s])))) \<and>
      ct_insert_vectorized avx heap (\<lambda>n t. t) trie kv = Some (r, trie') \<and>
      ct_upsert_vectorized avx heap (\<lambda>n t. t) trie kv = Some (r, if r = S_OK then Some True else None, trie')) \<and>
    (\<forall>upsert. ends_within 2 (\<lambda>t. ct_insert_internal heap t kv upsert) trie \<and>
      ends_within 2 (\<lambda>t. ct_insert_internal_vectorized avx heap t kv upsert) trie)"
proof
  show "\<exists>r trie'. ct_insert heap (\<lambda>n t. t) trie kv = Some (r, trie') \<and>
      ct_upsert heap (\<lambda>n t. t) trie kv = Some (r, if r = S_OK then Some True else None, trie') \<and>
      (if r = S_OK then trie_map heap trie' ((abs_map heap (kvs_of T))(kv_key (heap kv) := kv))
       else r = S_OVERFLOW \<and> trie_map heap trie' (abs_map heap (kvs_of T)) \<and>
         \<not> has_room trie (hash_to_bucket (hash_path trie (q @ [s])))) \<and>
      ct_insert_vectorized avx heap (\<lambda>n t. t) trie kv = Some (r, trie') \<and>
      ct_upsert_vectorized avx heap (\<lambda>n t. t) trie kv = Some (r, if r = S_OK then Some True else None, trie')"
    unfolding insert_vectorized_below [OF assms(1,2,4,5)] using ct_insert_below [OF assms] by metis
qed (use insert_below_attempts [OF assms(1,2,4,5)] in blast)

theorem insertion_below_bitmap_witness:
  "\<exists>t t'. trie_map example_heap t ((\<lambda>_. 0)([65] := 65)) \<and> ct_insert example_heap (\<lambda>n t. t) t 200 = Some (S_OK, t') \<and>
    trie_map example_heap t' ((\<lambda>_. 0)([65] := 65, [200] := 200))"
proof -
  obtain t k l where t: "ordered_trie example_heap t (one_leaf 9 k l)" "locks_ok {} (t, [])" "kvs_of (one_leaf 9 k l) = {65}"
    "size (table_content t) = 2" "below_bitmap example_heap (one_leaf 9 k l) [] 26 200" by (rule example_bitmap_trie)
  have m: "abs_map example_heap (kvs_of (one_leaf 9 k l)) = (\<lambda>_. 0)([65] := 65)"
    unfolding t(3) by (auto simp: fun_eq_iff abs_map_singleton storable_200)
  have null: "0 \<notin> kvs_of (one_leaf 9 k l)" unfolding t(3) by simp
  have "trie_map example_heap t (abs_map example_heap (kvs_of (one_leaf 9 k l)))" using t(1,2) null unfolding trie_map_def by blast
  then have map: "trie_map example_heap t ((\<lambda>_. 0)([65] := 65))" unfolding m .
  have inv: "table_inv t" by (rule trie_shapeD(1) [OF ordered_trieD(1) [OF t(1)]])
  have vs: "valid_sizes t" using table_invD(5) [OF inv] by auto
  have "valid_bucket t (hash_to_bucket (hash_path t [26]))" by (rule hash_split_valid(1) [OF vs hash_path_valid [OF vs]]) simp
  then have "has_room t (hash_to_bucket (hash_path t ([] @ [26])))" using few_entries_room [OF table_invD(1) [OF inv]] t(4) by simp
  then obtain t' where "ct_insert example_heap (\<lambda>n t. t) t 200 = Some (S_OK, t')"
    "trie_map example_heap t' ((abs_map example_heap (kvs_of (one_leaf 9 k l)))(kv_key (example_heap 200) := 200))"
    using insertion_below_bitmap [where avx = True, OF t(1,2) null storable_200(1) t(5)] by (auto split: if_splits)
  then show ?thesis using map unfolding m storable_200 by blast
qed

text \<open>C4. Updates against the map: on a trie that stands for a map from keys to key objects, any
  sequence of updates runs to its end, and a lookup then gives, for a key that was there, the
  object of the last update of that key, and null for every other key.\<close>

theorem updates_then_lookup:
  assumes "trie_map heap trie m" and "\<forall>kv\<in>set kvs. storable heap kv" and "length key \<le> 256"
  shows "\<exists>trie'. update_all heap act trie kvs = Some trie' \<and>
    ct_lookup heap trie' (length key) key =
      Some (if m key = 0 then 0 else last (m key # filter (\<lambda>kv. kv_key (heap kv) = key) kvs))"
  using assms by (rule lookup_after_updates)

theorem updates_then_lookup_witness:
  "\<exists>trie'. update_all example_heap idle example_one [321, 65, 321] = Some trie' \<and>
    ct_lookup example_heap trie' 1 [65] = Some 321"
proof -
  have k: "kv_key (example_heap 321) = [65]" "kv_key (example_heap 65) = [65]" unfolding example_kv by code_simp+
  show ?thesis
    using updates_then_lookup [OF example_one_map, of "[321, 65, 321]" "[65]" idle] storable_small by (simp add: k)
qed

text \<open>C5. An update or an upsert of a key that is there replaces exactly its object: the trie then
  stands for the updated map, with its shape, its table and its locks intact. The upsert
  reports that nothing was created.\<close>

theorem present_key_replaced:
  assumes "trie_map heap trie m" and "storable heap kv" and "m (kv_key (heap kv)) \<noteq> 0"
  shows "(\<exists>trie'. ct_update heap act trie kv = Some (S_OK, trie') \<and> trie_map heap trie' (m(kv_key (heap kv) := kv))) \<and>
    (\<exists>trie'. ct_upsert heap act trie kv = Some (S_OK, Some False, trie') \<and> trie_map heap trie' (m(kv_key (heap kv) := kv)))"
  using ct_update_map [OF assms] ct_upsert_map [OF assms] by blast

theorem present_key_replaced_witness:
  "(\<exists>trie'. ct_update example_heap idle example_one 321 = Some (S_OK, trie') \<and>
      trie_map example_heap trie' ((\<lambda>_. 0)([65] := 65, [65] := 321))) \<and>
    (\<exists>trie'. ct_upsert example_heap idle example_one 321 = Some (S_OK, Some False, trie') \<and>
      trie_map example_heap trie' ((\<lambda>_. 0)([65] := 65, [65] := 321)))"
proof -
  have k: "kv_key (example_heap 321) = [65]" unfolding example_kv by code_simp
  show ?thesis using present_key_replaced [OF example_one_map storable_small(2), of idle] by (simp add: k)
qed

text \<open>C6. A range scan against the map: \<open>ct_iter_goto\<close> to a key and any number of calls of
  \<open>ct_iter_next\<close> report the objects of the keys that are not smaller, in the order of their
  keys and each once, and then null.\<close>

theorem range_scan_in_key_order:
  assumes "trie_map heap trie m" and "length key \<le> 256"
  shows "\<exists>kvs. ct_range_scan num heap act trie key = Some (take num kvs @ replicate (num - length kvs) 0) \<and>
    set kvs = {m k | k. m k \<noteq> 0 \<and> \<not> lex_less k key} \<and>
    sorted_wrt (\<lambda>a b. lex_less (kv_key (heap a)) (kv_key (heap b))) kvs"
  using assms by (rule ct_range_scan_map)

theorem range_scan_in_key_order_witness:
  "ct_range_scan 3 example_heap idle example_one [7] = Some [65, 0, 0]"
proof -
  obtain kvs where kvs: "ct_range_scan 3 example_heap idle example_one [7] = Some (take 3 kvs @ replicate (3 - length kvs) 0)"
    "set kvs = {((\<lambda>_. 0)([65] := 65)) k | k. ((\<lambda>_. 0)([65] := 65)) k \<noteq> (0 :: u64) \<and> \<not> lex_less k [7 :: u8]}"
    "sorted_wrt (\<lambda>a b. lex_less (kv_key (example_heap a)) (kv_key (example_heap b))) kvs"
    using range_scan_in_key_order [OF example_one_map, of "[7]" 3 idle] by auto
  have "set kvs = {65}" unfolding kvs(2) by auto
  then have "kvs = [65]" using kvs(3) by (cases kvs; cases "tl kvs") (auto simp: subset_singleton_iff lexordp_irreflexive')
  then show ?thesis using kvs(1) by (simp add: numeral_eq_Suc)
qed

text \<open>C7. The build with the SIMD searches: on every trie that stands for a map, lookups, updates
  and range scans of \<open>main_vectorized.c\<close>, and its insertions and upserts of a key that is there,
  return what those of \<open>main.c\<close> return, and leave the same trie; on zeroed memory it allocates
  the same trie.\<close>

theorem vectorized_build_agrees:
  assumes "trie_map heap trie m" and "length key \<le> 256" and "storable heap kv" and "zero_mapping os_mmap"
  shows "ct_lookup_vectorized heap trie (length key) key = ct_lookup heap trie (length key) key \<and>
    ct_range_scan_vectorized num heap act trie key = ct_range_scan num heap act trie key \<and>
    ct_update_vectorized heap act trie kv = ct_update heap act trie kv \<and>
    (m (kv_key (heap kv)) = 0 \<or> ct_insert_vectorized avx heap act trie kv = ct_insert heap act trie kv \<and>
      ct_upsert_vectorized avx heap act trie kv = ct_upsert heap act trie kv) \<and>
    ct_alloc_vectorized os_mmap os_malloc num_cells = ct_alloc os_mmap os_malloc num_cells"
proof -
  obtain T where T: "ordered_trie heap trie T" using assms(1) by (auto simp: trie_map_def)
  show ?thesis
    using ct_lookup_vectorized_eq [OF ordered_trieD(1) [OF T] assms(2)] ct_range_scan_vectorized_eq [OF T assms(2)]
      ct_update_vectorized_eq [OF assms(1,3)] insert_vectorized_present [OF assms(1,3)] ct_alloc_vectorized_eq [OF assms(4)] by auto
qed

theorem vectorized_build_agrees_witness:
  "ct_lookup_vectorized example_heap example_one 1 [65] = ct_lookup example_heap example_one 1 [65] \<and>
    ct_range_scan_vectorized 3 example_heap idle example_one [65] = ct_range_scan 3 example_heap idle example_one [65] \<and>
    ct_update_vectorized example_heap idle example_one 321 = ct_update example_heap idle example_one 321 \<and>
    ct_upsert_vectorized True example_heap idle example_one 321 = ct_upsert example_heap idle example_one 321"
proof -
  have "kv_key (example_heap 321) = [65]" unfolding example_kv by code_simp
  then show ?thesis
    using vectorized_build_agrees [OF example_one_map, of "[65]" 321 example_mmap 3 idle True] storable_small(2) example_mmap_zero by simp
qed

lemma one_leaf_jumps:
  assumes "ordered_trie heap t (one_leaf s k l)" and s: "0 < s" "s \<le> 32"
  shows "\<not> leaf_below_jump (one_leaf s k l) p"
proof
  assume "leaf_below_jump (one_leaf s k l) p"
  then obtain e where e: "one_leaf s k l p = Some e" "entry_type e = TYPE_JUMP" "p @ jump_symbols e \<in> dom (one_leaf s k l)"
    using leaves_dom by (auto simp: leaf_below_jump_def)
  then have "jump_symbols e = []" using root_bitmap_fields(2) [OF s, of k] by (auto simp: one_leaf_def split: if_splits)
  then have "entry_jump_size e = 0" using length_jump_symbols [of e] by simp
  then show False using node_okD(6) [OF shape_node [OF ordered_trieD(1) [OF assms(1)] e(1)] e(2)] by simp
qed

text \<open>C8. The consistency checker on a trie that satisfies the invariant of the operations, with no
  lock taken: it returns, and accepts exactly when no jump node has a leaf as its child. Every
  other check succeeds: the locators of the greatest leaves and of the next leaves, the
  children of every bitmap, and the order and completeness of the list of the leaves.\<close>

theorem checker_accepts_consistent_trie:
  assumes "ordered_trie heap trie T" and "locks_ok {} (trie, [])"
  shows "ct_verify_trie heap trie = Some (\<forall>p. \<not> leaf_below_jump T p)"
  using assms by (rule checker_result)

theorem checker_accepts_consistent_trie_witness:
  "\<exists>t k l. ordered_trie example_heap t (one_leaf 9 k l) \<and> ct_verify_trie example_heap t = Some True"
proof -
  obtain t k l where t: "ordered_trie example_heap t (one_leaf 9 k l)" "locks_ok {} (t, [])" by (rule example_bitmap_trie)
  have "\<not> leaf_below_jump (one_leaf 9 k l) p" for p by (rule one_leaf_jumps [OF t(1)]) simp_all
  then have "ct_verify_trie example_heap t = Some True" using checker_accepts_consistent_trie [OF t] by simp
  then show ?thesis using t(1) by blast
qed

text \<open>C9. What an accepting run of the checker says of an arbitrary table, if the objects of its
  leaves are well formed and the links can be searched for: no bucket is locked, and the list
  of the leaves runs through exactly the leaves of the table, in the order of their keys and
  so each once.\<close>

theorem accepted_trie_is_linked:
  assumes "table_ok trie" and "links_searchable trie"
    and "\<forall>pos\<in>leaf_cells trie. wf_kv (heap (entry_kv (cell trie pos)))" and "ct_verify_trie heap trie = Some True"
  shows "(\<forall>b<unat (num_buckets trie). lock_byte (bucket_word trie b) = 0) \<and>
    (\<exists>ps. leaf_chain trie (next_leaf (cell trie (trie_min_leaf trie))) ps \<and> set ps = leaf_cells trie \<and>
      sorted_wrt (\<lambda>p q. leaf_key heap trie p < leaf_key heap trie q) ps)"
  using checker_is_sound [OF assms] by blast

theorem accepted_trie_is_linked_witness:
  "\<exists>t. ct_verify_trie example_heap t = Some True \<and> (\<exists>ps. ps \<noteq> [] \<and>
    leaf_chain t (next_leaf (cell t (trie_min_leaf t))) ps \<and> set ps = leaf_cells t)"
proof -
  obtain t k l where t: "ordered_trie example_heap t (one_leaf 9 k l)" "locks_ok {} (t, [])"
    and kvs: "kvs_of (one_leaf 9 k l) = {65}" by (rule example_bitmap_trie)
  note sh = ordered_trieD(1) [OF t(1)] and ls = ordered_trieD(2) [OF t(1)]
  have "\<not> leaf_below_jump (one_leaf 9 k l) p" for p by (rule one_leaf_jumps [OF t(1)]) simp_all
  then have v: "ct_verify_trie example_heap t = Some True" using checker_result [OF t] by simp
  obtain ps where ps: "leaf_chain t (next_leaf (cell t (trie_min_leaf t))) ps" "set ps = leaf_cells t"
    using accepted_trie_is_linked [OF table_invD(1) [OF trie_shapeD(1) [OF sh]] consistent_links [OF sh ls] v] by blast
  obtain p e where "one_leaf 9 k l p = Some e" "entry_type e = TYPE_LEAF" using kvs by (auto simp: kvs_of_def leaves_def)
  then obtain pos where "stored_at t (one_leaf 9 k l) p pos" "entry_type (cell t pos) = TYPE_LEAF" using node_stored [OF sh] by metis
  then have "pos \<in> leaf_cells t" by (simp add: leaf_cells_def stored_at_def)
  then have "leaf_cells t \<noteq> {}" by blast
  then show ?thesis using v ps by (metis empty_set)
qed

text \<open>C10. Inserting a key that is already there reports \<open>S_ALREADYIN\<close> and changes nothing, in
  the trie or in its locks.\<close>

theorem ct_insert_of_present_key:
  assumes "trie_holds heap trie K" and "wf_kv (heap kv)" and "unat (key_size (heap kv)) \<le> 256"
    and "a \<in> K" and "kv_key (heap a) = kv_key (heap kv)"
  shows "ct_insert heap act trie kv = Some (S_ALREADYIN, trie)"
  using assms by (rule ct_insert_present)

theorem ct_insert_of_present_key_witness:
  "ct_insert example_heap idle example_one 321 = Some (S_ALREADYIN, example_one)"
proof (rule ct_insert_of_present_key [OF example_one_ok(2) example_kv(1,2)])
  show "65 \<in> {65 :: u64}" by simp
  show "kv_key (example_heap 65) = kv_key (example_heap 321)" unfolding example_kv by code_simp
qed

text \<open>C11. Updating a key that is not there reports \<open>S_NOTFOUND\<close> and changes nothing.\<close>

theorem ct_update_of_missing_key:
  assumes "trie_holds heap trie K" and "wf_kv (heap kv)" and "unat (key_size (heap kv)) \<le> 256"
    and "\<forall>a\<in>K. kv_key (heap a) \<noteq> kv_key (heap kv)"
  shows "ct_update heap act trie kv = Some (S_NOTFOUND, trie)"
  using assms by (intro ct_update_missing) (simp_all add: absent_def)

theorem ct_update_of_missing_key_witness: "ct_update example_heap idle example_one 66 = Some (S_NOTFOUND, example_one)"
proof (rule ct_update_of_missing_key [OF example_one_ok(2) example_kv(1,2)])
  show "\<forall>a\<in>{65}. kv_key (example_heap a) \<noteq> kv_key (example_heap 66)" unfolding example_kv by code_simp
qed

text \<open>C12. \<open>ct_alloc\<close> establishes the invariant of the table: well-formed and empty, every cell
  marked unused, no lock taken, the flag \<open>is_empty\<close> set, and room for the number of cells
  asked for. Requests of no cell divide by zero and are excluded; the upper bound keeps
  bucket numbers within the 32 bits of a locator.\<close>

theorem ct_alloc_establishes_invariant:
  assumes "0 < unat num_cells" and "unat num_cells \<le> 2 ^ 33" and "zero_mapping os_mmap"
    and "ct_alloc os_mmap os_malloc num_cells = Some trie"
  shows "table_inv trie \<and> table_content trie = {#} \<and> is_empty trie \<and> locks_ok {} (trie, init_lock_mgr) \<and>
    unat num_cells \<le> card (table_cells trie)"
  using ct_alloc_fresh [OF assms] by (simp add: fresh_trie_def)

theorem ct_alloc_establishes_invariant_witness:
  "table_inv example_fresh \<and> table_content example_fresh = {#} \<and> is_empty example_fresh \<and> 100 \<le> card (table_cells example_fresh)"
  using ct_alloc_establishes_invariant [OF _ _ example_mmap_zero example_alloc] by simp


section \<open>The hash table\<close>

text \<open>C13. Wherever relocations have put it, an entry of the table is found by its home bucket,
  tag and color: the search returns the cell that holds it, and reports its current value.\<close>

theorem search_by_color_complete:
  assumes "table_inv trie" and "(b, e) \<in># table_content trie"
  shows "\<exists>p. find_entry_in_pair_by_color trie b (ucast (entry_tag e)) (ucast (entry_color e)) = Some (copy_of trie b p) \<and>
    p \<in> table_cells trie \<and> home trie (fst p) (cell trie p) = b \<and> erase_side (cell trie p) = e"
  using find_by_color_in_content [OF assms] by blast

theorem search_by_color_complete_witness:
  "\<exists>p. find_entry_in_pair_by_color example_one 0 (ucast (entry_tag (root_leaf 65))) (ucast (entry_color (root_leaf 65))) =
    Some (copy_of example_one 0 p)"
  using search_by_color_complete [OF example_one_ok(3), of 0 "root_leaf 65"] by (simp add: example_one_ok(4)) blast

text \<open>C14. A search by color that returns reports an entry that the table contains under that
  home bucket, tag and color; so a search for an entry that is not there does not return, as
  the code documents.\<close>

theorem search_by_color_sound:
  assumes "table_ok trie" and "valid_bucket trie b" and "tag < 16" and "color < 9"
    and "find_entry_in_pair_by_color trie b tag color = Some c"
  shows "c = copy_of trie b (last_pos c) \<and> last_pos c \<in> table_cells trie \<and>
    (b, erase_side (lc_value c)) \<in># table_content trie \<and>
    entry_tag (lc_value c) = ucast tag \<and> entry_color (lc_value c) = ucast color"
  using find_by_color_sound [OF assms] by blast

theorem search_by_color_sound_witness: "find_entry_in_pair_by_color example_fresh 0 0 0 = None"
proof (cases "find_entry_in_pair_by_color example_fresh 0 0 0")
  case (Some c)
  have "valid_bucket example_fresh 0"
    using table_invD(5) [OF example_fresh_ok(3)] by (auto simp: valid_bucket_unat valid_table_def valid_sizes_def)
  from search_by_color_sound [OF table_invD(1) [OF example_fresh_ok(3)] this _ _ Some]
  show ?thesis using example_fresh_ok(1) by (simp add: fresh_trie_def)
qed

text \<open>C15. A child of a bitmap is found by its last symbol and its parent's color, when no other
  entry with its home bucket and tag has both.\<close>

theorem search_by_parent_complete:
  assumes "table_inv trie" and "(b, e) \<in># table_content trie" and "entry_parent_color e < 9"
    and "\<forall>e'. (b, e') \<in># table_content trie \<and> entry_tag e' = entry_tag e \<and> e_last_symbol e' = e_last_symbol e \<and>
      entry_parent_color e' = entry_parent_color e \<longrightarrow> e' = e"
  shows "\<exists>p. find_entry_in_pair_by_parent trie b (ucast (entry_tag e)) (ucast (e_last_symbol e))
      (ucast (entry_parent_color e)) = Some (copy_of trie b p) \<and>
    p \<in> table_cells trie \<and> home trie (fst p) (cell trie p) = b \<and> erase_side (cell trie p) = e"
  using find_by_parent_in_content [OF assms(1-3)] assms(4) by blast

theorem search_by_parent_complete_witness:
  "\<exists>p. find_entry_in_pair_by_parent example_child 0 0 5 2 = Some (copy_of example_child 0 p)"
proof -
  have e: "entry_tag (example_entry 0x21 0x20 5) = 0" "e_last_symbol (example_entry 0x21 0x20 5) = 5"
    "entry_parent_color (example_entry 0x21 0x20 5) = 2" by code_simp+
  show ?thesis
    using search_by_parent_complete [OF example_child_ok(1), of 0 "example_entry 0x21 0x20 5"] by (simp add: example_child_ok(2) e) blast
qed






text \<open>C18. An update through a local copy of an entry replaces exactly that entry, also when the
  entry has been relocated since the copy was made; the copy is then up to date again.\<close>

theorem update_entry_correct:
  assumes "table_inv trie" and "current trie c" and "wf_entry e" and "entry_type e \<noteq> TYPE_UNUSED"
    and "color_and_tag e = color_and_tag (lc_value c)" and "entry_is_secondary e = entry_is_secondary (lc_value c)"
  shows "\<exists>c' trie'. update_entry trie c e = Some (c', trie') \<and> table_inv trie' \<and> current trie' c' \<and>
    table_content trie' = add_mset (lc_primary_bucket c, erase_side e)
      (table_content trie - {#(lc_primary_bucket c, erase_side (lc_value c))#})"
  using update_entry_in_content [OF assms] by blast


theorem update_entry_correct_witness:
  "\<exists>c c' trie'. update_entry example_one c ((lc_value c)\<lparr>e_last_symbol := 7\<rparr>) = Some (c', trie') \<and>
    table_content trie' = {#(0, (root_leaf 65)\<lparr>e_last_symbol := 7\<rparr>)#}"
proof -
  obtain p where p: "p \<in> table_cells example_one" "home example_one (fst p) (cell example_one p) = 0"
    "erase_side (cell example_one p) = root_leaf 65"
    using find_by_color_in_content [OF example_one_ok(3), of 0 "root_leaf 65"] by (auto simp: example_one_ok(4))
  let ?c = "copy_of example_one 0 p" and ?e = "cell example_one p"
  have c: "lc_value ?c = ?e" "lc_primary_bucket ?c = 0" by (simp_all add: copy_of_def)
  have "current example_one ?c" using p by (simp add: current_def copy_of_def example_one_ok(4))
  moreover have "entry_type ?e \<noteq> TYPE_UNUSED" using p(3) root_leaf_props(2) [of 65] by (metis side_type(2) one_neq_zero)
  moreover have "erase_side (?e\<lparr>e_last_symbol := 7\<rparr>) = (root_leaf 65)\<lparr>e_last_symbol := 7\<rparr>"
    unfolding p(3) [symmetric] by (simp add: erase_side_def)
  moreover have "wf_entry ?e" using wf_cell [OF table_invD(4) [OF example_one_ok(3)] p(1)] by simp
  ultimately obtain c' trie' where "update_entry example_one ?c ((lc_value ?c)\<lparr>e_last_symbol := 7\<rparr>) = Some (c', trie')"
    "table_content trie' = {#(0, (root_leaf 65)\<lparr>e_last_symbol := 7\<rparr>)#}"
    using update_entry_correct [OF example_one_ok(3), of ?c "?e\<lparr>e_last_symbol := 7\<rparr>"] p(3)
    by (auto simp: wf_entry_def entry_type_def entry_is_secondary_def example_one_ok(4) c)
  then show ?thesis by blast
qed

text \<open>C19. Removing an entry by its value takes exactly that entry out of the table.\<close>

theorem remove_entry_correct:
  assumes "table_inv trie" and "(hash_to_bucket h, erase_side e) \<in># table_content trie"
    and "ucast (entry_tag e) = hash_to_tag h"
  shows "\<exists>trie'. remove_entry_by_value trie e h = Some trie' \<and> table_inv trie' \<and>
    table_content trie' = table_content trie - {#(hash_to_bucket h, erase_side e)#}"
  using remove_entry_in_content [OF assms] by blast

theorem remove_entry_correct_witness:
  "\<exists>trie'. remove_entry_by_value example_one (root_leaf 65) 0 = Some trie' \<and> table_content trie' = {#}"
proof -
  have "hash_to_bucket 0 = 0" "ucast (entry_tag (root_leaf 65)) = hash_to_tag 0" by code_simp+
  then show ?thesis
    using remove_entry_correct [OF example_one_ok(3), of 0 "root_leaf 65"] by (auto simp: example_one_ok(4) root_leaf_props)
qed

text \<open>C20. The color chosen for a new entry is valid and no cell of the two buckets has it, as long
  as one cell is unused.\<close>

theorem new_color_is_fresh:
  assumes "wf_bucket b1" and "wf_bucket b2"
    and "e \<in> set (cells b1) \<union> set (cells b2)" and "entry_color e = INVALID_COLOR"
  shows "unused_color_in_pair b1 b2 < 9 \<and> (\<forall>e'\<in>set (cells b1) \<union> set (cells b2). entry_color e' \<noteq> unused_color_in_pair b1 b2)"
  using unused_color_fresh [OF assms] by blast

theorem new_color_is_fresh_witness:
  "unused_color_in_pair example_bucket empty_bucket \<noteq> entry_color (example_entry 0x91 0x23 0)"
proof -
  have "unused_entry \<in> set (cells example_bucket) \<union> set (cells empty_bucket)" "entry_color unused_entry = INVALID_COLOR"
    "example_entry 0x91 0x23 0 \<in> set (cells example_bucket) \<union> set (cells empty_bucket)" by code_simp+
  then show ?thesis using new_color_is_fresh [OF example_bucket_wf(1) empty_bucket_wf] by metis
qed

section \<open>The SIMD code\<close>

text \<open>C21. The SIMD searches of a bucket, by color and by the color of the parent, return what the
  scalar ones return.\<close>

theorem bucket_searches_simd_are_scalar:
  assumes "wf_bucket b" and "unused_cells_marked b" and "tag < 16" and "color < 9" and "ls < 256" and "pc < 16" and "pc \<noteq> 9"
  shows "find_entry_in_bucket_by_color_vectorized b sec tag color = find_entry_in_bucket_by_color b sec tag color \<and>
    find_entry_in_bucket_by_parent_vectorized b sec tag ls pc = find_entry_in_bucket_by_parent b sec tag ls pc"
  using find_by_color_vectorized_eq [OF assms(1-4)] find_by_parent_vectorized_eq [OF assms(1-3,5-7)] by blast

theorem bucket_searches_simd_are_scalar_witness:
  "find_entry_in_bucket_by_color_vectorized example_bucket False 3 2 =
    find_entry_in_bucket_by_color example_bucket False 3 2 \<and>
    find_entry_in_bucket_by_parent_vectorized example_bucket False 3 5 2 =
    find_entry_in_bucket_by_parent example_bucket False 3 5 2"
  by (rule bucket_searches_simd_are_scalar) (simp_all add: example_bucket_wf)

text \<open>C22. Both lane versions of the search for an unused color, with four lanes and with eight,
  return what the scalar loop returns.\<close>

theorem unused_color_simd_is_scalar:
  assumes "wf_bucket b1" and "wf_bucket b2"
  shows "unused_color_in_pair_vectorized has_avx512 b1 b2 = unused_color_in_pair b1 b2"
  using assms by (rule unused_color_vectorized_eq)

theorem unused_color_simd_is_scalar_witness:
  "unused_color_in_pair_vectorized True example_bucket empty_bucket = unused_color_in_pair example_bucket empty_bucket"
  by (rule unused_color_simd_is_scalar [OF example_bucket_wf(1) empty_bucket_wf])


section \<open>Locks and threads\<close>

text \<open>C23. From a state without locks, any number of threads that call the lock functions of
  \<open>atomics.c\<close> in any order, by their rules, exclude each other: no two of them hold the same
  bucket, and a bucket's lock byte is set exactly while some thread holds it.\<close>

theorem bucket_locks_exclude:
  assumes "\<forall>b<length (buckets t0). lock_byte (bucket_word t0 b) = 0" and "0 < n"
    and "lock_run (no_locks n t0) (t, ms)"
  shows "(\<forall>i j. i < length ms \<and> j < length ms \<and> i \<noteq> j \<longrightarrow> held (ms ! i) \<inter> held (ms ! j) = {}) \<and>
    (ms \<noteq> [] \<longrightarrow> (\<forall>b<length (buckets t). lock_byte (bucket_word t b) = (if \<exists>i<length ms. b \<in> held (ms ! i) then 1 else 0)))"
proof -
  have ok: "threads_ok (t, ms)" using lock_run_ok [OF assms(3) no_locks_ok [OF assms(1)]] .
  then show ?thesis using threads_exclusive threads_lock_byte by blast
qed

lemma example_run:
  obtains t where "lock_run (no_locks 2 example_fresh) (t, [add_lock [] 0, []])" and "threads_ok (t, [add_lock [] 0, []])"
proof -
  let ?bs = "\<forall>b<length (buckets example_fresh). lock_byte (bucket_word example_fresh b) = 0"
  have lok: "locks_ok {} (example_fresh, [])" using example_fresh_ok(4) by (simp add: init_lock_mgr_def)
  then have free: ?bs using locks_okD(4) [OF lok] by simp
  have len: "0 < length (buckets example_fresh)" using table_okD(3) [OF table_invD(1) [OF example_fresh_ok(3)]] by simp
  let ?t = "set_bucket_word example_fresh 0 (seq_of_word (bucket_word example_fresh 0) OR 1)"
  have "write_lock_bucket (example_fresh, [[], []] ! 0) 0 = (Some 0, ?t, add_lock [] 0)"
    using take_free(1) [OF lok len] free len by (simp add: write_lock_bucket_def)
  from step_lock [OF _ len this] have s: "lock_step 0 (example_fresh, [[], []]) (?t, [add_lock [] 0, []])" by simp
  have "no_locks 2 example_fresh = (example_fresh, [[], []])" by (simp add: no_locks_def init_lock_mgr_def numeral_2_eq_2)
  then have r: "lock_run (no_locks 2 example_fresh) (?t, [add_lock [] 0, []])" using run_step [OF run_start] s by simp
  then show thesis using that lock_run_ok [OF r no_locks_ok [OF free]] by blast
qed

theorem bucket_locks_exclude_witness:
  "\<exists>t. lock_run (no_locks 2 example_fresh) (t, [add_lock [] 0, []]) \<and> lock_byte (bucket_word t 0) = 1"
proof -
  obtain t where t: "lock_run (no_locks 2 example_fresh) (t, [add_lock [] 0, []])" "threads_ok (t, [add_lock [] 0, []])"
    by (rule example_run)
  have lok: "locks_ok {} (example_fresh, [])" using example_fresh_ok(4) by (simp add: init_lock_mgr_def)
  have h: "0 \<in> held ([add_lock [] 0, []] ! 0)" by (simp add: held_def add_lock_def)
  have "0 < length (buckets t)" using locks_okD(3) [OF locks_ok_threads [OF t(2), of 0], of 0] h by simp
  moreover have "\<forall>b<length (buckets example_fresh). lock_byte (bucket_word example_fresh b) = 0"
    using locks_okD(4) [OF lok] by simp
  from bucket_locks_exclude [OF this _ t(1)]
  have "\<forall>b<length (buckets t). lock_byte (bucket_word t b) =
      (if \<exists>i<length [add_lock [] 0, []]. b \<in> held ([add_lock [] 0, []] ! i) then 1 else 0)" by simp
  moreover have "\<exists>i<length [add_lock [] 0, []]. 0 \<in> held ([add_lock [] 0, []] ! i)" using h by (intro exI [of _ 0]) simp
  ultimately show ?thesis using t(1) by (intro exI [of _ t]) simp
qed

text \<open>C24. A step of one thread changes nothing of a bucket that another thread has locked: not its
  entries, its sequence number or its lock byte, which stays set. The bucket stays locked by
  that thread, and the thread that has taken the step does not come to hold it.\<close>

theorem locked_bucket_is_stable:
  assumes "lock_step i (t, ms) (t', ms')" and "threads_ok (t, ms)" and "j < length ms" and "j \<noteq> i" and "b \<in> held (ms ! j)"
  shows "buckets t' ! b = buckets t ! b \<and> lock_byte (bucket_word t' b) = 1 \<and>
    b \<in> held (ms' ! j) \<and> b \<notin> held (ms' ! i)"
  using lock_step_frame [OF assms] by blast

theorem locked_bucket_is_stable_witness:
  "\<exists>t t' ms'. lock_step 1 (t, [add_lock [] 0, []]) (t', ms') \<and> buckets t' ! 0 = buckets t ! 0 \<and>
    lock_byte (bucket_word t' 0) = 1 \<and> 0 \<notin> held (ms' ! 1)"
proof -
  obtain t where t: "threads_ok (t, [add_lock [] 0, []])" using example_run by metis
  have "release_all_locks (t, [add_lock [] 0, []] ! 1) = (t, [])" by (simp add: release_all_locks_def)
  then have s: "lock_step 1 (t, [add_lock [] 0, []]) (t, [add_lock [] 0, []])"
    using step_release_all [of 1 "[add_lock [] 0, []]" t t "[]"] by simp
  have "0 \<in> held ([add_lock [] 0, []] ! 0)" by (simp add: held_def add_lock_def)
  then have "lock_byte (bucket_word t 0) = 1 \<and> 0 \<notin> held ([add_lock [] 0, []] ! 1)"
    using locked_bucket_is_stable [OF s t, of 0 0] by simp
  then show ?thesis using s by blast
qed

text \<open>C25. Upgrading a local copy to a write lock succeeds exactly when no other thread holds the
  bucket and its counter is the one of the copy; then unlocking restores the state before,
  and a failed upgrade leaves no trace.\<close>

theorem upgrade_lock_round_trip:
  assumes "locks_ok others (trie, mgr)" and "fst (last_pos c) < length (buckets trie)"
    and "snd (last_pos c) < 4" and "upgrade_lock (trie, mgr) c = (st, s')"
  shows "locks_ok others s' \<and>
    (if fst (last_pos c) \<notin> others \<and> seq_of_word (bucket_word trie (fst (last_pos c))) = seq_of_word (last_seq c)
     then st = SI_OK \<and> fst (last_pos c) \<in> held (snd s') \<and> write_unlock s' (last_pos c) = (trie, mgr)
     else st = SI_RETRY \<and> s' = (trie, mgr))"
  using upgrade_lock_ok [OF assms] by auto

theorem upgrade_lock_round_trip_witness:
  "write_unlock (snd (upgrade_lock (example_one, []) (copy_of example_one 0 (0, 0)))) (0, 0) = (example_one, [])"
proof -
  let ?c = "copy_of example_one 0 (0, 0)"
  obtain st s' where u: "upgrade_lock (example_one, []) ?c = (st, s')" by (cases "upgrade_lock (example_one, []) ?c")
  have p: "last_pos ?c = (0, 0)" "last_seq ?c = bucket_word example_one 0" by (simp_all add: copy_of_def)
  have "0 < length (buckets example_one)" using table_okD(3) [OF table_invD(1) [OF example_one_ok(3)]] by simp
  then show ?thesis using upgrade_lock_round_trip [OF example_one_ok(5) _ _ u] by (simp add: p u)
qed

text \<open>C26. At the end of an operation every lock of the thread is free, those of the other threads
  are untouched, and nothing but lock bytes has changed.\<close>

theorem release_all_locks_correct:
  assumes "locks_ok others (trie, mgr)"
  shows "\<exists>trie'. release_all_locks (trie, mgr) = (trie', []) \<and> locks_ok others (trie', []) \<and> unlocked trie' = unlocked trie"
  using release_all_locks_ok [OF assms] by (metis prod.collapse)

theorem release_all_locks_correct_witness:
  "\<exists>trie'. release_all_locks example_full = (trie', []) \<and> locks_ok {} (trie', [])"
proof -
  obtain trie mgr where ok: "example_full = (trie, mgr)" "locks_ok {} (trie, mgr)" by (rule example_full_ok)
  then show ?thesis using release_all_locks_correct [OF ok(2)] by auto
qed

text \<open>C27. A write of an entry in two overlapping halves stores exactly that entry, changes no other
  cell, keeps the lock byte and advances the sequence number by two.\<close>

theorem write_entry_stores:
  assumes "table_ok trie" and "p \<in> table_cells trie" and "wf_entry e"
  shows "cell (snd (write_entry trie p e)) q = (if q = p then e else cell trie q) \<and>
    fst (write_entry trie p e) = bucket_word trie (fst p) + 512 \<and>
    bucket_word (snd (write_entry trie p e)) (fst p) = fst (write_entry trie p e) \<and>
    lock_byte (bucket_word (snd (write_entry trie p e)) b) = lock_byte (bucket_word trie b)"
  using cell_write_entry [OF assms, of q] table_cells_valid [OF assms(1,2)] assms(3)
    lock_byte_add by (simp add: write_entry_eq table_simps valid_ptr_def)

theorem write_entry_stores_witness:
  "cell (snd (write_entry example_fresh (0, 0) (root_leaf 65))) (0, 0) = root_leaf 65"
proof -
  have "(0, 0) \<in> table_cells example_fresh"
    using table_invD(5) [OF example_fresh_ok(3)] by (auto simp: table_cells_def valid_table_def valid_sizes_def)
  then show ?thesis
    using write_entry_stores [OF table_invD(1) [OF example_fresh_ok(3)] _ root_leaf_props(1), of "(0, 0)" 65 "(0, 0)" 0] by simp
qed


section \<open>Keys and symbols\<close>

text \<open>C28. The comparison of a key object with a key has the sign of the lexicographic comparison
  of the two byte strings, the length deciding between a key and its extension.\<close>

theorem key_comparison_is_lexicographic:
  assumes "wf_kv kv" and "unat sz = length bytes" and "length bytes < 2 ^ 31"
  shows "(kv_key_compare_to kv sz bytes < 0 \<longleftrightarrow> lex_less (kv_key kv) bytes) \<and>
    (kv_key_compare_to kv sz bytes = 0 \<longleftrightarrow> kv_key kv = bytes) \<and>
    (kv_key_compare_to kv sz bytes > 0 \<longleftrightarrow> lex_less bytes (kv_key kv))"
  using kv_key_compare_to_order [OF assms] by blast

theorem key_comparison_is_lexicographic_witness: "kv_key_compare_to (example_heap 65) 2 [65, 0] < 0"
  using key_comparison_is_lexicographic [OF example_kv(1), of 2 "[65, 0]" 65] by (simp add: example_kv(3))

text \<open>C29. Splitting keys into symbols of five bits, with an end symbol that is smaller than all
  others, keeps their order and is injective; so an iteration in symbol order is one in key
  order, and no two keys share a path.\<close>

theorem symbol_order_is_key_order:
  "(lex_less (key_symbols k1) (key_symbols k2) \<longleftrightarrow> lex_less k1 k2) \<and> (key_symbols k1 = key_symbols k2 \<longleftrightarrow> k1 = k2)"
  using key_symbols_less_iff key_symbols_inject by blast

text \<open>C30. The symbols that the prefetcher expands with bit deposits, eight at a time from eight key
  bytes, are those that \<open>get_string_symbol\<close> extracts one by one, the end symbol included;
  bytes behind the key have no influence.\<close>

theorem symbol_buffer_is_key_symbols:
  assumes "length key \<le> 256" and "i < num_key_symbols (length key)" and "take (length key) bytes = key"
  shows "ucast (byte_at ((symbol_buffer (length key) bytes)[num_key_symbols (length key) - 1 := ucast (0 :: u64)]) i) =
    get_string_symbol (length key) key i"
  using buffer_symbol [OF assms] key_symbols_nth [OF assms(2)] by simp

theorem symbol_buffer_is_key_symbols_witness:
  "ucast (byte_at ((symbol_buffer 2 [7, 200, 99])[num_key_symbols 2 - 1 := ucast (0 :: u64)]) 1) = get_string_symbol 2 [7, 200] 1"
  using symbol_buffer_is_key_symbols [of "[7, 200]" 1 "[7, 200, 99]"] by (simp add: num_key_symbols_def numeral_2_eq_2)

text \<open>C31. When the descent needs the symbol \<open>i\<close> of the key, the prefetcher has delivered it, and
  the hash of the prefix that ends with it.\<close>

theorem prefetcher_is_ahead:
  assumes "length key \<le> 256" and "i < num_key_symbols (length key)" and "take (length key) bytes = key"
  shows "let p = (prefetcher_step trie ^^ (i + 1)) (prefetcher_start trie (length key) bytes)
    in ucast (byte_at (p_key_symbols p) i) = key_symbols key ! i \<and>
      prefix_hashes p ! i = foldl (accumulate_hash trie) 0 (take (i + 1) (key_symbols key))"
  using prefetched_read [OF prefetched_after [OF assms(1,3)], of i "i + 1" trie] assms(2)
  unfolding hash_path_def Let_def by simp

theorem prefetcher_is_ahead_witness:
  "ucast (byte_at (p_key_symbols ((prefetcher_step example_trie ^^ 2) (prefetcher_start example_trie 2 [7, 200]))) 1) =
    key_symbols [7, 200] ! 1"
  using prefetcher_is_ahead [of "[7, 200]" 1 "[7, 200]" example_trie] by (simp add: num_key_symbols_def numeral_2_eq_2 Let_def)

section \<open>Hashing\<close>

text \<open>C32. In a valid table the secondary bucket of a pair is a valid bucket other than the
  primary one, and \<open>unmix_bucket\<close> leads back from it, so that an entry can always be moved
  to the other bucket of its pair and found from there.\<close>

theorem mix_unmix_inverse:
  assumes "valid_table trie" and "b < num_buckets trie" and "tag < 16"
  shows "mix_bucket trie b tag < num_buckets trie \<and> mix_bucket trie b tag \<noteq> b \<and>
    unmix_bucket trie (mix_bucket trie b tag) tag = b \<and> mix_bucket trie (unmix_bucket trie b tag) tag = b"
  using assms pair.mix_valid [of trie b tag] pair.mix_neq [of trie b tag] pair.unmix_mix [of trie b tag]
    pair.mix_unmix [of trie b tag]
  by (simp add: valid_bucket_def valid_tag_def)

theorem mix_unmix_inverse_witness: "mix_bucket example_trie (unmix_bucket example_trie 63 5) 5 = 63"
  using mix_unmix_inverse [OF example_valid_table, of 63 5] by (simp add: example_trie_def)

text \<open>C33. The incremental hash of a prefix stays within the pairs of the table, different symbols
  lead from a prefix to different hashes, and a hash is determined by its bucket and its tag;
  so the children of one node never collide in home bucket and tag.\<close>

theorem child_hashes_distinct:
  assumes "valid_sizes trie" and "valid_hash trie h" and "s \<le> 32" and "s' \<le> 32"
  shows "valid_hash trie (accumulate_hash trie h s) \<and> valid_bucket trie (hash_to_bucket (accumulate_hash trie h s)) \<and>
    (hash_to_bucket (accumulate_hash trie h s) = hash_to_bucket (accumulate_hash trie h s') \<and>
     hash_to_tag (accumulate_hash trie h s) = hash_to_tag (accumulate_hash trie h s') \<longrightarrow> s = s')"
proof -
  have v: "valid_hash trie (accumulate_hash trie h s)"
    using unat_accumulate_hash(2) [OF assms(1-3)] by (simp add: valid_hash_def word_less_nat_alt)
  then show ?thesis
    using hash_split_valid(1) [OF assms(1) v] hash_split_inject accumulate_hash_symbol_inject [OF assms] by blast
qed

theorem child_hashes_distinct_witness: "valid_hash example_trie (accumulate_hash example_trie 0 7)"
  using child_hashes_distinct [OF example_sizes(2) valid_hash_start [OF example_sizes(2)], of 7 7] by simp

text \<open>C34. The table of bucket offsets that \<open>init_bucket_mix_table\<close> draws has, for every valid
  number of buckets, sixteen offsets that are neither 0 nor too large: the draws of the seed
  used are not divisible by 64, which divides the number of buckets.\<close>

theorem mix_table_always_valid:
  assumes "valid_sizes trie"
  shows "valid_table (init_bucket_mix_table trie)"
  using assms by (rule init_bucket_mix_table_valid)

theorem mix_table_always_valid_witness: "valid_table (init_bucket_mix_table example_trie)"
  by (rule mix_table_always_valid [OF example_sizes(2)])

section \<open>Nodes\<close>

text \<open>C35. Splitting a jump node in the middle loses no symbol: those of the head, the split symbol
  and those of the tail are those of the node; the tail inherits the color of the child.\<close>

theorem split_jump_node_keeps_symbols:
  assumes "wf_entry e" and "entry_jump_size e \<le> 8" and "0 < r" and "r + 1 < entry_jump_size e"
  shows "jump_symbols (split_head e r) @ get_jump_symbol e r # jump_symbols (tail_jump_node e r s c) = jump_symbols e \<and>
    entry_child_color (tail_jump_node e r s c) = entry_child_color e"
  using jump_symbols_split [OF assms] jump_symbols_tail(2) [OF assms(1,2,4)] by blast

theorem split_jump_node_keeps_symbols_witness:
  "jump_symbols (split_head (example_entry 0x93 0 1) 2) @ get_jump_symbol (example_entry 0x93 0 1) 2 #
    jump_symbols (tail_jump_node (example_entry 0x93 0 1) 2 9 4) = jump_symbols (example_entry 0x93 0 1)"
proof -
  have "wf_entry (example_entry 0x93 0 1)" "entry_jump_size (example_entry 0x93 0 1) = 6" by code_simp+
  then show ?thesis using split_jump_node_keeps_symbols [of "example_entry 0x93 0 1" 2] by simp
qed

text \<open>C36. For two different keys the loop of \<open>split_leaf\<close> that looks for their first different
  symbol ends, and the jump nodes it builds on the way carry exactly the symbols the keys
  have in common behind the finger's prefix: eight per node, each node with the hash, the tag
  and the last symbol of its prefix.\<close>

theorem split_path_ends:
  assumes "wf_kv kv1" and "wf_kv kv2" and "kv_key kv1 \<noteq> kv_key kv2"
    and "take pos (key_symbols (kv_key kv1)) = take pos (key_symbols (kv_key kv2))"
    and "pos \<le> num_key_symbols (length (kv_key kv1))" and "pos \<le> num_key_symbols (length (kv_key kv2))"
  shows "\<exists>m nodes. pos \<le> m \<and> take m (key_symbols (kv_key kv1)) = take m (key_symbols (kv_key kv2)) \<and>
    key_symbols (kv_key kv1) ! m \<noteq> key_symbols (kv_key kv2) ! m \<and>
    split_path trie kv1 kv2 pos s0 h0 [] = Some (nodes, key_symbols (kv_key kv1) ! m, key_symbols (kv_key kv2) ! m,
      last (s0 # drop pos (take m (key_symbols (kv_key kv1)))),
      foldl (accumulate_hash trie) h0 (drop pos (take m (key_symbols (kv_key kv1))))) \<and>
    path_ok trie s0 h0 nodes (drop pos (take m (key_symbols (kv_key kv1))))"
  using split_path_correct [OF assms, of trie s0 h0] by blast

theorem split_path_ends_witness:
  "\<exists>r. split_path example_trie (example_heap 65) (example_heap 66) 0 0 0 [] = Some r"
proof -
  have "kv_key (example_heap 65) \<noteq> kv_key (example_heap 66)" unfolding example_kv(3) by code_simp
  from split_path_ends [OF example_kv(1) example_kv(1) this, of 0 example_trie 0 0] show ?thesis by auto
qed

text \<open>C37. The search to the left of a path finds the lowest node of the path that has a child to
  the left of the path's own, and the greatest such child; when it finds none, no bitmap of
  the path has one, so that the key has no predecessor.\<close>

theorem left_search_finds_neighbour:
  assumes "symbol < 64" and "\<forall>r\<le>pos. unat (e_last_symbol (node_at path r)) < 64"
  shows "case find_left_descend path pos symbol of
      None \<Rightarrow> \<forall>r\<le>pos. left_edge path pos symbol r
    | Some (q, s) \<Rightarrow> q \<le> pos \<and> (q = pos \<or> entry_type (node_at path q) = TYPE_BITMAP) \<and>
        child_left_of (node_at path q) (path_symbol path pos symbol q) s \<and> (\<forall>r. q < r \<and> r \<le> pos \<longrightarrow> left_edge path pos symbol r)"
  using find_left_descend_correct [OF assms] .

theorem left_search_finds_neighbour_witness:
  "case find_left_descend [\<lparr>pe_entry = zero_copy\<lparr>lc_value := example_entry 0x92 0 0\<rparr>, pe_prefix_hash = 0\<rparr>] 0 9 of
      None \<Rightarrow> left_edge [\<lparr>pe_entry = zero_copy\<lparr>lc_value := example_entry 0x92 0 0\<rparr>, pe_prefix_hash = 0\<rparr>] 0 9 0
    | Some (q, s) \<Rightarrow> q = 0 \<and> child_left_of (example_entry 0x92 0 0) 9 s"
  using left_search_finds_neighbour [of 9 0 "[\<lparr>pe_entry = zero_copy\<lparr>lc_value := example_entry 0x92 0 0\<rparr>, pe_prefix_hash = 0\<rparr>]"]
  by (auto simp: example_entry_def path_symbol_def split: option.splits)

section \<open>Encodings\<close>

text \<open>C38. \<open>put_bits\<close> stores a field of up to 24 bits, most significant bit first, and no other bit
  changes. \<open>copy_bits\<close> copies the bits it is asked for and changes no bit behind the byte in which
  the first bit that is not asked for lies. The bits in between, up to the end of that byte, are
  overwritten with those that follow in the source: no more than filling up the last byte,
  unless the number of bits is a multiple of eight; then it is a whole byte too much, which the
  destination must have room for, as assumed here.\<close>

theorem bit_fields_written:
  assumes "0 < n" and "n \<le> 24" and "dword_start_byte s n + 4 \<le> length bs" and "\<forall>k\<ge>n. \<not> bit v k"
    and "num_bits div 8 < length dest"
  shows "length (put_bits bs s n v) = length bs \<and>
    get_bit (put_bits bs s n v) j = (if s \<le> j \<and> j < s + n then bit v (s + n - 1 - j) else get_bit bs j) \<and>
    length (copy_bits dest src off num_bits) = length dest \<and>
    get_bit (copy_bits dest src off num_bits) i =
      (if i < num_bits then get_bit src (off + i)
       else if i < 8 * (num_bits div 8 + 1) then get_bit src (off + i)
       else get_bit dest i)"
proof (intro conjI)
  show "get_bit (put_bits bs s n v) j = (if s \<le> j \<and> j < s + n then bit v (s + n - 1 - j) else get_bit bs j)"
    using get_bit_put_bits [OF assms(1-3), of v j] assms(4) by blast
  have "num_bits < 8 * (num_bits div 8 + 1)" using dividend_less_times_div [of 8 num_bits] by simp
  then have "i < num_bits \<Longrightarrow> i < 8 * (num_bits div 8 + 1)" by (rule less_trans [rotated])
  then show "get_bit (copy_bits dest src off num_bits) i =
      (if i < num_bits then get_bit src (off + i)
       else if i < 8 * (num_bits div 8 + 1) then get_bit src (off + i) else get_bit dest i)"
    using get_bit_copy_bits [OF assms(5), of i src off] get_bit_copy_bits_beyond [OF assms(5), of i src off] by (simp add: not_less)
qed (use copy_bits_bytes(1) [OF assms(5)] in simp_all)

theorem bit_fields_written_witness:
  "get_bit (put_bits [0, 0, 0, 0, 0] 10 5 19) 10 = bit (19 :: u32) 4 \<and>
   get_bit (copy_bits [0, 0, 0, 0, 0] [1, 2, 3, 4, 5, 6] 3 7) 5 = get_bit [1, 2, 3, 4, 5, 6] 8 \<and>
   get_bit (copy_bits [0, 0, 0, 0, 0] [1, 2, 3, 4, 5, 6] 3 7) 20 = get_bit [0, 0, 0, 0, 0] 20"
proof -
  have v: "\<forall>k\<ge>5. \<not> bit (19 :: u32) k"
  proof (intro allI impI)
    fix k :: nat assume "5 \<le> k"
    moreover have "(19 :: u32) = take_bit 5 19" by code_simp
    ultimately show "\<not> bit (19 :: u32) k" by (metis bit_take_bit_iff not_le)
  qed
  have "dword_start_byte 10 5 + 4 \<le> length [0, 0, 0, 0, 0 :: u8]" by code_simp
  note w = bit_fields_written [OF _ _ this v, of 7 "[0, 0, 0, 0, 0]" 10 "[1, 2, 3, 4, 5, 6]" 3]
  show ?thesis using w [of 5] w [of 20] by simp
qed

section \<open>The datasets, the test scheduler, sampling and statistics\<close>

text \<open>C39. The objects built from a file of keys: \<open>init_dataset\<close> opens the file, and \<open>build_kvs\<close>
  fills the growing buffer with one object per key, up to the number of keys requested, and
  returns pointers to well-formed objects with exactly those keys, in their order, and a value
  of the requested size. The keys of the file are neither empty nor longer than 256 bytes.\<close>

theorem dataset_file_round_trip:
  assumes "fopen name = Some (dataset_file keys key_bytes)" and "take 5 name \<noteq> ''rand-''"
    and "\<forall>key\<in>set keys. good_key key" and "length keys < 2 ^ 64" and "unat value_len < 2 ^ 31"
  shows "\<exists>dataset1 dataset2 memory. init_dataset fopen dataset name requested = (True, dataset1) \<and>
    build_kvs dataset1 value_len rng = (dataset2, rng) \<and> ds_kvs dataset2 = Some memory \<and>
    list_all2 (holds_key value_len memory) (ds_kv_pointers dataset2) (take (min (length keys) (unat requested)) keys)"
  using assms by (rule dataset_file_read)

theorem dataset_file_round_trip_witness:
  "\<exists>dataset1 dataset2 memory p1 p2.
    init_dataset (\<lambda>_. Some (dataset_file [[1, 2], [3], [4]] 4))
      \<lparr>ds_num_keys = 0, ds_total_size = 0, ds_kvs = None, ds_kv_pointers = [], ds_reader = Read_rand_var\<rparr> ''keys'' 2 = (True, dataset1) \<and>
    build_kvs dataset1 8 1 = (dataset2, 1) \<and> ds_kvs dataset2 = Some memory \<and> ds_kv_pointers dataset2 = [p1, p2] \<and>
    kv_key (load_kv memory p1) = [1, 2] \<and> kv_key (load_kv memory p2) = [3]"
  using dataset_file_round_trip [of "\<lambda>_. Some (dataset_file [[1, 2], [3], [4]] 4)" "''keys''" "[[1, 2], [3], [4]]" 4 8
      "\<lparr>ds_num_keys = 0, ds_total_size = 0, ds_kvs = None, ds_kv_pointers = [], ds_reader = Read_rand_var\<rparr>" 2 1]
  by (simp add: good_key_def holds_key_def Let_def list_all2_Cons2) blast


text \<open>C40. As long as a registered thread has not finished, a turn of the deterministic scheduler
  gives the access to exactly one thread, one that has not finished: the rounding of the
  single-precision draw never makes the search run past the last one.\<close>

theorem scheduler_gives_one_turn:
  assumes "sched_ok s" and "mt_debug_enabled s" and "0 < num_running_threads s"
  shows "\<exists>i<length (sched_threads s). \<not> finished s ! i \<and>
    (\<forall>thread. mt_debug_wait_for_access (ct_mtdbg_start s) thread \<longleftrightarrow> thread = sched_threads s ! i)"
  using assms by (rule one_turn)

definition example_sched :: sched where
  "example_sched = ct_mtdbg_register_thread (ct_mtdbg_register_thread (ct_mtdbg_set_enabled sched_init True) 11) 22"

theorem scheduler_gives_one_turn_witness:
  "\<exists>i<2. \<forall>thread. mt_debug_wait_for_access (ct_mtdbg_start example_sched) thread \<longleftrightarrow> thread = [11, 22] ! i"
proof -
  have "sched_ok example_sched" "mt_debug_enabled example_sched" "0 < num_running_threads example_sched"
    "sched_threads example_sched = [11, 22]"
    by (simp_all add: example_sched_def sched_ok_def ct_mtdbg_register_thread_def ct_mtdbg_set_enabled_def sched_init_def)
  then show ?thesis using scheduler_gives_one_turn [of example_sched] by (simp add: numeral_2_eq_2) metis
qed

end
